(* ===== verification/Prelude.thy ===== *)
theory Prelude
  imports Main "HOL-Library.Monad_Syntax" "HOL-Library.Word"
begin

text \<open>
  Shared ground of the development.

  \<^item> A Rust computation that can panic (an assertion, an \<^verbatim>\<open>unwrap\<close> or \<^verbatim>\<open>expect\<close>, an index out
    of range, an explicit \<^verbatim>\<open>panic!\<close>) has a result of type \<open>'a option\<close>; \<open>None\<close> is the panic. Where
    the source returns a \<^verbatim>\<open>Result\<close> the value is a sum with \<open>Inl\<close> for the error.
  \<^item> Unsigned machine integers are natural numbers. The release profile of the workspace does
    not enable overflow checks, so \<^verbatim>\<open>+\<close>, \<^verbatim>\<open>-\<close> and \<^verbatim>\<open>*\<close> wrap around and the wrap is written out
    (\<open>add32\<close>, \<open>add64\<close>, ...). Modules under \<^verbatim>\<open>with_checked_arithmetic\<close> panic instead; they use
    the \<open>checked\<close> versions in the option monad.
  \<^item> A \<^verbatim>\<open>BTreeMap\<close> is an association list with strictly increasing keys, a \<^verbatim>\<open>BTreeSet\<close> a strictly
    increasing list; both orders are visible in the programs' results.
\<close>

named_theorems option_simps \<open>rewriting of the panic monad\<close>
named_theorems fits \<open>arithmetic that stays within its width\<close>

section \<open>Machine arithmetic\<close>

type_synonym bytes = "8 word list"

definition u32_max :: nat where
  "u32_max = 2 ^ 32 - 1"

definition u64_max :: nat where
  "u64_max = 2 ^ 64 - 1"

definition add32 :: "nat \<Rightarrow> nat \<Rightarrow> nat" where
  "add32 a b = (a + b) mod 2 ^ 32"

definition sub32 :: "nat \<Rightarrow> nat \<Rightarrow> nat" where
  "sub32 a b = (a + 2 ^ 32 - b) mod 2 ^ 32"

definition mul32 :: "nat \<Rightarrow> nat \<Rightarrow> nat" where
  "mul32 a b = (a * b) mod 2 ^ 32"

definition add64 :: "nat \<Rightarrow> nat \<Rightarrow> nat" where
  "add64 a b = (a + b) mod 2 ^ 64"

definition sub64 :: "nat \<Rightarrow> nat \<Rightarrow> nat" where
  "sub64 a b = (a + 2 ^ 64 - b) mod 2 ^ 64"

definition mul64 :: "nat \<Rightarrow> nat \<Rightarrow> nat" where
  "mul64 a b = (a * b) mod 2 ^ 64"

definition sum64 :: "nat list \<Rightarrow> nat" where
  "sum64 xs = sum_list xs mod 2 ^ 64"

text \<open>\<^verbatim>\<open>saturating_sub\<close> stops at zero, as subtraction on \<open>nat\<close> does.\<close>

definition saturating_sub :: "nat \<Rightarrow> nat \<Rightarrow> nat" where
  "saturating_sub a b = a - b"

text \<open>\<^verbatim>\<open>checked_add\<close>, \<^verbatim>\<open>checked_sub\<close> and \<^verbatim>\<open>checked_mul\<close> on \<^verbatim>\<open>u64\<close>.\<close>

definition checked_add64 :: "nat \<Rightarrow> nat \<Rightarrow> nat option" where
  "checked_add64 a b = (if a + b < 2 ^ 64 then Some (a + b) else None)"

definition checked_sub64 :: "nat \<Rightarrow> nat \<Rightarrow> nat option" where
  "checked_sub64 a b = (if b \<le> a then Some (a - b) else None)"

definition checked_mul64 :: "nat \<Rightarrow> nat \<Rightarrow> nat option" where
  "checked_mul64 a b = (if a * b < 2 ^ 64 then Some (a * b) else None)"

lemma add32_fits [fits]: "a + b < 2 ^ 32 \<Longrightarrow> add32 a b = a + b"
  by (simp add: add32_def)

lemma sub32_fits [fits]: "b \<le> a \<Longrightarrow> a < 2 ^ 32 \<Longrightarrow> sub32 a b = a - b"
proof -
  assume a: "b \<le> a" "a < 2 ^ 32"
  then have "a + 2 ^ 32 - b = (a - b) + 2 ^ 32" by simp
  then have "sub32 a b = (a - b) mod 2 ^ 32" by (simp only: sub32_def mod_add_self2)
  with a show ?thesis by (simp add: less_imp_diff_less)
qed

lemma mul32_fits [fits]: "a * b < 2 ^ 32 \<Longrightarrow> mul32 a b = a * b"
  by (simp add: mul32_def)

lemma add64_fits [fits]: "a + b < 2 ^ 64 \<Longrightarrow> add64 a b = a + b"
  by (simp add: add64_def)

lemma sub64_fits [fits]: "b \<le> a \<Longrightarrow> a < 2 ^ 64 \<Longrightarrow> sub64 a b = a - b"
proof -
  assume a: "b \<le> a" "a < 2 ^ 64"
  then have "a + 2 ^ 64 - b = (a - b) + 2 ^ 64" by simp
  then have "sub64 a b = (a - b) mod 2 ^ 64" by (simp only: sub64_def mod_add_self2)
  with a show ?thesis by (simp add: less_imp_diff_less)
qed

lemma mul64_fits [fits]: "a * b < 2 ^ 64 \<Longrightarrow> mul64 a b = a * b"
  by (simp add: mul64_def)

lemma sum64_fits [fits]: "sum_list xs < 2 ^ 64 \<Longrightarrow> sum64 xs = sum_list xs"
  by (simp add: sum64_def)

lemma add32_less [simp]: "add32 a b < 2 ^ 32"
  by (simp add: add32_def)

lemma add64_less [simp]: "add64 a b < 2 ^ 64"
  by (simp add: add64_def)

lemma checked_add64_Some [option_simps]:
  "checked_add64 a b = Some c \<longleftrightarrow> c = a + b \<and> a + b < 2 ^ 64"
  by (auto simp: checked_add64_def)

lemma checked_sub64_Some [option_simps]:
  "checked_sub64 a b = Some c \<longleftrightarrow> c = a - b \<and> b \<le> a"
  by (auto simp: checked_sub64_def)

lemma checked_mul64_Some [option_simps]:
  "checked_mul64 a b = Some c \<longleftrightarrow> c = a * b \<and> a * b < 2 ^ 64"
  by (auto simp: checked_mul64_def)

section \<open>The panic monad\<close>

text \<open>\<^verbatim>\<open>assert!(b)\<close> and the indexing \<^verbatim>\<open>xs[i]\<close>, which panics out of range.\<close>

definition rust_assert :: "bool \<Rightarrow> unit option" where
  "rust_assert b = (if b then Some () else None)"

definition index :: "'a list \<Rightarrow> nat \<Rightarrow> 'a option" where
  "index xs i = (if i < length xs then Some (xs ! i) else None)"

lemma rust_assert_Some [option_simps]: "rust_assert b = Some u \<longleftrightarrow> b"
  by (simp add: rust_assert_def)

lemma rust_assert_True [simp]: "rust_assert True = Some ()"
  by (simp add: rust_assert_def)

lemma rust_assert_False [simp]: "rust_assert False = None"
  by (simp add: rust_assert_def)

lemma index_Some [option_simps]: "index xs i = Some x \<longleftrightarrow> i < length xs \<and> x = xs ! i"
  by (auto simp: index_def)

lemma bind_Some_iff [option_simps]:
  "Option.bind m f = Some y \<longleftrightarrow> (\<exists>x. m = Some x \<and> f x = Some y)"
  by (cases m) auto

lemma bind_SomeE:
  assumes "Option.bind m f = Some y"
  obtains x where "m = Some x" "f x = Some y"
  using assms by (cases m) auto

text \<open>A loop that folds a fallible body over a list.\<close>

fun fold_opt :: "('a \<Rightarrow> 's \<Rightarrow> 's option) \<Rightarrow> 'a list \<Rightarrow> 's \<Rightarrow> 's option" where
  "fold_opt f [] s = Some s"
| "fold_opt f (x # xs) s = Option.bind (f x s) (fold_opt f xs)"

lemma fold_opt_append:
  "fold_opt f (xs @ ys) s = Option.bind (fold_opt f xs s) (fold_opt f ys)"
proof (induction xs arbitrary: s)
  case (Cons x xs)
  then show ?case by (cases "f x s") simp_all
qed simp

lemma fold_opt_invariant:
  assumes "fold_opt f xs s = Some t" and "I s"
    and "\<And>x s t. x \<in> set xs \<Longrightarrow> I s \<Longrightarrow> f x s = Some t \<Longrightarrow> I t"
  shows "I t"
  using assms
proof (induction xs arbitrary: s)
  case Nil
  then show ?case by simp
next
  case (Cons x xs)
  from Cons.prems(1) obtain s' where s': "f x s = Some s'" "fold_opt f xs s' = Some t"
    by (auto simp: option_simps)
  have "I s'" using Cons.prems(2,3) s'(1) by auto
  then show ?case using Cons.IH [OF s'(2)] Cons.prems(3) by auto
qed

text \<open>Collecting the results of a fallible map, and filtering by a fallible predicate.\<close>

fun map_opt :: "('a \<Rightarrow> 'b option) \<Rightarrow> 'a list \<Rightarrow> 'b list option" where
  "map_opt f [] = Some []"
| "map_opt f (x # xs) =
     Option.bind (f x) (\<lambda>y. Option.bind (map_opt f xs) (\<lambda>ys. Some (y # ys)))"

fun filter_opt :: "('a \<Rightarrow> bool option) \<Rightarrow> 'a list \<Rightarrow> 'a list option" where
  "filter_opt p [] = Some []"
| "filter_opt p (x # xs) =
     Option.bind (p x) (\<lambda>b. Option.bind (filter_opt p xs) (\<lambda>ys. Some (if b then x # ys else ys)))"

lemma map_opt_Some_iff:
  "map_opt f xs = Some ys \<longleftrightarrow> (\<forall>x\<in>set xs. f x \<noteq> None) \<and> ys = map (the \<circ> f) xs"
  by (induction xs arbitrary: ys) (auto simp: option_simps)

lemma filter_opt_Some_iff:
  "filter_opt p xs = Some ys \<longleftrightarrow>
    (\<forall>x\<in>set xs. p x \<noteq> None) \<and> ys = filter (\<lambda>x. p x = Some True) xs"
proof (induction xs arbitrary: ys)
  case Nil
  then show ?case by auto
next
  case (Cons x xs)
  show ?case
    by (cases "p x") (auto simp: option_simps Cons.IH)
qed

section \<open>Ordered maps and sets\<close>

type_synonym ('k, 'v) btree_map = "('k \<times> 'v) list"

abbreviation keys_sorted :: "('k::linorder, 'v) btree_map \<Rightarrow> bool" where
  "keys_sorted m \<equiv> sorted_wrt (<) (map fst m)"

fun bt_insert :: "'k::linorder \<Rightarrow> 'v \<Rightarrow> ('k, 'v) btree_map \<Rightarrow> ('k, 'v) btree_map" where
  "bt_insert k v [] = [(k, v)]"
| "bt_insert k v (e # m) =
     (if k = fst e then (k, v) # m
      else if k < fst e then (k, v) # e # m
      else e # bt_insert k v m)"

definition bt_get :: "('k, 'v) btree_map \<Rightarrow> 'k \<Rightarrow> 'v option" where
  "bt_get m k = map_of m k"

text \<open>
  The values of the keys between two bounds, in key order. \<^verbatim>\<open>BTreeMap::range\<close> panics when the
  start of the range is greater than its end.
\<close>

definition bt_range_incl :: "('k::linorder, 'v) btree_map \<Rightarrow> 'k \<Rightarrow> 'k \<Rightarrow> 'v list option" where
  "bt_range_incl m lo hi =
     (if lo \<le> hi then Some (map snd (filter (\<lambda>(k, v). lo \<le> k \<and> k \<le> hi) m)) else None)"

definition bt_range_excl :: "('k::linorder, 'v) btree_map \<Rightarrow> 'k \<Rightarrow> 'k \<Rightarrow> 'v list option" where
  "bt_range_excl m lo hi =
     (if lo \<le> hi then Some (map snd (filter (\<lambda>(k, v). lo \<le> k \<and> k < hi) m)) else None)"

fun bs_insert :: "'k::linorder \<Rightarrow> 'k list \<Rightarrow> 'k list" where
  "bs_insert k [] = [k]"
| "bs_insert k (x # xs) =
     (if k = x then x # xs else if k < x then k # x # xs else x # bs_insert k xs)"

definition bs_extend :: "'k::linorder list \<Rightarrow> 'k list \<Rightarrow> 'k list" where
  "bs_extend s ks = fold bs_insert ks s"

lemma keys_bt_insert [simp]: "fst ` set (bt_insert k v m) = insert k (fst ` set m)"
  by (induction m) auto

lemma keys_sorted_bt_insert [simp]: "keys_sorted m \<Longrightarrow> keys_sorted (bt_insert k v m)"
proof (induction m)
  case Nil
  then show ?case by simp
next
  case (Cons e m)
  have "x \<in> fst ` set (bt_insert k v m) \<longleftrightarrow> x = k \<or> x \<in> fst ` set m" for x
    by simp
  with Cons show ?case by (simp; fastforce)
qed

lemma bt_get_insert: "bt_get (bt_insert k v m) = (bt_get m)(k \<mapsto> v)"
  by (induction m) (auto simp: bt_get_def fun_eq_iff)

lemma keys_sorted_distinct: "keys_sorted m \<Longrightarrow> distinct (map fst m)"
  by (simp add: strict_sorted_iff)

lemma bt_get_in_set: "keys_sorted m \<Longrightarrow> bt_get m k = Some v \<longleftrightarrow> (k, v) \<in> set m"
  by (simp add: bt_get_def keys_sorted_distinct)

lemma set_bt_insert:
  assumes "keys_sorted m"
  shows "set (bt_insert k v m) = insert (k, v) {e \<in> set m. fst e \<noteq> k}"
  using assms by (induction m) (auto dest: less_not_sym)

lemma bt_insert_above: "\<forall>k' \<in> fst ` set m. k' < k \<Longrightarrow> bt_insert k v m = m @ [(k, v)]"
  by (induction m) auto

lemma bs_insert_above: "\<forall>x \<in> set xs. x < k \<Longrightarrow> bs_insert k xs = xs @ [k]"
  by (induction xs) auto

lemma fold_bt_insert_sorted: "keys_sorted (m @ xs) \<Longrightarrow> fold (\<lambda>(k, v). bt_insert k v) xs m = m @ xs"
proof (induction xs arbitrary: m)
  case (Cons x xs)
  have "bt_insert (fst x) (snd x) m = m @ [x]" using Cons.prems by (subst bt_insert_above) (auto simp: sorted_wrt_append)
  with Cons show ?case by (simp add: case_prod_beta')
qed simp

lemma set_bs_insert [simp]: "set (bs_insert k xs) = insert k (set xs)"
  by (induction xs) auto

lemma sorted_wrt_bs_insert [simp]: "sorted_wrt (<) xs \<Longrightarrow> sorted_wrt (<) (bs_insert k xs)"
  by (induction xs) auto

lemma set_bs_extend [simp]: "set (bs_extend s ks) = set s \<union> set ks"
  unfolding bs_extend_def by (induction ks arbitrary: s) auto

lemma sorted_wrt_bs_extend [simp]: "sorted_wrt (<) s \<Longrightarrow> sorted_wrt (<) (bs_extend s ks)"
  unfolding bs_extend_def by (induction ks arbitrary: s) auto

text \<open>Removal of a key.\<close>

definition bt_remove :: "'k \<Rightarrow> ('k, 'v) btree_map \<Rightarrow> ('k, 'v) btree_map" where
  "bt_remove k m = filter (\<lambda>e. fst e \<noteq> k) m"

lemma keys_sorted_bt_remove [simp]: "keys_sorted m \<Longrightarrow> keys_sorted (bt_remove k m)"
  unfolding bt_remove_def by (induction m) auto

lemma bt_get_remove: "bt_get (bt_remove k m) = (bt_get m)(k := None)"
  unfolding bt_remove_def bt_get_def by (induction m) auto

text \<open>
  The interface the components use of an ordered map. A client sees the map as a partial
  function and its entries as a list in key order.
\<close>

locale ordered_map =
  fixes empty :: "'m"
    and insert :: "'k::linorder \<Rightarrow> 'v \<Rightarrow> 'm \<Rightarrow> 'm"
    and get :: "'m \<Rightarrow> 'k \<Rightarrow> 'v option"
    and entries :: "'m \<Rightarrow> ('k \<times> 'v) list"
    and inv :: "'m \<Rightarrow> bool"
  assumes inv_empty: "inv empty"
    and get_empty: "get empty k = None"
    and inv_insert: "inv m \<Longrightarrow> inv (insert k v m)"
    and get_insert: "inv m \<Longrightarrow> get (insert k v m) = (get m)(k \<mapsto> v)"
    and entries_sorted: "inv m \<Longrightarrow> sorted_wrt (<) (map fst (entries m))"
    and get_entries: "inv m \<Longrightarrow> get m k = Some v \<longleftrightarrow> (k, v) \<in> set (entries m)"
begin

lemma entries_insert:
  "inv m \<Longrightarrow> (k, v) \<in> set (entries (insert k' v' m)) \<longleftrightarrow>
    (if k = k' then v = v' else (k, v) \<in> set (entries m))"
  using get_entries [OF inv_insert, of m k' v' k v] by (auto simp: get_insert get_entries)

lemma fold_insert_inv: "inv m \<Longrightarrow> inv (fold (\<lambda>(k, v). insert k v) kvs m)"
  by (induction kvs arbitrary: m) (auto simp: inv_insert)

lemma fold_insert_get:
  "inv m \<Longrightarrow> get (fold (\<lambda>(k, v). insert k v) kvs m) k =
    (case map_of (rev kvs) k of None \<Rightarrow> get m k | Some v \<Rightarrow> Some v)"
proof (induction kvs arbitrary: m)
  case Nil
  then show ?case by simp
next
  case (Cons e kvs)
  then show ?case
    by (cases e) (auto simp: inv_insert get_insert map_add_def split: option.splits)
qed

end

interpretation btree: ordered_map "[]" bt_insert bt_get "\<lambda>m. m" keys_sorted
  by unfold_locales (simp_all add: bt_get_insert bt_get_in_set, simp add: bt_get_def)

end
