(* ===== verification/Committee.thy ===== *)
theory Committee
  imports Prelude
begin

text \<open>
  The consensus committee (\<^verbatim>\<open>consensus/config/src/committee.rs\<close>) and the per-epoch context
  (\<^verbatim>\<open>consensus/core/src/context.rs\<close>). The locale \<open>quorum_system\<close> is what the protocol relies on of
  a committee: two quorums share more stake than the faulty authorities hold. It is interpreted
  on the committees that \<open>committee_new\<close> builds.
\<close>

section \<open>Model\<close>

text \<open>Public keys and the network address are opaque to the protocol: only their bytes exist.\<close>

record authority =
  stake :: nat
  address :: string
  hostname :: string
  network_key :: bytes
  protocol_key :: bytes

record committee =
  epoch :: nat
  total_stake :: nat
  quorum_threshold :: nat
  validity_threshold :: nat
  authorities :: "authority list"

definition committee_new :: "nat \<Rightarrow> authority list \<Rightarrow> committee option" where
  "committee_new ep auths = do {
     rust_assert (auths \<noteq> []);
     rust_assert (length auths < u32_max);
     let total = sum64 (map stake auths);
     rust_assert (total \<noteq> 0);
     let quorum = add64 (mul64 2 total div 3) 1;
     let validity = add64 total 2 div 3;
     Some \<lparr>epoch = ep, total_stake = total, quorum_threshold = quorum,
           validity_threshold = validity, authorities = auths\<rparr>
   }"

definition reached_quorum :: "committee \<Rightarrow> nat \<Rightarrow> bool" where
  "reached_quorum c s \<longleftrightarrow> quorum_threshold c \<le> s"

definition reached_validity :: "committee \<Rightarrow> nat \<Rightarrow> bool" where
  "reached_validity c s \<longleftrightarrow> validity_threshold c \<le> s"

text \<open>Indexing by an \<^verbatim>\<open>AuthorityIndex\<close> unwraps \<^verbatim>\<open>get\<close>, so it panics out of range.\<close>

definition committee_stake :: "committee \<Rightarrow> nat \<Rightarrow> nat option" where
  "committee_stake c a = map_option stake (index (authorities c) a)"

definition committee_size :: "committee \<Rightarrow> nat" where
  "committee_size c = length (authorities c)"

definition to_authority_index :: "committee \<Rightarrow> nat \<Rightarrow> nat option" where
  "to_authority_index c i = (if i < committee_size c then Some (i mod 2 ^ 32) else None)"

definition committee_authority :: "committee \<Rightarrow> nat \<Rightarrow> authority option" where
  "committee_authority c a = index (authorities c) a"

definition committee_authorities :: "committee \<Rightarrow> (nat \<times> authority) list" where
  "committee_authorities c =
     map (\<lambda>(i, a). (i mod 2 ^ 32, a)) (zip [0..<length (authorities c)] (authorities c))"

definition committee_exists :: "committee \<Rightarrow> nat \<Rightarrow> bool" where
  "committee_exists c a \<longleftrightarrow> a < committee_size c"

text \<open>
  The context: this authority's index, the committee, the leader timeout in milliseconds and the
  two limits the consensus core reads from the protocol configuration.
\<close>

record consensus_context =
  own_index :: nat
  committee :: committee
  leader_timeout :: nat
  consensus_max_transaction_size_bytes :: nat
  consensus_max_transactions_in_block_bytes :: nat

section \<open>Stake of a set of authorities\<close>

text \<open>
  A committee as \<open>committee_new\<close> builds it, with a total stake small enough that doubling it
  stays within 64 bits (the documented total is 10,000).
\<close>

definition committee_wf :: "committee \<Rightarrow> bool" where
  "committee_wf c \<longleftrightarrow>
     committee_new (epoch c) (authorities c) = Some c \<and>
     2 * sum_list (map stake (authorities c)) + 2 < 2 ^ 64"

definition weight :: "committee \<Rightarrow> nat \<Rightarrow> nat" where
  "weight c a = (case committee_stake c a of Some s \<Rightarrow> s | None \<Rightarrow> 0)"

definition members :: "committee \<Rightarrow> nat set" where
  "members c = {..<committee_size c}"

definition stake_of :: "committee \<Rightarrow> nat set \<Rightarrow> nat" where
  "stake_of c S = sum (weight c) S"

lemma committee_stake_Some [option_simps]:
  "committee_stake c a = Some s \<longleftrightarrow> a < committee_size c \<and> s = stake (authorities c ! a)"
  by (auto simp: committee_stake_def committee_size_def index_def)

lemma committee_stake_weight:
  "committee_stake c a = (if a \<in> members c then Some (weight c a) else None)"
  by (auto simp: weight_def members_def committee_stake_def committee_size_def index_def)

lemma stake_of_members: "stake_of c (members c) = sum_list (map stake (authorities c))"
proof -
  have "stake_of c (members c) = (\<Sum>a<length (authorities c). stake (authorities c ! a))"
    unfolding stake_of_def members_def committee_size_def
    by (rule sum.cong) (auto simp: weight_def committee_stake_def index_def)
  then show ?thesis
    by (simp add: sum_list_sum_nth atLeast0LessThan)
qed

lemma stake_of_mono: "S \<subseteq> T \<Longrightarrow> finite T \<Longrightarrow> stake_of c S \<le> stake_of c T"
  unfolding stake_of_def by (rule sum_mono2) auto

lemma stake_of_empty [simp]: "stake_of c {} = 0"
  by (simp add: stake_of_def)

lemma stake_of_insert [simp]:
  "finite S \<Longrightarrow> stake_of c (insert a S) = (if a \<in> S then 0 else weight c a) + stake_of c S"
  by (simp add: stake_of_def insert_absorb)

lemma finite_members [simp]: "finite (members c)"
  by (simp add: members_def)

lemma committee_wf_thresholds:
  assumes "committee_wf c"
  shows "total_stake c = stake_of c (members c)"
    and "quorum_threshold c = 2 * total_stake c div 3 + 1"
    and "validity_threshold c = (total_stake c + 2) div 3"
    and "0 < total_stake c" and "2 * total_stake c + 2 < 2 ^ 64"
proof -
  define t where "t = sum64 (map stake (authorities c))"
  from assms have new: "committee_new (epoch c) (authorities c) = Some c"
    and b: "2 * sum_list (map stake (authorities c)) + 2 < 2 ^ 64"
    by (auto simp: committee_wf_def)
  then have t: "stake_of c (members c) = t" and b': "2 * t + 2 < 2 ^ 64"
    by (simp_all add: t_def fits stake_of_members)
  from new have rec: "\<lparr>epoch = epoch c, total_stake = t,
      quorum_threshold = add64 (mul64 2 t div 3) 1,
      validity_threshold = add64 t 2 div 3, authorities = authorities c\<rparr> = c"
    and "t \<noteq> 0"
    unfolding committee_new_def t_def by (auto simp: option_simps Let_def)
  have "total_stake c = t" "quorum_threshold c = add64 (mul64 2 t div 3) 1"
    "validity_threshold c = add64 t 2 div 3"
    by (subst rec [symmetric], simp)+
  moreover have "add64 (mul64 2 t div 3) 1 = 2 * t div 3 + 1" "add64 t 2 = t + 2"
    using b' by (simp_all add: mul64_fits add64_fits)
  ultimately show "total_stake c = stake_of c (members c)"
    and "quorum_threshold c = 2 * total_stake c div 3 + 1"
    and "validity_threshold c = (total_stake c + 2) div 3"
    and "0 < total_stake c" and "2 * total_stake c + 2 < 2 ^ 64"
    using b' \<open>t \<noteq> 0\<close> t by simp_all
qed

lemma weight_le_total: "committee_wf c \<Longrightarrow> a \<in> members c \<Longrightarrow> weight c a \<le> total_stake c"
  using stake_of_mono [of "{a}" "members c" c] committee_wf_thresholds(1) [of c] by simp

section \<open>Quorum systems\<close>

locale quorum_system =
  fixes wf :: "'c \<Rightarrow> bool"
    and nodes :: "'c \<Rightarrow> 'a set"
    and wt :: "'c \<Rightarrow> 'a \<Rightarrow> nat"
    and quorum :: "'c \<Rightarrow> nat"
    and validity :: "'c \<Rightarrow> nat"
  assumes nodes_finite: "wf c \<Longrightarrow> finite (nodes c)"
    and two_quorums: "wf c \<Longrightarrow> sum (wt c) (nodes c) + validity c \<le> 2 * quorum c"
    and quorum_validity: "wf c \<Longrightarrow> sum (wt c) (nodes c) < quorum c + validity c"
begin

lemma sum_Int_ge:
  assumes "wf c" "A \<subseteq> nodes c" "B \<subseteq> nodes c"
  shows "sum (wt c) A + sum (wt c) B \<le> sum (wt c) (nodes c) + sum (wt c) (A \<inter> B)"
proof -
  have fin: "finite A" "finite B"
    using assms nodes_finite finite_subset by blast+
  have "sum (wt c) A + sum (wt c) B = sum (wt c) (A \<union> B) + sum (wt c) (A \<inter> B)"
    using sum.union_inter [OF fin, of "wt c"] by simp
  moreover have "sum (wt c) (A \<union> B) \<le> sum (wt c) (nodes c)"
    by (rule sum_mono2) (use assms nodes_finite in auto)
  ultimately show ?thesis by simp
qed

text \<open>Two quorums overlap in at least the validity threshold.\<close>

lemma quorums_intersect:
  assumes "wf c" "A \<subseteq> nodes c" "B \<subseteq> nodes c"
    and "quorum c \<le> sum (wt c) A" "quorum c \<le> sum (wt c) B"
  shows "validity c \<le> sum (wt c) (A \<inter> B)"
  using sum_Int_ge [OF assms(1-3)] two_quorums [OF assms(1)] assms(4,5) by linarith

text \<open>With less than the validity threshold faulty, two quorums share an honest node.\<close>

lemma quorums_share_honest:
  assumes "wf c" "A \<subseteq> nodes c" "B \<subseteq> nodes c"
    and "quorum c \<le> sum (wt c) A" "quorum c \<le> sum (wt c) B"
    and faulty: "sum (wt c) (F \<inter> nodes c) < validity c"
  shows "\<exists>a. a \<in> A \<and> a \<in> B \<and> a \<notin> F"
proof (rule ccontr)
  assume "\<nexists>a. a \<in> A \<and> a \<in> B \<and> a \<notin> F"
  then have "A \<inter> B \<subseteq> F \<inter> nodes c"
    using assms(2) by auto
  then have "sum (wt c) (A \<inter> B) \<le> sum (wt c) (F \<inter> nodes c)"
    by (rule sum_mono2 [rotated]) (use nodes_finite [OF assms(1)] in auto)
  with quorums_intersect [OF assms(1-5)] faulty show False by simp
qed

text \<open>A quorum meets every set that reaches the validity threshold.\<close>

lemma quorum_meets_validity:
  assumes "wf c" "A \<subseteq> nodes c" "B \<subseteq> nodes c"
    and "quorum c \<le> sum (wt c) A" "validity c \<le> sum (wt c) B"
  shows "A \<inter> B \<noteq> {}"
proof
  assume "A \<inter> B = {}"
  then have "sum (wt c) A + sum (wt c) B \<le> sum (wt c) (nodes c)"
    using sum_Int_ge [OF assms(1-3)] by simp
  with quorum_validity [OF assms(1)] assms(4,5) show False by linarith
qed

end

interpretation bft: quorum_system committee_wf members weight quorum_threshold validity_threshold
proof unfold_locales
  fix c
  assume wf: "committee_wf c"
  note t = committee_wf_thresholds [OF wf]
  show "sum (weight c) (members c) + validity_threshold c \<le> 2 * quorum_threshold c"
    using t(1-3) by (simp add: stake_of_def)
  show "sum (weight c) (members c) < quorum_threshold c + validity_threshold c"
    using t(1-3) by (simp add: stake_of_def)
qed simp

text \<open>The faulty authorities hold less than the validity threshold (f+1).\<close>

definition bft_faulty :: "committee \<Rightarrow> nat set \<Rightarrow> bool" where
  "bft_faulty c F \<longleftrightarrow> stake_of c (F \<inter> members c) < validity_threshold c"

definition is_quorum :: "committee \<Rightarrow> nat set \<Rightarrow> bool" where
  "is_quorum c S \<longleftrightarrow> S \<subseteq> members c \<and> quorum_threshold c \<le> stake_of c S"

lemma is_quorum_share_honest:
  "committee_wf c \<Longrightarrow> is_quorum c A \<Longrightarrow> is_quorum c B \<Longrightarrow> bft_faulty c F \<Longrightarrow>
    \<exists>a. a \<in> A \<and> a \<in> B \<and> a \<notin> F"
  using bft.quorums_share_honest [of c A B F]
  by (auto simp: is_quorum_def bft_faulty_def stake_of_def)

lemma is_quorum_mono:
  "is_quorum c A \<Longrightarrow> A \<subseteq> B \<Longrightarrow> B \<subseteq> members c \<Longrightarrow> is_quorum c B"
  using stake_of_mono [of A B c] finite_subset [of B "members c"] by (auto simp: is_quorum_def)

lemma is_quorum_nonempty: "committee_wf c \<Longrightarrow> is_quorum c A \<Longrightarrow> A \<noteq> {}"
  using committee_wf_thresholds(2) [of c] by (auto simp: is_quorum_def)

end
