(* ===== verification/Block.thy ===== *)
theory Block
  imports Committee
begin

text \<open>
  Blocks of the consensus DAG (\<^verbatim>\<open>consensus/core/src/block.rs\<close>), the errors of
  \<^verbatim>\<open>consensus/core/src/error.rs\<close> and commits (\<^verbatim>\<open>consensus/core/src/commit.rs\<close>).
  The BCS serializer, the hash function and the signature scheme are libraries the sources call:
  they are the fields of the record \<open>crypto\<close>, an argument of the definitions that use them.
\<close>

section \<open>Data\<close>

text \<open>
  A \<^verbatim>\<open>BlockDigest\<close> is 32 bytes compared lexicographically, which is the order of the 256-bit
  number the bytes write in big-endian order.
\<close>

type_synonym digest = "256 word"

definition digest_MIN :: digest where
  "digest_MIN = 0"

definition digest_MAX :: digest where
  "digest_MAX = - 1"

datatype block_ref = BlockRef (br_round: nat) (br_author: nat) (br_digest: digest)

text \<open>The derived \<^verbatim>\<open>Ord\<close> of \<^verbatim>\<open>BlockRef\<close>: round, then author, then digest.\<close>

instantiation block_ref :: linorder
begin

definition less_eq_block_ref :: "block_ref \<Rightarrow> block_ref \<Rightarrow> bool" where
  "less_eq_block_ref a b \<longleftrightarrow>
     br_round a < br_round b \<or>
     br_round a = br_round b \<and>
       (br_author a < br_author b \<or>
        br_author a = br_author b \<and> br_digest a \<le> br_digest b)"

definition less_block_ref :: "block_ref \<Rightarrow> block_ref \<Rightarrow> bool" where
  "less_block_ref a b \<longleftrightarrow>
     br_round a < br_round b \<or>
     br_round a = br_round b \<and>
       (br_author a < br_author b \<or>
        br_author a = br_author b \<and> br_digest a < br_digest b)"

instance
  by standard
    (auto simp: less_eq_block_ref_def less_block_ref_def intro: block_ref.expand)

end

record slot =
  slot_round :: nat
  slot_authority :: nat

definition slot_of :: "block_ref \<Rightarrow> slot" where
  "slot_of r = \<lparr>slot_round = br_round r, slot_authority = br_author r\<rparr>"

record transaction =
  data :: bytes

record block_v1 =
  bv_epoch :: nat
  bv_round :: nat
  bv_author :: nat
  bv_timestamp_ms :: nat
  bv_ancestors :: "block_ref list"
  bv_transactions :: "transaction list"

datatype block = V1 block_v1

fun block_epoch :: "block \<Rightarrow> nat" where "block_epoch (V1 b) = bv_epoch b"
fun block_round :: "block \<Rightarrow> nat" where "block_round (V1 b) = bv_round b"
fun block_author :: "block \<Rightarrow> nat" where "block_author (V1 b) = bv_author b"
fun block_timestamp_ms :: "block \<Rightarrow> nat" where "block_timestamp_ms (V1 b) = bv_timestamp_ms b"
fun block_ancestors :: "block \<Rightarrow> block_ref list" where "block_ancestors (V1 b) = bv_ancestors b"
fun block_transactions :: "block \<Rightarrow> transaction list" where
  "block_transactions (V1 b) = bv_transactions b"

definition genesis_round :: nat where
  "genesis_round = 0"

definition block_v1_genesis :: "nat \<Rightarrow> nat \<Rightarrow> block_v1" where
  "block_v1_genesis a ep =
     \<lparr>bv_epoch = ep, bv_round = genesis_round, bv_author = a, bv_timestamp_ms = 0,
      bv_ancestors = [], bv_transactions = []\<rparr>"

record signed_block =
  inner :: block
  signature :: bytes

record verified_block =
  vb_block :: signed_block
  vb_digest :: digest
  vb_serialized :: bytes

text \<open>A \<^verbatim>\<open>VerifiedBlock\<close> dereferences to the block it holds.\<close>

definition round_of :: "verified_block \<Rightarrow> nat" where
  "round_of b = block_round (inner (vb_block b))"

definition author_of :: "verified_block \<Rightarrow> nat" where
  "author_of b = block_author (inner (vb_block b))"

definition timestamp_of :: "verified_block \<Rightarrow> nat" where
  "timestamp_of b = block_timestamp_ms (inner (vb_block b))"

definition ancestors :: "verified_block \<Rightarrow> block_ref list" where
  "ancestors b = block_ancestors (inner (vb_block b))"

definition transactions_of :: "verified_block \<Rightarrow> transaction list" where
  "transactions_of b = block_transactions (inner (vb_block b))"

definition reference :: "verified_block \<Rightarrow> block_ref" where
  "reference b = BlockRef (round_of b) (author_of b) (vb_digest b)"

section \<open>Errors\<close>

datatype consensus_error =
    MalformedBlock
  | RocksDBFailure
  | SignatureVerificationFailure
  | UnknownAuthority string

text \<open>\<^verbatim>\<open>Display\<close> of an authority index: a capital letter below 26, else two digits or more in brackets.\<close>

fun show_nat :: "nat \<Rightarrow> string" where
  "show_nat n =
     (if n < 10 then [char_of (48 + n)] else show_nat (n div 10) @ [char_of (48 + n mod 10)])"

declare show_nat.simps [simp del]

definition authority_display :: "nat \<Rightarrow> string" where
  "authority_display a =
     (if a < 26 then [char_of (65 + a)] else ''['' @ show_nat a @ '']'')"

section \<open>Signing and verifying\<close>

text \<open>
  The libraries: \<open>bcs_block\<close> and \<open>bcs_signed_block\<close> are \<^verbatim>\<open>bcs::to_bytes\<close> (\<open>None\<close> for its
  error), \<open>hash\<close> the default hash function, \<open>sign\<close> the signature of the consensus intent of a digest
  with a key pair, \<open>sig_parse\<close> and \<open>sig_check\<close> parsing a signature and verifying it under a public key.
\<close>

record crypto =
  bcs_block :: "block \<Rightarrow> bytes option"
  bcs_signed_block :: "signed_block \<Rightarrow> bytes option"
  hash :: "bytes \<Rightarrow> digest"
  sign :: "bytes \<Rightarrow> digest \<Rightarrow> bytes"
  sig_parse :: "bytes \<Rightarrow> bytes option"
  sig_check :: "bytes \<Rightarrow> digest \<Rightarrow> bytes \<Rightarrow> bool"

definition compute_digest :: "crypto \<Rightarrow> block \<Rightarrow> consensus_error + digest" where
  "compute_digest cr b =
     (case bcs_block cr b of None \<Rightarrow> Inl MalformedBlock | Some bs \<Rightarrow> Inr (hash cr bs))"

definition signed_block_new_genesis :: "block \<Rightarrow> signed_block" where
  "signed_block_new_genesis b = \<lparr>inner = b, signature = []\<rparr>"

definition signed_block_new :: "crypto \<Rightarrow> block \<Rightarrow> bytes \<Rightarrow> consensus_error + signed_block" where
  "signed_block_new cr b key =
     (case compute_digest cr b of
        Inl e \<Rightarrow> Inl e
      | Inr d \<Rightarrow> Inr \<lparr>inner = b, signature = sign cr key d\<rparr>)"

definition signed_block_verify ::
  "crypto \<Rightarrow> consensus_context \<Rightarrow> signed_block \<Rightarrow> consensus_error + unit" where
  "signed_block_verify cr ctx sb =
     (case compute_digest cr (inner sb) of
        Inl e \<Rightarrow> Inl e
      | Inr d \<Rightarrow>
          (if \<not> committee_exists (committee ctx) (block_author (inner sb))
           then Inl (UnknownAuthority (authority_display (block_author (inner sb))))
           else
             (let a = authorities (committee ctx) ! block_author (inner sb) in
              case sig_parse cr (signature sb) of
                None \<Rightarrow> Inl SignatureVerificationFailure
              | Some s \<Rightarrow>
                  if sig_check cr s d (network_key a) then Inr ()
                  else Inl SignatureVerificationFailure)))"

definition signed_block_serialize :: "crypto \<Rightarrow> signed_block \<Rightarrow> consensus_error + bytes" where
  "signed_block_serialize cr sb =
     (case bcs_signed_block cr sb of None \<Rightarrow> Inl MalformedBlock | Some bs \<Rightarrow> Inr bs)"

definition new_verified ::
  "crypto \<Rightarrow> signed_block \<Rightarrow> bytes \<Rightarrow> consensus_error + verified_block" where
  "new_verified cr sb bs =
     (case compute_digest cr (inner sb) of
        Inl e \<Rightarrow> Inl e
      | Inr d \<Rightarrow> Inr \<lparr>vb_block = sb, vb_digest = d, vb_serialized = bs\<rparr>)"

definition new_verified_unserialized ::
  "crypto \<Rightarrow> signed_block \<Rightarrow> consensus_error + verified_block" where
  "new_verified_unserialized cr sb =
     (case signed_block_serialize cr sb of Inl e \<Rightarrow> Inl e | Inr bs \<Rightarrow> new_verified cr sb bs)"

text \<open>\<^verbatim>\<open>expect\<close>: the value of a result, a panic on its error.\<close>

definition expect :: "'e + 'a \<Rightarrow> 'a option" where
  "expect r = (case r of Inl e \<Rightarrow> None | Inr x \<Rightarrow> Some x)"

text \<open>\<^verbatim>\<open>Block::genesis\<close>: this authority's genesis block and those of the others, in index order.\<close>

definition block_genesis ::
  "crypto \<Rightarrow> consensus_context \<Rightarrow> (verified_block \<times> verified_block list) option" where
  "block_genesis cr ctx = do {
     blocks \<leftarrow> map_opt
       (\<lambda>(i, a). expect (new_verified_unserialized cr
          (signed_block_new_genesis (V1 (block_v1_genesis i (epoch (committee ctx)))))))
       (committee_authorities (committee ctx));
     let my = filter (\<lambda>b. author_of b = own_index ctx) blocks;
     let others = filter (\<lambda>b. author_of b \<noteq> own_index ctx) blocks;
     m \<leftarrow> index my 0;
     Some (m, others)
   }"

section \<open>Commits and leader statuses\<close>

record commit =
  commit_index :: nat
  leader :: block_ref
  blocks :: "block_ref list"
  last_committed_rounds :: "nat list"

definition MINIMUM_WAVE_LENGTH :: nat where
  "MINIMUM_WAVE_LENGTH = 3"

definition DEFAULT_WAVE_LENGTH :: nat where
  "DEFAULT_WAVE_LENGTH = MINIMUM_WAVE_LENGTH"

datatype decision = Direct | Indirect

datatype leader_status = Commit verified_block | Skip slot | Undecided slot

fun status_round :: "leader_status \<Rightarrow> nat" where
  "status_round (Commit b) = round_of b"
| "status_round (Skip s) = slot_round s"
| "status_round (Undecided s) = slot_round s"

fun status_authority :: "leader_status \<Rightarrow> nat" where
  "status_authority (Commit b) = author_of b"
| "status_authority (Skip s) = slot_authority s"
| "status_authority (Undecided s) = slot_authority s"

fun is_decided :: "leader_status \<Rightarrow> bool" where
  "is_decided (Commit _) = True"
| "is_decided (Skip _) = True"
| "is_decided (Undecided _) = False"

section \<open>Lemmas\<close>

lemma br_round_reference [simp]: "br_round (reference b) = round_of b"
  and br_author_reference [simp]: "br_author (reference b) = author_of b"
  and br_digest_reference [simp]: "br_digest (reference b) = vb_digest b"
  by (simp_all add: reference_def)

lemma slot_of_simps [simp]:
  "slot_round (slot_of r) = br_round r" "slot_authority (slot_of r) = br_author r"
  by (simp_all add: slot_of_def)

lemma slot_of_eq_iff:
  "slot_of r = s \<longleftrightarrow> br_round r = slot_round s \<and> br_author r = slot_authority s"
  by (cases s) (simp add: slot_of_def)

lemma digest_bounds [simp]: "digest_MIN \<le> d" "d \<le> digest_MAX"
  by (simp_all add: digest_MIN_def digest_MAX_def)

text \<open>The range of a slot: exactly the references of that round and author.\<close>

lemma in_slot_range:
  "BlockRef r a digest_MIN \<le> x \<and> x \<le> BlockRef r a digest_MAX \<longleftrightarrow>
     br_round x = r \<and> br_author x = a"
  by (auto simp: less_eq_block_ref_def)

text \<open>The range from a round to the next one: exactly the references of that round.\<close>

lemma in_round_range:
  "BlockRef r 0 digest_MIN \<le> x \<and> x < BlockRef (Suc r) 0 digest_MIN \<longleftrightarrow> br_round x = r"
  by (auto simp: less_eq_block_ref_def less_block_ref_def digest_MIN_def)

lemma block_ref_less_round: "a \<le> b \<Longrightarrow> br_round a \<le> br_round b"
  by (auto simp: less_eq_block_ref_def)

end
