(* ===== verification/DagState.thy ===== *)
theory DagState
  imports Block
begin

text \<open>
  \<^verbatim>\<open>consensus/core/src/dag_state.rs\<close>: the accepted blocks of the DAG. Reads of the persistent
  store happen only at start, so \<open>dag_state_new\<close> takes the two reads as arguments. The traversal
  of \<open>ancestors_at_uncommitted_round\<close> is a partial function: \<open>None\<close> is a panic or a run without end,
  and its termination is proved for well-formed DAGs.
\<close>

section \<open>Model\<close>

definition CACHED_ROUNDS :: nat where
  "CACHED_ROUNDS = 100"

record dag_state =
  ds_context :: consensus_context
  recent_blocks :: "(block_ref, verified_block) btree_map"
  cached_refs :: "block_ref list list"
  last_commit :: "commit option"
  highest_accepted_round :: nat

definition last_commit_round :: "dag_state \<Rightarrow> nat" where
  "last_commit_round d = (case last_commit d of Some c \<Rightarrow> br_round (leader c) | None \<Rightarrow> 0)"

definition get_uncommitted_block :: "dag_state \<Rightarrow> block_ref \<Rightarrow> verified_block option" where
  "get_uncommitted_block d r = bt_get (recent_blocks d) r"

definition get_uncommitted_blocks_at_slot :: "dag_state \<Rightarrow> slot \<Rightarrow> verified_block list option" where
  "get_uncommitted_blocks_at_slot d s =
     bt_range_incl (recent_blocks d)
       (BlockRef (slot_round s) (slot_authority s) digest_MIN)
       (BlockRef (slot_round s) (slot_authority s) digest_MAX)"

definition get_uncommitted_blocks_at_round :: "dag_state \<Rightarrow> nat \<Rightarrow> verified_block list option" where
  "get_uncommitted_blocks_at_round d r = do {
     rust_assert (\<not> r \<le> last_commit_round d);
     bt_range_excl (recent_blocks d) (BlockRef r 0 digest_MIN) (BlockRef (add32 r 1) 0 digest_MIN)
   }"

definition accept_block :: "verified_block \<Rightarrow> dag_state \<Rightarrow> dag_state option" where
  "accept_block b d = do {
     let r = reference b;
     _ \<leftarrow> (if br_author r = own_index (ds_context d) then do {
              existing \<leftarrow> get_uncommitted_blocks_at_slot d (slot_of r);
              rust_assert (existing = [])
            } else Some ());
     refs \<leftarrow> index (cached_refs d) (br_author r);
     Some (d\<lparr>recent_blocks := bt_insert r b (recent_blocks d),
             cached_refs := (cached_refs d)[br_author r := bs_insert r refs],
             highest_accepted_round := max (highest_accepted_round d) (round_of b)\<rparr>)
   }"

definition dag_state_new ::
  "consensus_context \<Rightarrow> commit option \<Rightarrow> (nat \<Rightarrow> nat \<Rightarrow> verified_block list option) \<Rightarrow> dag_state option"
where
  "dag_state_new ctx stored_commit scan = do {
     let n = committee_size (committee ctx);
     let rounds = (case stored_commit of Some c \<Rightarrow> last_committed_rounds c | None \<Rightarrow> replicate n 0);
     fold_opt
       (\<lambda>(i, r) d. do {
          a \<leftarrow> to_authority_index (committee ctx) i;
          bs \<leftarrow> scan a (saturating_sub r CACHED_ROUNDS);
          fold_opt accept_block bs d
        })
       (zip [0..<length rounds] rounds)
       \<lparr>ds_context = ctx, recent_blocks = [], cached_refs = replicate n [],
        last_commit = stored_commit, highest_accepted_round = 0\<rparr>
   }"

partial_function (option) linked_loop ::
  "(block_ref, verified_block) btree_map \<Rightarrow> nat \<Rightarrow> block_ref list \<Rightarrow> block_ref list option" where
  "linked_loop m earlier linked =
     (if linked = [] then Some linked
      else if br_round (last linked) \<le> earlier then Some linked
      else Option.bind (bt_get m (last linked))
             (\<lambda>b. linked_loop m earlier (bs_extend (butlast linked) (ancestors b))))"

declare linked_loop.simps [code]

definition ancestors_at_uncommitted_round ::
  "dag_state \<Rightarrow> verified_block \<Rightarrow> nat \<Rightarrow> verified_block list option" where
  "ancestors_at_uncommitted_round d later earlier = do {
     rust_assert (\<not> earlier \<le> last_commit_round d);
     rust_assert (\<not> round_of later \<le> earlier);
     linked \<leftarrow> linked_loop (recent_blocks d) earlier (bs_extend [] (ancestors later));
     map_opt (bt_get (recent_blocks d)) (filter (\<lambda>r. BlockRef earlier 0 digest_MIN \<le> r) linked)
   }"

section \<open>Well-formed states\<close>

definition dag_blocks :: "dag_state \<Rightarrow> verified_block set" where
  "dag_blocks d = snd ` set (recent_blocks d)"

text \<open>A block's ancestors are of earlier rounds; its author is a member; its round leaves room.\<close>

definition block_ok :: "committee \<Rightarrow> verified_block \<Rightarrow> bool" where
  "block_ok c b \<longleftrightarrow>
     author_of b \<in> members c \<and> round_of b < u32_max \<and>
     (\<forall>r \<in> set (ancestors b). br_round r < round_of b)"

definition dag_inv :: "dag_state \<Rightarrow> bool" where
  "dag_inv d \<longleftrightarrow>
     keys_sorted (recent_blocks d) \<and>
     (\<forall>(k, b) \<in> set (recent_blocks d).
        k = reference b \<and> block_ok (committee (ds_context d)) b \<and>
        round_of b \<le> highest_accepted_round d) \<and>
     length (cached_refs d) = committee_size (committee (ds_context d)) \<and>
     (\<forall>a < length (cached_refs d). \<forall>(k, b) \<in> set (recent_blocks d).
        author_of b = a \<longrightarrow> k \<in> set (cached_refs d ! a))"

lemma dag_inv_sorted: "dag_inv d \<Longrightarrow> keys_sorted (recent_blocks d)"
  by (simp add: dag_inv_def)

lemma dag_inv_entry:
  "dag_inv d \<Longrightarrow> (k, b) \<in> set (recent_blocks d) \<Longrightarrow>
    k = reference b \<and> block_ok (committee (ds_context d)) b \<and> round_of b \<le> highest_accepted_round d"
  unfolding dag_inv_def by blast

lemma in_dag_blocks: "dag_inv d \<Longrightarrow> b \<in> dag_blocks d \<longleftrightarrow> (reference b, b) \<in> set (recent_blocks d)"
  unfolding dag_blocks_def by (force simp: image_iff dest: dag_inv_entry)

lemma get_block_iff:
  "dag_inv d \<Longrightarrow> get_uncommitted_block d r = Some b \<longleftrightarrow> (r, b) \<in> set (recent_blocks d)"
  by (simp add: get_uncommitted_block_def bt_get_in_set dag_inv_sorted)

lemma dag_blocks_iff:
  "dag_inv d \<Longrightarrow> b \<in> dag_blocks d \<longleftrightarrow> get_uncommitted_block d (reference b) = Some b"
  by (simp add: in_dag_blocks get_block_iff)

lemma get_block_Some:
  "dag_inv d \<Longrightarrow> get_uncommitted_block d r = Some b \<Longrightarrow> reference b = r \<and> b \<in> dag_blocks d"
  using dag_inv_entry [of d r b] by (auto simp: get_block_iff in_dag_blocks)

lemma dag_blocks_ok: "dag_inv d \<Longrightarrow> b \<in> dag_blocks d \<Longrightarrow> block_ok (committee (ds_context d)) b"
  by (auto simp: dag_blocks_def dag_inv_def)

lemma dag_blocks_reference_inj:
  "dag_inv d \<Longrightarrow> b \<in> dag_blocks d \<Longrightarrow> b' \<in> dag_blocks d \<Longrightarrow> reference b = reference b' \<Longrightarrow> b = b'"
  by (simp add: dag_blocks_iff)

lemma at_slot_Some:
  assumes "dag_inv d"
  shows "\<exists>bs. get_uncommitted_blocks_at_slot d s = Some bs \<and> distinct bs \<and>
    set bs = {b \<in> dag_blocks d. slot_of (reference b) = s}"
proof -
  let ?P = "\<lambda>(k, v). BlockRef (slot_round s) (slot_authority s) digest_MIN \<le> k \<and>
     k \<le> BlockRef (slot_round s) (slot_authority s) digest_MAX"
  let ?bs = "map snd (filter ?P (recent_blocks d))"
  have "BlockRef (slot_round s) (slot_authority s) digest_MIN \<le> BlockRef (slot_round s) (slot_authority s) digest_MAX"
    by (simp add: less_eq_block_ref_def)
  then have g: "get_uncommitted_blocks_at_slot d s = Some ?bs"
    by (simp add: get_uncommitted_blocks_at_slot_def bt_range_incl_def)
  have "inj_on snd (set (recent_blocks d))"
    by (rule inj_onI) (metis dag_inv_entry [OF assms] prod.collapse)
  then have "distinct ?bs"
    using keys_sorted_distinct [OF dag_inv_sorted [OF assms]]
    by (auto simp: distinct_map distinct_map_filter intro: inj_on_subset)
  moreover have "set ?bs = {b \<in> dag_blocks d. slot_of (reference b) = s}"
    using dag_inv_entry [OF assms]
    by (force simp: in_slot_range in_dag_blocks [OF assms] slot_of_eq_iff)
  ultimately show ?thesis using g by blast
qed

lemma at_round_Some:
  assumes "dag_inv d" and "last_commit_round d < r" and "r < u32_max"
  shows "\<exists>bs. get_uncommitted_blocks_at_round d r = Some bs \<and>
    set bs = {b \<in> dag_blocks d. round_of b = r}"
proof -
  have "add32 r 1 = Suc r" using assms(3) by (simp add: add32_fits u32_max_def)
  moreover have "BlockRef r 0 digest_MIN \<le> BlockRef (Suc r) 0 digest_MIN"
    by (simp add: less_eq_block_ref_def)
  ultimately have "get_uncommitted_blocks_at_round d r = Some (map snd (filter
      (\<lambda>(k, v). BlockRef r 0 digest_MIN \<le> k \<and> k < BlockRef (Suc r) 0 digest_MIN) (recent_blocks d)))"
    using assms(2) by (simp add: get_uncommitted_blocks_at_round_def bt_range_excl_def)
  moreover have "set (map snd (filter
      (\<lambda>(k, v). BlockRef r 0 digest_MIN \<le> k \<and> k < BlockRef (Suc r) 0 digest_MIN) (recent_blocks d)))
    = {b \<in> dag_blocks d. round_of b = r}"
    using dag_inv_entry [OF assms(1)]
    by (force simp: in_round_range in_dag_blocks [OF assms(1)])
  ultimately show ?thesis by blast
qed

lemma at_round_SomeD:
  assumes "dag_inv d" and "get_uncommitted_blocks_at_round d r = Some bs"
  shows "set bs = {b \<in> dag_blocks d. round_of b = r} \<and> last_commit_round d < r"
proof -
  have lc: "last_commit_round d < r"
    using assms(2) by (auto simp: get_uncommitted_blocks_at_round_def option_simps)
  have "BlockRef r 0 digest_MIN \<le> BlockRef (add32 r 1) 0 digest_MIN"
    using assms(2) by (auto simp: get_uncommitted_blocks_at_round_def option_simps bt_range_excl_def split: if_splits)
  then have "r \<le> add32 r 1" by (auto simp: less_eq_block_ref_def)
  then have "r < 2 ^ 32 - 1 \<or> r \<ge> 2 ^ 32" 
    by (cases "r = 2 ^ 32 - 1") (auto simp: add32_def)
  moreover have "r < 2 ^ 32" using \<open>r \<le> add32 r 1\<close> add32_less [of r 1] by linarith
  ultimately have "r < u32_max" by (simp add: u32_max_def)
  with at_round_Some [OF assms(1) lc] assms(2) lc show ?thesis by auto
qed

lemma at_round_distinct:
  assumes "dag_inv d" and "get_uncommitted_blocks_at_round d r = Some bs"
  shows "distinct bs"
proof -
  obtain P where bs: "bs = map snd (filter P (recent_blocks d))"
    using assms(2) by (auto simp: get_uncommitted_blocks_at_round_def option_simps bt_range_excl_def split: if_splits)
  have "inj_on snd (set (recent_blocks d))"
    by (rule inj_onI) (metis dag_inv_entry [OF assms(1)] prod.collapse)
  then show ?thesis
    using keys_sorted_distinct [OF dag_inv_sorted [OF assms(1)]] unfolding bs
    by (auto simp: distinct_map distinct_map_filter intro: inj_on_subset)
qed

text \<open>The slot query as a filter on slots, for evaluation.\<close>

lemma at_slot_code [code]:
  "get_uncommitted_blocks_at_slot d s = Some (map snd (filter (\<lambda>(k, b). slot_of k = s) (recent_blocks d)))"
proof -
  have "BlockRef (slot_round s) (slot_authority s) digest_MIN \<le> BlockRef (slot_round s) (slot_authority s) digest_MAX"
    by (simp add: less_eq_block_ref_def)
  then show ?thesis
    by (simp add: get_uncommitted_blocks_at_slot_def bt_range_incl_def in_slot_range slot_of_eq_iff)
qed

section \<open>Accepting blocks\<close>

lemma accept_block_inv:
  assumes inv: "dag_inv d" and ok: "block_ok (committee (ds_context d)) b"
    and acc: "accept_block b d = Some d'"
  shows "dag_inv d'"
proof -
  from acc obtain refs where i: "author_of b < length (cached_refs d)"
    and d': "d' = d\<lparr>recent_blocks := bt_insert (reference b) b (recent_blocks d),
             cached_refs := (cached_refs d)[author_of b := bs_insert (reference b) refs],
             highest_accepted_round := max (highest_accepted_round d) (round_of b)\<rparr>"
    and refs: "refs = cached_refs d ! author_of b"
    by (auto simp: accept_block_def option_simps Let_def)
  have sorted: "keys_sorted (recent_blocks d)" using inv by (rule dag_inv_sorted)
  show ?thesis
    using inv ok i
    by (auto simp: dag_inv_def d' refs set_bt_insert [OF sorted] nth_list_update le_max_iff_disj)
qed

lemma accept_block_blocks:
  assumes inv: "dag_inv d" and acc: "accept_block b d = Some d'"
  shows "dag_blocks d' = insert b {b' \<in> dag_blocks d. reference b' \<noteq> reference b}"
proof -
  have "recent_blocks d' = bt_insert (reference b) b (recent_blocks d)"
    using acc by (auto simp: accept_block_def option_simps Let_def)
  then have "dag_blocks d' = snd ` insert (reference b, b) {e \<in> set (recent_blocks d). fst e \<noteq> reference b}"
    by (simp add: dag_blocks_def set_bt_insert [OF dag_inv_sorted [OF inv]])
  also have "\<dots> = insert b {b' \<in> dag_blocks d. reference b' \<noteq> reference b}"
    unfolding dag_blocks_def using dag_inv_entry [OF inv] by auto
  finally show ?thesis .
qed

lemma accept_block_frame:
  assumes "accept_block b d = Some d'"
  shows "ds_context d' = ds_context d" and "last_commit d' = last_commit d"
  using assms by (auto simp: accept_block_def option_simps Let_def)

lemma accept_block_highest:
  "accept_block b d = Some d' \<Longrightarrow> highest_accepted_round d' = max (highest_accepted_round d) (round_of b)"
  by (auto simp: accept_block_def option_simps Let_def)

text \<open>A run of acceptances keeps the invariant and holds exactly the blocks accepted.\<close>

lemma accept_blocks_run:
  assumes "fold_opt accept_block bs d = Some d'" and "dag_inv d"
    and "\<forall>b \<in> set bs. block_ok (committee (ds_context d)) b"
  shows "dag_inv d' \<and> ds_context d' = ds_context d \<and> last_commit d' = last_commit d \<and>
    dag_blocks d' \<subseteq> dag_blocks d \<union> set bs \<and> set bs \<subseteq> {b. reference b \<in> reference ` dag_blocks d'} \<and>
    reference ` dag_blocks d \<subseteq> reference ` dag_blocks d'"
  using assms
proof (induction bs arbitrary: d)
  case Nil
  then show ?case by simp
next
  case (Cons b bs)
  then obtain d1 where d1: "accept_block b d = Some d1" "fold_opt accept_block bs d1 = Some d'"
    by (auto simp: option_simps)
  note f = accept_block_frame [OF d1(1)]
  have i: "dag_inv d1" using accept_block_inv [OF Cons.prems(2) _ d1(1)] Cons.prems(3) by simp
  note b = accept_block_blocks [OF Cons.prems(2) d1(1)]
  have IH: "dag_inv d' \<and> ds_context d' = ds_context d1 \<and> last_commit d' = last_commit d1 \<and>
    dag_blocks d' \<subseteq> dag_blocks d1 \<union> set bs \<and> set bs \<subseteq> {b. reference b \<in> reference ` dag_blocks d'} \<and>
    reference ` dag_blocks d1 \<subseteq> reference ` dag_blocks d'"
    using Cons.IH [OF d1(2) i] Cons.prems(3) f by simp
  have "reference b \<in> reference ` dag_blocks d1" using b by simp
  with IH have "reference b \<in> reference ` dag_blocks d'" by blast
  moreover have "reference ` dag_blocks d \<subseteq> reference ` dag_blocks d1" using b by auto
  with IH have "reference ` dag_blocks d \<subseteq> reference ` dag_blocks d'" by (meson order_trans)
  moreover have "dag_blocks d1 \<subseteq> insert b (dag_blocks d)" using b by auto
  with IH have "dag_blocks d' \<subseteq> dag_blocks d \<union> set (b # bs)" by auto
  ultimately show ?case using IH f by auto
qed

lemma accept_blocks_distinct:
  assumes "fold_opt accept_block bs d = Some d'" and "dag_inv d"
    and "\<forall>b \<in> set bs. block_ok (committee (ds_context d)) b"
    and "dag_blocks d = {}" and "distinct (map reference bs)"
  shows "dag_blocks d' = set bs"
proof
  note run = accept_blocks_run [OF assms(1-3)]
  show sub: "dag_blocks d' \<subseteq> set bs" using run assms(4) by simp
  show "set bs \<subseteq> dag_blocks d'"
  proof
    fix b assume b: "b \<in> set bs"
    with run obtain b' where b': "b' \<in> dag_blocks d'" "reference b = reference b'" by auto
    with sub b assms(5) have "b = b'" by (auto simp: distinct_map inj_on_def)
    with b' show "b \<in> dag_blocks d'" by simp
  qed
qed

text \<open>The own slot accepts a block only when it is free; other slots always accept a member's block.\<close>

lemma accept_block_total:
  assumes "dag_inv d" and "author_of b \<in> members (committee (ds_context d))"
  shows "accept_block b d \<noteq> None \<longleftrightarrow>
    (author_of b = own_index (ds_context d) \<longrightarrow>
      (\<forall>b' \<in> dag_blocks d. slot_of (reference b') \<noteq> slot_of (reference b)))"
proof -
  obtain bs where bs: "get_uncommitted_blocks_at_slot d (slot_of (reference b)) = Some bs"
    "set bs = {b' \<in> dag_blocks d. slot_of (reference b') = slot_of (reference b)}"
    using at_slot_Some [OF assms(1)] by blast
  have i: "index (cached_refs d) (author_of b) = Some (cached_refs d ! author_of b)"
    using assms by (simp add: dag_inv_def members_def index_def)
  have "bs = [] \<longleftrightarrow> (\<forall>b' \<in> dag_blocks d. slot_of (reference b') \<noteq> slot_of (reference b))"
    using bs(2) by (cases bs) auto
  then show ?thesis
    using bs(1) i by (auto simp: accept_block_def Let_def rust_assert_def)
qed

section \<open>The traversal\<close>

text \<open>References reached from a set of references through blocks above a round.\<close>

inductive linked_to ::
  "(block_ref, verified_block) btree_map \<Rightarrow> nat \<Rightarrow> block_ref set \<Rightarrow> block_ref \<Rightarrow> bool"
  for m earlier L where
  start: "r \<in> L \<Longrightarrow> linked_to m earlier L r"
| step: "linked_to m earlier L r \<Longrightarrow> earlier < br_round r \<Longrightarrow> bt_get m r = Some b \<Longrightarrow>
    r' \<in> set (ancestors b) \<Longrightarrow> linked_to m earlier L r'"

lemma linked_to_mono:
  "linked_to m e L r \<Longrightarrow> (\<And>x. x \<in> L \<Longrightarrow> linked_to m e L' x) \<Longrightarrow> linked_to m e L' r"
  by (induction rule: linked_to.induct) (auto intro: linked_to.step)

lemma linked_to_subset: "linked_to m e L r \<Longrightarrow> L \<subseteq> L' \<Longrightarrow> linked_to m e L' r"
  by (erule linked_to_mono) (auto intro: linked_to.start)

lemma linked_to_expand:
  assumes "x \<in> L" and "e < br_round x" and "bt_get m x = Some b" and "br_round r \<le> e"
  shows "linked_to m e L r \<longleftrightarrow> linked_to m e ((L - {x}) \<union> set (ancestors b)) r"
proof
  have *: "linked_to m e L y \<Longrightarrow> y = x \<or> linked_to m e ((L - {x}) \<union> set (ancestors b)) y" for y
  proof (induction rule: linked_to.induct)
    case (start r)
    then show ?case by (auto intro: linked_to.start)
  next
    case (step r b' r')
    then show ?case using assms(3) by (auto intro: linked_to.start linked_to.step)
  qed
  assume "linked_to m e L r"
  with * assms(2,4) show "linked_to m e ((L - {x}) \<union> set (ancestors b)) r" by fastforce
next
  assume "linked_to m e ((L - {x}) \<union> set (ancestors b)) r"
  then show "linked_to m e L r"
    by (rule linked_to_mono) (auto intro: linked_to.start linked_to.step [OF linked_to.start] assms)
qed

lemma set_butlast_sorted:
  "sorted_wrt (<) xs \<Longrightarrow> xs \<noteq> [] \<Longrightarrow> set (butlast xs) = set xs - {last (xs :: 'a::linorder list)}"
proof (induction xs rule: rev_induct)
  case (snoc x xs)
  then show ?case by (auto simp: sorted_wrt_append)
qed simp

lemma sorted_wrt_butlast: "sorted_wrt P xs \<Longrightarrow> sorted_wrt P (butlast xs)"
  by (induction xs rule: rev_induct) (auto simp: sorted_wrt_append)

lemma sorted_last_max: "sorted_wrt (<) xs \<Longrightarrow> x \<in> set xs \<Longrightarrow> x \<le> last (xs :: 'a::linorder list)"
  by (induction xs rule: rev_induct) (auto simp: sorted_wrt_append)

text \<open>What the loop returns: the references it reaches at or below the earlier round.\<close>

lemma linked_loop_sound:
  assumes "linked_loop m e L = Some L'" and "sorted_wrt (<) L"
  shows "set L' = {r. linked_to m e (set L) r \<and> br_round r \<le> e} \<and> sorted_wrt (<) L'"
proof -
  have final: "set L = {r. linked_to m e (set L) r \<and> br_round r \<le> e}"
    if "\<forall>r \<in> set L. br_round r \<le> e" for m e L
  proof -
    have "linked_to m e (set L) r \<Longrightarrow> r \<in> set L" for r
      by (induction rule: linked_to.induct) (use that in auto)
    with that show ?thesis by (auto intro: linked_to.start)
  qed
  have "sorted_wrt (<) L \<longrightarrow> set L' = {r. linked_to m e (set L) r \<and> br_round r \<le> e} \<and> sorted_wrt (<) L'"
  proof (rule linked_loop.raw_induct [where P = "\<lambda>m e L L'. sorted_wrt (<) L \<longrightarrow>
        set L' = {r. linked_to m e (set L) r \<and> br_round r \<le> e} \<and> sorted_wrt (<) L'", OF _ assms(1)])
    fix loop m e L L'
    assume IH: "\<And>m e L L'. loop m e L = Some L' \<Longrightarrow> sorted_wrt (<) L \<longrightarrow>
        set L' = {r. linked_to m e (set L) r \<and> br_round r \<le> e} \<and> sorted_wrt (<) L'"
      and eq: "(if L = [] then Some L else if br_round (last L) \<le> e then Some L
        else Option.bind (bt_get m (last L)) (\<lambda>b. loop m e (bs_extend (butlast L) (ancestors b)))) = Some L'"
    show "sorted_wrt (<) L \<longrightarrow> set L' = {r. linked_to m e (set L) r \<and> br_round r \<le> e} \<and> sorted_wrt (<) L'"
    proof
      assume s: "sorted_wrt (<) L"
      show "set L' = {r. linked_to m e (set L) r \<and> br_round r \<le> e} \<and> sorted_wrt (<) L'"
      proof (cases "L = [] \<or> br_round (last L) \<le> e")
        case True
        with eq have "L' = L" by (auto split: if_splits)
        moreover have "\<forall>r \<in> set L. br_round r \<le> e"
          using True sorted_last_max [OF s] block_ref_less_round by (fastforce intro: order_trans)
        ultimately show ?thesis using final s by simp
      next
        case False
        with eq obtain b where b: "bt_get m (last L) = Some b"
          "loop m e (bs_extend (butlast L) (ancestors b)) = Some L'"
          by (auto simp: option_simps)
        have bl: "set (butlast L) = set L - {last L}"
          using False set_butlast_sorted [OF s] by simp
        have "sorted_wrt (<) (bs_extend (butlast L) (ancestors b))"
          using s by (simp add: sorted_wrt_butlast)
        with IH [OF b(2)] have "sorted_wrt (<) L'"
          "set L' = {r. linked_to m e ((set L - {last L}) \<union> set (ancestors b)) r \<and> br_round r \<le> e}"
          by (simp_all add: bl)
        moreover have "last L \<in> set L" using False by simp
        ultimately show ?thesis
          using linked_to_expand [OF _ _ b(1), of "set L" e] False by auto
      qed
    qed
  qed
  with assms(2) show ?thesis by blast
qed

text \<open>
  Termination: when every reference the loop can reach above the round is present and points to
  strictly smaller references, the largest reference decreases in a finite set.
\<close>

lemma linked_loop_terminates:
  assumes "sorted_wrt (<) L" and "finite U" and "set L \<subseteq> U"
    and closed: "\<And>r. r \<in> U \<Longrightarrow> e < br_round r \<Longrightarrow>
      \<exists>b. bt_get m r = Some b \<and> (\<forall>r' \<in> set (ancestors b). r' < r \<and> r' \<in> U)"
  shows "\<exists>L'. linked_loop m e L = Some L'"
  using assms(1-3)
proof (induction "card {u \<in> U. L \<noteq> [] \<and> u \<le> last L}" arbitrary: L rule: less_induct)
  case less
  show ?case
  proof (cases "L = [] \<or> br_round (last L) \<le> e")
    case True
    then show ?thesis by (subst linked_loop.simps) auto
  next
    case False
    let ?x = "last L"
    from False have xU: "?x \<in> U" and xe: "e < br_round ?x" using less.prems(3) by auto
    from closed [OF xU xe] obtain b where b: "bt_get m ?x = Some b"
      "\<forall>r' \<in> set (ancestors b). r' < ?x \<and> r' \<in> U" by blast
    let ?L = "bs_extend (butlast L) (ancestors b)"
    have sL: "sorted_wrt (<) ?L" using less.prems(1) by (simp add: sorted_wrt_butlast)
    have set2: "set ?L = (set L - {?x}) \<union> set (ancestors b)"
      using False set_butlast_sorted [OF less.prems(1)] by simp
    have sub: "set ?L \<subseteq> U" using set2 less.prems(3) b(2) by auto
    have below: "y < ?x" if "y \<in> set ?L" for y
      using that set2 b(2) sorted_last_max [OF less.prems(1), of y] by (auto simp: less_le)
    have "{u \<in> U. ?L \<noteq> [] \<and> u \<le> last ?L} \<subset> {u \<in> U. L \<noteq> [] \<and> u \<le> ?x}"
    proof
      show "{u \<in> U. ?L \<noteq> [] \<and> u \<le> last ?L} \<subseteq> {u \<in> U. L \<noteq> [] \<and> u \<le> ?x}"
        using below [of "last ?L"] False last_in_set [of ?L] by (auto intro: order_trans less_imp_le)
      have "?x \<notin> {u \<in> U. ?L \<noteq> [] \<and> u \<le> last ?L}"
        using below [of "last ?L"] last_in_set [of ?L] by (auto simp: not_le)
      moreover have "?x \<in> {u \<in> U. L \<noteq> [] \<and> u \<le> ?x}" using False xU by simp
      ultimately show "{u \<in> U. ?L \<noteq> [] \<and> u \<le> last ?L} \<noteq> {u \<in> U. L \<noteq> [] \<and> u \<le> ?x}" by blast
    qed
    then have "card {u \<in> U. ?L \<noteq> [] \<and> u \<le> last ?L} < card {u \<in> U. L \<noteq> [] \<and> u \<le> ?x}"
      using assms(2) by (intro psubset_card_mono) auto
    from less.hyps [OF this sL assms(2) sub] obtain L' where "linked_loop m e ?L = Some L'" by blast
    with False b(1) show ?thesis by (subst linked_loop.simps) simp
  qed
qed

section \<open>Ancestors at a round\<close>

text \<open>The part of the DAG at or above a round is closed under ancestors.\<close>

definition dag_closed :: "dag_state \<Rightarrow> nat \<Rightarrow> bool" where
  "dag_closed d lo \<longleftrightarrow>
     (\<forall>b \<in> dag_blocks d. \<forall>r \<in> set (ancestors b). lo \<le> br_round r \<longrightarrow> get_uncommitted_block d r \<noteq> None)"

lemma dag_closedD:
  "dag_closed d lo \<Longrightarrow> b \<in> dag_blocks d \<Longrightarrow> r \<in> set (ancestors b) \<Longrightarrow> lo \<le> br_round r \<Longrightarrow>
    \<exists>b'. get_uncommitted_block d r = Some b'"
  by (auto simp: dag_closed_def)

lemma dag_closed_mono: "dag_closed d lo \<Longrightarrow> lo \<le> hi \<Longrightarrow> dag_closed d hi"
  unfolding dag_closed_def by (meson order_trans)

lemma ancestor_round:
  "dag_inv d \<Longrightarrow> b \<in> dag_blocks d \<Longrightarrow> r \<in> set (ancestors b) \<Longrightarrow> br_round r < round_of b"
  using dag_blocks_ok by (auto simp: block_ok_def)

lemma linked_to_present:
  assumes "dag_inv d" and "dag_closed d e" and "b \<in> dag_blocks d"
    and "linked_to (recent_blocks d) e (set (ancestors b)) r" and "e \<le> br_round r"
  shows "\<exists>b'. get_uncommitted_block d r = Some b'"
  using assms(4,5)
proof cases
  case start
  with assms show ?thesis by (blast dest: dag_closedD)
next
  case (step r0 b0)
  then have "get_uncommitted_block d r0 = Some b0" by (simp add: get_uncommitted_block_def)
  with get_block_Some [OF assms(1)] have "b0 \<in> dag_blocks d" by blast
  with step assms(2,5) show ?thesis by (blast dest: dag_closedD)
qed

lemma linked_loop_returns:
  assumes inv: "dag_inv d" and closed: "dag_closed d e" and b: "b \<in> dag_blocks d"
  shows "\<exists>L. linked_loop (recent_blocks d) e (bs_extend [] (ancestors b)) = Some L"
proof -
  let ?U = "(\<Union>b \<in> dag_blocks d. set (ancestors b))"
  have fin: "finite (dag_blocks d)" by (simp add: dag_blocks_def)
  show ?thesis
  proof (rule linked_loop_terminates [where U = ?U])
    fix r assume r: "r \<in> ?U" "e < br_round r"
    then obtain b0 where b0: "get_uncommitted_block d r = Some b0"
      using closed by (fastforce dest: dag_closedD)
    with get_block_Some [OF inv] have b0d: "b0 \<in> dag_blocks d" "reference b0 = r" by auto
    then have "\<forall>r' \<in> set (ancestors b0). r' < r \<and> r' \<in> ?U"
      using ancestor_round [OF inv b0d(1)] by (auto simp: less_block_ref_def)
    with b0 show "\<exists>b. bt_get (recent_blocks d) r = Some b \<and> (\<forall>r' \<in> set (ancestors b). r' < r \<and> r' \<in> ?U)"
      by (auto simp: get_uncommitted_block_def)
  qed (use b fin in auto)
qed

text \<open>What the traversal returns, when it returns: the blocks of the round that the later block reaches.\<close>

lemma ancestors_at_SomeD:
  assumes inv: "dag_inv d" and run: "ancestors_at_uncommitted_round d b e = Some bs"
  shows "set bs = {x \<in> dag_blocks d. round_of x = e \<and>
      linked_to (recent_blocks d) e (set (ancestors b)) (reference x)}"
    and "last_commit_round d < e" and "e < round_of b"
proof -
  from run obtain L where L: "linked_loop (recent_blocks d) e (bs_extend [] (ancestors b)) = Some L"
    and m: "map_opt (bt_get (recent_blocks d)) (filter (\<lambda>r. BlockRef e 0 digest_MIN \<le> r) L) = Some bs"
    and rounds: "last_commit_round d < e" "e < round_of b"
    by (auto simp: ancestors_at_uncommitted_round_def option_simps)
  let ?F = "filter (\<lambda>r. BlockRef e 0 digest_MIN \<le> r) L"
  have setL: "set L = {r. linked_to (recent_blocks d) e (set (ancestors b)) r \<and> br_round r \<le> e}"
    using linked_loop_sound [OF L] by simp
  have setF: "set ?F = {r. linked_to (recent_blocks d) e (set (ancestors b)) r \<and> br_round r = e}"
    unfolding set_filter setL by (auto simp: less_eq_block_ref_def)
  from m have present: "\<forall>r \<in> set ?F. bt_get (recent_blocks d) r \<noteq> None"
    and bs: "bs = map (the \<circ> bt_get (recent_blocks d)) ?F"
    by (simp_all add: map_opt_Some_iff)
  have get: "get_uncommitted_block d r = Some (the (bt_get (recent_blocks d) r))" if "r \<in> set ?F" for r
    using present that unfolding get_uncommitted_block_def by auto
  show "set bs = {x \<in> dag_blocks d. round_of x = e \<and>
      linked_to (recent_blocks d) e (set (ancestors b)) (reference x)}" (is "_ = ?R")
  proof
    show "set bs \<subseteq> ?R"
    proof
      fix x assume "x \<in> set bs"
      then obtain r where r: "r \<in> set ?F" "x = the (bt_get (recent_blocks d) r)" by (auto simp: bs)
      then have "linked_to (recent_blocks d) e (set (ancestors b)) r" "br_round r = e"
        using setF by blast+
      moreover have "reference x = r" "x \<in> dag_blocks d"
        using get_block_Some [OF inv get [OF r(1)]] r(2) by auto
      moreover from this have "round_of x = br_round r" by auto
      ultimately show "x \<in> ?R" by auto
    qed
    show "?R \<subseteq> set bs"
    proof
      fix x assume x: "x \<in> ?R"
      then have "reference x \<in> set ?F" unfolding setF by simp
      moreover have "the (bt_get (recent_blocks d) (reference x)) = x"
        using x dag_blocks_iff [OF inv] by (simp add: get_uncommitted_block_def)
      ultimately show "x \<in> set bs" unfolding bs by force
    qed
  qed
  show "last_commit_round d < e" "e < round_of b" by (rule rounds)+
qed

text \<open>And it returns, when the part of the DAG it walks is there.\<close>

lemma ancestors_at_total:
  assumes inv: "dag_inv d" and closed: "dag_closed d e" and b: "b \<in> dag_blocks d"
    and lc: "last_commit_round d < e" and later: "e < round_of b"
  shows "\<exists>bs. ancestors_at_uncommitted_round d b e = Some bs"
proof -
  obtain L where L: "linked_loop (recent_blocks d) e (bs_extend [] (ancestors b)) = Some L"
    using linked_loop_returns [OF inv closed b] by blast
  have "\<forall>r \<in> set (filter (\<lambda>r. BlockRef e 0 digest_MIN \<le> r) L). bt_get (recent_blocks d) r \<noteq> None"
  proof
    fix r assume "r \<in> set (filter (\<lambda>r. BlockRef e 0 digest_MIN \<le> r) L)"
    then have "linked_to (recent_blocks d) e (set (ancestors b)) r" "e \<le> br_round r"
      using linked_loop_sound [OF L] by (auto simp: less_eq_block_ref_def)
    with linked_to_present [OF inv closed b] show "bt_get (recent_blocks d) r \<noteq> None"
      by (auto simp: get_uncommitted_block_def)
  qed
  then have "map_opt (bt_get (recent_blocks d)) (filter (\<lambda>r. BlockRef e 0 digest_MIN \<le> r) L) \<noteq> None"
    using map_opt_Some_iff by blast
  with L lc later show ?thesis by (auto simp: ancestors_at_uncommitted_round_def not_le)
qed

end
