(* ===== verification/StakeAggregator.thy ===== *)
theory StakeAggregator
  imports Block
begin

text \<open>
  \<^verbatim>\<open>consensus/core/src/stake_aggregator.rs\<close>: the stake of a set of distinct voters, with the
  threshold that ends the count. The locale \<open>vote_aggregator\<close> is the contract the committers and the
  threshold clock use; it is interpreted for both thresholds.
\<close>

section \<open>Model\<close>

datatype threshold = QuorumThreshold | ValidityThreshold

fun is_threshold :: "threshold \<Rightarrow> committee \<Rightarrow> nat \<Rightarrow> bool" where
  "is_threshold QuorumThreshold c amount = reached_quorum c amount"
| "is_threshold ValidityThreshold c amount = reached_validity c amount"

record stake_aggregator =
  votes :: "nat set"
  agg_stake :: nat

definition agg_new :: stake_aggregator where
  "agg_new = \<lparr>votes = {}, agg_stake = 0\<rparr>"

definition agg_add ::
  "threshold \<Rightarrow> stake_aggregator \<Rightarrow> nat \<Rightarrow> committee \<Rightarrow> (bool \<times> stake_aggregator) option" where
  "agg_add T agg vote c = do {
     agg \<leftarrow> (if vote \<notin> votes agg then do {
               s \<leftarrow> committee_stake c vote;
               Some (agg\<lparr>votes := insert vote (votes agg), agg_stake := add64 (agg_stake agg) s\<rparr>)
             } else Some agg);
     Some (is_threshold T c (agg_stake agg), agg)
   }"

definition agg_clear :: "stake_aggregator \<Rightarrow> stake_aggregator" where
  "agg_clear agg = agg\<lparr>votes := {}, agg_stake := 0\<rparr>"

section \<open>The contract\<close>

text \<open>What the aggregator knows: its stake is that of the distinct members that voted.\<close>

definition agg_inv :: "committee \<Rightarrow> stake_aggregator \<Rightarrow> bool" where
  "agg_inv c agg \<longleftrightarrow> votes agg \<subseteq> members c \<and> agg_stake agg = stake_of c (votes agg)"

lemma stake_of_fits:
  assumes "committee_wf c" "S \<subseteq> members c"
  shows "stake_of c S < 2 ^ 64"
proof -
  have "stake_of c S \<le> total_stake c"
    using stake_of_mono [OF assms(2), of c] committee_wf_thresholds(1) [OF assms(1)] by simp
  then show ?thesis using committee_wf_thresholds(5) [OF assms(1)] by linarith
qed

lemma agg_add_Some:
  assumes wf: "committee_wf c" and inv: "agg_inv c agg" and m: "v \<in> members c"
  shows "\<exists>agg'. agg_add T agg v c = Some (is_threshold T c (stake_of c (insert v (votes agg))), agg')
    \<and> agg_inv c agg' \<and> votes agg' = insert v (votes agg)"
proof (cases "v \<in> votes agg")
  case True
  with inv show ?thesis by (auto simp: agg_add_def agg_inv_def insert_absorb)
next
  case False
  have fin: "finite (votes agg)" using inv by (auto simp: agg_inv_def intro: finite_subset)
  have "stake_of c (insert v (votes agg)) < 2 ^ 64"
    using inv m by (intro stake_of_fits [OF wf]) (auto simp: agg_inv_def)
  with False inv m fin show ?thesis
    by (auto simp: agg_add_def agg_inv_def committee_stake_weight add64_fits add.commute)
qed

lemma agg_add_panics: "v \<notin> members c \<Longrightarrow> v \<notin> votes agg \<Longrightarrow> agg_add T agg v c = None"
  by (simp add: agg_add_def committee_stake_weight)

locale vote_aggregator =
  fixes wf :: "'c \<Rightarrow> bool"
    and nodes :: "'c \<Rightarrow> nat set"
    and wt :: "'c \<Rightarrow> nat set \<Rightarrow> nat"
    and reached :: "'c \<Rightarrow> nat \<Rightarrow> bool"
    and new :: "'g"
    and add :: "'g \<Rightarrow> nat \<Rightarrow> 'c \<Rightarrow> (bool \<times> 'g) option"
    and voters :: "'g \<Rightarrow> nat set"
    and inv :: "'c \<Rightarrow> 'g \<Rightarrow> bool"
  assumes inv_new: "inv c new"
    and voters_new: "voters new = {}"
    and inv_members: "inv c g \<Longrightarrow> voters g \<subseteq> nodes c"
    and add_member: "wf c \<Longrightarrow> inv c g \<Longrightarrow> v \<in> nodes c \<Longrightarrow>
      \<exists>g'. add g v c = Some (reached c (wt c (insert v (voters g))), g') \<and> inv c g' \<and>
        voters g' = insert v (voters g)"
    and add_stranger: "v \<notin> nodes c \<Longrightarrow> v \<notin> voters g \<Longrightarrow> add g v c = None"
    and reached_mono: "wf c \<Longrightarrow> S \<subseteq> T \<Longrightarrow> T \<subseteq> nodes c \<Longrightarrow> reached c (wt c S) \<Longrightarrow> reached c (wt c T)"
begin

text \<open>
  The counting loop of the clients: every element that votes is added under its author, and the
  loop returns as soon as the threshold is reached.
\<close>

fun count_votes :: "'c \<Rightarrow> ('x \<Rightarrow> bool option) \<Rightarrow> ('x \<Rightarrow> nat) \<Rightarrow> 'x list \<Rightarrow> 'g \<Rightarrow> bool option" where
  "count_votes c p author [] g = Some False"
| "count_votes c p author (x # xs) g =
     Option.bind (p x) (\<lambda>is_vote.
       if is_vote then
         Option.bind (add g (author x) c) (\<lambda>(done, g).
           if done then Some True else count_votes c p author xs g)
       else count_votes c p author xs g)"

lemma add_member_cases:
  assumes "wf c" "inv c g" "add g v c = Some (b, g')"
  shows "v \<in> nodes c \<and> b = reached c (wt c (insert v (voters g))) \<and> inv c g' \<and>
    voters g' = insert v (voters g)"
proof -
  have "v \<in> nodes c"
  proof (rule ccontr)
    assume "v \<notin> nodes c"
    with inv_members [OF assms(2)] have "v \<notin> voters g" by auto
    with \<open>v \<notin> nodes c\<close> add_stranger assms(3) show False by simp
  qed
  with add_member [OF assms(1,2), of v] assms(3) show ?thesis by auto
qed

text \<open>The loop says yes only when members whose elements vote reach the threshold together.\<close>

lemma count_votes_True:
  assumes "wf c" "inv c g" "count_votes c p author xs g = Some True"
  shows "\<exists>S. S \<subseteq> author ` {x \<in> set xs. p x = Some True} \<and> S \<union> voters g \<subseteq> nodes c \<and>
    reached c (wt c (S \<union> voters g))"
  using assms
proof (induction xs arbitrary: g)
  case Nil
  then show ?case by simp
next
  case (Cons x xs)
  then obtain is_vote where p: "p x = Some is_vote" by (auto simp: option_simps)
  show ?case
  proof (cases is_vote)
    case False
    with Cons.prems p have "count_votes c p author xs g = Some True" by simp
    from Cons.IH [OF Cons.prems(1,2) this] obtain S where
      "S \<subseteq> author ` {x \<in> set xs. p x = Some True}" "S \<union> voters g \<subseteq> nodes c"
      "reached c (wt c (S \<union> voters g))"
      by blast
    then show ?thesis by (intro exI [of _ S]) auto
  next
    case True
    with Cons.prems p obtain b g' where a: "add g (author x) c = Some (b, g')"
      and rest: "if b then True else count_votes c p author xs g' = Some True"
      by (auto simp: option_simps split: if_splits)
    from add_member_cases [OF Cons.prems(1,2) a]
    have g': "author x \<in> nodes c" "b = reached c (wt c (insert (author x) (voters g)))"
      "inv c g'" "voters g' = insert (author x) (voters g)" by auto
    show ?thesis
    proof (cases b)
      case True
      with g' inv_members [OF Cons.prems(2)] p \<open>is_vote\<close> show ?thesis
        by (intro exI [of _ "{author x}"]) auto
    next
      case False
      with rest Cons.IH [OF Cons.prems(1) g'(3)] obtain S where
        "S \<subseteq> author ` {x \<in> set xs. p x = Some True}" "S \<union> voters g' \<subseteq> nodes c"
        "reached c (wt c (S \<union> voters g'))"
        by auto
      with g'(4) p \<open>is_vote\<close> show ?thesis
        by (intro exI [of _ "insert (author x) S"]) auto
    qed
  qed
qed

text \<open>Conversely, when the voting elements reach the threshold, a run to the end says yes.\<close>

lemma count_votes_False:
  assumes "wf c" "inv c g" "count_votes c p author xs g = Some False"
    and "\<not> reached c (wt c (voters g))"
  shows "\<not> reached c (wt c (author ` {x \<in> set xs. p x = Some True} \<union> voters g))"
  using assms
proof (induction xs arbitrary: g)
  case Nil
  then show ?case by simp
next
  case (Cons x xs)
  then obtain is_vote where p: "p x = Some is_vote" by (auto simp: option_simps)
  show ?case
  proof (cases is_vote)
    case False
    with p have "{y \<in> set (x # xs). p y = Some True} = {y \<in> set xs. p y = Some True}" by auto
    with False Cons.prems p Cons.IH [OF Cons.prems(1,2)] show ?thesis by simp
  next
    case True
    with Cons.prems p obtain g' where a: "add g (author x) c = Some (False, g')"
      and rest: "count_votes c p author xs g' = Some False"
      by (auto simp: option_simps split: if_splits)
    from add_member_cases [OF Cons.prems(1,2) a]
    have g': "\<not> reached c (wt c (voters g'))" "inv c g'" "voters g' = insert (author x) (voters g)"
      by auto
    have "author ` {y \<in> set (x # xs). p y = Some True} \<union> voters g =
      author ` {y \<in> set xs. p y = Some True} \<union> voters g'"
      using p \<open>is_vote\<close> g'(3) by auto
    with Cons.IH [OF Cons.prems(1) g'(2) rest g'(1)] show ?thesis by simp
  qed
qed

lemma count_votes_False_visits:
  "count_votes c p author xs g = Some False \<Longrightarrow> x \<in> set xs \<Longrightarrow> p x \<noteq> None"
  by (induction xs arbitrary: g) (auto simp: option_simps split: if_splits)

text \<open>The loop returns when every element has an answer and the voting ones are by members.\<close>

lemma count_votes_total:
  assumes "wf c" "inv c g" "\<forall>x \<in> set xs. \<exists>b. p x = Some b \<and> (b \<longrightarrow> author x \<in> nodes c)"
  shows "\<exists>b. count_votes c p author xs g = Some b"
  using assms
proof (induction xs arbitrary: g)
  case (Cons x xs)
  then obtain b where b: "p x = Some b" "b \<longrightarrow> author x \<in> nodes c" by auto
  show ?case
  proof (cases b)
    case True
    with b obtain g' where "add g (author x) c = Some (reached c (wt c (insert (author x) (voters g))), g')"
      "inv c g'" using add_member [OF Cons.prems(1,2)] by blast
    with Cons b True show ?thesis by auto
  qed (use Cons b in auto)
qed auto

text \<open>The answer is whether the authors of the voting elements reach the threshold.\<close>

lemma count_votes_iff:
  assumes wf: "wf c" and empty: "\<not> reached c (wt c {})"
    and run: "count_votes c p author xs new = Some b"
    and mem: "\<forall>x \<in> set xs. p x = Some True \<longrightarrow> author x \<in> nodes c"
  shows "b \<longleftrightarrow> reached c (wt c (author ` {x \<in> set xs. p x = Some True}))"
proof (cases b)
  case True
  with count_votes_True [OF wf inv_new] run voters_new obtain S where
    "S \<subseteq> author ` {x \<in> set xs. p x = Some True}" "reached c (wt c S)"
    by force
  moreover have "author ` {x \<in> set xs. p x = Some True} \<subseteq> nodes c" using mem by auto
  ultimately show ?thesis using True reached_mono [OF wf] by blast
next
  case False
  with count_votes_False [OF wf inv_new _ , of p author xs] run voters_new empty show ?thesis by simp
qed

end

lemma reached_quorum_mono:
  "S \<subseteq> T \<Longrightarrow> T \<subseteq> members c \<Longrightarrow> is_threshold t c (stake_of c S) \<Longrightarrow> is_threshold t c (stake_of c T)"
  using stake_of_mono [of S T c] finite_subset [of T "members c"]
  by (cases t) (auto simp: reached_quorum_def reached_validity_def)

lemma agg_contract:
  "vote_aggregator committee_wf members stake_of (is_threshold T) agg_new (agg_add T) votes agg_inv"
proof
  show "\<exists>g'. agg_add T g v c = Some (is_threshold T c (stake_of c (insert v (votes g))), g') \<and>
      agg_inv c g' \<and> votes g' = insert v (votes g)"
    if "committee_wf c" "agg_inv c g" "v \<in> members c" for c g v
    using that by (rule agg_add_Some)
  show "is_threshold T c (stake_of c B)"
    if "A \<subseteq> B" "B \<subseteq> members c" "is_threshold T c (stake_of c A)" for c A B
    using that by (rule reached_quorum_mono)
qed (auto simp: agg_new_def agg_inv_def agg_add_panics)

interpretation quorum_agg: vote_aggregator committee_wf members stake_of
  "is_threshold QuorumThreshold" agg_new "agg_add QuorumThreshold" votes agg_inv
  by (rule agg_contract)

interpretation validity_agg: vote_aggregator committee_wf members stake_of
  "is_threshold ValidityThreshold" agg_new "agg_add ValidityThreshold" votes agg_inv
  by (rule agg_contract)

end
