(* ===== verification/LeaderSchedule.thy ===== *)
theory LeaderSchedule
  imports Committee
begin

text \<open>
  \<^verbatim>\<open>consensus/core/src/leader_schedule.rs\<close>: the leaders of a round, drawn by stake from a generator
  seeded with the round. The weighted sampling is the \<^verbatim>\<open>rand\<close> crate's; it is the argument
  \<open>sample seed choices amount\<close> of the definitions (\<open>None\<close> is its error; the conversion of a stake to
  a floating-point weight is part of it), and \<open>sample_spec\<close> is its documented behaviour: the sample is
  without replacement and has as many elements as asked for and available.
\<close>

type_synonym sampler = "bytes \<Rightarrow> (nat \<times> nat) list \<Rightarrow> nat \<Rightarrow> (nat \<times> nat) list option"

definition to_le_bytes32 :: "nat \<Rightarrow> bytes" where
  "to_le_bytes32 n = map (\<lambda>i. word_of_nat (n div 256 ^ i)) [0..<4]"

definition seed_bytes :: "nat \<Rightarrow> bytes" where
  "seed_bytes r = replicate 28 0 @ to_le_bytes32 r"

definition elect_leader_stake_based ::
  "sampler \<Rightarrow> consensus_context \<Rightarrow> nat \<Rightarrow> nat \<Rightarrow> nat option" where
  "elect_leader_stake_based sample ctx r offset = do {
     rust_assert (offset < committee_size (committee ctx));
     let choices = map (\<lambda>(i, a). (i, stake a)) (committee_authorities (committee ctx));
     chosen \<leftarrow> sample (seed_bytes r) choices (committee_size (committee ctx));
     index (map fst chosen) offset
   }"

definition schedule_elect_leader ::
  "sampler \<Rightarrow> consensus_context \<Rightarrow> nat \<Rightarrow> nat \<Rightarrow> nat option" where
  "schedule_elect_leader sample ctx r leader_offset = elect_leader_stake_based sample ctx r leader_offset"

definition sample_spec :: "sampler \<Rightarrow> bool" where
  "sample_spec sample \<longleftrightarrow>
     (\<forall>seed items n xs. sample seed items n = Some xs \<longrightarrow> distinct items \<longrightarrow>
        distinct xs \<and> set xs \<subseteq> set items \<and> length xs = min n (length items))"

lemma committee_authorities_indices:
  assumes "committee_size c < u32_max"
  shows "map fst (committee_authorities c) = [0..<committee_size c]"
proof -
  have "map (\<lambda>i. i mod 2 ^ 32) (map fst (zip [0..<length (authorities c)] (authorities c)))
      = map fst (committee_authorities c)"
    unfolding committee_authorities_def map_map by (rule map_cong) auto
  then have "map fst (committee_authorities c) = map (\<lambda>i. i mod 2 ^ 32) [0..<committee_size c]"
    by (simp add: committee_size_def)
  also have "\<dots> = [0..<committee_size c]"
    using assms by (intro map_idI) (auto simp: u32_max_def)
  finally show ?thesis .
qed

lemma committee_wf_size: "committee_wf c \<Longrightarrow> committee_size c < u32_max"
  by (auto simp: committee_wf_def committee_new_def committee_size_def option_simps)

text \<open>The sample drawn for a round names every member once.\<close>

lemma chosen_members:
  assumes wf: "committee_wf c" and spec: "sample_spec sample"
    and ch: "sample seed (map (\<lambda>(i, a). (i, stake a)) (committee_authorities c)) (committee_size c) = Some xs"
  shows "distinct (map fst xs) \<and> set (map fst xs) \<subseteq> members c \<and> length xs = committee_size c"
proof -
  let ?items = "map (\<lambda>(i, a). (i, stake a)) (committee_authorities c)"
  have idx: "map fst ?items = [0..<committee_size c]"
    using committee_authorities_indices [OF committee_wf_size [OF wf]]
    by (simp add: comp_def case_prod_beta)
  then have dfst: "distinct (map fst ?items)" by simp
  then have inj: "inj_on fst (set ?items)" and "distinct ?items"
    by (simp_all only: distinct_map [of fst])
  with spec ch have xs: "distinct xs" "set xs \<subseteq> set ?items" "length xs = min (committee_size c) (length ?items)"
    unfolding sample_spec_def by blast+
  have "length ?items = committee_size c" using arg_cong [OF idx, of length] by simp
  moreover have "distinct (map fst xs)"
    using xs(1,2) inj by (auto simp: distinct_map intro: inj_on_subset)
  moreover have "set (map fst xs) \<subseteq> members c"
  proof -
    have "set (map fst xs) \<subseteq> set (map fst ?items)" using image_mono [OF xs(2), of fst] by (simp only: set_map)
    then show ?thesis by (simp only: idx set_upt members_def atLeast0LessThan)
  qed
  ultimately show ?thesis using xs(3) by simp
qed

lemma elect_leader_member:
  assumes "committee_wf (committee ctx)" "sample_spec sample"
    "schedule_elect_leader sample ctx r k = Some a"
  shows "a \<in> members (committee ctx) \<and> k < committee_size (committee ctx)"
  using assms(3) chosen_members [OF assms(1,2)]
  by (fastforce simp: schedule_elect_leader_def elect_leader_stake_based_def option_simps Let_def)

end
