(* ===== verification/BaseCommitter.thy ===== *)
theory BaseCommitter
  imports DagState StakeAggregator LeaderSchedule
begin

text \<open>
  \<^verbatim>\<open>consensus/core/src/base_committer.rs\<close>: the direct and the indirect rule that commit or skip the
  leader of a slot. The committer reads the DAG through \<open>DagState\<close> and never changes it. Two loops are
  optimised in the code: the vote cache of \<open>is_certificate\<close> and the early stake check of
  \<open>enough_leader_support\<close>; both are modelled as they are and shown equivalent to the plain count.
\<close>

section \<open>Model\<close>

record base_committer_options =
  wave_length :: nat
  leader_offset :: nat
  round_offset :: nat

definition options_default :: base_committer_options where
  "options_default = \<lparr>wave_length = DEFAULT_WAVE_LENGTH, leader_offset = 0, round_offset = 0\<rparr>"

record base_committer =
  bc_context :: consensus_context
  bc_sampler :: sampler
  bc_options :: base_committer_options

definition base_committer_new ::
  "consensus_context \<Rightarrow> sampler \<Rightarrow> base_committer_options \<Rightarrow> base_committer option" where
  "base_committer_new ctx schedule opts = do {
     rust_assert (MINIMUM_WAVE_LENGTH \<le> wave_length opts);
     Some \<lparr>bc_context = ctx, bc_sampler = schedule, bc_options = opts\<rparr>
   }"

definition leader_round :: "base_committer \<Rightarrow> nat \<Rightarrow> nat" where
  "leader_round bc wave = add32 (mul32 wave (wave_length (bc_options bc))) (round_offset (bc_options bc))"

definition decision_round :: "base_committer \<Rightarrow> nat \<Rightarrow> nat" where
  "decision_round bc wave =
     (let wl = wave_length (bc_options bc)
      in add32 (sub32 (add32 (mul32 wave wl) wl) 1) (round_offset (bc_options bc)))"

definition wave_number :: "base_committer \<Rightarrow> nat \<Rightarrow> nat" where
  "wave_number bc r = saturating_sub r (round_offset (bc_options bc)) div wave_length (bc_options bc)"

definition elect_leader :: "base_committer \<Rightarrow> nat \<Rightarrow> slot option option" where
  "elect_leader bc r =
     (if leader_round bc (wave_number bc r) \<noteq> r then Some None
      else do {
        a \<leftarrow> schedule_elect_leader (bc_sampler bc) (bc_context bc) r (leader_offset (bc_options bc));
        Some (Some \<lparr>slot_round = r, slot_authority = a\<rparr>)
      })"

text \<open>
  \<open>find_in\<close> is the loop of \<^verbatim>\<open>find_supported_block\<close> over the ancestors still to visit, the recursive
  call on an ancestor being its own loop. The outer option is a panic or a run without end.
\<close>

partial_function (option) find_in :: "dag_state \<Rightarrow> slot \<Rightarrow> block_ref list \<Rightarrow> block_ref option option" where
  "find_in d s rs =
     (case rs of
        [] \<Rightarrow> Some None
      | r # rest \<Rightarrow>
          if slot_of r = s then Some (Some r)
          else if br_round r \<le> slot_round s then find_in d s rest
          else
            Option.bind (get_uncommitted_block d r) (\<lambda>b.
            Option.bind (if round_of b < slot_round s then Some None else find_in d s (ancestors b))
              (\<lambda>support. case support of Some x \<Rightarrow> Some (Some x) | None \<Rightarrow> find_in d s rest)))"

declare find_in.simps [code]

definition find_supported_block ::
  "dag_state \<Rightarrow> slot \<Rightarrow> verified_block \<Rightarrow> block_ref option option" where
  "find_supported_block d s from_block =
     (if round_of from_block < slot_round s then Some None else find_in d s (ancestors from_block))"

definition is_vote :: "dag_state \<Rightarrow> verified_block \<Rightarrow> verified_block \<Rightarrow> bool option" where
  "is_vote d potential_vote leader_block = do {
     let r = reference leader_block;
     support \<leftarrow> find_supported_block d (slot_of r) potential_vote;
     Some (support = Some r)
   }"

type_synonym vote_cache = "block_ref \<rightharpoonup> bool"

fun certificate_loop ::
  "dag_state \<Rightarrow> committee \<Rightarrow> verified_block \<Rightarrow> block_ref list \<Rightarrow> stake_aggregator \<Rightarrow> vote_cache \<Rightarrow>
     (bool \<times> vote_cache) option" where
  "certificate_loop d c leader_block [] agg all_votes = Some (False, all_votes)"
| "certificate_loop d c leader_block (r # rs) agg all_votes = do {
     (vote, all_votes) \<leftarrow>
       (case all_votes r of
          Some v \<Rightarrow> Some (v, all_votes)
        | None \<Rightarrow> do {
            potential_vote \<leftarrow> get_uncommitted_block d r;
            v \<leftarrow> is_vote d potential_vote leader_block;
            Some (v, all_votes(r \<mapsto> v))
          });
     if vote then do {
       (reached, agg) \<leftarrow> agg_add QuorumThreshold agg (br_author r) c;
       if reached then Some (True, all_votes)
       else certificate_loop d c leader_block rs agg all_votes
     } else certificate_loop d c leader_block rs agg all_votes
   }"

definition is_certificate ::
  "base_committer \<Rightarrow> dag_state \<Rightarrow> verified_block \<Rightarrow> verified_block \<Rightarrow> vote_cache \<Rightarrow>
     (bool \<times> vote_cache) option" where
  "is_certificate bc d potential_certificate leader_block all_votes =
     certificate_loop d (committee (bc_context bc)) leader_block (ancestors potential_certificate)
       agg_new all_votes"

text \<open>\<^verbatim>\<open>any\<close> over the potential certificates, with the cache they share.\<close>

fun any_certificate ::
  "base_committer \<Rightarrow> dag_state \<Rightarrow> verified_block list \<Rightarrow> verified_block \<Rightarrow> vote_cache \<Rightarrow> bool option" where
  "any_certificate bc d [] leader_block all_votes = Some False"
| "any_certificate bc d (x # xs) leader_block all_votes = do {
     (cert, all_votes) \<leftarrow> is_certificate bc d x leader_block all_votes;
     if cert then Some True else any_certificate bc d xs leader_block all_votes
   }"

definition decide_leader_from_anchor ::
  "base_committer \<Rightarrow> dag_state \<Rightarrow> verified_block \<Rightarrow> slot \<Rightarrow> leader_status option" where
  "decide_leader_from_anchor bc d anchor s = do {
     leader_blocks \<leftarrow> get_uncommitted_blocks_at_slot d s;
     let wave = wave_number bc (slot_round s);
     potential_certificates \<leftarrow> ancestors_at_uncommitted_round d anchor (decision_round bc wave);
     certified \<leftarrow> filter_opt
       (\<lambda>l. any_certificate bc d potential_certificates l Map.empty) leader_blocks;
     rust_assert (\<not> length certified > 1);
     Some (if certified = [] then Skip s else Commit (last certified))
   }"

fun blame_loop :: "committee \<Rightarrow> nat \<Rightarrow> verified_block list \<Rightarrow> stake_aggregator \<Rightarrow> bool option" where
  "blame_loop c leader_author [] agg = Some False"
| "blame_loop c leader_author (b # bs) agg =
     (if list_all (\<lambda>r. br_author r \<noteq> leader_author) (ancestors b) then do {
        (reached, agg) \<leftarrow> agg_add QuorumThreshold agg (br_author (reference b)) c;
        if reached then Some True else blame_loop c leader_author bs agg
      } else blame_loop c leader_author bs agg)"

definition enough_leader_blame :: "base_committer \<Rightarrow> dag_state \<Rightarrow> nat \<Rightarrow> nat \<Rightarrow> bool option" where
  "enough_leader_blame bc d voting_round leader_author = do {
     voting_blocks \<leftarrow> get_uncommitted_blocks_at_round d voting_round;
     blame_loop (committee (bc_context bc)) leader_author voting_blocks agg_new
   }"

fun support_loop ::
  "base_committer \<Rightarrow> dag_state \<Rightarrow> verified_block \<Rightarrow> verified_block list \<Rightarrow> stake_aggregator \<Rightarrow> vote_cache \<Rightarrow>
     bool option" where
  "support_loop bc d leader_block [] agg all_votes = Some False"
| "support_loop bc d leader_block (b # bs) agg all_votes = do {
     (cert, all_votes) \<leftarrow> is_certificate bc d b leader_block all_votes;
     if cert then do {
       (reached, agg) \<leftarrow> agg_add QuorumThreshold agg (br_author (reference b)) (committee (bc_context bc));
       if reached then Some True else support_loop bc d leader_block bs agg all_votes
     } else support_loop bc d leader_block bs agg all_votes
   }"

definition enough_leader_support ::
  "base_committer \<Rightarrow> dag_state \<Rightarrow> nat \<Rightarrow> verified_block \<Rightarrow> bool option" where
  "enough_leader_support bc d r leader_block = do {
     decision_blocks \<leftarrow> get_uncommitted_blocks_at_round d r;
     stakes \<leftarrow> map_opt (\<lambda>b. committee_stake (committee (bc_context bc)) (author_of b)) decision_blocks;
     if \<not> reached_quorum (committee (bc_context bc)) (sum64 stakes) then Some False
     else support_loop bc d leader_block decision_blocks agg_new Map.empty
   }"

definition try_direct_decide :: "base_committer \<Rightarrow> dag_state \<Rightarrow> slot \<Rightarrow> leader_status option" where
  "try_direct_decide bc d s = do {
     blamed \<leftarrow> enough_leader_blame bc d (add32 (slot_round s) 1) (slot_authority s);
     if blamed then Some (Skip s)
     else do {
       let wave = wave_number bc (slot_round s);
       leader_blocks \<leftarrow> get_uncommitted_blocks_at_slot d s;
       supported \<leftarrow> filter_opt (enough_leader_support bc d (decision_round bc wave)) leader_blocks;
       rust_assert (\<not> length supported > 1);
       Some (if supported = [] then Undecided s else Commit (last supported))
     }
   }"

text \<open>The anchors are read lazily, in order, up to the first that is not skipped.\<close>

fun indirect_loop ::
  "base_committer \<Rightarrow> dag_state \<Rightarrow> slot \<Rightarrow> leader_status list \<Rightarrow> leader_status option" where
  "indirect_loop bc d s [] = Some (Undecided s)"
| "indirect_loop bc d s (Commit anchor # xs) = decide_leader_from_anchor bc d anchor s"
| "indirect_loop bc d s (Skip _ # xs) = indirect_loop bc d s xs"
| "indirect_loop bc d s (Undecided _ # xs) = Some (Undecided s)"

definition try_indirect_decide ::
  "base_committer \<Rightarrow> dag_state \<Rightarrow> slot \<Rightarrow> leader_status list \<Rightarrow> leader_status option" where
  "try_indirect_decide bc d s leaders =
     indirect_loop bc d s
       (filter (\<lambda>x. add32 (slot_round s) (wave_length (bc_options bc)) \<le> status_round x) leaders)"

section \<open>Electing leaders\<close>

lemma elect_leader_total:
  assumes wf: "committee_wf (committee (bc_context bc))" and spec: "sample_spec (bc_sampler bc)"
    and tot: "\<And>seed items n. bc_sampler bc seed items n \<noteq> None"
    and o: "leader_offset (bc_options bc) < committee_size (committee (bc_context bc))"
  shows "elect_leader bc r \<noteq> None"
proof -
  let ?c = "committee (bc_context bc)"
  obtain xs where xs: "bc_sampler bc (seed_bytes r)
      (map (\<lambda>(i, a). (i, stake a)) (committee_authorities ?c)) (committee_size ?c) = Some xs"
    using tot by fastforce
  with chosen_members [OF wf spec xs] o show ?thesis
    by (simp add: elect_leader_def schedule_elect_leader_def elect_leader_stake_based_def index_def Let_def)
qed

section \<open>The supported block\<close>

text \<open>Without recursion, the supported block is the first ancestor in the slot.\<close>

definition direct_support :: "slot \<Rightarrow> verified_block \<Rightarrow> block_ref option" where
  "direct_support s b = find (\<lambda>r. slot_of r = s) (ancestors b)"

lemma find_in_Nil [simp]: "find_in d s [] = Some None"
  by (subst find_in.simps) simp

lemma find_in_Cons:
  "find_in d s (r # rest) =
     (if slot_of r = s then Some (Some r)
      else if br_round r \<le> slot_round s then find_in d s rest
      else
        Option.bind (get_uncommitted_block d r) (\<lambda>b.
        Option.bind (if round_of b < slot_round s then Some None else find_in d s (ancestors b))
          (\<lambda>support. case support of Some x \<Rightarrow> Some (Some x) | None \<Rightarrow> find_in d s rest)))"
  by (subst find_in.simps) simp

lemma find_in_low:
  "\<forall>r \<in> set rs. br_round r \<le> slot_round s \<Longrightarrow> find_in d s rs = Some (find (\<lambda>r. slot_of r = s) rs)"
  by (induction rs) (auto simp: find_in_Cons)

lemma find_supported_block_next_round:
  assumes "\<forall>r \<in> set (ancestors b). br_round r < round_of b" and "round_of b \<le> slot_round s + 1"
  shows "find_supported_block d s b = Some (direct_support s b)"
proof (cases "round_of b < slot_round s")
  case True
  with assms(1) have "direct_support s b = None"
    by (auto simp: direct_support_def find_None_iff slot_of_eq_iff)
  with True show ?thesis by (simp add: find_supported_block_def)
next
  case False
  have "\<forall>r \<in> set (ancestors b). br_round r \<le> slot_round s" using assms by fastforce
  with False show ?thesis
    by (simp add: find_supported_block_def direct_support_def find_in_low)
qed

text \<open>What is found is in the slot and linked to the references searched.\<close>

lemma find_in_sound:
  assumes "find_in d s rs = Some (Some x)"
  shows "slot_of x = s \<and> linked_to (recent_blocks d) (slot_round s) (set rs) x"
proof -
  let ?P = "\<lambda>d s rs y. \<forall>x. y = Some x \<longrightarrow> slot_of x = s \<and> linked_to (recent_blocks d) (slot_round s) (set rs) x"
  have "?P d s rs (Some x)"
  proof (rule find_in.raw_induct [where P = ?P, OF _ assms])
    fix loop d s rs y
    assume IH: "\<And>d s rs y. loop d s rs = Some y \<Longrightarrow> ?P d s rs y"
      and eq: "(case rs of [] \<Rightarrow> Some None
        | r # rest \<Rightarrow> if slot_of r = s then Some (Some r)
            else if br_round r \<le> slot_round s then loop d s rest
            else Option.bind (get_uncommitted_block d r) (\<lambda>b.
                   Option.bind (if round_of b < slot_round s then Some None else loop d s (ancestors b))
                     (\<lambda>support. case support of None \<Rightarrow> loop d s rest | Some x \<Rightarrow> Some (Some x)))) = Some y"
    show "?P d s rs y"
    proof (cases rs)
      case (Cons r rest)
      have rest: "?P d s rs y" if "loop d s rest = Some y"
        using IH [OF that] Cons by (auto intro: linked_to_subset)
      show ?thesis
      proof (cases "slot_of r = s \<or> br_round r \<le> slot_round s")
        case True
        with eq Cons rest show ?thesis by (auto intro: linked_to.start split: if_splits)
      next
        case False
        with eq Cons obtain b z where b: "get_uncommitted_block d r = Some b"
          "(if round_of b < slot_round s then Some None else loop d s (ancestors b)) = Some z"
          "(case z of None \<Rightarrow> loop d s rest | Some x \<Rightarrow> Some (Some x)) = Some y"
          by (auto simp: option_simps)
        show ?thesis
        proof (cases z)
          case None
          with b(3) rest show ?thesis by simp
        next
          case (Some x)
          with b(2) have "loop d s (ancestors b) = Some (Some x)" by (auto split: if_splits)
          with IH have x: "slot_of x = s" "linked_to (recent_blocks d) (slot_round s) (set (ancestors b)) x"
            by blast+
          have "linked_to (recent_blocks d) (slot_round s) (set rs) x"
            by (rule linked_to_mono [OF x(2)])
              (use b(1) False Cons in \<open>auto simp: get_uncommitted_block_def intro: linked_to.step linked_to.start\<close>)
          with x(1) Some b(3) show ?thesis by auto
        qed
      qed
    qed (use eq in auto)
  qed
  then show ?thesis by simp
qed

text \<open>The recursion ends in a DAG that holds the ancestors above the slot.\<close>

lemma find_in_total:
  assumes inv: "dag_inv d" and closed: "dag_closed d (Suc (slot_round s))"
    and "\<forall>r \<in> set rs. br_round r < n"
    and "\<forall>r \<in> set rs. slot_round s < br_round r \<longrightarrow> get_uncommitted_block d r \<noteq> None"
  shows "\<exists>x. find_in d s rs = Some x"
  using assms(3,4)
proof (induction n arbitrary: rs rule: less_induct)
  case (less n)
  from less.prems show ?case
  proof (induction rs)
    case (Cons r rs)
    then obtain x where rest: "find_in d s rs = Some x" by auto
    show ?case
    proof (cases "slot_of r = s \<or> br_round r \<le> slot_round s")
      case True
      with rest show ?thesis by (auto simp: find_in_Cons)
    next
      case False
      with Cons.prems obtain b where b: "get_uncommitted_block d r = Some b" by auto
      from get_block_Some [OF inv b] have bd: "b \<in> dag_blocks d" "reference b = r" by auto
      then have "round_of b < n" using Cons.prems(1) by auto
      moreover have "\<forall>r' \<in> set (ancestors b). br_round r' < round_of b"
        using ancestor_round [OF inv bd(1)] by blast
      moreover have "\<forall>r' \<in> set (ancestors b). slot_round s < br_round r' \<longrightarrow> get_uncommitted_block d r' \<noteq> None"
        using closed bd(1) by (fastforce dest: dag_closedD)
      ultimately obtain y where "find_in d s (ancestors b) = Some y" using less.IH by blast
      with False b rest show ?thesis by (auto simp: find_in_Cons split: option.splits)
    qed
  qed simp
qed

lemma find_supported_block_total:
  assumes "dag_inv d" "dag_closed d (Suc (slot_round s))" "b \<in> dag_blocks d"
  shows "\<exists>x. find_supported_block d s b = Some x"
proof -
  have "\<forall>r \<in> set (ancestors b). slot_round s < br_round r \<longrightarrow> get_uncommitted_block d r \<noteq> None"
    using assms(2,3) by (fastforce dest: dag_closedD)
  with find_in_total [OF assms(1,2), of "ancestors b" "round_of b"] ancestor_round [OF assms(1,3)]
  show ?thesis by (auto simp: find_supported_block_def)
qed

section \<open>Votes and certificates\<close>

text \<open>The vote of a reference, without the cache, and the certificate check as a plain count.\<close>

definition vote_of_ref :: "dag_state \<Rightarrow> verified_block \<Rightarrow> block_ref \<Rightarrow> bool option" where
  "vote_of_ref d leader_block r =
     Option.bind (get_uncommitted_block d r) (\<lambda>b. is_vote d b leader_block)"

definition certificate_count :: "dag_state \<Rightarrow> committee \<Rightarrow> verified_block \<Rightarrow> verified_block \<Rightarrow> bool option" where
  "certificate_count d c leader_block b =
     quorum_agg.count_votes c (vote_of_ref d leader_block) br_author (ancestors b) agg_new"

definition cache_ok :: "dag_state \<Rightarrow> verified_block \<Rightarrow> vote_cache \<Rightarrow> bool" where
  "cache_ok d leader_block m \<longleftrightarrow> (\<forall>r v. m r = Some v \<longrightarrow> vote_of_ref d leader_block r = Some v)"

lemma cache_ok_empty [simp]: "cache_ok d l Map.empty"
  by (simp add: cache_ok_def)

lemma certificate_loop_count:
  assumes "cache_ok d l m"
  shows "map_option fst (certificate_loop d c l rs g m) =
      quorum_agg.count_votes c (vote_of_ref d l) br_author rs g \<and>
    (\<forall>b m'. certificate_loop d c l rs g m = Some (b, m') \<longrightarrow> cache_ok d l m')"
  using assms
proof (induction rs arbitrary: g m)
  case Nil
  then show ?case by simp
next
  case (Cons r rs)
  let ?look = "case m r of Some v \<Rightarrow> Some (v, m)
    | None \<Rightarrow> Option.bind (get_uncommitted_block d r) (\<lambda>b.
        Option.bind (is_vote d b l) (\<lambda>v. Some (v, m(r \<mapsto> v))))"
  show ?case
  proof (cases "vote_of_ref d l r")
    case None
    then have "m r = None" using Cons.prems by (cases "m r") (auto simp: cache_ok_def)
    with None show ?thesis
      by (cases "get_uncommitted_block d r") (auto simp: vote_of_ref_def)
  next
    case (Some v)
    obtain m' where look: "?look = Some (v, m')" and ok: "cache_ok d l m'"
    proof (cases "m r")
      case None
      with Some have "?look = Some (v, m(r \<mapsto> v))" by (auto simp: vote_of_ref_def option_simps)
      moreover have "cache_ok d l (m(r \<mapsto> v))" using Cons.prems Some by (auto simp: cache_ok_def)
      ultimately show ?thesis by (rule that)
    next
      case (Some w)
      then have "v = w" using Cons.prems \<open>vote_of_ref d l r = Some v\<close> by (auto simp: cache_ok_def)
      with Some that [of m] Cons.prems show ?thesis by simp
    qed
    have loop: "certificate_loop d c l (r # rs) g m =
      (if v then Option.bind (agg_add QuorumThreshold g (br_author r) c) (\<lambda>(reached, g).
          if reached then Some (True, m') else certificate_loop d c l rs g m')
       else certificate_loop d c l rs g m')"
      using look by (simp only: certificate_loop.simps bind.simps prod.case)
    show ?thesis
      using Cons.IH [OF ok] ok Some unfolding loop
      by (cases "agg_add QuorumThreshold g (br_author r) c") (auto split: prod.splits)
  qed
qed

text \<open>The cache never changes the answer.\<close>

lemma is_certificate_count:
  assumes "cache_ok d l m"
  shows "map_option fst (is_certificate bc d b l m) = certificate_count d (committee (bc_context bc)) l b"
    and "is_certificate bc d b l m = Some (x, m') \<Longrightarrow> cache_ok d l m'"
  using certificate_loop_count [OF assms] by (auto simp: is_certificate_def certificate_count_def)

lemma is_certificate_cases:
  assumes "cache_ok d l m"
  obtains (panic) "is_certificate bc d b l m = None" "certificate_count d (committee (bc_context bc)) l b = None"
  | (answer) x m' where "is_certificate bc d b l m = Some (x, m')"
      "certificate_count d (committee (bc_context bc)) l b = Some x" "cache_ok d l m'"
  using is_certificate_count [OF assms, of bc b] by (cases "is_certificate bc d b l m") auto

lemma support_loop_count:
  assumes "cache_ok d l m"
  shows "support_loop bc d l bs g m =
    quorum_agg.count_votes (committee (bc_context bc)) (certificate_count d (committee (bc_context bc)) l)
      (\<lambda>b. br_author (reference b)) bs g"
  using assms
proof (induction bs arbitrary: g m)
  case (Cons b bs)
  from Cons.prems show ?case
  proof (cases rule: is_certificate_cases [where bc = bc and b = b])
    case (answer x m')
    with Cons.IH [OF answer(3)] show ?thesis by (simp cong: if_cong)
  qed simp
qed simp

lemma any_certificate_Some:
  assumes "cache_ok d l m" and "any_certificate bc d xs l m = Some y"
  shows "if y then \<exists>x \<in> set xs. certificate_count d (committee (bc_context bc)) l x = Some True
    else \<forall>x \<in> set xs. certificate_count d (committee (bc_context bc)) l x = Some False"
  using assms
proof (induction xs arbitrary: m)
  case (Cons b bs)
  from Cons.prems(1) show ?case
  proof (cases rule: is_certificate_cases [where bc = bc and b = b])
    case (answer x m')
    with Cons.IH [OF answer(3)] Cons.prems(2) show ?thesis by (cases x) auto
  qed (use Cons.prems in simp)
qed simp

lemma any_certificate_total:
  assumes "cache_ok d l m"
    and "\<forall>x \<in> set xs. certificate_count d (committee (bc_context bc)) l x \<noteq> None"
  shows "\<exists>y. any_certificate bc d xs l m = Some y"
  using assms
proof (induction xs arbitrary: m)
  case (Cons b bs)
  from Cons.prems(1) show ?case
  proof (cases rule: is_certificate_cases [where bc = bc and b = b])
    case (answer x m')
    with Cons.IH [OF answer(3)] Cons.prems(2) show ?thesis by (cases x) auto
  qed (use Cons.prems in simp)
qed auto

lemma blame_loop_count:
  "blame_loop c a bs g =
    quorum_agg.count_votes c (\<lambda>b. Some (list_all (\<lambda>r. br_author r \<noteq> a) (ancestors b)))
      (\<lambda>b. br_author (reference b)) bs g"
  by (induction bs arbitrary: g) (simp_all cong: if_cong)

end
