(* ===== verification/CommitRule.thy ===== *)
theory CommitRule
  imports BaseCommitter
begin

text \<open>
  What the decisions of a committer mean, for waves of three rounds: leader, vote, decision. Votes,
  blames and certificates are described as sets of authors; the decisions of the two rules are
  characterised by them, and the safety lemmas compare the decisions taken on two views of the DAG.
\<close>

section \<open>Votes, blames and certificates as sets of authors\<close>

definition voters_in :: "dag_state \<Rightarrow> block_ref \<Rightarrow> verified_block \<Rightarrow> nat set" where
  "voters_in d l b = author_of `
     {v \<in> dag_blocks d. reference v \<in> set (ancestors b) \<and> direct_support (slot_of l) v = Some l}"

definition certifies :: "committee \<Rightarrow> dag_state \<Rightarrow> block_ref \<Rightarrow> verified_block \<Rightarrow> bool" where
  "certifies c d l b \<longleftrightarrow> is_quorum c (voters_in d l b)"

definition certifiers :: "committee \<Rightarrow> dag_state \<Rightarrow> block_ref \<Rightarrow> nat set" where
  "certifiers c d l = author_of ` {b \<in> dag_blocks d. round_of b = br_round l + 2 \<and> certifies c d l b}"

definition blamers :: "dag_state \<Rightarrow> slot \<Rightarrow> nat set" where
  "blamers d s = author_of ` {b \<in> dag_blocks d. round_of b = slot_round s + 1 \<and>
     (\<forall>r \<in> set (ancestors b). br_author r \<noteq> slot_authority s)}"

text \<open>The committer and the view of the DAG it works on.\<close>

definition view_ok :: "committee \<Rightarrow> dag_state \<Rightarrow> bool" where
  "view_ok c d \<longleftrightarrow> committee_wf c \<and> dag_inv d \<and> committee (ds_context d) = c"

definition committer_for :: "committee \<Rightarrow> base_committer \<Rightarrow> bool" where
  "committer_for c bc \<longleftrightarrow> committee (bc_context bc) = c \<and> wave_length (bc_options bc) = 3 \<and>
     round_offset (bc_options bc) < 2 ^ 32"

text \<open>A slot of the committer: its round starts a wave, and the wave does not wrap.\<close>

definition slot_ok :: "base_committer \<Rightarrow> slot \<Rightarrow> bool" where
  "slot_ok bc s \<longleftrightarrow> leader_round bc (wave_number bc (slot_round s)) = slot_round s \<and> slot_round s + 3 < 2 ^ 32"

lemma view_okD:
  assumes "view_ok c d"
  shows "committee_wf c" and "dag_inv d" and "committee (ds_context d) = c"
  using assms by (simp_all add: view_ok_def)

lemma author_member: "view_ok c d \<Longrightarrow> b \<in> dag_blocks d \<Longrightarrow> author_of b \<in> members c"
  using dag_blocks_ok [of d b] by (auto simp: view_ok_def block_ok_def)

lemma slot_rounds:
  assumes "committer_for c bc" and "slot_ok bc s"
  shows "decision_round bc (wave_number bc (slot_round s)) = slot_round s + 2"
    and "add32 (slot_round s) 1 = slot_round s + 1"
    and "add32 (slot_round s) (wave_length (bc_options bc)) = slot_round s + 3"
proof -
  let ?r = "slot_round s" and ?o = "round_offset (bc_options bc)"
  let ?w = "(?r - ?o) div 3"
  have wl: "wave_length (bc_options bc) = 3" and o: "?o < 2 ^ 32"
    using assms(1) by (auto simp: committer_for_def)
  have small: "?r + 3 < 2 ^ 32" using assms(2) by (simp add: slot_ok_def)
  have "?w * 3 \<le> ?r" by linarith
  then have m: "mul32 ?w 3 = ?w * 3" using small by (intro mul32_fits) linarith
  have lr: "add32 (?w * 3) ?o = ?r"
    using assms(2) by (simp add: slot_ok_def leader_round_def wave_number_def saturating_sub_def wl m)
  have wo: "?w * 3 + ?o = ?r"
  proof (cases "?o \<le> ?r")
    case True
    then have "?w * 3 + ?o \<le> ?r" using div_times_less_eq_dividend [of "?r - ?o" 3] by linarith
    then show ?thesis using lr small by (simp add: add32_fits)
  next
    case False
    then show ?thesis using lr o by (simp add: add32_fits)
  qed
  have a: "add32 (?w * 3) 3 = ?w * 3 + 3" using wo small by (intro add32_fits) linarith
  have b: "sub32 (?w * 3 + 3) 1 = ?w * 3 + 2" using wo small by (subst sub32_fits) linarith+
  have "add32 (?w * 3 + 2) ?o = ?r + 2" using wo small by (subst add32_fits) linarith+
  then show "decision_round bc (wave_number bc ?r) = ?r + 2"
    by (simp only: decision_round_def wave_number_def saturating_sub_def wl Let_def m a b)
  show "add32 ?r 1 = ?r + 1" "add32 ?r (wave_length (bc_options bc)) = ?r + 3"
    using small by (simp_all add: add32_fits wl)
qed

text \<open>The vote of a block at most one round above the leader is its direct support.\<close>

lemma is_vote_next_round:
  assumes "view_ok c d" and "b \<in> dag_blocks d" and "round_of b \<le> round_of l + 1"
  shows "is_vote d b l = Some (direct_support (slot_of (reference l)) b = Some (reference l))"
proof -
  have "find_supported_block d (slot_of (reference l)) b = Some (direct_support (slot_of (reference l)) b)"
    using ancestor_round [OF view_okD(2) [OF assms(1)] assms(2)] assms(3)
    by (intro find_supported_block_next_round) auto
  then show ?thesis by (simp add: is_vote_def Let_def)
qed

lemma voters_in_members: "view_ok c d \<Longrightarrow> voters_in d l b \<subseteq> members c"
  by (auto simp: voters_in_def author_member)

lemma certifiers_members: "view_ok c d \<Longrightarrow> certifiers c d l \<subseteq> members c"
  by (auto simp: certifiers_def author_member)

lemma blamers_members: "view_ok c d \<Longrightarrow> blamers d s \<subseteq> members c"
  by (auto simp: blamers_def author_member)

lemma no_empty_quorum: "committee_wf c \<Longrightarrow> \<not> is_threshold QuorumThreshold c (stake_of c {})"
  using committee_wf_thresholds(2) [of c] by (simp add: reached_quorum_def)

lemma threshold_is_quorum:
  "S \<subseteq> members c \<Longrightarrow> is_threshold QuorumThreshold c (stake_of c S) \<longleftrightarrow> is_quorum c S"
  by (simp add: is_quorum_def reached_quorum_def)

text \<open>The certificate count of a decision block answers whether the block certifies the leader.\<close>

lemma vote_refs_authors:
  assumes v: "view_ok c d" and b: "b \<in> dag_blocks d" and r: "round_of b = round_of l + 2"
  shows "br_author ` {r \<in> set (ancestors b). vote_of_ref d l r = Some True} = voters_in d (reference l) b"
    (is "?L = ?R")
proof -
  have vote: "vote_of_ref d l r = Some True \<longleftrightarrow>
      (\<exists>x \<in> dag_blocks d. reference x = r \<and> direct_support (slot_of (reference l)) x = Some (reference l))"
    if "r \<in> set (ancestors b)" for r
  proof (cases "get_uncommitted_block d r")
    case None
    then show ?thesis using dag_blocks_iff [OF view_okD(2) [OF v]] by (auto simp: vote_of_ref_def)
  next
    case (Some x)
    then have x: "reference x = r" "x \<in> dag_blocks d" using get_block_Some view_okD(2) [OF v] by auto
    have "br_round r < round_of b" using ancestor_round [OF view_okD(2) [OF v] b that] .
    with x(1) r have "round_of x \<le> round_of l + 1" by auto
    from is_vote_next_round [OF v x(2) this] Some x dag_blocks_reference_inj [OF view_okD(2) [OF v]]
    show ?thesis by (auto simp: vote_of_ref_def)
  qed
  show ?thesis
  proof
    show "?L \<subseteq> ?R" using vote by (fastforce simp: voters_in_def)
    show "?R \<subseteq> ?L"
    proof
      fix a assume "a \<in> ?R"
      then obtain x where x: "x \<in> dag_blocks d" "reference x \<in> set (ancestors b)" "a = author_of x"
        "direct_support (slot_of (reference l)) x = Some (reference l)" by (auto simp: voters_in_def)
      with vote [OF x(2)] have "vote_of_ref d l (reference x) = Some True" by blast
      with x show "a \<in> ?L" by (intro image_eqI [of _ _ "reference x"]) auto
    qed
  qed
qed

lemma certificate_count_iff:
  assumes v: "view_ok c d" and b: "b \<in> dag_blocks d" and r: "round_of b = round_of l + 2"
    and run: "certificate_count d c l b = Some x"
  shows "x \<longleftrightarrow> certifies c d (reference l) b"
proof -
  have auth: "br_author ` {r \<in> set (ancestors b). vote_of_ref d l r = Some True} = voters_in d (reference l) b"
    using vote_refs_authors [OF v b r] .
  have "\<forall>r \<in> set (ancestors b). vote_of_ref d l r = Some True \<longrightarrow> br_author r \<in> members c"
    using auth voters_in_members [OF v] by blast
  from quorum_agg.count_votes_iff [OF view_okD(1) [OF v] no_empty_quorum [OF view_okD(1) [OF v]]
      run [unfolded certificate_count_def] this]
  show ?thesis
    using auth voters_in_members [OF v] by (simp add: certifies_def threshold_is_quorum del: is_threshold.simps)
qed

section \<open>What the decisions mean\<close>

lemma enough_blame_iff:
  assumes v: "view_ok c d" and bc: "committer_for c bc" and r: "r = slot_round s + 1"
    and run: "enough_leader_blame bc d r (slot_authority s) = Some x"
  shows "x \<longleftrightarrow> is_quorum c (blamers d s)"
proof -
  from run obtain bs where bs: "get_uncommitted_blocks_at_round d r = Some bs"
    and loop: "blame_loop c (slot_authority s) bs agg_new = Some x"
    using bc by (auto simp: enough_leader_blame_def option_simps committer_for_def)
  have set: "set bs = {b \<in> dag_blocks d. round_of b = r}"
    using at_round_SomeD [OF view_okD(2) [OF v] bs] by blast
  have auth: "(\<lambda>b. br_author (reference b)) `
      {b \<in> set bs. Some (list_all (\<lambda>r. br_author r \<noteq> slot_authority s) (ancestors b)) = Some True} = blamers d s"
    by (auto simp: blamers_def set r list_all_iff)
  from quorum_agg.count_votes_iff [OF view_okD(1) [OF v] no_empty_quorum [OF view_okD(1) [OF v]]
      loop [unfolded blame_loop_count]] set author_member [OF v]
  have "x \<longleftrightarrow> is_threshold QuorumThreshold c (stake_of c (blamers d s))"
    unfolding auth by auto
  then show ?thesis using blamers_members [OF v] by (simp add: threshold_is_quorum del: is_threshold.simps)
qed

lemma enough_support_sound:
  assumes v: "view_ok c d" and bc: "committer_for c bc" and r: "r = round_of l + 2"
    and run: "enough_leader_support bc d r l = Some True"
  shows "is_quorum c (certifiers c d (reference l))"
proof -
  from run obtain bs where bs: "get_uncommitted_blocks_at_round d r = Some bs"
    and loop: "support_loop bc d l bs agg_new Map.empty = Some True"
    by (auto simp: enough_leader_support_def option_simps split: if_splits)
  have set: "set bs = {b \<in> dag_blocks d. round_of b = r}"
    using at_round_SomeD [OF view_okD(2) [OF v] bs] by blast
  have count: "quorum_agg.count_votes c (certificate_count d c l) (\<lambda>b. br_author (reference b)) bs agg_new = Some True"
    using loop support_loop_count [of d l Map.empty bc bs agg_new] bc by (simp add: committer_for_def)
  have sub: "(\<lambda>b. br_author (reference b)) ` {b \<in> set bs. certificate_count d c l b = Some True}
      \<subseteq> certifiers c d (reference l)"
    using certificate_count_iff [OF v] by (auto simp: certifiers_def set r)
  obtain S where "S \<subseteq> (\<lambda>b. br_author (reference b)) ` {b \<in> set bs. certificate_count d c l b = Some True}"
      "is_threshold QuorumThreshold c (stake_of c S)"
    using quorum_agg.count_votes_True [OF view_okD(1) [OF v] quorum_agg.inv_new count]
    by (auto simp: agg_new_def simp del: is_threshold.simps br_author_reference)
  then have "S \<subseteq> certifiers c d (reference l)" "is_threshold QuorumThreshold c (stake_of c S)"
    using sub by blast+
  with reached_quorum_mono [OF this(1) certifiers_members [OF v], of QuorumThreshold]
  show ?thesis using certifiers_members [OF v] by (simp add: threshold_is_quorum del: is_threshold.simps)
qed

lemma last_filter_in: "filter P xs \<noteq> [] \<Longrightarrow> last (filter P xs) \<in> set xs \<and> P (last (filter P xs))"
  using last_in_set [of "filter P xs"] by auto

text \<open>The direct rule commits a block that a quorum certifies, and skips a slot that a quorum blames.\<close>

lemma direct_meaning:
  assumes v: "view_ok c d" and bc: "committer_for c bc" and s: "slot_ok bc s"
    and run: "try_direct_decide bc d s = Some st"
  shows "case st of
      Commit l \<Rightarrow> l \<in> dag_blocks d \<and> slot_of (reference l) = s \<and> is_quorum c (certifiers c d (reference l))
    | Skip s' \<Rightarrow> s' = s \<and> is_quorum c (blamers d s)
    | Undecided s' \<Rightarrow> s' = s"
proof -
  note rounds = slot_rounds [OF bc s]
  from run obtain blamed where blame: "enough_leader_blame bc d (slot_round s + 1) (slot_authority s) = Some blamed"
    and rest: "if blamed then st = Skip s else
      (\<exists>ls sup. get_uncommitted_blocks_at_slot d s = Some ls \<and>
        filter_opt (enough_leader_support bc d (slot_round s + 2)) ls = Some sup \<and>
        st = (if sup = [] then Undecided s else Commit (last sup)))"
    unfolding try_direct_decide_def rounds Let_def by (auto simp: option_simps split: if_splits)
  show ?thesis
  proof (cases blamed)
    case True
    with enough_blame_iff [OF v bc refl blame] rest show ?thesis by simp
  next
    case False
    with rest obtain ls sup where ls: "get_uncommitted_blocks_at_slot d s = Some ls"
      and sup: "sup = filter (\<lambda>l. enough_leader_support bc d (slot_round s + 2) l = Some True) ls"
      and st: "st = (if sup = [] then Undecided s else Commit (last sup))"
      by (auto simp: filter_opt_Some_iff)
    have set: "set ls = {b \<in> dag_blocks d. slot_of (reference b) = s}"
      using at_slot_Some [OF view_okD(2) [OF v], of s] ls by auto
    show ?thesis
    proof (cases "sup = []")
      case False
      then have l: "last sup \<in> dag_blocks d" "slot_of (reference (last sup)) = s"
        "enough_leader_support bc d (slot_round s + 2) (last sup) = Some True"
        using last_filter_in [of _ ls] set unfolding sup by auto
      then have "round_of (last sup) = slot_round s" by (auto simp: slot_of_eq_iff)
      with enough_support_sound [OF v bc _ l(3)] l st False show ?thesis by simp
    qed (use st in simp)
  qed
qed

definition certified_below :: "committee \<Rightarrow> dag_state \<Rightarrow> verified_block \<Rightarrow> block_ref \<Rightarrow> bool" where
  "certified_below c d anchor l \<longleftrightarrow>
     (\<exists>b \<in> dag_blocks d. round_of b = br_round l + 2 \<and>
        linked_to (recent_blocks d) (br_round l + 2) (set (ancestors anchor)) (reference b) \<and>
        certifies c d l b)"

text \<open>The indirect rule commits the block of the slot certified below the anchor, if there is one.\<close>

lemma anchor_meaning:
  assumes v: "view_ok c d" and bc: "committer_for c bc" and s: "slot_ok bc s"
    and run: "decide_leader_from_anchor bc d anchor s = Some st"
  shows "case st of
      Commit l \<Rightarrow> l \<in> dag_blocks d \<and> slot_of (reference l) = s \<and> certified_below c d anchor (reference l)
    | Skip s' \<Rightarrow> s' = s \<and> (\<forall>l \<in> dag_blocks d. slot_of (reference l) = s \<longrightarrow> \<not> certified_below c d anchor (reference l))
    | Undecided s' \<Rightarrow> False"
proof -
  note rounds = slot_rounds [OF bc s]
  from run obtain ls ps cs where ls: "get_uncommitted_blocks_at_slot d s = Some ls"
    and ps: "ancestors_at_uncommitted_round d anchor (slot_round s + 2) = Some ps"
    and cs: "filter_opt (\<lambda>l. any_certificate bc d ps l Map.empty) ls = Some cs"
    and st: "st = (if cs = [] then Skip s else Commit (last cs))"
    by (auto simp: decide_leader_from_anchor_def option_simps rounds Let_def)
  have setl: "set ls = {b \<in> dag_blocks d. slot_of (reference b) = s}"
    using at_slot_Some [OF view_okD(2) [OF v], of s] ls by auto
  have setp: "set ps = {x \<in> dag_blocks d. round_of x = slot_round s + 2 \<and>
      linked_to (recent_blocks d) (slot_round s + 2) (set (ancestors anchor)) (reference x)}"
    using ancestors_at_SomeD(1) [OF view_okD(2) [OF v] ps] .
  have cert: "y \<longleftrightarrow> certified_below c d anchor (reference l)"
    if l: "l \<in> set ls" and y: "any_certificate bc d ps l Map.empty = Some y" for l y
  proof -
    have rl: "round_of l = slot_round s" using l setl by (auto simp: slot_of_eq_iff)
    have "if y then \<exists>x \<in> set ps. certificate_count d c l x = Some True
        else \<forall>x \<in> set ps. certificate_count d c l x = Some False"
      using any_certificate_Some [OF cache_ok_empty y] bc by (auto simp: committer_for_def)
    moreover have "z \<longleftrightarrow> certifies c d (reference l) x" if "x \<in> set ps" "certificate_count d c l x = Some z" for x z
      using certificate_count_iff [OF v _ _ that(2)] that(1) setp rl by simp
    ultimately have "y \<longleftrightarrow> (\<exists>x \<in> set ps. certifies c d (reference l) x)"
      by (metis (full_types))
    then show ?thesis using setp rl by (auto simp: certified_below_def)
  qed
  from cs have cs': "cs = filter (\<lambda>l. any_certificate bc d ps l Map.empty = Some True) ls"
    and tot: "\<forall>l \<in> set ls. any_certificate bc d ps l Map.empty \<noteq> None"
    by (auto simp: filter_opt_Some_iff)
  show ?thesis
  proof (cases "cs = []")
    case True
    have "\<not> certified_below c d anchor (reference l)" if l: "l \<in> set ls" for l
    proof -
      from tot l obtain y where y: "any_certificate bc d ps l Map.empty = Some y" by auto
      moreover have "any_certificate bc d ps l Map.empty \<noteq> Some True"
        using True l unfolding cs' by (auto simp: filter_empty_conv)
      ultimately have "\<not> y" by auto
      with cert [OF l y] show ?thesis by simp
    qed
    with True st setl show ?thesis by simp
  next
    case False
    then have "last cs \<in> set ls" "any_certificate bc d ps (last cs) Map.empty = Some True"
      using last_filter_in [of _ ls] unfolding cs' by blast+
    with cert [OF this] setl st False show ?thesis by simp
  qed
qed

section \<open>The rules do not panic on their reads\<close>

lemma is_vote_total:
  "view_ok c d \<Longrightarrow> dag_closed d 0 \<Longrightarrow> b \<in> dag_blocks d \<Longrightarrow> \<exists>x. is_vote d b l = Some x"
  using find_supported_block_total [OF view_okD(2) dag_closed_mono, of c d 0 "slot_of (reference l)" b]
  by (auto simp: is_vote_def Let_def)

lemma certificate_count_total:
  assumes v: "view_ok c d" and cl: "dag_closed d 0" and b: "b \<in> dag_blocks d"
  shows "\<exists>x. certificate_count d c l b = Some x"
  unfolding certificate_count_def
proof (rule quorum_agg.count_votes_total [OF view_okD(1) [OF v] quorum_agg.inv_new], rule ballI)
  fix r assume r: "r \<in> set (ancestors b)"
  obtain x where x: "get_uncommitted_block d r = Some x" using dag_closedD [OF cl b r] by auto
  note xd = get_block_Some [OF view_okD(2) [OF v] x]
  with author_member [OF v, of x] have "br_author r \<in> members c" by auto
  with x xd is_vote_total [OF v cl] show "\<exists>y. vote_of_ref d l r = Some y \<and> (y \<longrightarrow> br_author r \<in> members c)"
    by (auto simp: vote_of_ref_def)
qed

lemma enough_blame_total:
  assumes v: "view_ok c d" and bc: "committer_for c bc" and r: "last_commit_round d < r" "r < u32_max"
  shows "\<exists>x. enough_leader_blame bc d r a = Some x"
proof -
  obtain bs where bs: "get_uncommitted_blocks_at_round d r = Some bs" "set bs = {b \<in> dag_blocks d. round_of b = r}"
    using at_round_Some [OF view_okD(2) [OF v] r] by blast
  have "\<exists>x. blame_loop c a bs agg_new = Some x"
    unfolding blame_loop_count
    by (rule quorum_agg.count_votes_total [OF view_okD(1) [OF v] quorum_agg.inv_new])
      (use bs(2) author_member [OF v] in auto)
  with bs(1) bc show ?thesis by (auto simp: enough_leader_blame_def committer_for_def)
qed

lemma enough_support_total:
  assumes v: "view_ok c d" and bc: "committer_for c bc" and cl: "dag_closed d 0"
    and r: "last_commit_round d < r" "r < u32_max"
  shows "\<exists>x. enough_leader_support bc d r l = Some x"
proof -
  obtain bs where bs: "get_uncommitted_blocks_at_round d r = Some bs" "set bs = {b \<in> dag_blocks d. round_of b = r}"
    using at_round_Some [OF view_okD(2) [OF v] r] by blast
  have "map_opt (\<lambda>b. committee_stake c (author_of b)) bs \<noteq> None"
    using map_opt_Some_iff [of "\<lambda>b. committee_stake c (author_of b)" bs] bs(2) author_member [OF v]
    by (auto simp: committee_stake_weight)
  then obtain st where st: "map_opt (\<lambda>b. committee_stake c (author_of b)) bs = Some st" by blast
  have "\<exists>x. support_loop bc d l bs agg_new Map.empty = Some x"
    unfolding support_loop_count [OF cache_ok_empty]
    by (rule quorum_agg.count_votes_total)
      (use bs(2) author_member [OF v] certificate_count_total [OF v cl] bc view_okD(1) [OF v] quorum_agg.inv_new in
        \<open>auto simp: committer_for_def\<close>)
  with bs(1) st bc show ?thesis by (auto simp: enough_leader_support_def committer_for_def)
qed

text \<open>
  The early check on the stake of the decision blocks changes nothing, as long as the stake
  of all blocks held at the round stays within 64 bits.
\<close>

lemma enough_support_iff:
  assumes v: "view_ok c d" and bc: "committer_for c bc" and r: "r = round_of l + 2"
    and fits: "card (dag_blocks d) * total_stake c < 2 ^ 64"
    and run: "enough_leader_support bc d r l = Some x"
  shows "x \<longleftrightarrow> is_quorum c (certifiers c d (reference l))"
proof (cases x)
  case True
  with enough_support_sound [OF v bc r] run show ?thesis by simp
next
  case False
  note wf = view_okD(1) [OF v]
  from run obtain bs st where bs: "get_uncommitted_blocks_at_round d r = Some bs"
    and st: "map_opt (\<lambda>b. committee_stake c (author_of b)) bs = Some st"
    and res: "\<not> reached_quorum c (sum64 st) \<or> support_loop bc d l bs agg_new Map.empty = Some False"
    using bc False by (auto simp: enough_leader_support_def option_simps committer_for_def split: if_splits)
  have set: "set bs = {b \<in> dag_blocks d. round_of b = r}"
    using at_round_SomeD [OF view_okD(2) [OF v] bs] by blast
  have mem: "b \<in> set bs \<Longrightarrow> author_of b \<in> members c" for b using set author_member [OF v] by auto
  from res show ?thesis
  proof
    assume loop: "support_loop bc d l bs agg_new Map.empty = Some False"
    note count = loop [unfolded support_loop_count [OF cache_ok_empty]]
    have visits: "\<forall>b \<in> set bs. certificate_count d c l b \<noteq> None"
      using quorum_agg.count_votes_False_visits [OF count] bc by (auto simp: committer_for_def)
    have "\<not> is_threshold QuorumThreshold c (stake_of c
        ((\<lambda>b. br_author (reference b)) ` {b \<in> set bs. certificate_count d c l b = Some True} \<union> votes agg_new))"
      using quorum_agg.count_votes_False [OF wf quorum_agg.inv_new, of _ _ bs] count no_empty_quorum [OF wf] bc
      by (simp add: agg_new_def committer_for_def del: is_threshold.simps br_author_reference)
    moreover have "(\<lambda>b. br_author (reference b)) ` {b \<in> set bs. certificate_count d c l b = Some True}
        = certifiers c d (reference l)"
    proof -
      have "{b \<in> set bs. certificate_count d c l b = Some True} = {b \<in> set bs. certifies c d (reference l) b}"
        using visits certificate_count_iff [OF v] set r by fastforce
      then show ?thesis by (auto simp: certifiers_def set r)
    qed
    ultimately show ?thesis
      using False certifiers_members [OF v] by (simp add: agg_new_def threshold_is_quorum del: is_threshold.simps)
  next
    assume early: "\<not> reached_quorum c (sum64 st)"
    have dist: "distinct bs" using at_round_distinct [OF view_okD(2) [OF v] bs] .
    have st': "st = map (\<lambda>b. weight c (author_of b)) bs"
      using st mem by (auto simp: map_opt_Some_iff committee_stake_weight)
    have "sum_list st \<le> length bs * total_stake c"
      unfolding st' using sum_list_mono [of bs "\<lambda>b. weight c (author_of b)" "\<lambda>_. total_stake c"]
        weight_le_total [OF wf mem] by (simp add: sum_list_triv)
    also have "\<dots> \<le> card (dag_blocks d) * total_stake c"
      using set distinct_card [OF dist] card_mono [of "dag_blocks d" "set bs"] by (auto simp: dag_blocks_def)
    finally have "sum64 st = sum_list st" using fits by (intro sum64_fits) simp
    moreover have "stake_of c (certifiers c d (reference l)) \<le> sum_list st"
    proof -
      have "certifiers c d (reference l) \<subseteq> author_of ` set bs" by (auto simp: certifiers_def set r)
      then have "stake_of c (certifiers c d (reference l)) \<le> stake_of c (author_of ` set bs)"
        by (rule stake_of_mono) simp
      also have "\<dots> \<le> (\<Sum>b \<in> set bs. weight c (author_of b))"
        unfolding stake_of_def using sum_image_le [of "set bs" "weight c" author_of] by (simp add: comp_def)
      also have "\<dots> = sum_list st" using dist by (simp add: st' sum_list_distinct_conv_sum_set)
      finally show ?thesis .
    qed
    ultimately show ?thesis using False early by (auto simp: reached_quorum_def is_quorum_def)
  qed
qed

end
