(* ===== verification/CommitSafety.thy ===== *)
theory CommitSafety
  imports CommitRule
begin

text \<open>
  Safety of the commit rule across two validators, for waves of three rounds. The faulty
  authorities hold less than the validity threshold; every other authority has one block per slot
  over both views; a reference determines the content of its block; the views hold the
  ancestors of their blocks above a round \<open>lo\<close>, and every block above it references a quorum of
  authors of the round before.
\<close>

section \<open>Two views of the DAG\<close>

definition honest_blocks :: "nat set \<Rightarrow> verified_block set \<Rightarrow> bool" where
  "honest_blocks F U \<longleftrightarrow> (\<forall>b \<in> U. \<forall>b' \<in> U.
     (reference b = reference b' \<longrightarrow> inner (vb_block b) = inner (vb_block b')) \<and>
     (author_of b \<notin> F \<and> slot_of (reference b) = slot_of (reference b') \<longrightarrow> reference b = reference b'))"

definition parents_ok :: "committee \<Rightarrow> nat \<Rightarrow> dag_state \<Rightarrow> bool" where
  "parents_ok c lo d \<longleftrightarrow> (\<forall>b \<in> dag_blocks d. lo < round_of b \<longrightarrow>
     is_quorum c (br_author ` {r \<in> set (ancestors b). br_round r = round_of b - 1}))"

definition two_views :: "committee \<Rightarrow> nat set \<Rightarrow> nat \<Rightarrow> dag_state \<Rightarrow> dag_state \<Rightarrow> bool" where
  "two_views c F lo d1 d2 \<longleftrightarrow>
     view_ok c d1 \<and> view_ok c d2 \<and> dag_closed d1 lo \<and> dag_closed d2 lo \<and>
     parents_ok c lo d1 \<and> parents_ok c lo d2 \<and>
     bft_faulty c F \<and> honest_blocks F (dag_blocks d1 \<union> dag_blocks d2)"

lemma two_views_sym: "two_views c F lo d1 d2 \<Longrightarrow> two_views c F lo d2 d1"
  by (simp add: two_views_def Un_commute)

lemma two_viewsD:
  assumes "two_views c F lo d1 d2"
  shows "view_ok c d1" "view_ok c d2" "dag_closed d1 lo" "dag_closed d2 lo"
    "parents_ok c lo d1" "parents_ok c lo d2" "bft_faulty c F"
    "honest_blocks F (dag_blocks d1 \<union> dag_blocks d2)"
    "committee_wf c" "dag_inv d1" "dag_inv d2"
  using assms by (auto simp: two_views_def view_ok_def)

lemma same_ancestors:
  assumes "honest_blocks F U" "b \<in> U" "b' \<in> U" "reference b = reference b'"
  shows "ancestors b = ancestors b'"
proof -
  have "inner (vb_block b) = inner (vb_block b')" using assms unfolding honest_blocks_def by blast
  then show ?thesis by (simp add: ancestors_def)
qed

lemma same_slot_honest:
  assumes "honest_blocks F U" "b \<in> U" "b' \<in> U" "author_of b = author_of b'" "round_of b = round_of b'"
    "author_of b \<notin> F"
  shows "reference b = reference b'"
proof -
  have "slot_of (reference b) = slot_of (reference b')" using assms(4,5) by (simp add: slot_of_eq_iff)
  with assms show ?thesis unfolding honest_blocks_def by blast
qed

lemma same_slot_ancestors:
  assumes "honest_blocks F U" "b \<in> U" "b' \<in> U" "author_of b = author_of b'" "round_of b = round_of b'"
    "author_of b \<notin> F"
  shows "ancestors b = ancestors b'"
  using same_ancestors [OF assms(1-3) same_slot_honest [OF assms]] .

lemma reference_eqD: "reference b = reference b' \<Longrightarrow> round_of b = round_of b' \<and> author_of b = author_of b'"
  by (metis br_author_reference br_round_reference)

section \<open>Certificates exclude blames and each other\<close>

text \<open>A voter of a certificate is a block of the voting round that lists the leader.\<close>

lemma voter_block:
  assumes "view_ok c d" and "b \<in> dag_blocks d" and "round_of b = br_round l + 2" and "a \<in> voters_in d l b"
  shows "\<exists>v \<in> dag_blocks d. author_of v = a \<and> round_of v = br_round l + 1 \<and> l \<in> set (ancestors v) \<and>
    direct_support (slot_of l) v = Some l \<and> reference v \<in> set (ancestors b)"
proof -
  from assms(4) obtain v where v: "v \<in> dag_blocks d" "author_of v = a" "reference v \<in> set (ancestors b)"
    "direct_support (slot_of l) v = Some l" by (auto simp: voters_in_def)
  then have l: "l \<in> set (ancestors v)" by (auto simp: direct_support_def find_Some_iff)
  have "br_round l < round_of v" using ancestor_round [OF view_okD(2) [OF assms(1)] v(1) l] .
  moreover have "round_of v < round_of b"
    using ancestor_round [OF view_okD(2) [OF assms(1)] assms(2) v(3)] by simp
  ultimately have "round_of v = br_round l + 1" using assms(3) by simp
  with v l show ?thesis by blast
qed

lemma certificate_excludes_blame:
  assumes v: "two_views c F lo d1 d2" and b: "b \<in> dag_blocks d1" "round_of b = br_round l + 2"
    and cert: "certifies c d1 l b" and blame: "is_quorum c (blamers d2 (slot_of l))"
  shows False
proof -
  note tv = two_viewsD [OF v]
  obtain a where a: "a \<in> voters_in d1 l b" "a \<in> blamers d2 (slot_of l)" "a \<notin> F"
    using is_quorum_share_honest [OF tv(9) cert [unfolded certifies_def] blame tv(7)] by blast
  obtain x where x: "x \<in> dag_blocks d1" "author_of x = a" "round_of x = br_round l + 1" "l \<in> set (ancestors x)"
    using voter_block [OF tv(1) b a(1)] by blast
  obtain y where y: "y \<in> dag_blocks d2" "author_of y = a" "round_of y = br_round l + 1"
    "\<forall>r \<in> set (ancestors y). br_author r \<noteq> br_author l"
    using a(2) by (auto simp: blamers_def)
  have "ancestors x = ancestors y"
    by (rule same_slot_ancestors [OF tv(8)]) (use x y a(3) in auto)
  with x(4) y(4) show False by auto
qed

lemma certified_unique:
  assumes v: "two_views c F lo d1 d2"
    and b1: "b1 \<in> dag_blocks d1" "round_of b1 = br_round l1 + 2" "certifies c d1 l1 b1"
    and b2: "b2 \<in> dag_blocks d2" "round_of b2 = br_round l2 + 2" "certifies c d2 l2 b2"
    and slot: "slot_of l1 = slot_of l2"
  shows "l1 = l2"
proof -
  note tv = two_viewsD [OF v]
  have r: "br_round l1 = br_round l2" using slot by (metis slot_of_simps(1))
  obtain a where a: "a \<in> voters_in d1 l1 b1" "a \<in> voters_in d2 l2 b2" "a \<notin> F"
    using is_quorum_share_honest [OF tv(9) b1(3) [unfolded certifies_def] b2(3) [unfolded certifies_def] tv(7)]
    by blast
  obtain x where x: "x \<in> dag_blocks d1" "author_of x = a" "round_of x = br_round l1 + 1"
    "direct_support (slot_of l1) x = Some l1" using voter_block [OF tv(1) b1(1,2) a(1)] by blast
  obtain y where y: "y \<in> dag_blocks d2" "author_of y = a" "round_of y = br_round l2 + 1"
    "direct_support (slot_of l2) y = Some l2" using voter_block [OF tv(2) b2(1,2) a(2)] by blast
  have "ancestors x = ancestors y"
    by (rule same_slot_ancestors [OF tv(8)]) (use x y a(3) r in auto)
  with x(4) y(4) slot show "l1 = l2" by (simp add: direct_support_def)
qed

section \<open>Certificates travel to anchors\<close>

lemma block_present:
  assumes "dag_inv d" "dag_closed d lo" "b \<in> dag_blocks d" "r \<in> set (ancestors b)" "lo \<le> br_round r"
  shows "\<exists>x \<in> dag_blocks d. reference x = r \<and> bt_get (recent_blocks d) r = Some x"
proof -
  obtain x where "get_uncommitted_block d r = Some x" using dag_closedD [OF assms(2-5)] by blast
  with get_block_Some [OF assms(1) this] show ?thesis by (auto simp: get_uncommitted_block_def)
qed

text \<open>Every block reaches a quorum of authors at every round below it.\<close>

definition linked_authors :: "dag_state \<Rightarrow> nat \<Rightarrow> verified_block \<Rightarrow> nat set" where
  "linked_authors d e b = author_of ` {x \<in> dag_blocks d. round_of x = e \<and>
     linked_to (recent_blocks d) e (set (ancestors b)) (reference x)}"

lemma linked_quorum:
  assumes "view_ok c d" and "dag_closed d lo" and "parents_ok c lo d" and "lo \<le> e"
    and "b \<in> dag_blocks d" and "e < round_of b"
  shows "is_quorum c (linked_authors d e b)"
  using assms(5,6)
proof (induction "round_of b" arbitrary: b rule: less_induct)
  case less
  note inv = view_okD(2) [OF assms(1)]
  let ?P = "{r \<in> set (ancestors b). br_round r = round_of b - 1}"
  have q: "is_quorum c (br_author ` ?P)"
    using assms(3,4) less.prems by (auto simp: parents_ok_def)
  have mem: "linked_authors d e b \<subseteq> members c"
    using author_member [OF assms(1)] by (auto simp: linked_authors_def)
  show ?case
  proof (cases "round_of b = Suc e")
    case True
    have "br_author ` ?P \<subseteq> linked_authors d e b"
    proof
      fix a assume "a \<in> br_author ` ?P"
      then obtain r where r: "r \<in> set (ancestors b)" "br_round r = e" "a = br_author r" using True by auto
      with block_present [OF inv assms(2) less.prems(1) r(1)] assms(4)
      obtain x where "x \<in> dag_blocks d" "reference x = r" by auto
      with r show "a \<in> linked_authors d e b"
        by (auto simp: linked_authors_def intro!: image_eqI [of _ _ x] linked_to.start)
    qed
    from is_quorum_mono [OF q this mem] show ?thesis .
  next
    case False
    from is_quorum_nonempty [OF view_okD(1) [OF assms(1)] q]
    obtain r where r: "r \<in> set (ancestors b)" "br_round r = round_of b - 1" by auto
    have "lo \<le> br_round r" using r(2) assms(4) less.prems(2) by linarith
    from block_present [OF inv assms(2) less.prems(1) r(1) this]
    obtain x where x: "x \<in> dag_blocks d" "reference x = r" "bt_get (recent_blocks d) r = Some x" by blast
    have rx: "round_of x = br_round r" using x(2) by auto
    then have er: "e < round_of x" "round_of x < round_of b" using r(2) False less.prems(2) by linarith+
    have "linked_to (recent_blocks d) e (set (ancestors b)) y"
      if "linked_to (recent_blocks d) e (set (ancestors x)) y" for y
      by (rule linked_to_mono [OF that])
        (use er rx x r in \<open>auto intro: linked_to.step [OF linked_to.start]\<close>)
    then have "linked_authors d e x \<subseteq> linked_authors d e b" by (auto simp: linked_authors_def)
    from is_quorum_mono [OF less.hyps [OF er(2) x(1) er(1)] this mem] show ?thesis .
  qed
qed

text \<open>Two copies of a decision block count the same votes.\<close>

lemma voters_transfer:
  assumes v: "two_views c F lo d1 d2" and b: "b1 \<in> dag_blocks d1" "b2 \<in> dag_blocks d2" "reference b1 = reference b2"
    and r: "round_of b1 = br_round l + 2" and lo: "lo \<le> br_round l"
  shows "voters_in d1 l b1 \<subseteq> voters_in d2 l b2"
proof
  note tv = two_viewsD [OF v]
  fix a assume "a \<in> voters_in d1 l b1"
  from voter_block [OF tv(1) b(1) r this] obtain x where x: "x \<in> dag_blocks d1" "author_of x = a"
    "round_of x = br_round l + 1" "direct_support (slot_of l) x = Some l" "reference x \<in> set (ancestors b1)"
    by blast
  have "ancestors b1 = ancestors b2" using same_ancestors [OF tv(8)] b by blast
  with x(5) have x5: "reference x \<in> set (ancestors b2)" by simp
  from block_present [OF tv(11,4) b(2) x5] x(3) lo obtain y where
    y: "y \<in> dag_blocks d2" "reference y = reference x" by auto
  have "ancestors x = ancestors y" using same_ancestors [OF tv(8), of x y] x(1) y by simp
  with x(4) have "direct_support (slot_of l) y = Some l" by (simp add: direct_support_def)
  with y x5 have "author_of y \<in> voters_in d2 l b2" unfolding voters_in_def by simp
  with reference_eqD [OF y(2)] x(2) show "a \<in> voters_in d2 l b2" by simp
qed

lemma certifies_transfer:
  assumes "two_views c F lo d1 d2" "b1 \<in> dag_blocks d1" "b2 \<in> dag_blocks d2" "reference b1 = reference b2"
    "round_of b1 = br_round l + 2" "lo \<le> br_round l" "certifies c d1 l b1"
  shows "certifies c d2 l b2"
  using is_quorum_mono [OF _ voters_transfer [OF assms(1-6)] voters_in_members] assms(7) two_viewsD [OF assms(1)]
  by (simp add: certifies_def)

text \<open>A certified leader is present in the view of its certificate.\<close>

lemma certified_present:
  assumes "view_ok c d" and "dag_closed d lo" and "b \<in> dag_blocks d" and "round_of b = br_round l + 2"
    and "lo \<le> br_round l" and "certifies c d l b"
  shows "\<exists>x \<in> dag_blocks d. reference x = l"
proof -
  from is_quorum_nonempty [OF view_okD(1) [OF assms(1)]] assms(6)
  obtain a where "a \<in> voters_in d l b" by (auto simp: certifies_def)
  from voter_block [OF assms(1,3,4) this] obtain v where "v \<in> dag_blocks d" "l \<in> set (ancestors v)" by blast
  with block_present [OF view_okD(2) [OF assms(1)] assms(2) this assms(5)] show ?thesis by blast
qed

text \<open>A leader with a quorum of certificates is certified below every later anchor, in every view.\<close>

lemma direct_commit_below_anchor:
  assumes v: "two_views c F lo d1 d2" and q: "is_quorum c (certifiers c d1 l)" and lo: "lo \<le> br_round l"
    and A: "A \<in> dag_blocks d2" "br_round l + 3 \<le> round_of A"
  shows "certified_below c d2 A l"
proof -
  note tv = two_viewsD [OF v]
  have "is_quorum c (linked_authors d2 (br_round l + 2) A)"
    by (rule linked_quorum [OF tv(2,4,6)]) (use lo A in auto)
  from is_quorum_share_honest [OF tv(9) q this tv(7)] obtain a where
    a: "a \<in> certifiers c d1 l" "a \<in> linked_authors d2 (br_round l + 2) A" "a \<notin> F" by blast
  from a(1) obtain b1 where b1: "b1 \<in> dag_blocks d1" "author_of b1 = a" "round_of b1 = br_round l + 2"
    "certifies c d1 l b1" by (auto simp: certifiers_def)
  from a(2) obtain b2 where b2: "b2 \<in> dag_blocks d2" "author_of b2 = a" "round_of b2 = br_round l + 2"
    "linked_to (recent_blocks d2) (br_round l + 2) (set (ancestors A)) (reference b2)"
    by (auto simp: linked_authors_def)
  have "reference b1 = reference b2"
    by (rule same_slot_honest [OF tv(8)]) (use b1 b2 a(3) in auto)
  from certifies_transfer [OF v b1(1) b2(1) this b1(3) lo b1(4)] b2 show ?thesis
    by (auto simp: certified_below_def)
qed

text \<open>Two copies of an anchor certify the same leaders.\<close>

lemma linked_transfer:
  assumes v: "two_views c F lo d1 d2" and A: "A1 \<in> dag_blocks d1" "A2 \<in> dag_blocks d2" "reference A1 = reference A2"
    and lo: "lo \<le> e" and l: "linked_to (recent_blocks d1) e (set (ancestors A1)) r"
  shows "linked_to (recent_blocks d2) e (set (ancestors A2)) r"
proof -
  note tv = two_viewsD [OF v]
  have anc: "ancestors A1 = ancestors A2" using same_ancestors [OF tv(8)] A by blast
  from l show ?thesis
  proof (induction rule: linked_to.induct)
    case (start r)
    then show ?case using anc by (auto intro: linked_to.start)
  next
    case (step r b r')
    have "get_uncommitted_block d1 r = Some b" using step.hyps(3) by (simp add: get_uncommitted_block_def)
    from get_block_Some [OF tv(10) this] have b: "reference b = r" "b \<in> dag_blocks d1" by auto
    have "\<exists>b'. get_uncommitted_block d2 r = Some b'"
      using linked_to_present [OF tv(11) dag_closed_mono [OF tv(4) lo] A(2) step.IH] step.hyps(2) by simp
    then obtain b' where b': "get_uncommitted_block d2 r = Some b'" by blast
    from get_block_Some [OF tv(11) b'] have "reference b' = r" "b' \<in> dag_blocks d2" by auto
    then have "ancestors b = ancestors b'" using same_ancestors [OF tv(8), of b b'] b by simp
    with step.IH step.hyps(2,4) b' show ?case
      by (auto simp: get_uncommitted_block_def intro: linked_to.step)
  qed
qed

lemma certified_below_transfer:
  assumes v: "two_views c F lo d1 d2" and A: "A1 \<in> dag_blocks d1" "A2 \<in> dag_blocks d2" "reference A1 = reference A2"
    and lo: "lo \<le> br_round l" and c: "certified_below c d1 A1 l"
  shows "certified_below c d2 A2 l"
proof -
  note tv = two_viewsD [OF v]
  from c obtain b where b: "b \<in> dag_blocks d1" "round_of b = br_round l + 2" "certifies c d1 l b"
    and linked: "linked_to (recent_blocks d1) (br_round l + 2) (set (ancestors A1)) (reference b)"
    by (auto simp: certified_below_def)
  have lo2: "lo \<le> br_round l + 2" using lo by simp
  have l2: "linked_to (recent_blocks d2) (br_round l + 2) (set (ancestors A2)) (reference b)"
    using linked_transfer [OF v A lo2 linked] .
  have "\<exists>b2. get_uncommitted_block d2 (reference b) = Some b2"
    using linked_to_present [OF tv(11) dag_closed_mono [OF tv(4) lo2] A(2) l2] b(2) by simp
  then obtain b2 where "get_uncommitted_block d2 (reference b) = Some b2" by blast
  from get_block_Some [OF tv(11) this] have b2: "reference b2 = reference b" "b2 \<in> dag_blocks d2" by auto
  from certifies_transfer [OF v b(1) b2(2) b2(1) [symmetric] b(2) lo b(3)] b2 b(2) l2 reference_eqD [OF b2(1)]
  show ?thesis by (auto simp: certified_below_def intro!: bexI [of _ b2])
qed

section \<open>Conflicting decisions are impossible\<close>

definition has_certificate :: "committee \<Rightarrow> dag_state \<Rightarrow> block_ref \<Rightarrow> bool" where
  "has_certificate c d l \<longleftrightarrow> (\<exists>b \<in> dag_blocks d. round_of b = br_round l + 2 \<and> certifies c d l b)"

lemma certifiers_certificate:
  "committee_wf c \<Longrightarrow> is_quorum c (certifiers c d l) \<Longrightarrow> has_certificate c d l"
  using is_quorum_nonempty [of c "certifiers c d l"] by (auto simp: has_certificate_def certifiers_def)

lemma below_certificate: "certified_below c d a l \<Longrightarrow> has_certificate c d l"
  by (auto simp: has_certificate_def certified_below_def)

lemma certificates_agree:
  assumes "two_views c F lo d1 d2" "has_certificate c d1 l1" "has_certificate c d2 l2" "slot_of l1 = slot_of l2"
  shows "l1 = l2"
  using assms certified_unique [OF assms(1)] unfolding has_certificate_def by blast

lemma certificate_no_blame:
  "two_views c F lo d1 d2 \<Longrightarrow> has_certificate c d1 l \<Longrightarrow> \<not> is_quorum c (blamers d2 (slot_of l))"
  using certificate_excludes_blame unfolding has_certificate_def by blast

lemma certificate_present:
  "view_ok c d \<Longrightarrow> dag_closed d lo \<Longrightarrow> lo \<le> br_round l \<Longrightarrow> has_certificate c d l \<Longrightarrow>
    \<exists>x \<in> dag_blocks d. reference x = l"
  using certified_present unfolding has_certificate_def by blast

section \<open>The rules never find two certified leaders\<close>

lemma distinct_le_one:
  assumes "distinct xs" and "\<And>x y. x \<in> set xs \<Longrightarrow> y \<in> set xs \<Longrightarrow> x = y"
  shows "length xs \<le> 1"
proof -
  have "card (set xs) \<le> 1" using assms(2) by (auto simp: card_le_Suc0_iff_eq)
  with assms(1) show ?thesis by (simp add: distinct_card)
qed

text \<open>Blocks of one slot, all with a certificate, are at most one.\<close>

lemma certified_le_one:
  assumes v: "two_views c F lo d d" and "distinct xs"
    and xs: "\<And>x. x \<in> set xs \<Longrightarrow> x \<in> dag_blocks d \<and> slot_of (reference x) = s \<and> has_certificate c d (reference x)"
  shows "length xs \<le> 1"
proof (rule distinct_le_one [OF assms(2)])
  fix x y assume "x \<in> set xs" "y \<in> set xs"
  with xs certificates_agree [OF v] have "reference x = reference y" by metis
  with dag_blocks_reference_inj [OF two_viewsD(10) [OF v]] xs \<open>x \<in> set xs\<close> \<open>y \<in> set xs\<close> show "x = y" by blast
qed

lemma direct_total:
  assumes v: "two_views c F lo d d" and cl: "dag_closed d 0" and bc: "committer_for c bc" and s: "slot_ok bc s"
    and lc: "last_commit_round d \<le> slot_round s"
  shows "\<exists>st. try_direct_decide bc d s = Some st"
proof -
  note tv = two_viewsD [OF v] and rounds = slot_rounds [OF bc s]
  have fit: "slot_round s + 2 < u32_max" using s by (simp add: slot_ok_def u32_max_def)
  obtain x where x: "enough_leader_blame bc d (slot_round s + 1) (slot_authority s) = Some x"
    using enough_blame_total [OF tv(1) bc, of "slot_round s + 1" "slot_authority s"] lc fit by fastforce
  obtain ls where ls: "get_uncommitted_blocks_at_slot d s = Some ls" "distinct ls"
    "set ls = {b \<in> dag_blocks d. slot_of (reference b) = s}"
    using at_slot_Some [OF tv(10)] by blast
  let ?sup = "enough_leader_support bc d (slot_round s + 2)"
  have tot: "\<forall>l \<in> set ls. ?sup l \<noteq> None"
    using enough_support_total [OF tv(1) bc cl, of "slot_round s + 2"] lc fit by fastforce
  have "length (filter (\<lambda>l. ?sup l = Some True) ls) \<le> 1"
  proof (rule certified_le_one [OF v])
    fix l assume "l \<in> set (filter (\<lambda>l. ?sup l = Some True) ls)"
    then have l: "l \<in> dag_blocks d" "slot_of (reference l) = s" "?sup l = Some True" using ls by auto
    then have "slot_round s + 2 = round_of l + 2" by (auto simp: slot_of_eq_iff)
    from enough_support_sound [OF tv(1) bc this l(3)] certifiers_certificate [OF tv(9)] l
    show "l \<in> dag_blocks d \<and> slot_of (reference l) = s \<and> has_certificate c d (reference l)" by blast
  qed (use ls(2) in simp)
  moreover have "filter_opt ?sup ls = Some (filter (\<lambda>l. ?sup l = Some True) ls)"
    using tot by (simp add: filter_opt_Some_iff)
  ultimately show ?thesis
    using x ls(1) unfolding try_direct_decide_def rounds Let_def by (cases x) (simp_all add: not_less)
qed

lemma anchor_total:
  assumes v: "two_views c F lo d d" and cl: "dag_closed d 0" and bc: "committer_for c bc" and s: "slot_ok bc s"
    and lc: "last_commit_round d \<le> slot_round s" and a: "a \<in> dag_blocks d" "slot_round s + 3 \<le> round_of a"
  shows "\<exists>st. decide_leader_from_anchor bc d a s = Some st"
proof -
  note tv = two_viewsD [OF v] and rounds = slot_rounds [OF bc s]
  obtain ps where ps: "ancestors_at_uncommitted_round d a (slot_round s + 2) = Some ps"
    using ancestors_at_total [OF tv(10) dag_closed_mono [OF cl] a(1), of "slot_round s + 2"] lc a(2) by auto
  note setp = ancestors_at_SomeD(1) [OF tv(10) ps]
  obtain ls where ls: "get_uncommitted_blocks_at_slot d s = Some ls" "distinct ls"
    "set ls = {b \<in> dag_blocks d. slot_of (reference b) = s}"
    using at_slot_Some [OF tv(10)] by blast
  let ?any = "\<lambda>l. any_certificate bc d ps l Map.empty"
  have tot: "\<forall>l \<in> set ls. ?any l \<noteq> None"
    using any_certificate_total [OF cache_ok_empty] certificate_count_total [OF tv(1) cl] setp bc
    by (fastforce simp: committer_for_def)
  have "length (filter (\<lambda>l. ?any l = Some True) ls) \<le> 1"
  proof (rule certified_le_one [OF v])
    fix l assume "l \<in> set (filter (\<lambda>l. ?any l = Some True) ls)"
    then have l: "l \<in> dag_blocks d" "slot_of (reference l) = s" "?any l = Some True" using ls by auto
    then have r: "slot_round s = round_of l" by (auto simp: slot_of_eq_iff)
    from any_certificate_Some [OF cache_ok_empty l(3)] bc obtain x where
      x: "x \<in> set ps" "certificate_count d c l x = Some True" by (auto simp: committer_for_def)
    with certificate_count_iff [OF tv(1) _ _ x(2)] setp r have "certifies c d (reference l) x" by simp
    with x(1) setp r l(1,2) show "l \<in> dag_blocks d \<and> slot_of (reference l) = s \<and> has_certificate c d (reference l)"
      by (auto simp: has_certificate_def)
  qed (use ls(2) in simp)
  moreover have "filter_opt ?any ls = Some (filter (\<lambda>l. ?any l = Some True) ls)"
    using tot by (simp add: filter_opt_Some_iff)
  ultimately show ?thesis
    using ps ls(1) unfolding decide_leader_from_anchor_def rounds Let_def by (simp add: not_less)
qed

end
