(* ===== verification/UniversalCommitter.thy ===== *)
theory UniversalCommitter
  imports CommitSafety "HOL-Library.Sublist"
begin

text \<open>
  \<^verbatim>\<open>consensus/core/src/universal_committer.rs\<close>: several base committers, one per pipeline stage and
  leader offset, decide the leaders from the highest round down; the output is the longest decided
  prefix. The locale \<open>decision_rule\<close> is what the sequencing relies on of a committer's two rules: two
  related views never take different decisions. It is interpreted on the base committer.
\<close>

section \<open>Model\<close>

record universal_committer =
  uc_context :: consensus_context
  committers :: "base_committer list"

text \<open>The inner loop, over the committers of a round; the flag is the break out of both loops.\<close>

fun commit_inner ::
  "dag_state \<Rightarrow> slot \<Rightarrow> nat \<Rightarrow> base_committer list \<Rightarrow> (leader_status \<times> decision) list \<Rightarrow>
     (bool \<times> (leader_status \<times> decision) list) option" where
  "commit_inner d last_decided r [] leaders = Some (False, leaders)"
| "commit_inner d last_decided r (bc # bcs) leaders = do {
     elected \<leftarrow> elect_leader bc r;
     case elected of
       None \<Rightarrow> commit_inner d last_decided r bcs leaders
     | Some s \<Rightarrow>
         if s = last_decided then Some (True, leaders)
         else do {
           status \<leftarrow> try_direct_decide bc d s;
           if is_decided status
           then commit_inner d last_decided r bcs ((status, Direct) # leaders)
           else do {
             status \<leftarrow> try_indirect_decide bc d s (map fst leaders);
             commit_inner d last_decided r bcs ((status, Indirect) # leaders)
           }
         }
   }"

fun commit_outer ::
  "dag_state \<Rightarrow> slot \<Rightarrow> base_committer list \<Rightarrow> nat list \<Rightarrow> (leader_status \<times> decision) list \<Rightarrow>
     (leader_status \<times> decision) list option" where
  "commit_outer d last_decided bcs [] leaders = Some leaders"
| "commit_outer d last_decided bcs (r # rs) leaders = do {
     (stop, leaders) \<leftarrow> commit_inner d last_decided r (rev bcs) leaders;
     if stop then Some leaders else commit_outer d last_decided bcs rs leaders
   }"

definition decided_prefix :: "leader_status list \<Rightarrow> leader_status list" where
  "decided_prefix leaders = takeWhile is_decided (filter (\<lambda>x. 0 < status_round x) leaders)"

definition try_commit ::
  "universal_committer \<Rightarrow> dag_state \<Rightarrow> slot \<Rightarrow> leader_status list option" where
  "try_commit uc d last_decided = do {
     let top = saturating_sub (highest_accepted_round d) 2;
     leaders \<leftarrow> commit_outer d last_decided (committers uc)
       (rev [slot_round last_decided..<Suc top]) [];
     Some (decided_prefix (map fst leaders))
   }"

definition get_leaders :: "universal_committer \<Rightarrow> nat \<Rightarrow> nat list option" where
  "get_leaders uc r = do {
     elected \<leftarrow> map_opt (\<lambda>bc. elect_leader bc r) (committers uc);
     Some (map slot_authority (List.map_filter (\<lambda>x. x) elected))
   }"

record universal_committer_builder =
  ub_context :: consensus_context
  ub_sampler :: sampler
  ub_wave_length :: nat
  number_of_leaders :: nat
  pipeline :: bool

definition builder_new :: "consensus_context \<Rightarrow> sampler \<Rightarrow> universal_committer_builder" where
  "builder_new ctx schedule =
     \<lparr>ub_context = ctx, ub_sampler = schedule, ub_wave_length = DEFAULT_WAVE_LENGTH,
      number_of_leaders = 1, pipeline = False\<rparr>"

definition with_wave_length :: "nat \<Rightarrow> universal_committer_builder \<Rightarrow> universal_committer_builder" where
  "with_wave_length w b = b\<lparr>ub_wave_length := w\<rparr>"

definition with_number_of_leaders :: "nat \<Rightarrow> universal_committer_builder \<Rightarrow> universal_committer_builder" where
  "with_number_of_leaders n b = b\<lparr>number_of_leaders := n\<rparr>"

definition with_pipeline :: "bool \<Rightarrow> universal_committer_builder \<Rightarrow> universal_committer_builder" where
  "with_pipeline p b = b\<lparr>pipeline := p\<rparr>"

definition builder_build :: "universal_committer_builder \<Rightarrow> universal_committer option" where
  "builder_build b = do {
     let pipeline_stages = (if pipeline b then ub_wave_length b else 1);
     cs \<leftarrow> map_opt
       (\<lambda>(ro, lo). base_committer_new (ub_context b) (ub_sampler b)
          \<lparr>wave_length = ub_wave_length b, leader_offset = lo mod 2 ^ 32, round_offset = ro\<rparr>)
       (List.product [0..<pipeline_stages] [0..<number_of_leaders b]);
     Some \<lparr>uc_context = ub_context b, committers = cs\<rparr>
   }"

section \<open>Decisions of two views\<close>

definition status_slot :: "leader_status \<Rightarrow> slot" where
  "status_slot st = \<lparr>slot_round = status_round st, slot_authority = status_authority st\<rparr>"

text \<open>What a decision says: the slot, and the reference of the committed block.\<close>

fun decided_as :: "leader_status \<Rightarrow> slot \<times> block_ref option" where
  "decided_as (Commit b) = (slot_of (reference b), Some (reference b))"
| "decided_as (Skip s) = (s, None)"
| "decided_as (Undecided s) = (s, None)"

text \<open>The anchor of a slot among the later leaders.\<close>

fun find_anchor :: "nat \<Rightarrow> leader_status list \<Rightarrow> verified_block option" where
  "find_anchor n [] = None"
| "find_anchor n (x # xs) =
     (if status_round x < n then find_anchor n xs
      else case x of Commit b \<Rightarrow> Some b | Skip s \<Rightarrow> find_anchor n xs | Undecided s \<Rightarrow> None)"

text \<open>The decisions of two runs over the same slots, lowest first, never differ.\<close>

fun agree :: "leader_status list \<Rightarrow> leader_status list \<Rightarrow> bool" where
  "agree [] ys = True"
| "agree (x # xs) [] = False"
| "agree (x # xs) (y # ys) =
     (status_slot x = status_slot y \<and>
      (is_decided x \<and> is_decided y \<longrightarrow> decided_as x = decided_as y) \<and> agree xs ys)"

lemma slot_record_eq [simp]: "\<lparr>slot_round = slot_round s, slot_authority = slot_authority s\<rparr> = s"
  by (cases s) simp

lemma status_slot_simps [simp]:
  "status_slot (Commit b) = slot_of (reference b)" "status_slot (Skip s) = s" "status_slot (Undecided s) = s"
  by (simp_all add: status_slot_def slot_of_def)

lemma status_slot_round: "status_slot x = s \<Longrightarrow> status_round x = slot_round s"
  by (auto simp: status_slot_def)

lemma agree_anchor:
  "agree xs ys \<Longrightarrow> find_anchor n xs = Some a \<Longrightarrow> find_anchor n ys = Some b \<Longrightarrow> reference a = reference b"
proof (induction xs ys rule: agree.induct)
  case (3 x xs y ys)
  have r: "status_round y = status_round x" using 3(2) by (simp add: status_slot_def)
  have dec: "is_decided x \<and> is_decided y \<longrightarrow> decided_as x = decided_as y" and IH: "agree xs ys"
    using 3(2) by simp_all
  show ?case
  proof (cases "status_round x < n")
    case True
    with 3(1) [OF IH] 3(3,4) r show ?thesis by simp
  next
    case False
    have xa: "(case x of Commit b \<Rightarrow> Some b | Skip s \<Rightarrow> find_anchor n xs | Undecided s \<Rightarrow> None) = Some a"
      using 3(3) False by simp
    have yb: "(case y of Commit b \<Rightarrow> Some b | Skip s \<Rightarrow> find_anchor n ys | Undecided s \<Rightarrow> None) = Some b"
      using 3(4) False r by simp
    show ?thesis
      using xa yb dec 3(1) [OF IH] by (cases x; cases y) simp_all
  qed
qed auto

text \<open>Runs that agree have outputs of which one is a prefix of the other.\<close>

lemma agree_prefix:
  assumes "agree xs ys"
  shows "prefix (map decided_as (decided_prefix xs)) (map decided_as (decided_prefix ys)) \<or>
    prefix (map decided_as (decided_prefix ys)) (map decided_as (decided_prefix xs))"
  using assms
proof (induction xs ys rule: agree.induct)
  case (3 x xs y ys)
  have r: "status_round x = status_round y" using 3 by (auto simp: status_slot_def)
  with 3 show ?case by (auto simp: decided_prefix_def)
qed (auto simp: decided_prefix_def)

locale decision_rule =
  fixes related :: "'v \<Rightarrow> 'v \<Rightarrow> bool"
    and valid :: "'p \<Rightarrow> bool"
    and slot_at :: "'p \<Rightarrow> slot"
    and direct :: "'v \<Rightarrow> 'p \<Rightarrow> leader_status option"
    and from_anchor :: "'v \<Rightarrow> verified_block \<Rightarrow> 'p \<Rightarrow> leader_status option"
    and in_view :: "'v \<Rightarrow> verified_block \<Rightarrow> bool"
  assumes related_sym: "related v w \<Longrightarrow> related w v"
    and direct_slot: "related v w \<Longrightarrow> valid p \<Longrightarrow> direct v p = Some st \<Longrightarrow>
      status_slot st = slot_at p \<and> (\<forall>b. st = Commit b \<longrightarrow> in_view v b)"
    and anchor_slot: "related v w \<Longrightarrow> valid p \<Longrightarrow> from_anchor v a p = Some st \<Longrightarrow>
      status_slot st = slot_at p \<and> is_decided st \<and> (\<forall>b. st = Commit b \<longrightarrow> in_view v b)"
    and direct_direct: "related v w \<Longrightarrow> valid p \<Longrightarrow> direct v p = Some st \<Longrightarrow> direct w p = Some st' \<Longrightarrow>
      is_decided st \<Longrightarrow> is_decided st' \<Longrightarrow> decided_as st = decided_as st'"
    and direct_anchor: "related v w \<Longrightarrow> valid p \<Longrightarrow> direct v p = Some st \<Longrightarrow> is_decided st \<Longrightarrow>
      in_view w a \<Longrightarrow> slot_round (slot_at p) + 3 \<le> round_of a \<Longrightarrow> from_anchor w a p = Some st' \<Longrightarrow>
      decided_as st = decided_as st'"
    and anchor_anchor: "related v w \<Longrightarrow> valid p \<Longrightarrow> in_view v a \<Longrightarrow> in_view w b \<Longrightarrow>
      reference a = reference b \<Longrightarrow> slot_round (slot_at p) + 3 \<le> round_of a \<Longrightarrow>
      from_anchor v a p = Some st \<Longrightarrow> from_anchor w b p = Some st' \<Longrightarrow> decided_as st = decided_as st'"
begin

text \<open>A run from the last slot to the first.\<close>

inductive built :: "'v \<Rightarrow> 'p list \<Rightarrow> leader_status list \<Rightarrow> bool" for v where
  none: "built v [] []"
| direct: "built v ps ls \<Longrightarrow> direct v p = Some st \<Longrightarrow> is_decided st \<Longrightarrow> built v (p # ps) (st # ls)"
| indirect: "built v ps ls \<Longrightarrow> find_anchor (slot_round (slot_at p) + 3) ls = Some a \<Longrightarrow>
    from_anchor v a p = Some st \<Longrightarrow> built v (p # ps) (st # ls)"
| undecided: "built v ps ls \<Longrightarrow> built v (p # ps) (Undecided (slot_at p) # ls)"

inductive_cases built_ConsE: "built v (p # ps) ls"

lemma built_slots: "built v ps ls \<Longrightarrow> related v w \<Longrightarrow> (\<And>p. p \<in> set ps \<Longrightarrow> valid p) \<Longrightarrow>
    map status_slot ls = map slot_at ps \<and> (\<forall>b. Commit b \<in> set ls \<longrightarrow> in_view v b)"
proof (induction rule: built.induct)
  case (direct ps ls p st)
  with direct_slot [of v w p st] show ?case by auto
next
  case (indirect ps ls p a st)
  with anchor_slot [of v w p a st] show ?case by auto
qed auto

lemma find_anchor_in:
  "find_anchor n ls = Some a \<Longrightarrow> Commit a \<in> set ls \<and> n \<le> round_of a"
  by (induction ls) (auto split: if_splits leader_status.splits)

lemma built_agree:
  assumes "related v w" and "\<And>p. p \<in> set (ps @ qs) \<Longrightarrow> valid p"
    and "built v ps xs" and "built w (ps @ qs) ys"
  shows "agree xs ys"
  using assms(3,4,2)
proof (induction ps arbitrary: xs ys)
  case Nil
  then show ?case by (auto elim: built.cases)
next
  case (Cons p ps)
  note v = assms(1) and w = related_sym [OF assms(1)]
  have p: "valid p" using Cons.prems(3) by simp
  from Cons.prems(1) obtain x xs' where x: "xs = x # xs'" "built v ps xs'" by (auto elim: built_ConsE)
  from Cons.prems(2) obtain y ys' where y: "ys = y # ys'" "built w (ps @ qs) ys'" by (auto elim: built_ConsE)
  have IH: "agree xs' ys'" using Cons.IH [OF x(2) y(2)] Cons.prems(3) by auto
  have slots: "status_slot x = status_slot y"
  proof -
    have "\<And>q. q \<in> set (p # ps) \<Longrightarrow> valid q" using Cons.prems(3) by auto
    from built_slots [OF Cons.prems(1) v this] built_slots [OF Cons.prems(2) w] Cons.prems(3) x(1) y(1)
    show ?thesis by simp
  qed
  have inv: "\<forall>b. Commit b \<in> set xs' \<longrightarrow> in_view v b" "\<forall>b. Commit b \<in> set ys' \<longrightarrow> in_view w b"
    using built_slots [OF x(2) v] built_slots [OF y(2) w] Cons.prems(3) by auto
  let ?n = "slot_round (slot_at p) + 3"
  have xc: "direct v p = Some x \<or> (\<exists>a. find_anchor ?n xs' = Some a \<and> from_anchor v a p = Some x)"
    if "is_decided x" using Cons.prems(1) that unfolding x(1) by (auto elim: built_ConsE)
  have yc: "direct w p = Some y \<or> (\<exists>a. find_anchor ?n ys' = Some a \<and> from_anchor w a p = Some y)"
    if "is_decided y" using Cons.prems(2) that unfolding y(1) by (auto elim: built_ConsE)
  have "decided_as x = decided_as y" if dec: "is_decided x" "is_decided y"
  proof -
    consider "direct v p = Some x" "direct w p = Some y"
      | a where "direct v p = Some x" "find_anchor ?n ys' = Some a" "from_anchor w a p = Some y"
      | a where "direct w p = Some y" "find_anchor ?n xs' = Some a" "from_anchor v a p = Some x"
      | a b where "find_anchor ?n xs' = Some a" "from_anchor v a p = Some x"
          "find_anchor ?n ys' = Some b" "from_anchor w b p = Some y"
      using xc [OF dec(1)] yc [OF dec(2)] by blast
    then show ?thesis
    proof cases
      case 1
      then show ?thesis using direct_direct [OF v p _ _ dec] by blast
    next
      case 2
      with find_anchor_in [OF 2(2)] inv direct_anchor [OF v p 2(1) dec(1) _ _ 2(3)] show ?thesis by blast
    next
      case 3
      with find_anchor_in [OF 3(2)] inv direct_anchor [OF w p 3(1) dec(2) _ _ 3(3)] show ?thesis by auto
    next
      case 4
      with find_anchor_in [OF 4(1)] find_anchor_in [OF 4(3)] inv
        anchor_anchor [OF v p _ _ agree_anchor [OF IH 4(1,3)] _ 4(2,4)]
      show ?thesis by blast
    qed
  qed
  with IH slots show ?case by (simp add: x(1) y(1))
qed

end

section \<open>The base committer is such a rule\<close>

definition valid_pick :: "committee \<Rightarrow> nat \<Rightarrow> base_committer \<times> slot \<Rightarrow> bool" where
  "valid_pick c lo p \<longleftrightarrow> committer_for c (fst p) \<and> slot_ok (fst p) (snd p) \<and> lo \<le> slot_round (snd p)"

definition direct_pick :: "dag_state \<Rightarrow> base_committer \<times> slot \<Rightarrow> leader_status option" where
  "direct_pick d p = try_direct_decide (fst p) d (snd p)"

definition anchor_pick :: "dag_state \<Rightarrow> verified_block \<Rightarrow> base_committer \<times> slot \<Rightarrow> leader_status option" where
  "anchor_pick d a p = decide_leader_from_anchor (fst p) d a (snd p)"

lemma direct_pick_meaning:
  assumes "view_ok c d" "valid_pick c lo p" "direct_pick d p = Some st"
  shows "case st of
      Commit l \<Rightarrow> l \<in> dag_blocks d \<and> slot_of (reference l) = snd p \<and> is_quorum c (certifiers c d (reference l))
    | Skip s' \<Rightarrow> s' = snd p \<and> is_quorum c (blamers d (snd p))
    | Undecided s' \<Rightarrow> s' = snd p"
  using assms direct_meaning [OF assms(1), of "fst p" "snd p" st] by (simp add: valid_pick_def direct_pick_def)

lemma anchor_pick_meaning:
  assumes "view_ok c d" "valid_pick c lo p" "anchor_pick d a p = Some st"
  shows "case st of
      Commit l \<Rightarrow> l \<in> dag_blocks d \<and> slot_of (reference l) = snd p \<and> certified_below c d a (reference l)
    | Skip s' \<Rightarrow> s' = snd p \<and> (\<forall>l \<in> dag_blocks d. slot_of (reference l) = snd p \<longrightarrow>
        \<not> certified_below c d a (reference l))
    | Undecided s' \<Rightarrow> False"
  using assms anchor_meaning [OF assms(1), of "fst p" "snd p" a st] by (simp add: valid_pick_def anchor_pick_def)

text \<open>A commit always rests on a certificate, so it conflicts with no direct skip and no other commit.\<close>

lemma pick_certificate:
  assumes "view_ok c d" "valid_pick c lo p" "direct_pick d p = Some (Commit l) \<or> anchor_pick d a p = Some (Commit l)"
  shows "has_certificate c d (reference l) \<and> slot_of (reference l) = snd p \<and> lo \<le> br_round (reference l)"
proof -
  have "has_certificate c d (reference l) \<and> slot_of (reference l) = snd p"
    using assms(3) direct_pick_meaning [OF assms(1,2)] anchor_pick_meaning [OF assms(1,2)]
      certifiers_certificate [OF view_okD(1) [OF assms(1)]] below_certificate by fastforce
  with assms(2) show ?thesis by (auto simp: valid_pick_def slot_of_eq_iff)
qed

lemma commits_agree:
  assumes v: "two_views c F lo d1 d2" and p: "valid_pick c lo p"
    and "direct_pick d1 p = Some (Commit l) \<or> anchor_pick d1 a p = Some (Commit l)"
    and "direct_pick d2 p = Some (Commit k) \<or> anchor_pick d2 b p = Some (Commit k)"
  shows "reference l = reference k"
  using pick_certificate [OF two_viewsD(1) [OF v] p assms(3)] pick_certificate [OF two_viewsD(2) [OF v] p assms(4)]
    certificates_agree [OF v] by metis

lemma commit_no_direct_skip:
  assumes v: "two_views c F lo d1 d2" and p: "valid_pick c lo p"
    and l: "direct_pick d1 p = Some (Commit l) \<or> anchor_pick d1 a p = Some (Commit l)"
  shows "direct_pick d2 p \<noteq> Some (Skip s)"
proof
  assume "direct_pick d2 p = Some (Skip s)"
  with direct_pick_meaning [OF two_viewsD(2) [OF v] p] have "is_quorum c (blamers d2 (snd p))" by force
  with pick_certificate [OF two_viewsD(1) [OF v] p l] certificate_no_blame [OF v] show False by metis
qed

text \<open>An anchor that sees a certificate of the slot does not skip it.\<close>

lemma below_no_skip:
  assumes v: "view_ok c d" and cl: "dag_closed d lo" and p: "valid_pick c lo p"
    and l: "certified_below c d a l" "slot_of l = snd p"
  shows "anchor_pick d a p \<noteq> Some (Skip s)"
proof
  assume skip: "anchor_pick d a p = Some (Skip s)"
  have "lo \<le> br_round l" using p l(2) by (auto simp: valid_pick_def slot_of_eq_iff)
  from certificate_present [OF v cl this below_certificate [OF l(1)]] obtain x where
    "x \<in> dag_blocks d" "reference x = l" by blast
  with anchor_pick_meaning [OF v p skip] l show False by auto
qed

lemma commit_no_anchor_skip:
  assumes v: "two_views c F lo d1 d2" and p: "valid_pick c lo p" and b: "b \<in> dag_blocks d2"
    and r: "slot_round (snd p) + 3 \<le> round_of b"
    and l: "direct_pick d1 p = Some (Commit l) \<or>
      a \<in> dag_blocks d1 \<and> reference a = reference b \<and> anchor_pick d1 a p = Some (Commit l)"
  shows "anchor_pick d2 b p \<noteq> Some (Skip s)"
proof -
  note tv = two_viewsD [OF v]
  have sl: "slot_of (reference l) = snd p" "lo \<le> br_round (reference l)"
    using pick_certificate [OF tv(1) p] l by blast+
  then have r': "br_round (reference l) + 3 \<le> round_of b" using r by (auto simp: slot_of_eq_iff)
  from l have "certified_below c d2 b (reference l)"
  proof
    assume "direct_pick d1 p = Some (Commit l)"
    with direct_pick_meaning [OF tv(1) p] have "is_quorum c (certifiers c d1 (reference l))" by force
    from direct_commit_below_anchor [OF v this sl(2) b r'] show ?thesis .
  next
    assume a: "a \<in> dag_blocks d1 \<and> reference a = reference b \<and> anchor_pick d1 a p = Some (Commit l)"
    with anchor_pick_meaning [OF tv(1) p] have "certified_below c d1 a (reference l)" by force
    with certified_below_transfer [OF v _ b _ sl(2)] a show ?thesis by blast
  qed
  from below_no_skip [OF tv(2,4) p this sl(1)] show ?thesis .
qed

interpretation three_rounds: decision_rule "two_views c F lo" "valid_pick c lo" snd direct_pick anchor_pick
  "\<lambda>d b. b \<in> dag_blocks d" for c F lo
proof unfold_locales
  fix v w p st st'
  assume v: "two_views c F lo v w" and p: "valid_pick c lo p"
  note tv = two_viewsD [OF v] and w = two_views_sym [OF v]
  {
    assume st: "direct_pick v p = Some st"
    show "status_slot st = snd p \<and> (\<forall>b. st = Commit b \<longrightarrow> b \<in> dag_blocks v)"
      using direct_pick_meaning [OF tv(1) p st] by (cases st) simp_all
    {
      assume st': "direct_pick w p = Some st'" and "is_decided st" "is_decided st'"
      with st direct_pick_meaning [OF tv(1) p st] direct_pick_meaning [OF tv(2) p st']
        commits_agree [OF v p] commit_no_direct_skip [OF v p] commit_no_direct_skip [OF w p]
      show "decided_as st = decided_as st'" by (cases st; cases st') auto
    }
    {
      fix a
      assume st': "anchor_pick w a p = Some st'" and "is_decided st" and a: "a \<in> dag_blocks w"
        and r: "slot_round (snd p) + 3 \<le> round_of a"
      with st direct_pick_meaning [OF tv(1) p st] anchor_pick_meaning [OF tv(2) p st']
        commits_agree [OF v p] commit_no_anchor_skip [OF v p a r] commit_no_direct_skip [OF w p]
      show "decided_as st = decided_as st'" by (cases st; cases st') auto
    }
  }
  {
    fix a
    assume st: "anchor_pick v a p = Some st"
    show "status_slot st = snd p \<and> is_decided st \<and> (\<forall>b. st = Commit b \<longrightarrow> b \<in> dag_blocks v)"
      using anchor_pick_meaning [OF tv(1) p st] by (cases st) simp_all
    {
      fix b
      assume st': "anchor_pick w b p = Some st'" and a: "a \<in> dag_blocks v" and b: "b \<in> dag_blocks w"
        and ref: "reference a = reference b" and r: "slot_round (snd p) + 3 \<le> round_of a"
      have r': "slot_round (snd p) + 3 \<le> round_of b" using r reference_eqD [OF ref] by simp
      from st st' a b ref anchor_pick_meaning [OF tv(1) p st] anchor_pick_meaning [OF tv(2) p st']
        commits_agree [OF v p] commit_no_anchor_skip [OF v p b r'] commit_no_anchor_skip [OF w p a r]
      show "decided_as st = decided_as st'" by (cases st; cases st') auto
    }
  }
qed (rule two_views_sym)

section \<open>Runs of the universal committer\<close>

text \<open>The leaders of a round that a list of committers elects, and those a run visits.\<close>

definition elected :: "nat \<Rightarrow> base_committer list \<Rightarrow> (base_committer \<times> slot) list" where
  "elected r bcs = List.map_filter
     (\<lambda>bc. case elect_leader bc r of Some (Some s) \<Rightarrow> Some (bc, s) | _ \<Rightarrow> None) bcs"

definition visited :: "slot \<Rightarrow> base_committer list \<Rightarrow> nat list \<Rightarrow> (base_committer \<times> slot) list" where
  "visited last_decided bcs rs =
     rev (takeWhile (\<lambda>p. snd p \<noteq> last_decided) (concat (map (\<lambda>r. elected r (rev bcs)) rs)))"

lemma elected_simps [simp]:
  "elected r [] = []"
  "elected r (bc # bcs) = (case elect_leader bc r of Some (Some s) \<Rightarrow> [(bc, s)] | _ \<Rightarrow> []) @ elected r bcs"
  by (auto simp: elected_def map_filter_simps split: option.splits)

lemma elect_leader_slot:
  "elect_leader bc r = Some (Some s) \<Longrightarrow> slot_round s = r \<and> leader_round bc (wave_number bc r) = r"
  by (auto simp: elect_leader_def option_simps split: if_splits)

lemma elected_slot: "p \<in> set (elected r bcs) \<Longrightarrow> fst p \<in> set bcs \<and> elect_leader (fst p) r = Some (Some (snd p))"
  by (induction bcs) (auto split: option.splits)

lemma indirect_loop_anchor:
  "indirect_loop bc d s (filter (\<lambda>x. n \<le> status_round x) ls) =
    (case find_anchor n ls of Some a \<Rightarrow> decide_leader_from_anchor bc d a s | None \<Rightarrow> Some (Undecided s))"
proof (induction ls)
  case (Cons x ls)
  then show ?case by (cases x) auto
qed simp

lemma visited_snoc:
  assumes "p \<in> set (elected r bcs)" "set bcs \<subseteq> C" "\<forall>bc \<in> C. committer_for c bc" "lo \<le> r" "r + 3 < 2 ^ 32"
  shows "valid_pick c lo p"
  using elected_slot [OF assms(1)] elect_leader_slot [of "fst p" r "snd p"] assms(2-5)
  by (auto simp: valid_pick_def slot_ok_def)

text \<open>The decision of one slot, given the decisions of the slots after it.\<close>

definition decide_one ::
  "base_committer \<Rightarrow> dag_state \<Rightarrow> slot \<Rightarrow> leader_status list \<Rightarrow> (leader_status \<times> decision) option" where
  "decide_one bc d s ls = do {
     st \<leftarrow> try_direct_decide bc d s;
     if is_decided st then Some (st, Direct)
     else do { st \<leftarrow> try_indirect_decide bc d s ls; Some (st, Indirect) }
   }"

lemma commit_inner_step:
  assumes "elect_leader bc r = Some (Some s)" and "s \<noteq> last_decided"
  shows "commit_inner d last_decided r (bc # bcs) L =
    Option.bind (decide_one bc d s (map fst L)) (\<lambda>x. commit_inner d last_decided r bcs (x # L))"
  using assms by (auto simp: decide_one_def split: Option.bind_splits)

lemma try_indirect_anchor:
  assumes "committer_for c bc" "slot_ok bc s"
  shows "try_indirect_decide bc d s ls =
    (case find_anchor (slot_round s + 3) ls of
       Some a \<Rightarrow> decide_leader_from_anchor bc d a s | None \<Rightarrow> Some (Undecided s))"
  using slot_rounds(3) [OF assms] by (simp add: try_indirect_decide_def indirect_loop_anchor)

lemma decide_one_built:
  assumes bc: "committer_for c bc" and s: "slot_ok bc s" and run: "decide_one bc d s ls = Some (st, dc)"
    and b: "three_rounds.built d ps ls"
  shows "three_rounds.built d ((bc, s) # ps) (st # ls)"
proof -
  from run obtain st1 where st1: "try_direct_decide bc d s = Some st1"
    and rest: "if is_decided st1 then st = st1 else try_indirect_decide bc d s ls = Some st"
    by (auto simp: decide_one_def option_simps split: if_splits)
  show ?thesis
  proof (cases "is_decided st1")
    case True
    with st1 rest b show ?thesis by (intro three_rounds.built.direct) (simp_all add: direct_pick_def)
  next
    case False
    with rest have i: "(case find_anchor (slot_round s + 3) ls of
        Some a \<Rightarrow> decide_leader_from_anchor bc d a s | None \<Rightarrow> Some (Undecided s)) = Some st"
      by (simp add: try_indirect_anchor [OF bc s])
    show ?thesis
    proof (cases "find_anchor (slot_round s + 3) ls")
      case None
      with i three_rounds.built.undecided [OF b, of "(bc, s)"] show ?thesis by simp
    next
      case (Some a)
      with i show ?thesis by (intro three_rounds.built.indirect [OF b, of _ a]) (simp_all add: anchor_pick_def)
    qed
  qed
qed

lemma commit_inner_built:
  assumes "commit_inner d last_decided r bcs L = Some (stop, L')"
    and "\<forall>bc \<in> set bcs. committer_for c bc" and "r + 3 < 2 ^ 32" and "three_rounds.built d ps (map fst L)"
  shows "three_rounds.built d (rev (takeWhile (\<lambda>p. snd p \<noteq> last_decided) (elected r bcs)) @ ps) (map fst L') \<and>
    (stop \<longleftrightarrow> (\<exists>p \<in> set (elected r bcs). snd p = last_decided))"
  using assms
proof (induction bcs arbitrary: L ps)
  case Nil
  then show ?case by simp
next
  case (Cons bc bcs)
  from Cons.prems(1) obtain e where e: "elect_leader bc r = Some e" by (auto simp: option_simps)
  show ?case
  proof (cases e)
    case None
    with e Cons show ?thesis by simp
  next
    case (Some s)
    show ?thesis
    proof (cases "s = last_decided")
      case True
      with e Some Cons.prems show ?thesis by simp
    next
      case False
      have s: "slot_ok bc s" using elect_leader_slot [OF e [unfolded Some]] Cons.prems(3) by (simp add: slot_ok_def)
      from Cons.prems(1) obtain st dc where x: "decide_one bc d s (map fst L) = Some (st, dc)"
        and run: "commit_inner d last_decided r bcs ((st, dc) # L) = Some (stop, L')"
        using commit_inner_step [OF e [unfolded Some] False] by (auto simp: option_simps)
      have "three_rounds.built d ((bc, s) # ps) (map fst ((st, dc) # L))"
        using decide_one_built [of c, OF _ s x Cons.prems(4)] Cons.prems(2) by simp
      from Cons.IH [OF run _ Cons.prems(3) this] Cons.prems(2) e Some False show ?thesis by simp
    qed
  qed
qed

lemma commit_outer_built:
  assumes "commit_outer d last_decided bcs rs L = Some L'"
    and "\<forall>bc \<in> set bcs. committer_for c bc" and "\<forall>r \<in> set rs. r + 3 < 2 ^ 32" and "three_rounds.built d ps (map fst L)"
  shows "three_rounds.built d (visited last_decided bcs rs @ ps) (map fst L')"
  using assms
proof (induction rs arbitrary: L ps)
  case Nil
  then show ?case by (simp add: visited_def)
next
  case (Cons r rs)
  from Cons.prems(1) obtain stop L1 where inner: "commit_inner d last_decided r (rev bcs) L = Some (stop, L1)"
    and rest: "if stop then L' = L1 else commit_outer d last_decided bcs rs L1 = Some L'"
    by (auto simp: option_simps split: if_splits)
  let ?X = "elected r (rev bcs)" and ?ne = "\<lambda>p. snd p \<noteq> last_decided"
  have b: "three_rounds.built d (rev (takeWhile ?ne ?X) @ ps) (map fst L1)"
    and stop: "stop \<longleftrightarrow> (\<exists>p \<in> set ?X. snd p = last_decided)"
    using commit_inner_built [OF inner _ _ Cons.prems(4)] Cons.prems(2,3) by auto
  show ?case
  proof (cases stop)
    case True
    with stop obtain p where "p \<in> set ?X" "\<not> ?ne p" by blast
    then have "takeWhile ?ne (?X @ concat (map (\<lambda>r. elected r (rev bcs)) rs)) = takeWhile ?ne ?X"
      by (rule takeWhile_append1)
    with b rest True show ?thesis by (simp add: visited_def)
  next
    case False
    then have ne: "\<forall>p \<in> set ?X. ?ne p" using stop by blast
    from rest False have "commit_outer d last_decided bcs rs L1 = Some L'" by simp
    from Cons.IH [OF this Cons.prems(2) _ b] Cons.prems(3) ne show ?thesis
      by (simp add: visited_def takeWhile_append2 takeWhile_eq_all_conv [THEN iffD2])
  qed
qed

text \<open>A higher view visits the slots of a lower one, and more above them.\<close>

lemma visited_split:
  assumes "slot_round last_decided \<le> h1" and "h1 \<le> h2"
  shows "\<exists>qs. visited last_decided bcs (rev [slot_round last_decided..<Suc h2]) =
    visited last_decided bcs (rev [slot_round last_decided..<Suc h1]) @ qs"
proof -
  let ?lo = "slot_round last_decided" and ?ne = "\<lambda>p. snd p \<noteq> last_decided"
  let ?E = "\<lambda>rs. concat (map (\<lambda>r. elected r (rev bcs)) rs)"
  let ?X = "?E (rev [Suc h1..<Suc h2])"
  have "[?lo..<Suc h2] = [?lo..<Suc h1] @ [Suc h1..<Suc h2]"
    using assms by (metis le_SucI upt_add_eq_append le_add_diff_inverse Suc_le_mono)
  then have split: "?E (rev [?lo..<Suc h2]) = ?X @ ?E (rev [?lo..<Suc h1])" by simp
  have "?ne p" if p: "p \<in> set ?X" for p
  proof -
    from p obtain r where r: "Suc h1 \<le> r" "p \<in> set (elected r (rev bcs))" by auto
    then have "slot_round (snd p) = r" using elected_slot [OF r(2)] elect_leader_slot by blast
    with r(1) assms(1) show ?thesis by auto
  qed
  then have "takeWhile ?ne (?X @ ?E (rev [?lo..<Suc h1])) = ?X @ takeWhile ?ne (?E (rev [?lo..<Suc h1]))"
    by (rule takeWhile_append2)
  then show ?thesis unfolding visited_def split by simp
qed

lemma visited_valid:
  assumes "p \<in> set (visited last_decided bcs rs)" "\<forall>bc \<in> set bcs. committer_for c bc"
    "\<forall>r \<in> set rs. slot_round last_decided \<le> r \<and> r + 3 < 2 ^ 32"
  shows "valid_pick c (slot_round last_decided) p"
proof -
  from assms(1) obtain r where r: "r \<in> set rs" "p \<in> set (elected r (rev bcs))"
    by (auto simp: visited_def dest!: set_takeWhileD)
  show ?thesis by (rule visited_snoc [OF r(2), of "set bcs"]) (use assms(2,3) r(1) in auto)
qed

lemma try_commit_agree:
  assumes v: "two_views c F (slot_round s) d1 d2" and bcs: "\<forall>bc \<in> set (committers uc). committer_for c bc"
    and h: "highest_accepted_round d1 \<le> highest_accepted_round d2" "highest_accepted_round d2 < u32_max"
    and run: "try_commit uc d1 s = Some o1" "try_commit uc d2 s = Some o2"
  shows "\<exists>xs ys. o1 = decided_prefix xs \<and> o2 = decided_prefix ys \<and> agree xs ys"
proof -
  let ?lo = "slot_round s"
  let ?h1 = "highest_accepted_round d1 - 2" and ?h2 = "highest_accepted_round d2 - 2"
  from run obtain L1 L2 where
    L1: "commit_outer d1 s (committers uc) (rev [?lo..<Suc ?h1]) [] = Some L1" "o1 = decided_prefix (map fst L1)" and
    L2: "commit_outer d2 s (committers uc) (rev [?lo..<Suc ?h2]) [] = Some L2" "o2 = decided_prefix (map fst L2)"
    unfolding try_commit_def by (auto simp: option_simps Let_def saturating_sub_def simp del: upt_Suc)
  have fit: "\<forall>r \<in> set (rev [?lo..<Suc h]). ?lo \<le> r \<and> r + 3 < 2 ^ 32" if "h \<le> ?h2" for h
    using that h(2) by (auto simp: u32_max_def simp del: upt_Suc)
  have "agree (map fst L1) (map fst L2)"
  proof (cases "?lo \<le> ?h1")
    case False
    then have "L1 = []" using L1(1) by simp
    then show ?thesis by simp
  next
    case True
    have h12: "?h1 \<le> ?h2" using h(1) by simp
    obtain qs where qs: "visited s (committers uc) (rev [?lo..<Suc ?h2]) =
        visited s (committers uc) (rev [?lo..<Suc ?h1]) @ qs"
      using visited_split [OF True h12] by blast
    have b1: "three_rounds.built d1 (visited s (committers uc) (rev [?lo..<Suc ?h1])) (map fst L1)"
      using commit_outer_built [OF L1(1) bcs, of "[]"] fit [OF h12] by (simp add: three_rounds.built.none del: upt_Suc)
    have b2: "three_rounds.built d2 (visited s (committers uc) (rev [?lo..<Suc ?h2])) (map fst L2)"
      using commit_outer_built [OF L2(1) bcs, of "[]"] fit [OF order_refl] by (simp add: three_rounds.built.none del: upt_Suc)
    show ?thesis
    proof (rule three_rounds.built_agree [OF v _ b1 b2 [unfolded qs]])
      fix p assume "p \<in> set (visited s (committers uc) (rev [?lo..<Suc ?h1]) @ qs)"
      then have "p \<in> set (visited s (committers uc) (rev [?lo..<Suc ?h2]))" by (simp only: qs)
      from visited_valid [OF this bcs fit [OF order_refl]] show "valid_pick c ?lo p" .
    qed
  qed
  with L1(2) L2(2) show ?thesis by blast
qed

section \<open>Progress\<close>

text \<open>What a run needs of its view and its committers.\<close>

definition ready :: "committee \<Rightarrow> nat set \<Rightarrow> dag_state \<Rightarrow> universal_committer \<Rightarrow> slot \<Rightarrow> bool" where
  "ready c F d uc s \<longleftrightarrow>
     two_views c F (slot_round s) d d \<and> dag_closed d 0 \<and> last_commit_round d \<le> slot_round s \<and>
     highest_accepted_round d < u32_max \<and>
     (\<forall>bc \<in> set (committers uc). committer_for c bc)"

lemma decide_one_total:
  assumes v: "two_views c F lo d d" and cl: "dag_closed d 0" and lc: "last_commit_round d \<le> lo"
    and p: "valid_pick c lo (bc, s)" and ls: "\<And>a. Commit a \<in> set ls \<Longrightarrow> a \<in> dag_blocks d"
  shows "\<exists>x. decide_one bc d s ls = Some x"
proof -
  have bc: "committer_for c bc" and s: "slot_ok bc s" and lc': "last_commit_round d \<le> slot_round s"
    using p lc by (auto simp: valid_pick_def)
  obtain st where st: "try_direct_decide bc d s = Some st" using direct_total [OF v cl bc s lc'] by blast
  have "\<exists>st'. try_indirect_decide bc d s ls = Some st'"
  proof (cases "find_anchor (slot_round s + 3) ls")
    case (Some a)
    with three_rounds.find_anchor_in [OF Some] ls anchor_total [OF v cl bc s lc', of a] show ?thesis
      by (simp add: try_indirect_anchor [OF bc s])
  qed (simp add: try_indirect_anchor [OF bc s])
  with st show ?thesis by (auto simp: decide_one_def)
qed

lemma commit_inner_total:
  assumes v: "two_views c F lo d d" and cl: "dag_closed d 0" and lc: "last_commit_round d \<le> lo"
    and r: "lo \<le> r" "r + 3 < 2 ^ 32"
    and "\<forall>bc \<in> set bcs. committer_for c bc \<and> elect_leader bc r \<noteq> None"
    and "three_rounds.built d ps (map fst L)" and "\<forall>p \<in> set ps. valid_pick c lo p"
  shows "\<exists>y. commit_inner d last_decided r bcs L = Some y"
  using assms(6-)
proof (induction bcs arbitrary: L ps)
  case Nil
  show ?case by auto
next
  case (Cons bc bcs)
  then obtain e where e: "elect_leader bc r = Some e" and bc: "committer_for c bc" by auto
  show ?case
  proof (cases e)
    case None
    with Cons.IH [OF _ Cons.prems(2,3)] Cons.prems(1) e show ?thesis by simp
  next
    case (Some s)
    show ?thesis
    proof (cases "s = last_decided")
      case True
      with e Some show ?thesis by auto
    next
      case False
      note sl = elect_leader_slot [OF e [unfolded Some]]
      have s: "slot_ok bc s" using sl r(2) by (simp add: slot_ok_def)
      have p: "valid_pick c lo (bc, s)" using s sl r(1) bc by (simp add: valid_pick_def)
      have "\<And>a. Commit a \<in> set (map fst L) \<Longrightarrow> a \<in> dag_blocks d"
        using three_rounds.built_slots [OF Cons.prems(2) v] Cons.prems(3) by blast
      with decide_one_total [OF v cl lc p] obtain st dc where
        x: "decide_one bc d s (map fst L) = Some (st, dc)" by fastforce
      have "three_rounds.built d ((bc, s) # ps) (map fst ((st, dc) # L))"
        using decide_one_built [OF bc s x Cons.prems(2)] by simp
      from Cons.IH [OF _ this] Cons.prems(1,3) p x show ?thesis
        by (simp add: commit_inner_step [OF e [unfolded Some] False] del: commit_inner.simps)
    qed
  qed
qed

lemma commit_outer_total:
  assumes v: "two_views c F lo d d" and cl: "dag_closed d 0" and lc: "last_commit_round d \<le> lo"
    and "\<forall>r \<in> set rs. lo \<le> r \<and> r + 3 < 2 ^ 32 \<and> (\<forall>bc \<in> set bcs. elect_leader bc r \<noteq> None)"
    and bcs: "\<forall>bc \<in> set bcs. committer_for c bc"
    and "three_rounds.built d ps (map fst L)" and "\<forall>p \<in> set ps. valid_pick c lo p"
  shows "\<exists>L'. commit_outer d last_decided bcs rs L = Some L'"
  using assms(4,6,7)
proof (induction rs arbitrary: L ps)
  case Nil
  show ?case by simp
next
  case (Cons r rs)
  have r: "lo \<le> r" "r + 3 < 2 ^ 32" "\<forall>bc \<in> set (rev bcs). committer_for c bc \<and> elect_leader bc r \<noteq> None"
    using Cons.prems(1) bcs by auto
  obtain stop L1 where inner: "commit_inner d last_decided r (rev bcs) L = Some (stop, L1)"
    using commit_inner_total [OF v cl lc r Cons.prems(2,3)] by fastforce
  let ?ps = "rev (takeWhile (\<lambda>p. snd p \<noteq> last_decided) (elected r (rev bcs)))"
  have b: "three_rounds.built d (?ps @ ps) (map fst L1)"
    using commit_inner_built [OF inner _ r(2) Cons.prems(2)] bcs by auto
  have "\<forall>p \<in> set (?ps @ ps). valid_pick c lo p"
    using Cons.prems(3) visited_snoc [of _ r "rev bcs" "set bcs" c lo] bcs r(1,2)
    by (auto dest!: set_takeWhileD)
  from Cons.IH [OF _ b this] Cons.prems(1) inner show ?case by (cases stop) auto
qed

lemma try_commit_total:
  assumes ok: "ready c F d uc s" and elect: "\<forall>bc \<in> set (committers uc). \<forall>r. elect_leader bc r \<noteq> None"
  shows "\<exists>out. try_commit uc d s = Some out"
proof -
  let ?rs = "rev [slot_round s..<Suc (highest_accepted_round d - 2)]"
  from ok have h: "highest_accepted_round d < u32_max" by (simp add: ready_def)
  have rs: "\<forall>r \<in> set ?rs. slot_round s \<le> r \<and> r + 3 < 2 ^ 32 \<and>
      (\<forall>bc \<in> set (committers uc). elect_leader bc r \<noteq> None)"
    using elect h by (auto simp: u32_max_def simp del: upt_Suc)
  obtain L where "commit_outer d s (committers uc) ?rs [] = Some L"
    using commit_outer_total [where L = "[]" and ps = "[]" and rs = ?rs] ok rs three_rounds.built.none
    unfolding ready_def by (metis empty_iff empty_set list.simps(8))
  then show ?thesis by (simp add: try_commit_def saturating_sub_def Let_def del: upt_Suc)
qed

end
