(* ===== verification/Scenario.thy ===== *)
theory Scenario
  imports UniversalCommitter "HOL-Library.Code_Target_Numeral"
begin

text \<open>
  A committee of four authorities of equal stake and small DAGs over it, on which the properties
  of the consensus components are evaluated.
\<close>

definition demo_authority :: authority where
  "demo_authority = \<lparr>stake = 1, address = [], hostname = [], network_key = [], protocol_key = []\<rparr>"

definition demo_committee :: committee where
  "demo_committee = \<lparr>epoch = 0, total_stake = 4, quorum_threshold = 3, validity_threshold = 2,
     authorities = replicate 4 demo_authority\<rparr>"

definition demo_context :: consensus_context where
  "demo_context = \<lparr>own_index = 0, committee = demo_committee, leader_timeout = 200,
     consensus_max_transaction_size_bytes = 2000, consensus_max_transactions_in_block_bytes = 4000\<rparr>"

definition demo_block :: "nat \<Rightarrow> nat \<Rightarrow> block_ref list \<Rightarrow> verified_block" where
  "demo_block r a anc = \<lparr>vb_block = \<lparr>inner = V1 \<lparr>bv_epoch = 0, bv_round = r, bv_author = a,
     bv_timestamp_ms = 0, bv_ancestors = anc, bv_transactions = []\<rparr>, signature = []\<rparr>,
     vb_digest = 0, vb_serialized = []\<rparr>"

definition demo_refs :: "nat \<Rightarrow> nat list \<Rightarrow> block_ref list" where
  "demo_refs r as = map (\<lambda>a. BlockRef r a 0) as"

text \<open>A full layer: the given authors, each referencing the given authors of the round before.\<close>

definition demo_layer :: "nat \<Rightarrow> nat list \<Rightarrow> nat list \<Rightarrow> verified_block list" where
  "demo_layer r as parents =
     map (\<lambda>a. demo_block r a (if r = 0 then [] else demo_refs (r - 1) parents)) as"

definition demo_empty :: dag_state where
  "demo_empty = \<lparr>ds_context = demo_context, recent_blocks = [], cached_refs = replicate 4 [],
     last_commit = None, highest_accepted_round = 0\<rparr>"

definition demo_dag :: "verified_block list \<Rightarrow> dag_state" where
  "demo_dag bs = the (fold_opt accept_block bs demo_empty)"

text \<open>The authorities in order: a sampler that follows its documented behaviour.\<close>

definition demo_sampler :: sampler where
  "demo_sampler seed items n = Some (take n items)"

definition demo_committer :: "nat \<Rightarrow> base_committer" where
  "demo_committer ro = \<lparr>bc_context = demo_context, bc_sampler = demo_sampler,
     bc_options = \<lparr>wave_length = 3, leader_offset = 0, round_offset = ro\<rparr>\<rparr>"

definition demo_pipeline :: universal_committer where
  "demo_pipeline = \<lparr>uc_context = demo_context, committers = map demo_committer [0, 1, 2]\<rparr>"

text \<open>One view has all blocks of four rounds, the other misses a block of the last.\<close>

definition demo_blocks1 :: "verified_block list" where
  "demo_blocks1 = concat (map (\<lambda>r. demo_layer r [0, 1, 2, 3] [0, 1, 2, 3]) [0, 1, 2, 3])"

definition demo_blocks2 :: "verified_block list" where
  "demo_blocks2 = concat (map (\<lambda>r. demo_layer r [0, 1, 2, 3] [0, 1, 2, 3]) [0, 1, 2])
     @ demo_layer 3 [0, 2, 3] [0, 1, 2, 3]"

lemma demo_committee_wf: "committee_wf demo_committee"
  by code_simp

section \<open>Checking a view by its blocks\<close>

definition closed_list :: "nat \<Rightarrow> verified_block list \<Rightarrow> bool" where
  "closed_list lo bs \<longleftrightarrow> list_all (\<lambda>b. list_all (\<lambda>r. lo \<le> br_round r \<longrightarrow> r \<in> set (map reference bs)) (ancestors b)) bs"

definition parents_list :: "committee \<Rightarrow> nat \<Rightarrow> verified_block list \<Rightarrow> bool" where
  "parents_list c lo bs \<longleftrightarrow> list_all (\<lambda>b. lo < round_of b \<longrightarrow>
     is_quorum c (set (map br_author (filter (\<lambda>r. br_round r = round_of b - 1) (ancestors b))))) bs"

lemma demo_empty_inv: "dag_inv demo_empty" "dag_blocks demo_empty = {}" "ds_context demo_empty = demo_context"
  by (simp_all add: dag_inv_def demo_empty_def dag_blocks_def demo_context_def demo_committee_def committee_size_def)

lemma demo_context_simps [simp]: "committee demo_context = demo_committee" "own_index demo_context = 0"
  by (simp_all add: demo_context_def)

lemma demo_dag_view:
  assumes "fold_opt accept_block bs demo_empty \<noteq> None" and "list_all (block_ok demo_committee) bs"
    and "distinct (map reference bs)"
  shows "view_ok demo_committee (demo_dag bs)" and "dag_blocks (demo_dag bs) = set bs"
    and "ds_context (demo_dag bs) = demo_context" and "last_commit (demo_dag bs) = None"
proof -
  from assms(1) obtain d where d: "fold_opt accept_block bs demo_empty = Some d" "demo_dag bs = d"
    by (auto simp: demo_dag_def)
  have ok: "\<forall>b \<in> set bs. block_ok (committee (ds_context demo_empty)) b"
    using assms(2) by (simp add: demo_empty_inv list_all_iff)
  note run = accept_blocks_run [OF d(1) demo_empty_inv(1) ok]
  show "view_ok demo_committee (demo_dag bs)" "ds_context (demo_dag bs) = demo_context"
    "last_commit (demo_dag bs) = None"
    using run demo_committee_wf by (simp_all add: d(2) view_ok_def demo_empty_inv) (simp add: demo_empty_def)
  show "dag_blocks (demo_dag bs) = set bs"
    using accept_blocks_distinct [OF d(1) demo_empty_inv(1) ok demo_empty_inv(2) assms(3)] by (simp add: d(2))
qed

lemma demo_dag_rules:
  assumes "view_ok demo_committee d" and "dag_blocks d = set bs"
  shows "closed_list lo bs \<Longrightarrow> dag_closed d lo" and "parents_list c lo bs \<Longrightarrow> parents_ok c lo d"
proof -
  assume cl: "closed_list lo bs"
  show "dag_closed d lo"
    unfolding dag_closed_def
  proof (intro ballI impI)
    fix b r assume "b \<in> dag_blocks d" "r \<in> set (ancestors b)" "lo \<le> br_round r"
    with cl assms(2) obtain x where "x \<in> dag_blocks d" "reference x = r"
      by (auto simp: closed_list_def list_all_iff)
    then show "get_uncommitted_block d r \<noteq> None" using dag_blocks_iff [OF view_okD(2) [OF assms(1)]] by auto
  qed
next
  assume "parents_list c lo bs"
  then show "parents_ok c lo d" by (auto simp: parents_list_def parents_ok_def assms(2) list_all_iff)
qed

definition demo_view1 :: dag_state where "demo_view1 = demo_dag demo_blocks1"

definition demo_view2 :: dag_state where "demo_view2 = demo_dag demo_blocks2"

lemma demo_blocks1_ok:
  "fold_opt accept_block demo_blocks1 demo_empty \<noteq> None" "list_all (block_ok demo_committee) demo_blocks1"
  "distinct (map reference demo_blocks1)" "closed_list 0 demo_blocks1" "parents_list demo_committee 0 demo_blocks1"
  by code_simp+

lemma demo_blocks2_ok:
  "fold_opt accept_block demo_blocks2 demo_empty \<noteq> None" "list_all (block_ok demo_committee) demo_blocks2"
  "distinct (map reference demo_blocks2)" "closed_list 0 demo_blocks2" "parents_list demo_committee 0 demo_blocks2"
  by code_simp+

lemma demo_honest: "honest_blocks {3} (set demo_blocks1)" "list_all (\<lambda>b. b \<in> set demo_blocks1) demo_blocks2"
  by code_simp+

lemma demo_bft: "bft_faulty demo_committee {3}"
  by code_simp

lemma demo_views: "two_views demo_committee {3} 0 demo_view1 demo_view2"
proof -
  note v1 = demo_dag_view [OF demo_blocks1_ok(1-3), folded demo_view1_def]
  note v2 = demo_dag_view [OF demo_blocks2_ok(1-3), folded demo_view2_def]
  note r1 = demo_dag_rules [OF v1(1,2)] and r2 = demo_dag_rules [OF v2(1,2)]
  have "dag_blocks demo_view1 \<union> dag_blocks demo_view2 = set demo_blocks1"
    using v1(2) v2(2) demo_honest(2) by (auto simp: list_all_iff)
  with v1(1) v2(1) r1 r2 demo_blocks1_ok demo_blocks2_ok demo_honest(1) demo_bft
  show ?thesis by (simp add: two_views_def)
qed

section \<open>Waves of four rounds\<close>

text \<open>
  No authority is faulty; authority 3 is slow after its block of round 2. The blocks of round 2 by 1, 2
  and 3 do not reference the leader's block of round 1, the leader's own block does, and everything
  above references that one.
\<close>

definition slow_blocks :: "nat list \<Rightarrow> verified_block list" where
  "slow_blocks late =
     demo_layer 0 [0, 1, 2, 3] [] @ demo_layer 1 [0, 1, 2, 3] [0, 1, 2, 3] @
     demo_layer 2 [0] [0, 1, 2] @ demo_layer 2 ([1, 2] @ late) [1, 2, 3] @
     demo_layer 3 [0, 1, 2] [0, 1, 2] @ demo_layer 4 [0, 1, 2] [0, 1, 2]"

definition slow_view1 :: dag_state where "slow_view1 = demo_dag (slow_blocks [3])"

definition slow_view2 :: dag_state where "slow_view2 = demo_dag (slow_blocks [])"

definition four_committer :: base_committer where
  "four_committer = \<lparr>bc_context = demo_context, bc_sampler = demo_sampler,
     bc_options = \<lparr>wave_length = 4, leader_offset = 0, round_offset = 1\<rparr>\<rparr>"

definition four_rounds :: universal_committer where
  "four_rounds = \<lparr>uc_context = demo_context, committers = [four_committer]\<rparr>"

lemma slow_blocks1_ok:
  "fold_opt accept_block (slow_blocks [3]) demo_empty \<noteq> None" "list_all (block_ok demo_committee) (slow_blocks [3])"
  "distinct (map reference (slow_blocks [3]))" "closed_list 0 (slow_blocks [3])"
  "parents_list demo_committee 0 (slow_blocks [3])"
  by code_simp+

lemma slow_blocks2_ok:
  "fold_opt accept_block (slow_blocks []) demo_empty \<noteq> None" "list_all (block_ok demo_committee) (slow_blocks [])"
  "distinct (map reference (slow_blocks []))" "closed_list 0 (slow_blocks [])"
  "parents_list demo_committee 0 (slow_blocks [])"
  by code_simp+

lemma slow_honest: "honest_blocks {} (set (slow_blocks [3]))"
  by code_simp

lemma slow_views: "two_views demo_committee {} 0 slow_view1 slow_view2"
proof -
  note v1 = demo_dag_view [OF slow_blocks1_ok(1-3), folded slow_view1_def]
  note v2 = demo_dag_view [OF slow_blocks2_ok(1-3), folded slow_view2_def]
  note r1 = demo_dag_rules [OF v1(1,2)] and r2 = demo_dag_rules [OF v2(1,2)]
  have "dag_blocks slow_view1 \<union> dag_blocks slow_view2 = set (slow_blocks [3])"
    using v1(2) v2(2) by (auto simp: slow_blocks_def demo_layer_def)
  moreover have "bft_faulty demo_committee {}" by code_simp
  ultimately show ?thesis
    using v1(1) v2(1) r1 r2 slow_blocks1_ok slow_blocks2_ok slow_honest by (simp add: two_views_def)
qed

end
