(* ===== verification/ThresholdClock.thy ===== *)
theory ThresholdClock
  imports StakeAggregator
begin

text \<open>
  \<^verbatim>\<open>consensus/core/src/threshold_clock.rs\<close>: the round this authority builds for. The reading of
  the system clock is an argument. The abstract specification \<open>clock_spec\<close> gives the round as a
  function of the blocks seen, whatever their order: the highest round seen, plus one once a quorum of
  authors was seen at it.
\<close>

section \<open>Model\<close>

record threshold_clock =
  aggregator :: stake_aggregator
  clock_round :: nat
  last_quorum_ts :: nat

definition clock_new :: "nat \<Rightarrow> nat \<Rightarrow> threshold_clock" where
  "clock_new r now = \<lparr>aggregator = agg_new, clock_round = r, last_quorum_ts = now\<rparr>"

definition clock_add_block ::
  "committee \<Rightarrow> nat \<Rightarrow> block_ref \<Rightarrow> threshold_clock \<Rightarrow> threshold_clock option" where
  "clock_add_block c now b clk =
     (if br_round b < clock_round clk then Some clk
      else if clock_round clk < br_round b then do {
        (_, agg) \<leftarrow> agg_add QuorumThreshold (agg_clear (aggregator clk)) (br_author b) c;
        Some (clk\<lparr>aggregator := agg, clock_round := br_round b\<rparr>)
      } else do {
        (reached, agg) \<leftarrow> agg_add QuorumThreshold (aggregator clk) (br_author b) c;
        if reached
        then Some (clk\<lparr>aggregator := agg_clear agg, clock_round := add32 (br_round b) 1,
                       last_quorum_ts := now\<rparr>)
        else Some (clk\<lparr>aggregator := agg\<rparr>)
      })"

definition clock_add_blocks ::
  "committee \<Rightarrow> nat \<Rightarrow> block_ref list \<Rightarrow> threshold_clock \<Rightarrow> (nat option \<times> threshold_clock) option"
where
  "clock_add_blocks c now bs clk = do {
     clk' \<leftarrow> fold_opt (clock_add_block c now) bs clk;
     Some (if clock_round clk < clock_round clk' then Some (clock_round clk') else None, clk')
   }"

section \<open>Specification\<close>

definition authors_at :: "block_ref list \<Rightarrow> nat \<Rightarrow> nat set" where
  "authors_at bs r = br_author ` {b \<in> set bs. br_round b = r}"

definition max_round :: "block_ref list \<Rightarrow> nat" where
  "max_round bs = foldr (max \<circ> br_round) bs 0"

definition clock_spec :: "committee \<Rightarrow> block_ref list \<Rightarrow> nat" where
  "clock_spec c bs =
     (if is_quorum c (authors_at bs (max_round bs)) then max_round bs + 1 else max_round bs)"

text \<open>No authority is a quorum on its own.\<close>

definition no_dictator :: "committee \<Rightarrow> bool" where
  "no_dictator c \<longleftrightarrow> (\<forall>a \<in> members c. \<not> is_quorum c {a})"

section \<open>Refinement\<close>

text \<open>The voters of the clock are the authors seen at its round, none of them a quorum yet.\<close>

definition clock_inv :: "committee \<Rightarrow> block_ref list \<Rightarrow> threshold_clock \<Rightarrow> bool" where
  "clock_inv c seen clk \<longleftrightarrow>
     agg_inv c (aggregator clk) \<and>
     clock_round clk = clock_spec c seen \<and>
     votes (aggregator clk) = authors_at seen (clock_round clk) \<and>
     \<not> is_quorum c (votes (aggregator clk))"

lemma max_round_append [simp]: "max_round (xs @ ys) = max (max_round xs) (max_round ys)"
  unfolding max_round_def by (induction xs) auto

lemma max_round_simps [simp]: "max_round [] = 0" "max_round [b] = br_round b"
  by (simp_all add: max_round_def)

lemma max_round_ge: "b \<in> set bs \<Longrightarrow> br_round b \<le> max_round bs"
  unfolding max_round_def by (induction bs) auto

lemma authors_at_snoc:
  "authors_at (bs @ [b]) r = (if br_round b = r then insert (br_author b) (authors_at bs r) else authors_at bs r)"
  by (auto simp: authors_at_def)

lemma authors_at_above: "max_round bs < r \<Longrightarrow> authors_at bs r = {}"
  using max_round_ge by (fastforce simp: authors_at_def)

lemma is_quorum_threshold:
  "S \<subseteq> members c \<Longrightarrow> is_threshold QuorumThreshold c (stake_of c S) \<longleftrightarrow> is_quorum c S"
  by (simp add: is_quorum_def reached_quorum_def)

lemma quorum_not_empty: "committee_wf c \<Longrightarrow> \<not> is_quorum c {}"
  using is_quorum_nonempty by blast

lemma agg_inv_clear [simp]: "agg_inv c (agg_clear g)" "votes (agg_clear g) = {}"
  by (simp_all add: agg_inv_def agg_clear_def)

lemma clock_new_inv: "committee_wf c \<Longrightarrow> clock_inv c [] (clock_new 0 now)"
  by (simp add: clock_inv_def clock_new_def clock_spec_def max_round_def authors_at_def
      agg_new_def agg_inv_def quorum_not_empty)

text \<open>A block below the clock leaves the clock where it is.\<close>

lemma clock_spec_below:
  assumes wf: "committee_wf c" and mem: "authors_at (seen @ [b]) (max_round seen) \<subseteq> members c"
    and less: "br_round b < clock_spec c seen"
  shows "clock_spec c (seen @ [b]) = clock_spec c seen"
proof (cases "is_quorum c (authors_at seen (max_round seen))")
  case True
  with less have b: "br_round b \<le> max_round seen" by (simp add: clock_spec_def)
  have "is_quorum c (authors_at (seen @ [b]) (max_round seen))"
    using True _ mem by (rule is_quorum_mono) (auto simp: authors_at_snoc)
  with True b show ?thesis by (simp add: clock_spec_def max_absorb1)
next
  case False
  with less show ?thesis by (simp add: clock_spec_def authors_at_snoc max_absorb1)
qed

lemma clock_step:
  assumes wf: "committee_wf c" and nd: "no_dictator c" and inv: "clock_inv c seen clk"
    and mem: "br_author ` set (seen @ [b]) \<subseteq> members c" and fits: "br_round b < u32_max"
  shows "\<exists>clk'. clock_add_block c now b clk = Some clk' \<and> clock_inv c (seen @ [b]) clk'"
proof -
  let ?r = "clock_round clk" and ?M = "max_round seen"
  from inv have agg: "agg_inv c (aggregator clk)" and r: "?r = clock_spec c seen"
    and v: "votes (aggregator clk) = authors_at seen ?r" and nq: "\<not> is_quorum c (authors_at seen ?r)"
    by (auto simp: clock_inv_def)
  have M: "?M \<le> ?r" using r by (simp add: clock_spec_def)
  have author: "br_author b \<in> members c" using mem by simp
  have sub: "authors_at (seen @ [b]) n \<subseteq> members c" for n
    using mem by (auto simp: authors_at_def)
  consider "br_round b < ?r" | "?r < br_round b" | "br_round b = ?r" by linarith
  then show ?thesis
  proof cases
    case 1
    with clock_spec_below [OF wf sub] r inv show ?thesis
      by (auto simp: clock_add_block_def clock_inv_def authors_at_snoc)
  next
    case 2
    let ?g = "agg_clear (aggregator clk)"
    obtain g where g: "agg_add QuorumThreshold ?g (br_author b) c
        = Some (is_threshold QuorumThreshold c (stake_of c {br_author b}), g)"
      "agg_inv c g" "votes g = {br_author b}"
      using agg_add_Some [OF wf, of ?g "br_author b" QuorumThreshold] author by auto
    have "authors_at (seen @ [b]) (br_round b) = {br_author b}"
      using authors_at_above [of seen "br_round b"] M 2 by (simp add: authors_at_snoc)
    moreover from 2 M have "max ?M (br_round b) = br_round b" by simp
    ultimately show ?thesis
      using 2 g nd author by (auto simp: clock_add_block_def clock_inv_def clock_spec_def no_dictator_def)
  next
    case 3
    obtain g where g: "agg_add QuorumThreshold (aggregator clk) (br_author b) c
        = Some (is_threshold QuorumThreshold c (stake_of c (authors_at (seen @ [b]) ?r)), g)"
      "agg_inv c g" "votes g = authors_at (seen @ [b]) ?r"
      using agg_add_Some [OF wf agg author, of QuorumThreshold] v 3 by (auto simp: authors_at_snoc)
    have t: "is_threshold QuorumThreshold c (stake_of c (authors_at (seen @ [b]) ?r)) \<longleftrightarrow>
        is_quorum c (authors_at (seen @ [b]) ?r)"
      using sub by (rule is_quorum_threshold)
    have max: "max ?M (br_round b) = ?r" using 3 M by simp
    have next_empty: "authors_at (seen @ [b]) (Suc ?r) = {}"
      by (rule authors_at_above) (simp add: max)
    have "add32 ?r 1 = Suc ?r" using fits 3 by (simp add: add32_fits u32_max_def)
    with 3 g t max next_empty show ?thesis
      by (auto simp: clock_add_block_def clock_inv_def clock_spec_def quorum_not_empty [OF wf])
  qed
qed

text \<open>Over a whole list: the clock never panics and refines its specification.\<close>

lemma clock_run:
  assumes "committee_wf c" and "no_dictator c" and "clock_inv c seen clk"
    and "br_author ` set (seen @ bs) \<subseteq> members c" and "\<forall>b \<in> set bs. br_round b < u32_max"
  shows "\<exists>clk'. fold_opt (clock_add_block c now) bs clk = Some clk' \<and> clock_inv c (seen @ bs) clk'"
  using assms
proof (induction bs arbitrary: seen clk)
  case Nil
  then show ?case by simp
next
  case (Cons b bs)
  obtain clk1 where s: "clock_add_block c now b clk = Some clk1" "clock_inv c (seen @ [b]) clk1"
    using clock_step [OF Cons.prems(1-3), of b now] Cons.prems(4,5) by auto
  with Cons.IH [OF Cons.prems(1,2) s(2)] Cons.prems(4,5) show ?case by simp
qed

lemma clock_spec_mono:
  assumes wf: "committee_wf c" and mem: "br_author ` set (xs @ ys) \<subseteq> members c"
  shows "clock_spec c xs \<le> clock_spec c (xs @ ys)"
  using mem
proof (induction ys rule: rev_induct)
  case Nil
  then show ?case by simp
next
  case (snoc y ys)
  let ?zs = "xs @ ys"
  have sub: "authors_at (?zs @ [y]) n \<subseteq> members c" for n
    using snoc.prems by (auto simp: authors_at_def)
  have "clock_spec c ?zs \<le> clock_spec c (?zs @ [y])"
  proof (cases "br_round y < clock_spec c ?zs")
    case True
    from clock_spec_below [OF wf sub True] show ?thesis by simp
  next
    case False
    then show ?thesis by (auto simp: clock_spec_def split: if_splits)
  qed
  moreover have "clock_spec c xs \<le> clock_spec c ?zs"
    using snoc by auto
  ultimately show ?case by simp
qed

end
