(* ===== verification/MemStore.thy ===== *)
theory MemStore
  imports Block "HOL-Library.Product_Lexorder"
begin

text \<open>
  The storage interface of the consensus core (\<^verbatim>\<open>consensus/core/src/storage/mod.rs\<close>) and its
  in-memory implementation (\<^verbatim>\<open>consensus/core/src/storage/mem_store.rs\<close>). The locale \<open>block_store\<close>
  is the contract of the trait \<^verbatim>\<open>Store\<close>; the memory store is shown to keep it. Every operation of the
  memory store returns \<^verbatim>\<open>Ok\<close>, so only the value is modelled; \<open>None\<close> is its panic.
\<close>

section \<open>Model\<close>

record mem_store =
  ms_blocks :: "(nat \<times> nat \<times> digest, verified_block) btree_map"
  digests_by_authorities :: "(nat \<times> nat \<times> digest) list"
  ms_commits :: "(nat, commit) btree_map"

definition mem_store_new :: mem_store where
  "mem_store_new = \<lparr>ms_blocks = [], digests_by_authorities = [], ms_commits = []\<rparr>"

definition write_block :: "verified_block \<Rightarrow> mem_store \<Rightarrow> mem_store" where
  "write_block b st =
     (let r = reference b in
      st\<lparr>ms_blocks := bt_insert (br_round r, br_author r, br_digest r) b (ms_blocks st),
         digests_by_authorities :=
           bs_insert (br_author r, br_round r, br_digest r) (digests_by_authorities st)\<rparr>)"

definition store_write :: "verified_block list \<Rightarrow> commit list \<Rightarrow> mem_store \<Rightarrow> mem_store" where
  "store_write bs cs st =
     (let st = fold write_block bs st in
      st\<lparr>ms_commits := fold (\<lambda>c. bt_insert (commit_index c) c) cs (ms_commits st)\<rparr>)"

definition read_blocks :: "mem_store \<Rightarrow> block_ref list \<Rightarrow> verified_block option list" where
  "read_blocks st refs =
     map (\<lambda>r. bt_get (ms_blocks st) (br_round r, br_author r, br_digest r)) refs"

definition contains_blocks :: "mem_store \<Rightarrow> block_ref list \<Rightarrow> bool list" where
  "contains_blocks st refs =
     map (\<lambda>r. bt_get (ms_blocks st) (br_round r, br_author r, br_digest r) \<noteq> None) refs"

definition scan_blocks_by_author :: "mem_store \<Rightarrow> nat \<Rightarrow> nat \<Rightarrow> verified_block list option" where
  "scan_blocks_by_author st a start_round =
     (let lo = (a, start_round, digest_MIN); hi = (a, u32_max, digest_MAX) in
      if lo \<le> hi then
        (let refs = map (\<lambda>(au, r, d). BlockRef r au d)
               (filter (\<lambda>k. lo \<le> k \<and> k \<le> hi) (digests_by_authorities st)) in
         map_opt (\<lambda>b. b) (read_blocks st refs))
      else None)"

definition read_last_commit :: "mem_store \<Rightarrow> commit option" where
  "read_last_commit st =
     (if ms_commits st = [] then None else Some (snd (last (ms_commits st))))"

definition scan_commits :: "mem_store \<Rightarrow> nat \<Rightarrow> commit list" where
  "scan_commits st i = map snd (filter (\<lambda>(k, c). i \<le> k) (ms_commits st))"

section \<open>The storage contract\<close>

text \<open>
  The blocks a store holds are a partial function of the reference. Writing a block makes it
  readable under its reference and keeps every other block; an author's blocks from a round on are
  exactly those the store holds.
\<close>

locale block_store =
  fixes empty :: "'s"
    and put :: "verified_block \<Rightarrow> 's \<Rightarrow> 's"
    and read :: "'s \<Rightarrow> block_ref \<Rightarrow> verified_block option"
    and scan :: "'s \<Rightarrow> nat \<Rightarrow> nat \<Rightarrow> verified_block list option"
    and inv :: "'s \<Rightarrow> bool"
  assumes inv_empty: "inv empty"
    and read_empty: "read empty r = None"
    and inv_put: "inv s \<Longrightarrow> inv (put b s)"
    and read_put: "inv s \<Longrightarrow> read (put b s) = (read s)(reference b \<mapsto> b)"
    and read_reference: "inv s \<Longrightarrow> read s r = Some b \<Longrightarrow> reference b = r"
    and scan_exact: "inv s \<Longrightarrow> r0 \<le> u32_max \<Longrightarrow> \<exists>bs. scan s a r0 = Some bs \<and>
      set bs = {b. read s (reference b) = Some b \<and> author_of b = a \<and> r0 \<le> round_of b \<and>
        round_of b \<le> u32_max} \<and> distinct bs"
begin

lemma inv_fold_put: "inv s \<Longrightarrow> inv (fold put bs s)"
  by (induction bs arbitrary: s) (auto simp: inv_put)

lemma read_fold_put:
  "inv s \<Longrightarrow> read (fold put bs s) r =
    (case find (\<lambda>b. reference b = r) (rev bs) of None \<Rightarrow> read s r | Some b \<Rightarrow> Some b)"
proof (induction bs rule: rev_induct)
  case Nil
  then show ?case by simp
next
  case (snoc b bs)
  then show ?case by (simp add: inv_fold_put read_put)
qed

text \<open>What was written last under a reference is what is read back.\<close>

lemma read_written:
  assumes "inv s" and "b \<in> set bs" and "\<forall>b' \<in> set bs. reference b' = reference b \<longrightarrow> b' = b"
  shows "read (fold put bs s) (reference b) = Some b"
proof -
  have "find (\<lambda>b'. reference b' = reference b) (rev bs) = Some b"
  proof (cases "find (\<lambda>b'. reference b' = reference b) (rev bs)")
    case None
    with assms(2) show ?thesis by (auto simp: find_None_iff)
  next
    case (Some b')
    then have "b' \<in> set bs" "reference b' = reference b"
      by (auto simp: find_Some_iff) (metis nth_mem set_rev length_rev)
    with assms(3) Some show ?thesis by simp
  qed
  with read_fold_put [OF assms(1)] show ?thesis by simp
qed

end

section \<open>The memory store keeps the contract\<close>

definition mem_read :: "mem_store \<Rightarrow> block_ref \<Rightarrow> verified_block option" where
  "mem_read st r = bt_get (ms_blocks st) (br_round r, br_author r, br_digest r)"

text \<open>Both indexes hold the same blocks, each under its own reference.\<close>

definition mem_store_inv :: "mem_store \<Rightarrow> bool" where
  "mem_store_inv st \<longleftrightarrow>
     keys_sorted (ms_blocks st) \<and> sorted_wrt (<) (digests_by_authorities st) \<and>
     (\<forall>(k, b) \<in> set (ms_blocks st). k = (round_of b, author_of b, vb_digest b)) \<and>
     set (digests_by_authorities st) = (\<lambda>(r, a, d). (a, r, d)) ` fst ` set (ms_blocks st)"

lemma mem_read_eq:
  assumes "mem_store_inv st"
  shows "mem_read st r = Some b \<longleftrightarrow>
    (\<exists>k. (k, b) \<in> set (ms_blocks st)) \<and> reference b = r"
proof -
  from assms have s: "keys_sorted (ms_blocks st)"
    and k: "\<And>k b. (k, b) \<in> set (ms_blocks st) \<Longrightarrow> k = (round_of b, author_of b, vb_digest b)"
    by (auto simp: mem_store_inv_def)
  show ?thesis
    unfolding mem_read_def bt_get_in_set [OF s]
    by (cases r) (auto simp: reference_def dest: k)
qed

lemma mem_read_put:
  "mem_read (write_block b st) = (mem_read st)(reference b \<mapsto> b)"
proof
  fix r
  show "mem_read (write_block b st) r = ((mem_read st)(reference b \<mapsto> b)) r"
    by (cases r) (auto simp: mem_read_def write_block_def Let_def bt_get_insert reference_def)
qed

lemma mem_store_inv_put: "mem_store_inv st \<Longrightarrow> mem_store_inv (write_block b st)"
  by (auto simp: mem_store_inv_def write_block_def Let_def set_bt_insert image_iff Bex_def)

lemma scan_range:
  fixes a :: nat and k :: "nat \<times> nat \<times> digest"
  assumes "r0 \<le> u32_max"
  shows "(a, r0, digest_MIN) \<le> k \<and> k \<le> (a, u32_max, digest_MAX) \<longleftrightarrow>
    (\<exists>r d. k = (a, r, d) \<and> r0 \<le> r \<and> r \<le> u32_max)"
  by (cases k) (auto simp: less_eq_prod_def)

lemma digests_read:
  assumes "mem_store_inv st"
  shows "(a, r, d) \<in> set (digests_by_authorities st) \<longleftrightarrow> mem_read st (BlockRef r a d) \<noteq> None"
proof -
  have "(a, r, d) \<in> (\<lambda>(r, a, d). (a, r, d)) ` X \<longleftrightarrow> (r, a, d) \<in> X" for X :: "(nat \<times> nat \<times> digest) set"
    by force
  with assms show ?thesis
    by (simp add: mem_store_inv_def mem_read_def bt_get_def map_of_eq_None_iff)
qed

lemma mem_scan:
  assumes inv: "mem_store_inv st" and r0: "r0 \<le> u32_max"
  shows "\<exists>bs. scan_blocks_by_author st a r0 = Some bs \<and>
    set bs = {b. mem_read st (reference b) = Some b \<and> author_of b = a \<and> r0 \<le> round_of b \<and>
      round_of b \<le> u32_max} \<and> distinct bs"
proof -
  define refs where "refs = map (\<lambda>(au, r, d). BlockRef r au d)
     (filter (\<lambda>k. (a, r0, digest_MIN) \<le> k \<and> k \<le> (a, u32_max, digest_MAX)) (digests_by_authorities st))"
  have refs: "r \<in> set refs \<longleftrightarrow>
      mem_read st r \<noteq> None \<and> br_author r = a \<and> r0 \<le> br_round r \<and> br_round r \<le> u32_max" for r
    unfolding refs_def
    by (cases r) (auto simp: scan_range [OF r0] image_iff digests_read [OF inv] split: prod.splits)
  have le: "(a, r0, digest_MIN) \<le> (a, u32_max, digest_MAX)"
    using r0 by (simp add: less_eq_prod_def)
  have rb: "read_blocks st refs = map (mem_read st) refs"
    by (simp add: read_blocks_def mem_read_def [abs_def])
  have "map_opt (\<lambda>b. b) (map (mem_read st) refs) = Some (map (the \<circ> (mem_read st)) refs)"
    using refs by (auto simp: map_opt_Some_iff)
  then have s: "scan_blocks_by_author st a r0 = Some (map (the \<circ> mem_read st) refs)"
    using le by (simp add: scan_blocks_by_author_def Let_def refs_def [symmetric] rb)
  have "set (map (the \<circ> mem_read st) refs) =
      {b. mem_read st (reference b) = Some b \<and> author_of b = a \<and> r0 \<le> round_of b \<and> round_of b \<le> u32_max}"
    (is "?L = ?R")
  proof
    show "?L \<subseteq> ?R"
    proof
      fix b assume "b \<in> ?L"
      then obtain r where r: "r \<in> set refs" "mem_read st r = Some b" by (auto simp: refs)
      then have "reference b = r" by (simp add: mem_read_eq [OF inv])
      with r show "b \<in> ?R" by (auto simp: refs)
    qed
    show "?R \<subseteq> ?L"
    proof
      fix b assume "b \<in> ?R"
      then have "reference b \<in> set refs" "the (mem_read st (reference b)) = b"
        by (auto simp: refs)
      then show "b \<in> ?L" by force
    qed
  qed
  moreover have "distinct (map (the \<circ> mem_read st) refs)"
  proof -
    have "distinct (digests_by_authorities st)"
      using inv by (simp add: mem_store_inv_def strict_sorted_iff)
    moreover have "inj (\<lambda>(au, r, d). BlockRef r au d)" by (auto simp: inj_def)
    ultimately have "distinct refs"
      unfolding refs_def by (auto simp: distinct_map intro: inj_on_subset)
    moreover have "inj_on (the \<circ> mem_read st) (set refs)"
    proof (rule inj_onI)
      fix r r' assume rr: "r \<in> set refs" "r' \<in> set refs" "(the \<circ> mem_read st) r = (the \<circ> mem_read st) r'"
      then obtain b where "mem_read st r = Some b" "mem_read st r' = Some b" by (auto simp: refs)
      then show "r = r'" by (simp add: mem_read_eq [OF inv])
    qed
    ultimately show ?thesis by (simp add: distinct_map)
  qed
  ultimately show ?thesis using s by blast
qed

interpretation mem: block_store mem_store_new write_block mem_read scan_blocks_by_author mem_store_inv
proof
  show "mem_store_inv mem_store_new" "mem_read mem_store_new r = None" for r
    by (simp_all add: mem_store_inv_def mem_store_new_def mem_read_def bt_get_def)
  show "reference b = r" if "mem_store_inv s" "mem_read s r = Some b" for s r b
    using that by (simp add: mem_read_eq)
qed (simp_all add: mem_store_inv_put mem_read_put mem_scan)

end
