(* ===== verification/Recovery.thy ===== *)
theory Recovery
  imports DagState MemStore
begin

text \<open>
  Restarting from the store: \<open>dag_state_new\<close> (the constructor of \<^verbatim>\<open>DagState\<close>) reads the last commit and
  scans, for each authority, the blocks from a hundred rounds below its last committed round on. On
  a store that keeps the contract of \<open>block_store\<close> it rebuilds exactly those blocks.
\<close>

definition cached_from :: "consensus_context \<Rightarrow> commit option \<Rightarrow> nat list" where
  "cached_from ctx cm =
     (case cm of Some c \<Rightarrow> last_committed_rounds c | None \<Rightarrow> replicate (committee_size (committee ctx)) 0)"

text \<open>One authority's blocks are accepted: they are of free slots where the authority is this one.\<close>

lemma accept_scanned:
  assumes "dag_inv d" and "distinct bs" and "\<forall>b \<in> set bs. block_ok (committee (ds_context d)) b"
    and "\<forall>b \<in> set bs. \<forall>b' \<in> dag_blocks d. slot_of (reference b') \<noteq> slot_of (reference b)"
    and "\<forall>b \<in> set bs. \<forall>b' \<in> set bs. author_of b = own_index (ds_context d) \<longrightarrow>
      slot_of (reference b) = slot_of (reference b') \<longrightarrow> b = b'"
    and "\<forall>b \<in> set bs. \<forall>b' \<in> set bs. reference b = reference b' \<longrightarrow> b = b'"
  shows "\<exists>d'. fold_opt accept_block bs d = Some d' \<and> dag_inv d' \<and> ds_context d' = ds_context d \<and>
    last_commit d' = last_commit d \<and> dag_blocks d' = dag_blocks d \<union> set bs"
  using assms
proof (induction bs arbitrary: d rule: rev_induct)
  case Nil
  then show ?case by simp
next
  case (snoc b bs)
  obtain d1 where d1: "fold_opt accept_block bs d = Some d1" "dag_inv d1" "ds_context d1 = ds_context d"
    "last_commit d1 = last_commit d" "dag_blocks d1 = dag_blocks d \<union> set bs"
  proof -
    have "\<exists>d'. fold_opt accept_block bs d = Some d' \<and> dag_inv d' \<and> ds_context d' = ds_context d \<and>
      last_commit d' = last_commit d \<and> dag_blocks d' = dag_blocks d \<union> set bs"
    proof (rule snoc.IH [OF snoc.prems(1)])
      show "distinct bs" using snoc.prems(2) by simp
    qed (use snoc.prems(3-6) in \<open>unfold set_append, blast+\<close>)
    with that show ?thesis by blast
  qed
  have ok: "block_ok (committee (ds_context d1)) b" using snoc.prems(3) d1(3) by simp
  have "b \<notin> set bs" using snoc.prems(2) by simp
  then have own: "author_of b = own_index (ds_context d1) \<Longrightarrow> \<forall>b' \<in> dag_blocks d1. slot_of (reference b') \<noteq> slot_of (reference b)"
    using snoc.prems(4,5) d1(3,5) unfolding set_append ball_Un by (metis UnE list.set_intros(1))
  have "author_of b \<in> members (committee (ds_context d1))" using ok by (simp add: block_ok_def)
  with accept_block_total [OF d1(2), of b] own obtain d2 where d2: "accept_block b d1 = Some d2" by auto
  have "reference b' \<noteq> reference b" if "b' \<in> dag_blocks d1" for b'
  proof -
    from that d1(5) consider "b' \<in> dag_blocks d" | "b' \<in> set bs" by blast
    then show ?thesis
    proof cases
      case 1
      with snoc.prems(4) show ?thesis by auto
    next
      case 2
      with snoc.prems(6) \<open>b \<notin> set bs\<close> show ?thesis by auto
    qed
  qed
  with accept_block_blocks [OF d1(2) d2] have "dag_blocks d2 = dag_blocks d \<union> set (bs @ [b])" using d1(5) by auto
  with accept_block_inv [OF d1(2) ok d2] accept_block_frame [OF d2] d1 d2 show ?case
    by (simp add: fold_opt_append)
qed

context block_store
begin

definition restored :: "'s \<Rightarrow> nat list \<Rightarrow> nat \<Rightarrow> verified_block set" where
  "restored s rounds k = {b. read s (reference b) = Some b \<and> author_of b < k \<and>
     rounds ! author_of b - CACHED_ROUNDS \<le> round_of b}"


definition store_ok :: "consensus_context \<Rightarrow> 's \<Rightarrow> bool" where
  "store_ok ctx s \<longleftrightarrow>
     (\<forall>r b. read s r = Some b \<longrightarrow> block_ok (committee ctx) b) \<and>
     (\<forall>r b r' b'. read s r = Some b \<longrightarrow> read s r' = Some b' \<longrightarrow> author_of b = own_index ctx \<longrightarrow>
        slot_of r = slot_of r' \<longrightarrow> b = b')"

lemma restore_authorities:
  assumes inv: "inv s" and ok: "store_ok ctx s" and small: "committee_size (committee ctx) < u32_max"
    and rounds: "length rounds = committee_size (committee ctx)" "\<forall>r \<in> set rounds. r \<le> u32_max"
    and d: "dag_inv d" "ds_context d = ctx" "dag_blocks d = {}" and k: "k \<le> length rounds"
  shows "\<exists>d'. fold_opt (\<lambda>(i, r) d. Option.bind (to_authority_index (committee ctx) i) (\<lambda>a.
      Option.bind (scan s a (saturating_sub r CACHED_ROUNDS)) (\<lambda>bs. fold_opt accept_block bs d)))
      (map (\<lambda>i. (i, rounds ! i)) [0..<k]) d = Some d' \<and>
    dag_inv d' \<and> ds_context d' = ctx \<and> last_commit d' = last_commit d \<and> dag_blocks d' = restored s rounds k"
  using k
proof (induction k)
  case 0
  with d show ?case by (simp add: restored_def)
next
  case (Suc k)
  then obtain d1 where d1: "fold_opt (\<lambda>(i, r) d. Option.bind (to_authority_index (committee ctx) i) (\<lambda>a.
      Option.bind (scan s a (saturating_sub r CACHED_ROUNDS)) (\<lambda>bs. fold_opt accept_block bs d)))
      (map (\<lambda>i. (i, rounds ! i)) [0..<k]) d = Some d1"
    "dag_inv d1" "ds_context d1 = ctx" "last_commit d1 = last_commit d" "dag_blocks d1 = restored s rounds k" by auto
  let ?r0 = "saturating_sub (rounds ! k) CACHED_ROUNDS"
  have idx: "to_authority_index (committee ctx) k = Some k"
    using Suc.prems rounds(1) small by (simp add: to_authority_index_def u32_max_def)
  have "rounds ! k \<in> set rounds" using Suc.prems by simp
  with rounds(2) have "rounds ! k \<le> u32_max" by blast
  then have "?r0 \<le> u32_max" by (simp add: saturating_sub_def)
  from scan_exact [OF inv this, of k] obtain bs where bs: "scan s k ?r0 = Some bs" "distinct bs"
    "set bs = {b. read s (reference b) = Some b \<and> author_of b = k \<and> ?r0 \<le> round_of b \<and> round_of b \<le> u32_max}"
    by blast
  have ref: "reference b = r" if "read s r = Some b" for r b using read_reference [OF inv that] .
  have bok: "\<forall>b \<in> set bs. block_ok (committee ctx) b" using bs(3) ok by (auto simp: store_ok_def)
  have "\<exists>d'. fold_opt accept_block bs d1 = Some d' \<and> dag_inv d' \<and> ds_context d' = ds_context d1 \<and>
    last_commit d' = last_commit d1 \<and> dag_blocks d' = dag_blocks d1 \<union> set bs"
  proof (rule accept_scanned [OF d1(2) bs(2)])
    show "\<forall>b \<in> set bs. block_ok (committee (ds_context d1)) b" using bok d1(3) by simp
    show "\<forall>b \<in> set bs. \<forall>b' \<in> dag_blocks d1. slot_of (reference b') \<noteq> slot_of (reference b)"
      using bs(3) d1(5) by (auto simp: restored_def slot_of_eq_iff)
    show "\<forall>b \<in> set bs. \<forall>b' \<in> set bs. author_of b = own_index (ds_context d1) \<longrightarrow>
        slot_of (reference b) = slot_of (reference b') \<longrightarrow> b = b'"
      using bs(3) ok d1(3) unfolding store_ok_def by blast
    show "\<forall>b \<in> set bs. \<forall>b' \<in> set bs. reference b = reference b' \<longrightarrow> b = b'"
      using bs(3) by (metis (mono_tags, lifting) mem_Collect_eq option.inject)
  qed
  then obtain d2 where d2: "fold_opt accept_block bs d1 = Some d2" "dag_inv d2" "ds_context d2 = ds_context d1"
    "last_commit d2 = last_commit d1" "dag_blocks d2 = dag_blocks d1 \<union> set bs" by blast
  have "restored s rounds (Suc k) = restored s rounds k \<union> set bs"
  proof -
    have "round_of b \<le> u32_max" if "read s (reference b) = Some b" for b
      using ok that by (fastforce simp: store_ok_def block_ok_def)
    then show ?thesis unfolding bs(3) by (auto simp: restored_def less_Suc_eq saturating_sub_def)
  qed
  with d1 d2 bs(1) idx show ?case by (simp add: fold_opt_append)
qed

lemma restores:
  assumes inv: "inv s" and ok: "store_ok ctx s" and small: "committee_size (committee ctx) < u32_max"
    and rounds: "length (cached_from ctx cm) = committee_size (committee ctx)" "\<forall>r \<in> set (cached_from ctx cm). r \<le> u32_max"
  shows "\<exists>d. dag_state_new ctx cm (scan s) = Some d \<and> dag_inv d \<and> last_commit d = cm \<and>
    dag_blocks d = restored s (cached_from ctx cm) (committee_size (committee ctx))"
proof -
  let ?rs = "cached_from ctx cm" and ?n = "committee_size (committee ctx)"
  let ?d0 = "\<lparr>ds_context = ctx, recent_blocks = [], cached_refs = replicate ?n [], last_commit = cm, highest_accepted_round = 0\<rparr>"
  have d0: "dag_inv ?d0" "ds_context ?d0 = ctx" "dag_blocks ?d0 = {}"
    by (simp_all add: dag_inv_def dag_blocks_def)
  have z: "zip [0..<length ?rs] ?rs = map (\<lambda>i. (i, ?rs ! i)) [0..<?n]"
    by (rule nth_equalityI) (simp_all add: rounds(1))
  from restore_authorities [OF inv ok small rounds d0 order_refl, unfolded rounds(1)] show ?thesis
    unfolding dag_state_new_def Let_def cached_from_def [symmetric] z by auto
qed

end

end
