(* ===== verification/ConsensusProperties.thy ===== *)
theory ConsensusProperties
  imports Scenario ThresholdClock Recovery
begin

text \<open>
  The properties of the commit rule and of the structures it works on, each with a run on the
  scenario of \<open>Scenario\<close> where it has hypotheses.
\<close>

section \<open>The commit rule\<close>

text \<open>
  C1: two validators never commit differently. Let fewer than the validity threshold of the stake be
  faulty, and let two views of the DAG be well formed from the round of the last decided leader on.
  Then the sequences of decisions that \<^verbatim>\<open>try_commit\<close> returns on the two views, with the same
  committers of three-round waves, are such that one is a prefix of the other: for each slot both decided
  they committed the same block or both skipped it.
\<close>

theorem try_commit_prefix_consistent:
  assumes "two_views c F (slot_round last_decided) d1 d2"
    and "\<forall>bc \<in> set (committers uc). committer_for c bc"
    and "highest_accepted_round d1 < u32_max" and "highest_accepted_round d2 < u32_max"
    and "try_commit uc d1 last_decided = Some o1" and "try_commit uc d2 last_decided = Some o2"
  shows "prefix (map decided_as o1) (map decided_as o2) \<or> prefix (map decided_as o2) (map decided_as o1)"
proof (cases "highest_accepted_round d1 \<le> highest_accepted_round d2")
  case True
  with try_commit_agree [OF assms(1,2) True assms(4-6)] show ?thesis using agree_prefix by blast
next
  case False
  then have "highest_accepted_round d2 \<le> highest_accepted_round d1" by simp
  from try_commit_agree [OF two_views_sym [OF assms(1)] assms(2) this assms(3,6,5)] show ?thesis
    using agree_prefix by blast
qed

lemma demo_pipeline_committers: "\<forall>bc \<in> set (committers demo_pipeline). committer_for demo_committee bc"
  by (simp add: demo_pipeline_def demo_committer_def committer_for_def)

lemma demo_runs:
  "map_option (map decided_as) (try_commit demo_pipeline demo_view1 \<lparr>slot_round = 0, slot_authority = 0\<rparr>)
     = Some [(\<lparr>slot_round = 1, slot_authority = 0\<rparr>, Some (BlockRef 1 0 0))]"
  "map_option (map decided_as) (try_commit demo_pipeline demo_view2 \<lparr>slot_round = 0, slot_authority = 0\<rparr>)
     = Some [(\<lparr>slot_round = 1, slot_authority = 0\<rparr>, Some (BlockRef 1 0 0))]"
  "highest_accepted_round demo_view1 = 3" "highest_accepted_round demo_view2 = 3"
  by code_simp+

theorem try_commit_prefix_consistent_witness:
  "\<exists>o1 o2. try_commit demo_pipeline demo_view1 \<lparr>slot_round = 0, slot_authority = 0\<rparr> = Some o1 \<and>
    try_commit demo_pipeline demo_view2 \<lparr>slot_round = 0, slot_authority = 0\<rparr> = Some o2 \<and> o1 \<noteq> [] \<and>
    (prefix (map decided_as o1) (map decided_as o2) \<or> prefix (map decided_as o2) (map decided_as o1))"
proof -
  from demo_runs obtain o1 o2 where
    o: "try_commit demo_pipeline demo_view1 \<lparr>slot_round = 0, slot_authority = 0\<rparr> = Some o1"
    "try_commit demo_pipeline demo_view2 \<lparr>slot_round = 0, slot_authority = 0\<rparr> = Some o2" "o1 \<noteq> []"
    by auto
  have "prefix (map decided_as o1) (map decided_as o2) \<or> prefix (map decided_as o2) (map decided_as o1)"
    by (rule try_commit_prefix_consistent [of demo_committee "{3}", OF _ demo_pipeline_committers _ _ o(1,2)])
      (simp_all add: demo_views demo_runs u32_max_def)
  with o show ?thesis by blast
qed

text \<open>
  C7: the commit rule does not panic. On a view of the DAG that is well formed and complete, with fewer
  than the validity threshold of the stake faulty, \<^verbatim>\<open>try_commit\<close> returns: no missing ancestor, no
  committed round, and never more than one certified leader for a slot.
\<close>

theorem try_commit_never_panics:
  assumes "ready c F d uc last_decided"
    and "\<forall>bc \<in> set (committers uc). committee_wf (committee (bc_context bc)) \<and> sample_spec (bc_sampler bc) \<and>
      (\<forall>seed items n. bc_sampler bc seed items n \<noteq> None) \<and>
      leader_offset (bc_options bc) < committee_size (committee (bc_context bc))"
  shows "\<exists>out. try_commit uc d last_decided = Some out"
proof (rule try_commit_total [OF assms(1)], intro ballI allI)
  fix bc r assume "bc \<in> set (committers uc)"
  with assms(2) show "elect_leader bc r \<noteq> None" by (intro elect_leader_total) auto
qed

lemma demo_sampler_spec: "sample_spec demo_sampler" "demo_sampler seed items n \<noteq> None"
  by (auto simp: sample_spec_def demo_sampler_def dest: in_set_takeD)

lemma demo_ready: "ready demo_committee {3} demo_view1 demo_pipeline \<lparr>slot_round = 0, slot_authority = 0\<rparr>"
proof -
  note v1 = demo_dag_view [OF demo_blocks1_ok(1-3), folded demo_view1_def]
  have "two_views demo_committee {3} 0 demo_view1 demo_view1"
    using demo_views v1(2) demo_honest(1) by (simp add: two_views_def)
  moreover have "last_commit_round demo_view1 = 0" using v1(4) by (simp add: last_commit_round_def)
  ultimately show ?thesis
    using demo_pipeline_committers demo_views by (simp add: ready_def demo_runs u32_max_def two_views_def)
qed

theorem try_commit_never_panics_witness:
  "\<exists>out. try_commit demo_pipeline demo_view1 \<lparr>slot_round = 0, slot_authority = 0\<rparr> = Some out"
  by (rule try_commit_never_panics [OF demo_ready])
    (use demo_sampler_spec demo_committee_wf in
      \<open>auto simp: demo_pipeline_def demo_committer_def demo_committee_def committee_size_def\<close>)

text \<open>
  C11: the direct rules exclude each other across views. When some view holds a certificate for a leader block
  (a block of the decision round that lists a quorum of votes for it), no view finds enough blame to skip
  its slot.
\<close>

theorem certificate_excludes_direct_skip:
  assumes "two_views c F lo d1 d2" and "committer_for c bc" and "slot_ok bc (slot_of (reference l))"
    and "b \<in> dag_blocks d1" and "round_of b = round_of l + 2"
    and "is_certificate bc d1 b l Map.empty = Some (True, cache)"
  shows "try_direct_decide bc d2 (slot_of (reference l)) \<noteq> Some (Skip s)"
proof
  assume skip: "try_direct_decide bc d2 (slot_of (reference l)) = Some (Skip s)"
  note tv = two_viewsD [OF assms(1)]
  have "certificate_count d1 c l b = Some True"
    using is_certificate_count(1) [OF cache_ok_empty, of bc d1 b l] assms(2,6) by (simp add: committer_for_def)
  with certificate_count_iff [OF tv(1) assms(4,5)] have "certifies c d1 (reference l) b" by blast
  moreover from direct_meaning [OF tv(2) assms(2,3) skip]
  have "is_quorum c (blamers d2 (slot_of (reference l)))" by simp
  ultimately show False using certificate_excludes_blame [OF assms(1,4), of "reference l"] assms(5) by simp
qed

lemma demo_certificate:
  "fst (the (is_certificate (demo_committer 1) demo_view1
     (demo_block 3 0 (demo_refs 2 [0, 1, 2, 3])) (demo_block 1 0 (demo_refs 0 [0, 1, 2, 3])) Map.empty)) = True"
  "is_certificate (demo_committer 1) demo_view1
     (demo_block 3 0 (demo_refs 2 [0, 1, 2, 3])) (demo_block 1 0 (demo_refs 0 [0, 1, 2, 3])) Map.empty \<noteq> None"
  "demo_block 3 0 (demo_refs 2 [0, 1, 2, 3]) \<in> set demo_blocks1"
  "slot_ok (demo_committer 1) (slot_of (reference (demo_block 1 0 (demo_refs 0 [0, 1, 2, 3]))))"
  by code_simp+

theorem certificate_excludes_direct_skip_witness:
  "\<forall>s. try_direct_decide (demo_committer 1) demo_view2
     (slot_of (reference (demo_block 1 0 (demo_refs 0 [0, 1, 2, 3])))) \<noteq> Some (Skip s)"
proof -
  let ?b = "demo_block 3 0 (demo_refs 2 [0, 1, 2, 3])" and ?l = "demo_block 1 0 (demo_refs 0 [0, 1, 2, 3])"
  obtain cache where "is_certificate (demo_committer 1) demo_view1 ?b ?l Map.empty = Some (True, cache)"
    using demo_certificate(1,2) by (metis option.collapse prod.collapse)
  from certificate_excludes_direct_skip [OF demo_views _ demo_certificate(4) _ _ this]
  show ?thesis
    using demo_dag_view(2) [OF demo_blocks1_ok(1-3), folded demo_view1_def] demo_certificate(3)
    by (simp add: committer_for_def demo_committer_def) (simp add: demo_block_def round_of_def)
qed

text \<open>
  C8: a direct commit is final. When one view directly commits a leader, every committed anchor at least three
  rounds later, in any view, makes the indirect rule commit the same block of that slot.
\<close>

theorem direct_commit_is_final:
  assumes "two_views c F lo d1 d2" and "committer_for c bc" and "slot_ok bc s" and "lo \<le> slot_round s"
    and "try_direct_decide bc d1 s = Some (Commit l)"
    and "anchor \<in> dag_blocks d2" and "slot_round s + 3 \<le> round_of anchor"
    and "decide_leader_from_anchor bc d2 anchor s = Some st"
  shows "\<exists>k. st = Commit k \<and> reference k = reference l"
proof -
  have p: "valid_pick c lo (bc, s)" using assms(2-4) by (simp add: valid_pick_def)
  have "decided_as (Commit l) = decided_as st"
    using three_rounds.direct_anchor [OF assms(1) p, of "Commit l" anchor st] assms(5-8)
    by (simp add: direct_pick_def anchor_pick_def)
  moreover have "is_decided st"
    using three_rounds.anchor_slot [OF two_views_sym [OF assms(1)] p, of anchor st] assms(8) by (simp add: anchor_pick_def)
  ultimately show ?thesis by (cases st) auto
qed

definition demo_blocks3 :: "verified_block list" where
  "demo_blocks3 = demo_blocks2 @ demo_layer 4 [1] [0, 2, 3]"

definition demo_view3 :: dag_state where "demo_view3 = demo_dag demo_blocks3"

lemma demo_blocks3_ok:
  "fold_opt accept_block demo_blocks3 demo_empty \<noteq> None" "list_all (block_ok demo_committee) demo_blocks3"
  "distinct (map reference demo_blocks3)" "closed_list 0 demo_blocks3" "parents_list demo_committee 0 demo_blocks3"
  "honest_blocks {3} (set (demo_blocks1 @ demo_layer 4 [1] [0, 2, 3]))"
  by code_simp+

lemma demo_views3: "two_views demo_committee {3} 0 demo_view1 demo_view3" "dag_blocks demo_view3 = set demo_blocks3"
proof -
  note v1 = demo_dag_view [OF demo_blocks1_ok(1-3), folded demo_view1_def]
  note v3 = demo_dag_view [OF demo_blocks3_ok(1-3), folded demo_view3_def]
  note r1 = demo_dag_rules [OF v1(1,2)] and r3 = demo_dag_rules [OF v3(1,2)]
  have "dag_blocks demo_view1 \<union> dag_blocks demo_view3 = set (demo_blocks1 @ demo_layer 4 [1] [0, 2, 3])"
    using v1(2) v3(2) demo_honest(2) by (auto simp: list_all_iff demo_blocks3_def)
  with v1(1) v3(1) r1 r3 demo_blocks1_ok demo_blocks3_ok demo_bft
  show "two_views demo_committee {3} 0 demo_view1 demo_view3" by (simp add: two_views_def)
  show "dag_blocks demo_view3 = set demo_blocks3" by (rule v3(2))
qed

lemma demo_decisions:
  "map_option decided_as (try_direct_decide (demo_committer 1) demo_view1 \<lparr>slot_round = 1, slot_authority = 0\<rparr>)
     = Some (\<lparr>slot_round = 1, slot_authority = 0\<rparr>, Some (BlockRef 1 0 0))"
  "decide_leader_from_anchor (demo_committer 1) demo_view3 (demo_block 4 1 (demo_refs 3 [0, 2, 3]))
     \<lparr>slot_round = 1, slot_authority = 0\<rparr> \<noteq> None"
  "demo_block 4 1 (demo_refs 3 [0, 2, 3]) \<in> set demo_blocks3"
  "slot_ok (demo_committer 1) \<lparr>slot_round = 1, slot_authority = 0\<rparr>"
  by code_simp+

theorem direct_commit_is_final_witness:
  "\<exists>k. decide_leader_from_anchor (demo_committer 1) demo_view3 (demo_block 4 1 (demo_refs 3 [0, 2, 3]))
     \<lparr>slot_round = 1, slot_authority = 0\<rparr> = Some (Commit k) \<and> reference k = BlockRef 1 0 0"
proof -
  let ?s = "\<lparr>slot_round = 1, slot_authority = 0\<rparr>" and ?a = "demo_block 4 1 (demo_refs 3 [0, 2, 3])"
  obtain st0 where st0: "try_direct_decide (demo_committer 1) demo_view1 ?s = Some st0"
    "decided_as st0 = (?s, Some (BlockRef 1 0 0))" using demo_decisions(1) by auto
  then obtain l where l: "try_direct_decide (demo_committer 1) demo_view1 ?s = Some (Commit l)"
    "reference l = BlockRef 1 0 0" by (cases st0) auto
  obtain st where st: "decide_leader_from_anchor (demo_committer 1) demo_view3 ?a ?s = Some st"
    using demo_decisions(2) by auto
  have "\<exists>k. st = Commit k \<and> reference k = reference l"
    by (rule direct_commit_is_final [OF demo_views3(1) _ demo_decisions(4) _ l(1) _ _ st])
      (use demo_decisions(3) demo_views3(2) in
        \<open>simp_all add: committer_for_def demo_committer_def demo_block_def round_of_def\<close>)
  with st l(2) show ?thesis by auto
qed

text \<open>
  C33: with waves of four rounds the direct skip rule is unsafe. The rule counts, one round above the
  leader, the blocks that do not list it; with a longer wave a block may still support the leader through
  an ancestor. Here no authority is faulty and both views are well formed, yet one validator
  skips the leader of round 1 and the other commits its block.
\<close>

theorem four_round_waves_diverge:
  "two_views demo_committee {} 0 slow_view1 slow_view2 \<and>
   base_committer_new demo_context demo_sampler (bc_options four_committer) = Some four_committer \<and>
   map_option (map decided_as) (try_commit four_rounds slow_view1 \<lparr>slot_round = 0, slot_authority = 0\<rparr>)
     = Some [(\<lparr>slot_round = 1, slot_authority = 0\<rparr>, None)] \<and>
   map_option (map decided_as) (try_commit four_rounds slow_view2 \<lparr>slot_round = 0, slot_authority = 0\<rparr>)
     = Some [(\<lparr>slot_round = 1, slot_authority = 0\<rparr>, Some (BlockRef 1 0 0))]"
proof (intro conjI slow_views)
  show "base_committer_new demo_context demo_sampler (bc_options four_committer) = Some four_committer"
    by (simp add: base_committer_new_def four_committer_def MINIMUM_WAVE_LENGTH_def)
qed code_simp+

text \<open>
  the vote cache does not change a certificate. Whatever correct answers the cache holds,
  \<^verbatim>\<open>is_certificate\<close> says yes exactly when the authors of the listed blocks that vote for the leader are a
  quorum, and the cache it leaves is correct again.
\<close>

theorem is_certificate_counts_votes:
  assumes "view_ok c d" and "committee (bc_context bc) = c" and "cache_ok d l cache"
    and "is_certificate bc d b l cache = Some (x, cache')"
  shows "(x \<longleftrightarrow> is_quorum c (br_author ` {r \<in> set (ancestors b). vote_of_ref d l r = Some True})) \<and>
    cache_ok d l cache'"
proof -
  note wf = view_okD(1) [OF assms(1)]
  have count: "certificate_count d c l b = Some x"
    using is_certificate_count(1) [OF assms(3), of bc b] assms(2,4) by simp
  have mem: "\<forall>r \<in> set (ancestors b). vote_of_ref d l r = Some True \<longrightarrow> br_author r \<in> members c"
    using get_block_Some [OF view_okD(2) [OF assms(1)]] author_member [OF assms(1)]
    by (fastforce simp: vote_of_ref_def option_simps)
  have "x \<longleftrightarrow> is_threshold QuorumThreshold c (stake_of c (br_author ` {r \<in> set (ancestors b). vote_of_ref d l r = Some True}))"
    by (rule quorum_agg.count_votes_iff [OF wf no_empty_quorum [OF wf] count [unfolded certificate_count_def] mem])
  moreover have "br_author ` {r \<in> set (ancestors b). vote_of_ref d l r = Some True} \<subseteq> members c" using mem by auto
  ultimately show ?thesis
    using is_certificate_count(2) [OF assms(3,4)] by (simp add: threshold_is_quorum del: is_threshold.simps)
qed

theorem is_certificate_counts_votes_witness:
  "is_quorum demo_committee (br_author ` {r \<in> set (ancestors (demo_block 3 0 (demo_refs 2 [0, 1, 2, 3]))).
     vote_of_ref demo_view1 (demo_block 1 0 (demo_refs 0 [0, 1, 2, 3])) r = Some True})"
proof -
  let ?b = "demo_block 3 0 (demo_refs 2 [0, 1, 2, 3])" and ?l = "demo_block 1 0 (demo_refs 0 [0, 1, 2, 3])"
  obtain cache where c: "is_certificate (demo_committer 1) demo_view1 ?b ?l Map.empty = Some (True, cache)"
    using demo_certificate(1,2) by (metis option.collapse prod.collapse)
  have "view_ok demo_committee demo_view1" using two_viewsD(1) [OF demo_views] .
  from is_certificate_counts_votes [OF this _ cache_ok_empty c] show ?thesis by (simp add: demo_committer_def)
qed

text \<open>
  the early stake check of \<^verbatim>\<open>enough_leader_support\<close> is only an optimisation. While the stake of all
  blocks held fits in 64 bits, the function says yes exactly when the authors of the certificates of
  the decision round are a quorum.
\<close>

theorem enough_leader_support_exact:
  assumes "view_ok c d" and "committer_for c bc" and "r = round_of l + 2"
    and "card (dag_blocks d) * total_stake c < 2 ^ 64"
    and "enough_leader_support bc d r l = Some x"
  shows "x \<longleftrightarrow> is_quorum c (certifiers c d (reference l))"
  by (rule enough_support_iff [OF assms])

lemma demo_support:
  "enough_leader_support (demo_committer 1) demo_view2 3 (demo_block 1 0 (demo_refs 0 [0, 1, 2, 3])) = Some True"
  "length demo_blocks2 = 15"
  by code_simp+

theorem enough_leader_support_exact_witness:
  "is_quorum demo_committee (certifiers demo_committee demo_view2 (BlockRef 1 0 0))"
proof -
  note v2 = demo_dag_view [OF demo_blocks2_ok(1-3), folded demo_view2_def]
  have "card (dag_blocks demo_view2) \<le> 15" using v2(2) card_length [of demo_blocks2] by (simp add: demo_support(2))
  then have "card (dag_blocks demo_view2) * total_stake demo_committee < 2 ^ 64" by (simp add: demo_committee_def)
  from enough_leader_support_exact [OF v2(1) _ _ this demo_support(1)] show ?thesis
    by (simp add: committer_for_def demo_committer_def demo_block_def round_of_def reference_def author_of_def)
qed

section \<open>The DAG\<close>

text \<open>
  the search for the supported block of a slot ends, on every DAG that holds the ancestors above
  the slot, and what it finds is a reference of that slot that the block reaches.
\<close>

theorem find_supported_block_correct:
  assumes "dag_inv d" and "dag_closed d (Suc (slot_round s))" and "b \<in> dag_blocks d"
  shows "\<exists>x. find_supported_block d s b = Some x \<and>
    (\<forall>r. x = Some r \<longrightarrow> slot_of r = s \<and> linked_to (recent_blocks d) (slot_round s) (set (ancestors b)) r)"
proof -
  obtain x where x: "find_supported_block d s b = Some x" using find_supported_block_total [OF assms] by blast
  with find_in_sound [of d s "ancestors b"] show ?thesis
    by (auto simp: find_supported_block_def split: if_splits)
qed

theorem find_supported_block_correct_witness:
  "\<exists>x. find_supported_block slow_view1 \<lparr>slot_round = 1, slot_authority = 0\<rparr> (demo_block 3 0 (demo_refs 2 [0, 1, 2])) = Some x \<and>
    (\<forall>r. x = Some r \<longrightarrow> slot_of r = \<lparr>slot_round = 1, slot_authority = 0\<rparr> \<and>
      linked_to (recent_blocks slow_view1) 1 (set (demo_refs 2 [0, 1, 2])) r)"
proof -
  note v = demo_dag_view [OF slow_blocks1_ok(1-3), folded slow_view1_def]
  have "demo_block 3 0 (demo_refs 2 [0, 1, 2]) \<in> dag_blocks slow_view1"
    unfolding v(2) by (simp add: slow_blocks_def demo_layer_def)
  from find_supported_block_correct [OF view_okD(2) [OF v(1)] dag_closed_mono this, of 0
      "\<lparr>slot_round = 1, slot_authority = 0\<rparr>"] demo_dag_rules(1) [OF v(1,2) slow_blocks1_ok(4)]
  show ?thesis by (simp add: demo_block_def ancestors_def)
qed

text \<open>
  \<^verbatim>\<open>ancestors_at_uncommitted_round\<close> returns exactly the blocks of the earlier round that the later block
  reaches, and it does return when the DAG holds the ancestors from that round on.
\<close>

theorem ancestors_at_round_exact:
  assumes "dag_inv d" and "dag_closed d e" and "b \<in> dag_blocks d"
    and "last_commit_round d < e" and "e < round_of b"
  shows "\<exists>bs. ancestors_at_uncommitted_round d b e = Some bs \<and>
    set bs = {x \<in> dag_blocks d. round_of x = e \<and>
      linked_to (recent_blocks d) e (set (ancestors b)) (reference x)}"
  using ancestors_at_total [OF assms] ancestors_at_SomeD(1) [OF assms(1)] by blast

theorem ancestors_at_round_exact_witness:
  "\<exists>bs. ancestors_at_uncommitted_round slow_view1 (demo_block 4 0 (demo_refs 3 [0, 1, 2])) 2 = Some bs \<and>
    set bs = {x \<in> dag_blocks slow_view1. round_of x = 2 \<and>
      linked_to (recent_blocks slow_view1) 2 (set (demo_refs 3 [0, 1, 2])) (reference x)}"
proof -
  note v = demo_dag_view [OF slow_blocks1_ok(1-3), folded slow_view1_def]
  let ?b = "demo_block 4 0 (demo_refs 3 [0, 1, 2])"
  have b: "?b \<in> dag_blocks slow_view1" unfolding v(2) by (simp add: slow_blocks_def demo_layer_def)
  have "dag_closed slow_view1 2"
    using dag_closed_mono demo_dag_rules(1) [OF v(1,2) slow_blocks1_ok(4)] by blast
  from ancestors_at_round_exact [OF view_okD(2) [OF v(1)] this b] v(4) show ?thesis
    by (simp add: last_commit_round_def demo_block_def ancestors_def round_of_def)
qed

text \<open>
  C34: accepting a block keeps the DAG well formed, and this authority never gets two blocks in one slot. A block of a member
  with ancestors of earlier rounds is refused (the assertion panics) exactly when it is a block of this authority and its slot
  holds a block already; otherwise the new state is well formed and holds the block and all the others.
\<close>

theorem accept_block_preserves_dag:
  assumes "dag_inv d" and "block_ok (committee (ds_context d)) b"
  shows "case accept_block b d of
      None \<Rightarrow> author_of b = own_index (ds_context d) \<and> (\<exists>b' \<in> dag_blocks d. slot_of (reference b') = slot_of (reference b))
    | Some d' \<Rightarrow>
        \<not> (author_of b = own_index (ds_context d) \<and> (\<exists>b' \<in> dag_blocks d. slot_of (reference b') = slot_of (reference b))) \<and>
        dag_inv d' \<and> dag_blocks d' = insert b {b' \<in> dag_blocks d. reference b' \<noteq> reference b} \<and>
        highest_accepted_round d' = max (highest_accepted_round d) (round_of b) \<and> last_commit d' = last_commit d"
proof -
  have "author_of b \<in> members (committee (ds_context d))" using assms(2) by (simp add: block_ok_def)
  note total = accept_block_total [OF assms(1) this]
  show ?thesis
  proof (cases "accept_block b d")
    case None
    with total show ?thesis by auto
  next
    case (Some d')
    with total accept_block_inv [OF assms Some] accept_block_blocks [OF assms(1) Some] accept_block_highest [OF Some]
      accept_block_frame(2) [OF Some] show ?thesis by auto
  qed
qed

text \<open>The empty DAG accepts the own block of round 0, and then refuses another own block of that round.\<close>

theorem accept_block_preserves_dag_witness:
  "\<exists>d'. accept_block (demo_block 0 0 []) demo_empty = Some d' \<and> dag_inv d' \<and> dag_blocks d' = {demo_block 0 0 []} \<and>
    accept_block (demo_block 0 0 (demo_refs 0 [])\<lparr>vb_digest := 1\<rparr>) d' = None"
proof -
  let ?b = "demo_block 0 0 []" let ?b2 = "demo_block 0 0 (demo_refs 0 [])\<lparr>vb_digest := 1\<rparr>"
  have ok: "block_ok demo_committee ?b" "block_ok demo_committee ?b2" by code_simp+
  have same: "slot_of (reference ?b) = slot_of (reference ?b2)" "author_of ?b2 = own_index demo_context" by code_simp+
  note first = accept_block_preserves_dag [OF demo_empty_inv(1), of ?b]
  have ctx: "ds_context demo_empty = demo_context" "dag_blocks demo_empty = {}" by (simp_all add: demo_empty_inv)
  obtain d' where d': "accept_block ?b demo_empty = Some d'" "dag_inv d'" "dag_blocks d' = {?b}"
    using first ok(1) by (auto simp: ctx split: option.splits)
  have ctx': "ds_context d' = demo_context" using accept_block_frame(1) [OF d'(1)] ctx(1) by simp
  have "accept_block ?b2 d' = None"
    using accept_block_preserves_dag [OF d'(2), of ?b2] ok(2) same by (auto simp: ctx' d'(3) split: option.splits)
  with d' show ?thesis by blast
qed

text \<open>
  C35: a restart rebuilds the recent DAG from the store. When the store holds well-formed blocks of members,
  at most one per slot by this authority, \<^verbatim>\<open>DagState::new\<close> on the memory store returns a well-formed state
  with the stored last commit whose blocks are exactly the stored blocks from a hundred rounds below
  their author's last committed round on.
\<close>

theorem dag_state_new_recovers:
  assumes "mem_store_inv st" and "committee_wf (committee ctx)"
    and "\<forall>r b. mem_read st r = Some b \<longrightarrow> block_ok (committee ctx) b"
    and "\<forall>r b r' b'. mem_read st r = Some b \<longrightarrow> mem_read st r' = Some b' \<longrightarrow> author_of b = own_index ctx \<longrightarrow>
      slot_of r = slot_of r' \<longrightarrow> b = b'"
    and "rounds = cached_from ctx (read_last_commit st)" and "length rounds = committee_size (committee ctx)"
    and "\<forall>r \<in> set rounds. r \<le> u32_max"
  shows "\<exists>d. dag_state_new ctx (read_last_commit st) (scan_blocks_by_author st) = Some d \<and> dag_inv d \<and>
    last_commit d = read_last_commit st \<and>
    dag_blocks d = {b. mem_read st (reference b) = Some b \<and> author_of b < committee_size (committee ctx) \<and>
      rounds ! author_of b - CACHED_ROUNDS \<le> round_of b}"
proof -
  have "mem.store_ok ctx st" unfolding mem.store_ok_def using assms(3,4) by blast
  from mem.restores [OF assms(1) this committee_wf_size [OF assms(2)], of "read_last_commit st"] assms(5-7)
  show ?thesis by (simp add: mem.restored_def)
qed

definition demo_store :: mem_store where
  "demo_store = store_write [demo_block 0 0 [], demo_block 0 1 [], demo_block 1 1 (demo_refs 0 [0, 1])] [] mem_store_new"

lemma demo_store_read:
  "mem_read demo_store r = ((Map.empty(BlockRef 0 0 0 \<mapsto> demo_block 0 0 [], BlockRef 0 1 0 \<mapsto> demo_block 0 1 [],
     BlockRef 1 1 0 \<mapsto> demo_block 1 1 (demo_refs 0 [0, 1]))) r)"
  "mem_store_inv demo_store" "read_last_commit demo_store = None"
proof -
  let ?bs = "[demo_block 0 0 [], demo_block 0 1 [], demo_block 1 1 (demo_refs 0 [0, 1])]"
  have f: "mem_read demo_store = mem_read (fold write_block ?bs mem_store_new)"
    "mem_store_inv demo_store = mem_store_inv (fold write_block ?bs mem_store_new)"
    by (simp_all add: demo_store_def store_write_def mem_read_def [abs_def] mem_store_inv_def Let_def)
  have refs: "reference (demo_block x a anc) = BlockRef x a 0" for x a anc
    by (simp add: reference_def demo_block_def round_of_def author_of_def)
  show "mem_read demo_store r = ((Map.empty(BlockRef 0 0 0 \<mapsto> demo_block 0 0 [], BlockRef 0 1 0 \<mapsto> demo_block 0 1 [],
     BlockRef 1 1 0 \<mapsto> demo_block 1 1 (demo_refs 0 [0, 1]))) r)"
    unfolding f(1) by (simp add: mem.read_put mem.inv_put mem.inv_empty refs mem.read_empty)
  show "mem_store_inv demo_store" unfolding f(2) by (rule mem.inv_fold_put [OF mem.inv_empty])
  show "read_last_commit demo_store = None"
    by (simp add: demo_store_def store_write_def write_block_def mem_store_new_def read_last_commit_def Let_def)
qed

lemma demo_store_ok:
  "block_ok demo_committee (demo_block 0 0 [])" "block_ok demo_committee (demo_block 0 1 [])"
  "block_ok demo_committee (demo_block 1 1 (demo_refs 0 [0, 1]))"
  by code_simp+

theorem dag_state_new_recovers_witness:
  "\<exists>d. dag_state_new demo_context (read_last_commit demo_store) (scan_blocks_by_author demo_store) = Some d \<and>
    dag_inv d \<and> demo_block 1 1 (demo_refs 0 [0, 1]) \<in> dag_blocks d"
proof -
  have size: "committee_size demo_committee = 4" by (simp add: committee_size_def demo_committee_def)
  have "\<exists>d. dag_state_new demo_context (read_last_commit demo_store) (scan_blocks_by_author demo_store) = Some d \<and>
    dag_inv d \<and> last_commit d = read_last_commit demo_store \<and>
    dag_blocks d = {b. mem_read demo_store (reference b) = Some b \<and> author_of b < committee_size (committee demo_context) \<and>
      [0, 0, 0, 0] ! author_of b - CACHED_ROUNDS \<le> round_of b}"
  proof (rule dag_state_new_recovers [OF demo_store_read(2)])
    show "\<forall>r b r' b'. mem_read demo_store r = Some b \<longrightarrow> mem_read demo_store r' = Some b' \<longrightarrow>
        author_of b = own_index demo_context \<longrightarrow> slot_of r = slot_of r' \<longrightarrow> b = b'"
      by (auto simp: demo_store_read slot_of_def split: if_splits)
    show "[0, 0, 0, 0] = cached_from demo_context (read_last_commit demo_store)"
      by (simp add: cached_from_def demo_store_read(3) size numeral_eq_Suc)
    show "\<forall>r b. mem_read demo_store r = Some b \<longrightarrow> block_ok (committee demo_context) b"
      using demo_store_ok by (auto simp: demo_store_read simp del: One_nat_def split: if_splits)
  qed (auto simp: demo_committee_wf size)
  then show ?thesis
    by (auto simp: demo_store_read size demo_block_def reference_def round_of_def author_of_def CACHED_ROUNDS_def)
qed

text \<open>
  the memory store returns what was written. After a write of blocks with distinct references, every
  one of them is read back under its reference and reported as contained, and blocks of other references are as before.
\<close>

theorem mem_store_roundtrip:
  assumes "mem_store_inv st" and "distinct (map reference bs)"
  shows "read_blocks (store_write bs cs st) (map reference bs) = map Some bs \<and>
    contains_blocks (store_write bs cs st) (map reference bs) = map (\<lambda>_. True) bs \<and>
    (\<forall>r. r \<notin> reference ` set bs \<longrightarrow> read_blocks (store_write bs cs st) [r] = read_blocks st [r]) \<and>
    mem_store_inv (store_write bs cs st)"
proof -
  let ?st = "store_write bs cs st"
  have f: "mem_read ?st = mem_read (fold write_block bs st)" "mem_store_inv ?st = mem_store_inv (fold write_block bs st)"
    by (simp_all add: store_write_def mem_read_def [abs_def] mem_store_inv_def Let_def)
  have rb: "read_blocks s refs = map (mem_read s) refs" "contains_blocks s refs = map (\<lambda>r. mem_read s r \<noteq> None) refs" for s refs
    by (simp_all add: read_blocks_def contains_blocks_def mem_read_def)
  have w: "mem_read ?st (reference b) = Some b" if "b \<in> set bs" for b
    unfolding f using assms(2) that by (intro mem.read_written [OF assms(1)]) (auto simp: distinct_map inj_on_def)
  have o: "mem_read ?st r = mem_read st r" if "r \<notin> reference ` set bs" for r
  proof -
    have "find (\<lambda>b. reference b = r) (rev bs) = None" using that by (auto simp: find_None_iff)
    then show ?thesis unfolding f mem.read_fold_put [OF assms(1)] by simp
  qed
  show ?thesis using w o mem.inv_fold_put [OF assms(1)] by (auto simp: rb f(2))
qed

theorem mem_store_roundtrip_witness:
  "read_blocks (store_write [demo_block 0 0 [], demo_block 0 1 []] [] mem_store_new) [BlockRef 0 0 0, BlockRef 0 1 0]
     = [Some (demo_block 0 0 []), Some (demo_block 0 1 [])]"
  using mem_store_roundtrip [OF mem.inv_empty, of "[demo_block 0 0 [], demo_block 0 1 []]" "[]"]
  by (simp add: reference_def demo_block_def round_of_def author_of_def)

section \<open>Rounds and leaders\<close>

text \<open>
  C36: the threshold clock refines its specification, in a committee where no authority alone holds a quorum. Started at
  round 0 and fed any list of blocks of committee members below the highest round number, in any order, it does not panic and
  stands at the highest round seen, one more when the authors seen at that round are a quorum. (An authority that
  holds a quorum alone is the exception: see the lemma below.)
\<close>

theorem threshold_clock_refines_spec:
  assumes "committee_wf c" and "no_dictator c"
    and "br_author ` set bs \<subseteq> members c" and "\<forall>b \<in> set bs. br_round b < u32_max"
  shows "\<exists>clk. fold_opt (clock_add_block c now) bs (clock_new 0 t0) = Some clk \<and>
    clock_round clk = clock_spec c bs"
  using clock_run [OF assms(1,2) clock_new_inv [OF assms(1)], of bs now t0] assms(3,4)
  by (auto simp: clock_inv_def)

lemma demo_no_dictator: "no_dictator demo_committee"
  by code_simp

theorem threshold_clock_refines_spec_witness:
  "\<exists>clk. fold_opt (clock_add_block demo_committee 7) (demo_refs 0 [0, 1, 2] @ demo_refs 2 [1, 3, 0]) (clock_new 0 5) = Some clk \<and>
    clock_round clk = clock_spec demo_committee (demo_refs 0 [0, 1, 2] @ demo_refs 2 [1, 3, 0])"
  by (rule threshold_clock_refines_spec [OF demo_committee_wf demo_no_dictator])
    (auto simp: demo_refs_def members_def committee_size_def demo_committee_def u32_max_def)

text \<open>
  With one authority that holds a quorum alone, the clock stays at the round of its block: when a block raises the round,
  \<^verbatim>\<open>add_block\<close> does not look whether its author is a quorum already.
\<close>

lemma dictator_clock_lags:
  assumes "committee_wf c" and "a \<in> members c" and "is_quorum c {a}" and "0 < r"
  shows "\<exists>clk. clock_add_block c now (BlockRef r a x) (clock_new 0 t0) = Some clk \<and> clock_round clk = r \<and>
    clock_spec c [BlockRef r a x] = r + 1"
proof -
  obtain g where g: "agg_add QuorumThreshold (agg_clear agg_new) a c = Some (is_threshold QuorumThreshold c (stake_of c {a}), g)"
    using agg_add_Some [OF assms(1), of "agg_clear agg_new" a QuorumThreshold] assms(2) by auto
  have "authors_at [BlockRef r a x] r = {a}" by (auto simp: authors_at_def)
  with g assms(3,4) show ?thesis by (simp add: clock_add_block_def clock_new_def clock_spec_def)
qed

text \<open>
  the clock never goes back, and more blocks never make it lower. In the specification the clock refines, the
  round after some blocks is at most the round after these and any further ones.
\<close>

theorem threshold_clock_monotone:
  assumes "committee_wf c" and "no_dictator c"
    and "br_author ` set (xs @ ys) \<subseteq> members c" and "\<forall>b \<in> set (xs @ ys). br_round b < u32_max"
    and "fold_opt (clock_add_block c now) xs (clock_new 0 t0) = Some clk"
  shows "\<exists>r clk'. clock_add_blocks c now' ys clk = Some (r, clk') \<and> clock_round clk \<le> clock_round clk' \<and>
    (r = None \<longleftrightarrow> clock_round clk' = clock_round clk)"
proof -
  have i: "clock_inv c xs clk"
    using clock_run [OF assms(1,2) clock_new_inv [OF assms(1)], of xs now t0] assms(3-5) by auto
  obtain clk' where clk': "fold_opt (clock_add_block c now') ys clk = Some clk'" "clock_inv c (xs @ ys) clk'"
    using clock_run [OF assms(1,2) i, of ys now'] assms(3,4) by auto
  have "clock_round clk \<le> clock_round clk'"
    using clock_spec_mono [OF assms(1,3)] i clk'(2) by (simp add: clock_inv_def)
  with clk'(1) show ?thesis by (auto simp: clock_add_blocks_def)
qed

theorem threshold_clock_monotone_witness:
  "\<exists>r clk'. clock_add_blocks demo_committee 9 (demo_refs 0 [0, 1, 2]) (clock_new 0 5) = Some (r, clk') \<and> 0 \<le> clock_round clk' \<and>
    (r = None \<longleftrightarrow> clock_round clk' = clock_round (clock_new 0 5))"
  using threshold_clock_monotone [OF demo_committee_wf demo_no_dictator, of "[]" "demo_refs 0 [0, 1, 2]" 9 5 "clock_new 0 5" 9]
  by (simp add: demo_refs_def members_def committee_size_def demo_committee_def u32_max_def) blast

text \<open>
  committers of different leader offsets elect different leaders. For one round, two different offsets
  below the committee's size give two different members, whatever sample the generator draws.
\<close>

theorem leader_offsets_elect_distinct:
  assumes "committee_wf (committee ctx)" and "sample_spec sample"
    and "schedule_elect_leader sample ctx r i = Some a" and "schedule_elect_leader sample ctx r j = Some b"
    and "i \<noteq> j"
  shows "a \<noteq> b \<and> a \<in> members (committee ctx) \<and> b \<in> members (committee ctx)"
proof -
  let ?c = "committee ctx"
  from assms(3,4) obtain xs where xs: "sample (seed_bytes r)
      (map (\<lambda>(i, a). (i, stake a)) (committee_authorities ?c)) (committee_size ?c) = Some xs"
    and ij: "i < length xs" "j < length xs" "a = map fst xs ! i" "b = map fst xs ! j"
    by (auto simp: schedule_elect_leader_def elect_leader_stake_based_def option_simps Let_def)
  from chosen_members [OF assms(1,2) xs] ij assms(5) have "a \<noteq> b" by (simp add: nth_eq_iff_index_eq del: nth_map)
  with elect_leader_member [OF assms(1,2)] assms(3,4) show ?thesis by blast
qed

theorem leader_offsets_elect_distinct_witness:
  "schedule_elect_leader demo_sampler demo_context 5 1 = Some 1 \<and> schedule_elect_leader demo_sampler demo_context 5 2 = Some 2 \<and>
    (1::nat) \<noteq> 2 \<and> (1::nat) \<in> members demo_committee \<and> (2::nat) \<in> members demo_committee"
proof -
  have "schedule_elect_leader demo_sampler demo_context 5 1 = Some 1" by code_simp
  moreover have "schedule_elect_leader demo_sampler demo_context 5 2 = Some 2" by code_simp
  ultimately show ?thesis
    using leader_offsets_elect_distinct [of demo_context demo_sampler 5 1 1 2 2] demo_committee_wf demo_sampler_spec(1) by simp
qed

text \<open>
  two quorums of a committee share an honest authority. For every committee the constructor builds (with a
  total stake whose double fits in 64 bits) and every set of faulty authorities below the validity
  threshold, two sets that reach the quorum threshold have a common member that is not faulty.
\<close>

theorem quorums_share_an_honest_authority:
  assumes "committee_new ep auths = Some c" and "2 * sum_list (map stake auths) + 2 < 2 ^ 64"
    and "A \<subseteq> members c" and "B \<subseteq> members c"
    and "reached_quorum c (stake_of c A)" and "reached_quorum c (stake_of c B)"
    and "\<not> reached_validity c (stake_of c (F \<inter> members c))"
  shows "\<exists>a. a \<in> A \<and> a \<in> B \<and> a \<notin> F"
proof -
  have "epoch c = ep" "authorities c = auths" using assms(1) by (auto simp: committee_new_def option_simps Let_def)
  then have "committee_wf c" using assms(1,2) by (simp add: committee_wf_def)
  from is_quorum_share_honest [OF this, of A B F] assms(3-7) show ?thesis
    by (simp add: is_quorum_def bft_faulty_def reached_quorum_def reached_validity_def not_le)
qed

theorem quorums_share_an_honest_authority_witness:
  "\<exists>a. a \<in> {0::nat, 1, 2} \<and> a \<in> {1, 2, 3} \<and> a \<notin> {1}"
proof (rule quorums_share_an_honest_authority [of 0 "replicate 4 demo_authority" demo_committee])
  show "committee_new 0 (replicate 4 demo_authority) = Some demo_committee" by code_simp
  show "reached_quorum demo_committee (stake_of demo_committee {0, 1, 2})" by code_simp
  show "reached_quorum demo_committee (stake_of demo_committee {1, 2, 3})" by code_simp
  show "\<not> reached_validity demo_committee (stake_of demo_committee ({1} \<inter> members demo_committee))" by code_simp
  show "2 * sum_list (map stake (replicate 4 demo_authority)) + 2 < 2 ^ 64"
    by (simp add: demo_authority_def sum_list_replicate)
qed (simp_all add: members_def committee_size_def demo_committee_def)

end
