(* ===== verification/TransactionsClient.thy ===== *)
theory TransactionsClient
  imports Block
begin

text \<open>
  \<^verbatim>\<open>consensus/core/src/transactions_client.rs\<close>: transactions go from clients to the proposer through a
  bounded channel. The channel is a first-in first-out queue with a flag for a dropped receiver; a
  send to a full queue waits, which is the result \<open>None\<close> of \<open>submit\<close>. The consumer holds back the
  transaction that did not fit the last block.
\<close>

section \<open>Model\<close>

definition MAX_PENDING_TRANSACTIONS :: nat where
  "MAX_PENDING_TRANSACTIONS = 2000"

definition MAX_CONSUMED_TRANSACTIONS_PER_REQUEST :: nat where
  "MAX_CONSUMED_TRANSACTIONS_PER_REQUEST = 5000"

record channel =
  queue :: "transaction list"
  receiver_dropped :: bool

record transactions_consumer =
  tx_receiver :: channel
  max_consumed_bytes_per_request :: nat
  max_consumed_transactions_per_request :: nat
  pending_transaction :: "transaction option"

definition consumer_new :: "channel \<Rightarrow> consensus_context \<Rightarrow> nat option \<Rightarrow> transactions_consumer" where
  "consumer_new ch ctx limit =
     \<lparr>tx_receiver = ch,
      max_consumed_bytes_per_request = consensus_max_transactions_in_block_bytes ctx,
      max_consumed_transactions_per_request =
        (case limit of Some n \<Rightarrow> n | None \<Rightarrow> MAX_CONSUMED_TRANSACTIONS_PER_REQUEST),
      pending_transaction = None\<rparr>"

text \<open>The loop of \<^verbatim>\<open>next\<close>: the block so far, then the transaction held back and the rest of the queue.\<close>

fun next_loop ::
  "nat \<Rightarrow> nat \<Rightarrow> transaction list \<Rightarrow> nat \<Rightarrow> transaction list \<Rightarrow>
     transaction list \<times> transaction option \<times> transaction list" where
  "next_loop max_bytes max_txs [] total_size acc = (acc, None, [])"
| "next_loop max_bytes max_txs (t # rest) total_size acc =
     (let total_size = add64 total_size (length (data t)) in
      if max_bytes < total_size then (acc, Some t, rest)
      else
        (let acc = acc @ [t] in
         if max_txs \<le> length acc then (acc, None, rest)
         else next_loop max_bytes max_txs rest total_size acc))"

definition consumer_next :: "transactions_consumer \<Rightarrow> transaction list \<times> transactions_consumer" where
  "consumer_next c =
     (let (total_size, acc) =
        (case pending_transaction c of
           Some t \<Rightarrow> (add64 0 (length (data t)), [t])
         | None \<Rightarrow> (0, []));
        (txs, held, rest) =
          next_loop (max_consumed_bytes_per_request c) (max_consumed_transactions_per_request c)
            (queue (tx_receiver c)) total_size acc
      in (txs, c\<lparr>tx_receiver := (tx_receiver c)\<lparr>queue := rest\<rparr>, pending_transaction := held\<rparr>))"

record transactions_client =
  max_transaction_size :: nat

datatype client_error = SubmitError string | OversizedTransaction nat nat

definition client_new :: "consensus_context \<Rightarrow> transactions_client \<times> channel" where
  "client_new ctx =
     (\<lparr>max_transaction_size = consensus_max_transaction_size_bytes ctx\<rparr>,
      \<lparr>queue = [], receiver_dropped = False\<rparr>)"

definition submit ::
  "transactions_client \<Rightarrow> bytes \<Rightarrow> channel \<Rightarrow> ((client_error + unit) \<times> channel) option" where
  "submit cl tx ch =
     (if max_transaction_size cl < length tx
      then Some (Inl (OversizedTransaction (length tx) (max_transaction_size cl)), ch)
      else if receiver_dropped ch then Some (Inl (SubmitError ''channel closed''), ch)
      else if length (queue ch) < MAX_PENDING_TRANSACTIONS
      then Some (Inr (), ch\<lparr>queue := queue ch @ [\<lparr>data = tx\<rparr>]\<rparr>)
      else None)"

section \<open>What a block takes from the queue\<close>

text \<open>The transactions in the consumer's hands, in the order they were submitted.\<close>

definition backlog :: "transactions_consumer \<Rightarrow> transaction list" where
  "backlog c = (case pending_transaction c of Some t \<Rightarrow> [t] | None \<Rightarrow> []) @ queue (tx_receiver c)"

definition tx_bytes :: "transaction list \<Rightarrow> nat" where
  "tx_bytes txs = sum_list (map (length \<circ> data) txs)"

lemma tx_bytes_simps [simp]:
  "tx_bytes [] = 0" "tx_bytes (t # ts) = length (data t) + tx_bytes ts" "tx_bytes (xs @ ys) = tx_bytes xs + tx_bytes ys"
  by (simp_all add: tx_bytes_def)

lemma next_loop_order:
  "next_loop mb mt rx total_size acc = (txs, held, rest) \<Longrightarrow>
    acc @ rx = txs @ (case held of Some t \<Rightarrow> [t] | None \<Rightarrow> []) @ rest"
  by (induction mb mt rx total_size acc rule: next_loop.induct) (auto simp: Let_def split: if_splits)

lemma next_loop_bytes:
  assumes "next_loop mb mt rx (tx_bytes acc) acc = (txs, held, rest)"
    and "tx_bytes acc \<le> mb" and "\<forall>t \<in> set rx. length (data t) \<le> mb" and "2 * mb < 2 ^ 64"
  shows "tx_bytes txs \<le> mb"
  using assms
proof (induction rx arbitrary: acc)
  case (Cons t rx)
  have add: "add64 (tx_bytes acc) (length (data t)) = tx_bytes (acc @ [t])"
    using Cons.prems(2-4) by (simp add: add64_fits)
  from Cons.prems(1) consider "txs = acc" | "txs = acc @ [t]" "tx_bytes (acc @ [t]) \<le> mb"
    | "next_loop mb mt rx (tx_bytes (acc @ [t])) (acc @ [t]) = (txs, held, rest)" "tx_bytes (acc @ [t]) \<le> mb"
    unfolding next_loop.simps add Let_def by (auto split: if_splits)
  then show ?case
  proof cases
    case 3
    from Cons.IH [OF this] Cons.prems(3,4) show ?thesis by simp
  qed (use Cons.prems(2) in simp_all)
qed simp

lemma next_loop_count:
  assumes "next_loop mb mt rx n acc = (txs, held, rest)" and "length acc < mt"
  shows "length txs \<le> mt"
  using assms
proof (induction rx arbitrary: n acc)
  case (Cons t rx)
  from Cons.prems(1) consider "txs = acc" | "txs = acc @ [t]"
    | "next_loop mb mt rx (add64 n (length (data t))) (acc @ [t]) = (txs, held, rest)" "length (acc @ [t]) < mt"
    by (auto simp: Let_def split: if_splits)
  then show ?case
  proof cases
    case 3
    then show ?thesis using Cons.IH by blast
  qed (use Cons.prems(2) in simp_all)
qed simp

lemma next_loop_progress:
  assumes "next_loop mb mt (t # rx) 0 [] = (txs, held, rest)" and "length (data t) \<le> mb" and "mb < 2 ^ 64"
  shows "txs \<noteq> []"
proof -
  have "add64 0 (length (data t)) = length (data t)" using assms(2,3) by (simp add: add64_fits)
  moreover have "acc \<noteq> [] \<Longrightarrow> next_loop mb mt rx n acc = (txs, held, rest) \<Longrightarrow> txs \<noteq> []" for n acc
    by (induction rx arbitrary: n acc) (auto simp: Let_def split: if_splits)
  ultimately show ?thesis using assms by (auto simp: Let_def split: if_splits)
qed

section \<open>The consumer\<close>

definition consumer_ok :: "transactions_consumer \<Rightarrow> bool" where
  "consumer_ok c \<longleftrightarrow> 2 * max_consumed_bytes_per_request c < 2 ^ 64 \<and>
     (\<forall>t \<in> set (backlog c). length (data t) \<le> max_consumed_bytes_per_request c)"

lemma consumer_next_loop:
  assumes "consumer_next c = (txs, c')" and "consumer_ok c"
  shows "\<exists>acc held rest. next_loop (max_consumed_bytes_per_request c) (max_consumed_transactions_per_request c)
      (queue (tx_receiver c)) (tx_bytes acc) acc = (txs, held, rest) \<and>
    acc = (case pending_transaction c of Some t \<Rightarrow> [t] | None \<Rightarrow> []) \<and>
    c' = c\<lparr>tx_receiver := (tx_receiver c)\<lparr>queue := rest\<rparr>, pending_transaction := held\<rparr>"
proof -
  have "add64 0 (length (data t)) = tx_bytes [t]" if "pending_transaction c = Some t" for t
    using assms(2) that by (simp add: consumer_ok_def backlog_def add64_fits)
  with assms(1) show ?thesis
    by (cases "pending_transaction c") (auto simp: consumer_next_def Let_def split: prod.splits)
qed

lemma next_fifo:
  assumes "consumer_next c = (txs, c')" and "consumer_ok c"
  shows "backlog c = txs @ backlog c' \<and> tx_bytes txs \<le> max_consumed_bytes_per_request c \<and>
    (backlog c \<noteq> [] \<longrightarrow> txs \<noteq> []) \<and> consumer_ok c'"
proof -
  obtain acc held rest where run: "next_loop (max_consumed_bytes_per_request c) (max_consumed_transactions_per_request c)
      (queue (tx_receiver c)) (tx_bytes acc) acc = (txs, held, rest)"
    and acc: "acc = (case pending_transaction c of Some t \<Rightarrow> [t] | None \<Rightarrow> [])"
    and c': "c' = c\<lparr>tx_receiver := (tx_receiver c)\<lparr>queue := rest\<rparr>, pending_transaction := held\<rparr>"
    using consumer_next_loop [OF assms] by blast
  have ok: "2 * max_consumed_bytes_per_request c < 2 ^ 64"
    "\<forall>t \<in> set (backlog c). length (data t) \<le> max_consumed_bytes_per_request c"
    using assms(2) by (auto simp: consumer_ok_def)
  have b: "backlog c = acc @ queue (tx_receiver c)" by (simp add: backlog_def acc)
  have order: "backlog c = txs @ backlog c'"
    using next_loop_order [OF run] by (simp add: b) (simp add: c' backlog_def)
  have "tx_bytes acc \<le> max_consumed_bytes_per_request c"
    using ok(2) by (cases "pending_transaction c") (auto simp: acc backlog_def)
  then have bytes: "tx_bytes txs \<le> max_consumed_bytes_per_request c"
    using next_loop_bytes [OF run] ok b by auto
  have "txs \<noteq> []" if ne: "backlog c \<noteq> []"
  proof (cases "queue (tx_receiver c)")
    case Nil
    with run ne b show ?thesis by auto
  next
    case (Cons t rx)
    show ?thesis
    proof (cases "acc = []")
      case True
      with run Cons next_loop_progress [of _ _ t rx txs held rest] ok b show ?thesis by auto
    next
      case False
      have "next_loop mb mt rx n ac = (txs, held, rest) \<Longrightarrow> ac \<noteq> [] \<Longrightarrow> txs \<noteq> []" for mb mt rx n ac
        by (induction mb mt rx n ac rule: next_loop.induct) (auto simp: Let_def split: if_splits)
      with run False show ?thesis by blast
    qed
  qed
  moreover have "consumer_ok c'"
    using ok order by (simp add: consumer_ok_def) (simp add: c')
  ultimately show ?thesis using order bytes by blast
qed

section \<open>Clients and proposer together\<close>

text \<open>Submissions and proposals in any order: the accepted transactions and the blocks taken.\<close>

datatype client_op = Submit bytes | Next

fun tx_run ::
  "transactions_client \<Rightarrow> client_op list \<Rightarrow> transactions_consumer \<Rightarrow>
     transaction list \<times> transaction list list \<times> transactions_consumer" where
  "tx_run cl [] c = ([], [], c)"
| "tx_run cl (Submit tx # ops) c =
     (case submit cl tx (tx_receiver c) of
        Some (Inr _, ch) \<Rightarrow>
          (let (acc, bs, c') = tx_run cl ops (c\<lparr>tx_receiver := ch\<rparr>) in (\<lparr>data = tx\<rparr> # acc, bs, c'))
      | _ \<Rightarrow> tx_run cl ops c)"
| "tx_run cl (Next # ops) c =
     (let (txs, c1) = consumer_next c; (acc, bs, c') = tx_run cl ops c1 in (acc, txs # bs, c'))"

end
