(* ===== verification/Core.thy ===== *)
theory Core
  imports ThresholdClock TransactionsClient "HOL-Library.Sublist"
begin

text \<open>
  The proposer of a validator: \<^verbatim>\<open>consensus/core/src/core.rs\<close> with the block manager of
  \<^verbatim>\<open>block_manager.rs\<close> and the command loop of \<^verbatim>\<open>core_thread.rs\<close>. An \<open>env\<close> holds what a step reads from
  outside: the libraries of \<open>crypto\<close>, the order in which a hash set of references is listed and the time.
\<close>

section \<open>Model\<close>

subsection \<open>The block manager\<close>

record block_manager =
  accepted_blocks :: "block_ref set"

definition block_manager_new :: block_manager where
  "block_manager_new = \<lparr>accepted_blocks = {}\<rparr>"

fun accept_new :: "verified_block list \<Rightarrow> block_manager \<Rightarrow> verified_block list \<times> block_manager" where
  "accept_new [] bm = ([], bm)"
| "accept_new (b # bs) bm =
     (if reference b \<in> accepted_blocks bm then accept_new bs bm
      else
        (let (out, bm') = accept_new bs (bm\<lparr>accepted_blocks := insert (reference b) (accepted_blocks bm)\<rparr>)
         in (b # out, bm')))"

text \<open>\<^verbatim>\<open>sort_by_key\<close> is stable, as is \<open>sort_key\<close>.\<close>

definition manager_add_blocks ::
  "verified_block list \<Rightarrow> block_manager \<Rightarrow> verified_block list \<times> block_manager" where
  "manager_add_blocks bs bm = accept_new (sort_key round_of bs) bm"

subsection \<open>Signals\<close>

text \<open>A watch channel keeps the last value sent; without receivers the send fails and changes nothing.\<close>

record core_signals =
  new_round_sender :: nat
  block_ready_sender :: "block_ref option"
  receivers_alive :: bool

definition signals_new :: core_signals where
  "signals_new = \<lparr>new_round_sender = 0, block_ready_sender = None, receivers_alive = True\<rparr>"

definition new_block_ready :: "block_ref \<Rightarrow> core_signals \<Rightarrow> core_signals" where
  "new_block_ready r s = (if receivers_alive s then s\<lparr>block_ready_sender := Some r\<rparr> else s)"

definition new_round :: "nat \<Rightarrow> core_signals \<Rightarrow> core_signals" where
  "new_round r s = (if receivers_alive s then s\<lparr>new_round_sender := r\<rparr> else s)"

subsection \<open>The core\<close>

record env =
  env_crypto :: crypto
  set_order :: "block_ref list \<Rightarrow> block_ref list"
  now_ms :: nat

record core =
  co_context :: consensus_context
  co_clock :: threshold_clock
  last_proposed_block :: verified_block
  transactions_consumer :: transactions_consumer
  pending_ancestors :: "(nat, verified_block list) btree_map"
  co_manager :: block_manager
  co_signals :: core_signals
  block_signer :: bytes

definition push_pending ::
  "verified_block \<Rightarrow> (nat, verified_block list) btree_map \<Rightarrow> (nat, verified_block list) btree_map" where
  "push_pending b m =
     bt_insert (round_of b) ((case bt_get m (round_of b) of Some bs \<Rightarrow> bs | None \<Rightarrow> []) @ [b]) m"

definition core_new ::
  "env \<Rightarrow> consensus_context \<Rightarrow> transactions_consumer \<Rightarrow> block_manager \<Rightarrow> core_signals \<Rightarrow> bytes \<Rightarrow> core option" where
  "core_new e ctx consumer bm signals key = do {
     (genesis_my, genesis_others) \<leftarrow> block_genesis (env_crypto e) ctx;
     let genesis = genesis_others @ [genesis_my];
     (clk, pending) \<leftarrow> fold_opt
       (\<lambda>b (clk, pending). do {
          clk \<leftarrow> clock_add_block (committee ctx) (now_ms e) (reference b) clk;
          Some (clk, push_pending b pending)
        })
       genesis (clock_new 0 (now_ms e), []);
     Some \<lparr>co_context = ctx, co_clock = clk, last_proposed_block = genesis_my,
           transactions_consumer = consumer, pending_ancestors = pending, co_manager = bm,
           co_signals = new_round (clock_round clk) signals, block_signer = key\<rparr>
   }"

definition last_proposed_round :: "core \<Rightarrow> nat" where
  "last_proposed_round co = round_of (last_proposed_block co)"

definition leaders :: "core \<Rightarrow> nat \<Rightarrow> nat list option" where
  "leaders co r = do {
     let size = committee_size (committee (co_context co)) mod 2 ^ 32;
     rust_assert (size \<noteq> 0);
     Some [r mod size]
   }"

definition last_quorum_leaders_exist :: "core \<Rightarrow> bool option" where
  "last_quorum_leaders_exist co = do {
     let quorum_round = saturating_sub (clock_round (co_clock co)) 1;
     ls \<leftarrow> leaders co quorum_round;
     Some (case bt_get (pending_ancestors co) quorum_round of
             Some bs \<Rightarrow> list_all (\<lambda>l. list_ex (\<lambda>b. br_author (reference b) = l) bs) ls
           | None \<Rightarrow> False)
   }"

definition pending_below :: "nat \<Rightarrow> (nat, verified_block list) btree_map \<Rightarrow> verified_block list" where
  "pending_below r m = concat (map snd (filter (\<lambda>(k, bs). k < r) m))"

text \<open>The hash set of the proposed references is a list without repetitions in the order of \<open>set_order\<close>.\<close>

definition ancestors_to_propose ::
  "env \<Rightarrow> nat \<Rightarrow> nat \<Rightarrow> core \<Rightarrow> (block_ref list \<times> core) option" where
  "ancestors_to_propose e clk_round block_timestamp co = do {
     let ancs = pending_below clk_round (pending_ancestors co);
     rust_assert (list_all (\<lambda>b. timestamp_of b \<le> block_timestamp) ancs);
     let all_ancestors_parents = concat (map ancestors ancs);
     let to_propose = map reference (filter (\<lambda>b. reference b \<notin> set all_ancestors_parents) ancs)
           @ [reference (last_proposed_block co)];
     rust_assert (to_propose \<noteq> []);
     Some (set_order e (remdups to_propose),
           co\<lparr>pending_ancestors := filter (\<lambda>(k, bs). clk_round \<le> k) (pending_ancestors co)\<rparr>)
   }"

text \<open>Signing a block and keeping it as verified.\<close>

definition sign_own_block :: "env \<Rightarrow> core \<Rightarrow> block \<Rightarrow> verified_block option" where
  "sign_own_block e co b = do {
     sb \<leftarrow> expect (signed_block_new (env_crypto e) b (block_signer co));
     expect (new_verified_unserialized (env_crypto e) sb)
   }"

text \<open>The body of \<^verbatim>\<open>try_new_block\<close> once it decided to propose: its steps 1 to 5.\<close>

definition propose_block :: "env \<Rightarrow> nat \<Rightarrow> core \<Rightarrow> (verified_block \<times> core) option" where
  "propose_block e clk_round co = do {
     let now = now_ms e;
     (ancs, co) \<leftarrow> ancestors_to_propose e clk_round now co;
     let (payload, consumer) = consumer_next (transactions_consumer co);
     let co = co\<lparr>transactions_consumer := consumer\<rparr>;
     vb \<leftarrow> sign_own_block e co
       (V1 \<lparr>bv_epoch = epoch (committee (co_context co)), bv_round = clk_round,
            bv_author = own_index (co_context co), bv_timestamp_ms = now,
            bv_ancestors = ancs, bv_transactions = payload\<rparr>);
     clk \<leftarrow> clock_add_block (committee (co_context co)) now (reference vb) (co_clock co);
     let co = co\<lparr>co_clock := clk, pending_ancestors := push_pending vb (pending_ancestors co)\<rparr>;
     let (_, bm) = manager_add_blocks [vb] (co_manager co);
     Some (vb, co\<lparr>co_manager := bm, last_proposed_block := vb,
                  co_signals := new_block_ready (reference vb) (co_signals co)\<rparr>)
   }"

definition try_new_block :: "env \<Rightarrow> bool \<Rightarrow> core \<Rightarrow> (verified_block option \<times> core) option" where
  "try_new_block e ignore_leaders_check co =
     (let clk_round = clock_round (co_clock co) in
      if clk_round \<le> last_proposed_round co then Some (None, co)
      else do {
        ok \<leftarrow> (if ignore_leaders_check then Some True else last_quorum_leaders_exist co);
        if ok then do { (vb, co) \<leftarrow> propose_block e clk_round co; Some (Some vb, co) }
        else Some (None, co)
      })"

definition core_add_blocks :: "env \<Rightarrow> verified_block list \<Rightarrow> core \<Rightarrow> (block_ref list \<times> core) option" where
  "core_add_blocks e bs co = do {
     let (accepted, bm) = manager_add_blocks bs (co_manager co);
     let co = co\<lparr>co_manager := bm\<rparr>;
     (advanced, clk) \<leftarrow> clock_add_blocks (committee (co_context co)) (now_ms e) (map reference accepted) (co_clock co);
     let co = co\<lparr>co_clock := clk\<rparr>;
     let co = (case advanced of
                 Some r \<Rightarrow> co\<lparr>co_signals := new_round r (co_signals co)\<rparr>
               | None \<Rightarrow> co);
     let co = co\<lparr>pending_ancestors := fold push_pending accepted (pending_ancestors co)\<rparr>;
     (_, co) \<leftarrow> try_new_block e False co;
     Some ([], co)
   }"

definition force_new_block :: "env \<Rightarrow> nat \<Rightarrow> core \<Rightarrow> (verified_block option \<times> core) option" where
  "force_new_block e r co =
     (if last_proposed_round co < r then try_new_block e True co else Some (None, co))"

subsection \<open>The core thread\<close>

datatype core_thread_command =
    AddBlocks "verified_block list"
  | ForceNewBlock nat
  | GetMissing

text \<open>What a command sends back.\<close>

datatype core_reply = MissingBlocks "block_ref list" | Done | NoMissing

fun core_thread_step :: "env \<Rightarrow> core_thread_command \<Rightarrow> core \<Rightarrow> (core_reply \<times> core) option" where
  "core_thread_step e (AddBlocks bs) co = do { (missing, co) \<leftarrow> core_add_blocks e bs co; Some (MissingBlocks missing, co) }"
| "core_thread_step e (ForceNewBlock r) co = do { (_, co) \<leftarrow> force_new_block e r co; Some (Done, co) }"
| "core_thread_step e GetMissing co = Some (NoMissing, co)"

fun core_thread_run :: "(env \<times> core_thread_command) list \<Rightarrow> core \<Rightarrow> (core_reply list \<times> core) option" where
  "core_thread_run [] co = Some ([], co)"
| "core_thread_run ((e, c) # cs) co = do {
     (r, co) \<leftarrow> core_thread_step e c co;
     (rs, co) \<leftarrow> core_thread_run cs co;
     Some (r # rs, co)
   }"

text \<open>
  The dispatcher: a call while the thread runs is answered by it; after \<^verbatim>\<open>stop\<close> dropped the only strong
  sender the answer is the shutdown error.
\<close>

datatype core_error = Shutdown

record core_thread =
  thread_running :: bool
  thread_core :: core

definition dispatcher_stop :: "core_thread \<Rightarrow> core_thread" where
  "dispatcher_stop th = th\<lparr>thread_running := False\<rparr>"

definition dispatcher_call ::
  "env \<Rightarrow> core_thread_command \<Rightarrow> core_thread \<Rightarrow> ((core_error + core_reply) \<times> core_thread) option" where
  "dispatcher_call e cmd th =
     (if thread_running th then do {
        (r, co) \<leftarrow> core_thread_step e cmd (thread_core th);
        Some (Inr r, th\<lparr>thread_core := co\<rparr>)
      } else Some (Inl Shutdown, th))"

section \<open>The block manager\<close>

lemma accept_new_spec:
  assumes "accept_new bs bm = (out, bm')"
  shows "accepted_blocks bm' = accepted_blocks bm \<union> reference ` set bs"
    and "reference ` set out = reference ` set bs - accepted_blocks bm"
    and "distinct (map reference out)" and "subseq out bs"
proof -
  have "accepted_blocks bm' = accepted_blocks bm \<union> reference ` set bs \<and>
    reference ` set out = reference ` set bs - accepted_blocks bm \<and> distinct (map reference out) \<and> subseq out bs"
    using assms
  proof (induction bs arbitrary: bm out bm')
    case (Cons b bs)
    show ?case
    proof (cases "reference b \<in> accepted_blocks bm")
      case True
      with Cons.prems have "accept_new bs bm = (out, bm')" by simp
      from Cons.IH [OF this] True show ?thesis by (auto simp: insert_absorb insert_Diff_if intro: list_emb_Cons)
    next
      case False
      let ?bm = "bm\<lparr>accepted_blocks := insert (reference b) (accepted_blocks bm)\<rparr>"
      obtain out1 where o: "accept_new bs ?bm = (out1, bm')" "out = b # out1"
        using Cons.prems False by (cases "accept_new bs ?bm") simp
      note IH = Cons.IH [OF o(1)]
      have "reference b \<notin> reference ` set out1" using IH by simp
      moreover have "insert (reference b) (reference ` set out1) = insert (reference b) (reference ` set bs) - accepted_blocks bm"
        using IH False by (simp add: insert_Diff_if) blast
      ultimately show ?thesis using IH o(2) by simp
    qed
  qed simp
  then show "accepted_blocks bm' = accepted_blocks bm \<union> reference ` set bs"
    "reference ` set out = reference ` set bs - accepted_blocks bm"
    "distinct (map reference out)" "subseq out bs" by blast+
qed

section \<open>Proposals\<close>

lemma expect_Some [option_simps]: "expect r = Some x \<longleftrightarrow> r = Inr x"
  by (cases r) (auto simp: expect_def)

lemma signed_block_new_inner: "signed_block_new cr b k = Inr sb \<Longrightarrow> inner sb = b"
  by (auto simp: signed_block_new_def split: sum.splits)

lemma new_verified_block: "new_verified_unserialized cr sb = Inr vb \<Longrightarrow> vb_block vb = sb"
  by (auto simp: new_verified_unserialized_def new_verified_def split: sum.splits)

text \<open>The references a proposal lists.\<close>

definition proposed_refs :: "nat \<Rightarrow> core \<Rightarrow> block_ref list" where
  "proposed_refs r co =
     (let ancs = pending_below r (pending_ancestors co) in
      map reference (filter (\<lambda>b. reference b \<notin> set (concat (map ancestors ancs))) ancs)
        @ [reference (last_proposed_block co)])"

lemma sign_own_block_inner: "sign_own_block e co b = Some vb \<Longrightarrow> inner (vb_block vb) = b"
  using signed_block_new_inner new_verified_block by (fastforce simp: sign_own_block_def option_simps)

lemma ancestors_to_propose_Some:
  "ancestors_to_propose e r ts co = Some (ancs, co') \<longleftrightarrow>
    (\<forall>b \<in> set (pending_below r (pending_ancestors co)). timestamp_of b \<le> ts) \<and>
    ancs = set_order e (remdups (proposed_refs r co)) \<and>
    co' = co\<lparr>pending_ancestors := filter (\<lambda>(k, bs). r \<le> k) (pending_ancestors co)\<rparr>"
  by (auto simp: ancestors_to_propose_def option_simps Let_def proposed_refs_def list_all_iff)

lemma propose_block_Some:
  assumes "propose_block e R co = Some (vb, co')"
  shows "round_of vb = R" and "author_of vb = own_index (co_context co)"
    and "ancestors vb = set_order e (remdups (proposed_refs R co))"
    and "transactions_of vb = fst (consumer_next (transactions_consumer co))"
    and "transactions_consumer co' = snd (consumer_next (transactions_consumer co))"
    and "last_proposed_block co' = vb" and "co_context co' = co_context co"
    and "pending_ancestors co' = push_pending vb (filter (\<lambda>(k, bs). R \<le> k) (pending_ancestors co))"
    and "\<forall>b \<in> set (pending_below R (pending_ancestors co)). timestamp_of b \<le> timestamp_of vb"
proof -
  obtain payload consumer where n: "consumer_next (transactions_consumer co) = (payload, consumer)" by fastforce
  let ?b = "V1 \<lparr>bv_epoch = epoch (committee (co_context co)), bv_round = R, bv_author = own_index (co_context co),
      bv_timestamp_ms = now_ms e, bv_ancestors = set_order e (remdups (proposed_refs R co)),
      bv_transactions = payload\<rparr>"
  let ?co = "co\<lparr>pending_ancestors := filter (\<lambda>(k, bs). R \<le> k) (pending_ancestors co), transactions_consumer := consumer\<rparr>"
  from assms obtain clk where
    ts: "\<forall>b \<in> set (pending_below R (pending_ancestors co)). timestamp_of b \<le> now_ms e"
    and sb: "sign_own_block e ?co ?b = Some vb"
    and co': "co' = (?co\<lparr>co_clock := clk, pending_ancestors := push_pending vb (pending_ancestors ?co)\<rparr>)
      \<lparr>co_manager := snd (manager_add_blocks [vb] (co_manager co)), last_proposed_block := vb,
       co_signals := new_block_ready (reference vb) (co_signals co)\<rparr>"
    by (auto simp: propose_block_def Let_def n bind_Some_iff ancestors_to_propose_Some case_prod_beta)
  note inner = sign_own_block_inner [OF sb]
  show "round_of vb = R" "author_of vb = own_index (co_context co)"
    "ancestors vb = set_order e (remdups (proposed_refs R co))"
    "transactions_of vb = fst (consumer_next (transactions_consumer co))"
    by (simp_all add: round_of_def author_of_def ancestors_def transactions_of_def inner n)
  show "\<forall>b \<in> set (pending_below R (pending_ancestors co)). timestamp_of b \<le> timestamp_of vb"
    using ts by (simp add: timestamp_of_def [of vb] inner)
  show "transactions_consumer co' = snd (consumer_next (transactions_consumer co))"
    "last_proposed_block co' = vb" "co_context co' = co_context co"
    "pending_ancestors co' = push_pending vb (filter (\<lambda>(k, bs). R \<le> k) (pending_ancestors co))"
    by (simp_all add: n co')
qed

lemma try_new_block_Some:
  assumes "try_new_block e ig co = Some (r, co')"
  shows "case r of None \<Rightarrow> co' = co
    | Some vb \<Rightarrow> last_proposed_round co < clock_round (co_clock co) \<and>
        propose_block e (clock_round (co_clock co)) co = Some (vb, co')"
  using assms by (auto simp: try_new_block_def Let_def bind_Some_iff split: if_splits)

section \<open>Reachable cores\<close>

text \<open>The states a core goes through, one command at a time, whatever the commands and their environment.\<close>

inductive core_reach :: "core \<Rightarrow> core \<Rightarrow> bool" where
  here: "core_reach co co"
| step: "core_reach co co1 \<Longrightarrow> core_thread_step e cmd co1 = Some (r, co2) \<Longrightarrow> core_reach co co2"

text \<open>A command proposes at most one block, of a higher round than the last.\<close>

lemma try_new_block_advances:
  assumes "try_new_block e ig co = Some (r, co')"
  shows "last_proposed_block co' = last_proposed_block co \<or> last_proposed_round co < last_proposed_round co'"
proof (cases r)
  case None
  with try_new_block_Some [OF assms] show ?thesis by simp
next
  case (Some vb)
  with try_new_block_Some [OF assms] propose_block_Some(1,6) show ?thesis
    by (auto simp: last_proposed_round_def)
qed

lemma core_add_blocks_Some:
  assumes "core_add_blocks e bs co = Some (ms, co')"
  shows "\<exists>co1 x accepted bm adv. manager_add_blocks bs (co_manager co) = (accepted, bm) \<and>
    clock_add_blocks (committee (co_context co)) (now_ms e) (map reference accepted) (co_clock co) = Some (adv, co_clock co1) \<and>
    try_new_block e False co1 = Some (x, co') \<and> ms = [] \<and>
    last_proposed_block co1 = last_proposed_block co \<and> co_context co1 = co_context co \<and>
    transactions_consumer co1 = transactions_consumer co \<and>
    pending_ancestors co1 = fold push_pending accepted (pending_ancestors co)"
proof -
  obtain accepted bm where m: "manager_add_blocks bs (co_manager co) = (accepted, bm)" by fastforce
  from assms obtain adv clk where clk:
    "clock_add_blocks (committee (co_context co)) (now_ms e) (map reference accepted) (co_clock co) = Some (adv, clk)"
    by (auto simp: core_add_blocks_def Let_def m bind_Some_iff)
  let ?co = "(case adv of Some r \<Rightarrow> co\<lparr>co_manager := bm, co_clock := clk, co_signals := new_round r (co_signals co)\<rparr>
    | None \<Rightarrow> co\<lparr>co_manager := bm, co_clock := clk\<rparr>)"
  let ?co1 = "?co\<lparr>pending_ancestors := fold push_pending accepted (pending_ancestors ?co)\<rparr>"
  from assms obtain x where "try_new_block e False ?co1 = Some (x, co')" "ms = []"
    by (cases adv) (auto simp: core_add_blocks_def Let_def m clk bind_Some_iff)
  with m clk show ?thesis
    by (intro exI [of _ ?co1] exI [of _ x] exI [of _ accepted] exI [of _ bm] exI [of _ adv]) (cases adv, simp_all)
qed

lemma core_step_advances:
  assumes "core_thread_step e cmd co = Some (r, co')"
  shows "last_proposed_block co' = last_proposed_block co \<or> last_proposed_round co < last_proposed_round co'"
proof (cases cmd)
  case (AddBlocks bs)
  with assms obtain ms where "core_add_blocks e bs co = Some (ms, co')" by (auto simp: bind_Some_iff)
  from core_add_blocks_Some [OF this] obtain co1 x where
    "last_proposed_block co1 = last_proposed_block co" "try_new_block e False co1 = Some (x, co')" by blast
  with try_new_block_advances [of e False co1 x co'] show ?thesis by (simp add: last_proposed_round_def)
next
  case (ForceNewBlock n)
  with assms try_new_block_advances show ?thesis
    by (fastforce simp: force_new_block_def bind_Some_iff split: if_splits)
next
  case GetMissing
  with assms show ?thesis by simp
qed

lemma core_reach_advances:
  "core_reach co co' \<Longrightarrow>
    last_proposed_round co \<le> last_proposed_round co' \<and>
    (last_proposed_round co = last_proposed_round co' \<longrightarrow> last_proposed_block co = last_proposed_block co')"
proof (induction rule: core_reach.induct)
  case (step co co1 e cmd r co2)
  from core_step_advances [OF step.hyps(2)] step.IH show ?case
    by (auto simp: last_proposed_round_def)
qed simp

section \<open>What a proposal references\<close>

text \<open>The pending blocks are filed under their rounds, and list blocks of earlier rounds.\<close>

definition pending_ok :: "core \<Rightarrow> bool" where
  "pending_ok co \<longleftrightarrow> keys_sorted (pending_ancestors co) \<and>
     (\<forall>(k, bs) \<in> set (pending_ancestors co). \<forall>b \<in> set bs. round_of b = k \<and>
        (\<forall>r \<in> set (ancestors b). br_round r < round_of b))"

definition lists_all :: "env \<Rightarrow> bool" where
  "lists_all e \<longleftrightarrow> (\<forall>xs. distinct xs \<longrightarrow> distinct (set_order e xs) \<and> set (set_order e xs) = set xs)"

lemma pending_below_iff:
  "pending_ok co \<Longrightarrow> b \<in> set (pending_below r (pending_ancestors co)) \<longleftrightarrow>
    (\<exists>bs. (round_of b, bs) \<in> set (pending_ancestors co) \<and> b \<in> set bs) \<and> round_of b < r"
  by (fastforce simp: pending_below_def pending_ok_def)

lemma pending_below_earlier:
  "pending_ok co \<Longrightarrow> b \<in> set (pending_below r (pending_ancestors co)) \<Longrightarrow> x \<in> set (ancestors b) \<Longrightarrow>
    br_round x < round_of b"
  by (fastforce simp: pending_below_def pending_ok_def)

lemma set_proposed_refs:
  "set (proposed_refs r co) = insert (reference (last_proposed_block co))
    {reference b |b. b \<in> set (pending_below r (pending_ancestors co)) \<and>
      (\<forall>b' \<in> set (pending_below r (pending_ancestors co)). reference b \<notin> set (ancestors b'))}"
  by (auto simp: proposed_refs_def Let_def)

text \<open>The references reached from a proposal through the pending blocks it covers.\<close>

inductive covered :: "verified_block set \<Rightarrow> block_ref set \<Rightarrow> block_ref \<Rightarrow> bool" for P A where
  direct: "r \<in> A \<Longrightarrow> covered P A r"
| through: "covered P A (reference b) \<Longrightarrow> b \<in> P \<Longrightarrow> r \<in> set (ancestors b) \<Longrightarrow> covered P A r"

lemma pending_covered:
  assumes ok: "pending_ok co" and b: "b \<in> set (pending_below r (pending_ancestors co))"
  shows "covered (set (pending_below r (pending_ancestors co))) (set (proposed_refs r co)) (reference b)"
  using b
proof (induction "r - round_of b" arbitrary: b rule: less_induct)
  case less
  let ?P = "set (pending_below r (pending_ancestors co))"
  show ?case
  proof (cases "\<exists>b' \<in> ?P. reference b \<in> set (ancestors b')")
    case False
    with less.prems have "reference b \<in> set (proposed_refs r co)" by (auto simp: set_proposed_refs)
    then show ?thesis by (rule covered.direct)
  next
    case True
    then obtain b' where b': "b' \<in> ?P" "reference b \<in> set (ancestors b')" by blast
    have "round_of b < round_of b'" using pending_below_earlier [OF ok b'] by simp
    moreover have "round_of b' < r" using b'(1) pending_below_iff [OF ok] by blast
    ultimately have "r - round_of b' < r - round_of b" by simp
    from covered.through [OF less.hyps [OF this b'(1)] b'] show ?thesis .
  qed
qed

lemma previous_round_listed:
  assumes ok: "pending_ok co" and b: "b \<in> set (pending_below r (pending_ancestors co))" and r: "round_of b = r - 1"
  shows "reference b \<in> set (proposed_refs r co)"
proof -
  have "reference b \<notin> set (ancestors b')" if b': "b' \<in> set (pending_below r (pending_ancestors co))" for b'
  proof
    assume "reference b \<in> set (ancestors b')"
    from pending_below_earlier [OF ok b' this] have "round_of b < round_of b'" by simp
    moreover have "round_of b' < r" using b' pending_below_iff [OF ok] by blast
    ultimately show False using r by simp
  qed
  with b show ?thesis by (auto simp: set_proposed_refs)
qed

lemma proposed_refs_earlier:
  assumes "pending_ok co" and "last_proposed_round co < r" and "x \<in> set (proposed_refs r co)"
  shows "br_round x < r"
  using assms pending_below_iff [OF assms(1)] by (auto simp: set_proposed_refs last_proposed_round_def)

section \<open>The pending blocks stay filed\<close>

definition earlier_ancestors :: "verified_block \<Rightarrow> bool" where
  "earlier_ancestors b \<longleftrightarrow> (\<forall>r \<in> set (ancestors b). br_round r < round_of b)"

definition pending_map_ok :: "(nat, verified_block list) btree_map \<Rightarrow> bool" where
  "pending_map_ok m \<longleftrightarrow> keys_sorted m \<and>
     (\<forall>(k, bs) \<in> set m. \<forall>b \<in> set bs. round_of b = k \<and> earlier_ancestors b)"

lemma pending_ok_map: "pending_ok co \<longleftrightarrow> pending_map_ok (pending_ancestors co)"
  by (simp add: pending_ok_def pending_map_ok_def earlier_ancestors_def)

lemma push_pending_ok:
  assumes "pending_map_ok m" and "earlier_ancestors b"
  shows "pending_map_ok (push_pending b m)"
proof -
  have s: "keys_sorted m" using assms(1) by (simp add: pending_map_ok_def)
  have old: "round_of x = round_of b \<and> earlier_ancestors x"
    if "x \<in> set (case bt_get m (round_of b) of Some bs \<Rightarrow> bs | None \<Rightarrow> [])" for x
  proof (cases "bt_get m (round_of b)")
    case (Some bs)
    then have "(round_of b, bs) \<in> set m" using bt_get_in_set [OF s] by blast
    with assms(1) that Some show ?thesis by (auto simp: pending_map_ok_def)
  qed (use that in simp)
  let ?old = "case bt_get m (round_of b) of Some bs \<Rightarrow> bs | None \<Rightarrow> []"
  show ?thesis
    unfolding pending_map_ok_def
  proof (intro conjI ballI)
    show "keys_sorted (push_pending b m)" using s by (simp add: push_pending_def)
    fix e assume "e \<in> set (push_pending b m)"
    then consider "e = (round_of b, ?old @ [b])" | "e \<in> set m" by (auto simp: push_pending_def set_bt_insert [OF s])
    then show "case e of (k, bs) \<Rightarrow> \<forall>b \<in> set bs. round_of b = k \<and> earlier_ancestors b"
    proof cases
      case 1
      with old assms(2) show ?thesis by simp
    next
      case 2
      with assms(1) show ?thesis unfolding pending_map_ok_def by blast
    qed
  qed
qed

lemma fold_push_pending_ok:
  "pending_map_ok m \<Longrightarrow> \<forall>b \<in> set bs. earlier_ancestors b \<Longrightarrow> pending_map_ok (fold push_pending bs m)"
  by (induction bs arbitrary: m) (auto simp: push_pending_ok)

lemma filter_pending_ok: "pending_map_ok m \<Longrightarrow> pending_map_ok (filter P m)"
  by (auto simp: pending_map_ok_def sorted_wrt_filter sorted_wrt_map)

lemma proposal_earlier:
  assumes "propose_block e R co = Some (vb, co')" and "pending_ok co" and "lists_all e" and "last_proposed_round co < R"
  shows "earlier_ancestors vb"
proof -
  have "set (ancestors vb) = set (proposed_refs R co)"
    using propose_block_Some(3) [OF assms(1)] assms(3) by (simp add: lists_all_def)
  with proposed_refs_earlier [OF assms(2,4)] propose_block_Some(1) [OF assms(1)] show ?thesis
    by (simp add: earlier_ancestors_def)
qed

lemma try_new_block_pending_ok:
  assumes "try_new_block e ig co = Some (r, co')" and "pending_ok co" and "lists_all e"
  shows "pending_ok co'"
proof (cases r)
  case None
  with try_new_block_Some [OF assms(1)] assms(2) show ?thesis by simp
next
  case (Some vb)
  with try_new_block_Some [OF assms(1)] have p: "propose_block e (clock_round (co_clock co)) co = Some (vb, co')"
    and l: "last_proposed_round co < clock_round (co_clock co)" by auto
  from propose_block_Some(8) [OF p] proposal_earlier [OF p assms(2,3) l] assms(2) show ?thesis
    by (simp add: pending_ok_map push_pending_ok filter_pending_ok)
qed

fun command_ok :: "core_thread_command \<Rightarrow> bool" where
  "command_ok (AddBlocks bs) \<longleftrightarrow> (\<forall>b \<in> set bs. earlier_ancestors b)"
| "command_ok (ForceNewBlock r) \<longleftrightarrow> True"
| "command_ok GetMissing \<longleftrightarrow> True"

lemma manager_add_blocks_subset: "manager_add_blocks bs bm = (out, bm') \<Longrightarrow> set out \<subseteq> set bs"
proof -
  assume "manager_add_blocks bs bm = (out, bm')"
  then have "subseq out (sort_key round_of bs)" unfolding manager_add_blocks_def by (rule accept_new_spec(4))
  from list_emb_set [OF this] show ?thesis by force
qed

lemma core_step_pending_ok:
  assumes "core_thread_step e cmd co = Some (r, co')" and "pending_ok co" and "lists_all e" and "command_ok cmd"
  shows "pending_ok co'"
proof (cases cmd)
  case (AddBlocks bs)
  with assms(1) obtain ms where "core_add_blocks e bs co = Some (ms, co')" by (auto simp: bind_Some_iff)
  from core_add_blocks_Some [OF this] obtain co1 x accepted bm where
    m: "manager_add_blocks bs (co_manager co) = (accepted, bm)" and t: "try_new_block e False co1 = Some (x, co')"
    and p: "pending_ancestors co1 = fold push_pending accepted (pending_ancestors co)" by blast
  have "\<forall>b \<in> set accepted. earlier_ancestors b"
    using manager_add_blocks_subset [OF m] assms(4) AddBlocks by auto
  then have "pending_ok co1" using assms(2) p by (simp add: pending_ok_map fold_push_pending_ok)
  from try_new_block_pending_ok [OF t this assms(3)] show ?thesis .
next
  case (ForceNewBlock n)
  with assms try_new_block_pending_ok show ?thesis
    by (fastforce simp: force_new_block_def bind_Some_iff split: if_splits)
next
  case GetMissing
  with assms show ?thesis by simp
qed

lemma core_run_pending_ok:
  "core_thread_run cs co = Some (rs, co') \<Longrightarrow> pending_ok co \<Longrightarrow>
    \<forall>(e, cmd) \<in> set cs. lists_all e \<and> command_ok cmd \<Longrightarrow> pending_ok co'"
proof (induction cs co arbitrary: rs rule: core_thread_run.induct)
  case (2 e c cs co)
  from 2(2) obtain r co1 rs1 where s: "core_thread_step e c co = Some (r, co1)"
    "core_thread_run cs co1 = Some (rs1, co')" by (auto simp: bind_Some_iff)
  have "pending_ok co1" using core_step_pending_ok [OF s(1) 2(3)] 2(4) by auto
  with 2(1) [OF s(1) refl s(2)] 2(4) show ?case by auto
qed simp

lemma genesis_no_ancestors:
  assumes "block_genesis cr ctx = Some (m, others)" and "b \<in> set (others @ [m])"
  shows "ancestors b = [] \<and> round_of b = 0"
proof -
  let ?mk = "\<lambda>(i, a). expect (new_verified_unserialized cr
      (signed_block_new_genesis (V1 (block_v1_genesis i (epoch (committee ctx))))))"
  from assms(1) obtain bs where bs: "map_opt ?mk (committee_authorities (committee ctx)) = Some bs"
    and sub: "set (others @ [m]) \<subseteq> set bs"
  proof -
    from assms(1) obtain bs where bs: "map_opt ?mk (committee_authorities (committee ctx)) = Some bs"
      and my: "index (filter (\<lambda>b. author_of b = own_index ctx) bs) 0 = Some m"
      and others: "others = filter (\<lambda>b. author_of b \<noteq> own_index ctx) bs"
      by (auto simp: block_genesis_def bind_Some_iff Let_def)
    from my have "m \<in> set (filter (\<lambda>b. author_of b = own_index ctx) bs)"
      using nth_mem by (fastforce simp: index_Some)
    with bs others that [of bs] show ?thesis by auto
  qed
  from bs have "bs = map (the \<circ> ?mk) (committee_authorities (committee ctx))"
    and "\<forall>x \<in> set (committee_authorities (committee ctx)). ?mk x \<noteq> None" by (auto simp: map_opt_Some_iff)
  with sub assms(2) obtain i a where "?mk (i, a) = Some b" by force
  then have "vb_block b = signed_block_new_genesis (V1 (block_v1_genesis i (epoch (committee ctx))))"
    using new_verified_block by (auto simp: expect_Some)
  then show ?thesis
    by (simp add: ancestors_def round_of_def signed_block_new_genesis_def block_v1_genesis_def genesis_round_def)
qed

lemma core_new_pending_ok:
  assumes "core_new e ctx consumer bm signals key = Some co"
  shows "pending_ok co \<and> last_proposed_round co = 0 \<and> co_context co = ctx"
proof -
  from assms obtain m others clk pending where g: "block_genesis (env_crypto e) ctx = Some (m, others)"
    and f: "fold_opt (\<lambda>b (clk, pending). Option.bind (clock_add_block (committee ctx) (now_ms e) (reference b) clk)
        (\<lambda>clk. Some (clk, push_pending b pending))) (others @ [m]) (clock_new 0 (now_ms e), []) = Some (clk, pending)"
    and co: "pending_ancestors co = pending" "last_proposed_block co = m" "co_context co = ctx"
    by (auto simp: core_new_def bind_Some_iff Let_def)
  have "pending_map_ok (snd (clk, pending))"
    by (rule fold_opt_invariant [OF f, where I = "\<lambda>cp. pending_map_ok (snd cp)"])
      (use genesis_no_ancestors [OF g] in
        \<open>auto simp: pending_map_ok_def [of "[]"] bind_Some_iff earlier_ancestors_def intro!: push_pending_ok\<close>)
  with co genesis_no_ancestors [OF g, of m] show ?thesis by (simp add: pending_ok_map last_proposed_round_def)
qed

section \<open>Blocks from the future\<close>

text \<open>A block that waits to be referenced, with the map of pending blocks in order.\<close>

definition holds_pending :: "verified_block \<Rightarrow> (nat, verified_block list) btree_map \<Rightarrow> bool" where
  "holds_pending b m \<longleftrightarrow> keys_sorted m \<and> (\<exists>bs. (round_of b, bs) \<in> set m \<and> b \<in> set bs)"

lemma keys_sorted_push: "keys_sorted m \<Longrightarrow> keys_sorted (push_pending b m)"
  by (simp add: push_pending_def)

lemma push_pending_holds:
  "holds_pending b m \<Longrightarrow> holds_pending b (push_pending x m)" "keys_sorted m \<Longrightarrow> holds_pending b (push_pending b m)"
proof -
  show "holds_pending b (push_pending b m)" if "keys_sorted m"
    using that by (auto simp: holds_pending_def push_pending_def set_bt_insert)
  assume h: "holds_pending b m"
  then have s: "keys_sorted m" by (simp add: holds_pending_def)
  obtain bs where bs: "(round_of b, bs) \<in> set m" "b \<in> set bs" using h by (auto simp: holds_pending_def)
  then have get: "bt_get m (round_of b) = Some bs" using bt_get_in_set [OF s] by blast
  show "holds_pending b (push_pending x m)"
  proof (cases "round_of x = round_of b")
    case True
    with s bs(2) get show ?thesis by (auto simp: holds_pending_def push_pending_def set_bt_insert)
  next
    case False
    with s bs show ?thesis by (fastforce simp: holds_pending_def push_pending_def set_bt_insert)
  qed
qed

lemma fold_push_pending_holds:
  "keys_sorted m \<Longrightarrow> holds_pending b m \<or> b \<in> set bs \<Longrightarrow> holds_pending b (fold push_pending bs m)"
proof (induction bs arbitrary: m)
  case (Cons x bs)
  have "holds_pending b (push_pending x m) \<or> b \<in> set bs" using Cons.prems push_pending_holds by auto
  with Cons.IH [OF keys_sorted_push [OF Cons.prems(1)]] show ?case by simp
qed simp

lemma filter_holds: "holds_pending b m \<Longrightarrow> R \<le> round_of b \<Longrightarrow> holds_pending b (filter (\<lambda>(k, bs). R \<le> k) m)"
  by (auto simp: holds_pending_def sorted_wrt_filter sorted_wrt_map)

text \<open>Before its time has come, no block of a later round than the pending one can be proposed.\<close>

lemma future_block_refused:
  assumes "holds_pending b (pending_ancestors co)" and "now_ms e < timestamp_of b" and "round_of b < R"
  shows "propose_block e R co = None"
proof -
  have "b \<in> set (pending_below R (pending_ancestors co))" using assms(1,3) by (fastforce simp: holds_pending_def pending_below_def)
  with assms(2) have "\<not> list_all (\<lambda>b. timestamp_of b \<le> now_ms e) (pending_below R (pending_ancestors co))"
    by (auto simp: list_all_iff not_le)
  then show ?thesis by (simp add: propose_block_def ancestors_to_propose_def Let_def)
qed

definition stalled :: "verified_block \<Rightarrow> nat \<Rightarrow> core \<Rightarrow> bool" where
  "stalled b R co \<longleftrightarrow> holds_pending b (pending_ancestors co) \<and> last_proposed_round co \<le> max R (round_of b)"

lemma try_new_block_stalled:
  assumes "stalled b R co" and "now_ms e < timestamp_of b" and "try_new_block e ig co = Some (r, co')"
  shows "stalled b R co'"
proof (cases r)
  case None
  with try_new_block_Some [OF assms(3)] assms(1) show ?thesis by simp
next
  case (Some vb)
  let ?R = "clock_round (co_clock co)"
  have h: "holds_pending b (pending_ancestors co)" using assms(1) by (simp add: stalled_def)
  have p: "propose_block e ?R co = Some (vb, co')" using try_new_block_Some [OF assms(3)] Some by auto
  then have "?R \<le> round_of b" using future_block_refused [OF h assms(2), of ?R] by fastforce
  with propose_block_Some(1,6,8) [OF p] filter_holds [OF h] push_pending_holds(1) show ?thesis
    by (simp add: stalled_def last_proposed_round_def)
qed

lemma core_add_blocks_stalled:
  assumes "core_add_blocks e bs co = Some (ms, co')" and "now_ms e < timestamp_of b" and "last_proposed_round co \<le> max R (round_of b)"
    and "keys_sorted (pending_ancestors co)"
    and "holds_pending b (pending_ancestors co) \<or>
      b \<in> set bs \<and> distinct (map reference bs) \<and> reference b \<notin> accepted_blocks (co_manager co)"
  shows "stalled b R co'"
proof -
  obtain co1 x accepted bm where
    m: "manager_add_blocks bs (co_manager co) = (accepted, bm)" and t: "try_new_block e False co1 = Some (x, co')"
    and p: "pending_ancestors co1 = fold push_pending accepted (pending_ancestors co)"
    and l: "last_proposed_block co1 = last_proposed_block co"
    using core_add_blocks_Some [OF assms(1)] by blast
  have new: "b \<in> set accepted" if b: "b \<in> set bs" "distinct (map reference bs)" "reference b \<notin> accepted_blocks (co_manager co)"
  proof -
    note a = accept_new_spec(2) [OF m [unfolded manager_add_blocks_def]]
    have "reference b \<in> reference ` set accepted" unfolding a using b(1,3) by simp
    then obtain b' where b': "b' \<in> set accepted" "reference b' = reference b" by force
    moreover have "b' \<in> set bs" using manager_add_blocks_subset [OF m] b'(1) by blast
    ultimately show ?thesis using b(1,2) by (auto simp: distinct_map dest: inj_onD)
  qed
  have "holds_pending b (pending_ancestors co1)"
    unfolding p by (rule fold_push_pending_holds [OF assms(4)]) (use assms(5) new in blast)
  with l assms(3) have "stalled b R co1" by (simp add: stalled_def last_proposed_round_def)
  from try_new_block_stalled [OF this assms(2) t] show ?thesis .
qed

lemma core_run_stalled:
  "core_thread_run cs co = Some (rs, co') \<Longrightarrow> stalled b R co \<Longrightarrow> \<forall>(e, cmd) \<in> set cs. now_ms e < timestamp_of b \<Longrightarrow> stalled b R co'"
proof (induction cs co arbitrary: rs rule: core_thread_run.induct)
  case (2 e c cs co)
  obtain r co1 rs1 where s: "core_thread_step e c co = Some (r, co1)" "core_thread_run cs co1 = Some (rs1, co')"
    using "2.prems"(1) by (auto simp: bind_Some_iff)
  have now: "now_ms e < timestamp_of b" using "2.prems"(3) by simp
  have "stalled b R co1"
  proof (cases c)
    case (AddBlocks bs)
    with s(1) obtain ms where add: "core_add_blocks e bs co = Some (ms, co1)" by (auto simp: bind_Some_iff)
    show ?thesis by (rule core_add_blocks_stalled [OF add now]) (use "2.prems"(2) in \<open>simp_all add: stalled_def holds_pending_def\<close>)
  next
    case (ForceNewBlock n)
    with s(1) try_new_block_stalled [OF "2.prems"(2) now] "2.prems"(2) show ?thesis
      by (auto simp: force_new_block_def bind_Some_iff split: if_splits)
  qed (use s(1) "2.prems"(2) in simp)
  with "2.IH" [OF s(1) refl s(2)] "2.prems"(3) show ?case by simp
qed simp

end
