(* ===== verification/LeaderTimeout.thy ===== *)
theory LeaderTimeout
  imports Core
begin

text \<open>
  \<^verbatim>\<open>consensus/core/src/leader_timeout.rs\<close>: the task that forces a proposal when a round lasts too long.
  The loop over \<^verbatim>\<open>tokio::select!\<close> is a step relation: each iteration takes one of the branches that
  are ready. Time is a number of milliseconds; an event carries the time it happens.
\<close>

section \<open>Model\<close>

record timeout_task =
  tt_leader_round :: nat
  leader_round_timed_out :: bool
  deadline :: nat
  tt_leader_timeout :: nat
  stopped :: bool

definition timeout_start :: "consensus_context \<Rightarrow> nat \<Rightarrow> nat \<Rightarrow> timeout_task" where
  "timeout_start ctx watched_round now =
     \<lparr>tt_leader_round = watched_round, leader_round_timed_out = False,
      deadline = now + leader_timeout ctx, tt_leader_timeout = leader_timeout ctx, stopped = False\<rparr>"

text \<open>
  The branches: the timer fires and the dispatcher answers (\<open>ForceOk\<close>) or reports its shutdown
  (\<open>ForceErr\<close>, after which the task ends); a new round is announced; the stop signal arrives.
\<close>

datatype timeout_event = ForceOk nat | ForceErr nat | NewRound nat | StopSignal

inductive timeout_step :: "nat \<Rightarrow> timeout_task \<Rightarrow> timeout_event \<Rightarrow> timeout_task \<Rightarrow> bool" where
  fire_ok: "\<not> stopped t \<Longrightarrow> \<not> leader_round_timed_out t \<Longrightarrow> deadline t \<le> now \<Longrightarrow>
    timeout_step now t (ForceOk (tt_leader_round t)) (t\<lparr>leader_round_timed_out := True\<rparr>)"
| fire_err: "\<not> stopped t \<Longrightarrow> \<not> leader_round_timed_out t \<Longrightarrow> deadline t \<le> now \<Longrightarrow>
    timeout_step now t (ForceErr (tt_leader_round t)) (t\<lparr>stopped := True\<rparr>)"
| new_round: "\<not> stopped t \<Longrightarrow>
    timeout_step now t (NewRound r)
      (t\<lparr>tt_leader_round := r, leader_round_timed_out := False, deadline := now + tt_leader_timeout t\<rparr>)"
| stop: "\<not> stopped t \<Longrightarrow> timeout_step now t StopSignal (t\<lparr>stopped := True\<rparr>)"

inductive_cases timeout_step_ForceOkE: "timeout_step now t (ForceOk r) t'"
inductive_cases timeout_step_NewRoundE: "timeout_step now t (NewRound r) t'"
inductive_simps timeout_step_iff: "timeout_step now t ev t'"

text \<open>A run of the task: timed events in order.\<close>

inductive timeout_run :: "timeout_task \<Rightarrow> (nat \<times> timeout_event) list \<Rightarrow> timeout_task \<Rightarrow> bool" for t where
  nil: "timeout_run t [] t"
| snoc: "timeout_run t evs t1 \<Longrightarrow> timeout_step now t1 ev t2 \<Longrightarrow> timeout_run t (evs @ [(now, ev)]) t2"

section \<open>Invariant of a run\<close>

text \<open>The events since the last announcement, and when the timer was last set.\<close>

definition is_new_round :: "nat \<times> timeout_event \<Rightarrow> bool" where
  "is_new_round e \<longleftrightarrow> (case snd e of NewRound r \<Rightarrow> True | _ \<Rightarrow> False)"

definition is_force :: "nat \<times> timeout_event \<Rightarrow> bool" where
  "is_force e \<longleftrightarrow> (case snd e of ForceOk r \<Rightarrow> True | ForceErr r \<Rightarrow> True | _ \<Rightarrow> False)"

definition since_round :: "(nat \<times> timeout_event) list \<Rightarrow> (nat \<times> timeout_event) list" where
  "since_round evs = rev (takeWhile (\<lambda>e. \<not> is_new_round e) (rev evs))"

definition round_start :: "nat \<Rightarrow> (nat \<times> timeout_event) list \<Rightarrow> nat" where
  "round_start now0 evs =
     (case dropWhile (\<lambda>e. \<not> is_new_round e) (rev evs) of [] \<Rightarrow> now0 | e # _ \<Rightarrow> fst e)"

definition current_round :: "nat \<Rightarrow> (nat \<times> timeout_event) list \<Rightarrow> nat" where
  "current_round r0 evs =
     (case dropWhile (\<lambda>e. \<not> is_new_round e) (rev evs) of
        (_, NewRound r) # _ \<Rightarrow> r | _ \<Rightarrow> r0)"

lemma since_round_snoc:
  "since_round (evs @ [e]) = (if is_new_round e then [] else since_round evs @ [e])"
  by (simp add: since_round_def)

lemma round_start_snoc:
  "round_start n (evs @ [e]) = (if is_new_round e then fst e else round_start n evs)"
  by (simp add: round_start_def)

lemma current_round_snoc:
  "current_round n (evs @ [e]) = (case snd e of NewRound r \<Rightarrow> r | _ \<Rightarrow> current_round n evs)"
  by (cases e) (auto simp: current_round_def is_new_round_def split: timeout_event.splits)

lemma timeout_run_inv:
  assumes "timeout_run (timeout_start ctx r0 now0) evs t"
  shows "tt_leader_timeout t = leader_timeout ctx \<and> tt_leader_round t = current_round r0 evs \<and>
    deadline t = round_start now0 evs + leader_timeout ctx \<and>
    length (filter is_force (since_round evs)) \<le> (if leader_round_timed_out t \<or> stopped t then 1 else 0)"
  using assms
proof induction
  case nil
  show ?case by (simp add: timeout_start_def current_round_def round_start_def since_round_def)
next
  case (snoc evs t1 now ev t2)
  from snoc.hyps(2) snoc.IH show ?case
    by (cases rule: timeout_step.cases)
      (simp_all add: since_round_snoc round_start_snoc current_round_snoc is_new_round_def is_force_def split: if_splits)
qed

lemma timeout_run_snocE:
  assumes "timeout_run t (evs @ [(now, ev)]) t2"
  obtains t1 where "timeout_run t evs t1" "timeout_step now t1 ev t2"
  using assms by (cases rule: timeout_run.cases) auto

lemma timeout_run_prefix:
  "timeout_run t (xs @ ys) t2 \<Longrightarrow> \<exists>t1. timeout_run t xs t1"
proof (induction ys arbitrary: t2 rule: rev_induct)
  case (snoc y ys)
  obtain now ev where y: "y = (now, ev)" by fastforce
  from snoc.prems obtain t1 where "timeout_run t (xs @ ys) t1"
    unfolding y append_assoc [symmetric] by (rule timeout_run_snocE)
  with snoc.IH show ?case by blast
qed auto

end
