(* ===== verification/CoreProperties.thy ===== *)
theory CoreProperties
  imports Scenario LeaderTimeout
begin

text \<open>
  The properties of the proposer: what it takes from the queue, what its blocks reference, that it never
  proposes twice for a round, and when the leader timeout forces it.
\<close>

section \<open>Transactions\<close>

text \<open>
  no transaction is lost, repeated or reordered between the clients and the blocks. What
  \<^verbatim>\<open>next\<close> returns followed by what the consumer still holds is what it held before, in order;
  the bytes returned stay within the block limit when every transaction alone does; and something is
  returned when anything was waiting.
\<close>

theorem consumer_next_fifo:
  assumes "consumer_next c = (txs, c')" and "consumer_ok c"
  shows "backlog c = txs @ backlog c' \<and> tx_bytes txs \<le> max_consumed_bytes_per_request c \<and>
    (backlog c \<noteq> [] \<longrightarrow> txs \<noteq> []) \<and> consumer_ok c'"
  by (rule next_fifo [OF assms])

definition demo_consumer :: transactions_consumer where
  "demo_consumer = \<lparr>tx_receiver = \<lparr>queue = [\<lparr>data = [1, 2, 3]\<rparr>, \<lparr>data = [4, 5]\<rparr>, \<lparr>data = [6]\<rparr>], receiver_dropped = False\<rparr>,
     max_consumed_bytes_per_request = 4, max_consumed_transactions_per_request = 5, pending_transaction = None\<rparr>"

theorem consumer_next_fifo_witness:
  "fst (consumer_next demo_consumer) = [\<lparr>data = [1, 2, 3]\<rparr>] \<and>
    backlog demo_consumer = fst (consumer_next demo_consumer) @ backlog (snd (consumer_next demo_consumer))"
proof -
  have "consumer_ok demo_consumer" by (simp add: consumer_ok_def demo_consumer_def backlog_def)
  from consumer_next_fifo [OF _ this, of "fst (consumer_next demo_consumer)" "snd (consumer_next demo_consumer)"]
  show ?thesis
    by (simp add: consumer_next_def demo_consumer_def Let_def add64_def)
qed

text \<open>
  C38: end to end, in any interleaving of submissions and proposals, the blocks taken together with what is still
  waiting are the accepted transactions in their order of submission, and no block exceeds the
  byte limit, provided the client's size limit is at most the block's.
\<close>

theorem transactions_end_to_end:
  assumes "tx_run cl ops c = (accepted, blks, c')" and "consumer_ok c"
    and "max_transaction_size cl \<le> max_consumed_bytes_per_request c"
  shows "backlog c @ accepted = concat blks @ backlog c' \<and>
    (\<forall>b \<in> set blks. tx_bytes b \<le> max_consumed_bytes_per_request c)"
  using assms
proof (induction ops arbitrary: c accepted blks)
  case Nil
  then show ?case by simp
next
  case (Cons op ops)
  show ?case
  proof (cases op)
    case (Submit tx)
    show ?thesis
    proof (cases "\<exists>ch. submit cl tx (tx_receiver c) = Some (Inr (), ch)")
      case True
      then obtain ch where ch: "submit cl tx (tx_receiver c) = Some (Inr (), ch)" by blast
      then have q: "ch = (tx_receiver c)\<lparr>queue := queue (tx_receiver c) @ [\<lparr>data = tx\<rparr>]\<rparr>"
        "length tx \<le> max_transaction_size cl" by (auto simp: submit_def split: if_splits)
      let ?c = "c\<lparr>tx_receiver := ch\<rparr>"
      obtain acc1 where r: "tx_run cl ops ?c = (acc1, blks, c')" "accepted = \<lparr>data = tx\<rparr> # acc1"
        using Cons.prems(1) Submit ch by (cases "tx_run cl ops ?c") auto
      have bl: "backlog ?c = backlog c @ [\<lparr>data = tx\<rparr>]" by (simp add: backlog_def q)
      have "consumer_ok ?c" using Cons.prems(2,3) q(2) bl unfolding consumer_ok_def by auto
      from Cons.IH [OF r(1) this] Cons.prems(3) r(2) bl show ?thesis by simp
    next
      case False
      then have "tx_run cl ops c = (accepted, blks, c')"
        using Cons.prems(1) Submit by (auto split: option.splits sum.splits prod.splits)
      from Cons.IH [OF this Cons.prems(2,3)] show ?thesis .
    qed
  next
    case Next
    obtain txs c1 where n: "consumer_next c = (txs, c1)" by fastforce
    obtain bs where r: "tx_run cl ops c1 = (accepted, bs, c')" "blks = txs # bs"
      using Cons.prems(1) Next n by (cases "tx_run cl ops c1") auto
    note f = next_fifo [OF n Cons.prems(2)]
    have m: "max_consumed_bytes_per_request c1 = max_consumed_bytes_per_request c"
      using consumer_next_loop [OF n Cons.prems(2)] by auto
    have "consumer_ok c1" using f by blast
    from Cons.IH [OF r(1) this] f Cons.prems(3) m r(2) show ?thesis by simp
  qed
qed

theorem transactions_end_to_end_witness:
  "\<exists>accepted blks c'. tx_run \<lparr>max_transaction_size = 4\<rparr> [Next, Submit [7, 8], Submit [1, 2, 3, 4, 5], Next] demo_consumer
      = (accepted, blks, c') \<and> accepted = [\<lparr>data = [7, 8]\<rparr>] \<and>
    backlog demo_consumer @ accepted = concat blks @ backlog c'"
proof -
  have ok: "consumer_ok demo_consumer" by (simp add: consumer_ok_def demo_consumer_def backlog_def)
  obtain accepted blks c' where run: "tx_run \<lparr>max_transaction_size = 4\<rparr>
      [Next, Submit [7, 8], Submit [1, 2, 3, 4, 5], Next] demo_consumer = (accepted, blks, c')"
    by (metis prod_cases3)
  have "accepted = [\<lparr>data = [7, 8]\<rparr>]"
    using run by (simp add: consumer_next_def demo_consumer_def submit_def Let_def add64_def MAX_PENDING_TRANSACTIONS_def)
  with run transactions_end_to_end [OF run ok] show ?thesis by (simp add: demo_consumer_def)
qed

section \<open>Proposals\<close>

text \<open>
  C6: a validator never proposes two blocks for one round. Whatever commands its core thread processes, in whatever
  environment, the round of the last proposed block never decreases, and at two moments where it is
  the same the block is the same.
\<close>

theorem core_never_equivocates:
  assumes "core_reach co co'"
  shows "last_proposed_round co \<le> last_proposed_round co' \<and>
    (last_proposed_round co = last_proposed_round co' \<longrightarrow> last_proposed_block co = last_proposed_block co')"
  by (rule core_reach_advances [OF assms])

text \<open>Libraries that do nothing but number the blocks, for concrete runs.\<close>

definition demo_crypto :: crypto where
  "demo_crypto = \<lparr>bcs_block = (\<lambda>b. Some [word_of_nat (block_round b), word_of_nat (block_author b)]),
     bcs_signed_block = (\<lambda>b. Some []), hash = (\<lambda>bs. 0), sign = (\<lambda>k d. []),
     sig_parse = (\<lambda>s. Some s), sig_check = (\<lambda>s d k. True)\<rparr>"

definition demo_env :: env where
  "demo_env = \<lparr>env_crypto = demo_crypto, set_order = (\<lambda>xs. xs), now_ms = 10\<rparr>"

definition demo_core :: core where
  "demo_core = the (core_new demo_env demo_context demo_consumer block_manager_new signals_new [])"

definition demo_core1 :: core where
  "demo_core1 = snd (the (core_thread_step demo_env (ForceNewBlock 1) demo_core))"

lemma demo_core_runs:
  "core_new demo_env demo_context demo_consumer block_manager_new signals_new [] \<noteq> None"
  "core_thread_step demo_env (ForceNewBlock 1) demo_core \<noteq> None"
  "last_proposed_round demo_core = 0" "last_proposed_round demo_core1 = 1"
  "clock_round (co_clock demo_core) = 1"
  by code_simp+

theorem core_never_equivocates_witness:
  "last_proposed_round demo_core \<le> last_proposed_round demo_core1 \<and> last_proposed_round demo_core1 = 1"
proof -
  obtain r where "core_thread_step demo_env (ForceNewBlock 1) demo_core = Some (r, demo_core1)"
    using demo_core_runs(2) by (auto simp: demo_core1_def)
  from core_never_equivocates [OF core_reach.step [OF core_reach.here this]] demo_core_runs(4) show ?thesis by simp
qed

text \<open>
  a proposal is well formed and covers all pending blocks. From a core whose pending blocks are filed by
  round, the proposed block is by this authority at the clock's round; it lists blocks of earlier rounds only,
  each once, always its own last block and every pending block of the round before; and each pending
  block below its round is listed or reached through the pending blocks it lists, so that leaving
  out referenced blocks loses none.
\<close>

theorem proposal_covers_pending:
  assumes "try_new_block e ig co = Some (Some vb, co')" and "pending_ok co" and "lists_all e"
  shows "author_of vb = own_index (co_context co) \<and> round_of vb = clock_round (co_clock co) \<and>
    distinct (ancestors vb) \<and> (\<forall>r \<in> set (ancestors vb). br_round r < round_of vb) \<and>
    reference (last_proposed_block co) \<in> set (ancestors vb) \<and>
    (\<forall>b \<in> set (pending_below (round_of vb) (pending_ancestors co)).
       (round_of b = round_of vb - 1 \<longrightarrow> reference b \<in> set (ancestors vb)) \<and>
       covered (set (pending_below (round_of vb) (pending_ancestors co))) (set (ancestors vb)) (reference b))"
proof -
  have l: "last_proposed_round co < clock_round (co_clock co)"
    and p: "propose_block e (clock_round (co_clock co)) co = Some (vb, co')"
    using try_new_block_Some [OF assms(1)] by auto
  note ps = propose_block_Some [OF p]
  have a: "set (ancestors vb) = set (proposed_refs (round_of vb) co)" "distinct (ancestors vb)"
    using ps(1,3) assms(3) by (simp_all add: lists_all_def)
  show ?thesis
    using ps(1,2) a proposal_earlier [OF p assms(2,3) l] previous_round_listed [OF assms(2)]
      pending_covered [OF assms(2)]
    by (auto simp: earlier_ancestors_def set_proposed_refs)
qed

lemma demo_lists_all: "lists_all demo_env"
  by (simp add: lists_all_def demo_env_def)

lemma demo_core_pending: "pending_ok demo_core"
  using core_new_pending_ok demo_core_runs(1) by (fastforce simp: demo_core_def)

lemma demo_proposal:
  "map_option (\<lambda>(r, co). map_option ancestors r) (try_new_block demo_env True demo_core)
     = Some (Some [BlockRef 0 1 0, BlockRef 0 2 0, BlockRef 0 3 0, BlockRef 0 0 0])"
  by code_simp

theorem proposal_covers_pending_witness:
  "\<exists>vb co'. try_new_block demo_env True demo_core = Some (Some vb, co') \<and> author_of vb = 0 \<and> round_of vb = 1 \<and>
    reference (last_proposed_block demo_core) \<in> set (ancestors vb)"
proof -
  obtain vb co' where run: "try_new_block demo_env True demo_core = Some (Some vb, co')"
    using demo_proposal by (auto split: prod.splits)
  have "own_index (co_context demo_core) = 0" by code_simp
  with run proposal_covers_pending [OF run demo_core_pending demo_lists_all] demo_core_runs(5) show ?thesis by auto
qed

text \<open>
  the pending blocks of a core are always filed by round. Starting from \<^verbatim>\<open>Core::new\<close> and through any commands
  whose blocks list earlier rounds only, the map of pending ancestors keeps each block under its round,
  rounds in order.
\<close>

theorem core_pending_invariant:
  assumes "core_new e ctx consumer bm signals key = Some co" and "core_thread_run cmds co = Some (replies, co')"
    and "\<forall>(e, cmd) \<in> set cmds. lists_all e \<and> command_ok cmd"
  shows "pending_ok co'"
  using core_run_pending_ok [OF assms(2)] core_new_pending_ok [OF assms(1)] assms(3) by blast

lemma demo_run:
  "core_thread_run [(demo_env, ForceNewBlock 1), (demo_env, GetMissing)] demo_core \<noteq> None"
  by code_simp

theorem core_pending_invariant_witness:
  "pending_ok (snd (the (core_thread_run [(demo_env, ForceNewBlock 1), (demo_env, GetMissing)] demo_core)))"
proof -
  obtain rs co' where run: "core_thread_run [(demo_env, ForceNewBlock 1), (demo_env, GetMissing)] demo_core = Some (rs, co')"
    using demo_run by auto
  have "core_new demo_env demo_context demo_consumer block_manager_new signals_new [] = Some demo_core"
    using demo_core_runs(1) by (auto simp: demo_core_def)
  from core_pending_invariant [OF this run] demo_lists_all run show ?thesis by simp
qed

text \<open>
  C37: a block from the future stops the proposer that receives it. From the command that brings a new block on, and as long as the
  local clock is before the timestamp of that block, whatever commands follow: while the core thread runs, it proposes no block of
  a later round than the block has (or than it had proposed already), for the block stays pending; and once the clock of
  rounds is past the round of the block, every forced proposal of a new round panics. The assertion in
  \<^verbatim>\<open>ancestors_to_propose\<close> relies on the clocks of all other authorities, not only on this one not going back.
\<close>

theorem future_block_stops_proposals:
  assumes "core_thread_run ((e0, AddBlocks bs) # cmds) co = Some (replies, co')" and "pending_ok co"
    and "b \<in> set bs" and "distinct (map reference bs)" and "reference b \<notin> accepted_blocks (co_manager co)"
    and "now_ms e0 < timestamp_of b" and "\<forall>(e, cmd) \<in> set cmds. now_ms e < timestamp_of b"
  shows "last_proposed_round co' \<le> max (last_proposed_round co) (round_of b) \<and>
    (\<forall>e r. now_ms e < timestamp_of b \<longrightarrow> round_of b < clock_round (co_clock co') \<longrightarrow>
      last_proposed_round co' < min r (clock_round (co_clock co')) \<longrightarrow> force_new_block e r co' = None)"
proof -
  obtain ms co1 rs where s: "core_add_blocks e0 bs co = Some (ms, co1)" "core_thread_run cmds co1 = Some (rs, co')"
    using assms(1) by (auto simp: bind_Some_iff)
  have sorted: "keys_sorted (pending_ancestors co)" using assms(2) by (simp add: pending_ok_def)
  have "stalled b (last_proposed_round co) co1"
    by (rule core_add_blocks_stalled [OF s(1) assms(6) _ sorted]) (use assms(3-5) in simp_all)
  from core_run_stalled [OF s(2) this assms(7)] have st: "stalled b (last_proposed_round co) co'" .
  have "force_new_block e r co' = None"
    if "now_ms e < timestamp_of b" "round_of b < clock_round (co_clock co')" "last_proposed_round co' < min r (clock_round (co_clock co'))" for e r
    using future_block_refused [of b co' e] st that by (simp add: force_new_block_def try_new_block_def stalled_def Let_def)
  with st show ?thesis by (simp add: stalled_def)
qed

text \<open>Validator 2 sends a block of round 1 with a timestamp one millisecond ahead; with a block of validator 3 the round ends.\<close>

definition future_block :: "nat \<Rightarrow> nat \<Rightarrow> verified_block" where
  "future_block a ts = \<lparr>vb_block = \<lparr>inner = V1 \<lparr>bv_epoch = 0, bv_round = 1, bv_author = a,
     bv_timestamp_ms = ts, bv_ancestors = demo_refs 0 [0, 1, 2], bv_transactions = []\<rparr>, signature = []\<rparr>,
     vb_digest = 1, vb_serialized = []\<rparr>"

definition future_core :: core where
  "future_core = snd (the (core_thread_run [(demo_env, AddBlocks [future_block 2 11]), (demo_env, AddBlocks [future_block 3 5])] demo_core))"

theorem future_block_stops_proposals_witness:
  "clock_round (co_clock future_core) = 2 \<and> last_proposed_round future_core \<le> 1 \<and> force_new_block demo_env 2 future_core = None"
proof -
  let ?cmds = "[(demo_env, AddBlocks [future_block 3 5])]"
  have "\<not> Option.is_none (core_thread_run ((demo_env, AddBlocks [future_block 2 11]) # ?cmds) demo_core)" by code_simp
  then obtain replies where run: "core_thread_run ((demo_env, AddBlocks [future_block 2 11]) # ?cmds) demo_core = Some (replies, future_core)"
    by (auto simp: Option.is_none_def future_core_def)
  have v: "now_ms demo_env = 10" "timestamp_of (future_block 2 11) = 11" "round_of (future_block 2 11) = 1" "last_proposed_round demo_core = 0"
    "clock_round (co_clock future_core) = 2" by code_simp+
  have "accepted_blocks (co_manager demo_core) = {}" by code_simp
  then have "last_proposed_round future_core \<le> 1 \<and> (\<forall>e r. now_ms e < 11 \<longrightarrow> 1 < clock_round (co_clock future_core) \<longrightarrow>
      last_proposed_round future_core < min r (clock_round (co_clock future_core)) \<longrightarrow> force_new_block e r future_core = None)"
    using future_block_stops_proposals [OF run demo_core_pending, of "future_block 2 11"] by (simp add: v)
  with v show ?thesis by auto
qed

section \<open>The leader timeout\<close>

text \<open>
  C39: the timeout forces a round at most once, not before its time. In every run of the task, a forced
  proposal is for the round announced last, comes at least the leader timeout after that announcement, and is the
  only one since.
\<close>

theorem leader_timeout_forces_once:
  assumes "timeout_run (timeout_start ctx r0 now0) (evs @ [(now, ForceOk r)]) t"
  shows "r = current_round r0 evs \<and> round_start now0 evs + leader_timeout ctx \<le> now \<and>
    filter is_force (since_round evs) = []"
proof -
  from assms obtain t1 where t1: "timeout_run (timeout_start ctx r0 now0) evs t1" "timeout_step now t1 (ForceOk r) t"
    by (rule timeout_run_snocE)
  note inv = timeout_run_inv [OF t1(1)]
  from t1(2) inv show ?thesis by (auto elim!: timeout_step_ForceOkE)
qed

theorem leader_timeout_forces_once_witness:
  "(5::nat) = current_round 1 [(50, NewRound 5)] \<and> round_start 0 [(50, NewRound 5)] + leader_timeout demo_context \<le> 250"
proof -
  let ?t0 = "timeout_start demo_context 1 0"
  let ?t1 = "?t0\<lparr>tt_leader_round := 5, leader_round_timed_out := False, deadline := 50 + tt_leader_timeout ?t0\<rparr>"
  have "timeout_run ?t0 ([] @ [(50, NewRound 5)]) ?t1"
    by (rule timeout_run.snoc [OF timeout_run.nil]) (rule timeout_step.new_round, simp add: timeout_start_def)
  then have "timeout_run ?t0 ([(50, NewRound 5)] @ [(250, ForceOk (tt_leader_round ?t1))]) (?t1\<lparr>leader_round_timed_out := True\<rparr>)"
    by (intro timeout_run.snoc [where ?t1.0 = ?t1])
      (simp, rule timeout_step.fire_ok, simp_all add: timeout_start_def demo_context_def)
  from leader_timeout_forces_once [OF this] show ?thesis by simp
qed

section \<open>Signatures\<close>

text \<open>What the signature library documents: a signature by a key verifies under its public key.\<close>

definition signs_for :: "crypto \<Rightarrow> bytes \<Rightarrow> bytes \<Rightarrow> bool" where
  "signs_for cr key pk \<longleftrightarrow> (\<forall>d. \<exists>s. sig_parse cr (sign cr key d) = Some s \<and> sig_check cr s d pk)"

text \<open>
  C40: a block signed with its author's key verifies, and a block by an author outside the committee never
  does. Verification fails with the serializer's error, the unknown authority or the signature, in this
  order, and it never panics.
\<close>

theorem signed_block_roundtrip:
  assumes "signed_block_new cr b key = Inr sb" and "signs_for cr key pk"
    and "committee_exists (committee ctx) (block_author b) \<Longrightarrow>
      network_key (authorities (committee ctx) ! block_author b) = pk"
  shows "signed_block_verify cr ctx sb =
    (if committee_exists (committee ctx) (block_author b) then Inr ()
     else Inl (UnknownAuthority (authority_display (block_author b))))"
proof -
  from assms(1) obtain d where d: "compute_digest cr b = Inr d" and sb: "sb = \<lparr>inner = b, signature = sign cr key d\<rparr>"
    by (auto simp: signed_block_new_def split: sum.splits)
  obtain s where "sig_parse cr (sign cr key d) = Some s" "sig_check cr s d pk"
    using assms(2) by (auto simp: signs_for_def)
  with d sb assms(3) show ?thesis by (simp add: signed_block_verify_def Let_def)
qed

theorem signed_block_roundtrip_witness:
  "\<exists>sb. signed_block_new demo_crypto (V1 (block_v1_genesis 2 0)) [] = Inr sb \<and> signed_block_verify demo_crypto demo_context sb = Inr ()"
proof -
  obtain sb where sb: "signed_block_new demo_crypto (V1 (block_v1_genesis 2 0)) [] = Inr sb"
    by (simp add: signed_block_new_def compute_digest_def demo_crypto_def)
  have "signs_for demo_crypto [] []" by (simp add: signs_for_def demo_crypto_def)
  moreover have "network_key (authorities (committee demo_context) ! block_author (V1 (block_v1_genesis 2 0))) = []" by code_simp
  moreover have "committee_exists (committee demo_context) (block_author (V1 (block_v1_genesis 2 0)))" by code_simp
  ultimately show ?thesis using sb signed_block_roundtrip [OF sb, of "[]" demo_context] by simp
qed

end
