(* ===== verification/GasTables.thy ===== *)
theory GasTables
  imports Prelude
begin

text \<open>
  The gas meter the Move VM sees: \<^verbatim>\<open>crates/sui-types/src/gas_model/units_types.rs\<close> (cost tables and
  their tiers), \<^verbatim>\<open>tables.rs\<close> (\<open>GasStatus\<close>, the \<^verbatim>\<open>GasMeter\<close> methods and the cost schedules) and
  \<^verbatim>\<open>gas_predicates.rs\<close>. These files are not under \<^verbatim>\<open>with_checked_arithmetic\<close>: plain operators wrap and
  the checked ones are written as the code has them. The operand stack is metered by its height and
  its size; the price of each grows by tiers with the highest position reached. The locale \<open>meter\<close>
  is what any gas meter promises its client, whatever the sequence of charges.
\<close>

section \<open>Units and tiers\<close>

definition INSTRUCTION_TIER_DEFAULT :: nat where "INSTRUCTION_TIER_DEFAULT = 1"

definition STACK_HEIGHT_TIER_DEFAULT :: nat where "STACK_HEIGHT_TIER_DEFAULT = 1"

definition STACK_SIZE_TIER_DEFAULT :: nat where "STACK_SIZE_TIER_DEFAULT = 1"

type_synonym tiers = "(nat, nat) btree_map"

record cost_table =
  instruction_tiers :: tiers
  stack_height_tiers :: tiers
  stack_size_tiers :: tiers

definition get_current_and_future_tier :: "tiers \<Rightarrow> nat \<Rightarrow> nat \<Rightarrow> nat \<times> nat option" where
  "get_current_and_future_tier tiers current dflt =
     (let below = filter (\<lambda>(k, v). k < current) tiers;
          above = filter (\<lambda>(k, v). current < k) tiers;
          current_cost =
            (case bt_get tiers current of
               Some v \<Rightarrow> v
             | None \<Rightarrow> if below = [] then dflt else snd (last below));
          next_tier_start = (case above of [] \<Rightarrow> None | e # _ \<Rightarrow> Some (fst e))
      in (current_cost, next_tier_start))"

definition instruction_tier :: "cost_table \<Rightarrow> nat \<Rightarrow> nat \<times> nat option" where
  "instruction_tier t n = get_current_and_future_tier (instruction_tiers t) n INSTRUCTION_TIER_DEFAULT"

definition stack_height_tier :: "cost_table \<Rightarrow> nat \<Rightarrow> nat \<times> nat option" where
  "stack_height_tier t n = get_current_and_future_tier (stack_height_tiers t) n STACK_HEIGHT_TIER_DEFAULT"

definition stack_size_tier :: "cost_table \<Rightarrow> nat \<Rightarrow> nat \<times> nat option" where
  "stack_size_tier t n = get_current_and_future_tier (stack_size_tiers t) n STACK_SIZE_TIER_DEFAULT"

record gas_cost =
  instruction_gas :: nat
  memory_gas :: nat
  stack_height_gas :: nat

definition total_internal :: "gas_cost \<Rightarrow> nat" where
  "total_internal c = add64 (add64 (instruction_gas c) (memory_gas c)) (stack_height_gas c)"

text \<open>\<^verbatim>\<open>InternalGas::to_unit_round_down\<close>, with the nominator 1 and the denominator 1000 of the units.\<close>

definition to_unit_round_down :: "nat \<Rightarrow> nat" where
  "to_unit_round_down v = min (v * 1 div 1000) u64_max"

section \<open>Versions\<close>

definition dont_charge_budget_on_storage_oog :: "nat \<Rightarrow> bool" where
  "dont_charge_budget_on_storage_oog gas_model_version \<longleftrightarrow> 4 \<le> gas_model_version"

definition gas_price_too_high :: "nat \<Rightarrow> bool" where
  "gas_price_too_high gas_model_version \<longleftrightarrow> 4 \<le> gas_model_version"

definition charge_input_as_memory :: "nat \<Rightarrow> bool" where
  "charge_input_as_memory gas_model_version \<longleftrightarrow> gas_model_version = 4"

definition use_legacy_abstract_size :: "nat \<Rightarrow> bool" where
  "use_legacy_abstract_size gas_model_version \<longleftrightarrow> gas_model_version \<le> 7"

definition charge_upgrades :: "nat \<Rightarrow> bool" where
  "charge_upgrades gas_model_version \<longleftrightarrow> 7 \<le> gas_model_version"

section \<open>Cost schedules\<close>

text \<open>Collecting pairs into a \<^verbatim>\<open>BTreeMap\<close>: of two pairs with one key the later one stays.\<close>

definition collect_tiers :: "(nat \<times> nat) list \<Rightarrow> tiers" where
  "collect_tiers kvs = fold (\<lambda>(k, v). bt_insert k v) kvs []"

definition zero_cost_schedule :: cost_table where
  "zero_cost_schedule =
     (let zero_tier = bt_insert 0 0 []
      in \<lparr>instruction_tiers = zero_tier, stack_height_tiers = zero_tier, stack_size_tiers = zero_tier\<rparr>)"

definition unit_cost_schedule :: cost_table where
  "unit_cost_schedule =
     (let unit_tier = bt_insert 0 1 []
      in \<lparr>instruction_tiers = unit_tier, stack_height_tiers = unit_tier, stack_size_tiers = unit_tier\<rparr>)"

definition initial_cost_schedule_v1 :: cost_table where
  "initial_cost_schedule_v1 =
     \<lparr>instruction_tiers = collect_tiers
        [(0, 1), (3000, 2), (6000, 3), (8000, 5), (9000, 9), (9500, 16), (10000, 29), (10500, 50)],
      stack_height_tiers = collect_tiers
        [(0, 1), (400, 2), (800, 3), (1200, 5), (1500, 9), (1800, 16), (2000, 29), (2200, 50)],
      stack_size_tiers = collect_tiers
        [(0, 1), (2000, 2), (5000, 3), (8000, 5), (10000, 9), (11000, 16), (11500, 29), (11500, 50)]\<rparr>"

definition initial_cost_schedule_v2 :: cost_table where
  "initial_cost_schedule_v2 =
     \<lparr>instruction_tiers = collect_tiers
        [(0, 1), (3000, 2), (6000, 3), (8000, 5), (9000, 9), (9500, 16), (10000, 29), (10500, 50),
         (12000, 150), (15000, 250)],
      stack_height_tiers = collect_tiers
        [(0, 1), (400, 2), (800, 3), (1200, 5), (1500, 9), (1800, 16), (2000, 29), (2200, 50),
         (3000, 150), (5000, 250)],
      stack_size_tiers = collect_tiers
        [(0, 1), (2000, 2), (5000, 3), (8000, 5), (10000, 9), (11000, 16), (11500, 29), (11500, 50),
         (15000, 150), (20000, 250)]\<rparr>"

definition initial_cost_schedule_v3 :: cost_table where
  "initial_cost_schedule_v3 =
     \<lparr>instruction_tiers = collect_tiers
        [(0, 1), (3000, 2), (6000, 3), (8000, 5), (9000, 9), (9500, 16), (10000, 29), (10500, 50),
         (15000, 100)],
      stack_height_tiers = collect_tiers
        [(0, 1), (400, 2), (800, 3), (1200, 5), (1500, 9), (1800, 16), (2000, 29), (2200, 50),
         (5000, 100)],
      stack_size_tiers = collect_tiers
        [(0, 1), (2000, 2), (5000, 3), (8000, 5), (10000, 9), (11000, 16), (11500, 29), (11500, 50),
         (20000, 100)]\<rparr>"

definition initial_cost_schedule_v4 :: cost_table where
  "initial_cost_schedule_v4 =
     \<lparr>instruction_tiers = collect_tiers [(0, 1), (20000, 2), (50000, 10), (100000, 50), (200000, 100)],
      stack_height_tiers = collect_tiers [(0, 1), (1000, 2), (10000, 10)],
      stack_size_tiers = collect_tiers [(0, 1), (100000, 2), (500000, 5), (1000000, 100)]\<rparr>"

definition initial_cost_schedule_v5 :: cost_table where
  "initial_cost_schedule_v5 =
     \<lparr>instruction_tiers = collect_tiers
        [(0, 1), (20000, 2), (50000, 10), (100000, 50), (200000, 100), (10000000, 1000)],
      stack_height_tiers = collect_tiers [(0, 1), (1000, 2), (10000, 10)],
      stack_size_tiers = collect_tiers
        [(0, 1), (100000, 2), (500000, 5), (1000000, 100), (100000000, 1000)]\<rparr>"

definition cost_table_for_version :: "nat \<Rightarrow> cost_table" where
  "cost_table_for_version gas_model =
     (if gas_model \<le> 3 then initial_cost_schedule_v1
      else if gas_model = 4 then initial_cost_schedule_v2
      else if gas_model = 5 then initial_cost_schedule_v3
      else if gas_model \<le> 7 then initial_cost_schedule_v4
      else initial_cost_schedule_v5)"

section \<open>The meter\<close>

record gas_status =
  gas_model_version :: nat
  gs_cost_table :: cost_table
  gas_left :: nat
  gas_price :: nat
  initial_budget :: nat
  gs_charge :: bool
  stack_height_high_water_mark :: nat
  stack_height_current :: nat
  stack_height_next_tier_start :: "nat option"
  stack_height_current_tier_mult :: nat
  stack_size_high_water_mark :: nat
  stack_size_current :: nat
  stack_size_next_tier_start :: "nat option"
  stack_size_current_tier_mult :: nat
  instructions_executed :: nat
  instructions_next_tier_start :: "nat option"
  instructions_current_tier_mult :: nat

definition INTERNAL_UNIT_MULTIPLIER :: nat where "INTERNAL_UNIT_MULTIPLIER = 1000"

definition to_internal_units :: "nat \<Rightarrow> nat" where
  "to_internal_units v = mul64 v INTERNAL_UNIT_MULTIPLIER"

definition gas_status_new :: "cost_table \<Rightarrow> nat \<Rightarrow> nat \<Rightarrow> nat \<Rightarrow> gas_status option" where
  "gas_status_new cost_table budget price version = do {
     rust_assert (0 < price);
     let left = to_internal_units (budget div price);
     let (height_mult, height_next) = stack_height_tier cost_table 0;
     let (size_mult, size_next) = stack_size_tier cost_table 0;
     let (instr_mult, instr_next) = instruction_tier cost_table 0;
     Some \<lparr>gas_model_version = version, gs_cost_table = cost_table, gas_left = left, gas_price = price,
           initial_budget = left, gs_charge = True,
           stack_height_high_water_mark = 0, stack_height_current = 0,
           stack_height_next_tier_start = height_next, stack_height_current_tier_mult = height_mult,
           stack_size_high_water_mark = 0, stack_size_current = 0,
           stack_size_next_tier_start = size_next, stack_size_current_tier_mult = size_mult,
           instructions_executed = 0,
           instructions_next_tier_start = instr_next, instructions_current_tier_mult = instr_mult\<rparr>
   }"

definition gas_status_new_unmetered :: gas_status where
  "gas_status_new_unmetered =
     \<lparr>gas_model_version = 4, gs_cost_table = zero_cost_schedule, gas_left = 0, gas_price = 1,
      initial_budget = 0, gs_charge = False,
      stack_height_high_water_mark = 0, stack_height_current = 0,
      stack_height_next_tier_start = None, stack_height_current_tier_mult = 0,
      stack_size_high_water_mark = 0, stack_size_current = 0,
      stack_size_next_tier_start = None, stack_size_current_tier_mult = 0,
      instructions_executed = 0,
      instructions_next_tier_start = None, instructions_current_tier_mult = 0\<rparr>"

datatype status_code = ARITHMETIC_OVERFLOW | PC_OVERFLOW | OUT_OF_GAS

text \<open>
  A method that returns \<^verbatim>\<open>PartialVMResult<()>\<close> and changes the meter in place: the changes made before an
  error stay. \<open>and_then\<close> is the sequence \<^verbatim>\<open>a?; b\<close>.
\<close>

type_synonym meter_op = "gas_status \<Rightarrow> (status_code + unit) \<times> gas_status"

definition and_then :: "meter_op \<Rightarrow> meter_op \<Rightarrow> meter_op" where
  "and_then a b g = (case a g of (Inl e, g) \<Rightarrow> (Inl e, g) | (Inr _, g) \<Rightarrow> b g)"

definition push_stack :: "nat \<Rightarrow> meter_op" where
  "push_stack pushes g =
     (case checked_add64 (stack_height_current g) pushes of
        None \<Rightarrow> (Inl ARITHMETIC_OVERFLOW, g)
      | Some new_height \<Rightarrow>
          let g = g\<lparr>stack_height_high_water_mark :=
                      (if stack_height_high_water_mark g < new_height then new_height
                       else stack_height_high_water_mark g),
                    stack_height_current := new_height\<rparr>;
              g = (case stack_height_next_tier_start g of
                     None \<Rightarrow> g
                   | Some tier_next \<Rightarrow>
                       if tier_next < stack_height_current g then
                         (let (next_mul, next_tier) = stack_height_tier (gs_cost_table g) (stack_height_current g)
                          in g\<lparr>stack_height_current_tier_mult := next_mul,
                               stack_height_next_tier_start := next_tier\<rparr>)
                       else g)
          in (Inr (), g))"

definition pop_stack :: "nat \<Rightarrow> gas_status \<Rightarrow> gas_status" where
  "pop_stack pops g = g\<lparr>stack_height_current := saturating_sub (stack_height_current g) pops\<rparr>"

definition increase_instruction_count :: "nat \<Rightarrow> meter_op" where
  "increase_instruction_count amount g =
     (case checked_add64 (instructions_executed g) amount of
        None \<Rightarrow> (Inl PC_OVERFLOW, g)
      | Some new_pc \<Rightarrow>
          let g = g\<lparr>instructions_executed := new_pc\<rparr>;
              g = (case instructions_next_tier_start g of
                     None \<Rightarrow> g
                   | Some tier_next \<Rightarrow>
                       if tier_next < instructions_executed g then
                         (let (instr_cost, next_tier) = instruction_tier (gs_cost_table g) (instructions_executed g)
                          in g\<lparr>instructions_current_tier_mult := instr_cost,
                               instructions_next_tier_start := next_tier\<rparr>)
                       else g)
          in (Inr (), g))"

definition increase_stack_size :: "nat \<Rightarrow> meter_op" where
  "increase_stack_size size_amount g =
     (case checked_add64 (stack_size_current g) size_amount of
        None \<Rightarrow> (Inl ARITHMETIC_OVERFLOW, g)
      | Some new_size \<Rightarrow>
          let g = g\<lparr>stack_size_high_water_mark :=
                      (if stack_size_high_water_mark g < new_size then new_size
                       else stack_size_high_water_mark g),
                    stack_size_current := new_size\<rparr>;
              g = (case stack_size_next_tier_start g of
                     None \<Rightarrow> g
                   | Some tier_next \<Rightarrow>
                       if tier_next < stack_size_current g then
                         (let (next_mul, next_tier) = stack_size_tier (gs_cost_table g) (stack_size_current g)
                          in g\<lparr>stack_size_current_tier_mult := next_mul,
                               stack_size_next_tier_start := next_tier\<rparr>)
                       else g)
          in (Inr (), g))"

definition decrease_stack_size :: "nat \<Rightarrow> gas_status \<Rightarrow> gas_status" where
  "decrease_stack_size size_amount g =
     (let new_size = saturating_sub (stack_size_current g) size_amount
      in g\<lparr>stack_size_high_water_mark :=
             (if stack_size_high_water_mark g < new_size then new_size else stack_size_high_water_mark g),
           stack_size_current := new_size\<rparr>)"

definition deduct_gas :: "nat \<Rightarrow> meter_op" where
  "deduct_gas amount g =
     (if \<not> gs_charge g then (Inr (), g)
      else case checked_sub64 (gas_left g) amount of
          Some left \<Rightarrow> (Inr (), g\<lparr>gas_left := left\<rparr>)
        | None \<Rightarrow> (Inl OUT_OF_GAS, g\<lparr>gas_left := 0\<rparr>))"

text \<open>The price of one charge, at the multipliers the meter stands at.\<close>

definition charge_cost :: "nat \<Rightarrow> nat \<Rightarrow> nat \<Rightarrow> gas_status \<Rightarrow> gas_cost option" where
  "charge_cost num_instructions pushes incr_size g = do {
     i \<leftarrow> checked_mul64 (instructions_current_tier_mult g) num_instructions;
     m \<leftarrow> checked_mul64 (stack_size_current_tier_mult g) incr_size;
     h \<leftarrow> checked_mul64 (stack_height_current_tier_mult g) pushes;
     Some \<lparr>instruction_gas = i, memory_gas = m, stack_height_gas = h\<rparr>
   }"

definition charge :: "nat \<Rightarrow> nat \<Rightarrow> nat \<Rightarrow> nat \<Rightarrow> nat \<Rightarrow> meter_op" where
  "charge num_instructions pushes pops incr_size decr_size =
     and_then (push_stack pushes)
      (and_then (increase_instruction_count num_instructions)
        (and_then (increase_stack_size incr_size)
          (and_then
            (\<lambda>g. case charge_cost num_instructions pushes incr_size g of
                   None \<Rightarrow> (Inl ARITHMETIC_OVERFLOW, g)
                 | Some cost \<Rightarrow> deduct_gas (total_internal cost) g)
            (\<lambda>g. (Inr (), pop_stack pops g)))))"

definition remaining_gas :: "gas_status \<Rightarrow> nat" where
  "remaining_gas g = (if \<not> gs_charge g then u64_max else gas_left g)"

definition remaining_gas_units :: "gas_status \<Rightarrow> nat" where
  "remaining_gas_units g = to_unit_round_down (gas_left g)"

definition set_metering :: "bool \<Rightarrow> gas_status \<Rightarrow> gas_status" where
  "set_metering enabled g = g\<lparr>gs_charge := enabled\<rparr>"

definition to_mist :: "gas_status \<Rightarrow> nat \<Rightarrow> nat" where
  "to_mist g v = mul64 (to_unit_round_down v) (gas_price g)"

definition gas_used_pre_gas_price :: "gas_status \<Rightarrow> nat" where
  "gas_used_pre_gas_price g =
     (case checked_sub64 (initial_budget g) (gas_left g) of
        Some v \<Rightarrow> to_unit_round_down v
      | None \<Rightarrow> to_unit_round_down (initial_budget g))"

definition charge_bytes :: "nat \<Rightarrow> nat \<Rightarrow> meter_op" where
  "charge_bytes n cost_per_byte g =
     (if charge_input_as_memory (gas_model_version g)
      then and_then (increase_stack_size n)
             (\<lambda>g. deduct_gas (mul64 (mul64 (stack_size_current_tier_mult g) n) cost_per_byte) g) g
      else deduct_gas (mul64 n cost_per_byte) g)"

subsection \<open>The interface the VM charges through\<close>

text \<open>What the meter reads of a Move value: its two sizes (\<^verbatim>\<open>ValueView\<close>).\<close>

record value_view =
  legacy_abstract_memory_size :: nat
  vv_abstract_memory_size :: nat

datatype simple_instruction =
    Nop | Ret | BrTrue | BrFalse | Branch
  | LdU8 | LdU64 | LdU128 | LdTrue | LdFalse
  | FreezeRef | MutBorrowLoc | ImmBorrowLoc | ImmBorrowField | MutBorrowField
  | ImmBorrowFieldGeneric | MutBorrowFieldGeneric
  | CastU8 | CastU64 | CastU128
  | Add | Sub | Mul | Mod | Div
  | BitOr | BitAnd | Xor | Shl | Shr
  | Or | And | Not
  | Lt | Gt | Le | Ge
  | Abort
  | LdU16 | LdU32 | LdU256 | CastU16 | CastU32 | CastU256

text \<open>\<^verbatim>\<open>Type::size\<close> is 1 for every primitive type; sizes add up to at most the largest \<^verbatim>\<open>u64\<close>.\<close>

definition base_size :: nat where "base_size = 1"

definition size_add :: "nat \<Rightarrow> nat \<Rightarrow> nat" where
  "size_add a b = min (a + b) u64_max"

definition REFERENCE_SIZE :: nat where "REFERENCE_SIZE = 8"

definition STRUCT_SIZE :: nat where "STRUCT_SIZE = 2"

definition VEC_SIZE :: nat where "VEC_SIZE = 8"

definition get_simple_instruction_stack_change :: "simple_instruction \<Rightarrow> nat \<times> nat \<times> nat \<times> nat" where
  "get_simple_instruction_stack_change i =
     (if i \<in> {Nop, Ret} then (0, 0, 0, 0)
      else if i \<in> {BrTrue, BrFalse} then (1, 0, base_size, 0)
      else if i = Branch then (0, 0, 0, 0)
      else if i \<in> {LdU8, LdU16, LdU32, LdU64, LdU128, LdU256} then (0, 1, 0, base_size)
      else if i \<in> {LdTrue, LdFalse} then (0, 1, 0, base_size)
      else if i = FreezeRef then (1, 1, REFERENCE_SIZE, REFERENCE_SIZE)
      else if i \<in> {ImmBorrowLoc, MutBorrowLoc} then (0, 1, 0, REFERENCE_SIZE)
      else if i \<in> {ImmBorrowField, MutBorrowField, ImmBorrowFieldGeneric, MutBorrowFieldGeneric}
        then (1, 1, REFERENCE_SIZE, REFERENCE_SIZE)
      else if i \<in> {CastU8, CastU16, CastU32, CastU64, CastU128, CastU256} then (1, 1, base_size, base_size)
      else if i \<in> {Add, Sub, Mul, Mod, Div, BitOr, BitAnd, Xor, Shl, Shr}
        then (2, 1, size_add base_size base_size, base_size)
      else if i \<in> {Or, And} then (2, 1, size_add base_size base_size, base_size)
      else if i \<in> {Lt, Gt, Le, Ge} then (2, 1, size_add base_size base_size, base_size)
      else if i = Not then (1, 1, base_size, base_size)
      else (1, 0, base_size, 0))"

definition abstract_memory_size :: "gas_status \<Rightarrow> value_view \<Rightarrow> nat" where
  "abstract_memory_size g v =
     (if use_legacy_abstract_size (gas_model_version g) then legacy_abstract_memory_size v
      else vv_abstract_memory_size v)"

definition sizes_from :: "nat \<Rightarrow> gas_status \<Rightarrow> value_view list \<Rightarrow> nat" where
  "sizes_from start g vs = fold (\<lambda>v acc. size_add acc (abstract_memory_size g v)) vs start"

definition charge_simple_instr :: "simple_instruction \<Rightarrow> meter_op" where
  "charge_simple_instr instr =
     (let (pops, pushes, pop_size, push_size) = get_simple_instruction_stack_change instr
      in charge 1 pushes pops push_size pop_size)"

definition charge_pop :: "value_view \<Rightarrow> meter_op" where
  "charge_pop v g = charge 1 0 1 0 (abstract_memory_size g v) g"

definition charge_native_function :: "nat \<Rightarrow> value_view list option \<Rightarrow> meter_op" where
  "charge_native_function amount ret_vals g =
     (let pushes = (case ret_vals of Some vs \<Rightarrow> length vs | None \<Rightarrow> 0);
          size_increase = (case ret_vals of Some vs \<Rightarrow> sizes_from 0 g vs | None \<Rightarrow> 0)
      in and_then (charge 0 pushes 0 size_increase 0) (deduct_gas amount) g)"

definition charge_native_function_before_execution :: "value_view list \<Rightarrow> meter_op" where
  "charge_native_function_before_execution args g =
     (let pops = length args in charge 1 0 pops 0 (sizes_from pops g args) g)"

definition charge_call :: "value_view list \<Rightarrow> meter_op" where
  "charge_call args g = (let pops = length args in charge 1 0 pops 0 (sizes_from 0 g args) g)"

definition charge_call_generic :: "value_view list \<Rightarrow> meter_op" where
  "charge_call_generic args g = (let pops = length args in charge 1 0 pops 0 (sizes_from 0 g args) g)"

definition charge_ld_const :: "nat \<Rightarrow> meter_op" where
  "charge_ld_const n = charge 1 1 0 n 0"

definition charge_copy_loc :: "value_view \<Rightarrow> meter_op" where
  "charge_copy_loc v g = charge 1 1 0 (abstract_memory_size g v) 0 g"

definition charge_move_loc :: "value_view \<Rightarrow> meter_op" where
  "charge_move_loc v g = charge 1 1 0 (abstract_memory_size g v) 0 g"

definition charge_store_loc :: "value_view \<Rightarrow> meter_op" where
  "charge_store_loc v g = charge 1 0 1 0 (abstract_memory_size g v) g"

definition charge_pack :: "value_view list \<Rightarrow> meter_op" where
  "charge_pack args = (let num_fields = length args in charge 1 1 num_fields STRUCT_SIZE 0)"

definition charge_unpack :: "value_view list \<Rightarrow> meter_op" where
  "charge_unpack args = (let num_fields = length args in charge 1 num_fields 1 0 STRUCT_SIZE)"

definition charge_read_ref :: "value_view \<Rightarrow> meter_op" where
  "charge_read_ref v g = charge 1 1 1 (abstract_memory_size g v) REFERENCE_SIZE g"

definition charge_write_ref :: "value_view \<Rightarrow> value_view \<Rightarrow> meter_op" where
  "charge_write_ref new_val old_val g =
     charge 1 1 2 (abstract_memory_size g new_val) (abstract_memory_size g old_val) g"

definition charge_eq :: "value_view \<Rightarrow> value_view \<Rightarrow> meter_op" where
  "charge_eq lhs rhs g =
     (let size_reduction = size_add (abstract_memory_size g lhs) (abstract_memory_size g rhs)
      in charge 1 1 2 (size_add base_size size_reduction) size_reduction g)"

definition charge_neq :: "value_view \<Rightarrow> value_view \<Rightarrow> meter_op" where
  "charge_neq lhs rhs g =
     (let size_reduction = size_add (abstract_memory_size g lhs) (abstract_memory_size g rhs)
      in charge 1 1 2 base_size size_reduction g)"

definition charge_vec_pack :: "value_view list \<Rightarrow> meter_op" where
  "charge_vec_pack args = (let num_args = length args in charge 1 1 num_args VEC_SIZE 0)"

definition charge_vec_len :: meter_op where
  "charge_vec_len = charge 1 1 1 base_size REFERENCE_SIZE"

definition charge_vec_borrow :: meter_op where
  "charge_vec_borrow = charge 1 1 2 REFERENCE_SIZE (size_add REFERENCE_SIZE base_size)"

definition charge_vec_push_back :: meter_op where
  "charge_vec_push_back = charge 1 0 2 0 REFERENCE_SIZE"

definition charge_vec_pop_back :: meter_op where
  "charge_vec_pop_back = charge 1 1 1 0 REFERENCE_SIZE"

definition charge_vec_unpack :: "nat \<Rightarrow> meter_op" where
  "charge_vec_unpack expect_num_elements = charge 1 expect_num_elements 1 0 VEC_SIZE"

definition charge_vec_swap :: meter_op where
  "charge_vec_swap =
     (let size_decrease = size_add (size_add REFERENCE_SIZE base_size) base_size
      in charge 1 1 1 0 size_decrease)"

text \<open>The calls of the VM as data. The two methods that charge nothing are one event.\<close>

datatype meter_call =
    SimpleInstr simple_instruction
  | Pop value_view
  | NativeFunction nat "value_view list option"
  | NativeFunctionBefore "value_view list"
  | Call "value_view list"
  | CallGeneric "value_view list"
  | LdConst nat
  | CopyLoc value_view
  | MoveLoc value_view
  | StoreLoc value_view
  | Pack "value_view list"
  | Unpack "value_view list"
  | ReadRef value_view
  | WriteRef value_view value_view
  | EqOp value_view value_view
  | NeqOp value_view value_view
  | VecPack "value_view list"
  | VecLen
  | VecBorrow
  | VecPushBack
  | VecPopBack
  | VecUnpack nat
  | VecSwap
  | Bytes nat nat
  | NoCharge

fun meter_call_step :: "meter_call \<Rightarrow> meter_op" where
  "meter_call_step (SimpleInstr i) = charge_simple_instr i"
| "meter_call_step (Pop v) = charge_pop v"
| "meter_call_step (NativeFunction amount vs) = charge_native_function amount vs"
| "meter_call_step (NativeFunctionBefore vs) = charge_native_function_before_execution vs"
| "meter_call_step (Call vs) = charge_call vs"
| "meter_call_step (CallGeneric vs) = charge_call_generic vs"
| "meter_call_step (LdConst n) = charge_ld_const n"
| "meter_call_step (CopyLoc v) = charge_copy_loc v"
| "meter_call_step (MoveLoc v) = charge_move_loc v"
| "meter_call_step (StoreLoc v) = charge_store_loc v"
| "meter_call_step (Pack vs) = charge_pack vs"
| "meter_call_step (Unpack vs) = charge_unpack vs"
| "meter_call_step (ReadRef v) = charge_read_ref v"
| "meter_call_step (WriteRef v w) = charge_write_ref v w"
| "meter_call_step (EqOp v w) = charge_eq v w"
| "meter_call_step (NeqOp v w) = charge_neq v w"
| "meter_call_step (VecPack vs) = charge_vec_pack vs"
| "meter_call_step VecLen = charge_vec_len"
| "meter_call_step VecBorrow = charge_vec_borrow"
| "meter_call_step VecPushBack = charge_vec_push_back"
| "meter_call_step VecPopBack = charge_vec_pop_back"
| "meter_call_step (VecUnpack n) = charge_vec_unpack n"
| "meter_call_step VecSwap = charge_vec_swap"
| "meter_call_step (Bytes n c) = charge_bytes n c"
| "meter_call_step NoCharge = (\<lambda>g. (Inr (), g))"

text \<open>The calls of an execution, up to the first that fails.\<close>

fun meter_calls :: "meter_call list \<Rightarrow> meter_op" where
  "meter_calls [] g = (Inr (), g)"
| "meter_calls (c # cs) g = and_then (meter_call_step c) (meter_calls cs) g"

section \<open>Looking up a tier\<close>

lemma sorted_keys_last:
  "keys_sorted xs \<Longrightarrow> e \<in> set xs \<Longrightarrow> fst e \<le> fst (last xs)"
  by (induction xs) (auto simp: less_imp_le)

lemma sorted_keys_hd:
  "keys_sorted xs \<Longrightarrow> e \<in> set xs \<Longrightarrow> fst (hd xs) \<le> fst e"
  by (cases xs) (auto simp: less_imp_le)

lemma keys_sorted_filter: "keys_sorted xs \<Longrightarrow> keys_sorted (filter P xs)"
  by (induction xs) auto

text \<open>The cost is that of the greatest tier start up to the position.\<close>

lemma tier_cost:
  assumes "keys_sorted t" and kv: "(k, v) \<in> set t" "k \<le> c"
    and max: "\<And>k' v'. (k', v') \<in> set t \<Longrightarrow> k' \<le> c \<Longrightarrow> k' \<le> k"
  shows "fst (get_current_and_future_tier t c d) = v"
proof (cases "bt_get t c")
  case (Some w)
  then have "(c, w) \<in> set t" using bt_get_in_set [OF assms(1)] by simp
  with max [of c w] kv have "k = c" by simp
  with Some kv bt_get_in_set [OF assms(1), of k v] show ?thesis
    by (simp add: get_current_and_future_tier_def)
next
  case None
  let ?b = "filter (\<lambda>(k, v). k < c) t"
  have "k \<noteq> c" using None kv bt_get_in_set [OF assms(1), of k v] by auto
  then have kb: "(k, v) \<in> set ?b" using kv by simp
  then have ne: "?b \<noteq> []" by (metis empty_iff list.set(1))
  obtain k' v' where l: "last ?b = (k', v')" by (cases "last ?b")
  have inb: "(k', v') \<in> set ?b" using last_in_set [OF ne] l by simp
  have "k \<le> k'" using sorted_keys_last [OF keys_sorted_filter [OF assms(1)] kb] l by simp
  moreover have "k' \<le> k" using inb max [of k' v'] by simp
  ultimately have "k' = k" by simp
  then have "v' = v"
    using inb kv(1) bt_get_in_set [OF assms(1), of k v] bt_get_in_set [OF assms(1), of k v'] by simp
  with None ne l show ?thesis by (simp add: get_current_and_future_tier_def)
qed

text \<open>The next tier starts at the least key above the position.\<close>

lemma tier_next:
  assumes "keys_sorted t"
  shows "snd (get_current_and_future_tier t c d) = Some n \<longleftrightarrow>
      n \<in> fst ` set t \<and> c < n \<and> (\<forall>k \<in> fst ` set t. c < k \<longrightarrow> n \<le> k)"
    and "snd (get_current_and_future_tier t c d) = None \<longleftrightarrow> (\<forall>k \<in> fst ` set t. k \<le> c)"
proof -
  let ?a = "filter (\<lambda>(k, v). c < k) t"
  have s: "snd (get_current_and_future_tier t c d) = (case ?a of [] \<Rightarrow> None | e # _ \<Rightarrow> Some (fst e))"
    by (simp add: get_current_and_future_tier_def Let_def)
  have mem: "fst ` set ?a = {k \<in> fst ` set t. c < k}" by force
  have None: "(\<forall>k \<in> fst ` set t. k \<le> c) \<longleftrightarrow> ?a = []"
    by (auto simp: filter_empty_conv)
  show "snd (get_current_and_future_tier t c d) = None \<longleftrightarrow> (\<forall>k \<in> fst ` set t. k \<le> c)"
    unfolding None s by (simp split: list.split)
  show "snd (get_current_and_future_tier t c d) = Some n \<longleftrightarrow>
      n \<in> fst ` set t \<and> c < n \<and> (\<forall>k \<in> fst ` set t. c < k \<longrightarrow> n \<le> k)"
  proof (cases ?a)
    case Nil
    with None s show ?thesis by (auto simp: not_le)
  next
    case (Cons e es)
    have hd: "fst e \<in> fst ` set t" "c < fst e" using mem Cons by auto
    have "\<forall>k \<in> fst ` set t. c < k \<longrightarrow> fst e \<le> k"
      using sorted_keys_hd [OF keys_sorted_filter [OF assms]] Cons mem
      by (metis (no_types, lifting) imageE list.sel(1) mem_Collect_eq)
    with hd have "(n \<in> fst ` set t \<and> c < n \<and> (\<forall>k \<in> fst ` set t. c < k \<longrightarrow> n \<le> k)) \<longleftrightarrow> n = fst e"
      by (metis order_antisym)
    with s Cons show ?thesis by auto
  qed
qed

text \<open>Tables whose cost grows with the position and that start at zero.\<close>

definition tiers_ok :: "tiers \<Rightarrow> bool" where
  "tiers_ok t \<longleftrightarrow> keys_sorted t \<and> sorted (map snd t) \<and> t \<noteq> [] \<and> fst (hd t) = 0"

definition table_ok :: "cost_table \<Rightarrow> bool" where
  "table_ok t \<longleftrightarrow>
     tiers_ok (instruction_tiers t) \<and> tiers_ok (stack_height_tiers t) \<and> tiers_ok (stack_size_tiers t)"

lemma tiers_ok_sorted: "tiers_ok t \<Longrightarrow> keys_sorted t"
  by (simp add: tiers_ok_def)

lemma tiers_ok_mono:
  assumes "tiers_ok t" "(k, v) \<in> set t" "(k', v') \<in> set t" "k \<le> k'"
  shows "v \<le> v'"
proof -
  have "keys_sorted t" "sorted (map snd t)" using assms(1) by (simp_all add: tiers_ok_def)
  then show ?thesis using assms(2-4)
    by (induction t) (auto dest: leD)
qed

lemma tier_of_position:
  assumes "tiers_ok t"
  obtains k v where "(k, v) \<in> set t" "k \<le> c" "\<And>k' v'. (k', v') \<in> set t \<Longrightarrow> k' \<le> c \<Longrightarrow> k' \<le> k"
proof -
  let ?K = "{k \<in> fst ` set t. k \<le> c}"
  have "0 \<in> fst ` set t" using assms by (cases t) (auto simp: tiers_ok_def)
  then have ne: "?K \<noteq> {}" by blast
  have fin: "finite ?K" by simp
  have "Max ?K \<in> ?K" using Max_in [OF fin ne] .
  then obtain v where "(Max ?K, v) \<in> set t" "Max ?K \<le> c" by force
  moreover have "k' \<le> Max ?K" if "(k', v') \<in> set t" "k' \<le> c" for k' v'
    using that by (intro Max_ge [OF fin]) force
  ultimately show ?thesis by (rule that)
qed

lemma tier_mono:
  assumes "tiers_ok t" "c \<le> c'"
  shows "fst (get_current_and_future_tier t c d) \<le> fst (get_current_and_future_tier t c' d)"
proof -
  obtain k v where kv: "(k, v) \<in> set t" "k \<le> c" "\<And>k' v'. (k', v') \<in> set t \<Longrightarrow> k' \<le> c \<Longrightarrow> k' \<le> k"
    using tier_of_position [OF assms(1)] by metis
  obtain k2 v2 where kv2: "(k2, v2) \<in> set t" "k2 \<le> c'" "\<And>k' v'. (k', v') \<in> set t \<Longrightarrow> k' \<le> c' \<Longrightarrow> k' \<le> k2"
    using tier_of_position [OF assms(1)] by metis
  have "k \<le> k2" using kv2(3) [OF kv(1)] kv(2) assms(2) by simp
  then have "v \<le> v2" using tiers_ok_mono [OF assms(1) kv(1) kv2(1)] by simp
  then show ?thesis
    using tier_cost [OF tiers_ok_sorted [OF assms(1)] kv] tier_cost [OF tiers_ok_sorted [OF assms(1)] kv2]
    by simp
qed

lemma schedules_ok: "table_ok (cost_table_for_version n)" "table_ok zero_cost_schedule"
  by (simp_all add: cost_table_for_version_def initial_cost_schedule_v1_def initial_cost_schedule_v2_def
      initial_cost_schedule_v3_def initial_cost_schedule_v4_def initial_cost_schedule_v5_def
      collect_tiers_def table_ok_def tiers_ok_def zero_cost_schedule_def Let_def)

section \<open>The tier a meter stands at\<close>

text \<open>
  The multiplier and the next tier start the meter keeps were looked up at some earlier position, and no
  tier started since, except perhaps at the very position reached.
\<close>

definition tracks :: "tiers \<Rightarrow> nat \<Rightarrow> nat \<Rightarrow> nat \<Rightarrow> nat option \<Rightarrow> bool" where
  "tracks t d pos mult nxt \<longleftrightarrow>
     (\<exists>m \<le> pos. get_current_and_future_tier t m d = (mult, nxt) \<and> (\<forall>k. nxt = Some k \<longrightarrow> pos \<le> k))"

lemma tracks_start: "get_current_and_future_tier t c d = (mult, nxt) \<Longrightarrow> keys_sorted t \<Longrightarrow> tracks t d c mult nxt"
  using tier_next(1) [of t c d] by (force simp: tracks_def)

lemma tracks_grow:
  assumes "tracks t d pos mult nxt" and "pos \<le> pos'" and "\<And>k. nxt = Some k \<Longrightarrow> pos' \<le> k"
  shows "tracks t d pos' mult nxt"
  using assms unfolding tracks_def by (meson order_trans)

lemma tracks_exact:
  assumes "tracks t d pos mult nxt" and ok: "tiers_ok t" and "nxt \<noteq> Some pos"
  shows "get_current_and_future_tier t pos d = (mult, nxt)"
proof -
  note srt = tiers_ok_sorted [OF ok]
  obtain m where m: "m \<le> pos" "get_current_and_future_tier t m d = (mult, nxt)"
    "\<And>k. nxt = Some k \<Longrightarrow> pos \<le> k" using assms(1) by (auto simp: tracks_def)
  have gap: "k \<le> m" if "k \<in> fst ` set t" "k \<le> pos" for k
  proof (cases nxt)
    case None
    with tier_next(2) [OF srt, of m d] m(2) have "\<forall>k \<in> fst ` set t. k \<le> m" by simp
    with that(1) show ?thesis by blast
  next
    case (Some n)
    with m(3) assms(3) have "pos < n" by (metis le_neq_implies_less)
    with tier_next(1) [OF srt, of m d n] Some m(2) that show ?thesis by fastforce
  qed
  obtain k v where kv: "(k, v) \<in> set t" "k \<le> m" "\<And>k' v'. (k', v') \<in> set t \<Longrightarrow> k' \<le> m \<Longrightarrow> k' \<le> k"
    using tier_of_position [OF ok] by metis
  have pos: "k' \<le> k" if "(k', v') \<in> set t" "k' \<le> pos" for k' v'
    using gap [of k'] that kv(3) by force
  have kt: "k \<le> pos" using kv(2) m(1) by simp
  have "fst (get_current_and_future_tier t m d) = v" by (rule tier_cost [OF srt kv])
  then have "v = mult" using m(2) by simp
  moreover have "fst (get_current_and_future_tier t pos d) = v" by (rule tier_cost [OF srt kv(1) kt pos])
  ultimately have "fst (get_current_and_future_tier t pos d) = mult" by simp
  moreover have "snd (get_current_and_future_tier t pos d) = nxt"
  proof (cases nxt)
    case None
    with tier_next(2) [OF srt, of m d] m have "\<forall>k \<in> fst ` set t. k \<le> pos" by auto
    with None tier_next(2) [OF srt, of pos d] show ?thesis by simp
  next
    case (Some n)
    with tier_next(1) [OF srt, of m d n] m have n: "n \<in> fst ` set t" "\<forall>k \<in> fst ` set t. m < k \<longrightarrow> n \<le> k" by auto
    have "pos < n" using Some m(3) assms(3) by (metis le_neq_implies_less)
    with n m(1) have "snd (get_current_and_future_tier t pos d) = Some n"
      using tier_next(1) [OF srt, of pos d n] by auto
    with Some show ?thesis by simp
  qed
  ultimately show ?thesis by (metis prod.collapse)
qed

section \<open>The meter invariant\<close>

definition meter_inv :: "gas_status \<Rightarrow> bool" where
  "meter_inv g \<longleftrightarrow>
     table_ok (gs_cost_table g) \<and> gas_left g \<le> initial_budget g \<and>
     stack_height_current g \<le> stack_height_high_water_mark g \<and>
     stack_size_current g \<le> stack_size_high_water_mark g \<and>
     tracks (stack_height_tiers (gs_cost_table g)) STACK_HEIGHT_TIER_DEFAULT (stack_height_high_water_mark g)
       (stack_height_current_tier_mult g) (stack_height_next_tier_start g) \<and>
     tracks (stack_size_tiers (gs_cost_table g)) STACK_SIZE_TIER_DEFAULT (stack_size_high_water_mark g)
       (stack_size_current_tier_mult g) (stack_size_next_tier_start g) \<and>
     tracks (instruction_tiers (gs_cost_table g)) INSTRUCTION_TIER_DEFAULT (instructions_executed g)
       (instructions_current_tier_mult g) (instructions_next_tier_start g)"

text \<open>Later states of a meter: less gas, higher marks and higher prices, the settings as they were.\<close>

definition meter_le :: "gas_status \<Rightarrow> gas_status \<Rightarrow> bool" where
  "meter_le g h \<longleftrightarrow>
     gas_left h \<le> gas_left g \<and> initial_budget h = initial_budget g \<and> gs_charge h = gs_charge g \<and>
     gs_cost_table h = gs_cost_table g \<and> gas_price h = gas_price g \<and>
     gas_model_version h = gas_model_version g \<and>
     stack_height_high_water_mark g \<le> stack_height_high_water_mark h \<and>
     stack_size_high_water_mark g \<le> stack_size_high_water_mark h \<and>
     instructions_executed g \<le> instructions_executed h \<and>
     stack_height_current_tier_mult g \<le> stack_height_current_tier_mult h \<and>
     stack_size_current_tier_mult g \<le> stack_size_current_tier_mult h \<and>
     instructions_current_tier_mult g \<le> instructions_current_tier_mult h"

lemma meter_le_refl [simp]: "meter_le g g"
  by (simp add: meter_le_def)

lemma meter_le_trans: "meter_le g h \<Longrightarrow> meter_le h i \<Longrightarrow> meter_le g i"
  by (simp add: meter_le_def)

text \<open>The tier update that the three counters share.\<close>

lemma tier_update:
  assumes ok: "tiers_ok t" and tr: "tracks t d pos mult nxt" and le: "pos \<le> pos'"
    and cur: "cur \<le> pos'" "pos' = pos \<or> pos' = cur"
    and upd: "(case nxt of None \<Rightarrow> (mult, nxt)
       | Some k \<Rightarrow> if k < cur then get_current_and_future_tier t cur d else (mult, nxt)) = (mult', nxt')"
  shows "tracks t d pos' mult' nxt' \<and> mult \<le> mult'"
proof (cases "\<exists>k. nxt = Some k \<and> k < cur")
  case True
  then obtain k where k: "nxt = Some k" "k < cur" by blast
  obtain m where m: "m \<le> pos" "get_current_and_future_tier t m d = (mult, nxt)" "pos \<le> k"
    using tr k(1) by (auto simp: tracks_def)
  have new: "get_current_and_future_tier t cur d = (mult', nxt')" using upd k by simp
  have p: "pos' = cur" using cur m k(2) by auto
  have "m \<le> cur" using m k(2) by simp
  from tier_mono [OF ok this, of d] m(2) new have "mult \<le> mult'" by simp
  with tracks_start [OF new tiers_ok_sorted [OF ok]] p show ?thesis by simp
next
  case False
  with upd have same: "mult' = mult" "nxt' = nxt" by (auto split: option.splits)
  have "pos' \<le> k" if "nxt = Some k" for k
    using False that cur tr by (auto simp: tracks_def)
  with tracks_grow [OF tr le] same show ?thesis by simp
qed

text \<open>What an operation of the meter keeps.\<close>

definition meter_safe :: "meter_op \<Rightarrow> bool" where
  "meter_safe f \<longleftrightarrow> (\<forall>g. meter_inv g \<longrightarrow> meter_inv (snd (f g)) \<and> meter_le g (snd (f g)))"

lemma meter_safeI: "(\<And>g. meter_inv g \<Longrightarrow> meter_inv (snd (f g)) \<and> meter_le g (snd (f g))) \<Longrightarrow> meter_safe f"
  by (simp add: meter_safe_def)

lemma meter_safeD:
  "meter_safe f \<Longrightarrow> meter_inv g \<Longrightarrow> f g = (r, h) \<Longrightarrow> meter_inv h \<and> meter_le g h"
  by (metis meter_safe_def snd_conv)

lemma and_then_safe: "meter_safe a \<Longrightarrow> meter_safe b \<Longrightarrow> meter_safe (and_then a b)"
  by (auto simp: meter_safe_def and_then_def split: prod.splits sum.splits)
    (metis meter_le_trans snd_conv)+

lemma case_update_snd: "(case p of (a, b) \<Rightarrow> f a b) = f (fst p) (snd p)"
  by (simp add: case_prod_beta)

lemma push_stack_safe: "meter_safe (push_stack n)"
proof (rule meter_safeI)
  fix g assume inv: "meter_inv g"
  define c where "c = stack_height_current g + n"
  define t where "t = stack_height_tiers (gs_cost_table g)"
  define m where "m = (if stack_height_high_water_mark g < c then c else stack_height_high_water_mark g)"
  obtain mult' nxt' where u: "(case stack_height_next_tier_start g of None \<Rightarrow> (stack_height_current_tier_mult g, stack_height_next_tier_start g)
       | Some k \<Rightarrow> if k < c then get_current_and_future_tier t c STACK_HEIGHT_TIER_DEFAULT
          else (stack_height_current_tier_mult g, stack_height_next_tier_start g)) = (mult', nxt')"
    by (metis surj_pair)
  have upd: "tracks t STACK_HEIGHT_TIER_DEFAULT m mult' nxt' \<and> stack_height_current_tier_mult g \<le> mult'"
    by (rule tier_update [OF _ _ _ _ _ u])
      (use inv in \<open>auto simp: meter_inv_def table_ok_def t_def m_def\<close>)
  have h: "push_stack n g = (if c < 2 ^ 64 then (Inr (), g\<lparr>stack_height_high_water_mark := m,
      stack_height_current := c, stack_height_current_tier_mult := mult',
      stack_height_next_tier_start := nxt'\<rparr>) else (Inl ARITHMETIC_OVERFLOW, g))"
    using u by (auto simp: push_stack_def checked_add64_def c_def m_def t_def stack_height_tier_def Let_def
        case_update_snd split: option.splits if_splits)
  have "stack_height_current g \<le> m" "c \<le> m" "stack_height_high_water_mark g \<le> m" by (auto simp: m_def c_def)
  with inv upd show "meter_inv (snd (push_stack n g)) \<and> meter_le g (snd (push_stack n g))"
    by (cases "c < 2 ^ 64") (simp_all add: h meter_inv_def meter_le_def t_def)
qed

lemma increase_stack_size_safe: "meter_safe (increase_stack_size n)"
proof (rule meter_safeI)
  fix g assume inv: "meter_inv g"
  define c where "c = stack_size_current g + n"
  define t where "t = stack_size_tiers (gs_cost_table g)"
  define m where "m = (if stack_size_high_water_mark g < c then c else stack_size_high_water_mark g)"
  obtain mult' nxt' where u: "(case stack_size_next_tier_start g of None \<Rightarrow> (stack_size_current_tier_mult g, stack_size_next_tier_start g)
       | Some k \<Rightarrow> if k < c then get_current_and_future_tier t c STACK_SIZE_TIER_DEFAULT
          else (stack_size_current_tier_mult g, stack_size_next_tier_start g)) = (mult', nxt')"
    by (metis surj_pair)
  have upd: "tracks t STACK_SIZE_TIER_DEFAULT m mult' nxt' \<and> stack_size_current_tier_mult g \<le> mult'"
    by (rule tier_update [OF _ _ _ _ _ u])
      (use inv in \<open>auto simp: meter_inv_def table_ok_def t_def m_def\<close>)
  have h: "increase_stack_size n g = (if c < 2 ^ 64 then (Inr (), g\<lparr>stack_size_high_water_mark := m,
      stack_size_current := c, stack_size_current_tier_mult := mult',
      stack_size_next_tier_start := nxt'\<rparr>) else (Inl ARITHMETIC_OVERFLOW, g))"
    using u by (auto simp: increase_stack_size_def checked_add64_def c_def m_def t_def stack_size_tier_def Let_def
        case_update_snd split: option.splits if_splits)
  have "stack_size_current g \<le> m" "c \<le> m" "stack_size_high_water_mark g \<le> m" by (auto simp: m_def c_def)
  with inv upd show "meter_inv (snd (increase_stack_size n g)) \<and> meter_le g (snd (increase_stack_size n g))"
    by (cases "c < 2 ^ 64") (simp_all add: h meter_inv_def meter_le_def t_def)
qed

lemma increase_instruction_count_safe: "meter_safe (increase_instruction_count n)"
proof (rule meter_safeI)
  fix g assume inv: "meter_inv g"
  define c where "c = instructions_executed g + n"
  define t where "t = instruction_tiers (gs_cost_table g)"
  obtain mult' nxt' where u: "(case instructions_next_tier_start g of None \<Rightarrow> (instructions_current_tier_mult g, instructions_next_tier_start g)
       | Some k \<Rightarrow> if k < c then get_current_and_future_tier t c INSTRUCTION_TIER_DEFAULT
          else (instructions_current_tier_mult g, instructions_next_tier_start g)) = (mult', nxt')"
    by (metis surj_pair)
  have upd: "tracks t INSTRUCTION_TIER_DEFAULT c mult' nxt' \<and> instructions_current_tier_mult g \<le> mult'"
    by (rule tier_update [OF _ _ _ _ _ u])
      (use inv in \<open>auto simp: meter_inv_def table_ok_def t_def c_def\<close>)
  have h: "increase_instruction_count n g = (if c < 2 ^ 64 then (Inr (), g\<lparr>instructions_executed := c,
      instructions_current_tier_mult := mult', instructions_next_tier_start := nxt'\<rparr>)
      else (Inl PC_OVERFLOW, g))"
    using u by (auto simp: increase_instruction_count_def checked_add64_def c_def t_def instruction_tier_def Let_def
        case_update_snd split: option.splits if_splits)
  from inv upd show "meter_inv (snd (increase_instruction_count n g)) \<and>
      meter_le g (snd (increase_instruction_count n g))"
    by (cases "c < 2 ^ 64") (simp_all add: h meter_inv_def meter_le_def t_def c_def)
qed

lemma deduct_gas_safe: "meter_safe (deduct_gas n)"
  by (rule meter_safeI) (auto simp: deduct_gas_def checked_sub64_def meter_inv_def meter_le_def)

lemma pop_stack_safe: "meter_safe (\<lambda>g. (Inr (), pop_stack n g))"
  by (rule meter_safeI) (auto simp: pop_stack_def saturating_sub_def meter_inv_def meter_le_def)

lemma charge_safe: "meter_safe (charge ni pu po inc dec)"
proof -
  have "meter_safe (\<lambda>g. case charge_cost ni pu inc g of
      None \<Rightarrow> (Inl ARITHMETIC_OVERFLOW, g) | Some cost \<Rightarrow> deduct_gas (total_internal cost) g)"
    using deduct_gas_safe by (auto simp: meter_safe_def split: option.splits)
  then show ?thesis
    unfolding charge_def
    by (intro and_then_safe push_stack_safe increase_instruction_count_safe increase_stack_size_safe pop_stack_safe)
qed

text \<open>A charge whose amounts depend on the meter.\<close>

lemma charge_safe_of: "meter_safe (\<lambda>g. charge (a g) (b g) (c g) (d g) (e g) g)"
  using charge_safe by (auto simp: meter_safe_def)

lemma deduct_gas_safe_of: "meter_safe (\<lambda>g. deduct_gas (f g) g)"
  using deduct_gas_safe by (auto simp: meter_safe_def)

lemma charge_bytes_safe: "meter_safe (charge_bytes n c)"
proof (rule meter_safeI)
  fix g assume inv: "meter_inv g"
  note safe = and_then_safe [OF increase_stack_size_safe deduct_gas_safe_of]
  show "meter_inv (snd (charge_bytes n c g)) \<and> meter_le g (snd (charge_bytes n c g))"
  proof (cases "charge_input_as_memory (gas_model_version g)")
    case True
    show ?thesis
      unfolding charge_bytes_def if_P [OF True] by (rule safe [unfolded meter_safe_def, rule_format, OF inv])
  next
    case False
    show ?thesis
      unfolding charge_bytes_def if_not_P [OF False]
      by (rule deduct_gas_safe [unfolded meter_safe_def, rule_format, OF inv])
  qed
qed

lemma charge_native_function_safe: "meter_safe (charge_native_function n vs)"
proof (rule meter_safeI)
  fix g assume "meter_inv g"
  moreover obtain pushes sz where "charge_native_function n vs g = and_then (charge 0 pushes 0 sz 0) (deduct_gas n) g"
    by (auto simp: charge_native_function_def Let_def)
  ultimately show "meter_inv (snd (charge_native_function n vs g)) \<and> meter_le g (snd (charge_native_function n vs g))"
    using and_then_safe [OF charge_safe deduct_gas_safe] by (metis meter_safe_def)
qed

lemmas charge_defs = charge_simple_instr_def charge_pop_def charge_native_function_before_execution_def
  charge_call_def charge_call_generic_def charge_ld_const_def charge_copy_loc_def charge_move_loc_def
  charge_store_loc_def charge_pack_def charge_unpack_def charge_read_ref_def charge_write_ref_def
  charge_eq_def charge_neq_def charge_vec_pack_def charge_vec_len_def charge_vec_borrow_def
  charge_vec_push_back_def charge_vec_pop_back_def charge_vec_unpack_def charge_vec_swap_def

lemma meter_call_safe: "meter_safe (meter_call_step e)"
proof (cases e)
  case (NativeFunction n vs)
  then show ?thesis by (simp add: charge_native_function_safe)
next
  case (Bytes n c)
  then show ?thesis by (simp add: charge_bytes_safe)
qed (use charge_safe charge_safe_of in
    \<open>auto simp: meter_safe_def charge_defs Let_def split: prod.splits\<close>)

lemma gas_status_new_inv:
  assumes "gas_status_new t b p v = Some g" and "table_ok t"
  shows "meter_inv g" "initial_budget g = to_internal_units (b div p)" "gas_left g = initial_budget g"
    "gs_charge g" "gas_price g = p" "gas_model_version g = v" "0 < p"
proof -
  have tr: "tracks ts d 0 (fst (get_current_and_future_tier ts 0 d)) (snd (get_current_and_future_tier ts 0 d))"
    if "tiers_ok ts" for ts d
    by (rule tracks_start) (simp_all add: tiers_ok_sorted [OF that])
  have p: "0 < p" and g: "g = \<lparr>gas_model_version = v, gs_cost_table = t,
      gas_left = to_internal_units (b div p), gas_price = p,
      initial_budget = to_internal_units (b div p), gs_charge = True,
      stack_height_high_water_mark = 0, stack_height_current = 0,
      stack_height_next_tier_start = snd (stack_height_tier t 0),
      stack_height_current_tier_mult = fst (stack_height_tier t 0),
      stack_size_high_water_mark = 0, stack_size_current = 0,
      stack_size_next_tier_start = snd (stack_size_tier t 0),
      stack_size_current_tier_mult = fst (stack_size_tier t 0),
      instructions_executed = 0,
      instructions_next_tier_start = snd (instruction_tier t 0),
      instructions_current_tier_mult = fst (instruction_tier t 0)\<rparr>"
    using assms(1) by (auto simp: gas_status_new_def option_simps Let_def case_update_snd)
  show "meter_inv g" "initial_budget g = to_internal_units (b div p)" "gas_left g = initial_budget g"
    "gs_charge g" "gas_price g = p" "gas_model_version g = v"
    using assms(2) by (simp_all add: g meter_inv_def table_ok_def tr stack_height_tier_def
        stack_size_tier_def instruction_tier_def)
  show "0 < p" by (rule p)
qed

text \<open>The price of a successful charge, at the multipliers reached with it.\<close>

lemma push_stack_Inr:
  assumes "push_stack n g = (Inr u, h)"
  shows "stack_height_current h = stack_height_current g + n" "gas_left h = gas_left g" "gs_charge h = gs_charge g"
    "stack_size_current h = stack_size_current g" "instructions_executed h = instructions_executed g"
  using assms by (auto simp: push_stack_def checked_add64_def Let_def case_update_snd split: option.splits if_splits)

lemma increase_instruction_count_Inr:
  assumes "increase_instruction_count n g = (Inr u, h)"
  shows "stack_height_current h = stack_height_current g" "gas_left h = gas_left g" "gs_charge h = gs_charge g"
    "stack_size_current h = stack_size_current g" "instructions_executed h = instructions_executed g + n"
  using assms by (auto simp: increase_instruction_count_def checked_add64_def Let_def case_update_snd
      split: option.splits if_splits)

lemma increase_stack_size_Inr:
  assumes "increase_stack_size n g = (Inr u, h)"
  shows "stack_height_current h = stack_height_current g" "gas_left h = gas_left g" "gs_charge h = gs_charge g"
    "stack_size_current h = stack_size_current g + n" "instructions_executed h = instructions_executed g"
  using assms by (auto simp: increase_stack_size_def checked_add64_def Let_def case_update_snd
      split: option.splits if_splits)

lemma and_then_Inr:
  "and_then a b g = (Inr u, h) \<longleftrightarrow> (\<exists>u' i. a g = (Inr u', i) \<and> b i = (Inr u, h))"
  by (auto simp: and_then_def split: prod.splits sum.splits)

lemma charge_exact:
  assumes "charge ni pu po inc dec g = (Inr u, h)" and "gs_charge g"
  shows "gas_left g = gas_left h + add64 (add64 (instructions_current_tier_mult h * ni)
      (stack_size_current_tier_mult h * inc)) (stack_height_current_tier_mult h * pu)"
    "instructions_executed h = instructions_executed g + ni"
    "stack_size_current h = stack_size_current g + inc"
    "stack_height_current h = stack_height_current g + pu - po"
proof -
  from assms(1) obtain g1 g2 g3 g4 u1 u2 u3 u4 where
    1: "push_stack pu g = (Inr u1, g1)" and 2: "increase_instruction_count ni g1 = (Inr u2, g2)"
    and 3: "increase_stack_size inc g2 = (Inr u3, g3)"
    and 4: "(case charge_cost ni pu inc g3 of None \<Rightarrow> (Inl ARITHMETIC_OVERFLOW, g3)
      | Some cost \<Rightarrow> deduct_gas (total_internal cost) g3) = (Inr u4, g4)"
    and h: "h = pop_stack po g4"
    unfolding charge_def and_then_Inr by auto
  note eqs = push_stack_Inr [OF 1] increase_instruction_count_Inr [OF 2] increase_stack_size_Inr [OF 3]
  define amount where "amount = add64 (add64 (instructions_current_tier_mult g3 * ni)
      (stack_size_current_tier_mult g3 * inc)) (stack_height_current_tier_mult g3 * pu)"
  have "deduct_gas amount g3 = (Inr u4, g4)"
    using 4 by (auto simp: charge_cost_def amount_def total_internal_def option_simps split: option.splits)
  then have le: "amount \<le> gas_left g3" and g4: "g4 = g3\<lparr>gas_left := gas_left g3 - amount\<rparr>"
    using assms(2) eqs by (auto simp: deduct_gas_def checked_sub64_def split: if_splits)
  show "gas_left g = gas_left h + add64 (add64 (instructions_current_tier_mult h * ni)
      (stack_size_current_tier_mult h * inc)) (stack_height_current_tier_mult h * pu)"
    using le eqs by (simp add: h g4 pop_stack_def flip: amount_def)
  show "instructions_executed h = instructions_executed g + ni"
    "stack_size_current h = stack_size_current g + inc"
    "stack_height_current h = stack_height_current g + pu - po"
    using eqs by (simp_all add: h g4 pop_stack_def saturating_sub_def)
qed

section \<open>What a meter promises\<close>

text \<open>
  The interface of a gas meter for its client, who makes calls until one fails: the gas left only falls
  and the budget stays, so the gas used is always within the budget.
\<close>

locale meter =
  fixes inv :: "'s \<Rightarrow> bool" and left :: "'s \<Rightarrow> nat" and budget :: "'s \<Rightarrow> nat"
    and step :: "'e \<Rightarrow> 's \<Rightarrow> ('x + unit) \<times> 's"
  assumes step_inv: "inv s \<Longrightarrow> inv (snd (step e s))"
    and step_left: "inv s \<Longrightarrow> left (snd (step e s)) \<le> left s"
    and step_budget: "inv s \<Longrightarrow> budget (snd (step e s)) = budget s"
    and inv_left: "inv s \<Longrightarrow> left s \<le> budget s"
begin

fun run :: "'e list \<Rightarrow> 's \<Rightarrow> ('x + unit) \<times> 's" where
  "run [] s = (Inr (), s)"
| "run (e # es) s = (case step e s of (Inl x, s) \<Rightarrow> (Inl x, s) | (Inr _, s) \<Rightarrow> run es s)"

lemma run_ok: "inv s \<Longrightarrow> inv (snd (run es s)) \<and> left (snd (run es s)) \<le> left s \<and> budget (snd (run es s)) = budget s"
proof (induction es arbitrary: s)
  case (Cons e es)
  obtain r s' where step: "step e s = (r, s')" by (cases "step e s")
  have s': "inv s'" "left s' \<le> left s" "budget s' = budget s"
    using Cons.prems step_inv step_left step_budget step by (metis snd_conv)+
  with Cons.IH [OF s'(1)] step show ?case by (auto split: sum.splits)
qed simp

lemma run_append:
  "run (es @ fs) s = (case run es s of (Inl x, s) \<Rightarrow> (Inl x, s) | (Inr _, s) \<Rightarrow> run fs s)"
  by (induction es arbitrary: s) (auto split: prod.splits sum.splits)

lemma run_prefix_left:
  assumes "inv s"
  shows "left (snd (run (es @ fs) s)) \<le> left (snd (run es s))"
proof -
  obtain r s' where r: "run es s = (r, s')" by (cases "run es s")
  with run_ok [OF assms, of es] have "inv s'" by simp
  with run_ok [OF this, of fs] r show ?thesis by (cases r) (simp_all add: run_append)
qed

end

interpretation vm: meter meter_inv gas_left initial_budget meter_call_step
proof
  fix s e assume inv: "meter_inv s"
  from meter_call_safe [of e, unfolded meter_safe_def, rule_format, OF inv]
  show "meter_inv (snd (meter_call_step e s))" "gas_left (snd (meter_call_step e s)) \<le> gas_left s"
    "initial_budget (snd (meter_call_step e s)) = initial_budget s"
    by (simp_all add: meter_le_def)
next
  fix s assume "meter_inv s"
  then show "gas_left s \<le> initial_budget s" by (simp add: meter_inv_def)
qed

lemma meter_calls_run: "meter_calls cs g = vm.run cs g"
  by (induction cs arbitrary: g) (auto simp: and_then_def split: prod.splits sum.splits)

lemma meter_calls_safe: "meter_safe (meter_calls cs)"
proof (induction cs)
  case Nil
  show ?case by (rule meter_safeI) simp
next
  case (Cons c cs)
  have "meter_calls (c # cs) = and_then (meter_call_step c) (meter_calls cs)" by (rule ext) simp
  with and_then_safe [OF meter_call_safe Cons] show ?case by simp
qed

lemma gas_used_pre_gas_price_inv:
  "meter_inv g \<Longrightarrow> gas_used_pre_gas_price g = min ((initial_budget g - gas_left g) div 1000) u64_max"
  by (simp add: gas_used_pre_gas_price_def checked_sub64_def to_unit_round_down_def meter_inv_def)

lemma gas_used_bound: "meter_inv g \<Longrightarrow> gas_used_pre_gas_price g \<le> initial_budget g div 1000"
  by (simp add: gas_used_pre_gas_price_inv min.coboundedI1 div_le_mono)

text \<open>What a fresh meter has used after any calls.\<close>

lemma meter_calls_budget:
  assumes "gas_status_new t b p v = Some g" and "table_ok t" and "meter_calls cs g = (r, h)"
  shows "meter_inv h" "meter_le g h" "gas_used_pre_gas_price h * p \<le> b"
proof -
  note g = gas_status_new_inv [OF assms(1,2)]
  show h: "meter_inv h" "meter_le g h"
    using meter_safeD [OF meter_calls_safe g(1) assms(3)] by blast+
  have "initial_budget h = to_internal_units (b div p)" using h(2) g(2) by (simp add: meter_le_def)
  also have "\<dots> \<le> b div p * 1000"
    by (simp add: to_internal_units_def mul64_def INTERNAL_UNIT_MULTIPLIER_def)
  finally have "initial_budget h div 1000 \<le> b div p" by simp
  with gas_used_bound [OF h(1)] have "gas_used_pre_gas_price h \<le> b div p" by simp
  then have "gas_used_pre_gas_price h * p \<le> b div p * p" by (rule mult_le_mono1)
  then show "gas_used_pre_gas_price h * p \<le> b" by (meson div_times_less_eq_dividend le_trans)
qed

text \<open>The price of a charge: the tiers of the highest positions reached with it.\<close>

lemma charge_tiers:
  assumes inv: "meter_inv g" and "gs_charge g" and run: "charge ni pu po inc dec g = (Inr u, h)"
    and fresh: "instructions_next_tier_start h \<noteq> Some (instructions_executed h)"
      "stack_size_next_tier_start h \<noteq> Some (stack_size_high_water_mark h)"
      "stack_height_next_tier_start h \<noteq> Some (stack_height_high_water_mark h)"
  shows "gas_left g = gas_left h + add64 (add64
      (fst (instruction_tier (gs_cost_table g) (instructions_executed h)) * ni)
      (fst (stack_size_tier (gs_cost_table g) (stack_size_high_water_mark h)) * inc))
      (fst (stack_height_tier (gs_cost_table g) (stack_height_high_water_mark h)) * pu)"
proof -
  have h: "meter_inv h" "meter_le g h" using meter_safeD [OF charge_safe inv run] by blast+
  then have t: "gs_cost_table h = gs_cost_table g" by (simp add: meter_le_def)
  have "table_ok (gs_cost_table g)" using inv by (simp add: meter_inv_def)
  then have ok: "tiers_ok (instruction_tiers (gs_cost_table g))" "tiers_ok (stack_size_tiers (gs_cost_table g))"
    "tiers_ok (stack_height_tiers (gs_cost_table g))" by (simp_all add: table_ok_def)
  have tr: "tracks (instruction_tiers (gs_cost_table g)) INSTRUCTION_TIER_DEFAULT (instructions_executed h)
       (instructions_current_tier_mult h) (instructions_next_tier_start h)"
    "tracks (stack_size_tiers (gs_cost_table g)) STACK_SIZE_TIER_DEFAULT (stack_size_high_water_mark h)
       (stack_size_current_tier_mult h) (stack_size_next_tier_start h)"
    "tracks (stack_height_tiers (gs_cost_table g)) STACK_HEIGHT_TIER_DEFAULT (stack_height_high_water_mark h)
       (stack_height_current_tier_mult h) (stack_height_next_tier_start h)"
    using h(1) unfolding meter_inv_def t by blast+
  show ?thesis
    using charge_exact(1) [OF run assms(2)]
    unfolding instruction_tier_def stack_size_tier_def stack_height_tier_def
      tracks_exact [OF tr(1) ok(1) fresh(1)] tracks_exact [OF tr(2) ok(2) fresh(2)]
      tracks_exact [OF tr(3) ok(3) fresh(3)] fst_conv .
qed

end
