(* ===== verification/Objects.thy ===== *)
theory Objects
  imports Prelude
begin

text \<open>
  On-chain objects: \<^verbatim>\<open>crates/sui-types/src/object.rs\<close>, the object types of \<^verbatim>\<open>base_types.rs\<close>, package
  sizes of \<^verbatim>\<open>move_package.rs\<close> and the system packages of \<^verbatim>\<open>lib.rs\<close>. A coin is a Move object whose bytes
  are its 32-byte identifier and its balance in little-endian order; the balance is read and written in
  those bytes, and a Move object's identifier is parsed from them.
\<close>

section \<open>Data\<close>

text \<open>
  An \<^verbatim>\<open>ObjectID\<close> is 32 bytes, compared in order, which is the order of the number they write in
  big-endian order; that number stands for it. Addresses and digests are numbers in the same way.
\<close>

type_synonym object_id = nat
type_synonym sui_address = nat
type_synonym tx_digest = nat
type_synonym object_digest = nat

definition ID_LENGTH :: nat where "ID_LENGTH = 32"

definition id_from_bytes :: "bytes \<Rightarrow> object_id" where
  "id_from_bytes bs = foldl (\<lambda>n b. 256 * n + unat b) 0 bs"

datatype move_object_type = Other string | GasCoin | StakedSui | CoinOf string

definition gas_type_tag :: string where "gas_type_tag = ''0x2::sui::SUI''"

fun is_coin :: "move_object_type \<Rightarrow> bool" where
  "is_coin GasCoin = True"
| "is_coin (CoinOf _) = True"
| "is_coin StakedSui = False"
| "is_coin (Other _) = False"

fun is_gas_coin :: "move_object_type \<Rightarrow> bool" where
  "is_gas_coin GasCoin = True"
| "is_gas_coin StakedSui = False"
| "is_gas_coin (CoinOf _) = False"
| "is_gas_coin (Other _) = False"

fun coin_type_maybe :: "move_object_type \<Rightarrow> string option" where
  "coin_type_maybe GasCoin = Some gas_type_tag"
| "coin_type_maybe (CoinOf inner) = Some inner"
| "coin_type_maybe StakedSui = None"
| "coin_type_maybe (Other _) = None"

record move_object =
  mo_type :: move_object_type
  has_public_transfer :: bool
  mo_version :: nat
  contents :: bytes

record type_origin =
  origin_module :: string
  origin_struct :: string
  origin_package :: object_id

record upgrade_info =
  upgraded_id :: object_id
  upgraded_version :: nat

record move_package =
  pkg_id :: object_id
  pkg_version :: nat
  module_map :: "(string, bytes) btree_map"
  type_origin_table :: "type_origin list"
  linkage_table :: "(object_id, upgrade_info) btree_map"

datatype object_data = Move move_object | Package move_package

datatype owner = AddressOwner sui_address | ObjectOwner sui_address | Shared nat | Immutable

record object =
  obj_data :: object_data
  obj_owner :: owner
  obj_previous_transaction :: tx_digest
  obj_storage_rebate :: nat

section \<open>Operations\<close>

definition id_opt :: "bytes \<Rightarrow> object_id option" where
  "id_opt bs = (if length bs < ID_LENGTH then None else Some (id_from_bytes (take ID_LENGTH bs)))"

definition move_id :: "move_object \<Rightarrow> object_id option" where
  "move_id m = id_opt (contents m)"

fun data_id :: "object_data \<Rightarrow> object_id option" where
  "data_id (Move m) = move_id m"
| "data_id (Package p) = Some (pkg_id p)"

definition object_id_of :: "object \<Rightarrow> object_id option" where
  "object_id_of ob = data_id (obj_data ob)"

type_synonym object_ref = "object_id \<times> nat \<times> object_digest"

definition object_version :: "object \<Rightarrow> nat" where
  "object_version ob = (case obj_data ob of Move m \<Rightarrow> mo_version m | Package p \<Rightarrow> pkg_version p)"

fun try_as_move :: "object_data \<Rightarrow> move_object option" where
  "try_as_move (Move m) = Some m"
| "try_as_move (Package p) = None"

text \<open>\<^verbatim>\<open>u64::to_le_bytes\<close> and \<^verbatim>\<open>u64::from_le_bytes\<close>.\<close>

fun le_bytes :: "nat \<Rightarrow> nat \<Rightarrow> bytes" where
  "le_bytes 0 n = []"
| "le_bytes (Suc k) n = of_nat n # le_bytes k (n div 256)"

fun from_le_bytes :: "bytes \<Rightarrow> nat" where
  "from_le_bytes [] = 0"
| "from_le_bytes (b # bs) = unat b + 256 * from_le_bytes bs"

definition get_coin_value_unsafe :: "move_object \<Rightarrow> nat option" where
  "get_coin_value_unsafe m =
     (if ID_LENGTH \<le> length (contents m) \<and> length (drop ID_LENGTH (contents m)) = 8
      then Some (from_le_bytes (drop ID_LENGTH (contents m))) else None)"

definition set_coin_value_unsafe :: "nat \<Rightarrow> move_object \<Rightarrow> move_object option" where
  "set_coin_value_unsafe v m =
     (if ID_LENGTH \<le> length (contents m)
      then Some (m\<lparr>contents := take ID_LENGTH (contents m) @ le_bytes 8 v\<rparr>) else None)"

fun is_immutable :: "owner \<Rightarrow> bool" where
  "is_immutable Immutable = True"
| "is_immutable _ = False"

fun is_address_owned :: "owner \<Rightarrow> bool" where
  "is_address_owned (AddressOwner _) = True"
| "is_address_owned _ = False"

definition is_package :: "object \<Rightarrow> bool" where
  "is_package ob \<longleftrightarrow> (case obj_data ob of Package _ \<Rightarrow> True | Move _ \<Rightarrow> False)"

definition is_system_package :: "object_id \<Rightarrow> bool" where
  "is_system_package i \<longleftrightarrow> i \<in> {1, 2, 3, 0xdee9}"

definition SUI_SYSTEM_STATE_OBJECT_ID :: object_id where "SUI_SYSTEM_STATE_OBJECT_ID = 5"

text \<open>
  What the code takes from libraries and the compiler is a parameter: the serialized size of a type
  (BCS), the size of \<^verbatim>\<open>Owner\<close> in memory, and the hash of an object.
\<close>

record object_lib =
  type_size :: "move_object_type \<Rightarrow> nat"
  owner_size :: nat
  object_hash :: "object \<Rightarrow> object_digest"

definition package_size :: "move_package \<Rightarrow> nat" where
  "package_size p =
     (let module_map_size = sum64 (map (\<lambda>(name, module). length name + length module) (module_map p));
          type_origin_table_size =
            sum64 (map (\<lambda>t. length (origin_module t) + length (origin_struct t) + ID_LENGTH) (type_origin_table p));
          linkage_table_size = mul64 (length (linkage_table p)) (ID_LENGTH + (ID_LENGTH + 8))
      in add64 (add64 (add64 8 module_map_size) type_origin_table_size) linkage_table_size)"

definition move_object_size :: "object_lib \<Rightarrow> move_object \<Rightarrow> nat" where
  "move_object_size l m = add64 (add64 (add64 (length (contents m)) (type_size l (mo_type m))) 1) 8"

definition object_size_for_gas_metering :: "object_lib \<Rightarrow> object \<Rightarrow> nat" where
  "object_size_for_gas_metering l ob =
     (let meta_data_size = add64 (add64 (owner_size l) 32) 8;
          data_size = (case obj_data ob of Move m \<Rightarrow> move_object_size l m | Package p \<Rightarrow> package_size p)
      in add64 meta_data_size data_size)"

text \<open>
  The SUI in an object: its storage rebate and what its Move value holds. The walk through a Move value that
  is not a coin, over the layout of its type, is a parameter; it may fail, which is the inner option here.
\<close>

definition move_total_sui :: "(move_object \<Rightarrow> nat option) \<Rightarrow> move_object \<Rightarrow> nat option option" where
  "move_total_sui embedded m =
     (case coin_type_maybe (mo_type m) of
        Some tag \<Rightarrow> do {
          balance \<leftarrow> get_coin_value_unsafe m;
          Some (Some (if 0 < balance \<and> tag = gas_type_tag then balance else 0))
        }
      | None \<Rightarrow> Some (embedded m))"

definition get_total_sui :: "(move_object \<Rightarrow> nat option) \<Rightarrow> object \<Rightarrow> nat option option" where
  "get_total_sui embedded ob = do {
     v \<leftarrow> (case obj_data ob of Move m \<Rightarrow> move_total_sui embedded m | Package _ \<Rightarrow> Some (Some 0));
     Some (map_option (add64 (obj_storage_rebate ob)) v)
   }"

section \<open>Coins\<close>

lemma length_le_bytes [simp]: "length (le_bytes k n) = k"
  by (induction k arbitrary: n) auto

lemma from_le_bytes_le_bytes: "from_le_bytes (le_bytes k n) = n mod 256 ^ k"
proof (induction k arbitrary: n)
  case (Suc k)
  have "from_le_bytes (le_bytes (Suc k) n) = n mod 256 + 256 * (n div 256 mod 256 ^ k)"
    by (simp add: Suc unat_of_nat)
  also have "\<dots> = n mod 256 ^ Suc k"
    by (simp add: mod_mult2_eq add.commute)
  finally show ?case .
qed simp

lemma from_le_bytes_less: "from_le_bytes bs < 256 ^ length bs"
proof (induction bs)
  case (Cons b bs)
  have "unat b < 256" using unsigned_less [of b] by simp
  with Cons show ?case by (simp add: algebra_simps)
qed simp

lemma le_bytes_from_le_bytes: "le_bytes (length bs) (from_le_bytes bs) = bs"
proof (induction bs)
  case (Cons b bs)
  have "unat b < 256" using unsigned_less [of b] by simp
  moreover have "(of_nat (unat b + 256 * from_le_bytes bs) :: 8 word) = b"
    using \<open>unat b < 256\<close> unfolding word_unat_eq_iff unat_of_nat by simp
  ultimately show ?case by (simp add: Cons)
qed simp

text \<open>A gas coin: a Move object of the right type and length.\<close>

definition coin_ok :: "object \<Rightarrow> bool" where
  "coin_ok ob \<longleftrightarrow> (case obj_data ob of Move m \<Rightarrow> is_gas_coin (mo_type m) \<and> length (contents m) = 40 | Package _ \<Rightarrow> False)"

definition coin_value :: "object \<Rightarrow> nat" where
  "coin_value ob = (case obj_data ob of Move m \<Rightarrow> from_le_bytes (drop ID_LENGTH (contents m)) | Package _ \<Rightarrow> 0)"

lemma coin_okE:
  assumes "coin_ok ob"
  obtains m where "obj_data ob = Move m" "is_gas_coin (mo_type m)" "length (contents m) = 40"
    "get_coin_value_unsafe m = Some (coin_value ob)"
  using assms by (auto simp: coin_ok_def coin_value_def get_coin_value_unsafe_def ID_LENGTH_def split: object_data.splits)

lemma coin_value_less: "coin_ok ob \<Longrightarrow> coin_value ob < 2 ^ 64"
proof (elim coin_okE)
  fix m assume m: "obj_data ob = Move m" "length (contents m) = 40"
  then show "coin_value ob < 2 ^ 64"
    using from_le_bytes_less [of "drop ID_LENGTH (contents m)"] by (simp add: coin_value_def ID_LENGTH_def)
qed

text \<open>Writing a balance and reading it back; the identifier and the type stay.\<close>

lemma set_coin_value:
  assumes "length (contents m) = 40" and "v < 2 ^ 64"
  obtains m' where "set_coin_value_unsafe v m = Some m'" "get_coin_value_unsafe m' = Some v"
    "move_id m' = move_id m" "mo_type m' = mo_type m" "length (contents m') = 40"
    "mo_version m' = mo_version m"
proof (rule that)
  let ?m = "m\<lparr>contents := take ID_LENGTH (contents m) @ le_bytes 8 v\<rparr>"
  show "set_coin_value_unsafe v m = Some ?m" using assms by (simp add: set_coin_value_unsafe_def ID_LENGTH_def)
  have "v mod 256 ^ 8 = v" using assms(2) by simp
  then show "get_coin_value_unsafe ?m = Some v"
    using assms by (simp add: get_coin_value_unsafe_def ID_LENGTH_def from_le_bytes_le_bytes)
qed (use assms in \<open>simp_all add: move_id_def id_opt_def ID_LENGTH_def\<close>)

lemma get_set_coin_value:
  assumes "get_coin_value_unsafe m = Some v"
  shows "set_coin_value_unsafe v m = Some m"
proof -
  let ?c = "contents m"
  have c: "ID_LENGTH \<le> length ?c" "length (drop ID_LENGTH ?c) = 8" "v = from_le_bytes (drop ID_LENGTH ?c)"
    using assms by (auto simp: get_coin_value_unsafe_def split: if_splits)
  have "le_bytes 8 v = drop ID_LENGTH ?c" using le_bytes_from_le_bytes [of "drop ID_LENGTH ?c"] c by metis
  with c(1) show ?thesis by (simp add: set_coin_value_unsafe_def)
qed

text \<open>Putting the old balance back restores the object.\<close>

lemma set_coin_value_restore:
  assumes "get_coin_value_unsafe m = Some u" and "set_coin_value_unsafe v m = Some m'"
  shows "set_coin_value_unsafe u m' = Some m"
proof -
  have m': "m' = m\<lparr>contents := take ID_LENGTH (contents m) @ le_bytes 8 v\<rparr>" "ID_LENGTH \<le> length (contents m)"
    using assms(2) by (auto simp: set_coin_value_unsafe_def split: if_splits)
  then have "set_coin_value_unsafe u m' = set_coin_value_unsafe u m"
    by (simp add: set_coin_value_unsafe_def)
  with get_set_coin_value [OF assms(1)] show ?thesis by simp
qed

text \<open>Replacing the balance of a coin object.\<close>

definition with_coin_value :: "nat \<Rightarrow> object \<Rightarrow> object option" where
  "with_coin_value v ob = do {
     m \<leftarrow> try_as_move (obj_data ob);
     m \<leftarrow> set_coin_value_unsafe v m;
     Some (ob\<lparr>obj_data := Move m\<rparr>)
   }"

lemma with_coin_value:
  assumes "coin_ok ob" and "v < 2 ^ 64"
  obtains ob' where "with_coin_value v ob = Some ob'" "coin_ok ob'" "coin_value ob' = v"
    "object_id_of ob' = object_id_of ob" "obj_storage_rebate ob' = obj_storage_rebate ob"
    "obj_owner ob' = obj_owner ob" "object_version ob' = object_version ob"
proof -
  obtain m where m: "obj_data ob = Move m" "is_gas_coin (mo_type m)" "length (contents m) = 40"
    using assms(1) by (rule coin_okE)
  obtain m' where m': "set_coin_value_unsafe v m = Some m'" "get_coin_value_unsafe m' = Some v"
    "move_id m' = move_id m" "mo_type m' = mo_type m" "length (contents m') = 40" "mo_version m' = mo_version m"
    using set_coin_value [OF m(3) assms(2)] .
  show ?thesis
    by (rule that [of "ob\<lparr>obj_data := Move m'\<rparr>"])
      (use m m' in \<open>auto simp: with_coin_value_def coin_ok_def coin_value_def object_id_of_def object_version_def
        get_coin_value_unsafe_def split: if_splits\<close>)
qed

end
