(* ===== verification/SuiGas.thy ===== *)
theory SuiGas
  imports GasTables Objects
begin

text \<open>
  Gas accounting of a transaction: \<^verbatim>\<open>crates/sui-types/src/gas_model/gas_v2.rs\<close> (buckets, the storage
  rebate, \<open>SuiGasStatus\<close>) and \<^verbatim>\<open>crates/sui-types/src/gas.rs\<close> (the cost summary, its checks and the gas
  coin). Both modules are under \<^verbatim>\<open>with_checked_arithmetic\<close>: an operator that overflows panics, which is
  \<open>None\<close>; the sums over iterators still wrap. The protocol configuration is the record of the values the
  code reads from it.
\<close>

section \<open>Checked arithmetic of wider and signed integers\<close>

definition checked_mul128 :: "nat \<Rightarrow> nat \<Rightarrow> nat option" where
  "checked_mul128 a b = (if a * b < 2 ^ 128 then Some (a * b) else None)"

definition checked_add128 :: "nat \<Rightarrow> nat \<Rightarrow> nat option" where
  "checked_add128 a b = (if a + b < 2 ^ 128 then Some (a + b) else None)"

text \<open>The cast \<^verbatim>\<open>as i64\<close> and \<^verbatim>\<open>i64::checked_sub\<close>, \<^verbatim>\<open>i64::checked_neg\<close>.\<close>

definition as_i64 :: "nat \<Rightarrow> int" where
  "as_i64 n = (if n < 2 ^ 63 then int n else int n - 2 ^ 64)"

definition as_u64 :: "int \<Rightarrow> nat" where
  "as_u64 i = nat (i mod 2 ^ 64)"

definition checked_sub_i64 :: "int \<Rightarrow> int \<Rightarrow> int option" where
  "checked_sub_i64 a b = (if - (2 ^ 63) \<le> a - b \<and> a - b < 2 ^ 63 then Some (a - b) else None)"

definition checked_neg_i64 :: "int \<Rightarrow> int option" where
  "checked_neg_i64 a = (if a = - (2 ^ 63) then None else Some (- a))"

section \<open>Costs\<close>

record computation_bucket =
  bucket_min :: nat
  bucket_max :: nat
  bucket_cost :: nat

definition bucket_simple :: "nat \<Rightarrow> nat \<Rightarrow> computation_bucket" where
  "bucket_simple lo hi = \<lparr>bucket_min = lo, bucket_max = hi, bucket_cost = hi\<rparr>"

definition get_bucket_cost :: "computation_bucket list \<Rightarrow> nat \<Rightarrow> nat" where
  "get_bucket_cost table computation_cost =
     (case find (\<lambda>b. computation_cost \<le> bucket_max b) table of
        Some b \<Rightarrow> bucket_cost b
      | None \<Rightarrow> if table = [] then 5000000 else bucket_cost (last table))"

definition computation_bucket_table :: "nat \<Rightarrow> computation_bucket list option" where
  "computation_bucket_table max_bucket_cost = do {
     rust_assert (5000000 \<le> max_bucket_cost);
     Some [bucket_simple 0 1000, bucket_simple 1000 5000, bucket_simple 5000 10000,
           bucket_simple 10000 20000, bucket_simple 20000 50000, bucket_simple 50000 200000,
           bucket_simple 200000 1000000, bucket_simple 1000000 max_bucket_cost]
   }"

definition BASIS_POINTS :: nat where "BASIS_POINTS = 10000"

definition sender_rebate :: "nat \<Rightarrow> nat \<Rightarrow> nat option" where
  "sender_rebate storage_rebate storage_rebate_rate = do {
     p \<leftarrow> checked_mul128 storage_rebate storage_rebate_rate;
     q \<leftarrow> checked_add128 p (BASIS_POINTS div 2);
     Some (q div BASIS_POINTS mod 2 ^ 64)
   }"

record protocol_config =
  cfg_txn_base_cost_as_multiplier :: bool
  base_tx_cost_fixed :: nat
  max_tx_gas :: nat
  package_publish_cost_per_byte :: nat
  obj_access_cost_read_per_byte :: nat
  obj_data_cost_refundable :: nat
  cfg_gas_model_version :: nat
  max_gas_computation_bucket :: nat
  cfg_storage_gas_price :: nat
  storage_rebate_rate :: nat
  gas_rounding_step_as_option :: "nat option"
  max_gas_price :: nat

record sui_cost_table =
  min_transaction_cost :: nat
  max_gas_budget :: nat
  package_publish_per_byte_cost :: nat
  object_read_per_byte_cost :: nat
  storage_per_byte_cost :: nat
  execution_cost_table :: cost_table
  computation_buckets :: "computation_bucket list"

definition sui_cost_table_new :: "protocol_config \<Rightarrow> nat \<Rightarrow> sui_cost_table option" where
  "sui_cost_table_new c price = do {
     min_cost \<leftarrow> (if cfg_txn_base_cost_as_multiplier c then checked_mul64 (base_tx_cost_fixed c) price
                  else Some (base_tx_cost_fixed c));
     buckets \<leftarrow> computation_bucket_table (max_gas_computation_bucket c);
     Some \<lparr>min_transaction_cost = min_cost, max_gas_budget = max_tx_gas c,
           package_publish_per_byte_cost = package_publish_cost_per_byte c,
           object_read_per_byte_cost = obj_access_cost_read_per_byte c,
           storage_per_byte_cost = obj_data_cost_refundable c,
           execution_cost_table = cost_table_for_version (cfg_gas_model_version c),
           computation_buckets = buckets\<rparr>
   }"

definition sui_cost_table_unmetered :: "sui_cost_table option" where
  "sui_cost_table_unmetered = do {
     buckets \<leftarrow> computation_bucket_table 5000000;
     Some \<lparr>min_transaction_cost = 0, max_gas_budget = u64_max, package_publish_per_byte_cost = 0,
           object_read_per_byte_cost = 0, storage_per_byte_cost = 0,
           execution_cost_table = zero_cost_schedule, computation_buckets = buckets\<rparr>
   }"

section \<open>The gas status of a transaction\<close>

record per_object_storage =
  pos_storage_cost :: nat
  pos_storage_rebate :: nat
  pos_new_size :: nat

record sui_gas_status =
  sgs_gas_status :: gas_status
  sgs_cost_table :: sui_cost_table
  gas_budget :: nat
  computation_cost :: nat
  sgs_charge :: bool
  sgs_gas_price :: nat
  reference_gas_price :: nat
  storage_gas_price :: nat
  per_object_storage :: "(object_id \<times> per_object_storage) list"
  rebate_rate :: nat
  unmetered_storage_rebate :: nat
  gas_rounding_step :: "nat option"

datatype execution_error =
    InsufficientGas
  | InvariantViolation
  | CertificateDenied
  | InputObjectDeleted
  | EffectsTooLarge nat nat
  | WrittenObjectsTooLarge nat nat
  | OtherExecutionError nat

datatype user_input_error =
    GasObjectNotOwnedObject owner
  | MissingGasPayment
  | GasBudgetTooHigh nat nat
  | GasBudgetTooLow nat nat
  | GasBalanceTooLow nat nat
  | InvalidGasObject object_id
  | GasPriceUnderRGP nat nat
  | GasPriceTooHigh nat

definition sui_gas_status_make ::
  "gas_status \<Rightarrow> nat \<Rightarrow> bool \<Rightarrow> nat \<Rightarrow> nat \<Rightarrow> nat \<Rightarrow> nat \<Rightarrow> nat option \<Rightarrow> sui_cost_table \<Rightarrow> sui_gas_status" where
  "sui_gas_status_make move_gas_status budget charging price rgp storage_price rate rounding table =
     \<lparr>sgs_gas_status = move_gas_status, sgs_cost_table = table, gas_budget = budget,
      computation_cost = 0, sgs_charge = charging, sgs_gas_price = price,
      reference_gas_price = rgp, storage_gas_price = storage_price, per_object_storage = [],
      rebate_rate = rate, unmetered_storage_rebate = 0,
      gas_rounding_step = map_option (\<lambda>v. max v 1) rounding\<rparr>"

definition new_with_budget :: "nat \<Rightarrow> nat \<Rightarrow> nat \<Rightarrow> protocol_config \<Rightarrow> sui_gas_status option" where
  "new_with_budget budget price rgp config = do {
     max_computation_budget \<leftarrow> checked_mul64 (max_gas_computation_bucket config) price;
     let computation_budget = (if max_computation_budget < budget then max_computation_budget else budget);
     table \<leftarrow> sui_cost_table_new config price;
     meter \<leftarrow> gas_status_new (execution_cost_table table) computation_budget price (cfg_gas_model_version config);
     Some (sui_gas_status_make meter budget True price rgp (cfg_storage_gas_price config)
       (storage_rebate_rate config) (gas_rounding_step_as_option config) table)
   }"

definition sui_gas_new_unmetered :: "sui_gas_status option" where
  "sui_gas_new_unmetered = do {
     table \<leftarrow> sui_cost_table_unmetered;
     Some (sui_gas_status_make gas_status_new_unmetered 0 False 0 0 0 0 None table)
   }"

text \<open>\<^verbatim>\<open>SuiGasStatus::new\<close> of \<^verbatim>\<open>gas.rs\<close>, which checks the price first.\<close>

definition sui_gas_status_new ::
  "nat \<Rightarrow> nat \<Rightarrow> nat \<Rightarrow> protocol_config \<Rightarrow> (user_input_error + sui_gas_status) option" where
  "sui_gas_status_new budget price rgp config =
     (if price < rgp then Some (Inl (GasPriceUnderRGP price rgp))
      else if gas_price_too_high (cfg_gas_model_version config) \<and> max_gas_price config \<le> price
      then Some (Inl (GasPriceTooHigh (max_gas_price config)))
      else do { st \<leftarrow> new_with_budget budget price rgp config; Some (Inr st) })"

subsection \<open>The gas coins\<close>

datatype object_read_result = ReadObject object | DeletedSharedObject nat tx_digest

fun as_object :: "object_read_result \<Rightarrow> object option" where
  "as_object (ReadObject ob) = Some ob"
| "as_object (DeletedSharedObject _ _) = None"

definition get_gas_balance :: "object \<Rightarrow> (user_input_error + nat) option" where
  "get_gas_balance ob =
     (case try_as_move (obj_data ob) of
        Some m \<Rightarrow>
          if \<not> is_gas_coin (mo_type m) then do { i \<leftarrow> object_id_of ob; Some (Inl (InvalidGasObject i)) }
          else do { v \<leftarrow> get_coin_value_unsafe m; Some (Inr v) }
      | None \<Rightarrow> do { i \<leftarrow> object_id_of ob; Some (Inl (InvalidGasObject i)) })"

fun gas_owner_loop :: "object_read_result list \<Rightarrow> user_input_error + unit" where
  "gas_owner_loop [] = Inr ()"
| "gas_owner_loop (x # xs) =
     (case as_object x of
        Some ob \<Rightarrow> if \<not> is_address_owned (obj_owner ob) then Inl (GasObjectNotOwnedObject (obj_owner ob))
                  else gas_owner_loop xs
      | None \<Rightarrow> Inl MissingGasPayment)"

fun gas_balance_loop :: "object_read_result list \<Rightarrow> nat \<Rightarrow> (user_input_error + nat) option" where
  "gas_balance_loop [] balance = Some (Inr balance)"
| "gas_balance_loop (x # xs) balance = do {
     ob \<leftarrow> as_object x;
     r \<leftarrow> get_gas_balance ob;
     case r of
       Inl e \<Rightarrow> Some (Inl e)
     | Inr v \<Rightarrow> do { balance \<leftarrow> checked_add128 balance v; gas_balance_loop xs balance }
   }"

definition check_gas_balance ::
  "sui_gas_status \<Rightarrow> object_read_result list \<Rightarrow> nat \<Rightarrow> (user_input_error + unit) option" where
  "check_gas_balance st gas_objs budget =
     (case gas_owner_loop gas_objs of
        Inl e \<Rightarrow> Some (Inl e)
      | Inr _ \<Rightarrow>
          if max_gas_budget (sgs_cost_table st) < budget
          then Some (Inl (GasBudgetTooHigh budget (max_gas_budget (sgs_cost_table st))))
          else if budget < min_transaction_cost (sgs_cost_table st)
          then Some (Inl (GasBudgetTooLow budget (min_transaction_cost (sgs_cost_table st))))
          else do {
            r \<leftarrow> gas_balance_loop gas_objs 0;
            case r of
              Inl e \<Rightarrow> Some (Inl e)
            | Inr gas_balance \<Rightarrow>
                if gas_balance < budget then Some (Inl (GasBalanceTooLow gas_balance budget))
                else Some (Inr ())
          })"

text \<open>\<^verbatim>\<open>deduct_gas\<close> on the gas coin; a negative amount is a refund.\<close>

definition deduct_gas_coin :: "object \<Rightarrow> int \<Rightarrow> object option" where
  "deduct_gas_coin gas_object charge_or_rebate = do {
     m \<leftarrow> try_as_move (obj_data gas_object);
     balance \<leftarrow> get_coin_value_unsafe m;
     new_balance \<leftarrow>
       (if charge_or_rebate < 0 then do {
          refund \<leftarrow> checked_neg_i64 charge_or_rebate;
          checked_add64 balance (as_u64 refund)
        } else do {
          rust_assert (as_u64 charge_or_rebate \<le> balance);
          checked_sub64 balance (as_u64 charge_or_rebate)
        });
     m \<leftarrow> set_coin_value_unsafe new_balance m;
     Some (gas_object\<lparr>obj_data := Move m\<rparr>)
   }"

subsection \<open>Charging\<close>

definition is_unmetered :: "sui_gas_status \<Rightarrow> bool" where
  "is_unmetered st \<longleftrightarrow> \<not> sgs_charge st"

definition bucketize_computation :: "sui_gas_status \<Rightarrow> ((execution_error + unit) \<times> sui_gas_status) option" where
  "bucketize_computation st = do {
     let gas_used = gas_used_pre_gas_price (sgs_gas_status st);
     gas_used \<leftarrow>
       (case gas_rounding_step st of
          Some gas_rounding \<Rightarrow> do {
            rust_assert (gas_rounding \<noteq> 0);
            if 0 < gas_used \<and> gas_used mod gas_rounding = 0 then checked_mul64 gas_used (sgs_gas_price st)
            else do {
              steps \<leftarrow> checked_add64 (gas_used div gas_rounding) 1;
              rounded \<leftarrow> checked_mul64 steps gas_rounding;
              checked_mul64 rounded (sgs_gas_price st)
            }
          }
        | None \<Rightarrow>
            checked_mul64 (get_bucket_cost (computation_buckets (sgs_cost_table st)) gas_used) (sgs_gas_price st));
     Some (if gas_budget st \<le> gas_used
           then (Inl InsufficientGas, st\<lparr>computation_cost := gas_budget st\<rparr>)
           else (Inr (), st\<lparr>computation_cost := gas_used\<rparr>))
   }"

definition storage_gas_units :: "sui_gas_status \<Rightarrow> nat" where
  "storage_gas_units st = sum64 (map (pos_storage_cost \<circ> snd) (per_object_storage st))"

definition storage_rebate :: "sui_gas_status \<Rightarrow> nat" where
  "storage_rebate st = sum64 (map (pos_storage_rebate \<circ> snd) (per_object_storage st))"

definition storage_cost :: "sui_gas_status \<Rightarrow> nat" where
  "storage_cost st = storage_gas_units st"

definition gas_used :: "sui_gas_status \<Rightarrow> nat" where
  "gas_used st = gas_used_pre_gas_price (sgs_gas_status st)"

definition reset_storage_cost_and_rebate :: "sui_gas_status \<Rightarrow> sui_gas_status" where
  "reset_storage_cost_and_rebate st = st\<lparr>per_object_storage := [], unmetered_storage_rebate := 0\<rparr>"

definition charge_bytes_as_execution ::
  "nat \<Rightarrow> nat \<Rightarrow> sui_gas_status \<Rightarrow> (execution_error + unit) \<times> sui_gas_status" where
  "charge_bytes_as_execution n cost_per_byte st =
     (case charge_bytes n cost_per_byte (sgs_gas_status st) of
        (Inl _, g) \<Rightarrow> (Inl InsufficientGas, st\<lparr>sgs_gas_status := g\<rparr>)
      | (Inr _, g) \<Rightarrow> (Inr (), st\<lparr>sgs_gas_status := g\<rparr>))"

definition charge_storage_read :: "nat \<Rightarrow> sui_gas_status \<Rightarrow> (execution_error + unit) \<times> sui_gas_status" where
  "charge_storage_read n st = charge_bytes_as_execution n (object_read_per_byte_cost (sgs_cost_table st)) st"

definition charge_publish_package :: "nat \<Rightarrow> sui_gas_status \<Rightarrow> (execution_error + unit) \<times> sui_gas_status" where
  "charge_publish_package n st = charge_bytes_as_execution n (package_publish_per_byte_cost (sgs_cost_table st)) st"

definition track_storage_mutation ::
  "object_id \<Rightarrow> nat \<Rightarrow> nat \<Rightarrow> sui_gas_status \<Rightarrow> (nat \<times> sui_gas_status) option" where
  "track_storage_mutation i new_size rebate st =
     (if is_unmetered st then do {
        total \<leftarrow> checked_add64 (unmetered_storage_rebate st) rebate;
        Some (0, st\<lparr>unmetered_storage_rebate := total\<rparr>)
      } else do {
        per_byte \<leftarrow> checked_mul64 new_size (storage_per_byte_cost (sgs_cost_table st));
        cost \<leftarrow> checked_mul64 per_byte (storage_gas_price st);
        Some (cost, st\<lparr>per_object_storage := per_object_storage st @
          [(i, \<lparr>pos_storage_cost = cost, pos_storage_rebate = rebate, pos_new_size = new_size\<rparr>)]\<rparr>)
      })"

definition charge_storage_and_rebate :: "sui_gas_status \<Rightarrow> (execution_error + unit) option" where
  "charge_storage_and_rebate st = do {
     let total = storage_rebate st;
     let cost = storage_cost st;
     rebate \<leftarrow> sender_rebate total (rebate_rate st);
     rust_assert (rebate \<le> total);
     if cost \<le> rebate then Some (Inr ())
     else do {
       left \<leftarrow> checked_sub64 (gas_budget st) (computation_cost st);
       owed \<leftarrow> checked_sub64 cost rebate;
       Some (if left < owed then Inl InsufficientGas else Inr ())
     }
   }"

definition adjust_computation_on_out_of_gas :: "sui_gas_status \<Rightarrow> sui_gas_status" where
  "adjust_computation_on_out_of_gas st = st\<lparr>per_object_storage := [], computation_cost := gas_budget st\<rparr>"

section \<open>The cost summary\<close>

record gas_cost_summary =
  gcs_computation_cost :: nat
  gcs_storage_cost :: nat
  gcs_storage_rebate :: nat
  gcs_non_refundable_storage_fee :: nat

definition gas_cost_summary_new :: "nat \<Rightarrow> nat \<Rightarrow> nat \<Rightarrow> nat \<Rightarrow> gas_cost_summary" where
  "gas_cost_summary_new compute cost rebate fee =
     \<lparr>gcs_computation_cost = compute, gcs_storage_cost = cost, gcs_storage_rebate = rebate,
      gcs_non_refundable_storage_fee = fee\<rparr>"

definition summary :: "sui_gas_status \<Rightarrow> gas_cost_summary option" where
  "summary st = do {
     let total = storage_rebate st;
     rebate \<leftarrow> sender_rebate total (rebate_rate st);
     rust_assert (rebate \<le> total);
     fee \<leftarrow> checked_sub64 total rebate;
     Some \<lparr>gcs_computation_cost = computation_cost st, gcs_storage_cost = storage_cost st,
           gcs_storage_rebate = rebate, gcs_non_refundable_storage_fee = fee\<rparr>
   }"

definition summary_gas_used :: "gas_cost_summary \<Rightarrow> nat option" where
  "summary_gas_used s = checked_add64 (gcs_computation_cost s) (gcs_storage_cost s)"

definition summary_sender_rebate :: "gas_cost_summary \<Rightarrow> nat \<Rightarrow> nat option" where
  "summary_sender_rebate s rate = do {
     p \<leftarrow> checked_mul128 (gcs_storage_rebate s) rate;
     q \<leftarrow> checked_add128 p (BASIS_POINTS div 2);
     Some (q div BASIS_POINTS mod 2 ^ 64)
   }"

definition net_gas_usage :: "gas_cost_summary \<Rightarrow> int option" where
  "net_gas_usage s = do {
     used \<leftarrow> summary_gas_used s;
     checked_sub_i64 (as_i64 used) (as_i64 (gcs_storage_rebate s))
   }"

definition new_from_txn_effects :: "gas_cost_summary list \<Rightarrow> gas_cost_summary" where
  "new_from_txn_effects effects =
     \<lparr>gcs_computation_cost = sum64 (map gcs_computation_cost effects),
      gcs_storage_cost = sum64 (map gcs_storage_cost effects),
      gcs_storage_rebate = sum64 (map gcs_storage_rebate effects),
      gcs_non_refundable_storage_fee = sum64 (map gcs_non_refundable_storage_fee effects)\<rparr>"

definition summary_add_assign :: "gas_cost_summary \<Rightarrow> gas_cost_summary \<Rightarrow> gas_cost_summary option" where
  "summary_add_assign s other = do {
     compute \<leftarrow> checked_add64 (gcs_computation_cost s) (gcs_computation_cost other);
     cost \<leftarrow> checked_add64 (gcs_storage_cost s) (gcs_storage_cost other);
     rebate \<leftarrow> checked_add64 (gcs_storage_rebate s) (gcs_storage_rebate other);
     fee \<leftarrow> checked_add64 (gcs_non_refundable_storage_fee s) (gcs_non_refundable_storage_fee other);
     Some (gas_cost_summary_new compute cost rebate fee)
   }"

section \<open>Rounding and rebates\<close>

lemma sender_rebate_total:
  assumes "r < 2 ^ 64" "rate < 2 ^ 64"
  shows "sender_rebate r rate = Some ((r * rate + 5000) div 10000 mod 2 ^ 64)"
proof -
  have "r * rate \<le> (2 ^ 64 - 1) * (2 ^ 64 - 1)" by (rule mult_le_mono) (use assms in auto)
  then have "r * rate + 5000 < 2 ^ 128" by simp
  then show ?thesis by (simp add: sender_rebate_def checked_mul128_def checked_add128_def BASIS_POINTS_def)
qed

text \<open>With a rate of at most the whole, the sender gets back at most the rebate, rounded to nearest.\<close>

lemma sender_rebate_le:
  assumes "r < 2 ^ 64" "rate \<le> BASIS_POINTS"
  shows "sender_rebate r rate = Some ((r * rate + 5000) div 10000)"
    and "(r * rate + 5000) div 10000 \<le> r"
proof -
  have "r * rate \<le> r * 10000" using assms(2) by (simp add: BASIS_POINTS_def)
  then have "r * rate + 5000 < r * 10000 + 10000" by (rule add_le_less_mono) simp
  then have "r * rate + 5000 < (r + 1) * 10000" by (simp only: distrib_right mult_1)
  then have "(r * rate + 5000) div 10000 < r + 1" by (rule less_mult_imp_div_less)
  then show le: "(r * rate + 5000) div 10000 \<le> r" by simp
  with assms sender_rebate_total [of r rate]
  show "sender_rebate r rate = Some ((r * rate + 5000) div 10000)"
    by (simp add: BASIS_POINTS_def)
qed

lemma sum64_less: "sum64 xs < 2 ^ 64"
  by (simp add: sum64_def)

text \<open>The buckets: the charge is the upper bound of the bucket, at least what was used, and monotone.\<close>

lemma get_bucket_cost_table:
  assumes "computation_bucket_table m = Some t"
  shows "get_bucket_cost t u =
    (if u \<le> 1000 then 1000 else if u \<le> 5000 then 5000 else if u \<le> 10000 then 10000
     else if u \<le> 20000 then 20000 else if u \<le> 50000 then 50000 else if u \<le> 200000 then 200000
     else if u \<le> 1000000 then 1000000 else m)"
  using assms by (auto simp: computation_bucket_table_def option_simps get_bucket_cost_def bucket_simple_def)

lemma bucket_cost_bounds:
  assumes "computation_bucket_table m = Some t"
  shows "u \<le> v \<Longrightarrow> get_bucket_cost t u \<le> get_bucket_cost t v"
    and "u \<le> m \<Longrightarrow> u \<le> get_bucket_cost t u"
    and "get_bucket_cost t u \<le> m"
proof -
  have m: "5000000 \<le> m" using assms by (simp add: computation_bucket_table_def option_simps)
  note eq = get_bucket_cost_table [OF assms]
  show "u \<le> v \<Longrightarrow> get_bucket_cost t u \<le> get_bucket_cost t v" using m unfolding eq by simp
  show "u \<le> m \<Longrightarrow> u \<le> get_bucket_cost t u" unfolding eq by simp
  show "get_bucket_cost t u \<le> m" using m unfolding eq by simp
qed

section \<open>The summary and the budget\<close>

lemma summary_Some:
  assumes "summary st = Some s"
  shows "gcs_computation_cost s = computation_cost st" "gcs_storage_cost s = storage_cost st"
    "gcs_storage_rebate s + gcs_non_refundable_storage_fee s = storage_rebate st"
    "sender_rebate (storage_rebate st) (rebate_rate st) = Some (gcs_storage_rebate s)"
  using assms by (auto simp: summary_def option_simps Let_def)

lemma summary_total:
  assumes "rebate_rate st \<le> BASIS_POINTS"
  shows "\<exists>s. summary st = Some s"
proof -
  have "storage_rebate st < 2 ^ 64" unfolding storage_rebate_def by (rule sum64_less)
  from sender_rebate_le [OF this assms] show ?thesis
    by (simp add: summary_def Let_def checked_sub64_def)
qed

lemma charge_storage_total:
  assumes "rebate_rate st \<le> BASIS_POINTS" "computation_cost st \<le> gas_budget st"
  shows "\<exists>r. charge_storage_and_rebate st = Some r"
proof -
  have "storage_rebate st < 2 ^ 64" unfolding storage_rebate_def by (rule sum64_less)
  from sender_rebate_le [OF this assms(1)] assms(2) show ?thesis
    by (simp add: charge_storage_and_rebate_def Let_def checked_sub64_def)
qed

text \<open>When the storage charge is accepted the whole charge is within the budget.\<close>

lemma charge_storage_ok:
  assumes "charge_storage_and_rebate st = Some (Inr u)" and "summary st = Some s"
    and "computation_cost st \<le> gas_budget st"
  shows "gcs_computation_cost s + gcs_storage_cost s \<le> gas_budget st + gcs_storage_rebate s"
  using assms summary_Some [OF assms(2)]
  by (auto simp: charge_storage_and_rebate_def option_simps Let_def split: if_splits)

lemma net_gas_usage_exact:
  assumes "gcs_computation_cost s + gcs_storage_cost s < 2 ^ 63" and "gcs_storage_rebate s < 2 ^ 63"
  shows "net_gas_usage s = Some (int (gcs_computation_cost s + gcs_storage_cost s) - int (gcs_storage_rebate s))"
proof -
  have "gcs_computation_cost s + gcs_storage_cost s < 2 ^ 64" using assms(1) by simp
  then have "summary_gas_used s = Some (gcs_computation_cost s + gcs_storage_cost s)"
    by (simp add: summary_gas_used_def checked_add64_def)
  moreover have "- (2 ^ 63) \<le> int (gcs_computation_cost s + gcs_storage_cost s) - int (gcs_storage_rebate s)"
    "int (gcs_computation_cost s + gcs_storage_cost s) - int (gcs_storage_rebate s) < 2 ^ 63"
    using assms by simp_all
  ultimately show ?thesis
    using assms by (simp only: net_gas_usage_def as_i64_def checked_sub_i64_def bind.simps if_True simp_thms)
qed

lemma as_u64_nonneg: "0 \<le> i \<Longrightarrow> i < 2 ^ 64 \<Longrightarrow> as_u64 i = nat i"
  by (simp add: as_u64_def)

text \<open>Deducting from a coin.\<close>

lemma deduct_gas_coin_exact:
  assumes coin: "coin_ok ob" and lo: "- (2 ^ 63) < amount" and hi: "amount < 2 ^ 63"
    and fund: "amount \<le> int (coin_value ob)" and fits: "int (coin_value ob) - amount < 2 ^ 64"
  obtains ob' where "deduct_gas_coin ob amount = Some ob'" "coin_ok ob'"
    "int (coin_value ob') = int (coin_value ob) - amount"
    "object_id_of ob' = object_id_of ob" "obj_storage_rebate ob' = obj_storage_rebate ob"
    "obj_owner ob' = obj_owner ob" "object_version ob' = object_version ob"
proof -
  obtain m where m: "obj_data ob = Move m" "get_coin_value_unsafe m = Some (coin_value ob)"
    using coin by (rule coin_okE)
  define v where "v = nat (int (coin_value ob) - amount)"
  have v: "v < 2 ^ 64" "int v = int (coin_value ob) - amount" using fund fits by (auto simp: v_def)
  obtain ob' where ob': "with_coin_value v ob = Some ob'" "coin_ok ob'" "coin_value ob' = v"
    "object_id_of ob' = object_id_of ob" "obj_storage_rebate ob' = obj_storage_rebate ob"
    "obj_owner ob' = obj_owner ob" "object_version ob' = object_version ob"
    using with_coin_value [OF coin v(1)] .
  obtain m' where m': "set_coin_value_unsafe v m = Some m'" "ob' = ob\<lparr>obj_data := Move m'\<rparr>"
    using ob'(1) m(1) by (auto simp: with_coin_value_def option_simps)
  have "deduct_gas_coin ob amount = Some ob'"
  proof (cases "amount < 0")
    case True
    have "checked_neg_i64 amount = Some (- amount)" using lo by (simp add: checked_neg_i64_def)
    moreover have "as_u64 (- amount) = nat (- amount)" using True lo by (intro as_u64_nonneg) auto
    moreover have "coin_value ob + nat (- amount) = v" using True v(2) by linarith
    ultimately show ?thesis
      using True m m' v(1) by (simp add: deduct_gas_coin_def checked_add64_def)
  next
    case False
    then have "as_u64 amount = nat amount" using hi by (intro as_u64_nonneg) auto
    moreover have "nat amount \<le> coin_value ob" "coin_value ob - nat amount = v"
      using False fund v(2) by linarith+
    ultimately show ?thesis
      using False m m' by (simp add: deduct_gas_coin_def checked_sub64_def)
  qed
  moreover have "int (coin_value ob') = int (coin_value ob) - amount" using ob'(3) v(2) by simp
  ultimately show ?thesis using ob'(2,4-7) that by blast
qed

text \<open>The split of the storage rebate between the sender and the storage fund.\<close>

lemma summary_split:
  assumes "rebate_rate st \<le> BASIS_POINTS"
  obtains s where "summary st = Some s"
    "gcs_storage_rebate s + gcs_non_refundable_storage_fee s = storage_rebate st"
    "10000 * gcs_storage_rebate s \<le> storage_rebate st * rebate_rate st + 5000"
    "storage_rebate st * rebate_rate st < 10000 * gcs_storage_rebate s + 5000"
proof -
  obtain s where s: "summary st = Some s" using summary_total [OF assms] by blast
  have "storage_rebate st < 2 ^ 64" unfolding storage_rebate_def by (rule sum64_less)
  from sender_rebate_le(1) [OF this assms] summary_Some(4) [OF s]
  have r: "gcs_storage_rebate s = (storage_rebate st * rebate_rate st + 5000) div 10000" by simp
  define p where "p = storage_rebate st * rebate_rate st"
  have "10000 * ((p + 5000) div 10000) \<le> p + 5000" "p < 10000 * ((p + 5000) div 10000) + 5000"
    using div_mod_decomp [of "p + 5000" 10000] by simp_all
  with that [OF s summary_Some(3) [OF s]] r show ?thesis by (simp add: p_def)
qed

section \<open>Computation charges\<close>

text \<open>
  The gas units the computation is charged for: the next multiple of the rounding step, or the bucket.
\<close>

definition charged_units :: "sui_gas_status \<Rightarrow> nat" where
  "charged_units st =
     (case gas_rounding_step st of
        Some k \<Rightarrow> if 0 < gas_used st \<and> k dvd gas_used st then gas_used st else (gas_used st div k + 1) * k
      | None \<Rightarrow> get_bucket_cost (computation_buckets (sgs_cost_table st)) (gas_used st))"

lemma charged_units_round:
  assumes "gas_rounding_step st = Some k" and "0 < k"
  shows "k dvd charged_units st" "gas_used st \<le> charged_units st" "charged_units st \<le> gas_used st + k"
proof -
  have "gas_used st < (gas_used st div k + 1) * k" using assms(2) dividend_less_div_times [of k "gas_used st"] by simp
  moreover have "(gas_used st div k + 1) * k \<le> gas_used st + k" by simp
  ultimately show "k dvd charged_units st" "gas_used st \<le> charged_units st" "charged_units st \<le> gas_used st + k"
    using assms(1) by (auto simp: charged_units_def)
qed

lemma charged_units_price:
  assumes "(case gas_rounding_step st of
      Some k \<Rightarrow> do {
        rust_assert (k \<noteq> 0);
        if 0 < gas_used st \<and> gas_used st mod k = 0 then checked_mul64 (gas_used st) price
        else do {
          steps \<leftarrow> checked_add64 (gas_used st div k) 1;
          rounded \<leftarrow> checked_mul64 steps k;
          checked_mul64 rounded price
        }
      }
    | None \<Rightarrow> checked_mul64 (get_bucket_cost (computation_buckets (sgs_cost_table st)) (gas_used st)) price) = Some c"
  shows "c = charged_units st * price"
proof (cases "gas_rounding_step st")
  case None
  with assms show ?thesis by (simp add: charged_units_def checked_mul64_def split: if_splits)
next
  case (Some k)
  show ?thesis
  proof (cases "0 < gas_used st \<and> gas_used st mod k = 0")
    case True
    with assms Some show ?thesis
      by (auto simp: charged_units_def checked_mul64_def dvd_eq_mod_eq_0 elim!: bind_SomeE split: if_splits)
  next
    case False
    with assms Some obtain steps rounded where "checked_add64 (gas_used st div k) 1 = Some steps"
      "checked_mul64 steps k = Some rounded" "checked_mul64 rounded price = Some c"
      by (auto elim!: bind_SomeE)
    then have "c = (gas_used st div k + 1) * k * price"
      by (auto simp: checked_mul64_def checked_add64_def split: if_splits)
    with False Some show ?thesis by (auto simp: charged_units_def dvd_eq_mod_eq_0)
  qed
qed

lemma bucketize_charged_units:
  assumes "bucketize_computation st = Some (r, st')"
  shows "st' = st\<lparr>computation_cost := min (charged_units st * sgs_gas_price st) (gas_budget st)\<rparr>"
    "r = (if gas_budget st \<le> charged_units st * sgs_gas_price st then Inl InsufficientGas else Inr ())"
proof -
  obtain c where c: "c = charged_units st * sgs_gas_price st"
    and eq: "(if gas_budget st \<le> c then (Inl InsufficientGas, st\<lparr>computation_cost := gas_budget st\<rparr>)
      else (Inr (), st\<lparr>computation_cost := c\<rparr>)) = (r, st')"
    using assms unfolding bucketize_computation_def Let_def
    by (elim bind_SomeE) (drule charged_units_price [unfolded gas_used_def], simp only: option.inject)
  show "st' = st\<lparr>computation_cost := min (charged_units st * sgs_gas_price st) (gas_budget st)\<rparr>"
    "r = (if gas_budget st \<le> charged_units st * sgs_gas_price st then Inl InsufficientGas else Inr ())"
    unfolding c [symmetric] using eq by (cases "gas_budget st \<le> c"; simp add: min_def)+
qed

lemma bucketize_step_pos:
  "bucketize_computation st = Some (r, st') \<Longrightarrow> gas_rounding_step st = Some k \<Longrightarrow> 0 < k"
  by (auto simp: bucketize_computation_def Let_def rust_assert_def elim!: bind_SomeE split: if_splits)

text \<open>The meter of a new status, after any calls of the VM.\<close>

lemma new_with_budget_meter:
  assumes "new_with_budget budget price rgp config = Some st"
  obtains cb where "cb \<le> budget" "0 < price"
    "gas_status_new (cost_table_for_version (cfg_gas_model_version config)) cb price (cfg_gas_model_version config) =
       Some (sgs_gas_status st)"
proof -
  obtain m t g where m: "checked_mul64 (max_gas_computation_bucket config) price = Some m"
    and t: "sui_cost_table_new config price = Some t"
    and g: "gas_status_new (execution_cost_table t) (if m < budget then m else budget) price (cfg_gas_model_version config) = Some g"
    and st: "sgs_gas_status st = g"
    using assms unfolding new_with_budget_def Let_def by (auto elim!: bind_SomeE simp: sui_gas_status_make_def)
  have "execution_cost_table t = cost_table_for_version (cfg_gas_model_version config)"
    using t unfolding sui_cost_table_new_def by (auto elim!: bind_SomeE)
  with g st have new: "gas_status_new (cost_table_for_version (cfg_gas_model_version config)) (if m < budget then m else budget)
      price (cfg_gas_model_version config) = Some (sgs_gas_status st)" by simp
  with gas_status_new_inv(7) [OF new schedules_ok(1)] show ?thesis by (intro that [of "if m < budget then m else budget"]) auto
qed

lemma new_with_budget_calls:
  assumes "new_with_budget budget price rgp config = Some st" and "meter_calls cs (sgs_gas_status st) = (r, h)"
  shows "meter_inv h" "meter_le (sgs_gas_status st) h" "gas_used_pre_gas_price h * price \<le> budget"
proof -
  obtain cb where cb: "cb \<le> budget"
    "gas_status_new (cost_table_for_version (cfg_gas_model_version config)) cb price (cfg_gas_model_version config) =
       Some (sgs_gas_status st)"
    using new_with_budget_meter [OF assms(1)] .
  note c = meter_calls_budget [OF cb(2) schedules_ok(1) assms(2)]
  show "meter_inv h" "meter_le (sgs_gas_status st) h" using c(1,2) .
  show "gas_used_pre_gas_price h * price \<le> budget" using c(3) cb(1) by simp
qed

section \<open>Accepting the gas coins\<close>

text \<open>A gas payment the check accepts: owned gas coins.\<close>

fun payment_ok :: "object_read_result \<Rightarrow> bool" where
  "payment_ok (ReadObject ob) \<longleftrightarrow> is_address_owned (obj_owner ob) \<and> coin_ok ob"
| "payment_ok (DeletedSharedObject _ _) \<longleftrightarrow> False"

fun payment_value :: "object_read_result \<Rightarrow> nat" where
  "payment_value (ReadObject ob) = coin_value ob"
| "payment_value (DeletedSharedObject _ _) = 0"

lemma get_gas_balance_Inr: "get_gas_balance ob = Some (Inr v) \<longleftrightarrow> coin_ok ob \<and> v = coin_value ob"
  by (auto simp: get_gas_balance_def coin_ok_def coin_value_def get_coin_value_unsafe_def ID_LENGTH_def option_simps
      split: object_data.splits option.splits if_splits)

lemma gas_owner_loop_Inr:
  "gas_owner_loop xs = Inr () \<longleftrightarrow> (\<forall>x \<in> set xs. \<exists>ob. x = ReadObject ob \<and> is_address_owned (obj_owner ob))"
proof (induction xs)
  case (Cons x xs)
  then show ?case by (cases x) auto
qed simp

lemma gas_balance_loop_Inr:
  assumes "b + length xs * 2 ^ 64 < 2 ^ 128"
  shows "gas_balance_loop xs b = Some (Inr t) \<longleftrightarrow>
    (\<forall>x \<in> set xs. \<exists>ob. x = ReadObject ob \<and> coin_ok ob) \<and> t = b + sum_list (map payment_value xs)"
  using assms
proof (induction xs arbitrary: b)
  case (Cons x xs)
  show ?case
  proof (cases x)
    case (ReadObject ob)
    show ?thesis
    proof (cases "coin_ok ob")
      case True
      note less = coin_value_less [OF True]
      from True have v: "get_gas_balance ob = Some (Inr (coin_value ob))" by (simp add: get_gas_balance_Inr)
      from less Cons.prems have b: "b + coin_value ob + length xs * 2 ^ 64 < 2 ^ 128" by simp
      then have "checked_add128 b (coin_value ob) = Some (b + coin_value ob)" by (simp add: checked_add128_def)
      with v Cons.IH [OF b] True show ?thesis by (auto simp: ReadObject)
    next
      case False
      then have "get_gas_balance ob \<noteq> Some (Inr v)" for v by (simp add: get_gas_balance_Inr)
      then have "gas_balance_loop (x # xs) b \<noteq> Some (Inr t)"
        by (auto simp: ReadObject option_simps split: sum.splits)
      with False show ?thesis by (simp add: ReadObject)
    qed
  qed simp
qed auto

lemma payments_ok_iff:
  "(\<forall>x \<in> set objs. payment_ok x) \<longleftrightarrow>
    (\<forall>x \<in> set objs. \<exists>ob. x = ReadObject ob \<and> is_address_owned (obj_owner ob)) \<and>
    (\<forall>x \<in> set objs. \<exists>ob. x = ReadObject ob \<and> coin_ok ob)"
proof (induction objs)
  case (Cons x objs)
  then show ?case by (cases x) auto
qed simp

lemma check_gas_balance_Inr:
  assumes "length objs < 2 ^ 64"
  shows "check_gas_balance st objs budget = Some (Inr ()) \<longleftrightarrow>
    (\<forall>x \<in> set objs. payment_ok x) \<and> min_transaction_cost (sgs_cost_table st) \<le> budget \<and>
    budget \<le> max_gas_budget (sgs_cost_table st) \<and> budget \<le> sum_list (map payment_value objs)"
proof -
  have "0 + length objs * 2 ^ 64 < (2 :: nat) ^ 128" using assms by simp
  note loop = gas_balance_loop_Inr [OF this, unfolded add_0]
  have "check_gas_balance st objs budget = Some (Inr ()) \<longleftrightarrow>
      gas_owner_loop objs = Inr () \<and> min_transaction_cost (sgs_cost_table st) \<le> budget \<and>
      budget \<le> max_gas_budget (sgs_cost_table st) \<and> (\<exists>t. gas_balance_loop objs 0 = Some (Inr t) \<and> budget \<le> t)"
    unfolding check_gas_balance_def
    by (cases "gas_owner_loop objs"; cases "gas_balance_loop objs 0"; cases "the (gas_balance_loop objs 0)")
      (simp_all add: not_less)
  then show ?thesis
    unfolding payments_ok_iff gas_owner_loop_Inr loop by blast
qed

end
