(* ===== verification/TemporaryStore.thy ===== *)
theory TemporaryStore
  imports SuiGas
begin

text \<open>
  The store a transaction writes to: \<^verbatim>\<open>sui-execution/latest/sui-adapter/src/temporary_store.rs\<close> with the
  execution results of \<^verbatim>\<open>crates/sui-types/src/execution.rs\<close> and the input objects of
  \<^verbatim>\<open>crates/sui-types/src/transaction.rs\<close>. The store of the authority is the record \<open>backing_store\<close> of its
  queries, an argument. Plain arithmetic wraps here; the gas status the store charges to panics.
  Debug assertions are left out.
\<close>

section \<open>Data\<close>

record dyn_metadata =
  md_version :: nat
  md_digest :: object_digest
  md_owner :: owner
  md_storage_rebate :: nat
  md_previous_transaction :: tx_digest

record execution_results =
  written_objects :: "(object_id, object) btree_map"
  modified_objects :: "object_id list"
  created_object_ids :: "object_id list"
  deleted_object_ids :: "object_id list"
  user_events :: "nat list"

text \<open>The queries return a \<^verbatim>\<open>Result<Option<Object>>\<close>: the outer \<open>None\<close> is the error.\<close>

record backing_store =
  bs_get_package_object :: "object_id \<Rightarrow> object option option"
  bs_get_object :: "object_id \<Rightarrow> object option option"
  bs_get_object_by_key :: "object_id \<Rightarrow> nat \<Rightarrow> object option option"

record temporary_store =
  ts_store :: backing_store
  ts_tx_digest :: tx_digest
  input_objects :: "(object_id, object) btree_map"
  lamport_timestamp :: nat
  mutable_input_refs :: "(object_id, (nat \<times> object_digest) \<times> owner) btree_map"
  execution_results :: execution_results
  loaded_runtime_objects :: "(object_id, dyn_metadata) btree_map"
  wrapped_object_containers :: "(object_id, object_id) btree_map"
  runtime_packages_loaded_from_db :: "(object_id, object) btree_map"
  receiving_objects :: "object_ref list"

subsection \<open>Input objects\<close>

datatype input_object_kind =
    MovePackageInput object_id
  | ImmOrOwnedMoveObject object_ref
  | SharedMoveObject object_id nat bool

fun kind_object_id :: "input_object_kind \<Rightarrow> object_id" where
  "kind_object_id (MovePackageInput i) = i"
| "kind_object_id (ImmOrOwnedMoveObject (i, _, _)) = i"
| "kind_object_id (SharedMoveObject i _ _) = i"

type_synonym input_object = "input_object_kind \<times> object_read_result"

definition compute_object_reference :: "object_lib \<Rightarrow> object \<Rightarrow> object_ref option" where
  "compute_object_reference lib ob = do { i \<leftarrow> object_id_of ob; Some (i, object_version ob, object_hash lib ob) }"

text \<open>One entry of \<^verbatim>\<open>mutable_inputs\<close>; the outer option is the unreachable case.\<close>

fun mutable_input :: "object_lib \<Rightarrow> input_object \<Rightarrow> (object_id \<times> (nat \<times> object_digest) \<times> owner) option option" where
  "mutable_input lib (MovePackageInput _, _) = Some None"
| "mutable_input lib (ImmOrOwnedMoveObject (i, v, d), ReadObject ob) =
     Some (if is_immutable (obj_owner ob) then None else Some (i, (v, d), obj_owner ob))"
| "mutable_input lib (ImmOrOwnedMoveObject _, DeletedSharedObject _ _) = None"
| "mutable_input lib (SharedMoveObject _ _ _, DeletedSharedObject _ _) = Some None"
| "mutable_input lib (SharedMoveObject _ _ mutable, ReadObject ob) =
     (if mutable then do { (i, v, d) \<leftarrow> compute_object_reference lib ob; Some (Some (i, (v, d), obj_owner ob)) }
      else Some None)"

definition bt_collect :: "('k::linorder \<times> 'v) list \<Rightarrow> ('k, 'v) btree_map" where
  "bt_collect kvs = fold (\<lambda>(k, v). bt_insert k v) kvs []"

definition mutable_inputs ::
  "object_lib \<Rightarrow> input_object list \<Rightarrow> (object_id, (nat \<times> object_digest) \<times> owner) btree_map option" where
  "mutable_inputs lib objects = do {
     entries \<leftarrow> map_opt (mutable_input lib) objects;
     Some (bt_collect (List.map_filter (\<lambda>x. x) entries))
   }"

fun input_version :: "object_read_result \<Rightarrow> nat option" where
  "input_version (ReadObject ob) = map_option mo_version (try_as_move (obj_data ob))"
| "input_version (DeletedSharedObject v _) = Some v"

definition lamport_increment :: "nat list \<Rightarrow> nat option" where
  "lamport_increment inputs = do {
     let max_input = fold max inputs 0;
     rust_assert (max_input \<noteq> u64_max);
     Some (add64 max_input 1)
   }"

definition lamport_timestamp_of :: "input_object list \<Rightarrow> object_ref list \<Rightarrow> nat option" where
  "lamport_timestamp_of objects receiving =
     lamport_increment (List.map_filter (\<lambda>(_, r). input_version r) objects @ map (\<lambda>(_, v, _). v) receiving)"

definition into_object_map :: "input_object list \<Rightarrow> (object_id, object) btree_map" where
  "into_object_map objects =
     bt_collect (List.map_filter (\<lambda>(k, r). map_option (\<lambda>ob. (kind_object_id k, ob)) (as_object r)) objects)"

section \<open>Execution results\<close>

definition empty_results :: execution_results where
  "empty_results = \<lparr>written_objects = [], modified_objects = [], created_object_ids = [],
     deleted_object_ids = [], user_events = []\<rparr>"

definition results_drop_writes :: "execution_results \<Rightarrow> execution_results" where
  "results_drop_writes r =
     r\<lparr>written_objects := [], modified_objects := [], created_object_ids := [], deleted_object_ids := [],
       user_events := []\<rparr>"

definition merge_results :: "execution_results \<Rightarrow> execution_results \<Rightarrow> execution_results" where
  "merge_results new_results r =
     r\<lparr>written_objects := fold (\<lambda>(k, v). bt_insert k v) (written_objects new_results) (written_objects r),
       modified_objects := bs_extend (modified_objects r) (modified_objects new_results),
       created_object_ids := bs_extend (created_object_ids r) (created_object_ids new_results),
       deleted_object_ids := bs_extend (deleted_object_ids r) (deleted_object_ids new_results),
       user_events := user_events r @ user_events new_results\<rparr>"

text \<open>The update of one written object.\<close>

definition update_written :: "execution_results \<Rightarrow> nat \<Rightarrow> tx_digest \<Rightarrow> object_id \<times> object \<Rightarrow> (object_id \<times> object) option" where
  "update_written r lamport_version prev_tx e = (case e of (i, ob) \<Rightarrow> do {
     data \<leftarrow> (case obj_data ob of
                Move m \<Rightarrow> Some (Move (m\<lparr>mo_version := lamport_version\<rparr>))
              | Package p \<Rightarrow>
                  if i \<in> set (modified_objects r) then do {
                    rust_assert (pkg_version p \<noteq> u64_max);
                    Some (Package (p\<lparr>pkg_version := add64 (pkg_version p) 1\<rparr>))
                  } else Some (Package p));
     own \<leftarrow> (case obj_owner ob of
               Shared initial_shared_version \<Rightarrow>
                 if i \<in> set (created_object_ids r) then do {
                   rust_assert (initial_shared_version = 0);
                   Some (Shared lamport_version)
                 } else Some (Shared initial_shared_version)
             | other \<Rightarrow> Some other);
     Some (i, ob\<lparr>obj_data := data, obj_owner := own, obj_previous_transaction := prev_tx\<rparr>)
   })"

definition update_version_and_previous_tx :: "nat \<Rightarrow> tx_digest \<Rightarrow> execution_results \<Rightarrow> execution_results option" where
  "update_version_and_previous_tx lamport_version prev_tx r = do {
     written \<leftarrow> map_opt (update_written r lamport_version prev_tx) (written_objects r);
     Some (r\<lparr>written_objects := written\<rparr>)
   }"

section \<open>Operations of the store\<close>

definition temporary_store_new ::
  "object_lib \<Rightarrow> backing_store \<Rightarrow> input_object list \<Rightarrow> object_ref list \<Rightarrow> tx_digest \<Rightarrow> temporary_store option" where
  "temporary_store_new lib store inputs receiving tx = do {
     refs \<leftarrow> mutable_inputs lib inputs;
     lamport \<leftarrow> lamport_timestamp_of inputs receiving;
     Some \<lparr>ts_store = store, ts_tx_digest = tx, input_objects = into_object_map inputs,
           lamport_timestamp = lamport, mutable_input_refs = refs, execution_results = empty_results,
           loaded_runtime_objects = [], wrapped_object_containers = [],
           runtime_packages_loaded_from_db = [], receiving_objects = receiving\<rparr>
   }"

abbreviation written :: "temporary_store \<Rightarrow> (object_id, object) btree_map" where
  "written ts \<equiv> written_objects (execution_results ts)"

abbreviation modified :: "temporary_store \<Rightarrow> object_id list" where
  "modified ts \<equiv> modified_objects (execution_results ts)"

abbreviation created_ids :: "temporary_store \<Rightarrow> object_id list" where
  "created_ids ts \<equiv> created_object_ids (execution_results ts)"

abbreviation deleted_ids :: "temporary_store \<Rightarrow> object_id list" where
  "deleted_ids ts \<equiv> deleted_object_ids (execution_results ts)"

definition map_results :: "(execution_results \<Rightarrow> execution_results) \<Rightarrow> temporary_store \<Rightarrow> temporary_store" where
  "map_results f ts = ts\<lparr>execution_results := f (execution_results ts)\<rparr>"

definition update_object_version_and_prev_tx :: "temporary_store \<Rightarrow> temporary_store option" where
  "update_object_version_and_prev_tx ts = do {
     r \<leftarrow> update_version_and_previous_tx (lamport_timestamp ts) (ts_tx_digest ts) (execution_results ts);
     Some (ts\<lparr>execution_results := r\<rparr>)
   }"

definition mutate_input_object :: "object \<Rightarrow> temporary_store \<Rightarrow> temporary_store option" where
  "mutate_input_object ob ts = do {
     i \<leftarrow> object_id_of ob;
     Some (map_results (\<lambda>r. r\<lparr>modified_objects := bs_insert i (modified_objects r),
                             written_objects := bt_insert i ob (written_objects r)\<rparr>) ts)
   }"

definition mutate_child_object :: "object_lib \<Rightarrow> object \<Rightarrow> object \<Rightarrow> temporary_store \<Rightarrow> temporary_store option" where
  "mutate_child_object lib old_object new_object ts = do {
     i \<leftarrow> object_id_of new_object;
     (_, v, d) \<leftarrow> compute_object_reference lib old_object;
     let ts = ts\<lparr>loaded_runtime_objects := bt_insert i
       \<lparr>md_version = v, md_digest = d, md_owner = obj_owner old_object,
        md_storage_rebate = obj_storage_rebate old_object,
        md_previous_transaction = obj_previous_transaction old_object\<rparr> (loaded_runtime_objects ts)\<rparr>;
     Some (map_results (\<lambda>r. r\<lparr>modified_objects := bs_insert i (modified_objects r),
                             written_objects := bt_insert i new_object (written_objects r)\<rparr>) ts)
   }"

definition upgrade_system_package :: "object \<Rightarrow> temporary_store \<Rightarrow> temporary_store option" where
  "upgrade_system_package package ts = do {
     i \<leftarrow> object_id_of package;
     rust_assert (is_package package \<and> is_system_package i);
     Some (map_results (\<lambda>r. r\<lparr>modified_objects := bs_insert i (modified_objects r),
                             written_objects := bt_insert i package (written_objects r)\<rparr>) ts)
   }"

definition create_object :: "object \<Rightarrow> temporary_store \<Rightarrow> temporary_store option" where
  "create_object ob ts = do {
     i \<leftarrow> object_id_of ob;
     Some (map_results (\<lambda>r. r\<lparr>created_object_ids := bs_insert i (created_object_ids r),
                             written_objects := bt_insert i ob (written_objects r)\<rparr>) ts)
   }"

definition delete_input_object :: "object_id \<Rightarrow> temporary_store \<Rightarrow> temporary_store" where
  "delete_input_object i ts =
     map_results (\<lambda>r. r\<lparr>modified_objects := bs_insert i (modified_objects r),
                       deleted_object_ids := bs_insert i (deleted_object_ids r)\<rparr>) ts"

definition drop_writes :: "temporary_store \<Rightarrow> temporary_store" where
  "drop_writes ts = map_results results_drop_writes ts"

definition read_object :: "object_id \<Rightarrow> temporary_store \<Rightarrow> object option" where
  "read_object i ts =
     (case bt_get (written ts) i of Some ob \<Rightarrow> Some ob | None \<Rightarrow> bt_get (input_objects ts) i)"

definition save_loaded_runtime_objects :: "(object_id, dyn_metadata) btree_map \<Rightarrow> temporary_store \<Rightarrow> temporary_store" where
  "save_loaded_runtime_objects loaded ts =
     ts\<lparr>loaded_runtime_objects := fold (\<lambda>(k, v). bt_insert k v) loaded (loaded_runtime_objects ts)\<rparr>"

definition save_wrapped_object_containers :: "(object_id, object_id) btree_map \<Rightarrow> temporary_store \<Rightarrow> temporary_store" where
  "save_wrapped_object_containers containers ts =
     ts\<lparr>wrapped_object_containers := fold (\<lambda>(k, v). bt_insert k v) containers (wrapped_object_containers ts)\<rparr>"

definition record_execution_results :: "execution_results \<Rightarrow> temporary_store \<Rightarrow> temporary_store" where
  "record_execution_results results ts = map_results (merge_results results) ts"

definition written_objects_size :: "object_lib \<Rightarrow> temporary_store \<Rightarrow> nat" where
  "written_objects_size lib ts =
     fold (\<lambda>(_, ob) total. add64 total (object_size_for_gas_metering lib ob)) (written ts) 0"

definition ensure_active_inputs_mutated :: "temporary_store \<Rightarrow> temporary_store option" where
  "ensure_active_inputs_mutated ts = do {
     to_be_updated \<leftarrow> map_opt (bt_get (input_objects ts))
       (filter (\<lambda>i. i \<notin> set (modified ts)) (map fst (mutable_input_refs ts)));
     fold_opt mutate_input_object to_be_updated ts
   }"

definition get_object_modified_at :: "object_lib \<Rightarrow> temporary_store \<Rightarrow> object_id \<Rightarrow> dyn_metadata option option" where
  "get_object_modified_at lib ts i =
     (if i \<in> set (modified ts) then
        (case bt_get (mutable_input_refs ts) i of
           Some ((v, d), own) \<Rightarrow> do {
             ob \<leftarrow> bt_get (input_objects ts) i;
             Some (Some \<lparr>md_version = v, md_digest = d, md_owner = own,
                         md_storage_rebate = obj_storage_rebate ob,
                         md_previous_transaction = obj_previous_transaction ob\<rparr>)
           }
         | None \<Rightarrow>
             (case bt_get (loaded_runtime_objects ts) i of
                Some md \<Rightarrow> Some (Some md)
              | None \<Rightarrow> do {
                  found \<leftarrow> bs_get_package_object (ts_store ts) i;
                  ob \<leftarrow> found;
                  Some (Some \<lparr>md_version = object_version ob, md_digest = object_hash lib ob,
                              md_owner = obj_owner ob, md_storage_rebate = obj_storage_rebate ob,
                              md_previous_transaction = obj_previous_transaction ob\<rparr>)
                }))
      else Some None)"

text \<open>If there are rebates of a system transaction, they go to the system state object.\<close>

definition conserve_unmetered_storage_rebate :: "nat \<Rightarrow> temporary_store \<Rightarrow> temporary_store option" where
  "conserve_unmetered_storage_rebate rebate ts =
     (if rebate = 0 then Some ts
      else do {
        system_state_wrapper \<leftarrow> read_object SUI_SYSTEM_STATE_OBJECT_ID ts;
        rust_assert (obj_storage_rebate system_state_wrapper = 0);
        mutate_input_object (system_state_wrapper\<lparr>obj_storage_rebate := rebate\<rparr>) ts
      })"

subsection \<open>Storage charges\<close>

text \<open>The second loop of \<^verbatim>\<open>collect_storage_and_rebate\<close>, over the written objects and their old rebates.\<close>

fun storage_loop ::
  "object_lib \<Rightarrow> ((object_id \<times> object) \<times> nat) list \<Rightarrow> sui_gas_status \<Rightarrow>
     ((object_id \<times> object) list \<times> sui_gas_status) option" where
  "storage_loop lib [] st = Some ([], st)"
| "storage_loop lib (((k, ob), old_storage_rebate) # rest) st = do {
     let new_object_size = object_size_for_gas_metering lib ob;
     i \<leftarrow> object_id_of ob;
     (new_storage_rebate, st) \<leftarrow> track_storage_mutation i new_object_size old_storage_rebate st;
     (others, st) \<leftarrow> storage_loop lib rest st;
     Some ((k, ob\<lparr>obj_storage_rebate := new_storage_rebate\<rparr>) # others, st)
   }"

text \<open>One step of \<^verbatim>\<open>collect_rebate\<close>.\<close>

definition rebate_step :: "object_lib \<Rightarrow> temporary_store \<Rightarrow> object_id \<Rightarrow> sui_gas_status \<Rightarrow> sui_gas_status option" where
  "rebate_step lib ts i st =
     (if bt_get (written ts) i \<noteq> None then Some st
      else do {
        found \<leftarrow> get_object_modified_at lib ts i;
        md \<leftarrow> found;
        (_, st) \<leftarrow> track_storage_mutation i 0 (md_storage_rebate md) st;
        Some st
      })"

definition collect_rebate :: "object_lib \<Rightarrow> temporary_store \<Rightarrow> sui_gas_status \<Rightarrow> sui_gas_status option" where
  "collect_rebate lib ts st = fold_opt (rebate_step lib ts) (modified ts) st"

definition old_storage_rebate :: "object_lib \<Rightarrow> temporary_store \<Rightarrow> object_id \<Rightarrow> nat option" where
  "old_storage_rebate lib ts i = do {
     found \<leftarrow> get_object_modified_at lib ts i;
     Some (case found of Some md \<Rightarrow> md_storage_rebate md | None \<Rightarrow> 0)
   }"

definition collect_storage_and_rebate ::
  "object_lib \<Rightarrow> temporary_store \<Rightarrow> sui_gas_status \<Rightarrow> (temporary_store \<times> sui_gas_status) option" where
  "collect_storage_and_rebate lib ts st = do {
     old_storage_rebates \<leftarrow> map_opt (\<lambda>e. old_storage_rebate lib ts (fst e)) (written ts);
     (objs, st) \<leftarrow> storage_loop lib (zip (written ts) old_storage_rebates) st;
     let ts = map_results (\<lambda>r. r\<lparr>written_objects := objs\<rparr>) ts;
     st \<leftarrow> collect_rebate lib ts st;
     Some (ts, st)
   }"

subsection \<open>Checks\<close>

definition check_execution_results_consistency :: "temporary_store \<Rightarrow> execution_error + unit" where
  "check_execution_results_consistency ts =
     (if \<not> list_all (\<lambda>i. i \<notin> set (deleted_ids ts) \<and> i \<notin> set (modified ts)) (created_ids ts)
      then Inl InvariantViolation
      else if \<not> list_all (\<lambda>i. bt_get (mutable_input_refs ts) i \<noteq> None \<or>
          bt_get (loaded_runtime_objects ts) i \<noteq> None \<or> is_system_package i) (modified ts)
      then Inl InvariantViolation
      else Inr ())"

definition get_modified_objects ::
  "object_lib \<Rightarrow> temporary_store \<Rightarrow> (object_id \<times> dyn_metadata option \<times> object option) list option" where
  "get_modified_objects lib ts = do {
     changed \<leftarrow> map_opt (\<lambda>i. do {
       metadata \<leftarrow> get_object_modified_at lib ts i;
       Some (i, metadata, bt_get (written ts) i)
     }) (modified ts);
     Some (changed @
       List.map_filter (\<lambda>(i, ob). if i \<in> set (modified ts) then None else Some (i, None, Some ob)) (written ts))
   }"

definition check_sui_conserved ::
  "object_lib \<Rightarrow> temporary_store \<Rightarrow> bool \<Rightarrow> gas_cost_summary \<Rightarrow> (execution_error + unit) option" where
  "check_sui_conserved lib ts simple_conservation_checks gas_summary =
     (if \<not> simple_conservation_checks then Some (Inr ())
      else do {
        changes \<leftarrow> get_modified_objects lib ts;
        let total_input_rebate = fold (\<lambda>(_, input, _) total.
          case input of Some md \<Rightarrow> add64 total (md_storage_rebate md) | None \<Rightarrow> total) changes 0;
        let total_output_rebate = fold (\<lambda>(_, _, output) total.
          case output of Some ob \<Rightarrow> add64 total (obj_storage_rebate ob) | None \<Rightarrow> total) changes 0;
        Some (if gcs_storage_cost gas_summary = 0 then
                (if total_input_rebate \<noteq> add64 (add64 total_output_rebate (gcs_storage_rebate gas_summary))
                      (gcs_non_refundable_storage_fee gas_summary)
                 then Inl InvariantViolation else Inr ())
              else if total_input_rebate \<noteq> add64 (gcs_storage_rebate gas_summary) (gcs_non_refundable_storage_fee gas_summary)
              then Inl InvariantViolation
              else if gcs_storage_cost gas_summary \<noteq> total_output_rebate then Inl InvariantViolation
              else Inr ())
      })"

definition get_input_sui ::
  "(move_object \<Rightarrow> nat option) \<Rightarrow> temporary_store \<Rightarrow> object_id \<Rightarrow> nat \<Rightarrow> (execution_error + nat) option" where
  "get_input_sui embedded ts i expected_version =
     (case bt_get (input_objects ts) i of
        Some ob \<Rightarrow>
          if object_version ob \<noteq> expected_version then Some (Inl InvariantViolation)
          else do {
            found \<leftarrow> get_total_sui embedded ob;
            Some (case found of Some v \<Rightarrow> Inr v | None \<Rightarrow> Inl InvariantViolation)
          }
      | None \<Rightarrow>
          (case bs_get_object_by_key (ts_store ts) i expected_version of
             Some (Some ob) \<Rightarrow> do {
               found \<leftarrow> get_total_sui embedded ob;
               Some (case found of Some v \<Rightarrow> Inr v | None \<Rightarrow> Inl InvariantViolation)
             }
           | _ \<Rightarrow> Some (Inl InvariantViolation)))"

text \<open>The loop of the expensive check, with the two running totals.\<close>

fun total_sui_loop ::
  "(move_object \<Rightarrow> nat option) \<Rightarrow> temporary_store \<Rightarrow> (object_id \<times> dyn_metadata option \<times> object option) list \<Rightarrow>
     nat \<Rightarrow> nat \<Rightarrow> (execution_error + (nat \<times> nat)) option" where
  "total_sui_loop embedded ts [] inp out = Some (Inr (inp, out))"
| "total_sui_loop embedded ts ((i, input, output) # rest) inp out = do {
     input_sui \<leftarrow> (case input of
                 None \<Rightarrow> Some (Inr 0)
               | Some md \<Rightarrow> get_input_sui embedded ts i (md_version md));
     case input_sui of
       Inl e \<Rightarrow> Some (Inl e)
     | Inr v \<Rightarrow> do {
         let inp = add64 inp v;
         case output of
           None \<Rightarrow> total_sui_loop embedded ts rest inp out
         | Some ob \<Rightarrow> do {
             found \<leftarrow> get_total_sui embedded ob;
             case found of
               None \<Rightarrow> Some (Inl InvariantViolation)
             | Some v \<Rightarrow> total_sui_loop embedded ts rest inp (add64 out v)
           }
       }
   }"

definition check_sui_conserved_expensive ::
  "object_lib \<Rightarrow> (move_object \<Rightarrow> nat option) \<Rightarrow> temporary_store \<Rightarrow> gas_cost_summary \<Rightarrow> (nat \<times> nat) option \<Rightarrow>
     (execution_error + unit) option" where
  "check_sui_conserved_expensive lib embedded ts gas_summary advance_epoch_gas_summary = do {
     changes \<leftarrow> get_modified_objects lib ts;
     totals \<leftarrow> total_sui_loop embedded ts changes 0 0;
     Some (case totals of
             Inl e \<Rightarrow> Inl e
           | Inr (inp, out) \<Rightarrow>
               let out = add64 out (add64 (gcs_computation_cost gas_summary) (gcs_non_refundable_storage_fee gas_summary));
                   (inp, out) = (case advance_epoch_gas_summary of
                                   Some (epoch_fees, epoch_rebates) \<Rightarrow> (add64 inp epoch_fees, add64 out epoch_rebates)
                                 | None \<Rightarrow> (inp, out))
               in if inp \<noteq> out then Inl InvariantViolation else Inr ())
   }"

end
