(* ===== verification/GasCharger.thy ===== *)
theory GasCharger
  imports TemporaryStore
begin

text \<open>
  The gas charger of a transaction (\<^verbatim>\<open>sui-execution/latest/sui-adapter/src/gas_charger.rs\<close>): smashing the
  gas coins into one, charging for reads and packages, and \<^verbatim>\<open>charge_gas\<close> with its out-of-gas paths.
  The charger and the temporary store are passed and returned together, as the code updates both in
  place. The file is under \<^verbatim>\<open>with_checked_arithmetic\<close>.
\<close>

section \<open>Model\<close>

record gas_charger =
  gc_tx_digest :: tx_digest
  gc_gas_model_version :: nat
  gas_coins :: "object_ref list"
  smashed_gas_coin :: "object_id option"
  gc_gas_status :: sui_gas_status

definition gas_charger_new :: "tx_digest \<Rightarrow> object_ref list \<Rightarrow> sui_gas_status \<Rightarrow> protocol_config \<Rightarrow> gas_charger" where
  "gas_charger_new tx coins st config =
     \<lparr>gc_tx_digest = tx, gc_gas_model_version = cfg_gas_model_version config, gas_coins = coins,
      smashed_gas_coin = None, gc_gas_status = st\<rparr>"

definition gas_charger_new_unmetered :: "tx_digest \<Rightarrow> gas_charger option" where
  "gas_charger_new_unmetered tx = do {
     st \<leftarrow> sui_gas_new_unmetered;
     Some \<lparr>gc_tx_digest = tx, gc_gas_model_version = 6, gas_coins = [], smashed_gas_coin = None,
           gc_gas_status = st\<rparr>
   }"

definition no_charges :: "gas_charger \<Rightarrow> bool" where
  "no_charges gc \<longleftrightarrow>
     gas_used (gc_gas_status gc) = 0 \<and> storage_rebate (gc_gas_status gc) = 0 \<and>
     storage_gas_units (gc_gas_status gc) = 0"

text \<open>The value of one gas coin; a missing object and an object that is not a gas coin panic.\<close>

definition gas_coin_value :: "temporary_store \<Rightarrow> object_ref \<Rightarrow> nat option" where
  "gas_coin_value ts r = do {
     ob \<leftarrow> bt_get (input_objects ts) (fst r);
     m \<leftarrow> try_as_move (obj_data ob);
     rust_assert (is_gas_coin (mo_type m));
     get_coin_value_unsafe m
   }"

definition smash_gas :: "gas_charger \<Rightarrow> temporary_store \<Rightarrow> (gas_charger \<times> temporary_store) option" where
  "smash_gas gc ts =
     (let coins = gas_coins gc in
      if coins = [] \<or> (length coins = 1 \<and> fst (hd coins) = 0) then Some (gc, ts)
      else
        let gas_coin_id = fst (hd coins);
            gc = gc\<lparr>smashed_gas_coin := Some gas_coin_id\<rparr>
        in if length coins = 1 then Some (gc, ts)
           else do {
             values \<leftarrow> map_opt (gas_coin_value ts) coins;
             let new_balance = sum64 values;
             primary_gas_object \<leftarrow> bt_get (input_objects ts) gas_coin_id;
             let ts = fold (\<lambda>r. delete_input_object (fst r)) (tl coins) ts;
             m \<leftarrow> try_as_move (obj_data primary_gas_object);
             m \<leftarrow> set_coin_value_unsafe new_balance m;
             ts \<leftarrow> mutate_input_object (primary_gas_object\<lparr>obj_data := Move m\<rparr>) ts;
             Some (gc, ts)
           })"

definition charger_publish_package :: "nat \<Rightarrow> gas_charger \<Rightarrow> (execution_error + unit) \<times> gas_charger" where
  "charger_publish_package n gc =
     (let (r, st) = charge_publish_package n (gc_gas_status gc) in (r, gc\<lparr>gc_gas_status := st\<rparr>))"

definition charge_upgrade_package :: "nat \<Rightarrow> gas_charger \<Rightarrow> (execution_error + unit) \<times> gas_charger" where
  "charge_upgrade_package n gc =
     (if charge_upgrades (gc_gas_model_version gc) then charger_publish_package n gc else (Inr (), gc))"

definition charge_input_objects ::
  "object_lib \<Rightarrow> temporary_store \<Rightarrow> gas_charger \<Rightarrow> (execution_error + unit) \<times> gas_charger" where
  "charge_input_objects lib ts gc =
     (let total_size = sum64 (map (\<lambda>(_, ob). object_size_for_gas_metering lib ob)
            (filter (\<lambda>(i, _). \<not> is_system_package i) (input_objects ts)));
          (r, st) = charge_storage_read total_size (gc_gas_status gc)
      in (r, gc\<lparr>gc_gas_status := st\<rparr>))"

definition charger_reset :: "gas_charger \<Rightarrow> temporary_store \<Rightarrow> (gas_charger \<times> temporary_store) option" where
  "charger_reset gc ts =
     (let ts = drop_writes ts;
          gc = gc\<lparr>gc_gas_status := reset_storage_cost_and_rebate (gc_gas_status gc)\<rparr>
      in smash_gas gc ts)"

text \<open>The store's \<^verbatim>\<open>collect_rebate\<close> and \<^verbatim>\<open>collect_storage_and_rebate\<close> on the charger's status.\<close>

definition charger_collect_rebate :: "object_lib \<Rightarrow> gas_charger \<Rightarrow> temporary_store \<Rightarrow> gas_charger option" where
  "charger_collect_rebate lib gc ts = do {
     st \<leftarrow> collect_rebate lib ts (gc_gas_status gc);
     Some (gc\<lparr>gc_gas_status := st\<rparr>)
   }"

definition charger_collect ::
  "object_lib \<Rightarrow> gas_charger \<Rightarrow> temporary_store \<Rightarrow> (gas_charger \<times> temporary_store) option" where
  "charger_collect lib gc ts = do {
     (ts, st) \<leftarrow> collect_storage_and_rebate lib ts (gc_gas_status gc);
     Some (gc\<lparr>gc_gas_status := st\<rparr>, ts)
   }"

text \<open>\<^verbatim>\<open>if execution_result.is_ok() { *execution_result = Err(err) }\<close>\<close>

fun set_error :: "execution_error \<Rightarrow> execution_error + 'a \<Rightarrow> execution_error + 'a" where
  "set_error err (Inr _) = Inl err"
| "set_error err (Inl e) = Inl e"

definition handle_storage_and_rebate_v1 ::
  "object_lib \<Rightarrow> gas_charger \<Rightarrow> temporary_store \<Rightarrow> execution_error + 'a \<Rightarrow>
     (gas_charger \<times> temporary_store \<times> (execution_error + 'a)) option" where
  "handle_storage_and_rebate_v1 lib gc ts res = do {
     charged \<leftarrow> charge_storage_and_rebate (gc_gas_status gc);
     case charged of
       Inr _ \<Rightarrow> Some (gc, ts, res)
     | Inl err \<Rightarrow> do {
         (gc, ts) \<leftarrow> charger_reset gc ts;
         let gc = gc\<lparr>gc_gas_status := adjust_computation_on_out_of_gas (gc_gas_status gc)\<rparr>;
         ts \<leftarrow> ensure_active_inputs_mutated ts;
         gc \<leftarrow> charger_collect_rebate lib gc ts;
         Some (gc, ts, set_error err res)
       }
   }"

definition handle_storage_and_rebate_v2 ::
  "object_lib \<Rightarrow> gas_charger \<Rightarrow> temporary_store \<Rightarrow> execution_error + 'a \<Rightarrow>
     (gas_charger \<times> temporary_store \<times> (execution_error + 'a)) option" where
  "handle_storage_and_rebate_v2 lib gc ts res = do {
     charged \<leftarrow> charge_storage_and_rebate (gc_gas_status gc);
     case charged of
       Inr _ \<Rightarrow> Some (gc, ts, res)
     | Inl err \<Rightarrow> do {
         (gc, ts) \<leftarrow> charger_reset gc ts;
         ts \<leftarrow> ensure_active_inputs_mutated ts;
         (gc, ts) \<leftarrow> charger_collect lib gc ts;
         charged \<leftarrow> charge_storage_and_rebate (gc_gas_status gc);
         case charged of
           Inl err \<Rightarrow> do {
             (gc, ts) \<leftarrow> charger_reset gc ts;
             let gc = gc\<lparr>gc_gas_status := adjust_computation_on_out_of_gas (gc_gas_status gc)\<rparr>;
             ts \<leftarrow> ensure_active_inputs_mutated ts;
             gc \<leftarrow> charger_collect_rebate lib gc ts;
             Some (gc, ts, set_error err res)
           }
         | Inr _ \<Rightarrow> Some (gc, ts, set_error err res)
       }
   }"

text \<open>The first part of \<^verbatim>\<open>charge_gas\<close>: settle the computation and drop the writes of a failed execution.\<close>

definition settle_computation ::
  "gas_charger \<Rightarrow> temporary_store \<Rightarrow> execution_error + 'a \<Rightarrow>
     (gas_charger \<times> temporary_store \<times> (execution_error + 'a)) option" where
  "settle_computation gc ts res =
     (if smashed_gas_coin gc = None then Some (gc, ts, res)
      else do {
        (r, st) \<leftarrow> bucketize_computation (gc_gas_status gc);
        let gc = gc\<lparr>gc_gas_status := st\<rparr>;
        let res = (case r of Inl err \<Rightarrow> set_error err res | Inr _ \<Rightarrow> res);
        case res of
          Inl _ \<Rightarrow> do { (gc, ts) \<leftarrow> charger_reset gc ts; Some (gc, ts, res) }
        | Inr _ \<Rightarrow> Some (gc, ts, res)
      })"

text \<open>The last part: the net charge is taken from the gas coin.\<close>

definition pay_from_coin ::
  "object_id \<Rightarrow> gas_charger \<Rightarrow> temporary_store \<Rightarrow> (gas_cost_summary \<times> temporary_store) option" where
  "pay_from_coin gas_object_id gc ts = do {
     cost_summary \<leftarrow> summary (gc_gas_status gc);
     gas_used \<leftarrow> net_gas_usage cost_summary;
     gas_object \<leftarrow> read_object gas_object_id ts;
     gas_object \<leftarrow> deduct_gas_coin gas_object gas_used;
     ts \<leftarrow> mutate_input_object gas_object ts;
     Some (cost_summary, ts)
   }"

definition default_summary :: gas_cost_summary where
  "default_summary = gas_cost_summary_new 0 0 0 0"

definition charge_gas ::
  "object_lib \<Rightarrow> gas_charger \<Rightarrow> temporary_store \<Rightarrow> execution_error + 'a \<Rightarrow>
     (gas_cost_summary \<times> gas_charger \<times> temporary_store \<times> (execution_error + 'a)) option" where
  "charge_gas lib gc ts res = do {
     (gc, ts, res) \<leftarrow> settle_computation gc ts res;
     ts \<leftarrow> ensure_active_inputs_mutated ts;
     (gc, ts) \<leftarrow> charger_collect lib gc ts;
     case smashed_gas_coin gc of
       Some gas_object_id \<Rightarrow> do {
         (gc, ts, res) \<leftarrow> (if dont_charge_budget_on_storage_oog (gc_gas_model_version gc)
                          then handle_storage_and_rebate_v2 lib gc ts res
                          else handle_storage_and_rebate_v1 lib gc ts res);
         (cost_summary, ts) \<leftarrow> pay_from_coin gas_object_id gc ts;
         Some (cost_summary, gc, ts, res)
       }
     | None \<Rightarrow> Some (default_summary, gc, ts, res)
   }"

end
