(* ===== verification/StoreAccounting.thy ===== *)
theory StoreAccounting
  imports TemporaryStore
begin

text \<open>
  What the storage charges of a temporary store add up to. The old rebate of a modified object does not
  depend on what the transaction wrote, so collecting the charges yields a gas status whose totals are
  those of the store: the cost is what the written objects now hold, the rebate what the modified
  objects held before.
\<close>

section \<open>Well-formed stores\<close>

text \<open>Stores that differ in what the transaction wrote.\<close>

definition same_inputs :: "temporary_store \<Rightarrow> temporary_store \<Rightarrow> bool" where
  "same_inputs ts ts' \<longleftrightarrow>
     input_objects ts' = input_objects ts \<and> mutable_input_refs ts' = mutable_input_refs ts \<and>
     loaded_runtime_objects ts' = loaded_runtime_objects ts \<and> ts_store ts' = ts_store ts"

lemma same_inputs_refl [simp]: "same_inputs ts ts"
  by (simp add: same_inputs_def)

lemma same_inputs_trans: "same_inputs a b \<Longrightarrow> same_inputs b c \<Longrightarrow> same_inputs a c"
  by (simp add: same_inputs_def)

lemma same_inputs_map_results [simp]: "same_inputs ts (map_results f ts)"
  by (simp add: same_inputs_def map_results_def)

lemma written_map_results [simp]: "written (map_results f ts) = written_objects (f (execution_results ts))"
  by (simp add: map_results_def)

lemma modified_map_results [simp]: "modified (map_results f ts) = modified_objects (f (execution_results ts))"
  by (simp add: map_results_def)

text \<open>The state of an object before the transaction.\<close>

definition original :: "object_lib \<Rightarrow> temporary_store \<Rightarrow> object_id \<Rightarrow> dyn_metadata option" where
  "original lib ts i =
     (case bt_get (mutable_input_refs ts) i of
        Some ((v, d), own) \<Rightarrow> do {
          ob \<leftarrow> bt_get (input_objects ts) i;
          Some \<lparr>md_version = v, md_digest = d, md_owner = own, md_storage_rebate = obj_storage_rebate ob,
                md_previous_transaction = obj_previous_transaction ob\<rparr>
        }
      | None \<Rightarrow>
          (case bt_get (loaded_runtime_objects ts) i of
             Some md \<Rightarrow> Some md
           | None \<Rightarrow> do {
               found \<leftarrow> bs_get_package_object (ts_store ts) i;
               ob \<leftarrow> found;
               Some \<lparr>md_version = object_version ob, md_digest = object_hash lib ob, md_owner = obj_owner ob,
                     md_storage_rebate = obj_storage_rebate ob,
                     md_previous_transaction = obj_previous_transaction ob\<rparr>
             }))"

definition original_rebate :: "object_lib \<Rightarrow> temporary_store \<Rightarrow> object_id \<Rightarrow> nat" where
  "original_rebate lib ts i = (case original lib ts i of Some md \<Rightarrow> md_storage_rebate md | None \<Rightarrow> 0)"

lemma get_object_modified_at_original:
  "get_object_modified_at lib ts i =
     (if i \<in> set (modified ts) then map_option Some (original lib ts i) else Some None)"
  by (auto simp: get_object_modified_at_def original_def split: option.splits Option.bind_splits)

lemma original_same: "same_inputs ts ts' \<Longrightarrow> original lib ts' = original lib ts"
  by (rule ext) (simp add: same_inputs_def original_def cong: option.case_cong)

lemma original_rebate_same: "same_inputs ts ts' \<Longrightarrow> original_rebate lib ts' = original_rebate lib ts"
  by (rule ext) (simp add: original_rebate_def original_same)

lemma old_storage_rebate_Some:
  "old_storage_rebate lib ts i = Some r \<Longrightarrow> r = (if i \<in> set (modified ts) then original_rebate lib ts i else 0)"
  by (auto simp: old_storage_rebate_def get_object_modified_at_original original_rebate_def option_simps
      split: if_splits)

definition store_ok :: "temporary_store \<Rightarrow> bool" where
  "store_ok ts \<longleftrightarrow>
     keys_sorted (written ts) \<and> sorted_wrt (<) (modified ts) \<and>
     keys_sorted (input_objects ts) \<and> keys_sorted (mutable_input_refs ts) \<and>
     (\<forall>(k, ob) \<in> set (written ts). object_id_of ob = Some k) \<and>
     (\<forall>(k, ob) \<in> set (input_objects ts). object_id_of ob = Some k)"

lemma store_ok_written: "store_ok ts \<Longrightarrow> bt_get (written ts) i = Some ob \<Longrightarrow> object_id_of ob = Some i"
  by (auto simp: store_ok_def bt_get_in_set)

lemma store_ok_input: "store_ok ts \<Longrightarrow> bt_get (input_objects ts) i = Some ob \<Longrightarrow> object_id_of ob = Some i"
  by (auto simp: store_ok_def bt_get_in_set)

lemma bt_get_None_iff: "bt_get m k = None \<longleftrightarrow> k \<notin> fst ` set m"
  by (simp add: bt_get_def map_of_eq_None_iff)

lemma in_keys_iff: "k \<in> fst ` set m \<longleftrightarrow> bt_get m k \<noteq> None"
  by (simp add: bt_get_None_iff)

text \<open>Writing an object under its own identifier.\<close>

lemma mutate_input_object:
  assumes "mutate_input_object ob ts = Some ts'" and "store_ok ts"
  obtains i where "object_id_of ob = Some i" "store_ok ts'" "same_inputs ts ts'"
    "set (modified ts') = insert i (set (modified ts))"
    "bt_get (written ts') = (bt_get (written ts))(i \<mapsto> ob)" "written ts' = bt_insert i ob (written ts)"
    "modified ts' = bs_insert i (modified ts)"
proof -
  obtain i where i: "object_id_of ob = Some i" and ts': "ts' = map_results (\<lambda>r. r\<lparr>
      modified_objects := bs_insert i (modified_objects r), written_objects := bt_insert i ob (written_objects r)\<rparr>) ts"
    using assms(1) by (auto simp: mutate_input_object_def option_simps)
  have "store_ok ts'"
    using assms(2) i by (auto simp: store_ok_def ts' map_results_def set_bt_insert)
  then show ?thesis by (rule that [OF i]) (simp_all add: ts' bt_get_insert)
qed

lemma delete_input_object:
  assumes "store_ok ts"
  shows "store_ok (delete_input_object i ts)" "same_inputs ts (delete_input_object i ts)"
    "set (modified (delete_input_object i ts)) = insert i (set (modified ts))"
    "written (delete_input_object i ts) = written ts"
  using assms by (auto simp: delete_input_object_def store_ok_def map_results_def same_inputs_def)

lemma drop_writes:
  assumes "store_ok ts"
  shows "store_ok (drop_writes ts)" "same_inputs ts (drop_writes ts)"
    "modified (drop_writes ts) = []" "written (drop_writes ts) = []"
    "created_ids (drop_writes ts) = []" "deleted_ids (drop_writes ts) = []"
    "user_events (execution_results (drop_writes ts)) = []"
  using assms by (simp_all add: drop_writes_def results_drop_writes_def store_ok_def map_results_def same_inputs_def)

text \<open>What a transaction did besides writing: objects created, objects deleted, events.\<close>

definition same_outputs :: "temporary_store \<Rightarrow> temporary_store \<Rightarrow> bool" where
  "same_outputs ts ts' \<longleftrightarrow>
     created_ids ts' = created_ids ts \<and> deleted_ids ts' = deleted_ids ts \<and>
     user_events (execution_results ts') = user_events (execution_results ts)"

lemma same_outputs_trans: "same_outputs a b \<Longrightarrow> same_outputs b c \<Longrightarrow> same_outputs a c"
  by (simp add: same_outputs_def)

lemma mutate_input_object_outputs: "mutate_input_object ob ts = Some ts' \<Longrightarrow> same_outputs ts ts'"
  by (auto simp: mutate_input_object_def same_outputs_def map_results_def option_simps)

lemma mutate_inputs_outputs: "fold_opt mutate_input_object obs ts = Some ts' \<Longrightarrow> same_outputs ts ts'"
proof (induction obs arbitrary: ts)
  case (Cons ob obs)
  then obtain t where "mutate_input_object ob ts = Some t" "fold_opt mutate_input_object obs t = Some ts'"
    by (auto simp: option_simps)
  with Cons.IH mutate_input_object_outputs same_outputs_trans show ?case by blast
qed (simp add: same_outputs_def)

lemma ensure_outputs: "ensure_active_inputs_mutated ts = Some ts' \<Longrightarrow> same_outputs ts ts'"
  by (auto simp: ensure_active_inputs_mutated_def option_simps intro: mutate_inputs_outputs)

lemma collect_outputs: "collect_storage_and_rebate lib ts st = Some (ts', st') \<Longrightarrow> same_outputs ts ts'"
  by (auto simp: collect_storage_and_rebate_def option_simps Let_def same_outputs_def map_results_def)

section \<open>Forcing the mutable inputs\<close>

text \<open>A sequence of writes of input objects.\<close>

lemma mutate_inputs:
  assumes "fold_opt mutate_input_object obs ts = Some ts'" and "store_ok ts"
    and "\<forall>ob \<in> set obs. \<exists>i. bt_get (input_objects ts) i = Some ob"
  shows "store_ok ts' \<and> same_inputs ts ts' \<and>
    set (modified ts') = set (modified ts) \<union> {i. \<exists>ob \<in> set obs. object_id_of ob = Some i} \<and>
    fst ` set (written ts') = fst ` set (written ts) \<union> {i. \<exists>ob \<in> set obs. object_id_of ob = Some i} \<and>
    (\<forall>i ob. bt_get (written ts') i = Some ob \<longrightarrow>
       bt_get (written ts) i = Some ob \<or> bt_get (input_objects ts) i = Some ob)"
  using assms
proof (induction obs arbitrary: ts)
  case (Cons ob obs)
  obtain t where t: "mutate_input_object ob ts = Some t" "fold_opt mutate_input_object obs t = Some ts'"
    using Cons.prems(1) by (auto simp: option_simps)
  obtain i where i: "object_id_of ob = Some i" "store_ok t" "same_inputs ts t"
    "set (modified t) = insert i (set (modified ts))"
    "bt_get (written t) = (bt_get (written ts))(i \<mapsto> ob)" "written t = bt_insert i ob (written ts)"
    using mutate_input_object [OF t(1) Cons.prems(2)] by metis
  have inp: "input_objects t = input_objects ts" using i(3) by (simp add: same_inputs_def)
  have "\<forall>ob \<in> set obs. \<exists>i. bt_get (input_objects t) i = Some ob" using Cons.prems(3) inp by simp
  note all = Cons.IH [OF t(2) i(2) this]
  let ?new = "{j. \<exists>ob' \<in> set obs. object_id_of ob' = Some j}"
  have IH: "store_ok ts'" "same_inputs t ts'" "set (modified ts') = set (modified t) \<union> ?new"
    "fst ` set (written ts') = fst ` set (written t) \<union> ?new"
    "\<And>k ob'. bt_get (written ts') k = Some ob' \<Longrightarrow> bt_get (written t) k = Some ob' \<or> bt_get (input_objects t) k = Some ob'"
    by (rule all [THEN conjunct1] all [THEN conjunct2, THEN conjunct1]
        all [THEN conjunct2, THEN conjunct2, THEN conjunct1]
        all [THEN conjunct2, THEN conjunct2, THEN conjunct2, THEN conjunct1]
        all [THEN conjunct2, THEN conjunct2, THEN conjunct2, THEN conjunct2, rule_format], assumption?)+
  obtain j where j: "bt_get (input_objects ts) j = Some ob" using Cons.prems(3) by auto
  have iob: "bt_get (input_objects ts) i = Some ob" using store_ok_input [OF Cons.prems(2) j] i(1) j by simp
  have get: "bt_get (written ts) k = Some ob' \<or> bt_get (input_objects ts) k = Some ob'"
    if "bt_get (written ts') k = Some ob'" for k ob'
  proof (cases "k = i")
    case True
    with IH(5) [OF that] iob show ?thesis by (simp add: i(5) inp)
  next
    case False
    with IH(5) [OF that] show ?thesis by (simp add: i(5) inp)
  qed
  have new: "{j. \<exists>ob' \<in> set (ob # obs). object_id_of ob' = Some j} = insert i ?new" using i(1) by auto
  show ?case
    unfolding new using IH(1) same_inputs_trans [OF i(3) IH(2)] IH(3,4) i(4,6) get by simp
qed simp

lemma mutate_inputs_frame:
  assumes "fold_opt mutate_input_object obs ts = Some ts'" and "store_ok ts"
    and "\<forall>ob \<in> set obs. object_id_of ob \<noteq> Some i"
  shows "bt_get (written ts') i = bt_get (written ts) i"
  using assms
proof (induction obs arbitrary: ts)
  case (Cons ob obs)
  obtain t where t: "mutate_input_object ob ts = Some t" "fold_opt mutate_input_object obs t = Some ts'"
    using Cons.prems(1) by (auto simp: option_simps)
  obtain j where j: "object_id_of ob = Some j" "store_ok t" "bt_get (written t) = (bt_get (written ts))(j \<mapsto> ob)"
    using mutate_input_object [OF t(1) Cons.prems(2)] by metis
  from Cons.IH [OF t(2) j(2)] Cons.prems(3) j(1,3) show ?case by simp
qed simp

lemma ensure_active_inputs_mutated:
  assumes "ensure_active_inputs_mutated ts = Some ts'" and "store_ok ts"
  shows "store_ok ts'" "same_inputs ts ts'"
    "set (modified ts') = set (modified ts) \<union> fst ` set (mutable_input_refs ts)"
    "fst ` set (written ts') = fst ` set (written ts) \<union> (fst ` set (mutable_input_refs ts) - set (modified ts))"
    "\<And>i ob. bt_get (written ts') i = Some ob \<Longrightarrow>
       bt_get (written ts) i = Some ob \<or> bt_get (input_objects ts) i = Some ob"
    "\<And>i. i \<in> set (modified ts) \<Longrightarrow> bt_get (written ts') i = bt_get (written ts) i"
proof -
  let ?ids = "filter (\<lambda>i. i \<notin> set (modified ts)) (map fst (mutable_input_refs ts))"
  obtain obs where obs: "map_opt (bt_get (input_objects ts)) ?ids = Some obs"
    and run: "fold_opt mutate_input_object obs ts = Some ts'"
    using assms(1) by (auto simp: ensure_active_inputs_mutated_def option_simps)
  have o: "\<forall>i \<in> set ?ids. bt_get (input_objects ts) i \<noteq> None" "obs = map (the \<circ> bt_get (input_objects ts)) ?ids"
    using obs unfolding map_opt_Some_iff by blast+
  have get: "\<exists>ob. bt_get (input_objects ts) i = Some ob \<and> object_id_of ob = Some i" if "i \<in> set ?ids" for i
    using o(1) that store_ok_input [OF assms(2)] by fastforce
  have ids: "{i. \<exists>ob \<in> set obs. object_id_of ob = Some i} = fst ` set (mutable_input_refs ts) - set (modified ts)"
  proof -
    have "{i. \<exists>ob \<in> set obs. object_id_of ob = Some i} = set ?ids"
      unfolding o(2) using get by force
    then show ?thesis by auto
  qed
  have "\<forall>ob \<in> set obs. \<exists>i. bt_get (input_objects ts) i = Some ob" unfolding o(2) using get by force
  from mutate_inputs [OF run assms(2) this, unfolded ids]
  show "store_ok ts'" "same_inputs ts ts'"
    "set (modified ts') = set (modified ts) \<union> fst ` set (mutable_input_refs ts)"
    "fst ` set (written ts') = fst ` set (written ts) \<union> (fst ` set (mutable_input_refs ts) - set (modified ts))"
    "\<And>i ob. bt_get (written ts') i = Some ob \<Longrightarrow>
       bt_get (written ts) i = Some ob \<or> bt_get (input_objects ts) i = Some ob"
    by auto
  show "bt_get (written ts') i = bt_get (written ts) i" if "i \<in> set (modified ts)" for i
    by (rule mutate_inputs_frame [OF run assms(2)]) (use ids that in blast)
qed

section \<open>Collecting the charges\<close>

definition total_cost :: "(object_id \<times> per_object_storage) list \<Rightarrow> nat" where
  "total_cost ps = sum_list (map (pos_storage_cost \<circ> snd) ps)"

definition total_rebate :: "(object_id \<times> per_object_storage) list \<Rightarrow> nat" where
  "total_rebate ps = sum_list (map (pos_storage_rebate \<circ> snd) ps)"

definition written_rebates :: "temporary_store \<Rightarrow> nat" where
  "written_rebates ts = sum_list (map (\<lambda>(k, ob). obj_storage_rebate ob) (written ts))"

lemma totals_append [simp]:
  "total_cost (ps @ qs) = total_cost ps + total_cost qs"
  "total_rebate (ps @ qs) = total_rebate ps + total_rebate qs"
  "total_cost [] = 0" "total_rebate [] = 0"
  by (simp_all add: total_cost_def total_rebate_def)

lemma storage_cost_total: "storage_cost st = total_cost (per_object_storage st) mod 2 ^ 64"
  by (simp add: storage_cost_def storage_gas_units_def sum64_def total_cost_def)

lemma storage_rebate_total: "storage_rebate st = total_rebate (per_object_storage st) mod 2 ^ 64"
  by (simp add: storage_rebate_def sum64_def total_rebate_def)

text \<open>Gas statuses that differ in the tracked storage.\<close>

definition tracked :: "sui_gas_status \<Rightarrow> (object_id \<times> per_object_storage) list \<Rightarrow> sui_gas_status" where
  "tracked st ps = st\<lparr>per_object_storage := per_object_storage st @ ps\<rparr>"

lemma tracked_append: "tracked (tracked st ps) qs = tracked st (ps @ qs)"
  by (simp add: tracked_def)

lemma tracked_Nil [simp]: "tracked st [] = st"
  by (simp add: tracked_def)

lemma tracked_fields [simp]:
  "is_unmetered (tracked st ps) = is_unmetered st" "per_object_storage (tracked st ps) = per_object_storage st @ ps"
  "gas_budget (tracked st ps) = gas_budget st" "computation_cost (tracked st ps) = computation_cost st"
  "rebate_rate (tracked st ps) = rebate_rate st" "unmetered_storage_rebate (tracked st ps) = unmetered_storage_rebate st"
  by (simp_all add: tracked_def is_unmetered_def)

lemma track_storage_mutation_metered:
  assumes "track_storage_mutation i n r st = Some (c, st')" and "\<not> is_unmetered st"
  shows "\<exists>p. st' = tracked st [(i, p)] \<and> pos_storage_cost p = c \<and> pos_storage_rebate p = r \<and> (n = 0 \<longrightarrow> c = 0)"
  using assms by (auto simp: track_storage_mutation_def option_simps tracked_def)

text \<open>An object with another storage rebate.\<close>

definition same_but_rebate :: "object \<Rightarrow> object \<Rightarrow> bool" where
  "same_but_rebate ob ob' \<longleftrightarrow> ob' = ob\<lparr>obj_storage_rebate := obj_storage_rebate ob'\<rparr>"

lemma same_but_rebate:
  assumes "same_but_rebate ob ob'"
  shows "obj_data ob' = obj_data ob" "object_id_of ob' = object_id_of ob" "obj_owner ob' = obj_owner ob"
    "coin_ok ob' = coin_ok ob" "coin_value ob' = coin_value ob" "object_version ob' = object_version ob"
proof -
  from assms have e: "ob' = ob\<lparr>obj_storage_rebate := obj_storage_rebate ob'\<rparr>" by (simp add: same_but_rebate_def)
  show "obj_data ob' = obj_data ob" "object_id_of ob' = object_id_of ob" "obj_owner ob' = obj_owner ob"
    "coin_ok ob' = coin_ok ob" "coin_value ob' = coin_value ob" "object_version ob' = object_version ob"
    by (subst e, simp add: object_id_of_def coin_ok_def coin_value_def object_version_def)+
qed

lemma storage_loop:
  assumes "storage_loop lib (zip w olds) st = Some (objs, st')" and "length olds = length w" and "\<not> is_unmetered st"
  shows "\<exists>ps. st' = tracked st ps \<and> total_cost ps = sum_list (map (\<lambda>(k, ob). obj_storage_rebate ob) objs) \<and>
    total_rebate ps = sum_list olds \<and> list_all2 (\<lambda>(k, ob) (k', ob'). k' = k \<and> same_but_rebate ob ob') w objs"
  using assms
proof (induction w arbitrary: olds st objs)
  case (Cons e w)
  obtain r rs where olds: "olds = r # rs" using Cons.prems(2) by (cases olds) auto
  obtain k ob where e: "e = (k, ob)" by (cases e)
  obtain i c st1 rest where step: "object_id_of ob = Some i"
    "track_storage_mutation i (object_size_for_gas_metering lib ob) r st = Some (c, st1)"
    "storage_loop lib (zip w rs) st1 = Some (rest, st')"
    "objs = (k, ob\<lparr>obj_storage_rebate := c\<rparr>) # rest"
    using Cons.prems(1) by (auto simp: olds e option_simps Let_def)
  obtain p where p: "st1 = tracked st [(i, p)]" "pos_storage_cost p = c" "pos_storage_rebate p = r"
    using track_storage_mutation_metered [OF step(2) Cons.prems(3)] by blast
  have "length rs = length w" "\<not> is_unmetered st1" using Cons.prems by (simp_all add: olds p)
  from Cons.IH [OF step(3) this] obtain ps where ps: "st' = tracked st1 ps"
    "total_cost ps = sum_list (map (\<lambda>(k, ob). obj_storage_rebate ob) rest)" "total_rebate ps = sum_list rs"
    "list_all2 (\<lambda>(k, ob) (k', ob'). k' = k \<and> same_but_rebate ob ob') w rest" by blast
  show ?case
    by (rule exI [of _ "(i, p) # ps"])
      (use p ps in \<open>simp add: olds e step(4) tracked_append same_but_rebate_def total_cost_def total_rebate_def\<close>)
next
  case Nil
  then show ?case by (intro exI [of _ "[]"]) simp
qed

lemma collect_rebate:
  assumes "fold_opt (rebate_step lib ts) is st = Some st'" and "\<not> is_unmetered st" and "set is \<subseteq> set (modified ts)"
  shows "\<exists>ps. st' = tracked st ps \<and> total_cost ps = 0 \<and>
    total_rebate ps = sum_list (map (original_rebate lib ts) (filter (\<lambda>i. i \<notin> fst ` set (written ts)) is))"
  using assms
proof (induction "is" arbitrary: st)
  case Nil
  then show ?case by (intro exI [of _ "[]"]) simp
next
  case (Cons i ids)
  obtain st1 where step: "rebate_step lib ts i st = Some st1" "fold_opt (rebate_step lib ts) ids st1 = Some st'"
    using Cons.prems(1) by (auto simp: option_simps)
  have sub: "set ids \<subseteq> set (modified ts)" "i \<in> set (modified ts)" using Cons.prems(3) by auto
  show ?case
  proof (cases "i \<in> fst ` set (written ts)")
    case True
    then have "st1 = st" using step(1) by (auto simp: rebate_step_def bt_get_None_iff split: if_splits)
    with Cons.IH [OF _ Cons.prems(2) sub(1)] step(2) True show ?thesis by simp
  next
    case False
    then obtain md c where md: "original lib ts i = Some md"
      "track_storage_mutation i 0 (md_storage_rebate md) st = Some (c, st1)"
      using step(1) sub(2)
      by (auto simp: rebate_step_def bt_get_None_iff get_object_modified_at_original option_simps split: if_splits)
    obtain p where p: "st1 = tracked st [(i, p)]" "pos_storage_cost p = 0" "pos_storage_rebate p = md_storage_rebate md"
      using track_storage_mutation_metered [OF md(2) Cons.prems(2)] by auto
    have "\<not> is_unmetered st1" using Cons.prems(2) p by simp
    from Cons.IH [OF step(2) this sub(1)] obtain ps where ps: "st' = tracked st1 ps" "total_cost ps = 0"
      "total_rebate ps = sum_list (map (original_rebate lib ts) (filter (\<lambda>i. i \<notin> fst ` set (written ts)) ids))"
      by blast
    have "original_rebate lib ts i = md_storage_rebate md" using md(1) by (simp add: original_rebate_def)
    with p ps False show ?thesis
      by (intro exI [of _ "(i, p) # ps"]) (simp add: tracked_append total_cost_def total_rebate_def)
  qed
qed

lemma rebate_steps_original:
  assumes "fold_opt (rebate_step lib ts) is st = Some st'" and "set is \<subseteq> set (modified ts)"
    and "i \<in> set is" and "i \<notin> fst ` set (written ts)"
  shows "original lib ts i \<noteq> None"
  using assms
proof (induction "is" arbitrary: st)
  case (Cons j ids)
  obtain st1 where step: "rebate_step lib ts j st = Some st1" "fold_opt (rebate_step lib ts) ids st1 = Some st'"
    using Cons.prems(1) by (auto simp: option_simps)
  show ?case
  proof (cases "i = j")
    case True
    with step(1) Cons.prems(2,4) show ?thesis
      by (auto simp: rebate_step_def bt_get_None_iff get_object_modified_at_original option_simps split: if_splits)
  next
    case False
    with Cons.IH [OF step(2)] Cons.prems show ?thesis by auto
  qed
qed simp

text \<open>What the modified objects held before the transaction.\<close>

definition modified_rebates :: "object_lib \<Rightarrow> temporary_store \<Rightarrow> nat" where
  "modified_rebates lib ts = sum_list (map (original_rebate lib ts) (modified ts))"

lemma sum_list_filter_split:
  "sum_list (map f xs) = sum_list (map f (filter P xs)) + sum_list (map (f :: 'a \<Rightarrow> nat) (filter (\<lambda>x. \<not> P x) xs))"
  by (induction xs) auto

lemma rebates_split:
  assumes "distinct ks" "distinct ms"
  shows "sum_list (map (\<lambda>k. if k \<in> set ms then f k else 0) ks) + sum_list (map f (filter (\<lambda>i. i \<notin> set ks) ms)) =
    sum_list (map (f :: 'a \<Rightarrow> nat) ms)"
proof -
  have "sum_list (map (\<lambda>k. if k \<in> set ms then f k else 0) ks) = (\<Sum>k \<in> set ks. if k \<in> set ms then f k else 0)"
    using assms(1) by (simp add: sum_list_distinct_conv_sum_set)
  also have "\<dots> = (\<Sum>k \<in> set ks \<inter> set ms. f k)" by (simp add: sum.inter_restrict)
  also have "\<dots> = sum_list (map f (filter (\<lambda>i. i \<in> set ks) ms))"
    using assms(2) by (simp add: sum_list_distinct_conv_sum_set Int_def conj_commute)
  finally show ?thesis using sum_list_filter_split [of f ms "\<lambda>i. i \<in> set ks"] by simp
qed

text \<open>What the two loops of a collection see are the rebates of all modified objects.\<close>

lemma collected_rebates:
  assumes ok: "store_ok ts" and "same_inputs ts ts'" and "modified ts' = modified ts"
    and "map fst (written ts') = map fst (written ts)"
  shows "sum_list (map (\<lambda>k. if k \<in> set (modified ts) then original_rebate lib ts k else 0) (map fst (written ts))) +
    sum_list (map (original_rebate lib ts') (filter (\<lambda>i. i \<notin> fst ` set (written ts')) (modified ts'))) =
    modified_rebates lib ts"
proof -
  have "distinct (map fst (written ts))" "distinct (modified ts)"
    using ok by (simp_all add: store_ok_def strict_sorted_iff)
  from rebates_split [OF this, of "original_rebate lib ts"] assms(3,4) original_rebate_same [OF assms(2)]
  show ?thesis by (simp add: modified_rebates_def flip: set_map)
qed

text \<open>The stages of a collection: the old rebates, the loop over the written objects, the deleted ones.\<close>

lemma storage_loop_keys:
  "storage_loop lib (zip w olds) st = Some (objs, st') \<Longrightarrow> length olds = length w \<Longrightarrow>
    list_all2 (\<lambda>(k, ob) (k', ob'). k' = k \<and> same_but_rebate ob ob') w objs"
proof (induction w arbitrary: olds st objs)
  case (Cons e w)
  obtain r rs where olds: "olds = r # rs" using Cons.prems(2) by (cases olds) auto
  obtain k ob where e: "e = (k, ob)" by (cases e)
  obtain c st1 rest where "storage_loop lib (zip w rs) st1 = Some (rest, st')"
    "objs = (k, ob\<lparr>obj_storage_rebate := c\<rparr>) # rest"
    using Cons.prems(1) by (auto simp: olds e option_simps Let_def)
  with Cons.IH [of rs st1 rest] Cons.prems(2) show ?case by (simp add: olds e same_but_rebate_def)
qed simp

lemma collect_stages:
  assumes run: "collect_storage_and_rebate lib ts st = Some (ts', st')" and ok: "store_ok ts"
  obtains st1 where
    "storage_loop lib (zip (written ts)
       (map (\<lambda>k. if k \<in> set (modified ts) then original_rebate lib ts k else 0) (map fst (written ts)))) st =
       Some (written ts', st1)"
    "fold_opt (rebate_step lib ts') (modified ts') st1 = Some st'"
    "store_ok ts'" "same_inputs ts ts'" "modified ts' = modified ts" "map fst (written ts') = map fst (written ts)"
    "list_all2 (\<lambda>(k, ob) (k', ob'). k' = k \<and> same_but_rebate ob ob') (written ts) (written ts')"
    "\<forall>i \<in> set (modified ts). original lib ts i \<noteq> None"
proof -
  obtain olds objs st1 where olds: "map_opt (\<lambda>e. old_storage_rebate lib ts (fst e)) (written ts) = Some olds"
    and loop: "storage_loop lib (zip (written ts) olds) st = Some (objs, st1)"
    and ts': "ts' = map_results (\<lambda>r. r\<lparr>written_objects := objs\<rparr>) ts"
    and rest: "collect_rebate lib ts' st1 = Some st'"
    using run by (auto simp: collect_storage_and_rebate_def option_simps Let_def)
  have len: "length olds = length (written ts)" using olds by (auto simp: map_opt_Some_iff)
  have old: "olds = map (\<lambda>k. if k \<in> set (modified ts) then original_rebate lib ts k else 0) (map fst (written ts))"
  proof -
    have "\<forall>e \<in> set (written ts). old_storage_rebate lib ts (fst e) \<noteq> None"
      "olds = map (the \<circ> (\<lambda>e. old_storage_rebate lib ts (fst e))) (written ts)"
      using olds unfolding map_opt_Some_iff by blast+
    moreover have "the (old_storage_rebate lib ts (fst e)) =
        (if fst e \<in> set (modified ts) then original_rebate lib ts (fst e) else 0)" if "e \<in> set (written ts)" for e
      using calculation(1) that old_storage_rebate_Some [of lib ts "fst e"] by fastforce
    ultimately show ?thesis by simp
  qed
  have w: "written ts' = objs" and m: "modified ts' = modified ts" by (simp_all add: ts')
  note all = storage_loop_keys [OF loop len]
  have keys: "map fst objs = map fst (written ts)"
    using all by (induction rule: list_all2_induct) auto
  have ids: "\<forall>(k, ob) \<in> set objs. object_id_of ob = Some k"
    using all ok unfolding store_ok_def
    by (induction rule: list_all2_induct) (auto simp: same_but_rebate)
  have orig: "\<forall>i \<in> set (modified ts). original lib ts i \<noteq> None"
  proof
    fix i assume i: "i \<in> set (modified ts)"
    show "original lib ts i \<noteq> None"
    proof (cases "i \<in> fst ` set (written ts)")
      case True
      then have "old_storage_rebate lib ts i \<noteq> None" using olds by (auto simp: map_opt_Some_iff)
      with i show ?thesis by (auto simp: old_storage_rebate_def get_object_modified_at_original option_simps)
    next
      case False
      then have "i \<notin> fst ` set (written ts')" using keys w by (metis set_map)
      with rebate_steps_original [OF rest [unfolded collect_rebate_def] subset_refl] i m
      have "original lib ts' i \<noteq> None" by simp
      moreover have "original lib ts' = original lib ts" by (rule original_same) (simp add: ts')
      ultimately show ?thesis by simp
    qed
  qed
  show ?thesis
  proof (rule that)
    show "store_ok ts'" using ok keys ids by (simp add: store_ok_def ts' map_results_def)
  qed (use loop rest all keys orig in \<open>simp_all add: old w m collect_rebate_def ts'\<close>)
qed

text \<open>
  Collecting from a status with nothing tracked: the objects keep their contents, the cost is what they
  now hold and the rebate what the modified objects held.
\<close>

lemma collect_storage_and_rebate:
  assumes run: "collect_storage_and_rebate lib ts st = Some (ts', st')"
    and ok: "store_ok ts" and st: "\<not> is_unmetered st" "per_object_storage st = []"
  shows "store_ok ts'" "same_inputs ts ts'" "modified ts' = modified ts"
    "list_all2 (\<lambda>(k, ob) (k', ob'). k' = k \<and> same_but_rebate ob ob') (written ts) (written ts')"
    "\<exists>ps. st' = tracked st ps \<and> total_cost ps = written_rebates ts' \<and> total_rebate ps = modified_rebates lib ts"
    "\<forall>i \<in> set (modified ts). original lib ts i \<noteq> None"
proof -
  let ?olds = "map (\<lambda>k. if k \<in> set (modified ts) then original_rebate lib ts k else 0) (map fst (written ts))"
  obtain st1 where loop: "storage_loop lib (zip (written ts) ?olds) st = Some (written ts', st1)"
    and rest: "fold_opt (rebate_step lib ts') (modified ts') st1 = Some st'"
    and c: "store_ok ts'" "same_inputs ts ts'" "modified ts' = modified ts" "map fst (written ts') = map fst (written ts)"
      "list_all2 (\<lambda>(k, ob) (k', ob'). k' = k \<and> same_but_rebate ob ob') (written ts) (written ts')"
      "\<forall>i \<in> set (modified ts). original lib ts i \<noteq> None"
    using collect_stages [OF run ok] by blast
  show "store_ok ts'" "same_inputs ts ts'" "modified ts' = modified ts"
    "list_all2 (\<lambda>(k, ob) (k', ob'). k' = k \<and> same_but_rebate ob ob') (written ts) (written ts')"
    "\<forall>i \<in> set (modified ts). original lib ts i \<noteq> None" by fact+
  obtain ps where ps: "st1 = tracked st ps" "total_cost ps = written_rebates ts'" "total_rebate ps = sum_list ?olds"
    using storage_loop [OF loop _ st(1)] unfolding written_rebates_def by auto
  have "\<not> is_unmetered st1" using st(1) ps(1) by simp
  from collect_rebate [OF rest this subset_refl] obtain qs where
    qs: "st' = tracked st1 qs" "total_cost qs = 0"
    "total_rebate qs = sum_list (map (original_rebate lib ts') (filter (\<lambda>i. i \<notin> fst ` set (written ts')) (modified ts')))"
    by blast
  have "total_rebate (ps @ qs) = modified_rebates lib ts"
    using ps(3) qs(3) collected_rebates [OF ok c(2-4)] by simp
  with ps qs show "\<exists>ps. st' = tracked st ps \<and> total_cost ps = written_rebates ts' \<and> total_rebate ps = modified_rebates lib ts"
    by (intro exI [of _ "ps @ qs"]) (simp add: tracked_append)
qed

text \<open>
  A system transaction is not metered: its objects lose their rebates, which are added up in the status.
\<close>

lemma storage_loop_unmetered:
  assumes "storage_loop lib (zip w olds) st = Some (objs, st')" and "length olds = length w" and "is_unmetered st"
  shows "st' = st\<lparr>unmetered_storage_rebate := unmetered_storage_rebate st + sum_list olds\<rparr> \<and>
    (\<forall>(k, ob) \<in> set objs. obj_storage_rebate ob = 0)"
  using assms
proof (induction w arbitrary: olds st objs)
  case (Cons e w)
  obtain r rs where olds: "olds = r # rs" using Cons.prems(2) by (cases olds) auto
  obtain k ob where e: "e = (k, ob)" by (cases e)
  obtain i c st1 rest where step: "track_storage_mutation i (object_size_for_gas_metering lib ob) r st = Some (c, st1)"
    "storage_loop lib (zip w rs) st1 = Some (rest, st')" "objs = (k, ob\<lparr>obj_storage_rebate := c\<rparr>) # rest"
    using Cons.prems(1) by (auto simp: olds e option_simps Let_def)
  have t: "c = 0" "st1 = st\<lparr>unmetered_storage_rebate := unmetered_storage_rebate st + r\<rparr>"
    using step(1) Cons.prems(3) by (auto simp: track_storage_mutation_def checked_add64_def option_simps split: if_splits)
  have "is_unmetered st1" using Cons.prems(3) by (simp add: t is_unmetered_def)
  with Cons.IH [OF step(2)] Cons.prems(2) step(3) t show ?case by (simp add: olds)
qed simp

lemma collect_rebate_unmetered:
  assumes "fold_opt (rebate_step lib ts) is st = Some st'" and "is_unmetered st" and "set is \<subseteq> set (modified ts)"
  shows "st' = st\<lparr>unmetered_storage_rebate := unmetered_storage_rebate st +
    sum_list (map (original_rebate lib ts) (filter (\<lambda>i. i \<notin> fst ` set (written ts)) is))\<rparr>"
  using assms
proof (induction "is" arbitrary: st)
  case (Cons i ids)
  obtain st1 where step: "rebate_step lib ts i st = Some st1" "fold_opt (rebate_step lib ts) ids st1 = Some st'"
    using Cons.prems(1) by (auto simp: option_simps)
  have sub: "set ids \<subseteq> set (modified ts)" "i \<in> set (modified ts)" using Cons.prems(3) by auto
  show ?case
  proof (cases "i \<in> fst ` set (written ts)")
    case True
    then have "st1 = st" using step(1) by (auto simp: rebate_step_def bt_get_None_iff split: if_splits)
    with Cons.IH [OF _ Cons.prems(2) sub(1)] step(2) True show ?thesis by simp
  next
    case False
    then obtain md c where md: "original lib ts i = Some md"
      "track_storage_mutation i 0 (md_storage_rebate md) st = Some (c, st1)"
      using step(1) sub(2)
      by (auto simp: rebate_step_def bt_get_None_iff get_object_modified_at_original option_simps split: if_splits)
    then have t: "st1 = st\<lparr>unmetered_storage_rebate := unmetered_storage_rebate st + original_rebate lib ts i\<rparr>"
      using Cons.prems(2)
      by (auto simp: track_storage_mutation_def checked_add64_def original_rebate_def option_simps split: if_splits)
    then have "is_unmetered st1" using Cons.prems(2) by (simp add: is_unmetered_def)
    from Cons.IH [OF step(2) this sub(1)] t False show ?thesis by simp
  qed
qed simp

lemma collect_unmetered:
  assumes run: "collect_storage_and_rebate lib ts st = Some (ts', st')" and ok: "store_ok ts" and st: "is_unmetered st"
  shows "store_ok ts'" "same_inputs ts ts'" "modified ts' = modified ts" "written_rebates ts' = 0"
    "st' = st\<lparr>unmetered_storage_rebate := unmetered_storage_rebate st + modified_rebates lib ts\<rparr>"
    "\<forall>i \<in> set (modified ts). original lib ts i \<noteq> None"
    "list_all2 (\<lambda>(k, ob) (k', ob'). k' = k \<and> same_but_rebate ob ob') (written ts) (written ts')"
proof -
  let ?olds = "map (\<lambda>k. if k \<in> set (modified ts) then original_rebate lib ts k else 0) (map fst (written ts))"
  obtain st1 where loop: "storage_loop lib (zip (written ts) ?olds) st = Some (written ts', st1)"
    and rest: "fold_opt (rebate_step lib ts') (modified ts') st1 = Some st'"
    and c: "store_ok ts'" "same_inputs ts ts'" "modified ts' = modified ts" "map fst (written ts') = map fst (written ts)"
      "list_all2 (\<lambda>(k, ob) (k', ob'). k' = k \<and> same_but_rebate ob ob') (written ts) (written ts')"
      "\<forall>i \<in> set (modified ts). original lib ts i \<noteq> None"
    using collect_stages [OF run ok] by blast
  show "store_ok ts'" "same_inputs ts ts'" "modified ts' = modified ts"
    "\<forall>i \<in> set (modified ts). original lib ts i \<noteq> None"
    "list_all2 (\<lambda>(k, ob) (k', ob'). k' = k \<and> same_but_rebate ob ob') (written ts) (written ts')" by fact+
  have l: "st1 = st\<lparr>unmetered_storage_rebate := unmetered_storage_rebate st + sum_list ?olds\<rparr>"
    "\<forall>(k, ob) \<in> set (written ts'). obj_storage_rebate ob = 0"
    using storage_loop_unmetered [OF loop _ st] by simp_all
  from l(2) show "written_rebates ts' = 0" unfolding written_rebates_def by (auto simp: sum_list_eq_0_iff)
  have "is_unmetered st1" using st by (simp add: l(1) is_unmetered_def)
  from collect_rebate_unmetered [OF rest this subset_refl] collected_rebates [OF ok c(2-4)]
  show "st' = st\<lparr>unmetered_storage_rebate := unmetered_storage_rebate st + modified_rebates lib ts\<rparr>"
    by (simp add: l(1) add.assoc)
qed

section \<open>The conservation check\<close>

lemma fold_add64_case:
  "a < 2 ^ 64 \<Longrightarrow> fold (\<lambda>x total. case f x of Some v \<Rightarrow> add64 total (g v) | None \<Rightarrow> total) xs a =
    (a + sum_list (map (\<lambda>x. case f x of Some v \<Rightarrow> g v | None \<Rightarrow> 0) xs)) mod 2 ^ 64"
proof (induction xs arbitrary: a)
  case (Cons x xs)
  show ?case
  proof (cases "f x")
    case None
    with Cons show ?thesis by simp
  next
    case (Some v)
    have "add64 a (g v) < 2 ^ 64" by (rule add64_less)
    from Cons.IH [OF this] Some show ?thesis
      by (simp add: add64_def mod_simps add.assoc)
  qed
qed simp

lemma sum_new_objects:
  "\<forall>(k, ob) \<in> set w. h k = obj_storage_rebate ob \<Longrightarrow>
    sum_list (map (\<lambda>(_, _, output). case output of Some ob \<Rightarrow> obj_storage_rebate ob | None \<Rightarrow> 0)
      (List.map_filter (\<lambda>(i, ob). if i \<in> M then None else Some (i, None :: dyn_metadata option, Some ob)) w)) =
    sum_list (map h (filter (\<lambda>i. i \<notin> M) (map fst w)))"
  by (induction w) (auto simp: List.map_filter_simps)

lemma modified_totals:
  assumes "get_modified_objects lib ts = Some changes" and ok: "store_ok ts"
  shows "sum_list (map (\<lambda>(_, input, _). case input of Some md \<Rightarrow> md_storage_rebate md | None \<Rightarrow> 0) changes) =
      modified_rebates lib ts"
    and "sum_list (map (\<lambda>(_, _, output). case output of Some ob \<Rightarrow> obj_storage_rebate ob | None \<Rightarrow> 0) changes) =
      written_rebates ts"
proof -
  let ?f = "\<lambda>i. do { metadata \<leftarrow> get_object_modified_at lib ts i; Some (i, metadata, bt_get (written ts) i) }"
  let ?new = "List.map_filter (\<lambda>(i, ob). if i \<in> set (modified ts) then None else Some (i, None :: dyn_metadata option, Some ob)) (written ts)"
  obtain changed where changed: "map_opt ?f (modified ts) = Some changed" "changes = changed @ ?new"
    using assms(1) by (auto simp: get_modified_objects_def option_simps)
  have def: "\<forall>i \<in> set (modified ts). original lib ts i \<noteq> None"
    and eq: "changed = map (\<lambda>i. (i, Some (the (original lib ts i)), bt_get (written ts) i)) (modified ts)"
  proof -
    have "\<forall>i \<in> set (modified ts). ?f i \<noteq> None" and c: "changed = map (the \<circ> ?f) (modified ts)"
      using changed(1) unfolding map_opt_Some_iff by blast+
    then show def: "\<forall>i \<in> set (modified ts). original lib ts i \<noteq> None"
      by (auto simp: get_object_modified_at_original option_simps)
    have "(the \<circ> ?f) i = (i, Some (the (original lib ts i)), bt_get (written ts) i)" if "i \<in> set (modified ts)" for i
      using def that by (auto simp: get_object_modified_at_original)
    then show "changed = map (\<lambda>i. (i, Some (the (original lib ts i)), bt_get (written ts) i)) (modified ts)"
      unfolding c by simp
  qed
  have new_in: "sum_list (map (\<lambda>(_, input, _). case input of Some md \<Rightarrow> md_storage_rebate md | None \<Rightarrow> 0) ?new) = 0"
    by (auto simp: List.map_filter_def)
  have "sum_list (map (\<lambda>(_, input, _). case input of Some md \<Rightarrow> md_storage_rebate md | None \<Rightarrow> 0) changed) =
      modified_rebates lib ts"
    using def unfolding eq modified_rebates_def
    by (fastforce simp: original_rebate_def comp_def intro!: arg_cong [where f = sum_list])
  with new_in changed(2) show "sum_list (map (\<lambda>(_, input, _). case input of Some md \<Rightarrow> md_storage_rebate md | None \<Rightarrow> 0) changes) =
      modified_rebates lib ts" by simp
  let ?h = "\<lambda>i. obj_storage_rebate (the (bt_get (written ts) i))"
  have srt: "keys_sorted (written ts)" and dist: "distinct (modified ts)" "distinct (map fst (written ts))"
    using ok by (simp_all add: store_ok_def strict_sorted_iff)
  have out: "sum_list (map (\<lambda>(_, _, output). case output of Some ob \<Rightarrow> obj_storage_rebate ob | None \<Rightarrow> 0) changed) =
      sum_list (map (\<lambda>k. if k \<in> set (map fst (written ts)) then ?h k else 0) (modified ts))"
    unfolding eq by (rule arg_cong [where f = sum_list]) (auto simp: in_keys_iff split: option.splits)
  have get: "bt_get (written ts) k = Some ob" if "(k, ob) \<in> set (written ts)" for k ob
    using that srt by (simp add: bt_get_in_set)
  have "sum_list (map (\<lambda>(_, _, output). case output of Some ob \<Rightarrow> obj_storage_rebate ob | None \<Rightarrow> 0) ?new) =
      sum_list (map ?h (filter (\<lambda>i. i \<notin> set (modified ts)) (map fst (written ts))))"
    by (rule sum_new_objects) (auto simp: get)
  moreover have "written_rebates ts = sum_list (map ?h (map fst (written ts)))"
    unfolding written_rebates_def by (rule arg_cong [where f = sum_list]) (auto simp: get)
  ultimately show "sum_list (map (\<lambda>(_, _, output). case output of Some ob \<Rightarrow> obj_storage_rebate ob | None \<Rightarrow> 0) changes) =
      written_rebates ts"
    using rebates_split [OF dist, of ?h] out changed(2) by simp
qed

lemma get_modified_objects_total:
  "\<forall>i \<in> set (modified ts). original lib ts i \<noteq> None \<Longrightarrow> \<exists>changes. get_modified_objects lib ts = Some changes"
  by (auto simp: get_modified_objects_def map_opt_Some_iff get_object_modified_at_original option_simps)

section \<open>Versions\<close>

lemma fold_max: "(x :: nat) \<in> set xs \<Longrightarrow> x \<le> fold max xs a" "a \<le> fold max xs (a :: nat)"
proof (induction xs arbitrary: a)
  case (Cons y xs)
  {
    case 1
    with Cons(1) [of "max y a"] Cons(2) [of "max y a"] show ?case by (auto intro: le_trans)
  next
    case 2
    with Cons(2) [of "max y a"] show ?case by simp
  }
qed simp_all

lemma lamport_increment:
  assumes "lamport_increment vs = Some t" and "\<forall>v \<in> set vs. v < 2 ^ 64"
  shows "\<forall>v \<in> set vs. v < t" "t < 2 ^ 64"
proof -
  have le: "fold max vs 0 < 2 ^ 64" using assms(2) by (induction vs rule: rev_induct) auto
  have t: "fold max vs 0 \<noteq> u64_max" "t = add64 (fold max vs 0) 1"
    using assms(1) by (auto simp: lamport_increment_def Let_def option_simps)
  then have "fold max vs 0 + 1 < 2 ^ 64" using le by (simp add: u64_max_def)
  with t(2) have "t = fold max vs 0 + 1" "t < 2 ^ 64" by (simp_all add: add64_def)
  then show "t < 2 ^ 64" "\<forall>v \<in> set vs. v < t" using fold_max(1) [of _ vs 0] by (auto simp: less_Suc_eq_le)
qed

text \<open>What the update of the versions does to each written object.\<close>

lemma update_written:
  assumes "update_written r v tx (k, ob) = Some (k', ob')"
  shows "k' = k" "obj_previous_transaction ob' = tx" "obj_storage_rebate ob' = obj_storage_rebate ob"
    "obj_data ob = Move m \<Longrightarrow> obj_data ob' = Move (m\<lparr>mo_version := v\<rparr>)"
    "obj_owner ob' = (case obj_owner ob of
       Shared iv \<Rightarrow> Shared (if k \<in> set (created_object_ids r) then v else iv) | own \<Rightarrow> own)"
  using assms unfolding update_written_def by (auto elim!: bind_SomeE split: owner.splits object_data.splits if_splits)

lemma update_object_version_and_prev_tx:
  assumes "update_object_version_and_prev_tx ts = Some ts'" and "(k, ob') \<in> set (written ts')"
  obtains ob where "(k, ob) \<in> set (written ts)"
    "update_written (execution_results ts) (lamport_timestamp ts) (ts_tx_digest ts) (k, ob) = Some (k, ob')"
proof -
  obtain w where w: "map_opt (update_written (execution_results ts) (lamport_timestamp ts) (ts_tx_digest ts)) (written ts) = Some w"
    and ts': "written ts' = w"
    using assms(1) unfolding update_object_version_and_prev_tx_def update_version_and_previous_tx_def
    by (auto elim!: bind_SomeE)
  have w1: "\<forall>e \<in> set (written ts). update_written (execution_results ts) (lamport_timestamp ts) (ts_tx_digest ts) e \<noteq> None"
    "w = map (the \<circ> update_written (execution_results ts) (lamport_timestamp ts) (ts_tx_digest ts)) (written ts)"
    using w unfolding map_opt_Some_iff by blast+
  then obtain e where e: "e \<in> set (written ts)"
    "update_written (execution_results ts) (lamport_timestamp ts) (ts_tx_digest ts) e = Some (k, ob')"
    using assms(2) ts' by fastforce
  moreover obtain j ob where "e = (j, ob)" by (cases e)
  moreover with e update_written(1) have "j = k" by metis
  ultimately show ?thesis using that by blast
qed

lemma update_written_version:
  assumes "update_written r v tx (k, ob) = Some (k, ob')" and "obj_data ob' = Move m"
  shows "mo_version m = v"
proof (cases "obj_data ob")
  case (Move m0)
  from update_written(4) [OF assms(1) this] assms(2) show ?thesis by auto
next
  case (Package p)
  with assms show ?thesis
    unfolding update_written_def by (auto elim!: bind_SomeE split: owner.splits if_splits)
qed

lemma lamport_timestamp_new:
  assumes "lamport_timestamp_of inputs receiving = Some t"
    and "\<forall>(_, r) \<in> set inputs. \<forall>v. input_version r = Some v \<longrightarrow> v < 2 ^ 64"
    and "\<forall>(_, v, _) \<in> set receiving. v < 2 ^ 64"
  shows "(\<forall>(_, r) \<in> set inputs. \<forall>v. input_version r = Some v \<longrightarrow> v < t) \<and> (\<forall>(_, v, _) \<in> set receiving. v < t)"
proof -
  let ?vs = "List.map_filter (\<lambda>(_, r). input_version r) inputs @ map (\<lambda>(_, v, _). v) receiving"
  have inp: "(\<forall>v \<in> set (List.map_filter (\<lambda>(_, r). input_version r) xs). v < b) \<longleftrightarrow>
      (\<forall>(_, r) \<in> set xs. \<forall>v. input_version r = Some v \<longrightarrow> v < b)" for b and xs :: "input_object list"
    by (induction xs) (auto simp: List.map_filter_simps split: option.splits)
  have rec: "(\<forall>v \<in> set (map (\<lambda>(_, v, _). v) xs). v < b) \<longleftrightarrow> (\<forall>(_, v, _) \<in> set xs. v < b)"
    for b and xs :: "object_ref list"
    by (induction xs) auto
  have bound: "(\<forall>v \<in> set ?vs. v < b) \<longleftrightarrow>
      (\<forall>(_, r) \<in> set inputs. \<forall>v. input_version r = Some v \<longrightarrow> v < b) \<and> (\<forall>(_, v, _) \<in> set receiving. v < b)" for b
    using inp rec by (simp only: set_append ball_Un)
  from lamport_increment(1) [OF assms(1) [unfolded lamport_timestamp_of_def]] assms(2,3)
  show ?thesis unfolding bound by blast
qed

end
