(* ===== verification/GasConservation.thy ===== *)
theory GasConservation
  imports GasCharger StoreAccounting
begin

text \<open>
  What \<^verbatim>\<open>charge_gas\<close> leaves behind. On every path the storage charges of the gas status account for the
  rebates in the store, so the conservation check of the store holds of the result; the charge is
  within the budget; and a transaction that fails leaves nothing but its inputs and a gas coin.
\<close>

section \<open>Accounts of a store\<close>

text \<open>
  Either the written objects were priced (their rebates are the storage cost), or, when the transaction is
  out of gas, they kept the rebates they had.
\<close>

definition accounted :: "object_lib \<Rightarrow> temporary_store \<Rightarrow> sui_gas_status \<Rightarrow> bool" where
  "accounted lib ts st \<longleftrightarrow>
     (\<forall>i \<in> set (modified ts). original lib ts i \<noteq> None) \<and>
     (total_cost (per_object_storage st) = written_rebates ts \<and>
        total_rebate (per_object_storage st) = modified_rebates lib ts \<or>
      total_cost (per_object_storage st) = 0 \<and>
        modified_rebates lib ts = written_rebates ts + total_rebate (per_object_storage st))"

lemma fold_inputs:
  "fold (\<lambda>(_, input, _) total. case input of Some md \<Rightarrow> add64 total (md_storage_rebate md) | None \<Rightarrow> total) changes 0 =
     sum_list (map (\<lambda>(_, input, _). case input of Some md \<Rightarrow> md_storage_rebate md | None \<Rightarrow> 0) changes) mod 2 ^ 64"
  using fold_add64_case [where a = 0 and f = "\<lambda>x. fst (snd x)" and g = md_storage_rebate and xs = changes] by (simp add: case_prod_beta')

lemma fold_outputs:
  "fold (\<lambda>(_, _, output) total. case output of Some ob \<Rightarrow> add64 total (obj_storage_rebate ob) | None \<Rightarrow> total) changes 0 =
     sum_list (map (\<lambda>(_, _, output). case output of Some ob \<Rightarrow> obj_storage_rebate ob | None \<Rightarrow> 0) changes) mod 2 ^ 64"
  using fold_add64_case [where a = 0 and f = "\<lambda>x. snd (snd x)" and g = obj_storage_rebate and xs = changes] by (simp add: case_prod_beta')

lemma accounted_check:
  assumes "store_ok ts" and acc: "accounted lib ts st" and sum: "summary st = Some s"
  shows "check_sui_conserved lib ts b s = Some (Inr ())"
proof -
  obtain changes where ch: "get_modified_objects lib ts = Some changes"
    using acc get_modified_objects_total unfolding accounted_def by blast
  note totals = modified_totals [OF ch assms(1)]
  let ?I = "modified_rebates lib ts" and ?O = "written_rebates ts"
  let ?P = "per_object_storage st"
  have s: "gcs_storage_cost s = total_cost ?P mod 2 ^ 64"
    "gcs_storage_rebate s + gcs_non_refundable_storage_fee s = total_rebate ?P mod 2 ^ 64"
    using summary_Some [OF sum] by (simp_all add: storage_cost_total storage_rebate_total)
  have rf: "add64 (gcs_storage_rebate s) (gcs_non_refundable_storage_fee s) = total_rebate ?P mod 2 ^ 64"
    unfolding add64_def s(2) by simp
  have orf: "add64 (add64 (?O mod 2 ^ 64) (gcs_storage_rebate s)) (gcs_non_refundable_storage_fee s) =
      (?O + total_rebate ?P) mod 2 ^ 64"
    unfolding add64_def using s(2) by (metis (no_types, opaque_lifting) add.assoc mod_add_left_eq mod_add_right_eq)
  show ?thesis
  proof (cases "total_cost ?P = ?O \<and> total_rebate ?P = ?I")
    case True
    then have "?I mod 2 ^ 64 = (?O + total_rebate ?P) mod 2 ^ 64" if "gcs_storage_cost s = 0"
      using that s(1) by (metis add_0 mod_add_left_eq)
    with True ch show ?thesis
      unfolding check_sui_conserved_def fold_inputs fold_outputs Let_def
      by (simp only: bind.simps totals orf rf s(1)) simp
  next
    case False
    with acc have F: "total_cost ?P = 0" "?I = ?O + total_rebate ?P" unfolding accounted_def by blast+
    with ch show ?thesis
      unfolding check_sui_conserved_def fold_inputs fold_outputs Let_def
      by (simp only: bind.simps totals orf rf s(1)) simp
  qed
qed

section \<open>Resetting\<close>

text \<open>The charger's coin is the first of its coins, as smashing sets it.\<close>

definition charger_ok :: "gas_charger \<Rightarrow> object_id \<Rightarrow> bool" where
  "charger_ok gc gid \<longleftrightarrow>
     smashed_gas_coin gc = Some gid \<and> gas_coins gc \<noteq> [] \<and> fst (hd (gas_coins gc)) = gid \<and>
     \<not> (length (gas_coins gc) = 1 \<and> gid = 0)"

definition input_coin_values :: "temporary_store \<Rightarrow> gas_charger \<Rightarrow> nat list" where
  "input_coin_values ts gc = map (\<lambda>r. coin_value (the (bt_get (input_objects ts) (fst r)))) (gas_coins gc)"

definition coins_ok :: "temporary_store \<Rightarrow> gas_charger \<Rightarrow> bool" where
  "coins_ok ts gc \<longleftrightarrow>
     (\<forall>r \<in> set (gas_coins gc). case bt_get (input_objects ts) (fst r) of Some ob \<Rightarrow> coin_ok ob | None \<Rightarrow> False) \<and>
     sum_list (input_coin_values ts gc) < 2 ^ 64"

text \<open>
  Nothing but smashing has happened: no object is created and no event emitted, the deleted objects are the coins that
  were smashed into the first, and every other modified object is still written.
\<close>

definition undone :: "gas_charger \<Rightarrow> temporary_store \<Rightarrow> bool" where
  "undone gc ts \<longleftrightarrow>
     created_ids ts = [] \<and> user_events (execution_results ts) = [] \<and>
     set (deleted_ids ts) = fst ` set (tl (gas_coins gc)) \<and>
     set (modified ts) \<subseteq> fst ` set (written ts) \<union> fst ` set (tl (gas_coins gc)) \<and>
     (\<forall>k \<in> fst ` set (tl (gas_coins gc)). smashed_gas_coin gc \<noteq> Some k \<longrightarrow> k \<in> set (modified ts) \<and> k \<notin> fst ` set (written ts))"

lemma undone_same:
  assumes "undone gc ts" and "same_outputs ts ts'" and "modified ts' = modified ts"
    and "fst ` set (written ts') = fst ` set (written ts)"
    and "gas_coins gc' = gas_coins gc" and "smashed_gas_coin gc' = smashed_gas_coin gc"
  shows "undone gc' ts'"
  using assms by (simp add: undone_def same_outputs_def)

lemma ensure_undone:
  assumes u: "undone gc ts" and ok: "store_ok ts" and run: "ensure_active_inputs_mutated ts = Some ts'"
  shows "undone gc ts'"
proof -
  note e = ensure_active_inputs_mutated [OF run ok]
  have "created_ids ts' = created_ids ts" "deleted_ids ts' = deleted_ids ts"
    "user_events (execution_results ts') = user_events (execution_results ts)"
    using ensure_outputs [OF run] by (simp_all add: same_outputs_def)
  then show ?thesis using u unfolding undone_def e(3,4) by auto
qed

text \<open>A store that holds only inputs and the smashed coin, with the rebates of the inputs.\<close>

definition reverted :: "gas_charger \<Rightarrow> temporary_store \<Rightarrow> bool" where
  "reverted gc ts \<longleftrightarrow> undone gc ts \<and>
     (\<forall>k ob. bt_get (written ts) k = Some ob \<longrightarrow>
       (\<exists>inp. bt_get (input_objects ts) k = Some inp \<and> obj_owner ob = obj_owner inp \<and>
          (if smashed_gas_coin gc = Some k
           then coin_ok ob \<and> coin_value ob = sum_list (input_coin_values ts gc)
           else obj_data ob = obj_data inp)))"

definition unpriced :: "temporary_store \<Rightarrow> bool" where
  "unpriced ts \<longleftrightarrow>
     (\<forall>k ob. bt_get (written ts) k = Some ob \<longrightarrow>
       k \<in> set (modified ts) \<and> k \<in> fst ` set (mutable_input_refs ts) \<and>
       (\<exists>inp. bt_get (input_objects ts) k = Some inp \<and> obj_storage_rebate ob = obj_storage_rebate inp))"

lemma delete_coins:
  assumes "store_ok ts"
  shows "store_ok (fold (\<lambda>r. delete_input_object (fst r)) rs ts) \<and>
    same_inputs ts (fold (\<lambda>r. delete_input_object (fst r)) rs ts) \<and>
    set (modified (fold (\<lambda>r. delete_input_object (fst r)) rs ts)) = set (modified ts) \<union> fst ` set rs \<and>
    written (fold (\<lambda>r. delete_input_object (fst r)) rs ts) = written ts"
  using assms
proof (induction rs arbitrary: ts)
  case (Cons r rs)
  note d = delete_input_object [OF Cons.prems, of "fst r"]
  note IH = Cons.IH [OF d(1)]
  show ?case
    using IH d(3,4) same_inputs_trans [OF d(2) IH [THEN conjunct2, THEN conjunct1]] by simp
qed simp

lemma delete_coins_outputs:
  "created_ids (fold (\<lambda>r. delete_input_object (fst r)) rs ts) = created_ids ts \<and>
    user_events (execution_results (fold (\<lambda>r. delete_input_object (fst r)) rs ts)) = user_events (execution_results ts) \<and>
    set (deleted_ids (fold (\<lambda>r. delete_input_object (fst r)) rs ts)) = set (deleted_ids ts) \<union> fst ` set rs"
  by (induction rs arbitrary: ts) (auto simp: delete_input_object_def map_results_def)

lemma gas_coin_values:
  assumes "coins_ok ts gc"
  shows "map_opt (gas_coin_value ts) (gas_coins gc) = Some (input_coin_values ts gc)"
proof -
  have "gas_coin_value ts r = Some (coin_value (the (bt_get (input_objects ts) (fst r))))"
    if r: "r \<in> set (gas_coins gc)" for r
  proof -
    obtain ob where ob: "bt_get (input_objects ts) (fst r) = Some ob" "coin_ok ob"
      using assms r by (auto simp: coins_ok_def split: option.splits)
    obtain m where "obj_data ob = Move m" "is_gas_coin (mo_type m)" "get_coin_value_unsafe m = Some (coin_value ob)"
      using ob(2) by (rule coin_okE)
    with ob(1) show ?thesis by (simp add: gas_coin_value_def)
  qed
  then show ?thesis by (auto simp: map_opt_Some_iff input_coin_values_def)
qed

text \<open>Smashing into an empty store.\<close>

lemma smash_gas_fresh:
  assumes ok: "store_ok ts" and w: "written ts = []" "modified ts = []"
    and gc: "charger_ok gc gid" and coins: "coins_ok ts gc" and mut: "gid \<in> fst ` set (mutable_input_refs ts)"
    and run: "smash_gas gc ts = Some (gc', ts')"
  shows "gc' = gc" "store_ok ts'" "same_inputs ts ts'"
    "created_ids ts = [] \<Longrightarrow> deleted_ids ts = [] \<Longrightarrow> user_events (execution_results ts) = [] \<Longrightarrow> reverted gc ts'" "unpriced ts'"
    "gid \<in> set (modified ts') \<longleftrightarrow> gid \<in> fst ` set (written ts')"
    "gid \<in> fst ` set (written ts') \<or> length (gas_coins gc) = 1"
proof -
  have gc_eq: "gc\<lparr>smashed_gas_coin := Some gid\<rparr> = gc" using gc by (cases gc) (auto simp: charger_ok_def)
  have g: "gas_coins gc \<noteq> []" "fst (hd (gas_coins gc)) = gid" "\<not> (length (gas_coins gc) = 1 \<and> gid = 0)"
    "smashed_gas_coin gc = Some gid" using gc by (auto simp: charger_ok_def)
  let ?empty = "created_ids ts = [] \<and> deleted_ids ts = [] \<and> user_events (execution_results ts) = []"
  have "gc' = gc \<and> store_ok ts' \<and> same_inputs ts ts' \<and> (?empty \<longrightarrow> reverted gc ts') \<and> unpriced ts' \<and>
      (gid \<in> set (modified ts') \<longleftrightarrow> gid \<in> fst ` set (written ts')) \<and>
      (gid \<in> fst ` set (written ts') \<or> length (gas_coins gc) = 1)"
  proof (cases "length (gas_coins gc) = 1")
    case True
    then have "gc' = gc" "ts' = ts" using run g by (auto simp: smash_gas_def Let_def gc_eq)
    moreover have "tl (gas_coins gc) = []" using True by (cases "gas_coins gc") auto
    ultimately show ?thesis using ok w True by (simp add: reverted_def unpriced_def undone_def bt_get_def)
  next
    case False
    let ?bal = "sum_list (input_coin_values ts gc)"
    have bal: "sum64 (input_coin_values ts gc) = ?bal" "?bal < 2 ^ 64"
      using coins by (simp_all add: coins_ok_def sum64_fits)
    obtain prim where prim: "bt_get (input_objects ts) gid = Some prim" "coin_ok prim"
      using coins g(1,2) list.set_sel(1) [of "gas_coins gc"]
      by (fastforce simp: coins_ok_def split: option.splits)
    obtain ob' where ob': "with_coin_value ?bal prim = Some ob'" "coin_ok ob'" "coin_value ob' = ?bal"
      "object_id_of ob' = object_id_of prim" "obj_storage_rebate ob' = obj_storage_rebate prim"
      "obj_owner ob' = obj_owner prim"
      using with_coin_value [OF prim(2) bal(2)] by metis
    let ?t = "fold (\<lambda>r. delete_input_object (fst r)) (tl (gas_coins gc)) ts"
    note del = delete_coins [OF ok, of "tl (gas_coins gc)"]
    have mutate: "mutate_input_object ob' ?t = Some ts'" and "gc' = gc"
      using run g(1-3) False ob'(1) prim(1) gas_coin_values [OF coins]
      by (auto simp: smash_gas_def Let_def gc_eq bal(1) with_coin_value_def option_simps)
    have id: "object_id_of ob' = Some gid" using ob'(4) store_ok_input [OF ok prim(1)] by simp
    have "store_ok ?t" using del by blast
    from mutate_input_object [OF mutate this] id have
      t: "store_ok ts'" "same_inputs ?t ts'" "set (modified ts') = insert gid (set (modified ?t))"
      "bt_get (written ts') = (bt_get (written ?t))(gid \<mapsto> ob')"
      by (metis option.inject)+
    have inp: "same_inputs ts ts'" using del t(2) same_inputs_trans by blast
    have wr: "bt_get (written ts') k = Some ob \<longleftrightarrow> k = gid \<and> ob = ob'" for k ob
      using t(4) del w(1) by (auto simp: bt_get_def)
    have "k \<in> fst ` set (written ts') \<longleftrightarrow> k = gid" for k unfolding in_keys_iff using wr by auto
    then have keys: "fst ` set (written ts') = {gid}" by blast
    have "undone gc ts'" if ?empty
      using that delete_coins_outputs [of "tl (gas_coins gc)" ts] mutate_input_object_outputs [OF mutate] del t(3) w(2) g(4)
      by (auto simp: undone_def same_outputs_def keys)
    then have rev: "?empty \<longrightarrow> reverted gc ts'"
      using wr inp prim(1) ob' g(4) by (auto simp: reverted_def same_inputs_def input_coin_values_def)
    have "unpriced ts'"
      using wr inp prim(1) ob'(5) mut t(3) by (auto simp: unpriced_def same_inputs_def)
    moreover have "gid \<in> fst ` set (written ts')" "gid \<in> set (modified ts')" using wr t(3) by (auto simp: in_keys_iff)
    ultimately show ?thesis using rev t(1) inp \<open>gc' = gc\<close> by blast
  qed
  then show "gc' = gc" "store_ok ts'" "same_inputs ts ts'"
    "created_ids ts = [] \<Longrightarrow> deleted_ids ts = [] \<Longrightarrow> user_events (execution_results ts) = [] \<Longrightarrow> reverted gc ts'" "unpriced ts'"
    "gid \<in> set (modified ts') \<longleftrightarrow> gid \<in> fst ` set (written ts')"
    "gid \<in> fst ` set (written ts') \<or> length (gas_coins gc) = 1" by blast+
qed

text \<open>What the charging paths rely on of the store and the charger; it is kept by all of them.\<close>

definition ready_to_charge :: "object_id \<Rightarrow> gas_charger \<Rightarrow> temporary_store \<Rightarrow> bool" where
  "ready_to_charge gid gc ts \<longleftrightarrow>
     store_ok ts \<and> charger_ok gc gid \<and> coins_ok ts gc \<and> gid \<in> fst ` set (mutable_input_refs ts) \<and>
     \<not> is_unmetered (gc_gas_status gc) \<and> computation_cost (gc_gas_status gc) \<le> gas_budget (gc_gas_status gc) \<and>
     (gid \<in> set (modified ts) \<longleftrightarrow> gid \<in> fst ` set (written ts))"

lemma coins_ok_same:
  assumes "same_inputs ts ts'" and "gas_coins gc' = gas_coins gc"
  shows "input_coin_values ts' gc' = input_coin_values ts gc" "coins_ok ts' gc' = coins_ok ts gc"
  using assms by (simp_all add: same_inputs_def coins_ok_def input_coin_values_def)

lemma same_inputs_mutable: "same_inputs ts ts' \<Longrightarrow> mutable_input_refs ts' = mutable_input_refs ts"
  by (simp add: same_inputs_def)

lemma same_inputs_inputs: "same_inputs ts ts' \<Longrightarrow> input_objects ts' = input_objects ts"
  by (simp add: same_inputs_def)

lemma charger_reset:
  assumes r: "ready_to_charge gid gc ts" and run: "charger_reset gc ts = Some (gc', ts')"
  shows "gc' = gc\<lparr>gc_gas_status := reset_storage_cost_and_rebate (gc_gas_status gc)\<rparr>"
    "ready_to_charge gid gc' ts'" "same_inputs ts ts'" "reverted gc' ts'" "unpriced ts'"
    "gid \<in> fst ` set (written ts') \<or> length (gas_coins gc) = 1"
proof -
  let ?gc = "gc\<lparr>gc_gas_status := reset_storage_cost_and_rebate (gc_gas_status gc)\<rparr>"
  let ?ts = "drop_writes ts"
  have ok: "store_ok ts" and ch: "charger_ok gc gid" and co: "coins_ok ts gc"
    and mut: "gid \<in> fst ` set (mutable_input_refs ts)"
    and st: "\<not> is_unmetered (gc_gas_status gc)" "computation_cost (gc_gas_status gc) \<le> gas_budget (gc_gas_status gc)"
    using r by (simp_all add: ready_to_charge_def)
  note d = drop_writes [OF ok]
  have ch': "charger_ok ?gc gid" using ch by (simp add: charger_ok_def)
  have co': "coins_ok ?ts ?gc" using coins_ok_same(2) [OF d(2), of ?gc gc] co by simp
  have mut': "gid \<in> fst ` set (mutable_input_refs ?ts)" using mut same_inputs_mutable [OF d(2)] by simp
  have run': "smash_gas ?gc ?ts = Some (gc', ts')" using run by (simp add: charger_reset_def Let_def)
  note s = smash_gas_fresh [OF d(1) d(4) d(3) ch' co' mut' run']
  show gc': "gc' = ?gc" by (rule s(1))
  show same: "same_inputs ts ts'" by (rule same_inputs_trans [OF d(2) s(3)])
  show "reverted gc' ts'" "unpriced ts'" using s(4) [OF d(5-7)] s(5) gc' by simp_all
  show "gid \<in> fst ` set (written ts') \<or> length (gas_coins gc) = 1" using s(7) by simp
  have "coins_ok ts' ?gc" using coins_ok_same(2) [OF same, of ?gc gc] co by simp
  with gc' s(2,6) ch' mut st same_inputs_mutable [OF same] show "ready_to_charge gid gc' ts'"
    by (simp add: ready_to_charge_def reset_storage_cost_and_rebate_def is_unmetered_def)
qed

text \<open>Forcing the mutable inputs keeps the gas coin as it was.\<close>

lemma ensure_ready:
  assumes r: "ready_to_charge gid gc ts" and run: "ensure_active_inputs_mutated ts = Some ts'"
  shows "ready_to_charge gid gc ts'" "same_inputs ts ts'"
    "gid \<in> set (modified ts')" "gid \<in> fst ` set (written ts')" "read_object gid ts' = read_object gid ts"
    "fst ` set (mutable_input_refs ts') \<subseteq> set (modified ts')"
proof -
  have ok: "store_ok ts" and mut: "gid \<in> fst ` set (mutable_input_refs ts)"
    and gw: "gid \<in> set (modified ts) \<longleftrightarrow> gid \<in> fst ` set (written ts)"
    using r by (simp_all add: ready_to_charge_def)
  note e = ensure_active_inputs_mutated [OF run ok]
  show same: "same_inputs ts ts'" by (rule e(2))
  show gm: "gid \<in> set (modified ts')" using e(3) mut by simp
  show "fst ` set (mutable_input_refs ts') \<subseteq> set (modified ts')" using e(3) same_inputs_mutable [OF same] by simp
  show gw': "gid \<in> fst ` set (written ts')" using e(4) mut gw by blast
  show "ready_to_charge gid gc ts'"
    using r e(1) gw' gm coins_ok_same(2) [OF same, of gc gc] same_inputs_mutable [OF same]
    by (simp add: ready_to_charge_def)
  show "read_object gid ts' = read_object gid ts"
  proof (cases "gid \<in> set (modified ts)")
    case True
    with e(6) [OF this] same_inputs_inputs [OF same] show ?thesis by (simp add: read_object_def cong: option.case_cong)
  next
    case False
    then have "bt_get (written ts) gid = None" using gw by (simp add: in_keys_iff)
    moreover obtain ob where ob: "bt_get (written ts') gid = Some ob" using gw' by (auto simp: in_keys_iff)
    ultimately show ?thesis using e(5) [OF ob] by (simp add: read_object_def)
  qed
qed

lemma ensure_unpriced:
  assumes u: "unpriced ts" and ok: "store_ok ts" and run: "ensure_active_inputs_mutated ts = Some ts'"
  shows "unpriced ts'"
  unfolding unpriced_def
proof (intro allI impI)
  note e = ensure_active_inputs_mutated [OF run ok]
  fix k ob assume k: "bt_get (written ts') k = Some ob"
  have "k \<in> fst ` set (written ts')" using k by (simp add: in_keys_iff)
  then have km: "k \<in> fst ` set (mutable_input_refs ts)" using e(4) u by (auto simp: unpriced_def in_keys_iff)
  have "\<exists>inp. bt_get (input_objects ts) k = Some inp \<and> obj_storage_rebate ob = obj_storage_rebate inp"
    using e(5) [OF k] u unfolding unpriced_def by blast
  with km e(3) same_inputs_mutable [OF e(2)] same_inputs_inputs [OF e(2)]
  show "k \<in> set (modified ts') \<and> k \<in> fst ` set (mutable_input_refs ts') \<and>
     (\<exists>inp. bt_get (input_objects ts') k = Some inp \<and> obj_storage_rebate ob = obj_storage_rebate inp)" by simp
qed

lemma ensure_reverted:
  assumes rev: "reverted gc ts" and r: "ready_to_charge gid gc ts" and run: "ensure_active_inputs_mutated ts = Some ts'"
    and one: "gid \<in> fst ` set (written ts) \<or> length (gas_coins gc) = 1"
  shows "reverted gc ts'"
  unfolding reverted_def
proof (intro conjI allI impI)
  have ok: "store_ok ts" and gc: "charger_ok gc gid" and co: "coins_ok ts gc"
    using r by (simp_all add: ready_to_charge_def)
  show "undone gc ts'" using rev ensure_undone [OF _ ok run] by (simp add: reverted_def)
  note e = ensure_active_inputs_mutated [OF run ok]
  fix k ob assume k: "bt_get (written ts') k = Some ob"
  have vals: "input_coin_values ts' gc = input_coin_values ts gc" by (rule coins_ok_same(1) [OF e(2) refl])
  show "\<exists>inp. bt_get (input_objects ts') k = Some inp \<and> obj_owner ob = obj_owner inp \<and>
      (if smashed_gas_coin gc = Some k then coin_ok ob \<and> coin_value ob = sum_list (input_coin_values ts' gc)
       else obj_data ob = obj_data inp)"
  proof (cases "bt_get (written ts) k = Some ob")
    case True
    with rev show ?thesis unfolding reverted_def vals same_inputs_inputs [OF e(2)] by blast
  next
    case False
    with e(5) [OF k] have inp: "bt_get (input_objects ts) k = Some ob" by simp
    have "coin_ok ob \<and> coin_value ob = sum_list (input_coin_values ts gc)" if "smashed_gas_coin gc = Some k"
    proof -
      have kg: "k = gid" using that gc by (simp add: charger_ok_def)
      then have "length (gas_coins gc) = 1"
        using one e(6) [of gid] r False k by (auto simp: ready_to_charge_def in_keys_iff)
      then obtain c where c: "gas_coins gc = [c]" by (cases "gas_coins gc") auto
      with gc kg have "fst c = k" by (simp add: charger_ok_def)
      with c co inp show ?thesis by (simp add: coins_ok_def input_coin_values_def)
    qed
    with inp vals same_inputs_inputs [OF e(2)] show ?thesis by auto
  qed
qed

section \<open>Collecting\<close>

lemma list_all2_bt_get:
  "list_all2 (\<lambda>(k, ob) (k', ob'). k' = k \<and> R ob ob') w w' \<Longrightarrow> rel_option R (bt_get w k) (bt_get w' k)"
  by (induction rule: list_all2_induct) (auto simp: bt_get_def)

lemma reverted_priced:
  assumes "reverted gc ts" and "same_inputs ts ts'" and "\<And>k. rel_option same_but_rebate (bt_get (written ts) k) (bt_get (written ts') k)"
    and "gas_coins gc' = gas_coins gc" "smashed_gas_coin gc' = smashed_gas_coin gc"
    and "same_outputs ts ts'" and "modified ts' = modified ts"
  shows "reverted gc' ts'"
  unfolding reverted_def
proof (intro conjI allI impI)
  have "k \<in> fst ` set (written ts') \<longleftrightarrow> k \<in> fst ` set (written ts)" for k
    using assms(3) [of k] by (auto simp: in_keys_iff option_rel_Some1 option_rel_Some2)
  then have keys: "fst ` set (written ts') = fst ` set (written ts)" by blast
  show "undone gc' ts'"
    by (rule undone_same [OF _ assms(6,7) keys assms(4,5)]) (use assms(1) in \<open>simp add: reverted_def\<close>)
next
  fix k ob' assume "bt_get (written ts') k = Some ob'"
  with assms(3) [of k] obtain ob where ob: "bt_get (written ts) k = Some ob" "same_but_rebate ob ob'"
    by (auto simp: option_rel_Some2)
  with assms(1) obtain inp where inp: "bt_get (input_objects ts) k = Some inp" "obj_owner ob = obj_owner inp"
    "if smashed_gas_coin gc = Some k then coin_ok ob \<and> coin_value ob = sum_list (input_coin_values ts gc)
     else obj_data ob = obj_data inp"
    unfolding reverted_def by blast
  have "input_coin_values ts' gc' = input_coin_values ts gc" by (rule coins_ok_same(1) [OF assms(2,4)])
  with inp same_but_rebate [OF ob(2)] same_inputs_inputs [OF assms(2)] assms(5)
  show "\<exists>inp. bt_get (input_objects ts') k = Some inp \<and> obj_owner ob' = obj_owner inp \<and>
      (if smashed_gas_coin gc' = Some k then coin_ok ob' \<and> coin_value ob' = sum_list (input_coin_values ts' gc')
       else obj_data ob' = obj_data inp)"
    by auto
qed

lemma collect_ready:
  assumes r: "ready_to_charge gid gc ts" and none: "per_object_storage (gc_gas_status gc) = []"
    and run: "charger_collect lib gc ts = Some (gc', ts')"
  shows "ready_to_charge gid gc' ts'" "same_inputs ts ts'" "modified ts' = modified ts"
    "accounted lib ts' (gc_gas_status gc')"
    "\<exists>ps. gc' = gc\<lparr>gc_gas_status := tracked (gc_gas_status gc) ps\<rparr>"
    "\<And>k. rel_option same_but_rebate (bt_get (written ts) k) (bt_get (written ts') k)"
    "reverted gc ts \<Longrightarrow> reverted gc' ts'"
proof -
  let ?st = "gc_gas_status gc"
  obtain st' where run': "collect_storage_and_rebate lib ts ?st = Some (ts', st')"
    and gc': "gc' = gc\<lparr>gc_gas_status := st'\<rparr>"
    using run by (auto simp: charger_collect_def option_simps)
  have ok: "store_ok ts" and met: "\<not> is_unmetered ?st" using r by (simp_all add: ready_to_charge_def)
  note c = collect_storage_and_rebate [OF run' ok met none]
  obtain ps where ps: "st' = tracked ?st ps" "total_cost ps = written_rebates ts'"
    "total_rebate ps = modified_rebates lib ts" using c(5) by blast
  show same: "same_inputs ts ts'" and m: "modified ts' = modified ts" by (rule c(2) c(3))+
  show rel: "rel_option same_but_rebate (bt_get (written ts) k) (bt_get (written ts') k)" for k
    by (rule list_all2_bt_get [OF c(4)])
  have keys: "k \<in> fst ` set (written ts') \<longleftrightarrow> k \<in> fst ` set (written ts)" for k
    using rel [of k] by (auto simp: in_keys_iff option_rel_Some1 option_rel_Some2)
  have "modified_rebates lib ts' = modified_rebates lib ts"
    using original_rebate_same [OF same] m by (simp add: modified_rebates_def)
  then show "accounted lib ts' (gc_gas_status gc')"
    using c(6) original_same [OF same] m ps none by (simp add: accounted_def gc')
  show "\<exists>ps. gc' = gc\<lparr>gc_gas_status := tracked ?st ps\<rparr>" using gc' ps(1) by blast
  show "ready_to_charge gid gc' ts'"
    using r c(1) keys m coins_ok_same(2) [OF same, of gc' gc] same_inputs_mutable [OF same]
    by (simp add: ready_to_charge_def gc' ps(1) charger_ok_def)
  show "reverted gc' ts'" if "reverted gc ts" by (rule reverted_priced [OF that same rel]) (simp_all add: gc' m collect_outputs [OF run'])
qed

text \<open>Out of gas: only the rebates of the objects that are gone are collected.\<close>

lemma collect_rebate_ready:
  assumes r: "ready_to_charge gid gc ts" and u: "unpriced ts" and none: "per_object_storage (gc_gas_status gc) = []"
    and run: "charger_collect_rebate lib gc ts = Some gc'"
  shows "ready_to_charge gid gc' ts" "accounted lib ts (gc_gas_status gc')"
    "\<exists>ps. gc' = gc\<lparr>gc_gas_status := tracked (gc_gas_status gc) ps\<rparr> \<and> total_cost ps = 0"
proof -
  let ?st = "gc_gas_status gc"
  obtain st' where run': "fold_opt (rebate_step lib ts) (modified ts) ?st = Some st'"
    and gc': "gc' = gc\<lparr>gc_gas_status := st'\<rparr>"
    using run by (auto simp: charger_collect_rebate_def collect_rebate_def option_simps)
  have ok: "store_ok ts" and met: "\<not> is_unmetered ?st" using r by (simp_all add: ready_to_charge_def)
  obtain ps where ps: "st' = tracked ?st ps" "total_cost ps = 0" "total_rebate ps =
      sum_list (map (original_rebate lib ts) (filter (\<lambda>i. i \<notin> fst ` set (written ts)) (modified ts)))"
    using StoreAccounting.collect_rebate [OF run' met subset_refl] by blast
  show "\<exists>ps. gc' = gc\<lparr>gc_gas_status := tracked ?st ps\<rparr> \<and> total_cost ps = 0" using gc' ps by blast
  show "ready_to_charge gid gc' ts" using r coins_ok_same(2) [of ts ts gc' gc]
    by (simp add: ready_to_charge_def gc' ps(1) charger_ok_def)
  have input: "original lib ts k \<noteq> None \<and> original_rebate lib ts k = obj_storage_rebate ob \<and> k \<in> set (modified ts)"
    if "bt_get (written ts) k = Some ob" for k ob
  proof -
    from u that obtain inp where k: "k \<in> set (modified ts)" "k \<in> fst ` set (mutable_input_refs ts)"
      "bt_get (input_objects ts) k = Some inp" "obj_storage_rebate ob = obj_storage_rebate inp"
      unfolding unpriced_def by blast
    from k(2) obtain v d own where "bt_get (mutable_input_refs ts) k = Some ((v, d), own)"
      by (auto simp: in_keys_iff)
    with k show ?thesis by (simp add: original_def original_rebate_def)
  qed
  have srt: "keys_sorted (written ts)" and dist: "distinct (map fst (written ts))" "distinct (modified ts)"
    using ok by (simp_all add: store_ok_def strict_sorted_iff)
  have "written_rebates ts =
      sum_list (map (\<lambda>k. if k \<in> set (modified ts) then original_rebate lib ts k else 0) (map fst (written ts)))"
    unfolding written_rebates_def map_map
  proof (rule arg_cong [where f = sum_list], rule map_cong [OF refl])
    fix e assume "e \<in> set (written ts)"
    then have "bt_get (written ts) (fst e) = Some (snd e)" using srt by (simp add: bt_get_in_set)
    from input [OF this] show "(case e of (k, ob) \<Rightarrow> obj_storage_rebate ob) =
        ((\<lambda>k. if k \<in> set (modified ts) then original_rebate lib ts k else 0) \<circ> fst) e"
      by (simp add: case_prod_beta)
  qed
  then have "modified_rebates lib ts = written_rebates ts + total_rebate ps"
    using rebates_split [OF dist, of "original_rebate lib ts"] ps(3) by (simp add: modified_rebates_def)
  moreover have "original lib ts i \<noteq> None" if "i \<in> set (modified ts)" for i
    using that input rebate_steps_original [OF run' subset_refl that] by (auto simp: in_keys_iff)
  ultimately show "accounted lib ts (gc_gas_status gc')"
    using ps none by (simp add: accounted_def gc')
qed

section \<open>The charging paths\<close>

definition within_budget :: "gas_charger \<Rightarrow> bool" where
  "within_budget gc \<longleftrightarrow>
     (\<forall>s. summary (gc_gas_status gc) = Some s \<longrightarrow>
        gcs_computation_cost s + gcs_storage_cost s \<le> gas_budget (gc_gas_status gc) + gcs_storage_rebate s)"

definition same_charger :: "gas_charger \<Rightarrow> gas_charger \<Rightarrow> bool" where
  "same_charger gc gc' \<longleftrightarrow>
     gas_coins gc' = gas_coins gc \<and> smashed_gas_coin gc' = smashed_gas_coin gc \<and>
     gc_gas_model_version gc' = gc_gas_model_version gc \<and>
     gas_budget (gc_gas_status gc') = gas_budget (gc_gas_status gc) \<and>
     rebate_rate (gc_gas_status gc') = rebate_rate (gc_gas_status gc) \<and>
     (unmetered_storage_rebate (gc_gas_status gc) = 0 \<longrightarrow> unmetered_storage_rebate (gc_gas_status gc') = 0)"

lemma same_charger_refl [simp]: "same_charger gc gc"
  by (simp add: same_charger_def)

lemma same_charger_trans: "same_charger a b \<Longrightarrow> same_charger b c \<Longrightarrow> same_charger a c"
  by (simp add: same_charger_def)

text \<open>A store and a charger that are ready to pay.\<close>

definition priced :: "object_lib \<Rightarrow> object_id \<Rightarrow> gas_charger \<Rightarrow> temporary_store \<Rightarrow> bool" where
  "priced lib gid gc ts \<longleftrightarrow>
     ready_to_charge gid gc ts \<and> gid \<in> set (modified ts) \<and> accounted lib ts (gc_gas_status gc) \<and>
     fst ` set (mutable_input_refs ts) \<subseteq> set (modified ts)"

lemma charge_storage_within:
  assumes "ready_to_charge gid gc ts" and "charge_storage_and_rebate (gc_gas_status gc) = Some (Inr u)"
  shows "within_budget gc"
  using charge_storage_ok [OF assms(2)] assms(1) by (simp add: within_budget_def ready_to_charge_def)

lemma retry_path:
  assumes r: "ready_to_charge gid gc ts" and reset: "charger_reset gc ts = Some (gc1, ts1)"
    and ens: "ensure_active_inputs_mutated ts1 = Some ts2" and col: "charger_collect lib gc1 ts2 = Some (gc2, ts3)"
  shows "priced lib gid gc2 ts3" "same_inputs ts ts3" "same_charger gc gc2" "reverted gc2 ts3"
proof -
  note a = charger_reset [OF r reset]
  note b = ensure_ready [OF a(2) ens]
  have none: "per_object_storage (gc_gas_status gc1) = []" by (simp add: a(1) reset_storage_cost_and_rebate_def)
  note c = collect_ready [OF b(1) none col]
  have one: "gid \<in> fst ` set (written ts1) \<or> length (gas_coins gc1) = 1" using a(6) by (simp add: a(1))
  show "priced lib gid gc2 ts3" using c(1,3,4) b(3,6) same_inputs_mutable [OF c(2)] by (simp add: priced_def)
  show "same_inputs ts ts3" using a(3) b(2) c(2) same_inputs_trans by blast
  show "same_charger gc gc2"
    using c(5) by (auto simp: same_charger_def a(1) reset_storage_cost_and_rebate_def)
  show "reverted gc2 ts3" by (rule c(7) [OF ensure_reverted [OF a(4) a(2) ens one]])
qed

lemma out_of_gas_path:
  assumes r: "ready_to_charge gid gc ts" and reset: "charger_reset gc ts = Some (gc1, ts1)"
    and gc2: "gc2 = gc1\<lparr>gc_gas_status := adjust_computation_on_out_of_gas (gc_gas_status gc1)\<rparr>"
    and ens: "ensure_active_inputs_mutated ts1 = Some ts2" and col: "charger_collect_rebate lib gc2 ts2 = Some gc3"
  shows "priced lib gid gc3 ts2" "same_inputs ts ts2" "same_charger gc gc3" "reverted gc3 ts2" "within_budget gc3"
proof -
  note a = charger_reset [OF r reset]
  note b = ensure_ready [OF a(2) ens]
  have r2: "ready_to_charge gid gc2 ts2"
    using b(1) coins_ok_same(2) [of ts2 ts2 gc2 gc1]
    by (simp add: ready_to_charge_def gc2 adjust_computation_on_out_of_gas_def is_unmetered_def charger_ok_def)
  have ok: "store_ok ts1" using a(2) by (simp add: ready_to_charge_def)
  have none: "per_object_storage (gc_gas_status gc2) = []" by (simp add: gc2 adjust_computation_on_out_of_gas_def)
  note c = collect_rebate_ready [OF r2 ensure_unpriced [OF a(5) ok ens] none col]
  obtain ps where ps: "gc3 = gc2\<lparr>gc_gas_status := tracked (gc_gas_status gc2) ps\<rparr>" "total_cost ps = 0"
    using c(3) by blast
  have one: "gid \<in> fst ` set (written ts1) \<or> length (gas_coins gc1) = 1" using a(6) by (simp add: a(1))
  show "priced lib gid gc3 ts2" using c(1,2) b(3,6) by (simp add: priced_def)
  show "same_inputs ts ts2" using a(3) b(2) same_inputs_trans by blast
  show "same_charger gc gc3"
    by (simp add: same_charger_def a(1) ps(1) gc2 reset_storage_cost_and_rebate_def adjust_computation_on_out_of_gas_def)
  have "reverted gc1 ts2" by (rule ensure_reverted [OF a(4) a(2) ens one])
  then show "reverted gc3 ts2"
    by (rule reverted_priced [OF _ same_inputs_refl]) (simp_all add: ps(1) gc2 option.rel_refl same_but_rebate_def same_outputs_def)
  have cost: "storage_cost (gc_gas_status gc3) = 0"
    using ps none by (simp add: storage_cost_total)
  have comp: "computation_cost (gc_gas_status gc3) = gas_budget (gc_gas_status gc3)"
    by (simp add: ps(1) gc2 adjust_computation_on_out_of_gas_def)
  show "within_budget gc3" using cost comp summary_Some(1,2) by (simp add: within_budget_def)
qed

text \<open>Both versions of the storage charge: they accept what was collected, or revert and fail.\<close>

lemma handle_storage:
  assumes p: "priced lib gid gc ts" and run:
    "(if v2 then handle_storage_and_rebate_v2 lib gc ts res else handle_storage_and_rebate_v1 lib gc ts res) =
      Some (gc', ts', res')"
  shows "priced lib gid gc' ts'" "within_budget gc'" "same_inputs ts ts'" "same_charger gc gc'"
    "gc' = gc \<and> ts' = ts \<and> res' = res \<or> reverted gc' ts' \<and> isl res'"
proof -
  have r: "ready_to_charge gid gc ts" using p by (simp add: priced_def)
  have err: "isl (set_error e res)" for e by (cases res) simp_all
  obtain charged where ch: "charge_storage_and_rebate (gc_gas_status gc) = Some charged"
    using run by (auto simp: handle_storage_and_rebate_v1_def handle_storage_and_rebate_v2_def option_simps split: if_splits)
  have "priced lib gid gc' ts' \<and> within_budget gc' \<and> same_inputs ts ts' \<and> same_charger gc gc' \<and>
      (gc' = gc \<and> ts' = ts \<and> res' = res \<or> reverted gc' ts' \<and> isl res')"
  proof (cases charged)
    case (Inr u)
    then have "gc' = gc" "ts' = ts" "res' = res"
      using run ch by (auto simp: handle_storage_and_rebate_v1_def handle_storage_and_rebate_v2_def split: if_splits)
    with p charge_storage_within [OF r] ch Inr show ?thesis by simp
  next
    case (Inl e)
    note e = this
    show ?thesis
    proof (cases v2)
      case False
      with run have "handle_storage_and_rebate_v1 lib gc ts res = Some (gc', ts', res')" by simp
      then have "do {
          (gc, ts) \<leftarrow> charger_reset gc ts;
          ts \<leftarrow> ensure_active_inputs_mutated ts;
          gc \<leftarrow> charger_collect_rebate lib (gc\<lparr>gc_gas_status := adjust_computation_on_out_of_gas (gc_gas_status gc)\<rparr>) ts;
          Some (gc, ts, set_error e res)
        } = Some (gc', ts', res')"
        unfolding handle_storage_and_rebate_v1_def ch e by (simp add: Let_def)
      then obtain gc1 ts1 ts2 gc3 where reset: "charger_reset gc ts = Some (gc1, ts1)"
        and ens: "ensure_active_inputs_mutated ts1 = Some ts2"
        and col: "charger_collect_rebate lib (gc1\<lparr>gc_gas_status := adjust_computation_on_out_of_gas (gc_gas_status gc1)\<rparr>) ts2 = Some gc3"
        and eq: "gc' = gc3" "ts' = ts2" "res' = set_error e res"
        by (auto elim!: bind_SomeE)
      from out_of_gas_path [OF r reset refl ens col] eq err show ?thesis by simp
    next
      case True
      define rest where "rest = (\<lambda>gc2 ts3 charged2. case charged2 of Inl err \<Rightarrow> do {
             (gc, ts) \<leftarrow> charger_reset gc2 ts3;
             ts \<leftarrow> ensure_active_inputs_mutated ts;
             gc \<leftarrow> charger_collect_rebate lib (gc\<lparr>gc_gas_status := adjust_computation_on_out_of_gas (gc_gas_status gc)\<rparr>) ts;
             Some (gc, ts, set_error err res)
           } | Inr (_ :: unit) \<Rightarrow> Some (gc2, ts3, set_error e res))"
      from True run have "handle_storage_and_rebate_v2 lib gc ts res = Some (gc', ts', res')" by simp
      then have "do {
          (gc, ts) \<leftarrow> charger_reset gc ts;
          ts \<leftarrow> ensure_active_inputs_mutated ts;
          (gc, ts) \<leftarrow> charger_collect lib gc ts;
          charged \<leftarrow> charge_storage_and_rebate (gc_gas_status gc);
          rest gc ts charged
        } = Some (gc', ts', res')"
        unfolding handle_storage_and_rebate_v2_def ch e rest_def by (simp add: Let_def)
      then obtain gc1 ts1 ts2 gc2 ts3 charged2 where reset: "charger_reset gc ts = Some (gc1, ts1)"
        and ens: "ensure_active_inputs_mutated ts1 = Some ts2"
        and col: "charger_collect lib gc1 ts2 = Some (gc2, ts3)"
        and ch2: "charge_storage_and_rebate (gc_gas_status gc2) = Some charged2"
        and rest: "rest gc2 ts3 charged2 = Some (gc', ts', res')"
        by (auto elim!: bind_SomeE)
      note retry = retry_path [OF r reset ens col]
      have r2: "ready_to_charge gid gc2 ts3" using retry(1) by (simp add: priced_def)
      show ?thesis
      proof (cases charged2)
        case (Inr u)
        with rest have eq: "gc' = gc2" "ts' = ts3" "res' = set_error e res" by (auto simp: rest_def)
        with retry charge_storage_within [OF r2] ch2 Inr err show ?thesis by simp
      next
        case (Inl e2)
        with rest obtain gc3 ts4 ts5 where reset2: "charger_reset gc2 ts3 = Some (gc3, ts4)"
          and ens2: "ensure_active_inputs_mutated ts4 = Some ts5"
          and col2: "charger_collect_rebate lib (gc3\<lparr>gc_gas_status := adjust_computation_on_out_of_gas (gc_gas_status gc3)\<rparr>) ts5 = Some gc'"
          and eq: "ts' = ts5" "res' = set_error e2 res"
          by (auto simp: rest_def elim!: bind_SomeE)
        note oog = out_of_gas_path [OF r2 reset2 refl ens2 col2]
        from oog eq err same_inputs_trans [OF retry(2) oog(2)] same_charger_trans [OF retry(3) oog(3)]
        show ?thesis by simp
      qed
    qed
  qed
  then show "priced lib gid gc' ts'" "within_budget gc'" "same_inputs ts ts'" "same_charger gc gc'"
    "gc' = gc \<and> ts' = ts \<and> res' = res \<or> reverted gc' ts' \<and> isl res'" by blast+
qed

section \<open>The whole of charge\_gas\<close>

lemma bucketize_computation:
  assumes "bucketize_computation st = Some (r, st')"
  shows "\<exists>c \<le> gas_budget st. st' = st\<lparr>computation_cost := c\<rparr> \<and>
    (case r of Inl e \<Rightarrow> e = InsufficientGas \<and> c = gas_budget st | Inr _ \<Rightarrow> c < gas_budget st)"
proof -
  obtain used where used: "(if gas_budget st \<le> used
      then (Inl InsufficientGas, st\<lparr>computation_cost := gas_budget st\<rparr>)
      else (Inr (), st\<lparr>computation_cost := used\<rparr>)) = (r, st')"
    using assms unfolding bucketize_computation_def Let_def by (elim bind_SomeE) (simp only: option.inject)
  show ?thesis
  proof (cases "gas_budget st \<le> used")
    case True
    with used show ?thesis by (intro exI [of _ "gas_budget st"]) auto
  next
    case False
    with used show ?thesis by (intro exI [of _ used]) auto
  qed
qed

lemma settle_computation:
  assumes r: "ready_to_charge gid gc ts" and none: "per_object_storage (gc_gas_status gc) = []"
    and run: "settle_computation gc ts res = Some (gc', ts', res')"
  shows "ready_to_charge gid gc' ts'" "per_object_storage (gc_gas_status gc') = []" "same_inputs ts ts'"
    "same_charger gc gc'" "\<not> isl res' \<Longrightarrow> ts' = ts \<and> \<not> isl res"
    "isl res' \<Longrightarrow> reverted gc' ts' \<and> (gid \<in> fst ` set (written ts') \<or> length (gas_coins gc') = 1)"
proof -
  have sm: "smashed_gas_coin gc \<noteq> None" using r by (simp add: ready_to_charge_def charger_ok_def)
  obtain b st where b: "bucketize_computation (gc_gas_status gc) = Some (b, st)"
    and rest: "(let res = (case b of Inl err \<Rightarrow> set_error err res | Inr _ \<Rightarrow> res)
      in case res of
        Inl _ \<Rightarrow> do { (gc, ts) \<leftarrow> charger_reset (gc\<lparr>gc_gas_status := st\<rparr>) ts; Some (gc, ts, res) }
      | Inr _ \<Rightarrow> Some (gc\<lparr>gc_gas_status := st\<rparr>, ts, res)) = Some (gc', ts', res')"
    using run sm unfolding settle_computation_def by (auto elim!: bind_SomeE simp: Let_def)
  obtain c where c: "c \<le> gas_budget (gc_gas_status gc)" "st = gc_gas_status gc\<lparr>computation_cost := c\<rparr>"
    using bucketize_computation [OF b] by blast
  let ?gc = "gc\<lparr>gc_gas_status := st\<rparr>"
  let ?res = "case b of Inl err \<Rightarrow> set_error err res | Inr _ \<Rightarrow> res"
  have r1: "ready_to_charge gid ?gc ts"
    using r c coins_ok_same(2) [of ts ts ?gc gc] by (simp add: ready_to_charge_def is_unmetered_def charger_ok_def)
  have sc: "same_charger gc ?gc" by (simp add: same_charger_def c(2))
  have "ready_to_charge gid gc' ts' \<and> per_object_storage (gc_gas_status gc') = [] \<and> same_inputs ts ts' \<and>
      same_charger gc gc' \<and> (\<not> isl res' \<longrightarrow> ts' = ts \<and> \<not> isl res) \<and>
      (isl res' \<longrightarrow> reverted gc' ts' \<and> (gid \<in> fst ` set (written ts') \<or> length (gas_coins gc') = 1))"
  proof (cases ?res)
    case (Inr v)
    then have eq: "gc' = ?gc" "ts' = ts" "res' = Inr v" using rest by (auto simp: Let_def)
    have "\<not> isl res" using Inr by (cases b; cases res) auto
    with eq r1 none c(2) sc show ?thesis by simp
  next
    case (Inl e)
    with rest have reset: "charger_reset ?gc ts = Some (gc', ts')" and res': "res' = Inl e"
      by (auto simp: Let_def elim!: bind_SomeE)
    note a = charger_reset [OF r1 reset]
    have "per_object_storage (gc_gas_status gc') = []" by (simp add: a(1) reset_storage_cost_and_rebate_def)
    moreover have "same_charger gc gc'" using sc by (simp add: same_charger_def a(1) reset_storage_cost_and_rebate_def)
    ultimately show ?thesis using a res' by (simp add: a(1))
  qed
  then show "ready_to_charge gid gc' ts'" "per_object_storage (gc_gas_status gc') = []" "same_inputs ts ts'"
    "same_charger gc gc'" "\<not> isl res' \<Longrightarrow> ts' = ts \<and> \<not> isl res"
    "isl res' \<Longrightarrow> reverted gc' ts' \<and> (gid \<in> fst ` set (written ts') \<or> length (gas_coins gc') = 1)"
    by blast+
qed

text \<open>Everything up to the payment.\<close>

lemma charge_gas_before_payment:
  assumes r: "ready_to_charge gid gc ts" and none: "per_object_storage (gc_gas_status gc) = []"
    and run: "charge_gas lib gc ts res = Some (s, gc', ts', res')"
  obtains ts1 where "priced lib gid gc' ts1" "within_budget gc'" "same_inputs ts ts1" "same_charger gc gc'"
    "pay_from_coin gid gc' ts1 = Some (s, ts')" "isl res' \<Longrightarrow> reverted gc' ts1"
    "\<not> isl res' \<Longrightarrow> \<not> isl res \<and> rel_option same_but_rebate (read_object gid ts) (read_object gid ts1)"
proof -
  obtain gc1 ts1 res1 ts2 gc3 ts3 where settle: "settle_computation gc ts res = Some (gc1, ts1, res1)"
    and ens: "ensure_active_inputs_mutated ts1 = Some ts2" and col: "charger_collect lib gc1 ts2 = Some (gc3, ts3)"
    and rest: "(case smashed_gas_coin gc3 of
       Some gas_object_id \<Rightarrow> do {
         (gc, ts, res) \<leftarrow> (if dont_charge_budget_on_storage_oog (gc_gas_model_version gc3)
                          then handle_storage_and_rebate_v2 lib gc3 ts3 res1
                          else handle_storage_and_rebate_v1 lib gc3 ts3 res1);
         (cost_summary, ts) \<leftarrow> pay_from_coin gas_object_id gc ts;
         Some (cost_summary, gc, ts, res)
       }
     | None \<Rightarrow> Some (default_summary, gc3, ts3, res1)) = Some (s, gc', ts', res')"
    using run unfolding charge_gas_def by (auto elim!: bind_SomeE)
  note a = settle_computation [OF r none settle]
  note b = ensure_ready [OF a(1) ens]
  note c = collect_ready [OF b(1) a(2) col]
  have sm: "smashed_gas_coin gc3 = Some gid" using c(1) by (simp add: ready_to_charge_def charger_ok_def)
  obtain ts4 where handle: "(if dont_charge_budget_on_storage_oog (gc_gas_model_version gc3)
      then handle_storage_and_rebate_v2 lib gc3 ts3 res1 else handle_storage_and_rebate_v1 lib gc3 ts3 res1) =
      Some (gc', ts4, res')" and pay: "pay_from_coin gid gc' ts4 = Some (s, ts')"
    using rest unfolding sm by (auto elim!: bind_SomeE)
  have p: "priced lib gid gc3 ts3" using c(1,3,4) b(3,6) same_inputs_mutable [OF c(2)] by (simp add: priced_def)
  note h = handle_storage [OF p handle]
  have "same_charger gc1 gc3" using c(5) by (auto simp: same_charger_def)
  then have "same_charger gc gc'" using a(4) h(4) same_charger_trans by blast
  moreover have "same_inputs ts ts4" using a(3) b(2) c(2) h(3) same_inputs_trans by blast
  moreover have "reverted gc' ts4" if "isl res'"
  proof (cases "reverted gc' ts4")
    case False
    with h(5) have eq: "gc' = gc3" "ts4 = ts3" "res' = res1" by auto
    with that a(6) have "reverted gc1 ts1" "gid \<in> fst ` set (written ts1) \<or> length (gas_coins gc1) = 1" by auto
    from c(7) [OF ensure_reverted [OF this(1) a(1) ens this(2)]] eq show ?thesis by simp
  qed
  moreover have "\<not> isl res \<and> rel_option same_but_rebate (read_object gid ts) (read_object gid ts4)" if "\<not> isl res'"
  proof -
    from h(5) that have eq: "ts4 = ts3" "res' = res1" by auto
    with that a(5) have t: "ts1 = ts" "\<not> isl res" by auto
    have g2: "gid \<in> fst ` set (written ts2)" using b(4) .
    have "rel_option same_but_rebate (read_object gid ts2) (read_object gid ts3)"
      using c(6) [of gid] g2 by (auto simp: in_keys_iff read_object_def option_rel_Some1 split: option.splits)
    with b(5) t eq show ?thesis by simp
  qed
  ultimately show ?thesis using that [of ts4] h(1,2) pay by blast
qed

section \<open>The payment\<close>

lemma set_coin_value_frame:
  "set_coin_value_unsafe v m = Some m' \<Longrightarrow> move_id m' = move_id m \<and> mo_type m' = mo_type m \<and> mo_version m' = mo_version m"
  by (auto simp: set_coin_value_unsafe_def move_id_def id_opt_def ID_LENGTH_def split: if_splits)

lemma deduct_gas_coin_frame:
  assumes "deduct_gas_coin ob a = Some ob'"
  shows "obj_storage_rebate ob' = obj_storage_rebate ob" "object_id_of ob' = object_id_of ob" "obj_owner ob' = obj_owner ob"
proof -
  obtain m v m' where m: "try_as_move (obj_data ob) = Some m" "set_coin_value_unsafe v m = Some m'"
    "ob' = ob\<lparr>obj_data := Move m'\<rparr>"
    using assms unfolding deduct_gas_coin_def by (auto elim!: bind_SomeE)
  have "obj_data ob = Move m" using m(1) by (cases "obj_data ob") auto
  with m set_coin_value_frame [OF m(2)]
  show "obj_storage_rebate ob' = obj_storage_rebate ob" "object_id_of ob' = object_id_of ob" "obj_owner ob' = obj_owner ob"
    by (simp_all add: object_id_of_def)
qed

lemma bs_insert_present: "sorted_wrt (<) xs \<Longrightarrow> k \<in> set xs \<Longrightarrow> bs_insert k xs = xs"
  by (induction xs) auto

lemma sum_bt_insert:
  "keys_sorted w \<Longrightarrow> bt_get w k = Some v \<Longrightarrow> f (k, v') = f (k, v) \<Longrightarrow>
    sum_list (map f (bt_insert k v' w)) = (sum_list (map f w) :: nat)"
proof (induction w)
  case (Cons e w)
  show ?case
  proof (cases "k = fst e")
    case True
    with Cons.prems show ?thesis by (cases e) (simp add: bt_get_def)
  next
    case False
    with Cons.prems(2) have get: "bt_get w k = Some v" by (simp add: bt_get_def)
    then have "k \<in> fst ` set w" by (simp add: in_keys_iff)
    with Cons.prems(1) have "\<not> k < fst e" by auto
    with False Cons.IH [OF _ get] Cons.prems(1,3) show ?thesis by simp
  qed
qed (simp add: bt_get_def)

lemma pay_from_coin:
  assumes p: "priced lib gid gc ts" and run: "pay_from_coin gid gc ts = Some (s, ts')"
  obtains ob ob' net where "summary (gc_gas_status gc) = Some s" "net_gas_usage s = Some net"
    "bt_get (written ts) gid = Some ob" "read_object gid ts = Some ob" "deduct_gas_coin ob net = Some ob'"
    "bt_get (written ts') = (bt_get (written ts))(gid \<mapsto> ob')"
    "store_ok ts'" "same_inputs ts ts'" "accounted lib ts' (gc_gas_status gc)" "modified ts' = modified ts" "same_outputs ts ts'"
proof -
  have ok: "store_ok ts" and gm: "gid \<in> set (modified ts)" and gw: "gid \<in> fst ` set (written ts)"
    and acc: "accounted lib ts (gc_gas_status gc)"
    using p unfolding priced_def ready_to_charge_def by blast+
  obtain ob where ob: "bt_get (written ts) gid = Some ob" using gw by (auto simp: in_keys_iff)
  then have read: "read_object gid ts = Some ob" by (simp add: read_object_def)
  obtain net ob' where s: "summary (gc_gas_status gc) = Some s" "net_gas_usage s = Some net"
    "deduct_gas_coin ob net = Some ob'" "mutate_input_object ob' ts = Some ts'"
    using run read unfolding pay_from_coin_def by (auto elim!: bind_SomeE)
  note fr = deduct_gas_coin_frame [OF s(3)]
  have id: "object_id_of ob' = Some gid" using fr(2) store_ok_written [OF ok ob] by simp
  from mutate_input_object [OF s(4) ok] id have t: "store_ok ts'" "same_inputs ts ts'"
    "bt_get (written ts') = (bt_get (written ts))(gid \<mapsto> ob')" "written ts' = bt_insert gid ob' (written ts)"
    "modified ts' = bs_insert gid (modified ts)"
    by (metis option.inject)+
  have m: "modified ts' = modified ts" using t(5) ok gm by (simp add: bs_insert_present store_ok_def)
  have w: "written_rebates ts' = written_rebates ts"
    unfolding written_rebates_def t(4) using ok ob fr(1) by (intro sum_bt_insert) (simp_all add: store_ok_def)
  have "modified_rebates lib ts' = modified_rebates lib ts"
    using original_rebate_same [OF t(2)] m by (simp add: modified_rebates_def)
  with acc w m original_same [OF t(2)] have "accounted lib ts' (gc_gas_status gc)"
    by (simp add: accounted_def)
  with s ob read t m mutate_input_object_outputs [OF s(4)] show ?thesis by (intro that)
qed

text \<open>The two results: conservation and the budget.\<close>

lemma charge_gas_check:
  assumes "ready_to_charge gid gc ts" and "per_object_storage (gc_gas_status gc) = []"
    and "charge_gas lib gc ts res = Some (s, gc', ts', res')"
  shows "check_sui_conserved lib ts' b s = Some (Inr ())"
    "gcs_computation_cost s + gcs_storage_cost s \<le> gas_budget (gc_gas_status gc) + gcs_storage_rebate s"
proof -
  obtain ts1 where t: "priced lib gid gc' ts1" "within_budget gc'" "same_charger gc gc'"
    "pay_from_coin gid gc' ts1 = Some (s, ts')"
    using charge_gas_before_payment [OF assms] by metis
  obtain ob ob' net where p: "summary (gc_gas_status gc') = Some s" "store_ok ts'" "accounted lib ts' (gc_gas_status gc')"
    using pay_from_coin [OF t(1,4)] by metis
  show "check_sui_conserved lib ts' b s = Some (Inr ())" by (rule accounted_check [OF p(2,3,1)])
  show "gcs_computation_cost s + gcs_storage_cost s \<le> gas_budget (gc_gas_status gc) + gcs_storage_rebate s"
    using t(2,3) p(1) by (simp add: within_budget_def same_charger_def)
qed

text \<open>A payment that succeeds takes exactly its amount, or gives it back when it is negative.\<close>

lemma deduct_gas_coin_value:
  assumes coin: "coin_ok ob" and run: "deduct_gas_coin ob amount = Some ob'"
    and range: "- (2 ^ 63) \<le> amount" "amount < 2 ^ 63"
  shows "coin_ok ob'" "int (coin_value ob') = int (coin_value ob) - amount"
proof -
  obtain m where m: "obj_data ob = Move m" "get_coin_value_unsafe m = Some (coin_value ob)"
    using coin by (rule coin_okE)
  have "- (2 ^ 63) < amount \<and> amount \<le> int (coin_value ob) \<and> int (coin_value ob) - amount < 2 ^ 64"
  proof (cases "amount < 0")
    case True
    with run m obtain refund where r: "checked_neg_i64 amount = Some refund"
      "checked_add64 (coin_value ob) (as_u64 refund) \<noteq> None"
      unfolding deduct_gas_coin_def by (auto elim!: bind_SomeE)
    then have lo: "- (2 ^ 63) < amount" and refund: "refund = - amount"
      using range(1) by (auto simp: checked_neg_i64_def split: if_splits)
    have "as_u64 refund = nat (- amount)" unfolding refund using True lo by (intro as_u64_nonneg) auto
    with r(2) have "coin_value ob + nat (- amount) < 2 ^ 64" by (simp add: checked_add64_def split: if_splits)
    with True lo show ?thesis by (intro conjI) (simp_all add: nat_less_iff)
  next
    case False
    with range(2) have "as_u64 amount = nat amount" by (intro as_u64_nonneg) auto
    with run m False have "nat amount \<le> coin_value ob"
      unfolding deduct_gas_coin_def by (auto elim!: bind_SomeE simp: checked_sub64_def split: if_splits)
    with False coin_value_less [OF coin] show ?thesis by (intro conjI) auto
  qed
  then obtain ob2 where "deduct_gas_coin ob amount = Some ob2" "coin_ok ob2"
    "int (coin_value ob2) = int (coin_value ob) - amount"
    using deduct_gas_coin_exact [OF coin _ range(2)] by metis
  with run show "coin_ok ob'" "int (coin_value ob') = int (coin_value ob) - amount" by simp_all
qed

lemma net_gas_usage_range: "net_gas_usage s = Some net \<Longrightarrow> - (2 ^ 63) \<le> net \<and> net < 2 ^ 63"
  unfolding net_gas_usage_def by (elim bind_SomeE) (simp add: checked_sub_i64_def split: if_splits)

text \<open>The coin after the charge, when the transaction failed and when it did not.\<close>

lemma charge_gas_payment:
  assumes r: "ready_to_charge gid gc ts" and none: "per_object_storage (gc_gas_status gc) = []"
    and run: "charge_gas lib gc ts res = Some (s, gc', ts', res')"
  obtains net coin' where "net_gas_usage s = Some net" "bt_get (written ts') gid = Some coin'"
    "isl res' \<Longrightarrow> int (coin_value coin') = int (sum_list (input_coin_values ts gc)) - net"
    "\<And>k ob. isl res' \<Longrightarrow> k \<noteq> gid \<Longrightarrow> bt_get (written ts') k = Some ob \<Longrightarrow>
       \<exists>inp. bt_get (input_objects ts) k = Some inp \<and> obj_owner ob = obj_owner inp \<and> obj_data ob = obj_data inp"
    "\<And>coin. \<not> isl res' \<Longrightarrow> read_object gid ts = Some coin \<Longrightarrow> coin_ok coin \<Longrightarrow>
       int (coin_value coin') = int (coin_value coin) - net"
    "isl res' \<Longrightarrow> undone gc' ts'" "fst ` set (mutable_input_refs ts') \<subseteq> set (modified ts')" "same_charger gc gc'"
proof -
  obtain ts1 where t: "priced lib gid gc' ts1" "same_inputs ts ts1" "same_charger gc gc'"
    "pay_from_coin gid gc' ts1 = Some (s, ts')" "isl res' \<Longrightarrow> reverted gc' ts1"
    "\<not> isl res' \<Longrightarrow> rel_option same_but_rebate (read_object gid ts) (read_object gid ts1)"
    using charge_gas_before_payment [OF assms] by metis
  obtain coin1 coin' net where p: "net_gas_usage s = Some net" "bt_get (written ts1) gid = Some coin1"
    "read_object gid ts1 = Some coin1" "deduct_gas_coin coin1 net = Some coin'"
    "bt_get (written ts') = (bt_get (written ts1))(gid \<mapsto> coin')" "modified ts' = modified ts1" "same_outputs ts1 ts'"
    "same_inputs ts1 ts'"
    using pay_from_coin [OF t(1,4)] by metis
  have "k \<in> fst ` set (written ts') \<longleftrightarrow> k \<in> fst ` set (written ts1)" for k
    unfolding in_keys_iff p(5) using p(2) by simp
  then have keys: "fst ` set (written ts') = fst ` set (written ts1)" by blast
  note range = net_gas_usage_range [OF p(1)]
  note pays = deduct_gas_coin_value [OF _ p(4) range [THEN conjunct1] range [THEN conjunct2]]
  have sm: "smashed_gas_coin gc' = Some gid"
    using t(1) unfolding priced_def ready_to_charge_def charger_ok_def by blast
  have vals: "input_coin_values ts1 gc' = input_coin_values ts gc"
    using coins_ok_same(1) [OF t(2)] t(3) by (simp add: same_charger_def)
  have inputs: "input_objects ts1 = input_objects ts" using t(2) by (simp add: same_inputs_def)
  show ?thesis
  proof (rule that [OF p(1), of coin'])
    show "bt_get (written ts') gid = Some coin'" by (simp add: p(5))
    show "int (coin_value coin') = int (sum_list (input_coin_values ts gc)) - net" if "isl res'"
    proof -
      have "coin_ok coin1 \<and> coin_value coin1 = sum_list (input_coin_values ts gc)"
        using t(5) [OF that] p(2) sm vals unfolding reverted_def by fastforce
      with pays show ?thesis by simp
    qed
    show "\<exists>inp. bt_get (input_objects ts) k = Some inp \<and> obj_owner ob = obj_owner inp \<and> obj_data ob = obj_data inp"
      if "isl res'" "k \<noteq> gid" "bt_get (written ts') k = Some ob" for k ob
      using t(5) [OF that(1)] that(2,3) sm inputs unfolding reverted_def p(5) by fastforce
    show "int (coin_value coin') = int (coin_value coin) - net"
      if "\<not> isl res'" "read_object gid ts = Some coin" "coin_ok coin" for coin
    proof -
      have "same_but_rebate coin coin1" using t(6) [OF that(1)] that(2) p(3) by simp
      from pays same_but_rebate(4,5) [OF this] that(3) show ?thesis by simp
    qed
    show "undone gc' ts'" if "isl res'"
      by (rule undone_same [OF _ p(7,6) keys refl refl]) (use t(5) [OF that] in \<open>simp add: reverted_def\<close>)
    show "fst ` set (mutable_input_refs ts') \<subseteq> set (modified ts')"
      using t(1) same_inputs_mutable [OF p(8)] by (simp add: priced_def p(6))
    show "same_charger gc gc'" by (rule t(3))
  qed
qed

end
