(* ===== verification/GasProperties.thy ===== *)
theory GasProperties
  imports GasConservation "HOL-Library.Code_Target_Numeral"
begin

text \<open>
  The properties of gas: what a transaction is charged, where the charge goes, that the charges conserve SUI
  and stay within the budget, and what a failed transaction leaves behind. The witnesses evaluate
  a transaction with two gas coins that creates one object.
\<close>

section \<open>A sample transaction\<close>

definition sample_lib :: object_lib where
  "sample_lib = \<lparr>type_size = (\<lambda>_. 1), owner_size = 40, object_hash = (\<lambda>_. 0)\<rparr>"

definition sample_config :: protocol_config where
  "sample_config = \<lparr>cfg_txn_base_cost_as_multiplier = True, base_tx_cost_fixed = 1000, max_tx_gas = 50000000000,
     package_publish_cost_per_byte = 80, obj_access_cost_read_per_byte = 15, obj_data_cost_refundable = 100,
     cfg_gas_model_version = 8, max_gas_computation_bucket = 5000000, cfg_storage_gas_price = 76,
     storage_rebate_rate = 9900, gas_rounding_step_as_option = Some 1000, max_gas_price = 100000\<rparr>"

definition sample_coin :: "nat \<Rightarrow> nat \<Rightarrow> object" where
  "sample_coin i v = \<lparr>obj_data = Move \<lparr>mo_type = GasCoin, has_public_transfer = True, mo_version = 4,
       contents = replicate 31 0 @ [of_nat i] @ le_bytes 8 v\<rparr>,
     obj_owner = AddressOwner 9, obj_previous_transaction = 3, obj_storage_rebate = 988000\<rparr>"

definition sample_object :: "nat \<Rightarrow> object" where
  "sample_object i = \<lparr>obj_data = Move \<lparr>mo_type = Other ''T'', has_public_transfer = True, mo_version = 0,
       contents = replicate 31 0 @ [of_nat i, 7]\<rparr>,
     obj_owner = AddressOwner 9, obj_previous_transaction = 0, obj_storage_rebate = 0\<rparr>"

definition sample_store :: backing_store where
  "sample_store = \<lparr>bs_get_package_object = (\<lambda>_. Some None), bs_get_object = (\<lambda>_. Some None),
     bs_get_object_by_key = (\<lambda>_ _. Some None)\<rparr>"

definition sample_inputs :: "input_object list" where
  "sample_inputs = [(ImmOrOwnedMoveObject (16, 4, 0), ReadObject (sample_coin 16 2000000000)),
                  (ImmOrOwnedMoveObject (17, 4, 0), ReadObject (sample_coin 17 3000000000))]"

definition sample_temporary_store :: temporary_store where
  "sample_temporary_store = the (temporary_store_new sample_lib sample_store sample_inputs [] 77)"

definition sample_status :: sui_gas_status where
  "sample_status = the (new_with_budget 4000000000 1000 750 sample_config)"

definition sample_start :: "gas_charger \<times> temporary_store" where
  "sample_start = the (smash_gas (gas_charger_new 77 [(16, 4, 0), (17, 4, 0)] sample_status sample_config) sample_temporary_store)"

definition sample_charger :: gas_charger where
  "sample_charger = fst sample_start"

text \<open>The store after the transaction has created one object.\<close>

definition sample_run :: temporary_store where
  "sample_run = the (create_object (sample_object 20) (snd sample_start))"

text \<open>What its charge returns when the execution succeeded, and when it failed.\<close>

definition sample_outcome ::
  "execution_error + unit \<Rightarrow> gas_cost_summary \<times> gas_charger \<times> temporary_store \<times> (execution_error + unit)" where
  "sample_outcome res = the (charge_gas sample_lib sample_charger sample_run res)"

lemma sample_ready: "ready_to_charge 16 sample_charger sample_run" "per_object_storage (gc_gas_status sample_charger) = []"
  by code_simp+

lemma sample_charged:
  "charge_gas sample_lib sample_charger sample_run (Inr ()) = Some (sample_outcome (Inr ()))"
  "charge_gas sample_lib sample_charger sample_run (Inl (OtherExecutionError 3)) = Some (sample_outcome (Inl (OtherExecutionError 3)))"
proof -
  have "\<not> Option.is_none (charge_gas sample_lib sample_charger sample_run (Inr () :: execution_error + unit))"
    "\<not> Option.is_none (charge_gas sample_lib sample_charger sample_run (Inl (OtherExecutionError 3) :: execution_error + unit))"
    by code_simp+
  then show "charge_gas sample_lib sample_charger sample_run (Inr ()) = Some (sample_outcome (Inr ()))"
    "charge_gas sample_lib sample_charger sample_run (Inl (OtherExecutionError 3)) = Some (sample_outcome (Inl (OtherExecutionError 3)))"
    by (simp_all add: Option.is_none_def sample_outcome_def)
qed

section \<open>The charge of a transaction\<close>

text \<open>
  C12: charging gas conserves SUI. Whatever the transaction did to a well-formed store, and on every path of
  \<^verbatim>\<open>charge_gas\<close> (success, failed execution, out of gas for computation, out of gas for storage with
  or without a second attempt), the store and the cost summary it returns pass \<^verbatim>\<open>check_sui_conserved\<close>:
  the storage rebates the modified objects held before are those of the written objects plus
  what the summary pays out and keeps.
\<close>

theorem charge_gas_conserves_sui:
  assumes "ready_to_charge gid gc ts" and "per_object_storage (gc_gas_status gc) = []"
    and "charge_gas lib gc ts res = Some (s, gc', ts', res')"
  shows "check_sui_conserved lib ts' simple_conservation_checks s = Some (Inr ())"
  by (rule charge_gas_check(1) [OF assms])

theorem charge_gas_conserves_sui_witness:
  "case sample_outcome (Inr ()) of (s, gc', ts', res') \<Rightarrow>
     gcs_storage_cost s = 1922800 \<and> check_sui_conserved sample_lib ts' True s = Some (Inr ())"
proof -
  obtain s gc' ts' res' where out: "sample_outcome (Inr ()) = (s, gc', ts', res')" by (metis prod_cases4)
  have "gcs_storage_cost (fst (sample_outcome (Inr ()))) = 1922800" by code_simp
  with charge_gas_conserves_sui [OF sample_ready sample_charged(1) [unfolded out]] show ?thesis by (simp add: out)
qed

text \<open>
  C13: a transaction is never charged more than its budget. The computation cost and the storage cost of the
  summary, less the storage rebate paid out, are within the gas budget, on every path.
\<close>

theorem charge_within_budget:
  assumes "ready_to_charge gid gc ts" and "per_object_storage (gc_gas_status gc) = []"
    and "charge_gas lib gc ts res = Some (s, gc', ts', res')"
  shows "gcs_computation_cost s + gcs_storage_cost s \<le> gas_budget (gc_gas_status gc) + gcs_storage_rebate s"
  by (rule charge_gas_check(2) [OF assms])

theorem charge_within_budget_witness:
  "case sample_outcome (Inr ()) of (s, gc', ts', res') \<Rightarrow>
     gcs_computation_cost s = 1000000 \<and> gcs_computation_cost s + gcs_storage_cost s \<le> 4000000000 + gcs_storage_rebate s"
proof -
  obtain s gc' ts' res' where out: "sample_outcome (Inr ()) = (s, gc', ts', res')" by (metis prod_cases4)
  have "gcs_computation_cost (fst (sample_outcome (Inr ()))) = 1000000" by code_simp
  moreover have "gas_budget (gc_gas_status sample_charger) = 4000000000" by code_simp
  ultimately show ?thesis
    using charge_within_budget [OF sample_ready sample_charged(1) [unfolded out]] by (simp add: out)
qed

text \<open>
  a failed transaction has no effect but its charge. When \<^verbatim>\<open>charge_gas\<close> returns an error, every object
  it leaves written is an input object with its owner and contents unchanged, except the gas
  coin, which holds the sum of the gas coins less the net gas usage of the summary.
\<close>

theorem failed_transaction_only_pays:
  assumes "ready_to_charge gid gc ts" and "per_object_storage (gc_gas_status gc) = []"
    and "charge_gas lib gc ts res = Some (s, gc', ts', Inl err)"
  shows "\<exists>net coin. net_gas_usage s = Some net \<and> bt_get (written ts') gid = Some coin \<and>
      int (coin_value coin) = int (sum_list (input_coin_values ts gc)) - net \<and>
      (\<forall>k ob. k \<noteq> gid \<longrightarrow> bt_get (written ts') k = Some ob \<longrightarrow>
        (\<exists>inp. bt_get (input_objects ts) k = Some inp \<and> obj_owner ob = obj_owner inp \<and> obj_data ob = obj_data inp))"
proof -
  obtain net coin where "net_gas_usage s = Some net" "bt_get (written ts') gid = Some coin"
    "int (coin_value coin) = int (sum_list (input_coin_values ts gc)) - net"
    "\<And>k ob. k \<noteq> gid \<Longrightarrow> bt_get (written ts') k = Some ob \<Longrightarrow>
       \<exists>inp. bt_get (input_objects ts) k = Some inp \<and> obj_owner ob = obj_owner inp \<and> obj_data ob = obj_data inp"
    using charge_gas_payment [OF assms] by (metis sum.disc(1))
  then show ?thesis by blast
qed

theorem failed_transaction_only_pays_witness:
  "case sample_outcome (Inl (OtherExecutionError 3)) of (s, gc', ts', res') \<Rightarrow>
     res' = Inl (OtherExecutionError 3) \<and> sum_list (input_coin_values sample_run sample_charger) = 5000000000 \<and>
     (\<exists>net coin. net_gas_usage s = Some net \<and> bt_get (written ts') 16 = Some coin \<and>
       int (coin_value coin) = 5000000000 - net)"
proof -
  let ?out = "sample_outcome (Inl (OtherExecutionError 3))"
  obtain s gc' ts' res' where out: "?out = (s, gc', ts', res')" by (metis prod_cases4)
  have "snd (snd (snd ?out)) = Inl (OtherExecutionError 3)" by code_simp
  then have r: "res' = Inl (OtherExecutionError 3)" by (simp add: out)
  have "sum_list (input_coin_values sample_run sample_charger) = 5000000000" by code_simp
  with r failed_transaction_only_pays [OF sample_ready sample_charged(2) [unfolded out r]] show ?thesis
    by (auto simp: out)
qed

text \<open>
  a transaction that succeeds pays the net gas usage of its summary from its gas coin, exactly: the coin
  ends with what it held when the charge began less the computation and storage costs, plus the rebate.
\<close>

theorem successful_transaction_pays:
  assumes "ready_to_charge gid gc ts" and "per_object_storage (gc_gas_status gc) = []"
    and "charge_gas lib gc ts res = Some (s, gc', ts', Inr v)"
    and "read_object gid ts = Some coin" and "coin_ok coin"
  shows "\<exists>net coin'. net_gas_usage s = Some net \<and> bt_get (written ts') gid = Some coin' \<and>
    int (coin_value coin') = int (coin_value coin) - net"
  using charge_gas_payment [OF assms(1-3)] assms(4,5) by (metis sum.disc(2))

theorem successful_transaction_pays_witness:
  "case sample_outcome (Inr ()) of (s, gc', ts', res') \<Rightarrow>
     res' = Inr () \<and> (\<exists>net coin'. net_gas_usage s = Some net \<and> bt_get (written ts') 16 = Some coin' \<and>
       int (coin_value coin') = 5000000000 - net)"
proof -
  obtain s gc' ts' res' where out: "sample_outcome (Inr ()) = (s, gc', ts', res')" by (metis prod_cases4)
  have "snd (snd (snd (sample_outcome (Inr ())))) = Inr ()" by code_simp
  then have r: "res' = Inr ()" by (simp add: out)
  let ?coin = "the (read_object 16 sample_run)"
  have "read_object 16 sample_run = Some ?coin" "coin_ok ?coin" "coin_value ?coin = 5000000000"
    unfolding option.collapse by code_simp+
  with r successful_transaction_pays [OF sample_ready sample_charged(1) [unfolded out r], of ?coin] show ?thesis
    by (simp add: out)
qed

section \<open>The meter\<close>

text \<open>
  C14: the VM cannot spend more than the transaction's budget on computation. Whatever calls it makes to the
  meter of a new transaction, up to the first error, the gas used at the gas price stays within the
  budget, and the gas left never grows.
\<close>

theorem computation_within_budget:
  assumes "new_with_budget budget price rgp config = Some st" and "meter_calls calls (sgs_gas_status st) = (r, g)"
  shows "gas_used_pre_gas_price g * price \<le> budget \<and> gas_left g \<le> gas_left (sgs_gas_status st)"
  using new_with_budget_calls [OF assms] by (simp add: meter_le_def)

definition sample_calls :: "meter_call list" where
  "sample_calls = [SimpleInstr LdU64, Pack [\<lparr>legacy_abstract_memory_size = 16, vv_abstract_memory_size = 24\<rparr>],
     SimpleInstr Ret, Bytes 2000 15]"

theorem computation_within_budget_witness:
  "gas_used_pre_gas_price (snd (meter_calls sample_calls (sgs_gas_status sample_status))) = 30 \<and>
    gas_used_pre_gas_price (snd (meter_calls sample_calls (sgs_gas_status sample_status))) * 1000 \<le> 4000000000"
proof -
  have "\<not> Option.is_none (new_with_budget 4000000000 1000 750 sample_config)" by code_simp
  then have new: "new_with_budget 4000000000 1000 750 sample_config = Some sample_status"
    by (simp add: Option.is_none_def sample_status_def)
  have "gas_used_pre_gas_price (snd (meter_calls sample_calls (sgs_gas_status sample_status))) = 30" by code_simp
  with computation_within_budget [OF new prod.collapse [symmetric]] show ?thesis by blast
qed

text \<open>
  a successful charge takes from the gas exactly its price: instructions, stack growth and pushes, each at the
  tier of the highest position the execution has reached with this charge. (When the position is the very start of
  a tier, the meter still charges the tier before it.)
\<close>

theorem charge_priced_by_tiers:
  assumes "meter_inv g" and "gs_charge g" and "charge num_instructions pushes pops incr_size decr_size g = (Inr (), h)"
    and "instructions_next_tier_start h \<noteq> Some (instructions_executed h)"
    and "stack_size_next_tier_start h \<noteq> Some (stack_size_high_water_mark h)"
    and "stack_height_next_tier_start h \<noteq> Some (stack_height_high_water_mark h)"
  shows "gas_left g = gas_left h + add64 (add64
      (fst (instruction_tier (gs_cost_table g) (instructions_executed h)) * num_instructions)
      (fst (stack_size_tier (gs_cost_table g) (stack_size_high_water_mark h)) * incr_size))
      (fst (stack_height_tier (gs_cost_table g) (stack_height_high_water_mark h)) * pushes)"
  by (rule charge_tiers [OF assms])

theorem charge_priced_by_tiers_witness:
  "let g = sgs_gas_status sample_status; h = snd (charge 20500 1500 3 700 0 g) in
     gas_left g = gas_left h + add64 (add64 (2 * 20500) (1 * 700)) (2 * 1500)"
proof -
  let ?g = "sgs_gas_status sample_status" and ?h = "snd (charge 20500 1500 3 700 0 (sgs_gas_status sample_status))"
  have "\<not> Option.is_none (new_with_budget 4000000000 1000 750 sample_config)" by code_simp
  then have new: "new_with_budget 4000000000 1000 750 sample_config = Some sample_status"
    by (simp add: Option.is_none_def sample_status_def)
  have inv: "meter_inv ?g" using new_with_budget_calls(1) [OF new, of "[]"] by simp
  have c: "gs_charge ?g" by code_simp
  have "fst (charge 20500 1500 3 700 0 ?g) = Inr ()" by code_simp
  then have run: "charge 20500 1500 3 700 0 ?g = (Inr (), ?h)" by (metis prod.collapse)
  have f: "instructions_next_tier_start ?h \<noteq> Some (instructions_executed ?h)"
    "stack_size_next_tier_start ?h \<noteq> Some (stack_size_high_water_mark ?h)"
    "stack_height_next_tier_start ?h \<noteq> Some (stack_height_high_water_mark ?h)" by code_simp+
  have "fst (instruction_tier (gs_cost_table ?g) (instructions_executed ?h)) = 2"
    "fst (stack_size_tier (gs_cost_table ?g) (stack_size_high_water_mark ?h)) = 1"
    "fst (stack_height_tier (gs_cost_table ?g) (stack_height_high_water_mark ?h)) = 2" by code_simp+
  with charge_priced_by_tiers [OF inv c run f] show ?thesis by (simp add: Let_def)
qed

text \<open>A start of a tier that is listed twice counts once, with the later multiplier; here the multiplier 29 is lost.\<close>

lemma stack_tier_never_applies:
  "stack_size_tiers initial_cost_schedule_v1 =
     [(0, 1), (2000, 2), (5000, 3), (8000, 5), (10000, 9), (11000, 16), (11500, 50)]"
  by code_simp

text \<open>
  the computation charge of a transaction. \<^verbatim>\<open>bucketize_computation\<close> charges a multiple of the rounding step
  that covers what was used and exceeds it by at most one step, at the gas price; when that reaches the budget
  the charge is the budget and the transaction fails for insufficient gas.
\<close>

theorem computation_rounds_up:
  assumes "bucketize_computation st = Some (r, st')" and "gas_rounding_step st = Some step"
  shows "\<exists>units. step dvd units \<and> gas_used st \<le> units \<and> units \<le> gas_used st + step \<and>
    st' = st\<lparr>computation_cost := min (units * sgs_gas_price st) (gas_budget st)\<rparr> \<and>
    (r = Inr () \<longleftrightarrow> units * sgs_gas_price st < gas_budget st)"
proof -
  note u = charged_units_round [OF assms(2) bucketize_step_pos [OF assms]]
  from bucketize_charged_units [OF assms(1)] show ?thesis
    by (intro exI [of _ "charged_units st"]) (auto simp: u not_le)
qed

theorem computation_rounds_up_witness:
  "\<exists>units. 1000 dvd units \<and> gas_used sample_status \<le> units \<and> units \<le> gas_used sample_status + 1000 \<and>
    computation_cost (snd (the (bucketize_computation sample_status))) = min (units * 1000) 4000000000"
proof -
  have "\<not> Option.is_none (bucketize_computation sample_status)" by code_simp
  then obtain r st' where b: "bucketize_computation sample_status = Some (r, st')"
    unfolding Option.is_none_def by (metis option.exhaust prod.exhaust)
  have d: "gas_rounding_step sample_status = Some 1000" "sgs_gas_price sample_status = 1000"
    "gas_budget sample_status = 4000000000" by code_simp+
  obtain units where u: "1000 dvd units" "gas_used sample_status \<le> units" "units \<le> gas_used sample_status + 1000"
    "st' = sample_status\<lparr>computation_cost := min (units * 1000) 4000000000\<rparr>"
    using computation_rounds_up [OF b d(1)] unfolding d by blast
  then show ?thesis unfolding b by (intro exI [of _ units]) simp
qed

section \<open>Coins and rebates\<close>

text \<open>
  a payment is accepted exactly when every gas object is an address-owned gas coin, the budget is between the
  minimum and the maximum, and the coins together hold the budget.
\<close>

theorem payment_accepted_iff:
  assumes "length gas_objs < 2 ^ 64"
  shows "check_gas_balance st gas_objs budget = Some (Inr ()) \<longleftrightarrow>
    (\<forall>x \<in> set gas_objs. \<exists>ob. x = ReadObject ob \<and> is_address_owned (obj_owner ob) \<and> coin_ok ob) \<and>
    min_transaction_cost (sgs_cost_table st) \<le> budget \<and> budget \<le> max_gas_budget (sgs_cost_table st) \<and>
    budget \<le> sum_list (map payment_value gas_objs)"
proof -
  have "payment_ok x \<longleftrightarrow> (\<exists>ob. x = ReadObject ob \<and> is_address_owned (obj_owner ob) \<and> coin_ok ob)" for x
    by (cases x) simp_all
  with check_gas_balance_Inr [OF assms] show ?thesis by simp
qed

theorem payment_accepted_iff_witness:
  "check_gas_balance sample_status (map snd sample_inputs) 4000000000 = Some (Inr ()) \<and>
    check_gas_balance sample_status (map snd sample_inputs) 6000000000 \<noteq> Some (Inr ())"
proof -
  have l: "length (map snd sample_inputs) < 2 ^ 64" by code_simp
  have t: "sum_list (map payment_value (map snd sample_inputs)) = 5000000000"
    "min_transaction_cost (sgs_cost_table sample_status) = 1000000" "max_gas_budget (sgs_cost_table sample_status) = 50000000000"
    by code_simp+
  have ok: "coin_ok (sample_coin 16 2000000000)" "coin_ok (sample_coin 17 3000000000)"
    "is_address_owned (obj_owner (sample_coin 16 2000000000))" "is_address_owned (obj_owner (sample_coin 17 3000000000))"
    by code_simp+
  have "\<forall>x \<in> set (map snd sample_inputs). \<exists>ob. x = ReadObject ob \<and> is_address_owned (obj_owner ob) \<and> coin_ok ob"
    using ok by (simp add: sample_inputs_def)
  with payment_accepted_iff [OF l, of sample_status] t show ?thesis by simp
qed

text \<open>
  the balance of a coin. Writing a balance and reading it gives it back and keeps the object's identifier,
  type and version; writing the old balance again restores the object byte for byte.
\<close>

theorem coin_balance_roundtrip:
  assumes "length (contents m) = 40" and "v < 2 ^ 64"
  shows "\<exists>m'. set_coin_value_unsafe v m = Some m' \<and> get_coin_value_unsafe m' = Some v \<and> move_id m' = move_id m \<and>
    mo_type m' = mo_type m \<and> mo_version m' = mo_version m \<and>
    (\<forall>u. get_coin_value_unsafe m = Some u \<longrightarrow> set_coin_value_unsafe u m' = Some m)"
  using set_coin_value [OF assms] set_coin_value_restore by metis

theorem coin_balance_roundtrip_witness:
  "\<exists>m'. set_coin_value_unsafe 12345678901 (the (try_as_move (obj_data (sample_coin 16 2000000000)))) = Some m' \<and>
    get_coin_value_unsafe m' = Some 12345678901"
proof -
  have "length (contents (the (try_as_move (obj_data (sample_coin 16 2000000000))))) = 40" by code_simp
  with coin_balance_roundtrip [OF this, of 12345678901] show ?thesis by auto
qed

text \<open>
  the storage rebate is split without loss. For a rate of at most 10000 basis points the summary exists; what the
  sender gets and what the storage fund keeps add up to the rebate of the transaction, and the sender's part is
  the rate's share rounded to the nearest unit.
\<close>

theorem rebate_split_exact:
  assumes "rebate_rate st \<le> BASIS_POINTS"
  shows "\<exists>s. summary st = Some s \<and> gcs_storage_rebate s + gcs_non_refundable_storage_fee s = storage_rebate st \<and>
    10000 * gcs_storage_rebate s \<le> storage_rebate st * rebate_rate st + 5000 \<and>
    storage_rebate st * rebate_rate st < 10000 * gcs_storage_rebate s + 5000"
  using summary_split [OF assms] by metis

theorem rebate_split_exact_witness:
  "\<exists>s. summary sample_status = Some s \<and>
    gcs_storage_rebate s + gcs_non_refundable_storage_fee s = storage_rebate sample_status"
proof -
  have "rebate_rate sample_status \<le> BASIS_POINTS" by code_simp
  from rebate_split_exact [OF this] show ?thesis by blast
qed

section \<open>Versions\<close>

text \<open>
  the versions a transaction writes are new. Every Move object of the final store has the transaction's
  version and digest, and that version is greater than the version of every input and received object.
\<close>

theorem written_versions_are_new:
  assumes "temporary_store_new lib store inputs receiving tx = Some ts0"
    and "lamport_timestamp ts = lamport_timestamp ts0" and "ts_tx_digest ts = ts_tx_digest ts0"
    and "update_object_version_and_prev_tx ts = Some ts'"
    and "(k, ob) \<in> set (written ts')" and "obj_data ob = Move m"
    and "\<forall>(_, r) \<in> set inputs. \<forall>v. input_version r = Some v \<longrightarrow> v < 2 ^ 64" and "\<forall>(_, v, _) \<in> set receiving. v < 2 ^ 64"
  shows "obj_previous_transaction ob = tx \<and>
    (\<forall>(_, r) \<in> set inputs. \<forall>v. input_version r = Some v \<longrightarrow> v < mo_version m) \<and>
    (\<forall>(_, v, _) \<in> set receiving. v < mo_version m)"
proof -
  obtain ob0 where u: "update_written (execution_results ts) (lamport_timestamp ts) (ts_tx_digest ts) (k, ob0) = Some (k, ob)"
    using update_object_version_and_prev_tx [OF assms(4,5)] by metis
  have n: "lamport_timestamp_of inputs receiving = Some (lamport_timestamp ts0)" "ts_tx_digest ts0 = tx"
    using assms(1) unfolding temporary_store_new_def by (auto elim!: bind_SomeE)
  have v: "mo_version m = lamport_timestamp ts0"
    using update_written_version [OF u assms(6)] assms(2) by simp
  have "obj_previous_transaction ob = tx" using update_written(2) [OF u] assms(3) n(2) by simp
  moreover have "(\<forall>(_, r) \<in> set inputs. \<forall>v. input_version r = Some v \<longrightarrow> v < mo_version m) \<and>
      (\<forall>(_, v, _) \<in> set receiving. v < mo_version m)"
    unfolding v by (rule lamport_timestamp_new [OF n(1) assms(7,8)])
  ultimately show ?thesis by blast
qed

theorem written_versions_are_new_witness:
  "let ob = the (bt_get (written (the (update_object_version_and_prev_tx sample_run))) 20) in
     obj_previous_transaction ob = 77 \<and> 4 < object_version ob"
proof -
  let ?ts' = "the (update_object_version_and_prev_tx sample_run)"
  let ?ob = "the (bt_get (written ?ts') 20)"
  have "\<not> Option.is_none (temporary_store_new sample_lib sample_store sample_inputs [] 77)" by code_simp
  then have new: "temporary_store_new sample_lib sample_store sample_inputs [] 77 = Some sample_temporary_store"
    by (simp add: Option.is_none_def sample_temporary_store_def)
  have same: "lamport_timestamp sample_run = lamport_timestamp sample_temporary_store"
    "ts_tx_digest sample_run = ts_tx_digest sample_temporary_store" by code_simp+
  have "\<not> Option.is_none (update_object_version_and_prev_tx sample_run)" by code_simp
  then have upd: "update_object_version_and_prev_tx sample_run = Some ?ts'" by (simp add: Option.is_none_def)
  have w: "(20, ?ob) \<in> set (written ?ts')" by code_simp
  have "try_as_move (obj_data ?ob) \<noteq> None" by code_simp
  then obtain m where m: "obj_data ?ob = Move m" by (cases "obj_data ?ob") auto
  have in1: "(ImmOrOwnedMoveObject (16, 4, 0), ReadObject (sample_coin 16 2000000000)) \<in> set sample_inputs"
    "input_version (ReadObject (sample_coin 16 2000000000)) = Some 4"
    by (simp_all add: sample_inputs_def sample_coin_def)
  have small: "\<forall>(_, r) \<in> set sample_inputs. \<forall>v. input_version r = Some v \<longrightarrow> v < 2 ^ 64"
    by (simp add: sample_inputs_def sample_coin_def)
  from written_versions_are_new [OF new same upd w m small] in1
  show ?thesis by (fastforce simp: object_version_def m)
qed

end
