(* ===== verification/Effects.thy ===== *)
theory Effects
  imports GasCharger StoreAccounting
begin

text \<open>
  The effects of a transaction: \<^verbatim>\<open>crates/sui-types/src/effects\<close> (\<^verbatim>\<open>mod.rs\<close>, \<^verbatim>\<open>effects_v1.rs\<close>,
  \<^verbatim>\<open>effects_v2.rs\<close>, \<^verbatim>\<open>object_change.rs\<close>), the inner store of \<^verbatim>\<open>inner_temporary_store.rs\<close>, and the way the
  temporary store builds either version. Version 1 lists objects by what happened to them;
  version 2 records for each object its state before and after and derives the lists. The test-only
  mutators are left out.
\<close>

section \<open>Data\<close>

definition digest_of_byte :: "8 word \<Rightarrow> object_digest" where
  "digest_of_byte b = id_from_bytes (replicate 32 b)"

definition object_digest_min :: object_digest where "object_digest_min = digest_of_byte 0"

definition OBJECT_DIGEST_DELETED :: object_digest where "OBJECT_DIGEST_DELETED = digest_of_byte 99"

definition OBJECT_DIGEST_WRAPPED :: object_digest where "OBJECT_DIGEST_WRAPPED = digest_of_byte 88"

datatype execution_status = StatusSuccess | StatusFailure execution_error "nat option"

datatype id_operation = IDNone | IDCreated | IDDeleted

datatype object_in = InNotExist | InExist "nat \<times> object_digest" owner

datatype object_out = OutNotExist | ObjectWrite object_digest owner | PackageWrite nat object_digest

record effects_object_change =
  input_state :: object_in
  output_state :: object_out
  change_id_operation :: id_operation

definition effects_object_change_new ::
  "object_lib \<Rightarrow> ((nat \<times> object_digest) \<times> owner) option \<Rightarrow> object option \<Rightarrow> bool \<Rightarrow> bool \<Rightarrow> effects_object_change" where
  "effects_object_change_new lib modified_at new_object id_created id_deleted =
     \<lparr>input_state = (case modified_at of None \<Rightarrow> InNotExist | Some (vd, own) \<Rightarrow> InExist vd own),
      output_state =
        (case new_object of
           None \<Rightarrow> OutNotExist
         | Some ob \<Rightarrow> if is_package ob then PackageWrite (object_version ob) (object_hash lib ob)
                     else ObjectWrite (object_hash lib ob) (obj_owner ob)),
      change_id_operation = (if id_created then IDCreated else if id_deleted then IDDeleted else IDNone)\<rparr>"

record object_change =
  oc_id :: object_id
  oc_input_version :: "nat option"
  oc_input_digest :: "object_digest option"
  oc_output_version :: "nat option"
  oc_output_digest :: "object_digest option"
  oc_id_operation :: id_operation

text \<open>The shared inputs of a transaction, and how effects report them.\<close>

datatype shared_input = SharedExisting object_ref | SharedDeleted object_id nat bool tx_digest

datatype input_shared_object =
    SharedMutate object_ref
  | SharedReadOnly object_ref
  | SharedReadDeleted object_id nat
  | SharedMutateDeleted object_id nat

fun shared_object_ref :: "input_shared_object \<Rightarrow> object_ref" where
  "shared_object_ref (SharedMutate r) = r"
| "shared_object_ref (SharedReadOnly r) = r"
| "shared_object_ref (SharedReadDeleted i v) = (i, v, OBJECT_DIGEST_DELETED)"
| "shared_object_ref (SharedMutateDeleted i v) = (i, v, OBJECT_DIGEST_DELETED)"

definition id_and_version :: "input_shared_object \<Rightarrow> object_id \<times> nat" where
  "id_and_version s = (case shared_object_ref s of (i, v, _) \<Rightarrow> (i, v))"

datatype unchanged_shared_kind = ReadOnlyRoot nat object_digest | MutateDeleted nat | ReadDeleted nat

record effects_v1 =
  e1_status :: execution_status
  e1_executed_epoch :: nat
  e1_gas_used :: gas_cost_summary
  e1_modified_at_versions :: "(object_id \<times> nat) list"
  e1_shared_objects :: "object_ref list"
  e1_transaction_digest :: tx_digest
  e1_created :: "(object_ref \<times> owner) list"
  e1_mutated :: "(object_ref \<times> owner) list"
  e1_unwrapped :: "(object_ref \<times> owner) list"
  e1_deleted :: "object_ref list"
  e1_unwrapped_then_deleted :: "object_ref list"
  e1_wrapped :: "object_ref list"
  e1_gas_object :: "object_ref \<times> owner"
  e1_events_digest :: "nat option"
  e1_dependencies :: "tx_digest list"

record effects_v2 =
  e2_status :: execution_status
  e2_executed_epoch :: nat
  e2_gas_used :: gas_cost_summary
  e2_transaction_digest :: tx_digest
  e2_gas_object_index :: "nat option"
  e2_events_digest :: "nat option"
  e2_dependencies :: "tx_digest list"
  e2_lamport_version :: nat
  changed_objects :: "(object_id \<times> effects_object_change) list"
  unchanged_shared_objects :: "(object_id \<times> unchanged_shared_kind) list"
  aux_data_digest :: "nat option"

section \<open>Version 1\<close>

definition lamport_version_v1 :: "effects_v1 \<Rightarrow> nat option" where
  "lamport_version_v1 e = lamport_increment (map snd (e1_modified_at_versions e))"

definition input_shared_objects_v1 :: "effects_v1 \<Rightarrow> input_shared_object list" where
  "input_shared_objects_v1 e =
     map (\<lambda>r. if fst r \<in> fst ` set (e1_modified_at_versions e) then SharedMutate r else SharedReadOnly r)
       (e1_shared_objects e)"

definition object_changes_v1 :: "effects_v1 \<Rightarrow> object_change list" where
  "object_changes_v1 e =
     (let modified_at = fold (\<lambda>(k, v). bt_insert k v) (e1_modified_at_versions e) [];
          change = (\<lambda>i inp out dig oper. \<lparr>oc_id = i, oc_input_version = inp, oc_input_digest = None,
            oc_output_version = out, oc_output_digest = dig, oc_id_operation = oper\<rparr>)
      in map (\<lambda>((i, v, d), _). change i None (Some v) (Some d) IDCreated) (e1_created e) @
         map (\<lambda>((i, v, d), _). change i (bt_get modified_at i) (Some v) (Some d) IDNone) (e1_mutated e) @
         map (\<lambda>((i, v, d), _). change i None (Some v) (Some d) IDNone) (e1_unwrapped e) @
         map (\<lambda>(i, _, _). change i (bt_get modified_at i) None None IDDeleted) (e1_deleted e) @
         map (\<lambda>(i, _, _). change i None None None IDDeleted) (e1_unwrapped_then_deleted e) @
         map (\<lambda>(i, _, _). change i (bt_get modified_at i) None None IDNone) (e1_wrapped e))"

section \<open>Version 2\<close>

text \<open>One shared input in \<^verbatim>\<open>TransactionEffectsV2::new\<close>.\<close>

fun unchanged_shared ::
  "(object_id, effects_object_change) btree_map \<Rightarrow> shared_input \<Rightarrow> (object_id \<times> unchanged_shared_kind) option" where
  "unchanged_shared changed (SharedExisting (i, v, d)) =
     (if bt_get changed i \<noteq> None then None else Some (i, ReadOnlyRoot v d))"
| "unchanged_shared changed (SharedDeleted i v mutable _) =
     (if mutable then Some (i, MutateDeleted v) else Some (i, ReadDeleted v))"

fun position :: "('a \<Rightarrow> bool) \<Rightarrow> 'a list \<Rightarrow> nat option" where
  "position P [] = None"
| "position P (x # xs) = (if P x then Some 0 else map_option Suc (position P xs))"

definition effects_v2_new ::
  "execution_status \<Rightarrow> nat \<Rightarrow> gas_cost_summary \<Rightarrow> shared_input list \<Rightarrow> tx_digest \<Rightarrow> nat \<Rightarrow>
     (object_id, effects_object_change) btree_map \<Rightarrow> object_id option \<Rightarrow> nat option \<Rightarrow> tx_digest list \<Rightarrow> effects_v2 option" where
  "effects_v2_new status epoch gas shared tx lamport changed gas_object events deps = do {
     gas_index \<leftarrow> (case gas_object of
         None \<Rightarrow> Some None
       | Some gas_id \<Rightarrow> do { k \<leftarrow> position (\<lambda>(i, _). i = gas_id) changed; Some (Some (k mod 2 ^ 32)) });
     Some \<lparr>e2_status = status, e2_executed_epoch = epoch, e2_gas_used = gas, e2_transaction_digest = tx,
           e2_gas_object_index = gas_index, e2_events_digest = events, e2_dependencies = deps,
           e2_lamport_version = lamport, changed_objects = changed,
           unchanged_shared_objects = List.map_filter (unchanged_shared changed) shared,
           aux_data_digest = None\<rparr>
   }"

definition modified_at_versions_v2 :: "effects_v2 \<Rightarrow> (object_id \<times> nat) list" where
  "modified_at_versions_v2 e =
     List.map_filter (\<lambda>(i, c). case input_state c of InExist (v, _) _ \<Rightarrow> Some (i, v) | InNotExist \<Rightarrow> None) (changed_objects e)"

definition old_object_metadata :: "effects_v2 \<Rightarrow> (object_ref \<times> owner) list" where
  "old_object_metadata e =
     List.map_filter (\<lambda>(i, c). case input_state c of InExist (v, d) own \<Rightarrow> Some ((i, v, d), own) | InNotExist \<Rightarrow> None)
       (changed_objects e)"

fun reported_shared :: "object_id \<times> unchanged_shared_kind \<Rightarrow> input_shared_object" where
  "reported_shared (i, ReadOnlyRoot v d) = SharedReadOnly (i, v, d)"
| "reported_shared (i, MutateDeleted v) = SharedMutateDeleted i v"
| "reported_shared (i, ReadDeleted v) = SharedReadDeleted i v"

definition input_shared_objects_v2 :: "effects_v2 \<Rightarrow> input_shared_object list" where
  "input_shared_objects_v2 e =
     List.map_filter (\<lambda>(i, c). case input_state c of
         InExist (v, d) (Shared _) \<Rightarrow> Some (SharedMutate (i, v, d))
       | _ \<Rightarrow> None) (changed_objects e) @
     map reported_shared (unchanged_shared_objects e)"

definition created_v2 :: "effects_v2 \<Rightarrow> (object_ref \<times> owner) list" where
  "created_v2 e =
     List.map_filter (\<lambda>(i, c). case (input_state c, output_state c, change_id_operation c) of
         (InNotExist, ObjectWrite d own, IDCreated) \<Rightarrow> Some ((i, e2_lamport_version e, d), own)
       | (InNotExist, PackageWrite v d, IDCreated) \<Rightarrow> Some ((i, v, d), Immutable)
       | _ \<Rightarrow> None) (changed_objects e)"

definition mutated_v2 :: "effects_v2 \<Rightarrow> (object_ref \<times> owner) list" where
  "mutated_v2 e =
     List.map_filter (\<lambda>(i, c). case (input_state c, output_state c) of
         (InExist _ _, ObjectWrite d own) \<Rightarrow> Some ((i, e2_lamport_version e, d), own)
       | (InExist _ _, PackageWrite v d) \<Rightarrow> Some ((i, v, d), Immutable)
       | _ \<Rightarrow> None) (changed_objects e)"

definition unwrapped_v2 :: "effects_v2 \<Rightarrow> (object_ref \<times> owner) list" where
  "unwrapped_v2 e =
     List.map_filter (\<lambda>(i, c). case (input_state c, output_state c, change_id_operation c) of
         (InNotExist, ObjectWrite d own, IDNone) \<Rightarrow> Some ((i, e2_lamport_version e, d), own)
       | _ \<Rightarrow> None) (changed_objects e)"

definition deleted_v2 :: "effects_v2 \<Rightarrow> object_ref list" where
  "deleted_v2 e =
     List.map_filter (\<lambda>(i, c). case (input_state c, output_state c, change_id_operation c) of
         (InExist _ _, OutNotExist, IDDeleted) \<Rightarrow> Some (i, e2_lamport_version e, OBJECT_DIGEST_DELETED)
       | _ \<Rightarrow> None) (changed_objects e)"

definition unwrapped_then_deleted_v2 :: "effects_v2 \<Rightarrow> object_ref list" where
  "unwrapped_then_deleted_v2 e =
     List.map_filter (\<lambda>(i, c). case (input_state c, output_state c, change_id_operation c) of
         (InNotExist, OutNotExist, IDDeleted) \<Rightarrow> Some (i, e2_lamport_version e, OBJECT_DIGEST_DELETED)
       | _ \<Rightarrow> None) (changed_objects e)"

definition wrapped_v2 :: "effects_v2 \<Rightarrow> object_ref list" where
  "wrapped_v2 e =
     List.map_filter (\<lambda>(i, c). case (input_state c, output_state c, change_id_operation c) of
         (InExist _ _, OutNotExist, IDNone) \<Rightarrow> Some (i, e2_lamport_version e, OBJECT_DIGEST_WRAPPED)
       | _ \<Rightarrow> None) (changed_objects e)"

definition object_changes_v2 :: "effects_v2 \<Rightarrow> object_change list" where
  "object_changes_v2 e =
     map (\<lambda>(i, c).
       let input_vd = (case input_state c of InNotExist \<Rightarrow> None | InExist vd _ \<Rightarrow> Some vd);
           output_vd = (case output_state c of
               OutNotExist \<Rightarrow> None
             | ObjectWrite d _ \<Rightarrow> Some (e2_lamport_version e, d)
             | PackageWrite v d \<Rightarrow> Some (v, d))
       in \<lparr>oc_id = i, oc_input_version = map_option fst input_vd, oc_input_digest = map_option snd input_vd,
           oc_output_version = map_option fst output_vd, oc_output_digest = map_option snd output_vd,
           oc_id_operation = change_id_operation c\<rparr>) (changed_objects e)"

text \<open>The gas object; an index out of range and an entry that is not an object write panic.\<close>

definition gas_object_v2 :: "effects_v2 \<Rightarrow> (object_ref \<times> owner) option" where
  "gas_object_v2 e =
     (case e2_gas_object_index e of
        Some k \<Rightarrow> do {
          (i, c) \<leftarrow> index (changed_objects e) k;
          case output_state c of
            ObjectWrite d own \<Rightarrow> Some ((i, e2_lamport_version e, d), own)
          | _ \<Rightarrow> None
        }
      | None \<Rightarrow> Some ((0, 0, object_digest_min), AddressOwner 0))"

section \<open>Either version\<close>

datatype transaction_effects = V1 effects_v1 | V2 effects_v2

fun effects_created :: "transaction_effects \<Rightarrow> (object_ref \<times> owner) list" where
  "effects_created (V1 e) = e1_created e"
| "effects_created (V2 e) = created_v2 e"

fun effects_mutated :: "transaction_effects \<Rightarrow> (object_ref \<times> owner) list" where
  "effects_mutated (V1 e) = e1_mutated e"
| "effects_mutated (V2 e) = mutated_v2 e"

fun effects_unwrapped :: "transaction_effects \<Rightarrow> (object_ref \<times> owner) list" where
  "effects_unwrapped (V1 e) = e1_unwrapped e"
| "effects_unwrapped (V2 e) = unwrapped_v2 e"

fun effects_deleted :: "transaction_effects \<Rightarrow> object_ref list" where
  "effects_deleted (V1 e) = e1_deleted e"
| "effects_deleted (V2 e) = deleted_v2 e"

fun effects_unwrapped_then_deleted :: "transaction_effects \<Rightarrow> object_ref list" where
  "effects_unwrapped_then_deleted (V1 e) = e1_unwrapped_then_deleted e"
| "effects_unwrapped_then_deleted (V2 e) = unwrapped_then_deleted_v2 e"

fun effects_wrapped :: "transaction_effects \<Rightarrow> object_ref list" where
  "effects_wrapped (V1 e) = e1_wrapped e"
| "effects_wrapped (V2 e) = wrapped_v2 e"

fun effects_modified_at_versions :: "transaction_effects \<Rightarrow> (object_id \<times> nat) list" where
  "effects_modified_at_versions (V1 e) = e1_modified_at_versions e"
| "effects_modified_at_versions (V2 e) = modified_at_versions_v2 e"

fun effects_lamport_version :: "transaction_effects \<Rightarrow> nat option" where
  "effects_lamport_version (V1 e) = lamport_version_v1 e"
| "effects_lamport_version (V2 e) = Some (e2_lamport_version e)"

fun effects_input_shared_objects :: "transaction_effects \<Rightarrow> input_shared_object list" where
  "effects_input_shared_objects (V1 e) = input_shared_objects_v1 e"
| "effects_input_shared_objects (V2 e) = input_shared_objects_v2 e"

fun effects_object_changes :: "transaction_effects \<Rightarrow> object_change list" where
  "effects_object_changes (V1 e) = object_changes_v1 e"
| "effects_object_changes (V2 e) = object_changes_v2 e"

fun effects_gas_object :: "transaction_effects \<Rightarrow> (object_ref \<times> owner) option" where
  "effects_gas_object (V1 e) = Some (e1_gas_object e)"
| "effects_gas_object (V2 e) = gas_object_v2 e"

datatype write_kind = WriteMutate | WriteCreate | WriteUnwrap

datatype object_remove_kind = RemoveDelete | RemoveWrap

definition all_changed_objects :: "transaction_effects \<Rightarrow> (object_ref \<times> owner \<times> write_kind) list" where
  "all_changed_objects e =
     map (\<lambda>(r, own). (r, own, WriteMutate)) (effects_mutated e) @
     map (\<lambda>(r, own). (r, own, WriteCreate)) (effects_created e) @
     map (\<lambda>(r, own). (r, own, WriteUnwrap)) (effects_unwrapped e)"

definition all_removed_objects :: "transaction_effects \<Rightarrow> (object_ref \<times> object_remove_kind) list" where
  "all_removed_objects e =
     map (\<lambda>r. (r, RemoveDelete)) (effects_deleted e) @ map (\<lambda>r. (r, RemoveWrap)) (effects_wrapped e)"

definition all_tombstones :: "transaction_effects \<Rightarrow> (object_id \<times> nat) list" where
  "all_tombstones e =
     map (\<lambda>(i, v, _). (i, v)) (effects_deleted e @ effects_unwrapped_then_deleted e @ effects_wrapped e)"

definition mutated_excluding_gas :: "transaction_effects \<Rightarrow> (object_ref \<times> owner) list option" where
  "mutated_excluding_gas e =
     filter_opt (\<lambda>x. do { g \<leftarrow> effects_gas_object e; Some (x \<noteq> g) }) (effects_mutated e)"

definition deleted_mutably_accessed_shared_objects :: "transaction_effects \<Rightarrow> object_id list" where
  "deleted_mutably_accessed_shared_objects e =
     List.map_filter (\<lambda>s. case s of SharedMutateDeleted i _ \<Rightarrow> Some i | _ \<Rightarrow> None) (effects_input_shared_objects e)"

subsection \<open>Size estimates\<close>

definition fixed_effects_size :: nat where "fixed_effects_size = 120 + 10 + 40 + 40"

definition estimate_effects_size_upperbound_v1 :: "nat \<Rightarrow> nat \<Rightarrow> nat \<Rightarrow> nat \<Rightarrow> nat" where
  "estimate_effects_size_upperbound_v1 num_writes num_mutables num_deletes num_deps =
     (fixed_effects_size + (1000 + (48 + 80) * num_writes + 80 * num_mutables + 80 * num_deletes) +
       (1000 + 40 * num_deps)) mod 2 ^ 64"

definition estimate_effects_size_upperbound_v2 :: "nat \<Rightarrow> nat \<Rightarrow> nat \<Rightarrow> nat" where
  "estimate_effects_size_upperbound_v2 num_writes num_modifies num_deps =
     (fixed_effects_size + (1000 + (48 + 80) * num_writes + (48 + 80) * num_modifies) + (1000 + 40 * num_deps)) mod 2 ^ 64"

definition estimate_effects_size_upperbound :: "bool \<Rightarrow> temporary_store \<Rightarrow> nat" where
  "estimate_effects_size_upperbound enable_effects_v2 ts =
     (if enable_effects_v2
      then estimate_effects_size_upperbound_v2 (length (written ts)) (length (modified ts)) (length (input_objects ts))
      else
        let num_deletes = length (deleted_ids ts) +
              length (filter (\<lambda>i. bt_get (written ts) i = None \<and> i \<notin> set (deleted_ids ts)) (modified ts))
        in estimate_effects_size_upperbound_v1 (length (written ts)) (length (mutable_input_refs ts)) num_deletes
             (length (input_objects ts)))"

section \<open>From the store to the effects\<close>

record inner_temporary_store =
  inner_input_objects :: "(object_id, object) btree_map"
  inner_mutable_inputs :: "(object_id, (nat \<times> object_digest) \<times> owner) btree_map"
  inner_written :: "(object_id, object) btree_map"
  inner_loaded_runtime_objects :: "(object_id, dyn_metadata) btree_map"
  inner_events :: "nat list"
  max_binary_format_version :: nat
  inner_no_extraneous_module_bytes :: bool
  inner_runtime_packages :: "(object_id, object) btree_map"
  inner_lamport_version :: nat

text \<open>The settings the effects depend on, and the hash of the events.\<close>

record effects_config =
  enable_effects_v2 :: bool
  move_binary_format_version :: nat
  no_extraneous_module_bytes :: bool
  events_hash :: "nat list \<Rightarrow> nat"

definition into_inner :: "effects_config \<Rightarrow> temporary_store \<Rightarrow> inner_temporary_store" where
  "into_inner cfg ts =
     \<lparr>inner_input_objects = input_objects ts, inner_mutable_inputs = mutable_input_refs ts, inner_written = written ts,
      inner_loaded_runtime_objects = loaded_runtime_objects ts, inner_events = user_events (execution_results ts),
      max_binary_format_version = move_binary_format_version cfg,
      inner_no_extraneous_module_bytes = no_extraneous_module_bytes cfg,
      inner_runtime_packages = runtime_packages_loaded_from_db ts, inner_lamport_version = lamport_timestamp ts\<rparr>"

definition events_digest_of :: "effects_config \<Rightarrow> inner_temporary_store \<Rightarrow> nat option" where
  "events_digest_of cfg inner = (if inner_events inner = [] then None else Some (events_hash cfg (inner_events inner)))"

definition object_change_of :: "object_lib \<Rightarrow> temporary_store \<Rightarrow> object_id \<Rightarrow> (object_id \<times> effects_object_change) option" where
  "object_change_of lib ts i = do {
     found \<leftarrow> get_object_modified_at lib ts i;
     Some (i, effects_object_change_new lib (map_option (\<lambda>md. ((md_version md, md_digest md), md_owner md)) found)
       (bt_get (written ts) i) (i \<in> set (created_ids ts)) (i \<in> set (deleted_ids ts)))
   }"

definition all_changed_ids :: "temporary_store \<Rightarrow> object_id list" where
  "all_changed_ids ts = bs_extend [] (created_ids ts @ deleted_ids ts @ modified ts @ map fst (written ts))"

definition get_object_changes :: "object_lib \<Rightarrow> temporary_store \<Rightarrow> (object_id, effects_object_change) btree_map option" where
  "get_object_changes lib ts = do {
     changes \<leftarrow> map_opt (object_change_of lib ts) (all_changed_ids ts);
     Some (bt_collect changes)
   }"

text \<open>The three loops of \<^verbatim>\<open>into_effects_v1\<close>.\<close>

fun classify_written ::
  "object_lib \<Rightarrow> temporary_store \<Rightarrow> (object_id \<times> object) list \<Rightarrow>
     ((object_id \<times> nat) list \<times> (object_ref \<times> owner) list \<times> (object_ref \<times> owner) list \<times> (object_ref \<times> owner) list) option" where
  "classify_written lib ts [] = Some ([], [], [], [])"
| "classify_written lib ts ((i, ob) # rest) = do {
     object_ref \<leftarrow> compute_object_reference lib ob;
     found \<leftarrow> get_object_modified_at lib ts i;
     (modified_at, mutated, created, unwrapped) \<leftarrow> classify_written lib ts rest;
     Some (case found of
         Some md \<Rightarrow> ((i, md_version md) # modified_at, (object_ref, obj_owner ob) # mutated, created, unwrapped)
       | None \<Rightarrow>
           if i \<in> set (created_ids ts)
           then (modified_at, mutated, (object_ref, obj_owner ob) # created, unwrapped)
           else (modified_at, mutated, created, (object_ref, obj_owner ob) # unwrapped))
   }"

fun classify_removed ::
  "object_lib \<Rightarrow> temporary_store \<Rightarrow> object_id list \<Rightarrow> ((object_id \<times> nat) list \<times> object_ref list \<times> object_ref list) option" where
  "classify_removed lib ts [] = Some ([], [], [])"
| "classify_removed lib ts (i # rest) = do {
     found \<leftarrow> get_object_modified_at lib ts i;
     md \<leftarrow> found;
     (deleted_at, deleted, wrapped) \<leftarrow> classify_removed lib ts rest;
     Some (if i \<in> set (deleted_ids ts)
           then ((i, md_version md) # deleted_at, (i, lamport_timestamp ts, OBJECT_DIGEST_DELETED) # deleted, wrapped)
           else ((i, md_version md) # deleted_at, deleted, (i, lamport_timestamp ts, OBJECT_DIGEST_WRAPPED) # wrapped))
   }"

definition into_effects_v1 ::
  "effects_config \<Rightarrow> object_lib \<Rightarrow> temporary_store \<Rightarrow> object_ref list \<Rightarrow> tx_digest \<Rightarrow> tx_digest list \<Rightarrow> gas_cost_summary \<Rightarrow>
     execution_status \<Rightarrow> gas_charger \<Rightarrow> nat \<Rightarrow> (inner_temporary_store \<times> transaction_effects) option" where
  "into_effects_v1 cfg lib ts shared tx deps gas status gc epoch = do {
     gas_info \<leftarrow> (case smashed_gas_coin gc of
         Some coin_id \<Rightarrow> do {
           ob \<leftarrow> bt_get (written ts) coin_id;
           r \<leftarrow> compute_object_reference lib ob;
           Some (r, obj_owner ob)
         }
       | None \<Rightarrow> Some ((0, 0, object_digest_min), AddressOwner 0));
     (modified_at, mutated, created, unwrapped) \<leftarrow> classify_written lib ts (written ts);
     (deleted_at, deleted, wrapped) \<leftarrow> classify_removed lib ts (filter (\<lambda>i. bt_get (written ts) i = None) (modified ts));
     let unwrapped_then_deleted = map (\<lambda>i. (i, lamport_timestamp ts, OBJECT_DIGEST_DELETED))
       (filter (\<lambda>i. i \<notin> set (modified ts)) (deleted_ids ts));
     let inner = into_inner cfg ts;
     Some (inner, V1 \<lparr>e1_status = status, e1_executed_epoch = epoch, e1_gas_used = gas,
       e1_modified_at_versions = modified_at @ deleted_at, e1_shared_objects = shared, e1_transaction_digest = tx,
       e1_created = created, e1_mutated = mutated, e1_unwrapped = unwrapped, e1_deleted = deleted,
       e1_unwrapped_then_deleted = unwrapped_then_deleted, e1_wrapped = wrapped, e1_gas_object = gas_info,
       e1_events_digest = events_digest_of cfg inner, e1_dependencies = deps\<rparr>)
   }"

definition into_effects_v2 ::
  "effects_config \<Rightarrow> object_lib \<Rightarrow> temporary_store \<Rightarrow> shared_input list \<Rightarrow> tx_digest \<Rightarrow> tx_digest list \<Rightarrow> gas_cost_summary \<Rightarrow>
     execution_status \<Rightarrow> gas_charger \<Rightarrow> nat \<Rightarrow> (inner_temporary_store \<times> transaction_effects) option" where
  "into_effects_v2 cfg lib ts shared tx deps gas status gc epoch = do {
     changes \<leftarrow> get_object_changes lib ts;
     let inner = into_inner cfg ts;
     e \<leftarrow> effects_v2_new status epoch gas shared tx (lamport_timestamp ts) changes (smashed_gas_coin gc)
       (events_digest_of cfg inner) deps;
     Some (inner, V2 e)
   }"

text \<open>The dependency on the previous transaction of a received object.\<close>

definition received_dependency :: "temporary_store \<Rightarrow> object_ref \<Rightarrow> tx_digest list \<Rightarrow> tx_digest list" where
  "received_dependency ts r deps =
     (case r of (i, expected_version, expected_digest) \<Rightarrow>
        case bt_get (loaded_runtime_objects ts) i of
          Some md \<Rightarrow>
            if md_version md = expected_version \<and> md_digest md = expected_digest \<and> is_address_owned (md_owner md)
            then bs_insert (md_previous_transaction md) deps else deps
        | None \<Rightarrow> deps)"

fun existing_ref :: "shared_input \<Rightarrow> object_ref option" where
  "existing_ref (SharedExisting r) = Some r"
| "existing_ref (SharedDeleted _ _ _ _) = None"

definition into_effects ::
  "effects_config \<Rightarrow> object_lib \<Rightarrow> temporary_store \<Rightarrow> shared_input list \<Rightarrow> tx_digest \<Rightarrow> tx_digest list \<Rightarrow> gas_cost_summary \<Rightarrow>
     execution_status \<Rightarrow> gas_charger \<Rightarrow> nat \<Rightarrow> (inner_temporary_store \<times> transaction_effects) option" where
  "into_effects cfg lib ts shared tx deps gas status gc epoch = do {
     ts \<leftarrow> update_object_version_and_prev_tx ts;
     let deps = fold (received_dependency ts) (receiving_objects ts) deps;
     if enable_effects_v2 cfg then into_effects_v2 cfg lib ts shared tx deps gas status gc epoch
     else do {
       refs \<leftarrow> map_opt existing_ref shared;
       into_effects_v1 cfg lib ts refs tx deps gas status gc epoch
     }
   }"

end
