(* ===== verification/EffectsAgree.thy ===== *)
theory EffectsAgree
  imports Effects "HOL-Library.Multiset"
begin

text \<open>
  Both versions of the effects say the same of a transaction: every list that version 1 builds while it
  walks over the store is what version 2 derives from the states of the changed objects.
\<close>

section \<open>Ordered lists\<close>

lemma filter_sorted_subset:
  fixes xs ys :: "'a :: linorder list"
  assumes "sorted_wrt (<) xs" "sorted_wrt (<) ys" "set xs \<subseteq> set ys"
  shows "filter (\<lambda>i. i \<in> set xs) ys = xs"
proof (rule strict_sorted_equal)
  show "sorted_wrt (<) (filter (\<lambda>i. i \<in> set xs) ys)" using assms(2) by (rule sorted_wrt_filter)
qed (use assms in auto)

lemma map_filter_outside:
  assumes "\<And>i. i \<in> set ys \<Longrightarrow> \<not> P i \<Longrightarrow> f i = None"
  shows "List.map_filter f ys = List.map_filter f (filter P ys)"
  using assms by (induction ys) (auto simp: List.map_filter_simps split: option.splits)

lemma map_filter_sorted:
  fixes xs ys :: "'a :: linorder list"
  assumes "sorted_wrt (<) xs" "sorted_wrt (<) ys" "set xs \<subseteq> set ys"
    and "\<And>i. i \<in> set ys \<Longrightarrow> i \<notin> set xs \<Longrightarrow> f i = None"
  shows "List.map_filter f ys = List.map_filter f xs"
proof -
  have "List.map_filter f ys = List.map_filter f (filter (\<lambda>i. i \<in> set xs) ys)"
    by (rule map_filter_outside) (use assms(4) in blast)
  then show ?thesis by (simp only: filter_sorted_subset [OF assms(1-3)])
qed

lemma map_filter_map: "List.map_filter f (map g xs) = List.map_filter (\<lambda>x. f (g x)) xs"
  by (induction xs) (auto simp: List.map_filter_simps split: option.splits)

lemma map_filter_cong: "(\<And>x. x \<in> set xs \<Longrightarrow> f x = g x) \<Longrightarrow> List.map_filter f xs = List.map_filter g xs"
  by (induction xs) (auto simp: List.map_filter_simps split: option.splits)

lemma bt_insert_last: "\<forall>e \<in> set m. fst e < k \<Longrightarrow> bt_insert k v m = m @ [(k, v)]"
  by (induction m) auto

lemma bt_collect_sorted: "keys_sorted xs \<Longrightarrow> bt_collect xs = xs"
proof (induction xs rule: rev_induct)
  case (snoc e xs)
  obtain k v where e: "e = (k, v)" by (cases e)
  have "\<forall>e \<in> set xs. fst e < k" using snoc.prems by (auto simp: e sorted_wrt_append)
  with snoc show ?case by (simp add: e bt_collect_def bt_insert_last sorted_wrt_append)
qed (simp add: bt_collect_def)

section \<open>Stores whose effects can be written\<close>

text \<open>
  What \<^verbatim>\<open>check_execution_results_consistency\<close> and the debug assertions of the store state of a finished
  transaction; packages are immutable, and they are created or, for system packages, modified.
\<close>

definition effects_ok :: "temporary_store \<Rightarrow> bool" where
  "effects_ok ts \<longleftrightarrow>
     store_ok ts \<and> sorted_wrt (<) (created_ids ts) \<and> sorted_wrt (<) (deleted_ids ts) \<and>
     (\<forall>i \<in> set (created_ids ts). i \<notin> set (deleted_ids ts) \<and> i \<notin> set (modified ts)) \<and>
     (\<forall>i \<in> set (deleted_ids ts). i \<notin> fst ` set (written ts)) \<and>
     (\<forall>(k, ob) \<in> set (written ts). is_package ob \<longrightarrow>
        obj_owner ob = Immutable \<and> (k \<in> set (created_ids ts) \<or> k \<in> set (modified ts)))"

definition versioned :: "temporary_store \<Rightarrow> bool" where
  "versioned ts \<longleftrightarrow> (\<forall>(k, ob) \<in> set (written ts). \<not> is_package ob \<longrightarrow> object_version ob = lamport_timestamp ts)"

lemma update_written_frame:
  assumes "update_written r v tx (k, ob) = Some (k', ob')"
  shows "k' = k" "object_id_of ob' = object_id_of ob" "is_package ob' = is_package ob"
    "obj_owner ob = Immutable \<Longrightarrow> obj_owner ob' = Immutable" "\<not> is_package ob \<Longrightarrow> object_version ob' = v"
  using assms unfolding update_written_def
  by (auto elim!: bind_SomeE simp: object_id_of_def move_id_def is_package_def object_version_def
      split: object_data.splits owner.splits if_splits)

lemma update_effects_ok:
  assumes "effects_ok ts" and run: "update_object_version_and_prev_tx ts = Some ts'"
  shows "effects_ok ts'" "versioned ts'" "same_inputs ts ts'" "all_changed_ids ts' = all_changed_ids ts"
    "\<And>k ob'. (k, ob') \<in> set (written ts') \<Longrightarrow> \<exists>ob. (k, ob) \<in> set (written ts) \<and> is_package ob' = is_package ob"
proof -
  let ?u = "update_written (execution_results ts) (lamport_timestamp ts) (ts_tx_digest ts)"
  obtain w where w: "map_opt ?u (written ts) = Some w"
    and ts': "ts' = ts\<lparr>execution_results := execution_results ts\<lparr>written_objects := w\<rparr>\<rparr>"
    using run unfolding update_object_version_and_prev_tx_def update_version_and_previous_tx_def
    by (auto elim!: bind_SomeE)
  have w1: "\<forall>e \<in> set (written ts). ?u e \<noteq> None" "w = map (the \<circ> ?u) (written ts)"
    using w unfolding map_opt_Some_iff by blast+
  have step: "fst (the (?u e)) = fst e \<and> object_id_of (snd (the (?u e))) = object_id_of (snd e) \<and>
      is_package (snd (the (?u e))) = is_package (snd e) \<and>
      (obj_owner (snd e) = Immutable \<longrightarrow> obj_owner (snd (the (?u e))) = Immutable) \<and>
      (\<not> is_package (snd e) \<longrightarrow> object_version (snd (the (?u e))) = lamport_timestamp ts)" if mem: "e \<in> set (written ts)" for e
  proof -
    have "?u e \<noteq> None" using w1(1) mem by (rule bspec)
    then obtain x where "?u e = Some x" by blast
    moreover obtain k' ob' where "x = (k', ob')" by (cases x)
    moreover obtain k ob where "e = (k, ob)" by (cases e)
    ultimately have e: "e = (k, ob)" "?u e = Some (k', ob')" by blast+
    from update_written_frame [OF e(2) [unfolded e(1)]] show ?thesis unfolding e(2) unfolding e(1) by simp
  qed
  have keys: "map fst w = map fst (written ts)" unfolding w1(2) using step by (simp cong: map_cong)
  have set_w: "set w = (\<lambda>e. the (?u e)) ` set (written ts)" using w1(2) by (simp add: comp_def)
  have old: "\<And>e. e \<in> set (written ts) \<Longrightarrow> object_id_of (snd e) = Some (fst e)"
    "\<And>e. e \<in> set (written ts) \<Longrightarrow> is_package (snd e) \<Longrightarrow>
       obj_owner (snd e) = Immutable \<and> (fst e \<in> set (created_ids ts) \<or> fst e \<in> set (modified ts))"
    using assms(1) unfolding effects_ok_def store_ok_def by auto
  have "\<forall>e \<in> set w. object_id_of (snd e) = Some (fst e)"
    unfolding set_w using old(1) step by simp
  then have "store_ok ts'" using assms(1) keys by (simp add: effects_ok_def store_ok_def ts' case_prod_beta')
  moreover have "\<forall>e \<in> set w. is_package (snd e) \<longrightarrow>
      obj_owner (snd e) = Immutable \<and> (fst e \<in> set (created_ids ts) \<or> fst e \<in> set (modified ts))"
    unfolding set_w using old(2) step by simp
  moreover have "fst ` set w = fst ` set (written ts)" using keys by (metis set_map)
  ultimately show "effects_ok ts'" using assms(1) by (simp add: effects_ok_def ts' case_prod_beta')
  have "\<forall>e \<in> set w. \<not> is_package (snd e) \<longrightarrow> object_version (snd e) = lamport_timestamp ts"
    unfolding set_w using step by simp
  then show "versioned ts'" by (simp add: versioned_def ts' case_prod_beta')
  show "same_inputs ts ts'" by (simp add: same_inputs_def ts')
  show "all_changed_ids ts' = all_changed_ids ts" using keys by (simp add: all_changed_ids_def ts')
  show "\<exists>ob. (k, ob) \<in> set (written ts) \<and> is_package ob' = is_package ob" if new: "(k, ob') \<in> set (written ts')" for k ob'
  proof -
    obtain e where e: "e \<in> set (written ts)" "the (?u e) = (k, ob')" using new unfolding ts' by (auto simp: set_w)
    from step [OF e(1)] e show ?thesis by (metis fst_conv prod.collapse snd_conv)
  qed
qed

section \<open>The changes of a store\<close>

definition change_of :: "object_lib \<Rightarrow> temporary_store \<Rightarrow> object_id \<Rightarrow> effects_object_change" where
  "change_of lib ts i =
     effects_object_change_new lib
       (if i \<in> set (modified ts)
        then map_option (\<lambda>md. ((md_version md, md_digest md), md_owner md)) (original lib ts i) else None)
       (bt_get (written ts) i) (i \<in> set (created_ids ts)) (i \<in> set (deleted_ids ts))"

lemma all_changed_ids:
  "sorted_wrt (<) (all_changed_ids ts)"
  "set (all_changed_ids ts) =
     set (created_ids ts) \<union> set (deleted_ids ts) \<union> set (modified ts) \<union> fst ` set (written ts)"
  by (auto simp: all_changed_ids_def)

lemma get_object_changes_Some:
  assumes "get_object_changes lib ts = Some changes"
  shows "changes = map (\<lambda>i. (i, change_of lib ts i)) (all_changed_ids ts)"
    "\<forall>i \<in> set (modified ts). original lib ts i \<noteq> None"
proof -
  obtain cs where cs: "map_opt (object_change_of lib ts) (all_changed_ids ts) = Some cs" "changes = bt_collect cs"
    using assms unfolding get_object_changes_def by (auto elim!: bind_SomeE)
  have c: "\<forall>i \<in> set (all_changed_ids ts). object_change_of lib ts i \<noteq> None"
    "cs = map (the \<circ> object_change_of lib ts) (all_changed_ids ts)"
    using cs(1) unfolding map_opt_Some_iff by blast+
  show orig: "\<forall>i \<in> set (modified ts). original lib ts i \<noteq> None"
  proof
    fix i assume i: "i \<in> set (modified ts)"
    then have "object_change_of lib ts i \<noteq> None" using c(1) all_changed_ids(2) by blast
    with i show "original lib ts i \<noteq> None"
      by (cases "original lib ts i") (simp_all add: object_change_of_def get_object_modified_at_original)
  qed
  have "object_change_of lib ts i = Some (i, change_of lib ts i)" for i
    using orig by (auto simp: object_change_of_def get_object_modified_at_original change_of_def)
  then have "cs = map (\<lambda>i. (i, change_of lib ts i)) (all_changed_ids ts)" using c(2) by simp
  moreover have "keys_sorted (map (\<lambda>i. (i, change_of lib ts i)) (all_changed_ids ts))"
    using all_changed_ids(1) by (simp add: comp_def)
  ultimately show "changes = map (\<lambda>i. (i, change_of lib ts i)) (all_changed_ids ts)"
    using cs(2) by (simp add: bt_collect_sorted)
qed

text \<open>What version 1 collects, as filters of the same ordered lists.\<close>

definition ref_of :: "object_lib \<Rightarrow> object_id \<times> object \<Rightarrow> object_ref \<times> owner" where
  "ref_of lib e = ((fst e, object_version (snd e), object_hash lib (snd e)), obj_owner (snd e))"

lemma classify_written_Some:
  assumes "classify_written lib ts w = Some (modified_at, mutated, created, unwrapped)"
    and "\<forall>(k, ob) \<in> set w. object_id_of ob = Some k" and orig: "\<forall>i \<in> set (modified ts). original lib ts i \<noteq> None"
  shows "modified_at = List.map_filter (\<lambda>e. if fst e \<in> set (modified ts)
      then Some (fst e, md_version (the (original lib ts (fst e)))) else None) w \<and>
    mutated = List.map_filter (\<lambda>e. if fst e \<in> set (modified ts) then Some (ref_of lib e) else None) w \<and>
    created = List.map_filter (\<lambda>e. if fst e \<notin> set (modified ts) \<and> fst e \<in> set (created_ids ts)
      then Some (ref_of lib e) else None) w \<and>
    unwrapped = List.map_filter (\<lambda>e. if fst e \<notin> set (modified ts) \<and> fst e \<notin> set (created_ids ts)
      then Some (ref_of lib e) else None) w"
  using assms(1,2)
proof (induction w arbitrary: modified_at mutated created unwrapped)
  case (Cons e w)
  obtain k ob where e: "e = (k, ob)" by (cases e)
  have found: "get_object_modified_at lib ts k = Some (if k \<in> set (modified ts) then original lib ts k else None)"
    using orig by (auto simp: get_object_modified_at_original)
  obtain md where md: "k \<in> set (modified ts) \<Longrightarrow> original lib ts k = Some md" using orig by blast
  have r: "compute_object_reference lib ob = Some (fst (ref_of lib e))"
    using Cons.prems(2) by (simp add: e compute_object_reference_def ref_of_def)
  obtain ma mu cr un where rest: "classify_written lib ts w = Some (ma, mu, cr, un)"
    and out: "(if k \<in> set (modified ts)
        then ((k, md_version md) # ma, ref_of lib e # mu, cr, un)
        else if k \<in> set (created_ids ts) then (ma, mu, ref_of lib e # cr, un) else (ma, mu, cr, ref_of lib e # un)) =
      (modified_at, mutated, created, unwrapped)"
    using Cons.prems(1) md
    by (cases "k \<in> set (modified ts)") (auto simp: e r found ref_of_def elim!: bind_SomeE split: if_splits)
  have ids: "\<forall>(k, ob) \<in> set w. object_id_of ob = Some k" using Cons.prems(2) by simp
  show ?case
    using Cons.IH [OF rest ids] out md by (cases "k \<in> set (modified ts)"; cases "k \<in> set (created_ids ts)")
      (simp_all add: List.map_filter_simps e)
qed (simp add: List.map_filter_simps)

lemma classify_removed_Some:
  assumes "classify_removed lib ts xs = Some (deleted_at, deleted, wrapped)" and "set xs \<subseteq> set (modified ts)"
  shows "deleted_at = map (\<lambda>i. (i, md_version (the (original lib ts i)))) xs \<and>
    deleted = List.map_filter (\<lambda>i. if i \<in> set (deleted_ids ts)
      then Some (i, lamport_timestamp ts, OBJECT_DIGEST_DELETED) else None) xs \<and>
    wrapped = List.map_filter (\<lambda>i. if i \<notin> set (deleted_ids ts)
      then Some (i, lamport_timestamp ts, OBJECT_DIGEST_WRAPPED) else None) xs"
  using assms
proof (induction xs arbitrary: deleted_at deleted wrapped)
  case (Cons i xs)
  obtain md da de wr where md: "original lib ts i = Some md" and rest: "classify_removed lib ts xs = Some (da, de, wr)"
    and out: "(if i \<in> set (deleted_ids ts)
        then ((i, md_version md) # da, (i, lamport_timestamp ts, OBJECT_DIGEST_DELETED) # de, wr)
        else ((i, md_version md) # da, de, (i, lamport_timestamp ts, OBJECT_DIGEST_WRAPPED) # wr)) =
      (deleted_at, deleted, wrapped)"
    using Cons.prems by (auto simp: get_object_modified_at_original elim!: bind_SomeE)
  have sub: "set xs \<subseteq> set (modified ts)" using Cons.prems(2) by simp
  show ?case
    using Cons.IH [OF rest sub] out md by (cases "i \<in> set (deleted_ids ts)") (simp_all add: List.map_filter_simps)
qed (simp add: List.map_filter_simps)

section \<open>Agreement\<close>

lemma map_filter_written:
  assumes ok: "store_ok ts" and sub: "fst ` set (written ts) \<subseteq> set ids" and srt: "sorted_wrt (<) ids"
    and F: "\<And>i. i \<in> set ids \<Longrightarrow> F i = (if P i then map_option (\<lambda>ob. g (i, ob)) (bt_get (written ts) i) else None)"
  shows "List.map_filter F ids = List.map_filter (\<lambda>e. if P (fst e) then Some (g e) else None) (written ts)"
proof -
  have keys: "sorted_wrt (<) (map fst (written ts))" using ok by (simp add: store_ok_def)
  have get: "bt_get (written ts) (fst e) = Some (snd e)" if "e \<in> set (written ts)" for e
    using bt_get_in_set [OF keys] that by (cases e) simp
  have "List.map_filter F ids = List.map_filter F (map fst (written ts))"
    by (rule map_filter_sorted [OF keys srt]) (use sub F in \<open>auto simp: bt_get_None_iff\<close>)
  also have "\<dots> = List.map_filter (\<lambda>e. F (fst e)) (written ts)" by (rule map_filter_map)
  also have "\<dots> = List.map_filter (\<lambda>e. if P (fst e) then Some (g e) else None) (written ts)"
  proof (rule map_filter_cong)
    fix e assume e: "e \<in> set (written ts)"
    then have "fst e \<in> set ids" using sub by auto
    from F [OF this] get [OF e] show "F (fst e) = (if P (fst e) then Some (g e) else None)" by simp
  qed
  finally show ?thesis .
qed

text \<open>What the version 2 accessors read of one change.\<close>

lemma change_of_input:
  assumes "\<forall>i \<in> set (modified ts). original lib ts i \<noteq> None"
  shows "input_state (change_of lib ts i) =
    (if i \<in> set (modified ts)
     then InExist (md_version (the (original lib ts i)), md_digest (the (original lib ts i))) (md_owner (the (original lib ts i)))
     else InNotExist)"
  using assms by (auto simp: change_of_def effects_object_change_new_def)

lemma change_of_output:
  "output_state (change_of lib ts i) =
    (case bt_get (written ts) i of
       None \<Rightarrow> OutNotExist
     | Some ob \<Rightarrow> if is_package ob then PackageWrite (object_version ob) (object_hash lib ob)
                 else ObjectWrite (object_hash lib ob) (obj_owner ob))"
  by (simp add: change_of_def effects_object_change_new_def)

lemma change_of_operation:
  "change_id_operation (change_of lib ts i) =
    (if i \<in> set (created_ids ts) then IDCreated else if i \<in> set (deleted_ids ts) then IDDeleted else IDNone)"
  by (simp add: change_of_def effects_object_change_new_def)

lemma written_ref:
  assumes "effects_ok ts" "versioned ts" "bt_get (written ts) i = Some ob"
  shows "ref_of lib (i, ob) =
    (if is_package ob then ((i, object_version ob, object_hash lib ob), Immutable)
     else ((i, lamport_timestamp ts, object_hash lib ob), obj_owner ob))"
    "is_package ob \<Longrightarrow> i \<in> set (created_ids ts) \<or> i \<in> set (modified ts)"
    "i \<notin> set (deleted_ids ts)"
proof -
  have mem: "(i, ob) \<in> set (written ts)"
    using assms(1,3) bt_get_in_set [of "written ts" i ob] by (simp add: effects_ok_def store_ok_def)
  then show "ref_of lib (i, ob) =
    (if is_package ob then ((i, object_version ob, object_hash lib ob), Immutable)
     else ((i, lamport_timestamp ts, object_hash lib ob), obj_owner ob))"
    "is_package ob \<Longrightarrow> i \<in> set (created_ids ts) \<or> i \<in> set (modified ts)"
    using assms(1,2) unfolding effects_ok_def versioned_def ref_of_def by auto
  show "i \<notin> set (deleted_ids ts)" using mem assms(1) unfolding effects_ok_def by force
qed

lemma effects_lists_agree:
  assumes ok: "effects_ok ts" "versioned ts" and orig: "\<forall>i \<in> set (modified ts). original lib ts i \<noteq> None"
    and e2: "changed_objects e = map (\<lambda>i. (i, change_of lib ts i)) (all_changed_ids ts)"
      "e2_lamport_version e = lamport_timestamp ts"
  shows "created_v2 e = List.map_filter (\<lambda>e. if fst e \<notin> set (modified ts) \<and> fst e \<in> set (created_ids ts)
      then Some (ref_of lib e) else None) (written ts)"
    "mutated_v2 e = List.map_filter (\<lambda>e. if fst e \<in> set (modified ts) then Some (ref_of lib e) else None) (written ts)"
    "unwrapped_v2 e = List.map_filter (\<lambda>e. if fst e \<notin> set (modified ts) \<and> fst e \<notin> set (created_ids ts)
      then Some (ref_of lib e) else None) (written ts)"
proof -
  have st: "store_ok ts" using ok(1) by (simp add: effects_ok_def)
  have sub: "fst ` set (written ts) \<subseteq> set (all_changed_ids ts)" by (simp add: all_changed_ids(2))
  note state = change_of_input [OF orig] change_of_output change_of_operation e2
  note by_written = map_filter_written [OF st sub all_changed_ids(1)]
  show "created_v2 e = List.map_filter (\<lambda>e. if fst e \<notin> set (modified ts) \<and> fst e \<in> set (created_ids ts)
      then Some (ref_of lib e) else None) (written ts)"
    unfolding created_v2_def e2(1) map_filter_map
    by (rule by_written) (auto simp: state written_ref(1) [OF ok] split: option.splits)
  show "mutated_v2 e = List.map_filter (\<lambda>e. if fst e \<in> set (modified ts) then Some (ref_of lib e) else None) (written ts)"
    unfolding mutated_v2_def e2(1) map_filter_map
    by (rule by_written) (auto simp: state written_ref(1) [OF ok] split: option.splits)
  show "unwrapped_v2 e = List.map_filter (\<lambda>e. if fst e \<notin> set (modified ts) \<and> fst e \<notin> set (created_ids ts)
      then Some (ref_of lib e) else None) (written ts)"
    unfolding unwrapped_v2_def e2(1) map_filter_map
    by (rule by_written) (auto simp: state written_ref(1) [OF ok] dest: written_ref(2,3) [OF ok] split: option.splits)
qed

lemma map_filter_if: "List.map_filter (\<lambda>i. if P i then Some (f i) else None) xs = map f (filter P xs)"
  by (induction xs) (simp_all add: List.map_filter_simps)

lemma removed_lists_agree:
  assumes ok: "effects_ok ts" and orig: "\<forall>i \<in> set (modified ts). original lib ts i \<noteq> None"
    and e2: "changed_objects e = map (\<lambda>i. (i, change_of lib ts i)) (all_changed_ids ts)"
      "e2_lamport_version e = lamport_timestamp ts"
  defines "gone \<equiv> filter (\<lambda>i. bt_get (written ts) i = None) (modified ts)"
  shows "deleted_v2 e = List.map_filter (\<lambda>i. if i \<in> set (deleted_ids ts)
      then Some (i, lamport_timestamp ts, OBJECT_DIGEST_DELETED) else None) gone"
    "wrapped_v2 e = List.map_filter (\<lambda>i. if i \<notin> set (deleted_ids ts)
      then Some (i, lamport_timestamp ts, OBJECT_DIGEST_WRAPPED) else None) gone"
    "unwrapped_then_deleted_v2 e = map (\<lambda>i. (i, lamport_timestamp ts, OBJECT_DIGEST_DELETED))
      (filter (\<lambda>i. i \<notin> set (modified ts)) (deleted_ids ts))"
    "modified_at_versions_v2 e = map (\<lambda>i. (i, md_version (the (original lib ts i)))) (modified ts)"
proof -
  note state = change_of_input [OF orig] change_of_output change_of_operation e2
  have srt: "sorted_wrt (<) (modified ts)" "sorted_wrt (<) (deleted_ids ts)"
    and created: "\<And>i. i \<in> set (created_ids ts) \<Longrightarrow> i \<notin> set (deleted_ids ts) \<and> i \<notin> set (modified ts)"
    and gone_del: "\<And>i. i \<in> set (deleted_ids ts) \<Longrightarrow> bt_get (written ts) i = None"
    using ok by (auto simp: effects_ok_def store_ok_def bt_get_None_iff)
  have sub: "set (modified ts) \<subseteq> set (all_changed_ids ts)" "set (deleted_ids ts) \<subseteq> set (all_changed_ids ts)"
    by (auto simp: all_changed_ids(2))
  note over = map_filter_sorted [OF srt(1) all_changed_ids(1) sub(1)] map_filter_sorted [OF srt(2) all_changed_ids(1) sub(2)]
  have only_gone: "List.map_filter F (modified ts) = List.map_filter F gone"
    if "\<And>i. bt_get (written ts) i \<noteq> None \<Longrightarrow> F i = None" for F :: "object_id \<Rightarrow> object_ref option"
    unfolding gone_def by (rule map_filter_outside) (use that in blast)
  show "deleted_v2 e = List.map_filter (\<lambda>i. if i \<in> set (deleted_ids ts)
      then Some (i, lamport_timestamp ts, OBJECT_DIGEST_DELETED) else None) gone"
    unfolding deleted_v2_def e2(1) map_filter_map
    by (subst over(1), simp add: state, subst only_gone, auto simp: state split: option.splits)
      (rule map_filter_cong, auto simp: state gone_def dest: created)
  show "wrapped_v2 e = List.map_filter (\<lambda>i. if i \<notin> set (deleted_ids ts)
      then Some (i, lamport_timestamp ts, OBJECT_DIGEST_WRAPPED) else None) gone"
    unfolding wrapped_v2_def e2(1) map_filter_map
    by (subst over(1), simp add: state, subst only_gone, auto simp: state split: option.splits)
      (rule map_filter_cong, auto simp: state gone_def dest: created)
  show "unwrapped_then_deleted_v2 e = map (\<lambda>i. (i, lamport_timestamp ts, OBJECT_DIGEST_DELETED))
      (filter (\<lambda>i. i \<notin> set (modified ts)) (deleted_ids ts))"
    unfolding unwrapped_then_deleted_v2_def e2(1) map_filter_map map_filter_if [symmetric]
    by (subst over(2), auto simp: state split: option.splits)
      (rule map_filter_cong, auto simp: state gone_del dest: created)
  show "modified_at_versions_v2 e = map (\<lambda>i. (i, md_version (the (original lib ts i)))) (modified ts)"
  proof -
    have "map (\<lambda>i. (i, md_version (the (original lib ts i)))) (modified ts) =
        List.map_filter (\<lambda>i. if i \<in> set (modified ts) then Some (i, md_version (the (original lib ts i))) else None) (modified ts)"
      unfolding map_filter_if by (simp add: filter_True)
    then show ?thesis
      unfolding modified_at_versions_v2_def e2(1) map_filter_map
      by (subst over(1), auto simp: state) (rule map_filter_cong, auto simp: state)
  qed
qed

text \<open>The versions the objects were modified at, in another order.\<close>

lemma modified_at_agree:
  assumes "effects_ok ts"
  shows "mset (List.map_filter (\<lambda>e. if fst e \<in> set (modified ts) then Some (g (fst e)) else None) (written ts) @
      map g (filter (\<lambda>i. bt_get (written ts) i = None) (modified ts))) = mset (map g (modified ts))"
proof -
  let ?k = "map fst (written ts)"
  have srt: "sorted_wrt (<) ?k" "sorted_wrt (<) (modified ts)" using assms(1) by (simp_all add: effects_ok_def store_ok_def)
  have a: "filter (\<lambda>i. i \<in> set (modified ts)) ?k = filter (\<lambda>i. bt_get (written ts) i \<noteq> None) (modified ts)"
    by (rule strict_sorted_equal)
      (use srt in \<open>auto simp: sorted_wrt_filter bt_get_None_iff simp flip: filter_map [unfolded comp_def]\<close>)
  have b: "List.map_filter (\<lambda>e. if fst e \<in> set (modified ts) then Some (g (fst e)) else None) (written ts) =
      map g (filter (\<lambda>i. i \<in> set (modified ts)) ?k)"
    using map_filter_if [of "\<lambda>i. i \<in> set (modified ts)" g ?k] unfolding map_filter_map by simp
  have c: "mset (map g (filter P (modified ts)) @ map g (filter (\<lambda>i. \<not> P i) (modified ts))) = mset (map g (modified ts))" for P
    by (simp flip: image_mset_union)
  show ?thesis unfolding b a using c [of "\<lambda>i. bt_get (written ts) i \<noteq> None"] by simp
qed

lemma position_ids:
  "position (\<lambda>(i, _). i = gid) (map (\<lambda>i. (i, c i)) ids) = Some k \<Longrightarrow> k < length ids \<and> ids ! k = gid"
  by (induction ids arbitrary: k) (auto split: if_splits)

lemma gas_object_agree:
  assumes ok: "effects_ok ts" "versioned ts" and get: "bt_get (written ts) gid = Some ob" and mv: "\<not> is_package ob"
    and e2: "effects_v2_new status epoch gas shared tx (lamport_timestamp ts)
      (map (\<lambda>i. (i, change_of lib ts i)) (all_changed_ids ts)) (Some gid) events deps = Some e"
    and short: "length (all_changed_ids ts) < 2 ^ 32"
  shows "gas_object_v2 e = Some (ref_of lib (gid, ob))"
proof -
  obtain k where k: "position (\<lambda>(i, _). i = gid) (map (\<lambda>i. (i, change_of lib ts i)) (all_changed_ids ts)) = Some k"
    and e: "e2_gas_object_index e = Some (k mod 2 ^ 32)" "e2_lamport_version e = lamport_timestamp ts"
      "changed_objects e = map (\<lambda>i. (i, change_of lib ts i)) (all_changed_ids ts)"
    using e2 unfolding effects_v2_new_def by (auto elim!: bind_SomeE)
  from position_ids [OF k] have k1: "k < length (all_changed_ids ts)" "all_changed_ids ts ! k = gid" by blast+
  then have "k mod 2 ^ 32 = k" using short by simp
  with k1 e have "index (changed_objects e) (k mod 2 ^ 32) = Some (gid, change_of lib ts gid)" by (simp add: index_def)
  with e written_ref(1) [OF ok get, of lib] mv get show ?thesis
    by (simp add: gas_object_v2_def change_of_output)
qed

lemma effects_v2_new_Some:
  assumes "effects_v2_new status epoch gas shared tx lamport changed gas_object events deps = Some e"
  shows "changed_objects e = changed" "e2_lamport_version e = lamport" "gas_object = None \<Longrightarrow> e2_gas_object_index e = None"
  using assms unfolding effects_v2_new_def by (auto elim!: bind_SomeE)

text \<open>The two versions of the effects of one store.\<close>

lemma into_effects_agree:
  assumes ok: "effects_ok ts" "versioned ts" and short: "length (all_changed_ids ts) < 2 ^ 32"
    and coin: "\<And>k ob. (k, ob) \<in> set (written ts) \<Longrightarrow> smashed_gas_coin gc = Some k \<Longrightarrow> \<not> is_package ob"
    and r1: "into_effects_v1 cfg lib ts refs tx deps gas status gc epoch = Some (inner1, e1)"
    and r2: "into_effects_v2 cfg' lib ts shared tx deps gas status gc epoch = Some (inner2, e2)"
  shows "effects_created e2 = effects_created e1" "effects_mutated e2 = effects_mutated e1"
    "effects_unwrapped e2 = effects_unwrapped e1" "effects_deleted e2 = effects_deleted e1"
    "effects_unwrapped_then_deleted e2 = effects_unwrapped_then_deleted e1" "effects_wrapped e2 = effects_wrapped e1"
    "mset (effects_modified_at_versions e2) = mset (effects_modified_at_versions e1)"
    "effects_gas_object e2 = effects_gas_object e1"
proof -
  obtain changes v2 where changes: "get_object_changes lib ts = Some changes" and
    v2: "effects_v2_new status epoch gas shared tx (lamport_timestamp ts) changes (smashed_gas_coin gc)
      (events_digest_of cfg' (into_inner cfg' ts)) deps = Some v2" and e2: "e2 = V2 v2"
    using r2 unfolding into_effects_v2_def by (auto elim!: bind_SomeE simp: Let_def)
  note c = get_object_changes_Some [OF changes]
  note f = effects_v2_new_Some [OF v2]
  let ?gone = "filter (\<lambda>i. bt_get (written ts) i = None) (modified ts)"
  obtain gi ma mu cr un da de wr v1 where gi: "(case smashed_gas_coin gc of
         Some coin_id \<Rightarrow> do {
           ob \<leftarrow> bt_get (written ts) coin_id;
           r \<leftarrow> compute_object_reference lib ob;
           Some (r, obj_owner ob)
         }
       | None \<Rightarrow> Some ((0, 0, object_digest_min), AddressOwner 0)) = Some gi"
    and cw: "classify_written lib ts (written ts) = Some (ma, mu, cr, un)"
    and cr: "classify_removed lib ts ?gone = Some (da, de, wr)" and e1: "e1 = V1 v1"
    and v1: "e1_created v1 = cr" "e1_mutated v1 = mu" "e1_unwrapped v1 = un" "e1_deleted v1 = de" "e1_wrapped v1 = wr"
      "e1_unwrapped_then_deleted v1 = map (\<lambda>i. (i, lamport_timestamp ts, OBJECT_DIGEST_DELETED))
        (filter (\<lambda>i. i \<notin> set (modified ts)) (deleted_ids ts))"
      "e1_modified_at_versions v1 = ma @ da" "e1_gas_object v1 = gi"
    using r1 unfolding into_effects_v1_def by (auto elim!: bind_SomeE simp: Let_def)
  have ids: "\<forall>(k, ob) \<in> set (written ts). object_id_of ob = Some k" using ok(1) by (simp add: effects_ok_def store_ok_def)
  note w = classify_written_Some [OF cw ids c(2)]
  note g = classify_removed_Some [OF cr filter_is_subset]
  note l = effects_lists_agree [OF ok c(2) f(1) [unfolded c(1)] f(2)]
  note m = removed_lists_agree [OF ok(1) c(2) f(1) [unfolded c(1)] f(2)]
  show "effects_created e2 = effects_created e1" "effects_mutated e2 = effects_mutated e1"
    "effects_unwrapped e2 = effects_unwrapped e1" "effects_deleted e2 = effects_deleted e1"
    "effects_unwrapped_then_deleted e2 = effects_unwrapped_then_deleted e1" "effects_wrapped e2 = effects_wrapped e1"
    using w g l m v1 by (simp_all add: e1 e2)
  show "mset (effects_modified_at_versions e2) = mset (effects_modified_at_versions e1)"
    using w g m(4) v1(7) modified_at_agree [OF ok(1), of "\<lambda>i. (i, md_version (the (original lib ts i)))"] by (simp add: e1 e2)
  show "effects_gas_object e2 = effects_gas_object e1"
  proof (cases "smashed_gas_coin gc")
    case None
    with gi f(3) v1(8) show ?thesis by (simp add: e1 e2 gas_object_v2_def)
  next
    case (Some gid)
    with gi obtain ob where ob: "bt_get (written ts) gid = Some ob" "gi = ref_of lib (gid, ob)"
      using store_ok_written [of ts gid] ok(1)
      by (auto simp: compute_object_reference_def ref_of_def effects_ok_def elim!: bind_SomeE)
    have "(gid, ob) \<in> set (written ts)" using ob(1) ok(1) bt_get_in_set by (fastforce simp: effects_ok_def store_ok_def)
    from gas_object_agree [OF ok ob(1) coin [OF this Some] v2 [unfolded c(1) Some] short] ob(2) v1(8)
    show ?thesis by (simp add: e1 e2)
  qed
qed

end
