(* ===== verification/Ownership.thy ===== *)
theory Ownership
  imports GasCharger StoreAccounting
begin

text \<open>
  The ownership check after an execution (\<^verbatim>\<open>TemporaryStore::check_ownership_invariants\<close> of
  \<^verbatim>\<open>sui-execution/latest/sui-adapter/src/temporary_store.rs\<close>): every modified object must be owned, through any chain of
  parents, by an input the transaction was authorised to change. The loop follows parents and may
  run forever in principle, so it is a partial function; that it returns is a theorem.
\<close>

section \<open>Model\<close>

text \<open>
  One input object: an entry of the authenticated set, or nothing; the outer option is the failed assertion and
  the unreachable case.
\<close>

definition authenticated_input ::
  "sui_address \<Rightarrow> object_id list \<Rightarrow> object_id list \<Rightarrow> object_id \<times> object \<Rightarrow> object_id option option" where
  "authenticated_input sender gas_objs mutable_ids e =
     (case e of (i, ob) \<Rightarrow>
        if i \<in> set gas_objs then Some None
        else do {
          found \<leftarrow> (case obj_owner ob of
              AddressOwner a \<Rightarrow> do { rust_assert (sender = a); Some (Some i) }
            | Shared _ \<Rightarrow> Some (Some i)
            | Immutable \<Rightarrow> Some None
            | ObjectOwner _ \<Rightarrow> None);
          Some (case found of Some i \<Rightarrow> if i \<in> set mutable_ids then Some i else None | None \<Rightarrow> None)
        })"

definition authenticated_inputs ::
  "temporary_store \<Rightarrow> sui_address \<Rightarrow> object_id list \<Rightarrow> object_id list \<Rightarrow> object_id list option" where
  "authenticated_inputs ts sender gas_objs mutable_ids = do {
     found \<leftarrow> map_opt (authenticated_input sender gas_objs mutable_ids) (input_objects ts);
     Some (List.map_filter (\<lambda>x. x) found)
   }"

text \<open>What the loop does with one object that is not authenticated.\<close>

datatype auth_step = StepExempt | StepParent object_id | StepError | StepPanic

definition covering :: "temporary_store \<Rightarrow> bool \<Rightarrow> object_id \<Rightarrow> auth_step" where
  "covering ts is_epoch_change i =
     (case bt_get (wrapped_object_containers ts) i of
        Some container_id \<Rightarrow> StepParent container_id
      | None \<Rightarrow>
          (case bs_get_object (ts_store ts) i of
             None \<Rightarrow> StepError
           | Some None \<Rightarrow> StepPanic
           | Some (Some old_obj) \<Rightarrow>
               (case obj_owner old_obj of
                  ObjectOwner parent \<Rightarrow> StepParent parent
                | AddressOwner parent \<Rightarrow> StepParent parent
                | Shared _ \<Rightarrow> StepPanic
                | Immutable \<Rightarrow> if is_epoch_change \<and> is_system_package i then StepExempt else StepPanic)))"

datatype auth_result = Authenticated "object_id list" | StoreError | Panicked

text \<open>The stack of objects to authenticate has its top first. A loop that does not return is \<open>None\<close>.\<close>

partial_function (option) authenticate_loop ::
  "temporary_store \<Rightarrow> bool \<Rightarrow> object_id list \<Rightarrow> object_id list \<Rightarrow> auth_result option" where
  [code]: "authenticate_loop ts is_epoch_change stack auth =
     (case stack of
        [] \<Rightarrow> Some (Authenticated auth)
      | i # rest \<Rightarrow>
          if i \<in> set auth then authenticate_loop ts is_epoch_change rest auth
          else
            (case covering ts is_epoch_change i of
               StepExempt \<Rightarrow> authenticate_loop ts is_epoch_change rest auth
             | StepParent parent \<Rightarrow> authenticate_loop ts is_epoch_change (parent # rest) (i # auth)
             | StepError \<Rightarrow> Some StoreError
             | StepPanic \<Rightarrow> Some Panicked))"

definition check_ownership_invariants ::
  "temporary_store \<Rightarrow> sui_address \<Rightarrow> gas_charger \<Rightarrow> object_id list \<Rightarrow> bool \<Rightarrow> auth_result option" where
  "check_ownership_invariants ts sender gc mutable_ids is_epoch_change =
     (let gas_objs = map fst (gas_coins gc) in
      case authenticated_inputs ts sender gas_objs mutable_ids of
        None \<Rightarrow> Some Panicked
      | Some auth \<Rightarrow>
          authenticate_loop ts is_epoch_change (rev (filter (\<lambda>i. i \<notin> set gas_objs) (modified ts))) auth)"

section \<open>The loop returns\<close>

text \<open>
  Each round either pops the stack or authenticates an object that was not; the identifiers are finite.
\<close>

lemma authenticate_loop_returns:
  assumes fin: "finite U" and "set stack \<subseteq> U"
    and closed: "\<And>i p. i \<in> U \<Longrightarrow> covering ts ep i = StepParent p \<Longrightarrow> p \<in> U"
  shows "\<exists>r. authenticate_loop ts ep stack auth = Some r"
  using assms(2)
proof (induction "card (U - set auth)" arbitrary: auth stack rule: less_induct)
  case less
  note outer = less.hyps
  show ?case using less.prems
  proof (induction stack)
    case Nil
    then show ?case by (subst authenticate_loop.simps) simp
  next
    case (Cons i rest)
    then have rest: "\<exists>r. authenticate_loop ts ep rest auth = Some r" and i: "i \<in> U" "set rest \<subseteq> U" by simp_all
    show ?case
    proof (cases "i \<in> set auth")
      case True
      with rest show ?thesis by (subst authenticate_loop.simps) simp
    next
      case False
      show ?thesis
      proof (cases "covering ts ep i")
        case (StepParent p)
        have "U - set (i # auth) \<subset> U - set auth" using i(1) False by auto
        then have "card (U - set (i # auth)) < card (U - set auth)" using fin by (intro psubset_card_mono) auto
        moreover have "set (p # rest) \<subseteq> U" using closed [OF i(1) StepParent] i(2) by simp
        ultimately have "\<exists>r. authenticate_loop ts ep (p # rest) (i # auth) = Some r" by (rule outer)
        with StepParent False show ?thesis by (subst authenticate_loop.simps) simp
      qed (use rest False in \<open>subst authenticate_loop.simps, simp\<close>)+
    qed
  qed
qed

section \<open>What the check establishes\<close>

text \<open>
  A chain of ownership: an authorised input covers itself, an object is covered by what covers its parent, and a system
  package may change when the epoch does.
\<close>

inductive covered :: "temporary_store \<Rightarrow> bool \<Rightarrow> object_id set \<Rightarrow> object_id \<Rightarrow> bool"
  for ts ep roots where
  root: "i \<in> roots \<Longrightarrow> covered ts ep roots i"
| exempt: "covering ts ep i = StepExempt \<Longrightarrow> covered ts ep roots i"
| parent: "covering ts ep i = StepParent p \<Longrightarrow> covered ts ep roots p \<Longrightarrow> covered ts ep roots i"

text \<open>A set that supports itself: what is neither a root nor exempt has its parent in it.\<close>

definition supported :: "temporary_store \<Rightarrow> bool \<Rightarrow> object_id set \<Rightarrow> object_id set \<Rightarrow> bool" where
  "supported ts ep roots S \<longleftrightarrow>
     (\<forall>i \<in> S. i \<in> roots \<or> covering ts ep i = StepExempt \<or> (\<exists>p \<in> S. covering ts ep i = StepParent p))"

text \<open>The next object on the chain of owners, and a chain that runs into a cycle.\<close>

definition owned_by :: "temporary_store \<Rightarrow> bool \<Rightarrow> object_id \<Rightarrow> object_id \<Rightarrow> bool" where
  "owned_by ts ep i p \<longleftrightarrow> covering ts ep i = StepParent p"

definition runs_in_circle :: "temporary_store \<Rightarrow> bool \<Rightarrow> object_id \<Rightarrow> bool" where
  "runs_in_circle ts ep i \<longleftrightarrow> (\<exists>j. (owned_by ts ep)\<^sup>*\<^sup>* i j \<and> (owned_by ts ep)\<^sup>+\<^sup>+ j j)"

text \<open>In a finite set that a relation never leaves, every chain runs into a cycle.\<close>

lemma finite_chain_cycle:
  assumes "finite U" and "i \<in> U" and "\<forall>x \<in> U. \<exists>y \<in> U. r x y"
  shows "\<exists>j. r\<^sup>*\<^sup>* i j \<and> r\<^sup>+\<^sup>+ j j"
proof -
  obtain f where f: "\<forall>x \<in> U. f x \<in> U \<and> r x (f x)" using bchoice [OF assms(3) [unfolded Bex_def]] by blast
  have mem: "(f ^^ n) i \<in> U" for n by (induction n) (use assms(2) f in auto)
  have steps: "(r ^^ m) ((f ^^ n) i) ((f ^^ (n + m)) i)" for n m
  proof (induction m)
    case (Suc m)
    have "r ((f ^^ (n + m)) i) ((f ^^ (n + Suc m)) i)" using f mem by simp
    with Suc show ?case by auto
  qed simp
  have "finite (range (\<lambda>n. (f ^^ n) i))" by (rule finite_subset [OF _ assms(1)]) (use mem in auto)
  then have "\<not> inj (\<lambda>n. (f ^^ n) i)" using finite_imageD infinite_UNIV_nat by blast
  then obtain n m where nm: "(f ^^ n) i = (f ^^ m) i" "n < m" by (metis injI linorder_neqE_nat)
  have "r\<^sup>*\<^sup>* i ((f ^^ n) i)" using steps [of n 0] relpowp_imp_rtranclp by fastforce
  moreover have "r\<^sup>+\<^sup>+ ((f ^^ n) i) ((f ^^ n) i)"
    using steps [of "m - n" n] nm by (auto simp: tranclp_power intro!: exI [of _ "m - n"])
  ultimately show ?thesis by blast
qed

lemma supported_covered:
  assumes "supported ts ep roots S" and "finite (S - {i. covering ts ep i = StepExempt})" and "i \<in> S"
  shows "covered ts ep roots i \<or> runs_in_circle ts ep i"
proof (cases "covered ts ep roots i")
  case False
  let ?U = "{j \<in> S. \<not> covered ts ep roots j}"
  have "?U \<subseteq> S - {i. covering ts ep i = StepExempt}" using covered.exempt by blast
  then have fin: "finite ?U" by (rule finite_subset [OF _ assms(2)])
  have "\<exists>p \<in> ?U. owned_by ts ep j p" if "j \<in> ?U" for j
  proof -
    have "j \<notin> roots" "covering ts ep j \<noteq> StepExempt" using that covered.root covered.exempt by blast+
    with that assms(1) obtain p where p: "p \<in> S" "covering ts ep j = StepParent p" by (auto simp: supported_def)
    moreover have "\<not> covered ts ep roots p" using that p(2) covered.parent by blast
    ultimately show ?thesis by (auto simp: owned_by_def)
  qed
  with finite_chain_cycle [OF fin, of i "owned_by ts ep"] False assms(3) show ?thesis by (auto simp: runs_in_circle_def)
qed simp

text \<open>The loop keeps every authenticated object supported by the set and the stack together.\<close>

definition auth_inv :: "temporary_store \<Rightarrow> bool \<Rightarrow> object_id set \<Rightarrow> object_id set \<Rightarrow> object_id set \<Rightarrow> bool" where
  "auth_inv ts ep roots auth pending \<longleftrightarrow>
     (\<forall>i \<in> auth. i \<in> roots \<or>
       (\<exists>p. covering ts ep i = StepParent p \<and> (p \<in> auth \<union> pending \<or> covering ts ep p = StepExempt)))"

lemma authenticate_loop_inv:
  assumes "authenticate_loop ts ep stack auth = Some r"
  shows "r = Authenticated A \<longrightarrow> auth_inv ts ep roots (set auth) (set stack) \<longrightarrow>
    auth_inv ts ep roots (set A) {} \<and> set auth \<subseteq> set A \<and> (\<forall>i \<in> set stack. i \<in> set A \<or> covering ts ep i = StepExempt)"
proof (rule authenticate_loop.raw_induct [where P = "\<lambda>ts ep stack auth r. r = Authenticated A \<longrightarrow>
    auth_inv ts ep roots (set auth) (set stack) \<longrightarrow> auth_inv ts ep roots (set A) {} \<and> set auth \<subseteq> set A \<and>
    (\<forall>i \<in> set stack. i \<in> set A \<or> covering ts ep i = StepExempt)", OF _ assms])
  fix loop ts ep stack auth r
  assume IH: "\<And>ts ep stack auth r. loop ts ep stack auth = Some r \<Longrightarrow> r = Authenticated A \<longrightarrow>
      auth_inv ts ep roots (set auth) (set stack) \<longrightarrow> auth_inv ts ep roots (set A) {} \<and> set auth \<subseteq> set A \<and>
      (\<forall>i \<in> set stack. i \<in> set A \<or> covering ts ep i = StepExempt)"
    and body: "(case stack of [] \<Rightarrow> Some (Authenticated auth)
      | i # rest \<Rightarrow> if i \<in> set auth then loop ts ep rest auth
          else (case covering ts ep i of StepExempt \<Rightarrow> loop ts ep rest auth
             | StepParent parent \<Rightarrow> loop ts ep (parent # rest) (i # auth)
             | StepError \<Rightarrow> Some StoreError | StepPanic \<Rightarrow> Some Panicked)) = Some r"
  show "r = Authenticated A \<longrightarrow> auth_inv ts ep roots (set auth) (set stack) \<longrightarrow>
      auth_inv ts ep roots (set A) {} \<and> set auth \<subseteq> set A \<and> (\<forall>i \<in> set stack. i \<in> set A \<or> covering ts ep i = StepExempt)"
  proof (cases stack)
    case Nil
    with body show ?thesis by auto
  next
    case (Cons i rest)
    show ?thesis
    proof (cases "i \<in> set auth \<or> covering ts ep i = StepExempt")
      case True
      then have "loop ts ep rest auth = Some r" using body Cons by (auto split: if_splits)
      moreover have "auth_inv ts ep roots (set auth) (set stack) \<longrightarrow> auth_inv ts ep roots (set auth) (set rest)"
        using True unfolding Cons auth_inv_def by auto
      ultimately show ?thesis using IH [of ts ep rest auth r] True unfolding Cons by auto
    next
      case False
      show ?thesis
      proof (cases "covering ts ep i")
        case (StepParent p)
        then have "loop ts ep (p # rest) (i # auth) = Some r" using body Cons False by simp
        moreover have "auth_inv ts ep roots (set auth) (set stack) \<longrightarrow> auth_inv ts ep roots (set (i # auth)) (set (p # rest))"
          using StepParent unfolding Cons auth_inv_def by auto
        ultimately show ?thesis using IH [of ts ep "p # rest" "i # auth" r] unfolding Cons by auto
      qed (use body Cons False in auto)
    qed
  qed
qed

lemma authenticated_inputs_start: "auth_inv ts ep (set auth) (set auth) X"
  by (auto simp: auth_inv_def)

lemma check_ownership_supported:
  assumes "check_ownership_invariants ts sender gc mutable_ids ep = Some (Authenticated A)"
  obtains auth where "authenticated_inputs ts sender (map fst (gas_coins gc)) mutable_ids = Some auth"
    "\<And>i. i \<in> set (modified ts) \<Longrightarrow> i \<notin> fst ` set (gas_coins gc) \<Longrightarrow>
       i \<in> set A \<or> covering ts ep i = StepExempt"
    "supported ts ep (set auth) (set A \<union> {i. covering ts ep i = StepExempt})"
proof -
  let ?stack = "rev (filter (\<lambda>i. i \<notin> set (map fst (gas_coins gc))) (modified ts))"
  obtain auth where auth: "authenticated_inputs ts sender (map fst (gas_coins gc)) mutable_ids = Some auth"
    and run: "authenticate_loop ts ep ?stack auth = Some (Authenticated A)"
    using assms unfolding check_ownership_invariants_def Let_def by (auto split: option.splits)
  from authenticate_loop_inv [OF run, of A "set auth"] authenticated_inputs_start
  have inv: "auth_inv ts ep (set auth) (set A) {}" "\<forall>i \<in> set ?stack. i \<in> set A \<or> covering ts ep i = StepExempt" by blast+
  show ?thesis
    by (rule that [OF auth]) (use inv in \<open>auto simp: supported_def auth_inv_def\<close>)
qed

lemma authenticated_input_Some:
  assumes "authenticated_inputs ts sender gas_objs mutable_ids = Some auth" and "i \<in> set auth"
  obtains ob where "(i, ob) \<in> set (input_objects ts)" "i \<in> set mutable_ids" "i \<notin> set gas_objs"
    "obj_owner ob = AddressOwner sender \<or> (\<exists>v. obj_owner ob = Shared v)"
proof -
  obtain found where found: "map_opt (authenticated_input sender gas_objs mutable_ids) (input_objects ts) = Some found"
    and auth: "auth = List.map_filter (\<lambda>x. x) found"
    using assms(1) unfolding authenticated_inputs_def by (auto elim!: bind_SomeE)
  have "Some i \<in> set found" using assms(2) by (auto simp: auth List.map_filter_def)
  then obtain e where e: "e \<in> set (input_objects ts)" "authenticated_input sender gas_objs mutable_ids e = Some (Some i)"
    using found by (fastforce simp: map_opt_Some_iff)
  obtain k ob where kob: "e = (k, ob)" by (cases e)
  from e kob that show ?thesis
    by (auto simp: authenticated_input_def elim!: bind_SomeE split: if_splits owner.splits option.splits simp: option_simps)
qed

end
