(* ===== verification/ExecutionEngine.thy ===== *)
theory ExecutionEngine
  imports GasConservation Effects Ownership
begin

text \<open>
  The execution engine (\<^verbatim>\<open>sui-execution/latest/sui-adapter/src/execution_engine.rs\<close>) from the input objects
  to the effects, with the limit checks of \<^verbatim>\<open>sui-protocol-config\<close> and the queries on the inputs of
  \<^verbatim>\<open>transaction.rs\<close>. Running the transaction's kind on the Move VM is the argument \<open>run_kind\<close>,
  which changes the store and the charger and returns a result; it may panic. Logging is left out.
\<close>

section \<open>Limits\<close>

datatype limit_threshold = LimitNone | LimitSoft nat nat | LimitHard nat nat

definition check_limit_in_range :: "nat \<Rightarrow> nat \<Rightarrow> nat \<Rightarrow> limit_threshold" where
  "check_limit_in_range x soft_limit hard_limit =
     (if hard_limit \<le> x then LimitHard x hard_limit
      else if x < soft_limit then LimitNone
      else LimitSoft x soft_limit)"

definition check_limit_by_meter :: "bool \<Rightarrow> nat \<Rightarrow> nat \<Rightarrow> nat \<Rightarrow> limit_threshold" where
  "check_limit_by_meter is_metered x metered_limit unmetered_hard_limit =
     check_limit_in_range x metered_limit (if is_metered then metered_limit else unmetered_hard_limit)"

record engine_config =
  max_serialized_tx_effects_size_bytes :: nat
  max_serialized_tx_effects_size_bytes_system_tx :: nat
  max_size_written_objects :: "nat option"
  max_size_written_objects_system_tx :: "nat option"
  simple_conservation_checks :: bool
  skip_conservation_checks :: bool
  allow_arbitrary_function_calls :: bool

definition check_meter_limit :: "engine_config \<Rightarrow> effects_config \<Rightarrow> temporary_store \<Rightarrow> gas_charger \<Rightarrow> execution_error + unit" where
  "check_meter_limit cfg ecfg ts gc =
     (let effects_estimated_size = estimate_effects_size_upperbound (enable_effects_v2 ecfg) ts in
      case check_limit_by_meter (\<not> is_unmetered (gc_gas_status gc)) effects_estimated_size
             (max_serialized_tx_effects_size_bytes cfg) (max_serialized_tx_effects_size_bytes_system_tx cfg) of
        LimitNone \<Rightarrow> Inr ()
      | LimitSoft _ _ \<Rightarrow> Inr ()
      | LimitHard _ lim \<Rightarrow> Inl (EffectsTooLarge effects_estimated_size lim))"

definition check_written_objects_limit ::
  "engine_config \<Rightarrow> object_lib \<Rightarrow> temporary_store \<Rightarrow> gas_charger \<Rightarrow> execution_error + unit" where
  "check_written_objects_limit cfg lib ts gc =
     (case (max_size_written_objects cfg, max_size_written_objects_system_tx cfg) of
        (Some normal_lim, Some system_lim) \<Rightarrow>
          (let size_written = written_objects_size lib ts in
           case check_limit_by_meter (\<not> is_unmetered (gc_gas_status gc)) size_written normal_lim system_lim of
             LimitNone \<Rightarrow> Inr ()
           | LimitSoft _ _ \<Rightarrow> Inr ()
           | LimitHard _ lim \<Rightarrow> Inl (WrittenObjectsTooLarge size_written lim))
      | _ \<Rightarrow> Inr ())"

section \<open>Inputs\<close>

fun is_shared_object :: "input_object_kind \<Rightarrow> bool" where
  "is_shared_object (SharedMoveObject _ _ _) = True"
| "is_shared_object (ImmOrOwnedMoveObject _) = False"
| "is_shared_object (MovePackageInput _) = False"

fun deletion_info :: "input_object \<Rightarrow> (nat \<times> tx_digest) option" where
  "deletion_info (_, DeletedSharedObject v tx) = Some (v, tx)"
| "deletion_info (_, ReadObject _) = None"

definition contains_deleted_objects :: "input_object list \<Rightarrow> bool" where
  "contains_deleted_objects inputs \<longleftrightarrow> list_ex (\<lambda>i. deletion_info i \<noteq> None) inputs"

text \<open>\<^verbatim>\<open>to_shared_input\<close>; the outer option is the panic of a Move object without identifier.\<close>

fun to_shared_input :: "object_lib \<Rightarrow> input_object \<Rightarrow> shared_input option option" where
  "to_shared_input lib (MovePackageInput _, _) = Some None"
| "to_shared_input lib (ImmOrOwnedMoveObject _, _) = Some None"
| "to_shared_input lib (SharedMoveObject i _ mutable, ReadObject ob) = do {
     r \<leftarrow> compute_object_reference lib ob;
     Some (Some (SharedExisting r))
   }"
| "to_shared_input lib (SharedMoveObject i _ mutable, DeletedSharedObject v tx) = Some (Some (SharedDeleted i v mutable tx))"

definition filter_shared_objects :: "object_lib \<Rightarrow> input_object list \<Rightarrow> shared_input list option" where
  "filter_shared_objects lib inputs =
     map_opt (\<lambda>i. do { found \<leftarrow> to_shared_input lib i; found }) (filter (\<lambda>(k, _). is_shared_object k) inputs)"

fun get_previous_transaction :: "input_object \<Rightarrow> tx_digest" where
  "get_previous_transaction (_, ReadObject ob) = obj_previous_transaction ob"
| "get_previous_transaction (_, DeletedSharedObject _ tx) = tx"

definition transaction_dependencies :: "input_object list \<Rightarrow> tx_digest list" where
  "transaction_dependencies inputs = bs_extend [] (map get_previous_transaction inputs)"

section \<open>Execution\<close>

type_synonym 'a run_kind =
  "temporary_store \<Rightarrow> gas_charger \<Rightarrow> ((execution_error + 'a) \<times> temporary_store \<times> gas_charger) option"

definition execution_loop :: "'a run_kind \<Rightarrow> 'a run_kind" where
  "execution_loop run_kind ts gc = do {
     (r, ts, gc) \<leftarrow> run_kind ts gc;
     Some (case r of
         Inl e \<Rightarrow> (Inl e, ts, gc)
       | Inr v \<Rightarrow> (case check_execution_results_consistency ts of Inl e \<Rightarrow> (Inl e, ts, gc) | Inr _ \<Rightarrow> (Inr v, ts, gc)))
   }"

text \<open>The closure of \<^verbatim>\<open>execute_transaction\<close> that runs when the inputs were charged for.\<close>

definition execute_and_check ::
  "engine_config \<Rightarrow> effects_config \<Rightarrow> object_lib \<Rightarrow> bool \<Rightarrow> bool \<Rightarrow> 'a run_kind \<Rightarrow> 'a run_kind" where
  "execute_and_check cfg ecfg lib deny_cert contains_deleted_input run_kind ts gc = do {
     (execution_result, ts, gc) \<leftarrow>
       (if deny_cert then Some (Inl CertificateDenied, ts, gc)
        else if contains_deleted_input then Some (Inl InputObjectDeleted, ts, gc)
        else execution_loop run_kind ts gc);
     let execution_result = (case check_meter_limit cfg ecfg ts gc of Inl e \<Rightarrow> Inl e | Inr _ \<Rightarrow> execution_result);
     let execution_result = (case execution_result of
         Inl e \<Rightarrow> Inl e
       | Inr v \<Rightarrow> (case check_written_objects_limit cfg lib ts gc of Inl e \<Rightarrow> Inl e | Inr _ \<Rightarrow> Inr v));
     Some (execution_result, ts, gc)
   }"

text \<open>The two conservation checks; the second when they are to be expensive.\<close>

definition conservation_result ::
  "engine_config \<Rightarrow> object_lib \<Rightarrow> (move_object \<Rightarrow> nat option) \<Rightarrow> bool \<Rightarrow> (nat \<times> nat) option \<Rightarrow>
     temporary_store \<Rightarrow> gas_cost_summary \<Rightarrow> (execution_error + unit) option" where
  "conservation_result cfg lib embedded enable_expensive_checks advance_epoch_gas_summary ts cost_summary = do {
     r \<leftarrow> check_sui_conserved lib ts (simple_conservation_checks cfg) cost_summary;
     case r of
       Inl e \<Rightarrow> Some (Inl e)
     | Inr _ \<Rightarrow>
         if enable_expensive_checks
         then check_sui_conserved_expensive lib embedded ts cost_summary advance_epoch_gas_summary
         else Some (Inr ())
   }"

definition run_conservation_checks ::
  "engine_config \<Rightarrow> object_lib \<Rightarrow> (move_object \<Rightarrow> nat option) \<Rightarrow> bool \<Rightarrow> gas_cost_summary \<Rightarrow> bool \<Rightarrow> (nat \<times> nat) option \<Rightarrow>
     temporary_store \<Rightarrow> gas_charger \<Rightarrow> ((execution_error + unit) \<times> temporary_store \<times> gas_charger) option" where
  "run_conservation_checks cfg lib embedded enable_expensive_checks cost_summary is_genesis_tx advance_epoch_gas_summary ts gc =
     (if \<not> is_genesis_tx \<and> \<not> skip_conservation_checks cfg then do {
        r \<leftarrow> conservation_result cfg lib embedded enable_expensive_checks advance_epoch_gas_summary ts cost_summary;
        case r of
          Inr _ \<Rightarrow> Some (Inr (), ts, gc)
        | Inl conservation_err \<Rightarrow> do {
            (gc, ts) \<leftarrow> charger_reset gc ts;
            (_, gc, ts, result) \<leftarrow> charge_gas lib gc ts (Inl conservation_err);
            r \<leftarrow> conservation_result cfg lib embedded enable_expensive_checks advance_epoch_gas_summary ts cost_summary;
            case r of
              Inl _ \<Rightarrow> None
            | Inr _ \<Rightarrow> Some (result, ts, gc)
          }
      } else Some (Inr (), ts, gc))"

definition execute_transaction ::
  "engine_config \<Rightarrow> effects_config \<Rightarrow> object_lib \<Rightarrow> (move_object \<Rightarrow> nat option) \<Rightarrow> bool \<Rightarrow> bool \<Rightarrow> bool \<Rightarrow> bool \<Rightarrow>
     (nat \<times> nat) option \<Rightarrow> 'a run_kind \<Rightarrow> temporary_store \<Rightarrow> gas_charger \<Rightarrow>
     (gas_cost_summary \<times> (execution_error + 'a) \<times> temporary_store \<times> gas_charger) option" where
  "execute_transaction cfg ecfg lib embedded enable_expensive_checks deny_cert contains_deleted_input is_genesis_tx
     advance_epoch_gas_summary run_kind ts gc = do {
     (gc, ts) \<leftarrow> smash_gas gc ts;
     let (charged, gc) = charge_input_objects lib ts gc;
     (result, ts, gc) \<leftarrow> (case charged of
         Inl e \<Rightarrow> Some (Inl e, ts, gc)
       | Inr _ \<Rightarrow> execute_and_check cfg ecfg lib deny_cert contains_deleted_input run_kind ts gc);
     (cost_summary, gc, ts, result) \<leftarrow> charge_gas lib gc ts result;
     ts \<leftarrow> conserve_unmetered_storage_rebate (unmetered_storage_rebate (gc_gas_status gc)) ts;
     (checked, ts, gc) \<leftarrow> run_conservation_checks cfg lib embedded enable_expensive_checks cost_summary is_genesis_tx
       advance_epoch_gas_summary ts gc;
     Some (cost_summary, (case checked of Inl e \<Rightarrow> Inl e | Inr _ \<Rightarrow> result), ts, gc)
   }"

text \<open>The status of the effects; the translation of an error to a status, and its command, are an argument.\<close>

definition is_certificate_denied :: "tx_digest \<Rightarrow> tx_digest list \<Rightarrow> bool" where
  "is_certificate_denied tx deny_set \<longleftrightarrow> tx \<in> set deny_set"

definition execute_transaction_to_effects ::
  "engine_config \<Rightarrow> effects_config \<Rightarrow> object_lib \<Rightarrow> (move_object \<Rightarrow> nat option) \<Rightarrow>
     (execution_error \<Rightarrow> execution_error \<times> nat option) \<Rightarrow> backing_store \<Rightarrow> input_object list \<Rightarrow> object_ref list \<Rightarrow>
     sui_gas_status \<Rightarrow> protocol_config \<Rightarrow> object_ref list \<Rightarrow> bool \<Rightarrow> bool \<Rightarrow> (nat \<times> nat) option \<Rightarrow> 'a run_kind \<Rightarrow>
     sui_address \<Rightarrow> tx_digest \<Rightarrow> nat \<Rightarrow> bool \<Rightarrow> tx_digest list \<Rightarrow>
     (inner_temporary_store \<times> sui_gas_status \<times> transaction_effects \<times> (execution_error + 'a)) option" where
  "execute_transaction_to_effects cfg ecfg lib embedded to_execution_status store inputs gas_coin_refs gas_status pconfig
     receiving is_genesis_tx is_epoch_change advance_epoch_gas_summary run_kind signer tx epoch_id
     enable_expensive_checks deny_set = do {
     mutable_refs \<leftarrow> (if enable_expensive_checks then mutable_inputs lib inputs else Some []);
     shared_object_refs \<leftarrow> filter_shared_objects lib inputs;
     let contains_deleted_input = contains_deleted_objects inputs;
     ts \<leftarrow> temporary_store_new lib store inputs receiving tx;
     let gc = gas_charger_new tx gas_coin_refs gas_status pconfig;
     (cost_summary, execution_result, ts, gc) \<leftarrow>
       execute_transaction cfg ecfg lib embedded enable_expensive_checks (is_certificate_denied tx deny_set)
         contains_deleted_input is_genesis_tx advance_epoch_gas_summary run_kind ts gc;
     let status = (case execution_result of
         Inl e \<Rightarrow> (case to_execution_status e of (s, command) \<Rightarrow> StatusFailure s command)
       | Inr _ \<Rightarrow> StatusSuccess);
     let deps = filter (\<lambda>d. d \<noteq> 0) (transaction_dependencies inputs);
     rust_assert (\<not> (enable_expensive_checks \<and> \<not> allow_arbitrary_function_calls cfg) \<or>
       (case check_ownership_invariants ts signer gc (map fst mutable_refs) is_epoch_change of
          Some (Authenticated _) \<Rightarrow> True | _ \<Rightarrow> False));
     (inner, effects) \<leftarrow> into_effects ecfg lib ts shared_object_refs tx deps cost_summary status gc epoch_id;
     Some (inner, gc_gas_status gc, effects, execution_result)
   }"

end
