(* ===== verification/EngineSafety.thy ===== *)
theory EngineSafety
  imports ExecutionEngine
begin

text \<open>
  The guarantees of gas charging, carried through the execution engine: whatever the Move VM does to a
  well-formed store, the transaction ends with SUI conserved and its charge within the budget; and a
  system transaction, which pays nothing, keeps its storage rebates in the system state object.
\<close>

section \<open>From the start of a transaction to its charge\<close>

text \<open>A store with no writes and a charger that has not smashed its coins yet.\<close>

definition fresh_start :: "object_id \<Rightarrow> gas_charger \<Rightarrow> temporary_store \<Rightarrow> bool" where
  "fresh_start gid gc ts \<longleftrightarrow>
     store_ok ts \<and> written ts = [] \<and> modified ts = [] \<and> gas_coins gc \<noteq> [] \<and> fst (hd (gas_coins gc)) = gid \<and>
     \<not> (length (gas_coins gc) = 1 \<and> gid = 0) \<and> coins_ok ts gc \<and> gid \<in> fst ` set (mutable_input_refs ts) \<and>
     \<not> is_unmetered (gc_gas_status gc) \<and> computation_cost (gc_gas_status gc) \<le> gas_budget (gc_gas_status gc) \<and>
     per_object_storage (gc_gas_status gc) = [] \<and> unmetered_storage_rebate (gc_gas_status gc) = 0"

definition charge_ready :: "object_id \<Rightarrow> gas_charger \<Rightarrow> temporary_store \<Rightarrow> bool" where
  "charge_ready gid gc ts \<longleftrightarrow>
     ready_to_charge gid gc ts \<and> per_object_storage (gc_gas_status gc) = [] \<and>
     unmetered_storage_rebate (gc_gas_status gc) = 0"

lemma smash_gas_marked:
  assumes "gas_coins gc \<noteq> []" and "fst (hd (gas_coins gc)) = gid"
  shows "\<not> (length (gas_coins gc) = 1 \<and> gid = 0) \<Longrightarrow>
    smash_gas (gc\<lparr>smashed_gas_coin := Some gid\<rparr>) ts = smash_gas gc ts"
  unfolding smash_gas_def Let_def using assms by auto

lemma smash_start:
  assumes f: "fresh_start gid gc ts" and run: "smash_gas gc ts = Some (gc1, ts1)"
  shows "charge_ready gid gc1 ts1" "same_inputs ts ts1" "gc1 = gc\<lparr>smashed_gas_coin := Some gid\<rparr>"
proof -
  let ?gc = "gc\<lparr>smashed_gas_coin := Some gid\<rparr>"
  have g: "gas_coins gc \<noteq> []" "fst (hd (gas_coins gc)) = gid" "\<not> (length (gas_coins gc) = 1 \<and> gid = 0)"
    and st: "store_ok ts" "written ts = []" "modified ts = []" "gid \<in> fst ` set (mutable_input_refs ts)"
    using f by (simp_all add: fresh_start_def)
  have run': "smash_gas ?gc ts = Some (gc1, ts1)" using run smash_gas_marked [OF g] by simp
  have ch: "charger_ok ?gc gid" using g by (simp add: charger_ok_def)
  have co: "coins_ok ts ?gc" using f by (simp add: fresh_start_def coins_ok_def input_coin_values_def)
  note s = smash_gas_fresh [OF st(1-3) ch co st(4) run']
  show "gc1 = ?gc" by (rule s(1))
  show "same_inputs ts ts1" by (rule s(3))
  have "coins_ok ts1 ?gc" using coins_ok_same(2) [OF s(3), of ?gc ?gc] co by simp
  with s ch f same_inputs_mutable [OF s(3)] show "charge_ready gid gc1 ts1"
    by (simp add: charge_ready_def ready_to_charge_def fresh_start_def)
qed

text \<open>Charging for computation does not touch what the storage charges rely on.\<close>

lemma charge_ready_meter:
  assumes "charge_ready gid gc ts" and "gc' = gc\<lparr>gc_gas_status := gc_gas_status gc\<lparr>sgs_gas_status := g\<rparr>\<rparr>"
  shows "charge_ready gid gc' ts" "same_charger gc gc'"
  using assms coins_ok_same(2) [of ts ts gc' gc]
  by (simp_all add: charge_ready_def ready_to_charge_def charger_ok_def is_unmetered_def same_charger_def)

lemma charge_input_objects_ready:
  assumes "charge_ready gid gc ts" and "charge_input_objects lib ts gc = (r, gc')"
  shows "charge_ready gid gc' ts" "same_charger gc gc'"
proof -
  obtain g where "gc' = gc\<lparr>gc_gas_status := gc_gas_status gc\<lparr>sgs_gas_status := g\<rparr>\<rparr>"
    using assms(2)
    by (auto simp: charge_input_objects_def charge_storage_read_def charge_bytes_as_execution_def Let_def
        split: prod.splits sum.splits)
  from charge_ready_meter [OF assms(1) this] show "charge_ready gid gc' ts" "same_charger gc gc'" .
qed

text \<open>
  What running a transaction may do: change the store and the meter as it likes, but leave a well-formed store,
  the inputs, and the charger's coins, budget and storage charges as they are.
\<close>

definition run_ok :: "object_id \<Rightarrow> 'a run_kind \<Rightarrow> bool" where
  "run_ok gid run \<longleftrightarrow>
     (\<forall>ts gc r ts' gc'. charge_ready gid gc ts \<longrightarrow> run ts gc = Some (r, ts', gc') \<longrightarrow>
        charge_ready gid gc' ts' \<and> same_charger gc gc' \<and> input_objects ts' = input_objects ts)"

lemma run_okD:
  assumes "run_ok gid run" and "charge_ready gid gc ts" and "run ts gc = Some (r, ts', gc')"
  shows "charge_ready gid gc' ts' \<and> same_charger gc gc' \<and> input_objects ts' = input_objects ts"
  using assms unfolding run_ok_def by blast

lemma execute_and_check_ok:
  assumes "run_ok gid run"
  shows "run_ok gid (execute_and_check cfg ecfg lib deny_cert deleted run)"
  unfolding run_ok_def
proof (intro allI impI)
  fix ts gc r ts' gc'
  assume ready: "charge_ready gid gc ts" and ex: "execute_and_check cfg ecfg lib deny_cert deleted run ts gc = Some (r, ts', gc')"
  obtain r1 where r1: "(if deny_cert then Some (Inl CertificateDenied, ts, gc)
      else if deleted then Some (Inl InputObjectDeleted, ts, gc) else execution_loop run ts gc) = Some (r1, ts', gc')"
    using ex unfolding execute_and_check_def Let_def by (auto elim!: bind_SomeE)
  show "charge_ready gid gc' ts' \<and> same_charger gc gc' \<and> input_objects ts' = input_objects ts"
  proof (cases "deny_cert \<or> deleted")
    case True
    with r1 ready show ?thesis by (auto split: if_splits)
  next
    case False
    with r1 obtain r2 where "run ts gc = Some (r2, ts', gc')"
      unfolding execution_loop_def by (auto elim!: bind_SomeE split: sum.splits)
    from run_okD [OF assms ready this] show ?thesis .
  qed
qed

text \<open>Everything before the charge.\<close>

lemma prod_SomeE:
  assumes "(case p of (a, b) \<Rightarrow> f a b) = Some y"
  obtains a b where "p = (a, b)" "f a b = Some y"
  using assms by (cases p) auto

definition before_charge ::
  "engine_config \<Rightarrow> effects_config \<Rightarrow> object_lib \<Rightarrow> bool \<Rightarrow> bool \<Rightarrow> 'a run_kind \<Rightarrow> 'a run_kind" where
  "before_charge cfg ecfg lib deny_cert deleted run ts gc = do {
     (gc, ts) \<leftarrow> smash_gas gc ts;
     let (charged, gc) = charge_input_objects lib ts gc;
     (case charged of
         Inl e \<Rightarrow> Some (Inl e, ts, gc)
       | Inr _ \<Rightarrow> execute_and_check cfg ecfg lib deny_cert deleted run ts gc)
   }"

text \<open>The engine in three steps: up to the charge, the charge, the conservation checks.\<close>

lemma execute_transaction_steps:
  assumes "execute_transaction cfg ecfg lib embedded expensive deny_cert deleted genesis adv run ts gc = Some (s, res, ts', gc')"
  obtains res1 ts1 gc1 gc2 ts2 res2 ts3 checked where
    "before_charge cfg ecfg lib deny_cert deleted run ts gc = Some (res1, ts1, gc1)"
    "charge_gas lib gc1 ts1 res1 = Some (s, gc2, ts2, res2)"
    "conserve_unmetered_storage_rebate (unmetered_storage_rebate (gc_gas_status gc2)) ts2 = Some ts3"
    "run_conservation_checks cfg lib embedded expensive s genesis adv ts3 gc2 = Some (checked, ts', gc')"
    "(case checked of Inl e \<Rightarrow> Inl e | Inr _ \<Rightarrow> res2) = res"
proof -
  obtain gca tsa where smash: "smash_gas gc ts = Some (gca, tsa)"
    using assms unfolding execute_transaction_def by (cases "smash_gas gc ts") auto
  obtain charged gcb where ch: "charge_input_objects lib tsa gca = (charged, gcb)" by (cases "charge_input_objects lib tsa gca")
  note run = assms [unfolded execute_transaction_def smash ch Let_def bind.bind_lunit prod.case]
  show thesis
    using run by (elim bind_SomeE prod_SomeE) (rule that, simp_all add: before_charge_def smash ch)
qed

lemma before_charge_ready:
  assumes f: "fresh_start gid gc ts" and run: "run_ok gid run"
    and ex: "before_charge cfg ecfg lib deny_cert deleted run ts gc = Some (r, ts1, gc1)"
  shows "charge_ready gid gc1 ts1 \<and> same_charger (gc\<lparr>smashed_gas_coin := Some gid\<rparr>) gc1 \<and> input_objects ts1 = input_objects ts"
proof -
  obtain gca tsa where smash: "smash_gas gc ts = Some (gca, tsa)"
    using ex unfolding before_charge_def by (cases "smash_gas gc ts") auto
  obtain charged gcb where ch: "charge_input_objects lib tsa gca = (charged, gcb)" by (cases "charge_input_objects lib tsa gca")
  note a = smash_start [OF f smash]
  note b = charge_input_objects_ready [OF a(1) ch]
  have same: "same_charger (gc\<lparr>smashed_gas_coin := Some gid\<rparr>) gcb" using b(2) by (simp add: a(3))
  have inputs: "input_objects tsa = input_objects ts" using a(2) by (simp add: same_inputs_def)
  show ?thesis
  proof (cases charged)
    case (Inl e)
    with ex have "gc1 = gcb" "ts1 = tsa" by (simp_all add: before_charge_def smash ch)
    with b(1) same inputs show ?thesis by simp
  next
    case (Inr u)
    with ex have "execute_and_check cfg ecfg lib deny_cert deleted run tsa gcb = Some (r, ts1, gc1)"
      by (simp add: before_charge_def smash ch)
    from run_okD [OF execute_and_check_ok [OF run] b(1) this] same inputs show ?thesis
      using same_charger_trans by metis
  qed
qed

section \<open>The charge and the conservation checks\<close>

text \<open>The charge of a transaction that pays leaves no unmetered rebate to conserve.\<close>

lemma execute_transaction_charged:
  assumes f: "fresh_start gid gc ts" and run: "run_ok gid run"
    and ex: "execute_transaction cfg ecfg lib embedded expensive deny_cert deleted genesis adv run ts gc = Some (s, res, ts', gc')"
  obtains res1 ts1 gc1 gc2 ts2 res2 checked where
    "ready_to_charge gid gc1 ts1" "per_object_storage (gc_gas_status gc1) = []"
    "same_charger (gc\<lparr>smashed_gas_coin := Some gid\<rparr>) gc1" "input_objects ts1 = input_objects ts"
    "charge_gas lib gc1 ts1 res1 = Some (s, gc2, ts2, res2)"
    "run_conservation_checks cfg lib embedded expensive s genesis adv ts2 gc2 = Some (checked, ts', gc')"
    "(case checked of Inl e \<Rightarrow> Inl e | Inr _ \<Rightarrow> res2) = res"
proof -
  obtain res1 ts1 gc1 gc2 ts2 res2 ts3 checked where
    b: "before_charge cfg ecfg lib deny_cert deleted run ts gc = Some (res1, ts1, gc1)" and
    c: "charge_gas lib gc1 ts1 res1 = Some (s, gc2, ts2, res2)" and
    u: "conserve_unmetered_storage_rebate (unmetered_storage_rebate (gc_gas_status gc2)) ts2 = Some ts3" and
    k: "run_conservation_checks cfg lib embedded expensive s genesis adv ts3 gc2 = Some (checked, ts', gc')"
      "(case checked of Inl e \<Rightarrow> Inl e | Inr _ \<Rightarrow> res2) = res"
    using execute_transaction_steps [OF ex] by metis
  from before_charge_ready [OF f run b] have r: "ready_to_charge gid gc1 ts1" "per_object_storage (gc_gas_status gc1) = []"
    "unmetered_storage_rebate (gc_gas_status gc1) = 0" and s: "same_charger (gc\<lparr>smashed_gas_coin := Some gid\<rparr>) gc1"
    "input_objects ts1 = input_objects ts"
    unfolding charge_ready_def by blast+
  have "same_charger gc1 gc2" using charge_gas_before_payment [OF r(1,2) c] by metis
  with r(3) have "unmetered_storage_rebate (gc_gas_status gc2) = 0" by (simp add: same_charger_def)
  with u have "ts3 = ts2" by (simp add: conserve_unmetered_storage_rebate_def)
  with that r(1,2) s c k show ?thesis by blast
qed

lemma conservation_result_Inr:
  assumes "conservation_result cfg lib embedded expensive adv ts s = Some (Inr u)"
  shows "check_sui_conserved lib ts (simple_conservation_checks cfg) s = Some (Inr ())"
  using assms unfolding conservation_result_def by (elim bind_SomeE) (simp split: sum.splits)

text \<open>
  Whichever way the conservation checks end, without a panic, the store they leave passes the first of them; for it
  passed when they began.
\<close>

lemma run_conservation_checks_conserved:
  assumes start: "check_sui_conserved lib ts (simple_conservation_checks cfg) s = Some (Inr ())"
    and run: "run_conservation_checks cfg lib embedded expensive s genesis adv ts gc = Some (checked, ts', gc')"
  shows "check_sui_conserved lib ts' (simple_conservation_checks cfg) s = Some (Inr ())"
proof (cases "\<not> genesis \<and> \<not> skip_conservation_checks cfg")
  case False
  with run start show ?thesis unfolding run_conservation_checks_def by auto
next
  case True
  with run obtain r where r: "conservation_result cfg lib embedded expensive adv ts s = Some r"
    unfolding run_conservation_checks_def by (cases "conservation_result cfg lib embedded expensive adv ts s") auto
  show ?thesis
  proof (cases r)
    case (Inr u)
    with r run True start show ?thesis unfolding run_conservation_checks_def by simp
  next
    case (Inl e)
    note run' = run [unfolded run_conservation_checks_def r Inl bind.bind_lunit sum.case if_P [OF True]]
    obtain gc2 u where "conservation_result cfg lib embedded expensive adv ts' s = Some (Inr u)"
      using run' by (elim bind_SomeE prod_SomeE) (simp split: sum.splits)
    then show ?thesis by (rule conservation_result_Inr)
  qed
qed

text \<open>Without the expensive checks nothing is left to fail: the charge is the end of the transaction.\<close>

lemma run_conservation_checks_cheap:
  assumes "check_sui_conserved lib ts (simple_conservation_checks cfg) s = Some (Inr ())"
  shows "run_conservation_checks cfg lib embedded False s genesis adv ts gc = Some (Inr (), ts, gc)"
  using assms by (simp add: run_conservation_checks_def conservation_result_def)

lemma engine_conserves:
  fixes run :: "'a run_kind"
  assumes f: "fresh_start gid gc ts" and run: "run_ok gid run"
    and ex: "execute_transaction cfg ecfg lib embedded expensive deny_cert deleted genesis adv run ts gc = Some (s, res, ts', gc')"
  shows "check_sui_conserved lib ts' (simple_conservation_checks cfg) s = Some (Inr ())"
    "gcs_computation_cost s + gcs_storage_cost s \<le> gas_budget (gc_gas_status gc) + gcs_storage_rebate s"
proof -
  obtain res1 ts1 gc1 gc2 ts2 and res2 :: "execution_error + 'a" and checked where
    r: "ready_to_charge gid gc1 ts1" "per_object_storage (gc_gas_status gc1) = []" and
    same: "same_charger (gc\<lparr>smashed_gas_coin := Some gid\<rparr>) gc1" "input_objects ts1 = input_objects ts" and
    charge: "charge_gas lib gc1 ts1 res1 = Some (s, gc2, ts2, res2)" and
    k: "run_conservation_checks cfg lib embedded expensive s genesis adv ts2 gc2 = Some (checked, ts', gc')"
    by (rule execute_transaction_charged [OF assms])
  note c = r charge
  show "check_sui_conserved lib ts' (simple_conservation_checks cfg) s = Some (Inr ())"
    by (rule run_conservation_checks_conserved [OF charge_gas_check(1) [OF c] k])
  show "gcs_computation_cost s + gcs_storage_cost s \<le> gas_budget (gc_gas_status gc) + gcs_storage_rebate s"
    using charge_gas_check(2) [OF c] same by (simp add: same_charger_def)
qed

lemma engine_failure:
  fixes run :: "'a run_kind"
  assumes f: "fresh_start gid gc ts" and run: "run_ok gid run"
    and ex: "execute_transaction cfg ecfg lib embedded False deny_cert deleted genesis adv run ts gc = Some (s, Inl err, ts', gc')"
  obtains net coin where "net_gas_usage s = Some net" "bt_get (written ts') gid = Some coin"
    "int (coin_value coin) = int (sum_list (input_coin_values ts gc)) - net"
    "\<And>k ob. k \<noteq> gid \<Longrightarrow> bt_get (written ts') k = Some ob \<Longrightarrow> k \<notin> set (deleted_ids ts') \<and>
       (\<exists>inp. bt_get (input_objects ts) k = Some inp \<and> obj_owner ob = obj_owner inp \<and> obj_data ob = obj_data inp)"
    "created_ids ts' = []" "user_events (execution_results ts') = []"
    "set (deleted_ids ts') = fst ` set (tl (gas_coins gc))"
    "fst ` set (mutable_input_refs ts') \<subseteq> set (modified ts')"
    "set (modified ts') \<subseteq> fst ` set (written ts') \<union> set (deleted_ids ts')"
proof -
  obtain res1 ts1 gc1 gc2 ts2 and res2 :: "execution_error + 'a" and checked where
    r: "ready_to_charge gid gc1 ts1" "per_object_storage (gc_gas_status gc1) = []" and
    same: "same_charger (gc\<lparr>smashed_gas_coin := Some gid\<rparr>) gc1" "input_objects ts1 = input_objects ts" and
    charge: "charge_gas lib gc1 ts1 res1 = Some (s, gc2, ts2, res2)" and
    k: "run_conservation_checks cfg lib embedded False s genesis adv ts2 gc2 = Some (checked, ts', gc')"
      "(case checked of Inl e \<Rightarrow> Inl e | Inr _ \<Rightarrow> res2) = Inl err"
    by (rule execute_transaction_charged [OF assms])
  note c = r charge
  have "checked = Inr ()" "ts' = ts2"
    using k(1) run_conservation_checks_cheap [OF charge_gas_check(1) [OF c]] by simp_all
  with k(2) have res: "res2 = Inl err" and ts: "ts' = ts2" by simp_all
  have v: "input_coin_values ts1 gc1 = input_coin_values ts gc"
    using same by (simp add: same_charger_def input_coin_values_def)
  obtain net coin where p: "net_gas_usage s = Some net" "bt_get (written ts2) gid = Some coin"
    "int (coin_value coin) = int (sum_list (input_coin_values ts1 gc1)) - net"
    "\<And>k ob. k \<noteq> gid \<Longrightarrow> bt_get (written ts2) k = Some ob \<Longrightarrow>
       \<exists>inp. bt_get (input_objects ts1) k = Some inp \<and> obj_owner ob = obj_owner inp \<and> obj_data ob = obj_data inp"
    and u: "undone gc2 ts2" "fst ` set (mutable_input_refs ts2) \<subseteq> set (modified ts2)" "same_charger gc1 gc2"
    using charge_gas_payment [OF c [unfolded res]] by (metis sum.disc(1))
  have gc2: "gas_coins gc2 = gas_coins gc" "smashed_gas_coin gc2 = Some gid"
    using same_charger_trans [OF same(1) u(3)] by (simp_all add: same_charger_def)
  note un = u(1) [unfolded undone_def gc2]
  show ?thesis
  proof (rule that [unfolded ts, OF p(1,2) p(3) [unfolded v] _ _ _ _ u(2)])
    show "k \<notin> set (deleted_ids ts2) \<and>
        (\<exists>inp. bt_get (input_objects ts) k = Some inp \<and> obj_owner ob = obj_owner inp \<and> obj_data ob = obj_data inp)"
      if k: "k \<noteq> gid" "bt_get (written ts2) k = Some ob" for k ob
    proof (intro conjI)
      have "k \<in> fst ` set (written ts2)" using k(2) by (simp add: in_keys_iff)
      moreover have "\<forall>j \<in> fst ` set (tl (gas_coins gc)). gid \<noteq> j \<longrightarrow> j \<notin> fst ` set (written ts2)" using un by simp
      moreover have "set (deleted_ids ts2) = fst ` set (tl (gas_coins gc))" using un by simp
      ultimately show "k \<notin> set (deleted_ids ts2)" using k(1) by metis
    qed (rule p(4) [OF k, unfolded same(2)])
  qed (use un in simp_all)
qed

section \<open>System transactions\<close>

text \<open>
  A transaction that pays nothing has an unmetered charger and no gas coin. The system state object may be missing
  from its inputs; if it is there, it is a mutable one. It is not deleted, and it is created only by the genesis transaction,
  which modifies nothing.
\<close>

definition system_ready :: "gas_charger \<Rightarrow> temporary_store \<Rightarrow> bool" where
  "system_ready gc ts \<longleftrightarrow>
     store_ok ts \<and> smashed_gas_coin gc = None \<and> is_unmetered (gc_gas_status gc) \<and>
     unmetered_storage_rebate (gc_gas_status gc) = 0 \<and>
     (SUI_SYSTEM_STATE_OBJECT_ID \<in> fst ` set (input_objects ts) \<longrightarrow> SUI_SYSTEM_STATE_OBJECT_ID \<in> fst ` set (mutable_input_refs ts)) \<and>
     (SUI_SYSTEM_STATE_OBJECT_ID \<in> set (modified ts) \<longrightarrow> SUI_SYSTEM_STATE_OBJECT_ID \<in> fst ` set (written ts)) \<and>
     (SUI_SYSTEM_STATE_OBJECT_ID \<in> fst ` set (written ts) \<longrightarrow>
        SUI_SYSTEM_STATE_OBJECT_ID \<in> set (modified ts) \<or> modified ts = [] \<and> mutable_input_refs ts = [])"

lemma sum_bt_insert_add:
  "keys_sorted w \<Longrightarrow> bt_get w k = Some v \<Longrightarrow> f (k, v) = 0 \<Longrightarrow>
    sum_list (map f (bt_insert k v' w)) = (sum_list (map f w) :: nat) + f (k, v')"
proof (induction w)
  case (Cons e w)
  show ?case
  proof (cases "k = fst e")
    case True
    with Cons.prems show ?thesis by (cases e) (simp add: bt_get_def)
  next
    case False
    with Cons.prems(2) have get: "bt_get w k = Some v" by (simp add: bt_get_def)
    then have "k \<in> fst ` set w" by (simp add: in_keys_iff)
    with Cons.prems(1) have "\<not> k < fst e" by auto
    with False Cons.IH [OF _ get] Cons.prems(1,3) show ?thesis by simp
  qed
qed (simp add: bt_get_def)

text \<open>An account with no charges: the written objects hold the rebates of the modified ones.\<close>

lemma conserved_without_charge:
  assumes ok: "store_ok ts" and mods: "\<forall>i \<in> set (modified ts). original lib ts i \<noteq> None"
    and eq: "modified_rebates lib ts = written_rebates ts"
  shows "check_sui_conserved lib ts b default_summary = Some (Inr ())"
proof -
  obtain st0 :: sui_gas_status where True by blast
  define st where "st = st0\<lparr>per_object_storage := [], computation_cost := 0, rebate_rate := 0\<rparr>"
  have "accounted lib ts st" using mods eq by (simp add: accounted_def st_def total_cost_def total_rebate_def)
  moreover have "summary st = Some default_summary"
    by (simp add: summary_def st_def storage_rebate_def storage_cost_def sender_rebate_def default_summary_def
        gas_cost_summary_new_def checked_sub64_def checked_mul128_def checked_add128_def BASIS_POINTS_def rust_assert_def storage_gas_units_def sum64_def Let_def)
  ultimately show ?thesis by (rule accounted_check [OF ok])
qed

lemma charge_gas_system:
  assumes "smashed_gas_coin gc = None" and "charge_gas lib gc ts res = Some (s, gc', ts', res')"
  obtains ts1 st where "ensure_active_inputs_mutated ts = Some ts1"
    "collect_storage_and_rebate lib ts1 (gc_gas_status gc) = Some (ts', st)" "gc' = gc\<lparr>gc_gas_status := st\<rparr>"
    "s = default_summary" "res' = res"
proof -
  obtain ts1 gc1 ts2 where e: "ensure_active_inputs_mutated ts = Some ts1" and c: "charger_collect lib gc ts1 = Some (gc1, ts2)"
    and r: "(case smashed_gas_coin gc1 of
       Some gas_object_id \<Rightarrow> do {
         (gc, ts, res) \<leftarrow> (if dont_charge_budget_on_storage_oog (gc_gas_model_version gc1)
                          then handle_storage_and_rebate_v2 lib gc1 ts2 res
                          else handle_storage_and_rebate_v1 lib gc1 ts2 res);
         (cost_summary, ts) \<leftarrow> pay_from_coin gas_object_id gc ts;
         Some (cost_summary, gc, ts, res)
       }
     | None \<Rightarrow> Some (default_summary, gc1, ts2, res)) = Some (s, gc', ts', res')"
    using assms unfolding charge_gas_def settle_computation_def by (auto elim!: bind_SomeE)
  obtain st where st: "collect_storage_and_rebate lib ts1 (gc_gas_status gc) = Some (ts2, st)" "gc1 = gc\<lparr>gc_gas_status := st\<rparr>"
    using c unfolding charger_collect_def by (auto elim!: bind_SomeE)
  with r assms(1) that [OF e, of st] show ?thesis by simp
qed

text \<open>The rebates go to the system state object, when it is written.\<close>

lemma conserve_rebate_written:
  assumes ok: "store_ok ts" and none: "written_rebates ts = 0"
    and mods: "\<forall>i \<in> set (modified ts). original lib ts i \<noteq> None"
    and sys: "SUI_SYSTEM_STATE_OBJECT_ID \<in> fst ` set (written ts)" "SUI_SYSTEM_STATE_OBJECT_ID \<in> set (modified ts)"
    and rebate: "modified_rebates lib ts \<noteq> 0"
  obtains ts' where "conserve_unmetered_storage_rebate (modified_rebates lib ts) ts = Some ts'"
    "check_sui_conserved lib ts' b default_summary = Some (Inr ())"
proof -
  let ?sys = SUI_SYSTEM_STATE_OBJECT_ID
  obtain ob where ob: "bt_get (written ts) ?sys = Some ob" using sys(1) by (auto simp: in_keys_iff)
  have obr: "obj_storage_rebate ob = 0"
    using ok none ob unfolding written_rebates_def
    by (fastforce simp: sum_list_eq_0_iff store_ok_def bt_get_in_set)
  let ?ob = "ob\<lparr>obj_storage_rebate := modified_rebates lib ts\<rparr>"
  have id: "object_id_of ?ob = Some ?sys"
    using store_ok_written [OF ok ob] by (simp add: object_id_of_def)
  then obtain ts' where mu: "mutate_input_object ?ob ts = Some ts'" by (simp add: mutate_input_object_def)
  from mutate_input_object [OF this ok] id have t: "store_ok ts'" "same_inputs ts ts'"
    "written ts' = bt_insert ?sys ?ob (written ts)" "modified ts' = bs_insert ?sys (modified ts)"
    by (metis option.inject)+
  have m: "modified ts' = modified ts" using t(4) ok sys(2) by (simp add: bs_insert_present store_ok_def)
  have mr: "modified_rebates lib ts' = modified_rebates lib ts"
    using original_rebate_same [OF t(2)] m by (simp add: modified_rebates_def)
  have "written_rebates ts' = written_rebates ts + modified_rebates lib ts"
    unfolding written_rebates_def t(3) using ok ob obr by (subst sum_bt_insert_add) (auto simp: store_ok_def)
  with mr none have "modified_rebates lib ts' = written_rebates ts'" by simp
  moreover have "\<forall>i \<in> set (modified ts'). original lib ts' i \<noteq> None" using mods original_same [OF t(2)] m by simp
  ultimately have "check_sui_conserved lib ts' b default_summary = Some (Inr ())" by (intro conserved_without_charge t(1))
  moreover have "read_object ?sys ts = Some ob" using ob by (simp add: read_object_def)
  ultimately show ?thesis using that [of ts'] rebate obr mu
    by (simp add: conserve_unmetered_storage_rebate_def rust_assert_def)
qed

lemma system_transaction_charge:
  assumes r: "system_ready gc ts" and run: "charge_gas lib gc ts res = Some (s, gc', ts', res')"
  shows "s = default_summary" "res' = res" "unmetered_storage_rebate (gc_gas_status gc') = modified_rebates lib ts'"
    "SUI_SYSTEM_STATE_OBJECT_ID \<in> fst ` set (mutable_input_refs ts) \<Longrightarrow> SUI_SYSTEM_STATE_OBJECT_ID \<in> fst ` set (written ts')"
    "modified_rebates lib ts' = 0 \<or> SUI_SYSTEM_STATE_OBJECT_ID \<in> fst ` set (written ts') \<Longrightarrow>
      \<exists>ts''. conserve_unmetered_storage_rebate (modified_rebates lib ts') ts' = Some ts'' \<and>
        check_sui_conserved lib ts'' b default_summary = Some (Inr ())"
    "modified_rebates lib ts' \<noteq> 0 \<Longrightarrow> SUI_SYSTEM_STATE_OBJECT_ID \<notin> fst ` set (written ts') \<Longrightarrow>
      conserve_unmetered_storage_rebate (modified_rebates lib ts') ts' = None"
proof -
  let ?sys = SUI_SYSTEM_STATE_OBJECT_ID
  have ok: "store_ok ts" and sm: "smashed_gas_coin gc = None" and un: "is_unmetered (gc_gas_status gc)"
    and z: "unmetered_storage_rebate (gc_gas_status gc) = 0"
    and inp: "?sys \<in> fst ` set (input_objects ts) \<longrightarrow> ?sys \<in> fst ` set (mutable_input_refs ts)"
    and del: "?sys \<in> set (modified ts) \<longrightarrow> ?sys \<in> fst ` set (written ts)"
    and new: "?sys \<in> fst ` set (written ts) \<longrightarrow> ?sys \<in> set (modified ts) \<or> modified ts = [] \<and> mutable_input_refs ts = []"
    using r unfolding system_ready_def by blast+
  obtain ts1 st where e: "ensure_active_inputs_mutated ts = Some ts1"
    and c: "collect_storage_and_rebate lib ts1 (gc_gas_status gc) = Some (ts', st)"
    and eq: "gc' = gc\<lparr>gc_gas_status := st\<rparr>" "s = default_summary" "res' = res"
    using charge_gas_system [OF sm run] by metis
  show "s = default_summary" "res' = res" by fact+
  note e' = ensure_active_inputs_mutated [OF e ok]
  note c' = collect_unmetered [OF c e'(1) un]
  have same: "same_inputs ts ts'" by (rule same_inputs_trans [OF e'(2) c'(2)])
  show rebate: "unmetered_storage_rebate (gc_gas_status gc') = modified_rebates lib ts'"
    using c'(5) z original_rebate_same [OF c'(2)] c'(3) eq(1) by (simp add: modified_rebates_def)
  have mods: "\<forall>i \<in> set (modified ts'). original lib ts' i \<noteq> None"
    using c'(6) original_same [OF c'(2)] c'(3) by simp
  have "map fst (written ts') = map fst (written ts1)"
    using c'(7) by (induction rule: list_all2_induct) auto
  then have keys: "fst ` set (written ts') = fst ` set (written ts1)" by (metis set_map)
  show mut: "?sys \<in> fst ` set (written ts')" if "?sys \<in> fst ` set (mutable_input_refs ts)"
    using that e'(4) del unfolding keys by blast
  show "\<exists>ts''. conserve_unmetered_storage_rebate (modified_rebates lib ts') ts' = Some ts'' \<and>
      check_sui_conserved lib ts'' b default_summary = Some (Inr ())"
    if w: "modified_rebates lib ts' = 0 \<or> ?sys \<in> fst ` set (written ts')"
  proof (cases "modified_rebates lib ts' = 0")
    case True
    with c'(4) conserved_without_charge [OF c'(1) mods] show ?thesis
      by (simp add: conserve_unmetered_storage_rebate_def)
  next
    case False
    then have "modified ts1 \<noteq> []" using c'(3) by (auto simp: modified_rebates_def)
    then have "\<not> (modified ts = [] \<and> mutable_input_refs ts = [])" using e'(3) by auto
    then have "?sys \<in> set (modified ts1)" using w False new e'(3,4) unfolding keys by blast
    with w False c'(3) show ?thesis
      using conserve_rebate_written [OF c'(1,4) mods _ _ False, of b] by metis
  qed
  show "conserve_unmetered_storage_rebate (modified_rebates lib ts') ts' = None"
    if "modified_rebates lib ts' \<noteq> 0" and w: "?sys \<notin> fst ` set (written ts')"
  proof -
    have "?sys \<notin> fst ` set (input_objects ts')" using w mut inp same_inputs_inputs [OF same] by auto
    with w have "bt_get (written ts') ?sys = None" "bt_get (input_objects ts') ?sys = None" unfolding bt_get_None_iff by blast+
    with that(1) show ?thesis by (simp add: conserve_unmetered_storage_rebate_def read_object_def)
  qed
qed

end
