(* ===== verification/ExecutionProperties.thy ===== *)
theory ExecutionProperties
  imports GasProperties EffectsAgree EngineSafety
begin

text \<open>
  The properties of a whole transaction: what the execution engine guarantees whatever the Move VM does, what
  the effects say of it in either version, and what the ownership check establishes. The witnesses run the engine
  on the sample transaction of \<^verbatim>\<open>GasProperties\<close>.
\<close>

section \<open>The engine\<close>

definition sample_engine_config :: engine_config where
  "sample_engine_config = \<lparr>max_serialized_tx_effects_size_bytes = 524288,
     max_serialized_tx_effects_size_bytes_system_tx = 8388608,
     max_size_written_objects = Some 5000000, max_size_written_objects_system_tx = Some 50000000,
     simple_conservation_checks = True, skip_conservation_checks = False, allow_arbitrary_function_calls = False\<rparr>"

definition sample_effects_config :: "bool \<Rightarrow> effects_config" where
  "sample_effects_config v2 = \<lparr>enable_effects_v2 = v2, move_binary_format_version = 6, no_extraneous_module_bytes = True,
     events_hash = length\<rparr>"

text \<open>A transaction that creates an object and ends with the given result.\<close>

definition sample_kind :: "execution_error + unit \<Rightarrow> unit run_kind" where
  "sample_kind res ts gc = do { ts \<leftarrow> create_object (sample_object 20) ts; Some (res, ts, gc) }"

definition sample_new_charger :: gas_charger where
  "sample_new_charger = gas_charger_new 77 [(16, 4, 0), (17, 4, 0)] sample_status sample_config"

text \<open>The run of the engine on it, stage by stage.\<close>

definition sample_read :: "(execution_error + unit) \<times> gas_charger" where
  "sample_read = charge_input_objects sample_lib (snd sample_start) (fst sample_start)"

definition sample_ran ::
  "execution_error + unit \<Rightarrow> (execution_error + unit) \<times> temporary_store \<times> gas_charger" where
  "sample_ran res = the (execute_and_check sample_engine_config (sample_effects_config True) sample_lib False False
     (sample_kind res) (snd sample_start) (snd sample_read))"

definition sample_execution ::
  "execution_error + unit \<Rightarrow> gas_cost_summary \<times> gas_charger \<times> temporary_store \<times> (execution_error + unit)" where
  "sample_execution res =
     (case sample_ran res of (r, ts, gc) \<Rightarrow> the (charge_gas sample_lib gc ts r))"

lemma sample_fresh: "fresh_start 16 sample_new_charger sample_temporary_store"
  by code_simp

lemma create_object_store:
  assumes "create_object ob ts = Some ts'" and "store_ok ts"
  obtains i where "object_id_of ob = Some i" "store_ok ts'" "same_inputs ts ts'" "modified ts' = modified ts"
    "fst ` set (written ts') = insert i (fst ` set (written ts))"
proof -
  obtain i where i: "object_id_of ob = Some i" and ts': "ts' = map_results (\<lambda>r. r\<lparr>created_object_ids := bs_insert i (created_object_ids r),
      written_objects := bt_insert i ob (written_objects r)\<rparr>) ts"
    using assms(1) by (auto simp: create_object_def option_simps)
  have "store_ok ts'" using assms(2) i by (auto simp: store_ok_def ts' map_results_def set_bt_insert)
  moreover have "fst ` set (written ts') = insert i (fst ` set (written ts))"
    using assms(2) by (auto simp: ts' map_results_def set_bt_insert store_ok_def image_iff)
  ultimately show ?thesis using that [OF i] by (simp add: ts' same_inputs_def map_results_def)
qed

lemma sample_kind_ok: "run_ok 16 (sample_kind res)"
  unfolding run_ok_def
proof (intro allI impI)
  fix ts gc r ts' gc'
  assume ready: "charge_ready 16 gc ts" and run: "sample_kind res ts gc = Some (r, ts', gc')"
  have gc: "gc' = gc" and c: "create_object (sample_object 20) ts = Some ts'"
    using run unfolding sample_kind_def by (auto elim!: bind_SomeE)
  have ok: "store_ok ts" using ready by (simp add: charge_ready_def ready_to_charge_def)
  have "object_id_of (sample_object 20) = Some 20" by code_simp
  with create_object_store [OF c ok] have t: "store_ok ts'" "same_inputs ts ts'" "modified ts' = modified ts"
    "fst ` set (written ts') = insert 20 (fst ` set (written ts))"
    by (metis option.inject)+
  show "charge_ready 16 gc' ts' \<and> same_charger gc gc' \<and> input_objects ts' = input_objects ts"
    using ready t coins_ok_same(2) [OF t(2) refl, of gc] same_inputs_mutable [OF t(2)] same_inputs_inputs [OF t(2)]
    by (simp add: gc charge_ready_def ready_to_charge_def)
qed

lemma before_charge_stages:
  assumes "smash_gas gc ts = Some (gc1, ts1)" and "charge_input_objects lib ts1 gc1 = (Inr (), gc2)"
    and "execute_and_check cfg ecfg lib deny_cert deleted run ts1 gc2 = Some r"
  shows "before_charge cfg ecfg lib deny_cert deleted run ts gc = Some r"
  using assms by (simp add: before_charge_def)

lemma execute_transaction_stages:
  assumes "smash_gas gc ts = Some (gc1, ts1)" and "charge_input_objects lib ts1 gc1 = (Inr (), gc2)"
    and "execute_and_check cfg ecfg lib deny_cert deleted run ts1 gc2 = Some (res3, ts3, gc3)"
    and "charge_gas lib gc3 ts3 res3 = Some (s, gc4, ts4, res4)" and "unmetered_storage_rebate (gc_gas_status gc4) = 0"
    and "run_conservation_checks cfg lib embedded expensive s genesis adv ts4 gc4 = Some (Inr (), ts4, gc4)"
  shows "execute_transaction cfg ecfg lib embedded expensive deny_cert deleted genesis adv run ts gc = Some (s, res4, ts4, gc4)"
  using assms by (simp add: execute_transaction_def conserve_unmetered_storage_rebate_def)

lemma sample_start_some: "smash_gas sample_new_charger sample_temporary_store = Some (fst sample_start, snd sample_start)"
proof -
  have "\<not> Option.is_none (smash_gas sample_new_charger sample_temporary_store)" by code_simp
  then show ?thesis by (simp add: Option.is_none_def sample_start_def sample_new_charger_def)
qed

lemma sample_read_some: "charge_input_objects sample_lib (snd sample_start) (fst sample_start) = (Inr (), snd sample_read)"
proof -
  have "fst sample_read = Inr ()" by code_simp
  then show ?thesis unfolding sample_read_def by (metis prod.collapse)
qed

lemma sample_executes:
  assumes ran: "\<not> Option.is_none (execute_and_check sample_engine_config (sample_effects_config True) sample_lib False False
      (sample_kind res) (snd sample_start) (snd sample_read))"
    and charged: "\<not> Option.is_none (case sample_ran res of (r, ts, gc) \<Rightarrow> charge_gas sample_lib gc ts r)"
    and out: "sample_execution res = (s, gc, ts, r)"
  shows "execute_transaction sample_engine_config (sample_effects_config True) sample_lib (\<lambda>_. Some 0)
     False False False False None (sample_kind res) sample_temporary_store sample_new_charger = Some (s, r, ts, gc)"
proof -
  obtain r3 ts3 gc3 where e3: "sample_ran res = (r3, ts3, gc3)" by (metis prod_cases3)
  then have ran3: "execute_and_check sample_engine_config (sample_effects_config True) sample_lib False False
      (sample_kind res) (snd sample_start) (snd sample_read) = Some (r3, ts3, gc3)"
    using ran by (auto simp: Option.is_none_def sample_ran_def)
  have c: "charge_gas sample_lib gc3 ts3 r3 = Some (s, gc, ts, r)"
    using charged out by (auto simp: e3 Option.is_none_def sample_execution_def)
  have bc: "before_charge sample_engine_config (sample_effects_config True) sample_lib False False
      (sample_kind res) sample_temporary_store sample_new_charger = Some (r3, ts3, gc3)"
    by (rule before_charge_stages [OF sample_start_some sample_read_some ran3])
  from before_charge_ready [OF sample_fresh sample_kind_ok bc]
  have ready: "ready_to_charge 16 gc3 ts3" "per_object_storage (gc_gas_status gc3) = []"
    "unmetered_storage_rebate (gc_gas_status gc3) = 0" by (simp_all add: charge_ready_def)
  have "same_charger gc3 gc" using charge_gas_before_payment [OF ready(1,2) c] by metis
  with ready(3) have "unmetered_storage_rebate (gc_gas_status gc) = 0" by (simp add: same_charger_def)
  from execute_transaction_stages [OF sample_start_some sample_read_some ran3 c this
      run_conservation_checks_cheap [OF charge_gas_check(1) [OF ready(1,2) c]]]
  show ?thesis .
qed

lemma sample_executed:
  "sample_execution (Inr ()) = (s, gc, ts, r) \<Longrightarrow>
    execute_transaction sample_engine_config (sample_effects_config True) sample_lib (\<lambda>_. Some 0)
     False False False False None (sample_kind (Inr ())) sample_temporary_store sample_new_charger = Some (s, r, ts, gc)"
  "sample_execution (Inl (OtherExecutionError 3)) = (s, gc, ts, r) \<Longrightarrow>
    execute_transaction sample_engine_config (sample_effects_config True) sample_lib (\<lambda>_. Some 0)
     False False False False None (sample_kind (Inl (OtherExecutionError 3))) sample_temporary_store sample_new_charger =
     Some (s, r, ts, gc)"
proof -
  have "\<not> Option.is_none (execute_and_check sample_engine_config (sample_effects_config True) sample_lib False False
      (sample_kind (Inr ())) (snd sample_start) (snd sample_read))"
    "\<not> Option.is_none (case sample_ran (Inr ()) of (r, ts, gc) \<Rightarrow> charge_gas sample_lib gc ts r)"
    "\<not> Option.is_none (execute_and_check sample_engine_config (sample_effects_config True) sample_lib False False
      (sample_kind (Inl (OtherExecutionError 3))) (snd sample_start) (snd sample_read))"
    "\<not> Option.is_none (case sample_ran (Inl (OtherExecutionError 3)) of (r, ts, gc) \<Rightarrow> charge_gas sample_lib gc ts r)"
    by code_simp+
  note ran = this
  show "sample_execution (Inr ()) = (s, gc, ts, r) \<Longrightarrow>
    execute_transaction sample_engine_config (sample_effects_config True) sample_lib (\<lambda>_. Some 0)
     False False False False None (sample_kind (Inr ())) sample_temporary_store sample_new_charger = Some (s, r, ts, gc)"
    by (rule sample_executes [OF ran(1,2)])
  show "sample_execution (Inl (OtherExecutionError 3)) = (s, gc, ts, r) \<Longrightarrow>
    execute_transaction sample_engine_config (sample_effects_config True) sample_lib (\<lambda>_. Some 0)
     False False False False None (sample_kind (Inl (OtherExecutionError 3))) sample_temporary_store sample_new_charger =
     Some (s, r, ts, gc)"
    by (rule sample_executes [OF ran(3,4)])
qed

text \<open>
  C4: the execution engine conserves SUI and the budget. From a fresh store, and whatever the run of the transaction does
  as long as it leaves a well-formed store, the inputs and the charger's coins, when the engine returns (with a
  success, a denied certificate, deleted inputs, effects or objects too large, an execution error, or a recovery from a
  failed conservation check) its store passes \<^verbatim>\<open>check_sui_conserved\<close> against the summary it reports,
  and the reported charge is within the gas budget.
\<close>

theorem engine_conserves_sui:
  assumes "fresh_start gid gc ts" and "run_ok gid run"
    and "execute_transaction cfg ecfg lib embedded expensive deny_cert deleted genesis adv run ts gc = Some (s, res, ts', gc')"
  shows "check_sui_conserved lib ts' (simple_conservation_checks cfg) s = Some (Inr ()) \<and>
    gcs_computation_cost s + gcs_storage_cost s \<le> gas_budget (gc_gas_status gc) + gcs_storage_rebate s"
  using engine_conserves [OF assms] by blast

theorem engine_conserves_sui_witness:
  "case sample_execution (Inr ()) of (s, gc', ts', res) \<Rightarrow>
     gcs_storage_cost s = 1922800 \<and> check_sui_conserved sample_lib ts' True s = Some (Inr ()) \<and>
     gcs_computation_cost s + gcs_storage_cost s \<le> 4000000000 + gcs_storage_rebate s"
proof -
  obtain s gc' ts' res where out: "sample_execution (Inr ()) = (s, gc', ts', res)" by (metis prod_cases4)
  have "gcs_storage_cost (fst (sample_execution (Inr ()))) = 1922800" by code_simp
  moreover have "gas_budget (gc_gas_status sample_new_charger) = 4000000000" "simple_conservation_checks sample_engine_config"
    by code_simp+
  ultimately show ?thesis
    using engine_conserves_sui [OF sample_fresh sample_kind_ok sample_executed(1) [OF out]] by (simp add: out)
qed

text \<open>
  C15: a transaction that fails anywhere in the engine only pays. With the expensive conservation checks off, nothing of what the
  failed run did is left: the engine's store creates no object and has no event, it deletes the gas coins other than the first
  and nothing else, every object it leaves written is an input that is not deleted, with its owner and contents unchanged, except the first gas
  coin, which holds the sum of the gas coins given to the transaction less the net gas usage reported; and every modified object
  and every mutable input is one of these, or a deleted gas coin.
\<close>

theorem engine_failure_only_pays:
  assumes "fresh_start gid gc ts" and "run_ok gid run"
    and "execute_transaction cfg ecfg lib embedded False deny_cert deleted genesis adv run ts gc = Some (s, Inl err, ts', gc')"
  shows "\<exists>net coin. net_gas_usage s = Some net \<and> bt_get (written ts') gid = Some coin \<and>
      int (coin_value coin) = int (sum_list (input_coin_values ts gc)) - net \<and>
      (\<forall>k ob. k \<noteq> gid \<longrightarrow> bt_get (written ts') k = Some ob \<longrightarrow> k \<notin> set (deleted_ids ts') \<and>
        (\<exists>inp. bt_get (input_objects ts) k = Some inp \<and> obj_owner ob = obj_owner inp \<and> obj_data ob = obj_data inp)) \<and>
      created_ids ts' = [] \<and> user_events (execution_results ts') = [] \<and>
      set (deleted_ids ts') = fst ` set (tl (gas_coins gc)) \<and>
      fst ` set (mutable_input_refs ts') \<subseteq> set (modified ts') \<and>
      set (modified ts') \<subseteq> fst ` set (written ts') \<union> set (deleted_ids ts')"
  by (rule engine_failure [OF assms]) (intro exI conjI, assumption, assumption, assumption, blast, assumption+)

theorem engine_failure_only_pays_witness:
  "case sample_execution (Inl (OtherExecutionError 3)) of (s, gc', ts', res) \<Rightarrow>
     res = Inl (OtherExecutionError 3) \<and> sum_list (input_coin_values sample_temporary_store sample_new_charger) = 5000000000 \<and>
     (\<exists>net coin. net_gas_usage s = Some net \<and> bt_get (written ts') 16 = Some coin \<and>
       int (coin_value coin) = 5000000000 - net) \<and>
     created_ids ts' = [] \<and> set (deleted_ids ts') = {17}"
proof -
  let ?out = "sample_execution (Inl (OtherExecutionError 3))"
  obtain s gc' ts' res where out: "?out = (s, gc', ts', res)" by (metis prod_cases4)
  have "snd (snd (snd ?out)) = Inl (OtherExecutionError 3)" by code_simp
  then have r: "res = Inl (OtherExecutionError 3)" by (simp add: out)
  have "sum_list (input_coin_values sample_temporary_store sample_new_charger) = 5000000000" by code_simp
  moreover have "fst ` set (tl (gas_coins sample_new_charger)) = {17}" by (simp add: sample_new_charger_def gas_charger_new_def)
  moreover note r engine_failure_only_pays [OF sample_fresh sample_kind_ok sample_executed(2) [OF out [unfolded r]]]
  ultimately show ?thesis
    by (auto simp: out)
qed

section \<open>System transactions\<close>

text \<open>A system transaction with the system state object, which holds a rebate, as a mutable shared input.\<close>

definition sample_system_inputs :: "input_object list" where
  "sample_system_inputs = [(SharedMoveObject 5 1 True, ReadObject (sample_object 5\<lparr>obj_owner := Shared 1, obj_storage_rebate := 700\<rparr>)),
     (SharedMoveObject 6 1 True, ReadObject (sample_object 6\<lparr>obj_owner := Shared 1, obj_storage_rebate := 300\<rparr>))]"

definition sample_system_store :: temporary_store where
  "sample_system_store = the (temporary_store_new sample_lib sample_store sample_system_inputs [] 78)"

definition sample_system_charger :: gas_charger where
  "sample_system_charger = the (gas_charger_new_unmetered 78)"

definition sample_system_outcome :: "gas_cost_summary \<times> gas_charger \<times> temporary_store \<times> (execution_error + unit)" where
  "sample_system_outcome = the (charge_gas sample_lib sample_system_charger sample_system_store (Inr ()))"

text \<open>
  C16: a system transaction conserves SUI without paying, or stops. Its charge takes nothing and keeps its result, and adds up the rebates of
  the objects it modified. When there are none, or when the system state object \<^verbatim>\<open>0x5\<close> is written (as it always is when
  it is a mutable input: in an epoch change), the step that follows returns, leaves them in that object, and
  the store passes \<^verbatim>\<open>check_sui_conserved\<close>. Otherwise, for a transaction such as the consensus commit prologue, which
  does not have \<^verbatim>\<open>0x5\<close> among its inputs, the step panics.
\<close>

theorem system_transaction_conserves_sui:
  assumes "system_ready gc ts" and "charge_gas lib gc ts res = Some (s, gc', ts', res')"
  shows "s = default_summary \<and> res' = res \<and> unmetered_storage_rebate (gc_gas_status gc') = modified_rebates lib ts' \<and>
    (SUI_SYSTEM_STATE_OBJECT_ID \<in> fst ` set (mutable_input_refs ts) \<longrightarrow> SUI_SYSTEM_STATE_OBJECT_ID \<in> fst ` set (written ts')) \<and>
    (if modified_rebates lib ts' = 0 \<or> SUI_SYSTEM_STATE_OBJECT_ID \<in> fst ` set (written ts')
     then \<exists>ts''. conserve_unmetered_storage_rebate (unmetered_storage_rebate (gc_gas_status gc')) ts' = Some ts'' \<and>
       check_sui_conserved lib ts'' b s = Some (Inr ())
     else conserve_unmetered_storage_rebate (unmetered_storage_rebate (gc_gas_status gc')) ts' = None)"
  using system_transaction_charge [OF assms] by simp

theorem system_transaction_conserves_sui_witness:
  "case sample_system_outcome of (s, gc', ts', res') \<Rightarrow> unmetered_storage_rebate (gc_gas_status gc') = 1000 \<and>
     (\<exists>ts''. conserve_unmetered_storage_rebate 1000 ts' = Some ts'' \<and>
       check_sui_conserved sample_lib ts'' False s = Some (Inr ()))"
proof -
  obtain s gc' ts' res' where out: "sample_system_outcome = (s, gc', ts', res')" by (metis prod_cases4)
  have "\<not> Option.is_none (charge_gas sample_lib sample_system_charger sample_system_store (Inr () :: execution_error + unit))"
    by code_simp
  then have run: "charge_gas sample_lib sample_system_charger sample_system_store (Inr ()) = Some (s, gc', ts', res')"
    by (auto simp: Option.is_none_def sample_system_outcome_def simp flip: out)
  have ready: "system_ready sample_system_charger sample_system_store" by code_simp
  have "unmetered_storage_rebate (gc_gas_status (fst (snd sample_system_outcome))) = 1000" by code_simp
  then have r: "unmetered_storage_rebate (gc_gas_status gc') = 1000" by (simp add: out)
  have mut: "SUI_SYSTEM_STATE_OBJECT_ID \<in> fst ` set (mutable_input_refs sample_system_store)" by code_simp
  note c = system_transaction_conserves_sui [OF ready run, of False]
  have "SUI_SYSTEM_STATE_OBJECT_ID \<in> fst ` set (written ts')" using c mut by blast
  with c r show ?thesis by (auto simp: out)
qed

text \<open>The panic is real: a prologue that modifies only the clock, when the clock holds a rebate.\<close>

definition sample_prologue_store :: temporary_store where
  "sample_prologue_store = the (temporary_store_new sample_lib sample_store (tl sample_system_inputs) [] 78)"

lemma prologue_rebate_panics:
  "case the (charge_gas sample_lib sample_system_charger sample_prologue_store (Inr () :: execution_error + unit)) of
     (s, gc', ts', res') \<Rightarrow> unmetered_storage_rebate (gc_gas_status gc') = 300 \<and>
       Option.is_none (conserve_unmetered_storage_rebate 300 ts')"
  by code_simp

section \<open>Effects\<close>

text \<open>
  C17: both versions of the effects agree. Of any finished store, version 1, which lists objects while it walks over the store,
  and version 2, which records the state of each object before and after, report the same created,
  mutated, unwrapped, deleted, unwrapped-then-deleted and wrapped objects in the same order, the same versions
  the objects were modified at, and the same gas object.
\<close>

theorem effects_versions_agree:
  assumes "effects_ok ts" and "length (all_changed_ids ts) < 2 ^ 32"
    and "\<forall>(k, ob) \<in> set (written ts). smashed_gas_coin gc = Some k \<longrightarrow> \<not> is_package ob"
    and "into_effects (cfg\<lparr>enable_effects_v2 := False\<rparr>) lib ts shared tx deps gas status gc epoch = Some (inner1, e1)"
    and "into_effects (cfg\<lparr>enable_effects_v2 := True\<rparr>) lib ts shared tx deps gas status gc epoch = Some (inner2, e2)"
  shows "effects_created e2 = effects_created e1 \<and> effects_mutated e2 = effects_mutated e1 \<and>
    effects_unwrapped e2 = effects_unwrapped e1 \<and> effects_deleted e2 = effects_deleted e1 \<and>
    effects_unwrapped_then_deleted e2 = effects_unwrapped_then_deleted e1 \<and> effects_wrapped e2 = effects_wrapped e1 \<and>
    mset (effects_modified_at_versions e2) = mset (effects_modified_at_versions e1) \<and>
    effects_gas_object e2 = effects_gas_object e1"
proof -
  obtain ts' where u: "update_object_version_and_prev_tx ts = Some ts'"
    using assms(4) unfolding into_effects_def by (cases "update_object_version_and_prev_tx ts") simp_all
  let ?deps = "fold (received_dependency ts') (receiving_objects ts') deps"
  obtain refs where r1: "into_effects_v1 (cfg\<lparr>enable_effects_v2 := False\<rparr>) lib ts' refs tx ?deps gas status gc epoch = Some (inner1, e1)"
    using assms(4) unfolding into_effects_def u by (cases "map_opt existing_ref shared") (simp_all add: Let_def)
  have r2: "into_effects_v2 (cfg\<lparr>enable_effects_v2 := True\<rparr>) lib ts' shared tx ?deps gas status gc epoch = Some (inner2, e2)"
    using assms(5) unfolding into_effects_def u by (simp add: Let_def)
  note ok = update_effects_ok [OF assms(1) u]
  have coin: "\<not> is_package ob" if mem: "(k, ob) \<in> set (written ts')" "smashed_gas_coin gc = Some k" for k ob
    using ok(5) [OF mem(1)] mem(2) assms(3) by fastforce
  have short: "length (all_changed_ids ts') < 2 ^ 32" using assms(2) ok(4) by simp
  show ?thesis by (intro conjI into_effects_agree [OF ok(1,2) short _ r1 r2]) (use coin in blast)+
qed

definition sample_effects :: "bool \<Rightarrow> (inner_temporary_store \<times> transaction_effects) option" where
  "sample_effects v2 = (case sample_outcome (Inr ()) of (s, gc, ts, res) \<Rightarrow>
     into_effects ((sample_effects_config True)\<lparr>enable_effects_v2 := v2\<rparr>) sample_lib ts [] 77 [3] s StatusSuccess gc 1)"

lemma sample_effects_some: "\<not> Option.is_none (sample_effects False)" "\<not> Option.is_none (sample_effects True)"
  by code_simp+

theorem effects_versions_agree_witness:
  "effects_created (snd (the (sample_effects True))) = effects_created (snd (the (sample_effects False))) \<and>
    effects_deleted (snd (the (sample_effects True))) = effects_deleted (snd (the (sample_effects False))) \<and>
    map (fst \<circ> fst) (effects_created (snd (the (sample_effects True)))) = [20]"
proof -
  obtain s gc ts res where out: "sample_outcome (Inr ()) = (s, gc, ts, res)" by (metis prod_cases4)
  have "effects_ok (fst (snd (snd (sample_outcome (Inr ())))))"
    "length (all_changed_ids (fst (snd (snd (sample_outcome (Inr ())))))) < 2 ^ 32"
    "\<forall>(k, ob) \<in> set (written (fst (snd (snd (sample_outcome (Inr ())))))).
       smashed_gas_coin (fst (snd (sample_outcome (Inr ())))) = Some k \<longrightarrow> \<not> is_package ob"
    by code_simp+
  then have h: "effects_ok ts" "length (all_changed_ids ts) < 2 ^ 32"
    "\<forall>(k, ob) \<in> set (written ts). smashed_gas_coin gc = Some k \<longrightarrow> \<not> is_package ob" by (simp_all add: out)
  obtain i1 e1 i2 e2 where e: "sample_effects False = Some (i1, e1)" "sample_effects True = Some (i2, e2)"
    using sample_effects_some unfolding Option.is_none_def by (metis option.exhaust prod.exhaust)
  note r = e [unfolded sample_effects_def out prod.case]
  have "map (fst \<circ> fst) (effects_created (snd (the (sample_effects True)))) = [20]" by code_simp
  with effects_versions_agree [OF h r] show ?thesis by (simp add: e)
qed

text \<open>
  The version accessor of the two is not the same: version 1 recomputes it from the modified objects only, while the
  version that the written objects get also counts the inputs that were only read. Here an immutable input has
  version 9, and the gas coin version 4.
\<close>

definition sample_read_only_store :: temporary_store where
  "sample_read_only_store = the (temporary_store_new sample_lib sample_store
     [(ImmOrOwnedMoveObject (16, 4, 0), ReadObject (sample_coin 16 2000000000)),
      (ImmOrOwnedMoveObject (21, 9, 0), ReadObject ((sample_object 21)\<lparr>obj_owner := Immutable,
         obj_data := Move \<lparr>mo_type = Other ''T'', has_public_transfer = True, mo_version = 9,
           contents = replicate 31 0 @ [21, 7]\<rparr>\<rparr>))] [] 79)"

definition sample_read_only_effects :: "bool \<Rightarrow> (inner_temporary_store \<times> transaction_effects) option" where
  "sample_read_only_effects v2 = do {
     ts \<leftarrow> ensure_active_inputs_mutated sample_read_only_store;
     into_effects (sample_effects_config v2) sample_lib ts [] 79 [3] default_summary StatusSuccess
       ((gas_charger_new 79 [(16, 4, 0)] sample_status sample_config)\<lparr>smashed_gas_coin := Some 16\<rparr>) 1
   }"

lemma lamport_versions_differ:
  "effects_lamport_version (snd (the (sample_read_only_effects False))) = Some 5 \<and>
    effects_lamport_version (snd (the (sample_read_only_effects True))) = Some 10 \<and>
    map (fst \<circ> snd \<circ> fst) (effects_mutated (snd (the (sample_read_only_effects False)))) = [10]"
  by code_simp

section \<open>Ownership\<close>

lemma covered_mono: "covered ts ep R i \<Longrightarrow> R \<subseteq> S \<Longrightarrow> covered ts ep S i"
  by (induction rule: covered.induct) (auto intro: covered.intros)

text \<open>
  C18: the ownership check returns, and what it accepts is owned, up to cycles. Identifiers have 32 bytes, so the loop over the
  chains of owners ends on every store, whether or not it finds a panic. When it accepts, every modified object
  other than a gas coin is covered: a chain of owners leads from it to an input that was passed as mutable and belongs to the sender
  or is shared, or to a system package in an epoch change. The exception is an object whose chain of owners runs
  into a cycle: the loop authenticates an object before it looks at its owner, and then accepts the cycle.
\<close>

theorem ownership_check_sound:
  assumes "\<forall>i p. covering ts ep i = StepParent p \<longrightarrow> p < 2 ^ 256" and "\<forall>i \<in> set (modified ts). i < 2 ^ 256"
  shows "\<exists>r. check_ownership_invariants ts sender gc mutable_ids ep = Some r \<and>
    (\<forall>A. r = Authenticated A \<longrightarrow>
      (\<forall>i \<in> set (modified ts). i \<notin> fst ` set (gas_coins gc) \<longrightarrow>
        covered ts ep {i. \<exists>ob. (i, ob) \<in> set (input_objects ts) \<and> i \<in> set mutable_ids \<and>
          (obj_owner ob = AddressOwner sender \<or> (\<exists>v. obj_owner ob = Shared v))} i \<or> runs_in_circle ts ep i))"
proof -
  let ?roots = "{i. \<exists>ob. (i, ob) \<in> set (input_objects ts) \<and> i \<in> set mutable_ids \<and>
      (obj_owner ob = AddressOwner sender \<or> (\<exists>v. obj_owner ob = Shared v))}"
  have "\<exists>r. authenticate_loop ts ep (rev (filter (\<lambda>i. i \<notin> set (map fst (gas_coins gc))) (modified ts))) auth = Some r" for auth
    by (rule authenticate_loop_returns [of "{..< 2 ^ 256}"]) (use assms in auto)
  then have returns: "\<exists>r. check_ownership_invariants ts sender gc mutable_ids ep = Some r"
    by (auto simp: check_ownership_invariants_def Let_def split: option.splits)
  have sound: "covered ts ep ?roots i \<or> runs_in_circle ts ep i"
    if run: "check_ownership_invariants ts sender gc mutable_ids ep = Some (Authenticated A)"
      and i: "i \<in> set (modified ts)" "i \<notin> fst ` set (gas_coins gc)" for A i
  proof -
    obtain auth where a: "authenticated_inputs ts sender (map fst (gas_coins gc)) mutable_ids = Some auth"
      "i \<in> set A \<or> covering ts ep i = StepExempt" "supported ts ep (set auth) (set A \<union> {i. covering ts ep i = StepExempt})"
      using check_ownership_supported [OF run] i by metis
    have roots: "set auth \<subseteq> ?roots" using authenticated_input_Some [OF a(1)] by blast
    have "finite (set A \<union> {i. covering ts ep i = StepExempt} - {i. covering ts ep i = StepExempt})"
      by (rule finite_subset [of _ "set A"]) auto
    then have "covered ts ep (set auth) i \<or> runs_in_circle ts ep i"
      by (rule supported_covered [OF a(3)]) (use a(2) in auto)
    with covered_mono [OF _ roots] show ?thesis by blast
  qed
  from returns sound show ?thesis by blast
qed

text \<open>A child object of an address-owned input, both modified.\<close>

definition sample_owned_store :: temporary_store where
  "sample_owned_store = sample_temporary_store\<lparr>
     ts_store := sample_store\<lparr>bs_get_object := (\<lambda>i. Some (if i = 31 then Some ((sample_object 31)\<lparr>obj_owner := ObjectOwner 30\<rparr>) else None))\<rparr>,
     input_objects := [(30, sample_object 30)], wrapped_object_containers := [],
     execution_results := empty_results\<lparr>modified_objects := [16, 30, 31]\<rparr>\<rparr>"

theorem ownership_check_sound_witness:
  "check_ownership_invariants sample_owned_store 9 sample_new_charger [30] False = Some (Authenticated [31, 30]) \<and>
    covered sample_owned_store False {i. \<exists>ob. (i, ob) \<in> set (input_objects sample_owned_store) \<and> i \<in> set [30] \<and>
      (obj_owner ob = AddressOwner 9 \<or> (\<exists>v. obj_owner ob = Shared v))} 31"
proof -
  have cov: "covering sample_owned_store False i = (if i = 31 then StepParent 30 else StepPanic)" for i
    by (simp add: covering_def sample_owned_store_def sample_store_def bt_get_def)
  have mem: "modified sample_owned_store = [16, 30, 31]" by (simp add: sample_owned_store_def)
  have h: "\<forall>i p. covering sample_owned_store False i = StepParent p \<longrightarrow> p < 2 ^ 256"
    "\<forall>i \<in> set (modified sample_owned_store). i < 2 ^ 256" by (simp_all add: cov mem)
  have run: "check_ownership_invariants sample_owned_store 9 sample_new_charger [30] False = Some (Authenticated [31, 30])"
    by code_simp
  have less: "p < i" if "(owned_by sample_owned_store False)\<^sup>+\<^sup>+ i p" for i p
    using that by (induction rule: tranclp_induct) (auto simp: owned_by_def cov split: if_splits)
  have straight: "\<not> runs_in_circle sample_owned_store False 31" using less by (auto simp: runs_in_circle_def)
  have i: "31 \<in> set (modified sample_owned_store)" "31 \<notin> fst ` set (gas_coins sample_new_charger)"
    by (simp_all add: mem sample_new_charger_def gas_charger_new_def)
  obtain r where r: "check_ownership_invariants sample_owned_store 9 sample_new_charger [30] False = Some r"
    and c: "\<forall>A. r = Authenticated A \<longrightarrow>
      (\<forall>i \<in> set (modified sample_owned_store). i \<notin> fst ` set (gas_coins sample_new_charger) \<longrightarrow>
        covered sample_owned_store False {i. \<exists>ob. (i, ob) \<in> set (input_objects sample_owned_store) \<and> i \<in> set [30] \<and>
          (obj_owner ob = AddressOwner 9 \<or> (\<exists>v. obj_owner ob = Shared v))} i \<or> runs_in_circle sample_owned_store False i)"
    using ownership_check_sound [OF h, of 9 sample_new_charger "[30]"] by (elim exE conjE)
  have "r = Authenticated [31, 30]" using r run by simp
  from c [rule_format, OF this i] straight run show ?thesis by (intro conjI) simp_all
qed

text \<open>The exception is real: an object that is owned by its own address is accepted without any authorised input.\<close>

definition sample_cycle_store :: temporary_store where
  "sample_cycle_store = sample_temporary_store\<lparr>
     ts_store := sample_store\<lparr>bs_get_object := (\<lambda>i. Some (if i = 31 then Some ((sample_object 31)\<lparr>obj_owner := AddressOwner 31\<rparr>) else None))\<rparr>,
     input_objects := [], wrapped_object_containers := [], execution_results := empty_results\<lparr>modified_objects := [31]\<rparr>\<rparr>"

lemma ownership_cycle_accepted:
  "check_ownership_invariants sample_cycle_store 9 sample_new_charger [] False = Some (Authenticated [31])"
  by code_simp

end
