(* ===== verification/TransactionManager.thy ===== *)
theory TransactionManager
  imports Effects
begin

text \<open>
  The transaction manager of \<^verbatim>\<open>crates/sui-core/src/transaction_manager.rs\<close>: certificates wait in it until their input
  objects are available, and go to the execution driver then. Enqueueing takes its lock twice and reads the
  database in between, so it is three operations here; every other operation holds the lock throughout.

  The LRU cache and the insertion-ordered map are library code: their operations are arguments, in the records
  \<open>lru_ops\<close> and \<open>index_ops\<close>. Hash maps and sets are ordered here, since nothing the manager returns depends on their
  order. Metrics, logging and the capacity of hash maps are left out; \<^verbatim>\<open>Instant::now()\<close> is an argument. A read of the database
  that fails is \<open>None\<close>.
\<close>

section \<open>Input keys\<close>

datatype input_key = VersionedObject object_id nat | PackageKey object_id

fun key_id :: "input_key \<Rightarrow> object_id" where
  "key_id (VersionedObject i v) = i"
| "key_id (PackageKey i) = i"

fun key_version :: "input_key \<Rightarrow> nat option" where
  "key_version (VersionedObject i v) = Some v"
| "key_version (PackageKey i) = None"

text \<open>The derived order: versioned objects first, by identifier and version.\<close>

instantiation input_key :: linorder
begin

fun less_eq_input_key :: "input_key \<Rightarrow> input_key \<Rightarrow> bool" where
  "less_eq_input_key (VersionedObject i v) (VersionedObject j w) \<longleftrightarrow> i < j \<or> i = j \<and> v \<le> w"
| "less_eq_input_key (VersionedObject i v) (PackageKey j) \<longleftrightarrow> True"
| "less_eq_input_key (PackageKey i) (VersionedObject j w) \<longleftrightarrow> False"
| "less_eq_input_key (PackageKey i) (PackageKey j) \<longleftrightarrow> i \<le> j"

definition less_input_key :: "input_key \<Rightarrow> input_key \<Rightarrow> bool" where
  "less_input_key a b \<longleftrightarrow> a \<le> b \<and> \<not> b \<le> a"

instance
proof
  fix a b c :: input_key
  show "a < b \<longleftrightarrow> a \<le> b \<and> \<not> b \<le> a" by (rule less_input_key_def)
  show "a \<le> a" by (cases a) auto
  show "a \<le> b \<Longrightarrow> b \<le> c \<Longrightarrow> a \<le> c" by (cases a; cases b; cases c) auto
  show "a \<le> b \<Longrightarrow> b \<le> a \<Longrightarrow> a = b" by (cases a; cases b) auto
  show "a \<le> b \<or> b \<le> a" by (cases a; cases b) auto
qed

end

definition key_of_object :: "object \<Rightarrow> input_key option" where
  "key_of_object ob = do {
     i \<leftarrow> object_id_of ob;
     Some (if is_package ob then PackageKey i else VersionedObject i (object_version ob))
   }"

text \<open>The keys that a committed transaction makes available.\<close>

definition get_output_keys :: "inner_temporary_store \<Rightarrow> transaction_effects \<Rightarrow> input_key list" where
  "get_output_keys inner effects =
     (let written_keys = map (\<lambda>(i, ob). if is_package ob then PackageKey i else VersionedObject i (object_version ob))
            (inner_written inner);
          deleted = fold (\<lambda>(i, v, _). bt_insert i v) (effects_deleted effects) [];
          deleted_keys = map (\<lambda>(i, v). VersionedObject i v)
            (filter (\<lambda>(i, _). case bt_get (inner_input_objects inner) i of
                Some ob \<Rightarrow> (case obj_owner ob of Shared _ \<Rightarrow> True | _ \<Rightarrow> False)
              | None \<Rightarrow> False) deleted);
          smeared = map (\<lambda>i. VersionedObject i (inner_lamport_version inner)) (deleted_mutably_accessed_shared_objects effects)
      in written_keys @ deleted_keys @ smeared)"

section \<open>The cache of available objects\<close>

text \<open>
  An LRU cache from object identifiers: what \<^verbatim>\<open>get\<close> finds (and the cache with the entry made recent), what
  \<^verbatim>\<open>push\<close> replaces or evicts, \<^verbatim>\<open>put\<close>, \<^verbatim>\<open>pop_lru\<close> and \<^verbatim>\<open>len\<close>; \<^verbatim>\<open>peek\<close> looks
  without making recent, and states what the others do.
\<close>

record ('c, 'a) lru_ops =
  lru_unbounded :: 'c
  lru_get :: "object_id \<Rightarrow> 'c \<Rightarrow> 'a option \<times> 'c"
  lru_push :: "object_id \<Rightarrow> 'a \<Rightarrow> 'c \<Rightarrow> (object_id \<times> 'a) option \<times> 'c"
  lru_put :: "object_id \<Rightarrow> 'a \<Rightarrow> 'c \<Rightarrow> 'c"
  lru_pop_lru :: "'c \<Rightarrow> 'c"
  lru_len :: "'c \<Rightarrow> nat"
  lru_peek :: "'c \<Rightarrow> object_id \<Rightarrow> 'a option"

text \<open>An insertion-ordered map from transactions to times, with its entries in order.\<close>

record 'm index_ops =
  im_default :: 'm
  im_insert :: "tx_digest \<Rightarrow> nat \<Rightarrow> 'm \<Rightarrow> 'm"
  im_shift_remove :: "tx_digest \<Rightarrow> 'm \<Rightarrow> nat option \<times> 'm"
  im_entries :: "'m \<Rightarrow> (tx_digest \<times> nat) list"

record ('v, 'u, 'm) tm_lib =
  versioned_ops :: "('v, nat) lru_ops"
  unversioned_ops :: "('u, unit) lru_ops"
  index_map_ops :: "'m index_ops"

record ('v, 'u) cache_inner =
  versioned_cache :: 'v
  unversioned_cache :: 'u
  max_size :: nat

definition cache_inner_new :: "('v, 'u, 'm) tm_lib \<Rightarrow> nat \<Rightarrow> ('v, 'u) cache_inner" where
  "cache_inner_new lib n =
     \<lparr>versioned_cache = lru_unbounded (versioned_ops lib), unversioned_cache = lru_unbounded (unversioned_ops lib), max_size = n\<rparr>"

partial_function (option) lru_shrink :: "('c, 'a) lru_ops \<Rightarrow> nat \<Rightarrow> 'c \<Rightarrow> 'c option" where
  [code]: "lru_shrink ops n c = (if n < lru_len ops c then lru_shrink ops n (lru_pop_lru ops c) else Some c)"

definition cache_shrink :: "('v, 'u, 'm) tm_lib \<Rightarrow> ('v, 'u) cache_inner \<Rightarrow> ('v, 'u) cache_inner option" where
  "cache_shrink lib c = do {
     v \<leftarrow> lru_shrink (versioned_ops lib) (max_size c) (versioned_cache c);
     u \<leftarrow> lru_shrink (unversioned_ops lib) (max_size c) (unversioned_cache c);
     Some (c\<lparr>versioned_cache := v, unversioned_cache := u\<rparr>)
   }"

definition cache_insert :: "('v, 'u, 'm) tm_lib \<Rightarrow> input_key \<Rightarrow> ('v, 'u) cache_inner \<Rightarrow> ('v, 'u) cache_inner" where
  "cache_insert lib k c =
     (case key_version k of
        Some version \<Rightarrow>
          (case lru_push (versioned_ops lib) (key_id k) version (versioned_cache c) of
             (Some (previous_id, previous_version), v) \<Rightarrow>
               if previous_id = key_id k \<and> version < previous_version
               then c\<lparr>versioned_cache := lru_put (versioned_ops lib) (key_id k) previous_version v\<rparr>
               else c\<lparr>versioned_cache := v\<rparr>
           | (None, v) \<Rightarrow> c\<lparr>versioned_cache := v\<rparr>)
      | None \<Rightarrow> c\<lparr>unversioned_cache := snd (lru_push (unversioned_ops lib) (key_id k) () (unversioned_cache c))\<rparr>)"

definition cache_available ::
  "('v, 'u, 'm) tm_lib \<Rightarrow> input_key \<Rightarrow> ('v, 'u) cache_inner \<Rightarrow> bool option \<times> ('v, 'u) cache_inner" where
  "cache_available lib k c =
     (case key_version k of
        Some version \<Rightarrow>
          (case lru_get (versioned_ops lib) (key_id k) (versioned_cache c) of
             (found, v) \<Rightarrow> (map_option (\<lambda>current. version \<le> current) found, c\<lparr>versioned_cache := v\<rparr>))
      | None \<Rightarrow>
          (case lru_get (unversioned_ops lib) (key_id k) (unversioned_cache c) of
             (found, u) \<Rightarrow> (map_option (\<lambda>_. True) found, c\<lparr>unversioned_cache := u\<rparr>)))"

record ('v, 'u) available_objects =
  aoc_cache :: "('v, 'u) cache_inner"
  unbounded_cache_enabled :: nat

definition available_objects_new_with_size :: "('v, 'u, 'm) tm_lib \<Rightarrow> nat \<Rightarrow> ('v, 'u) available_objects" where
  "available_objects_new_with_size lib n = \<lparr>aoc_cache = cache_inner_new lib n, unbounded_cache_enabled = 0\<rparr>"

definition available_objects_new :: "('v, 'u, 'm) tm_lib \<Rightarrow> ('v, 'u) available_objects" where
  "available_objects_new lib = available_objects_new_with_size lib 100000"

definition enable_unbounded_cache :: "('v, 'u) available_objects \<Rightarrow> ('v, 'u) available_objects" where
  "enable_unbounded_cache a = a\<lparr>unbounded_cache_enabled := add64 (unbounded_cache_enabled a) 1\<rparr>"

definition disable_unbounded_cache :: "('v, 'u) available_objects \<Rightarrow> ('v, 'u) available_objects option" where
  "disable_unbounded_cache a = do {
     rust_assert (0 < unbounded_cache_enabled a);
     Some (a\<lparr>unbounded_cache_enabled := unbounded_cache_enabled a - 1\<rparr>)
   }"

definition aoc_insert ::
  "('v, 'u, 'm) tm_lib \<Rightarrow> input_key \<Rightarrow> ('v, 'u) available_objects \<Rightarrow> ('v, 'u) available_objects option" where
  "aoc_insert lib k a =
     (let a = a\<lparr>aoc_cache := cache_insert lib k (aoc_cache a)\<rparr> in
      if unbounded_cache_enabled a = 0 then do {
        c \<leftarrow> cache_shrink lib (aoc_cache a);
        Some (a\<lparr>aoc_cache := c\<rparr>)
      } else Some a)"

definition aoc_available ::
  "('v, 'u, 'm) tm_lib \<Rightarrow> input_key \<Rightarrow> ('v, 'u) available_objects \<Rightarrow> bool option \<times> ('v, 'u) available_objects" where
  "aoc_available lib k a = (case cache_available lib k (aoc_cache a) of (r, c) \<Rightarrow> (r, a\<lparr>aoc_cache := c\<rparr>))"

section \<open>State\<close>

text \<open>What the manager uses of a verified certificate.\<close>

record executable_transaction =
  cert_digest :: tx_digest
  cert_epoch :: nat
  cert_input_objects :: "input_object_kind list"
  cert_receiving_objects :: "object_ref list"

record pending_certificate =
  certificate :: executable_transaction
  expected_effects_digest :: "nat option"
  waiting_input_objects :: "input_key list"
  enqueue_time :: nat
  ready_time :: "nat option"

record ('v, 'u, 'm) tm_inner =
  tm_epoch :: nat
  missing_inputs :: "(input_key, tx_digest list) btree_map"
  tm_input_objects :: "(object_id, 'm) btree_map"
  available_objects_cache :: "('v, 'u) available_objects"
  pending_certificates :: "(tx_digest, pending_certificate) btree_map"
  executing_certificates :: "tx_digest list"

text \<open>
  The manager with the certificates it has sent to the execution driver, and the transactions it has removed from
  the table of pending executions of the epoch store.
\<close>

record ('v, 'u, 'm) tm =
  inner :: "('v, 'u, 'm) tm_inner"
  tx_ready_certificates :: "pending_certificate list"
  removed_pending_executions :: "tx_digest list"

definition tm_inner_new :: "('v, 'u, 'm) tm_lib \<Rightarrow> nat \<Rightarrow> ('v, 'u, 'm) tm_inner" where
  "tm_inner_new lib epoch =
     \<lparr>tm_epoch = epoch, missing_inputs = [], tm_input_objects = [], available_objects_cache = available_objects_new lib,
      pending_certificates = [], executing_certificates = []\<rparr>"

section \<open>Ready certificates\<close>

text \<open>The first loop over the waiting transactions of a key: they leave the queue of its object.\<close>

fun dequeue_all :: "'m index_ops \<Rightarrow> tx_digest list \<Rightarrow> 'm \<Rightarrow> 'm option" where
  "dequeue_all ops [] txns = Some txns"
| "dequeue_all ops (d # ds) txns = do {
     let (age, txns) = im_shift_remove ops d txns;
     rust_assert (age \<noteq> None);
     dequeue_all ops ds txns
   }"

text \<open>The second: they no longer wait for the key, and are ready when they wait for nothing.\<close>

fun release_all ::
  "input_key \<Rightarrow> tx_digest list \<Rightarrow> (tx_digest, pending_certificate) btree_map \<Rightarrow>
     (pending_certificate list \<times> (tx_digest, pending_certificate) btree_map) option" where
  "release_all k [] pending = Some ([], pending)"
| "release_all k (d # ds) pending = do {
     pc \<leftarrow> bt_get pending d;
     rust_assert (k \<in> set (waiting_input_objects pc));
     let pc = pc\<lparr>waiting_input_objects := filter (\<lambda>x. x \<noteq> k) (waiting_input_objects pc)\<rparr>;
     if waiting_input_objects pc = [] then do {
       (ready, pending) \<leftarrow> release_all k ds (bt_remove d pending);
       Some (pc # ready, pending)
     } else release_all k ds (bt_insert d pc pending)
   }"

definition find_ready_transactions ::
  "('v, 'u, 'm) tm_lib \<Rightarrow> input_key \<Rightarrow> bool \<Rightarrow> ('v, 'u, 'm) tm_inner \<Rightarrow>
     (pending_certificate list \<times> ('v, 'u, 'm) tm_inner) option" where
  "find_ready_transactions lib k update_cache t = do {
     a \<leftarrow> (if update_cache then aoc_insert lib k (available_objects_cache t) else Some (available_objects_cache t));
     let t = t\<lparr>available_objects_cache := a\<rparr>;
     case bt_get (missing_inputs t) k of
       None \<Rightarrow> Some ([], t)
     | Some digests \<Rightarrow> do {
         let t = t\<lparr>missing_inputs := bt_remove k (missing_inputs t)\<rparr>;
         txns \<leftarrow> bt_get (tm_input_objects t) (key_id k);
         txns \<leftarrow> dequeue_all (index_map_ops lib) digests txns;
         let t = t\<lparr>tm_input_objects :=
           (if im_entries (index_map_ops lib) txns = [] then bt_remove (key_id k) (tm_input_objects t)
            else bt_insert (key_id k) txns (tm_input_objects t))\<rparr>;
         (ready, pending) \<leftarrow> release_all k digests (pending_certificates t);
         Some (ready, t\<lparr>pending_certificates := pending\<rparr>)
       }
   }"

definition certificate_ready :: "pending_certificate \<Rightarrow> ('v, 'u, 'm) tm \<Rightarrow> ('v, 'u, 'm) tm option" where
  "certificate_ready pc t = do {
     rust_assert (length (waiting_input_objects pc) = 0);
     let d = cert_digest (certificate pc);
     rust_assert (d \<notin> set (executing_certificates (inner t)));
     Some (t\<lparr>inner := (inner t)\<lparr>executing_certificates := bs_insert d (executing_certificates (inner t))\<rparr>,
            tx_ready_certificates := tx_ready_certificates t @ [pc]\<rparr>)
   }"

text \<open>One key that has become available.\<close>

definition object_available ::
  "('v, 'u, 'm) tm_lib \<Rightarrow> bool \<Rightarrow> nat \<Rightarrow> input_key \<Rightarrow> ('v, 'u, 'm) tm \<Rightarrow> ('v, 'u, 'm) tm option" where
  "object_available lib update_cache available_time k t = do {
     (ready, i) \<leftarrow> find_ready_transactions lib k update_cache (inner t);
     fold_opt (\<lambda>pc. certificate_ready (pc\<lparr>ready_time := Some available_time\<rparr>)) ready (t\<lparr>inner := i\<rparr>)
   }"

definition objects_available_locked ::
  "('v, 'u, 'm) tm_lib \<Rightarrow> nat \<Rightarrow> input_key list \<Rightarrow> bool \<Rightarrow> nat \<Rightarrow> ('v, 'u, 'm) tm \<Rightarrow> ('v, 'u, 'm) tm option" where
  "objects_available_locked lib epoch input_keys update_cache available_time t =
     (if tm_epoch (inner t) \<noteq> epoch then Some t
      else fold_opt (object_available lib update_cache available_time) input_keys t)"

definition remove_pending_execution :: "tx_digest \<Rightarrow> ('v, 'u, 'm) tm \<Rightarrow> ('v, 'u, 'm) tm" where
  "remove_pending_execution d t = t\<lparr>removed_pending_executions := removed_pending_executions t @ [d]\<rparr>"

definition notify_commit ::
  "('v, 'u, 'm) tm_lib \<Rightarrow> nat \<Rightarrow> tx_digest \<Rightarrow> input_key list \<Rightarrow> nat \<Rightarrow> ('v, 'u, 'm) tm \<Rightarrow> ('v, 'u, 'm) tm option" where
  "notify_commit lib epoch d output_object_keys commit_time t =
     (if tm_epoch (inner t) \<noteq> epoch then Some t
      else do {
        t \<leftarrow> objects_available_locked lib epoch output_object_keys True commit_time t;
        if d \<notin> set (executing_certificates (inner t)) then Some t
        else Some (remove_pending_execution d
          (t\<lparr>inner := (inner t)\<lparr>executing_certificates := filter (\<lambda>x. x \<noteq> d) (executing_certificates (inner t))\<rparr>\<rparr>))
      })"

section \<open>Enqueueing\<close>

text \<open>The keys of a certificate's inputs; a shared object has the version that was assigned to it.\<close>

definition get_input_object_keys ::
  "(tx_digest \<Rightarrow> (object_id \<rightharpoonup> nat)) \<Rightarrow> tx_digest \<Rightarrow> input_object_kind list \<Rightarrow> input_key list option" where
  "get_input_object_keys shared_locks d kinds = do {
     ks \<leftarrow> map_opt (\<lambda>kind. case kind of
         SharedMoveObject i _ _ \<Rightarrow> do { version \<leftarrow> shared_locks d i; Some (VersionedObject i version) }
       | MovePackageInput i \<Rightarrow> Some (PackageKey i)
       | ImmOrOwnedMoveObject (i, v, _) \<Rightarrow> Some (VersionedObject i v)) kinds;
     Some (bs_extend [] ks)
   }"

definition receiving_keys :: "executable_transaction \<Rightarrow> input_key list" where
  "receiving_keys cert = map (\<lambda>(i, v, _). VersionedObject i v) (cert_receiving_objects cert)"

definition certificate_keys :: "(tx_digest \<Rightarrow> (object_id \<rightharpoonup> nat)) \<Rightarrow> executable_transaction \<Rightarrow> input_key list option" where
  "certificate_keys shared_locks cert = do {
     ks \<leftarrow> get_input_object_keys shared_locks (cert_digest cert) (cert_input_objects cert);
     Some (bs_extend ks (receiving_keys cert))
   }"

text \<open>
  What an enqueueing thread keeps while it does not hold the lock: its certificates with their keys, the keys that are
  received, and the availability of each key, as far as it is known.
\<close>

record enqueue_task =
  task_certs :: "(executable_transaction \<times> nat option \<times> input_key list) list"
  task_receiving :: "input_key list"
  object_availability :: "(input_key, bool option) btree_map"

text \<open>The part before the first lock.\<close>

definition enqueue_prepare ::
  "(tx_digest \<Rightarrow> bool option) \<Rightarrow> (tx_digest \<Rightarrow> (object_id \<rightharpoonup> nat)) \<Rightarrow> (executable_transaction \<times> nat option) list \<Rightarrow>
     ('v, 'u, 'm) tm \<Rightarrow> (enqueue_task \<times> ('v, 'u, 'm) tm) option" where
  "enqueue_prepare executed shared_locks certs t = do {
     done \<leftarrow> map_opt (\<lambda>(cert, _). executed (cert_digest cert)) certs;
     let t = fold (\<lambda>((cert, _), e) t. if e then remove_pending_execution (cert_digest cert) t else t) (zip certs done) t;
     let certs = map fst (filter (\<lambda>(_, e). \<not> e) (zip certs done));
     certs \<leftarrow> map_opt (\<lambda>(cert, fx). do { ks \<leftarrow> certificate_keys shared_locks cert; Some (cert, fx, ks) }) certs;
     Some (\<lparr>task_certs = certs, task_receiving = bs_extend [] (concat (map (\<lambda>(cert, _, _). receiving_keys cert) certs)),
            object_availability = fold (\<lambda>(_, _, ks). fold (\<lambda>k. bt_insert k None) ks) certs []\<rparr>, t)
   }"

text \<open>The first lock: the cache answers what it knows, and does not evict from now on.\<close>

fun check_cache ::
  "('v, 'u, 'm) tm_lib \<Rightarrow> (input_key \<times> bool option) list \<Rightarrow> ('v, 'u) available_objects \<Rightarrow>
     (input_key \<times> bool option) list \<times> ('v, 'u) available_objects" where
  "check_cache lib [] a = ([], a)"
| "check_cache lib ((k, val) # rest) a =
     (case aoc_available lib k a of
        (found, a) \<Rightarrow>
          (case check_cache lib rest a of
             (others, a) \<Rightarrow> ((k, case found of Some available \<Rightarrow> Some available | None \<Rightarrow> val) # others, a)))"

definition enqueue_check ::
  "('v, 'u, 'm) tm_lib \<Rightarrow> enqueue_task \<Rightarrow> ('v, 'u, 'm) tm \<Rightarrow> enqueue_task \<times> ('v, 'u, 'm) tm" where
  "enqueue_check lib task t =
     (case check_cache lib (object_availability task) (available_objects_cache (inner t)) of
        (avail, a) \<Rightarrow> (task\<lparr>object_availability := avail\<rparr>,
          t\<lparr>inner := (inner t)\<lparr>available_objects_cache := enable_unbounded_cache a\<rparr>\<rparr>))"

definition cache_misses :: "enqueue_task \<Rightarrow> input_key list" where
  "cache_misses task = map fst (filter (\<lambda>(_, val). val = None) (object_availability task))"

text \<open>
  The read of the database between the locks (\<^verbatim>\<open>in_mem_execution_cache.rs\<close>). Its tables are an argument: which versions
  exist, the latest version of an object, whether an owned object was deleted at a version or after, whether a shared
  object was deleted at a version, and whether the latest reference of an identifier is alive.
\<close>

record object_reads =
  exists_by_key :: "object_id \<Rightarrow> nat \<Rightarrow> bool"
  latest_version :: "object_id \<Rightarrow> nat option"
  have_deleted_owned :: "object_id \<Rightarrow> nat \<Rightarrow> bool"
  deleted_shared :: "object_id \<Rightarrow> nat \<Rightarrow> bool"
  latest_alive :: "object_id \<Rightarrow> bool option"

definition versioned_available :: "object_reads \<Rightarrow> input_key list \<Rightarrow> input_key \<Rightarrow> nat \<Rightarrow> bool" where
  "versioned_available db receiving k version =
     (if exists_by_key db (key_id k) version then True
      else if k \<in> set receiving then
        (case latest_version db (key_id k) of Some latest \<Rightarrow> version \<le> latest | None \<Rightarrow> False) \<or>
        have_deleted_owned db (key_id k) version
      else deleted_shared db (key_id k) version)"

definition multi_input_objects_available :: "object_reads \<Rightarrow> input_key list \<Rightarrow> input_key list \<Rightarrow> bool list" where
  "multi_input_objects_available db keys receiving =
     (let indexed = zip [0..<length keys] keys;
          versioned = List.map_filter (\<lambda>(i, k). map_option (\<lambda>v. (i, versioned_available db receiving k v)) (key_version k)) indexed;
          unversioned = map (\<lambda>(i, k). (i, case latest_alive db (key_id k) of None \<Rightarrow> False | Some alive \<Rightarrow> alive))
            (filter (\<lambda>(_, k). key_version k = None) indexed)
      in map snd (sort_key fst (versioned @ unversioned)))"

text \<open>The second lock. First what was read is recorded, and packages are cached.\<close>

fun record_reads ::
  "('v, 'u, 'm) tm_lib \<Rightarrow> (bool \<times> input_key) list \<Rightarrow> (input_key, bool option) btree_map \<Rightarrow> ('v, 'u) available_objects \<Rightarrow>
     ((input_key, bool option) btree_map \<times> ('v, 'u) available_objects) option" where
  "record_reads lib [] avail a = Some (avail, a)"
| "record_reads lib ((available, k) # rest) avail a = do {
     a \<leftarrow> (if available \<and> key_version k = None then aoc_insert lib k a else Some a);
     _ \<leftarrow> bt_get avail k;
     record_reads lib rest (bt_insert k (Some available) avail) a
   }"

text \<open>Then the cache is asked again for what was missing.\<close>

fun recheck_cache ::
  "('v, 'u, 'm) tm_lib \<Rightarrow> (input_key \<times> bool option) list \<Rightarrow> ('v, 'u) available_objects \<Rightarrow>
     ((input_key \<times> bool option) list \<times> ('v, 'u) available_objects) option" where
  "recheck_cache lib [] a = Some ([], a)"
| "recheck_cache lib ((k, val) # rest) a = do {
     available \<leftarrow> val;
     let (val, a) = (if available then (val, a)
       else case aoc_available lib k a of (found, a) \<Rightarrow> (if found = Some True then Some True else val, a));
     (others, a) \<leftarrow> recheck_cache lib rest a;
     Some ((k, val) # others, a)
   }"

text \<open>A key of a certificate that is not available: it is recorded as missing.\<close>

fun register_missing ::
  "('v, 'u, 'm) tm_lib \<Rightarrow> (input_key, bool option) btree_map \<Rightarrow> tx_digest \<Rightarrow> nat \<Rightarrow> input_key list \<Rightarrow> ('v, 'u, 'm) tm_inner \<Rightarrow>
     (input_key list \<times> ('v, 'u, 'm) tm_inner) option" where
  "register_missing lib avail d now [] t = Some ([], t)"
| "register_missing lib avail d now (k # ks) t = do {
     val \<leftarrow> bt_get avail k;
     available \<leftarrow> val;
     if available then register_missing lib avail d now ks t
     else do {
       let digests = (case bt_get (missing_inputs t) k of Some ds \<Rightarrow> ds | None \<Rightarrow> []);
       rust_assert (d \<notin> set digests);
       let txns = (case bt_get (tm_input_objects t) (key_id k) of Some txns \<Rightarrow> txns | None \<Rightarrow> im_default (index_map_ops lib));
       (waiting, t) \<leftarrow> register_missing lib avail d now ks
         (t\<lparr>missing_inputs := bt_insert k (bs_insert d digests) (missing_inputs t),
            tm_input_objects := bt_insert (key_id k) (im_insert (index_map_ops lib) d now txns) (tm_input_objects t)\<rparr>);
       Some (bs_insert k waiting, t)
     }
   }"

text \<open>One pending certificate; a failed read returns early, as \<open>Inl\<close> with the state so far.\<close>

definition enqueue_one ::
  "('v, 'u, 'm) tm_lib \<Rightarrow> (tx_digest \<Rightarrow> bool option) \<Rightarrow> (input_key, bool option) btree_map \<Rightarrow> nat \<Rightarrow>
     executable_transaction \<times> nat option \<times> input_key list \<Rightarrow> ('v, 'u, 'm) tm \<Rightarrow>
     (('v, 'u, 'm) tm + ('v, 'u, 'm) tm) option" where
  "enqueue_one lib executed avail now c t =
     (case c of (cert, fx, ks) \<Rightarrow>
        let d = cert_digest cert in
        if tm_epoch (inner t) \<noteq> cert_epoch cert then Some (Inr (remove_pending_execution d t))
        else if bt_get (pending_certificates (inner t)) d \<noteq> None then Some (Inr t)
        else if d \<in> set (executing_certificates (inner t)) then Some (Inr t)
        else
          (case executed d of
             None \<Rightarrow> Some (Inl t)
           | Some True \<Rightarrow> Some (Inr (remove_pending_execution d t))
           | Some False \<Rightarrow> do {
               (waiting, i) \<leftarrow> register_missing lib avail d now ks (inner t);
               let pc = \<lparr>certificate = cert, expected_effects_digest = fx, waiting_input_objects = waiting,
                         enqueue_time = now, ready_time = None\<rparr>;
               if waiting = [] then do {
                 t \<leftarrow> certificate_ready (pc\<lparr>ready_time := Some now\<rparr>) (t\<lparr>inner := i\<rparr>);
                 Some (Inr t)
               } else do {
                 rust_assert (bt_get (pending_certificates i) d = None);
                 Some (Inr (t\<lparr>inner := i\<lparr>pending_certificates := bt_insert d pc (pending_certificates i)\<rparr>\<rparr>))
               }
             }))"

fun enqueue_loop ::
  "('v, 'u, 'm) tm_lib \<Rightarrow> (tx_digest \<Rightarrow> bool option) \<Rightarrow> (input_key, bool option) btree_map \<Rightarrow> nat \<Rightarrow>
     (executable_transaction \<times> nat option \<times> input_key list) list \<Rightarrow> ('v, 'u, 'm) tm \<Rightarrow>
     (('v, 'u, 'm) tm + ('v, 'u, 'm) tm) option" where
  "enqueue_loop lib executed avail now [] t = Some (Inr t)"
| "enqueue_loop lib executed avail now (c # cs) t = do {
     r \<leftarrow> enqueue_one lib executed avail now c t;
     case r of Inl t \<Rightarrow> Some (Inl t) | Inr t \<Rightarrow> enqueue_loop lib executed avail now cs t
   }"

definition enqueue_finish ::
  "('v, 'u, 'm) tm_lib \<Rightarrow> (tx_digest \<Rightarrow> bool option) \<Rightarrow> bool list \<Rightarrow> nat \<Rightarrow> enqueue_task \<Rightarrow> ('v, 'u, 'm) tm \<Rightarrow>
     (('v, 'u, 'm) tm + ('v, 'u, 'm) tm) option" where
  "enqueue_finish lib executed reads now task t = do {
     (avail, a) \<leftarrow> record_reads lib (zip reads (cache_misses task)) (object_availability task) (available_objects_cache (inner t));
     (avail, a) \<leftarrow> recheck_cache lib avail a;
     a \<leftarrow> disable_unbounded_cache a;
     enqueue_loop lib executed avail now (task_certs task) (t\<lparr>inner := (inner t)\<lparr>available_objects_cache := a\<rparr>\<rparr>)
   }"

text \<open>The whole, when nothing comes between.\<close>

definition enqueue_impl ::
  "('v, 'u, 'm) tm_lib \<Rightarrow> (tx_digest \<Rightarrow> bool option) \<Rightarrow> (tx_digest \<Rightarrow> (object_id \<rightharpoonup> nat)) \<Rightarrow> object_reads \<Rightarrow> nat \<Rightarrow>
     (executable_transaction \<times> nat option) list \<Rightarrow> ('v, 'u, 'm) tm \<Rightarrow> (('v, 'u, 'm) tm + ('v, 'u, 'm) tm) option" where
  "enqueue_impl lib executed shared_locks db now certs t = do {
     (task, t) \<leftarrow> enqueue_prepare executed shared_locks certs t;
     let (task, t) = enqueue_check lib task t;
     let reads = multi_input_objects_available db (cache_misses task) (task_receiving task);
     enqueue_finish lib executed reads now task t
   }"

definition tm_enqueue ::
  "('v, 'u, 'm) tm_lib \<Rightarrow> (tx_digest \<Rightarrow> bool option) \<Rightarrow> (tx_digest \<Rightarrow> (object_id \<rightharpoonup> nat)) \<Rightarrow> object_reads \<Rightarrow> nat \<Rightarrow>
     executable_transaction list \<Rightarrow> ('v, 'u, 'm) tm \<Rightarrow> (('v, 'u, 'm) tm + ('v, 'u, 'm) tm) option" where
  "tm_enqueue lib executed shared_locks db now certs t =
     enqueue_impl lib executed shared_locks db now (map (\<lambda>c. (c, None)) certs) t"

definition enqueue_with_expected_effects_digest ::
  "('v, 'u, 'm) tm_lib \<Rightarrow> (tx_digest \<Rightarrow> bool option) \<Rightarrow> (tx_digest \<Rightarrow> (object_id \<rightharpoonup> nat)) \<Rightarrow> object_reads \<Rightarrow> nat \<Rightarrow>
     (executable_transaction \<times> nat) list \<Rightarrow> ('v, 'u, 'm) tm \<Rightarrow> (('v, 'u, 'm) tm + ('v, 'u, 'm) tm) option" where
  "enqueue_with_expected_effects_digest lib executed shared_locks db now certs t =
     enqueue_impl lib executed shared_locks db now (map (\<lambda>(c, fx). (c, Some fx)) certs) t"

definition tm_new ::
  "('v, 'u, 'm) tm_lib \<Rightarrow> (tx_digest \<Rightarrow> bool option) \<Rightarrow> (tx_digest \<Rightarrow> (object_id \<rightharpoonup> nat)) \<Rightarrow> object_reads \<Rightarrow> nat \<Rightarrow> nat \<Rightarrow>
     executable_transaction list \<Rightarrow> ('v, 'u, 'm) tm option" where
  "tm_new lib executed shared_locks db now epoch all_pending_execution = do {
     r \<leftarrow> tm_enqueue lib executed shared_locks db now all_pending_execution
       \<lparr>inner = tm_inner_new lib epoch, tx_ready_certificates = [], removed_pending_executions = []\<rparr>;
     case r of Inl _ \<Rightarrow> None | Inr t \<Rightarrow> Some t
   }"

section \<open>Queries and overload\<close>

definition get_missing_input :: "tx_digest \<Rightarrow> ('v, 'u, 'm) tm \<Rightarrow> input_key list option" where
  "get_missing_input d t = map_option waiting_input_objects (bt_get (pending_certificates (inner t)) d)"

definition objects_queue_len_and_age ::
  "('v, 'u, 'm) tm_lib \<Rightarrow> nat \<Rightarrow> object_id list \<Rightarrow> ('v, 'u, 'm) tm \<Rightarrow> (object_id \<times> nat \<times> nat option) list" where
  "objects_queue_len_and_age lib now keys t =
     map (\<lambda>i.
       let txns = (case bt_get (tm_input_objects (inner t)) i of Some txns \<Rightarrow> txns | None \<Rightarrow> im_default (index_map_ops lib));
           es = im_entries (index_map_ops lib) txns
       in (i, length es, case es of [] \<Rightarrow> None | (_, time) # _ \<Rightarrow> Some (now - time))) keys"

definition inflight_queue_len :: "('v, 'u, 'm) tm \<Rightarrow> nat" where
  "inflight_queue_len t =
     add64 (length (pending_certificates (inner t))) (length (executing_certificates (inner t)))"

definition tm_reconfigure :: "('v, 'u, 'm) tm_lib \<Rightarrow> nat \<Rightarrow> ('v, 'u, 'm) tm \<Rightarrow> ('v, 'u, 'm) tm" where
  "tm_reconfigure lib new_epoch t = t\<lparr>inner := tm_inner_new lib new_epoch\<rparr>"

definition MAX_TM_QUEUE_LENGTH :: nat where "MAX_TM_QUEUE_LENGTH = 100000"

definition MAX_PER_OBJECT_QUEUE_LENGTH :: nat where "MAX_PER_OBJECT_QUEUE_LENGTH = 200"

text \<open>Times are in nanoseconds, and errors give them in seconds.\<close>

definition as_secs :: "nat \<Rightarrow> nat" where "as_secs d = d div 10 ^ 9"

text \<open>Each error ends with the threshold that was reached.\<close>

datatype overload_error =
    TooManyTransactionsPendingExecution nat nat
  | TooManyTransactionsPendingOnObject object_id nat nat
  | TooOldTransactionPendingOnObject object_id nat nat

fun check_queues :: "nat \<Rightarrow> (object_id \<times> nat \<times> nat option) list \<Rightarrow> overload_error + unit" where
  "check_queues threshold [] = Inr ()"
| "check_queues threshold ((i, queue_len, txn_age) # rest) =
     (if MAX_PER_OBJECT_QUEUE_LENGTH \<le> queue_len then Inl (TooManyTransactionsPendingOnObject i queue_len MAX_PER_OBJECT_QUEUE_LENGTH)
      else case txn_age of
          Some age \<Rightarrow>
            if threshold \<le> age then Inl (TooOldTransactionPendingOnObject i (as_secs age) (as_secs threshold))
            else check_queues threshold rest
        | None \<Rightarrow> check_queues threshold rest)"

text \<open>The identifiers of the inputs of the transaction are the argument \<open>ids\<close>.\<close>

definition check_execution_overload ::
  "('v, 'u, 'm) tm_lib \<Rightarrow> nat \<Rightarrow> nat \<Rightarrow> object_id list \<Rightarrow> ('v, 'u, 'm) tm \<Rightarrow> overload_error + unit" where
  "check_execution_overload lib now txn_age_threshold ids t =
     (if MAX_TM_QUEUE_LENGTH \<le> inflight_queue_len t then Inl (TooManyTransactionsPendingExecution (inflight_queue_len t) MAX_TM_QUEUE_LENGTH)
      else check_queues txn_age_threshold (objects_queue_len_and_age lib now ids t))"

end
