(* ===== verification/TmInvariant.thy ===== *)
theory TmInvariant
  imports TransactionManager
begin

text \<open>
  The invariant of the transaction manager: the keys that are missed, the queues of the objects and the certificates
  that wait say the same. Every operation keeps it, and none of the assertions of the code fails.
\<close>

section \<open>The libraries\<close>

text \<open>What the code relies on of an unbounded LRU cache and of an insertion-ordered map, as they are documented.\<close>

definition lru_laws :: "('c, 'a) lru_ops \<Rightarrow> bool" where
  "lru_laws ops \<longleftrightarrow>
     lru_peek ops (lru_unbounded ops) = Map.empty \<and>
     (\<forall>k c. fst (lru_get ops k c) = lru_peek ops c k \<and> lru_peek ops (snd (lru_get ops k c)) = lru_peek ops c) \<and>
     (\<forall>k x c. fst (lru_push ops k x c) = map_option (\<lambda>y. (k, y)) (lru_peek ops c k) \<and>
        lru_peek ops (snd (lru_push ops k x c)) = (lru_peek ops c)(k \<mapsto> x)) \<and>
     (\<forall>k x c. lru_peek ops (lru_put ops k x c) = (lru_peek ops c)(k \<mapsto> x)) \<and>
     (\<forall>c. 0 < lru_len ops c \<longrightarrow> lru_len ops (lru_pop_lru ops c) < lru_len ops c \<and>
        (\<exists>k. lru_peek ops (lru_pop_lru ops c) = (lru_peek ops c)(k := None)))"

definition index_laws :: "'m index_ops \<Rightarrow> bool" where
  "index_laws ops \<longleftrightarrow>
     im_entries ops (im_default ops) = [] \<and>
     (\<forall>d time m. im_entries ops (im_insert ops d time m) =
        (if d \<in> fst ` set (im_entries ops m) then map (\<lambda>e. if fst e = d then (d, time) else e) (im_entries ops m)
         else im_entries ops m @ [(d, time)])) \<and>
     (\<forall>d m. fst (im_shift_remove ops d m) = map_of (im_entries ops m) d \<and>
        im_entries ops (snd (im_shift_remove ops d m)) = filter (\<lambda>e. fst e \<noteq> d) (im_entries ops m))"

definition tm_laws :: "('v, 'u, 'm) tm_lib \<Rightarrow> bool" where
  "tm_laws lib \<longleftrightarrow> lru_laws (versioned_ops lib) \<and> lru_laws (unversioned_ops lib) \<and> index_laws (index_map_ops lib)"

lemma lru_lawsD:
  assumes "lru_laws ops"
  shows "lru_peek ops (lru_unbounded ops) = Map.empty" "fst (lru_get ops k c) = lru_peek ops c k"
    "lru_peek ops (snd (lru_get ops k c)) = lru_peek ops c"
    "fst (lru_push ops k x c) = map_option (\<lambda>y. (k, y)) (lru_peek ops c k)"
    "lru_peek ops (snd (lru_push ops k x c)) = (lru_peek ops c)(k \<mapsto> x)"
    "lru_peek ops (lru_put ops k x c) = (lru_peek ops c)(k \<mapsto> x)"
    "0 < lru_len ops c \<Longrightarrow> lru_len ops (lru_pop_lru ops c) < lru_len ops c"
    "0 < lru_len ops c \<Longrightarrow> \<exists>k. lru_peek ops (lru_pop_lru ops c) = (lru_peek ops c)(k := None)"
  using assms unfolding lru_laws_def by blast+

lemma index_lawsD:
  assumes "index_laws ops"
  shows "im_entries ops (im_default ops) = []"
    "im_entries ops (im_insert ops d time m) =
        (if d \<in> fst ` set (im_entries ops m) then map (\<lambda>e. if fst e = d then (d, time) else e) (im_entries ops m)
         else im_entries ops m @ [(d, time)])"
    "fst (im_shift_remove ops d m) = map_of (im_entries ops m) d"
    "im_entries ops (snd (im_shift_remove ops d m)) = filter (\<lambda>e. fst e \<noteq> d) (im_entries ops m)"
  using assms unfolding index_laws_def by blast+

lemma tm_lawsD:
  assumes "tm_laws lib"
  shows "lru_laws (versioned_ops lib)" "lru_laws (unversioned_ops lib)" "index_laws (index_map_ops lib)"
  using assms unfolding tm_laws_def by blast+

lemma lru_shrink_returns:
  assumes "lru_laws ops"
  shows "\<exists>c'. lru_shrink ops n c = Some c' \<and> lru_peek ops c' \<subseteq>\<^sub>m lru_peek ops c"
proof (induction "lru_len ops c" arbitrary: c rule: less_induct)
  case less
  show ?case
  proof (cases "n < lru_len ops c")
    case True
    then have dec: "lru_len ops (lru_pop_lru ops c) < lru_len ops c"
      using lru_lawsD(7) [OF assms] by simp
    obtain k where "lru_peek ops (lru_pop_lru ops c) = (lru_peek ops c)(k := None)"
      using lru_lawsD(8) [OF assms] True by (metis gr_zeroI not_less0)
    then have sub: "lru_peek ops (lru_pop_lru ops c) \<subseteq>\<^sub>m lru_peek ops c" by (simp add: map_le_def)
    from less [OF dec] sub True show ?thesis
      by (subst lru_shrink.simps) (auto intro: map_le_trans)
  next
    case False
    then show ?thesis by (subst lru_shrink.simps) simp
  qed
qed

section \<open>What the cache knows\<close>

definition known :: "('v, 'u, 'm) tm_lib \<Rightarrow> ('v, 'u) available_objects \<Rightarrow> input_key \<Rightarrow> bool option" where
  "known lib a k =
     (case k of
        VersionedObject i v \<Rightarrow> map_option (\<lambda>c. v \<le> c) (lru_peek (versioned_ops lib) (versioned_cache (aoc_cache a)) i)
      | PackageKey i \<Rightarrow> map_option (\<lambda>_. True) (lru_peek (unversioned_ops lib) (unversioned_cache (aoc_cache a)) i))"

abbreviation versions :: "('v, 'u, 'm) tm_lib \<Rightarrow> ('v, 'u) available_objects \<Rightarrow> object_id \<Rightarrow> nat option" where
  "versions lib a \<equiv> lru_peek (versioned_ops lib) (versioned_cache (aoc_cache a))"

abbreviation packages :: "('v, 'u, 'm) tm_lib \<Rightarrow> ('v, 'u) available_objects \<Rightarrow> object_id \<Rightarrow> unit option" where
  "packages lib a \<equiv> lru_peek (unversioned_ops lib) (unversioned_cache (aoc_cache a))"

text \<open>The same knowledge: asking changes only what is recent.\<close>

definition same_known :: "('v, 'u, 'm) tm_lib \<Rightarrow> ('v, 'u) available_objects \<Rightarrow> ('v, 'u) available_objects \<Rightarrow> bool" where
  "same_known lib a b \<longleftrightarrow> versions lib b = versions lib a \<and> packages lib b = packages lib a \<and>
     unbounded_cache_enabled b = unbounded_cache_enabled a"

lemma same_known_refl [simp]: "same_known lib a a"
  by (simp add: same_known_def)

lemma same_known_trans: "same_known lib a b \<Longrightarrow> same_known lib b c \<Longrightarrow> same_known lib a c"
  by (simp add: same_known_def)

lemma same_known_known: "same_known lib a b \<Longrightarrow> known lib b = known lib a"
  unfolding same_known_def known_def by simp

lemma aoc_available:
  assumes "tm_laws lib" and "aoc_available lib k a = (r, b)"
  shows "r = known lib a k" "same_known lib a b"
proof -
  note l = lru_lawsD(2,3) [OF tm_lawsD(1) [OF assms(1)]] lru_lawsD(2,3) [OF tm_lawsD(2) [OF assms(1)]]
  have "r = known lib a k \<and> same_known lib a b"
    using assms(2) by (cases k) (auto simp: aoc_available_def cache_available_def known_def same_known_def case_prod_beta' l)
  then show "r = known lib a k" "same_known lib a b" by blast+
qed

text \<open>The contents after an insertion, before anything is evicted.\<close>

definition insert_versions :: "input_key \<Rightarrow> (object_id \<Rightarrow> nat option) \<Rightarrow> object_id \<Rightarrow> nat option" where
  "insert_versions k m =
     (case k of
        VersionedObject i v \<Rightarrow> m(i \<mapsto> (case m i of Some c \<Rightarrow> max c v | None \<Rightarrow> v))
      | PackageKey i \<Rightarrow> m)"

definition insert_packages :: "input_key \<Rightarrow> (object_id \<Rightarrow> unit option) \<Rightarrow> object_id \<Rightarrow> unit option" where
  "insert_packages k m = (case k of VersionedObject i v \<Rightarrow> m | PackageKey i \<Rightarrow> m(i \<mapsto> ()))"

lemma cache_insert:
  assumes "tm_laws lib"
  shows "lru_peek (versioned_ops lib) (versioned_cache (cache_insert lib k c)) =
      insert_versions k (lru_peek (versioned_ops lib) (versioned_cache c))"
    "lru_peek (unversioned_ops lib) (unversioned_cache (cache_insert lib k c)) =
      insert_packages k (lru_peek (unversioned_ops lib) (unversioned_cache c))"
proof -
  have v: "lru_laws (versioned_ops lib)" and u: "lru_laws (unversioned_ops lib)" using assms by (simp_all add: tm_laws_def)
  show "lru_peek (versioned_ops lib) (versioned_cache (cache_insert lib k c)) =
      insert_versions k (lru_peek (versioned_ops lib) (versioned_cache c))"
  proof (cases k)
    case (VersionedObject i w)
    obtain r c' where p: "lru_push (versioned_ops lib) i w (versioned_cache c) = (r, c')" by fastforce
    have r: "r = map_option (\<lambda>y. (i, y)) (lru_peek (versioned_ops lib) (versioned_cache c) i)"
      "lru_peek (versioned_ops lib) c' = (lru_peek (versioned_ops lib) (versioned_cache c))(i \<mapsto> w)"
      using lru_lawsD(4,5) [OF v, of i w "versioned_cache c"] p by simp_all
    have put: "lru_peek (versioned_ops lib) (lru_put (versioned_ops lib) i x c') =
        (lru_peek (versioned_ops lib) c')(i \<mapsto> x)" for x
      by (rule lru_lawsD(6) [OF v])
    show ?thesis
      by (cases "lru_peek (versioned_ops lib) (versioned_cache c) i")
        (auto simp: VersionedObject cache_insert_def p r put insert_versions_def max_def)
  qed (simp add: cache_insert_def insert_versions_def)
  show "lru_peek (unversioned_ops lib) (unversioned_cache (cache_insert lib k c)) =
      insert_packages k (lru_peek (unversioned_ops lib) (unversioned_cache c))"
    by (cases k) (auto simp: cache_insert_def insert_packages_def lru_lawsD(5) [OF u] split: prod.splits option.splits if_splits)
qed

lemma aoc_insert:
  assumes "tm_laws lib"
  obtains b where "aoc_insert lib k a = Some b" "unbounded_cache_enabled b = unbounded_cache_enabled a"
    "versions lib b \<subseteq>\<^sub>m insert_versions k (versions lib a)" "packages lib b \<subseteq>\<^sub>m insert_packages k (packages lib a)"
    "0 < unbounded_cache_enabled a \<Longrightarrow>
       versions lib b = insert_versions k (versions lib a) \<and> packages lib b = insert_packages k (packages lib a)"
proof -
  let ?c = "cache_insert lib k (aoc_cache a)"
  note c = cache_insert [OF assms, of k "aoc_cache a"]
  obtain v u where v: "lru_shrink (versioned_ops lib) (max_size ?c) (versioned_cache ?c) = Some v"
    "lru_peek (versioned_ops lib) v \<subseteq>\<^sub>m lru_peek (versioned_ops lib) (versioned_cache ?c)"
    and u: "lru_shrink (unversioned_ops lib) (max_size ?c) (unversioned_cache ?c) = Some u"
    "lru_peek (unversioned_ops lib) u \<subseteq>\<^sub>m lru_peek (unversioned_ops lib) (unversioned_cache ?c)"
    using lru_shrink_returns assms unfolding tm_laws_def by metis
  show ?thesis
  proof (cases "unbounded_cache_enabled a = 0")
    case True
    with v u c show ?thesis
      by (intro that [of "a\<lparr>aoc_cache := ?c\<lparr>versioned_cache := v, unversioned_cache := u\<rparr>\<rparr>"])
        (simp_all add: aoc_insert_def cache_shrink_def Let_def)
  next
    case False
    with c show ?thesis
      by (intro that [of "a\<lparr>aoc_cache := ?c\<rparr>"]) (simp_all add: aoc_insert_def Let_def)
  qed
qed

lemma known_insert: "map_option (\<lambda>c. v \<le> c) (insert_versions (VersionedObject i v) m i) = Some True"
  by (simp add: insert_versions_def split: option.splits)

section \<open>The invariant\<close>

definition waiting_on :: "('v, 'u, 'm) tm_inner \<Rightarrow> tx_digest \<Rightarrow> input_key set" where
  "waiting_on t d = (case bt_get (pending_certificates t) d of None \<Rightarrow> {} | Some pc \<Rightarrow> set (waiting_input_objects pc))"

definition missed_by :: "('v, 'u, 'm) tm_inner \<Rightarrow> input_key \<Rightarrow> tx_digest set" where
  "missed_by t k = (case bt_get (missing_inputs t) k of None \<Rightarrow> {} | Some ds \<Rightarrow> set ds)"

definition queued :: "('v, 'u, 'm) tm_lib \<Rightarrow> ('v, 'u, 'm) tm_inner \<Rightarrow> object_id \<Rightarrow> tx_digest set" where
  "queued lib t i =
     (case bt_get (tm_input_objects t) i of None \<Rightarrow> {} | Some m \<Rightarrow> fst ` set (im_entries (index_map_ops lib) m))"

text \<open>The maps are in order and hold no empty queue.\<close>

definition tm_sorted :: "('v, 'u, 'm) tm_lib \<Rightarrow> ('v, 'u, 'm) tm_inner \<Rightarrow> bool" where
  "tm_sorted lib t \<longleftrightarrow>
     keys_sorted (missing_inputs t) \<and> keys_sorted (tm_input_objects t) \<and> keys_sorted (pending_certificates t) \<and>
     sorted_wrt (<) (executing_certificates t) \<and>
     (\<forall>k ds. bt_get (missing_inputs t) k = Some ds \<longrightarrow> ds \<noteq> [] \<and> sorted_wrt (<) ds) \<and>
     (\<forall>i m. bt_get (tm_input_objects t) i = Some m \<longrightarrow> im_entries (index_map_ops lib) m \<noteq> [])"

text \<open>
  A certificate that waits is filed under its digest, waits for something, for at most one key of each object, and is
  not executing.
\<close>

definition pending_ok :: "('v, 'u, 'm) tm_inner \<Rightarrow> bool" where
  "pending_ok t \<longleftrightarrow>
     (\<forall>d pc. bt_get (pending_certificates t) d = Some pc \<longrightarrow>
        cert_digest (certificate pc) = d \<and> waiting_input_objects pc \<noteq> [] \<and>
        inj_on key_id (set (waiting_input_objects pc)) \<and> d \<notin> set (executing_certificates t))"

definition tm_ok :: "('v, 'u, 'm) tm_lib \<Rightarrow> ('v, 'u, 'm) tm_inner \<Rightarrow> bool" where
  "tm_ok lib t \<longleftrightarrow>
     tm_sorted lib t \<and> pending_ok t \<and>
     (\<forall>k. missed_by t k = {d. k \<in> waiting_on t d}) \<and>
     (\<forall>i. queued lib t i = {d. i \<in> key_id ` waiting_on t d})"

lemma tm_inner_new_ok: "tm_ok lib (tm_inner_new lib e)"
  by (simp add: tm_ok_def tm_sorted_def pending_ok_def tm_inner_new_def missed_by_def waiting_on_def queued_def bt_get_def)

text \<open>The cache is no part of it.\<close>

lemma tm_ok_cache [simp]:
  "tm_ok lib (t\<lparr>available_objects_cache := a\<rparr>) = tm_ok lib t"
  "waiting_on (t\<lparr>available_objects_cache := a\<rparr>) = waiting_on t"
  by (simp_all add: tm_ok_def tm_sorted_def pending_ok_def missed_by_def waiting_on_def queued_def fun_eq_iff)

section \<open>A key becomes available\<close>

lemma dequeue_all_Some:
  assumes "index_laws ops" and "distinct ds" and "set ds \<subseteq> fst ` set (im_entries ops m)"
  shows "\<exists>m'. dequeue_all ops ds m = Some m' \<and> im_entries ops m' = filter (\<lambda>e. fst e \<notin> set ds) (im_entries ops m)"
  using assms(2,3)
proof (induction ds arbitrary: m)
  case (Cons d ds)
  note l = index_lawsD(3,4) [OF assms(1)]
  let ?m = "snd (im_shift_remove ops d m)"
  have e: "im_entries ops ?m = filter (\<lambda>e. fst e \<noteq> d) (im_entries ops m)" by (rule l(2))
  have "fst (im_shift_remove ops d m) \<noteq> None"
    using Cons.prems(2) unfolding l(1) by (simp add: map_of_eq_None_iff)
  moreover have "set ds \<subseteq> fst ` set (im_entries ops ?m)"
    using Cons.prems unfolding e by fastforce
  from Cons.IH [OF _ this] Cons.prems(1) obtain m' where
    "dequeue_all ops ds ?m = Some m'" "im_entries ops m' = filter (\<lambda>e. fst e \<notin> set ds) (im_entries ops ?m)" by auto
  ultimately show ?case by (auto simp: case_prod_beta' e conj_commute intro: filter_cong)
qed simp

definition release :: "input_key \<Rightarrow> pending_certificate \<Rightarrow> pending_certificate" where
  "release k pc = pc\<lparr>waiting_input_objects := filter (\<lambda>x. x \<noteq> k) (waiting_input_objects pc)\<rparr>"

lemma release_empty: "waiting_input_objects (release k pc) = [] \<longleftrightarrow> set (waiting_input_objects pc) \<subseteq> {k}"
  by (auto simp: release_def filter_empty_conv)

lemma release_certificate [simp]: "certificate (release k pc) = certificate pc"
  by (simp add: release_def)

definition released :: "input_key \<Rightarrow> (tx_digest \<Rightarrow> pending_certificate option) \<Rightarrow> tx_digest \<Rightarrow> pending_certificate option" where
  "released k m d =
     (case m d of
        None \<Rightarrow> None
      | Some pc \<Rightarrow> if waiting_input_objects (release k pc) = [] then None else Some (release k pc))"

lemma release_all_Some:
  assumes "keys_sorted pending" and "distinct ds"
    and "\<forall>d \<in> set ds. \<exists>pc. bt_get pending d = Some pc \<and> k \<in> set (waiting_input_objects pc)"
  shows "\<exists>pending'. release_all k ds pending =
      Some (map (\<lambda>d. release k (the (bt_get pending d)))
        (filter (\<lambda>d. waiting_input_objects (release k (the (bt_get pending d))) = []) ds), pending') \<and>
    keys_sorted pending' \<and>
    bt_get pending' = (\<lambda>d. if d \<in> set ds then released k (bt_get pending) d else bt_get pending d)"
  using assms
proof (induction ds arbitrary: pending)
  case (Cons d ds)
  obtain pc where pc: "bt_get pending d = Some pc" "k \<in> set (waiting_input_objects pc)" using Cons.prems(3) by auto
  let ?next = "if waiting_input_objects (release k pc) = [] then bt_remove d pending else bt_insert d (release k pc) pending"
  have get: "bt_get ?next = (bt_get pending)(d := released k (bt_get pending) d)"
    by (simp add: bt_get_insert bt_get_remove released_def pc(1))
  have sorted: "keys_sorted ?next" using Cons.prems(1) by simp
  have other: "\<And>x. x \<in> set ds \<Longrightarrow> bt_get ?next x = bt_get pending x" using Cons.prems(2) by (simp only: get) auto
  have "\<forall>x \<in> set ds. \<exists>pc. bt_get ?next x = Some pc \<and> k \<in> set (waiting_input_objects pc)"
    using Cons.prems(3) other by simp
  from Cons.IH [OF sorted _ this] Cons.prems(2) obtain pending' where p: "release_all k ds ?next =
      Some (map (\<lambda>d. release k (the (bt_get ?next d)))
        (filter (\<lambda>d. waiting_input_objects (release k (the (bt_get ?next d))) = []) ds), pending')" "keys_sorted pending'"
    "bt_get pending' = (\<lambda>d. if d \<in> set ds then released k (bt_get ?next) d else bt_get ?next d)" by auto
  have eq: "map (\<lambda>d. release k (the (bt_get ?next d)))
        (filter (\<lambda>d. waiting_input_objects (release k (the (bt_get ?next d))) = []) ds) =
      map (\<lambda>d. release k (the (bt_get pending d)))
        (filter (\<lambda>d. waiting_input_objects (release k (the (bt_get pending d))) = []) ds)"
    using other by (intro map_cong filter_cong) auto
  have "bt_get pending' x = (if x \<in> set (d # ds) then released k (bt_get pending) x else bt_get pending x)" for x
    using Cons.prems(2) other [of x] unfolding p(3) by (auto simp: get released_def)
  then have g: "bt_get pending' = (\<lambda>x. if x \<in> set (d # ds) then released k (bt_get pending) x else bt_get pending x)" by blast
  have def: "release_all k (d # ds) pending = (if waiting_input_objects (release k pc) = []
      then Option.bind (release_all k ds ?next) (\<lambda>(ready, q). Some (release k pc # ready, q)) else release_all k ds ?next)"
    using pc by (simp add: release_def Let_def)
  show ?case unfolding def using p(1,2) g by (simp only: eq) (simp add: pc(1))
qed auto

text \<open>What a notification of one key does to the waiting certificates.\<close>

lemma waiting_on_release:
  assumes "bt_get (pending_certificates t') = (\<lambda>d. if k \<in> waiting_on t d then released k (bt_get (pending_certificates t)) d
      else bt_get (pending_certificates t) d)"
  shows "waiting_on t' d = waiting_on t d - {k}"
proof (cases "bt_get (pending_certificates t) d")
  case None
  then show ?thesis by (simp add: waiting_on_def assms)
next
  case (Some pc)
  then have get: "bt_get (pending_certificates t') d = (if k \<in> set (waiting_input_objects pc)
      then if waiting_input_objects (release k pc) = [] then None else Some (release k pc) else Some pc)"
    unfolding assms by (simp add: waiting_on_def released_def)
  have set: "set (waiting_input_objects (release k pc)) = set (waiting_input_objects pc) - {k}"
    by (auto simp: release_def)
  show ?thesis
  proof (cases "waiting_input_objects (release k pc) = []")
    case True
    with set have "set (waiting_input_objects pc) \<subseteq> {k}" by auto
    with True show ?thesis using Some by (auto simp: waiting_on_def get)
  next
    case False
    with Some set show ?thesis by (simp add: waiting_on_def get)
  qed
qed

lemma find_ready_transactions:
  assumes laws: "tm_laws lib" and ok: "tm_ok lib t" and cache: "available_objects_cache t = a"
    and ins: "(if update then aoc_insert lib k a else Some a) = Some b"
  obtains ready t' where "find_ready_transactions lib k update t = Some (ready, t')" "tm_ok lib t'"
    "available_objects_cache t' = b" "tm_epoch t' = tm_epoch t" "executing_certificates t' = executing_certificates t"
    "\<And>d. waiting_on t' d = waiting_on t d - {k}"
    "\<And>d. bt_get (pending_certificates t') d =
       (if k \<in> waiting_on t d then released k (bt_get (pending_certificates t)) d else bt_get (pending_certificates t) d)"
    "distinct (map (cert_digest \<circ> certificate) ready)"
    "set ready = {release k pc | pc d. bt_get (pending_certificates t) d = Some pc \<and> set (waiting_input_objects pc) = {k}}"
proof -
  have srt: "tm_sorted lib t" and pok: "pending_ok t" and mb: "\<And>k. missed_by t k = {d. k \<in> waiting_on t d}"
    and qd: "\<And>i. queued lib t i = {d. i \<in> key_id ` waiting_on t d}"
    using ok unfolding tm_ok_def by blast+
  show ?thesis
  proof (cases "bt_get (missing_inputs t) k")
    case None
    then have nobody: "k \<notin> waiting_on t d" for d using mb [of k] by (simp add: missed_by_def)
    have "\<not> (bt_get (pending_certificates t) d = Some pc \<and> set (waiting_input_objects pc) = {k})" for d pc
      using nobody [of d] by (auto simp: waiting_on_def)
    with nobody None ins ok cache show ?thesis
      by (intro that [of "[]" "t\<lparr>available_objects_cache := b\<rparr>"]) (auto simp: find_ready_transactions_def Let_def)
  next
    case (Some ds)
    have ds: "set ds = {d. k \<in> waiting_on t d}" using mb [of k] Some by (simp add: missed_by_def)
    have dd: "distinct ds" "ds \<noteq> []" using srt Some by (auto simp: tm_sorted_def strict_sorted_iff)
    have pend: "\<forall>d \<in> set ds. \<exists>pc. bt_get (pending_certificates t) d = Some pc \<and> k \<in> set (waiting_input_objects pc)"
      unfolding ds waiting_on_def by (auto split: option.splits)
    have sub: "set ds \<subseteq> queued lib t (key_id k)" unfolding qd ds by blast
    obtain m where m: "bt_get (tm_input_objects t) (key_id k) = Some m"
      using sub dd(2) by (cases "bt_get (tm_input_objects t) (key_id k)") (auto simp: queued_def)
    then obtain m' where m': "dequeue_all (index_map_ops lib) ds m = Some m'"
      "im_entries (index_map_ops lib) m' = filter (\<lambda>e. fst e \<notin> set ds) (im_entries (index_map_ops lib) m)"
      using dequeue_all_Some [OF tm_lawsD(3) [OF laws] dd(1)] sub by (auto simp: queued_def)
    have sp: "keys_sorted (pending_certificates t)" using srt by (simp add: tm_sorted_def)
    let ?ready = "map (\<lambda>d. release k (the (bt_get (pending_certificates t) d)))
        (filter (\<lambda>d. waiting_input_objects (release k (the (bt_get (pending_certificates t) d))) = []) ds)"
    obtain pending' where p: "release_all k ds (pending_certificates t) = Some (?ready, pending')" "keys_sorted pending'"
      "bt_get pending' = (\<lambda>d. if d \<in> set ds then released k (bt_get (pending_certificates t)) d else bt_get (pending_certificates t) d)"
      using release_all_Some [OF sp dd(1) pend] by blast
    let ?objs = "if im_entries (index_map_ops lib) m' = [] then bt_remove (key_id k) (tm_input_objects t)
        else bt_insert (key_id k) m' (tm_input_objects t)"
    let ?t = "t\<lparr>available_objects_cache := b, missing_inputs := bt_remove k (missing_inputs t),
        tm_input_objects := ?objs, pending_certificates := pending'\<rparr>"
    have run: "find_ready_transactions lib k update t = Some (?ready, ?t)"
      using ins cache Some m m' p(1) by (cases update) (simp_all add: find_ready_transactions_def Let_def)
    have get: "bt_get (pending_certificates ?t) = (\<lambda>d. if k \<in> waiting_on t d then released k (bt_get (pending_certificates t)) d
        else bt_get (pending_certificates t) d)"
      using p(3) ds by (simp add: fun_eq_iff)
    note w = waiting_on_release [OF get]
    have "missed_by ?t x = {d. x \<in> waiting_on ?t d}" for x
      using mb [of x] by (auto simp: w missed_by_def bt_get_remove)
    moreover have "queued lib ?t i = {d. i \<in> key_id ` waiting_on ?t d}" for i
    proof (cases "i = key_id k")
      case True
      have "i \<notin> key_id ` (waiting_on t d - {k})" if "k \<in> waiting_on t d" for d
        using that pok True unfolding pending_ok_def waiting_on_def by (auto split: option.splits simp: inj_on_def)
      moreover have "queued lib ?t i = queued lib t i - set ds"
        using True m m'(2) by (auto simp: queued_def bt_get_insert bt_get_remove filter_empty_conv)
      ultimately show ?thesis unfolding qd ds w by auto
    next
      case False
      then have "i \<in> key_id ` (waiting_on t d - {k}) \<longleftrightarrow> i \<in> key_id ` waiting_on t d" for d by auto
      moreover have "queued lib ?t i = queued lib t i" using False by (simp add: queued_def bt_get_insert bt_get_remove)
      ultimately show ?thesis unfolding qd w by simp
    qed
    moreover have "tm_sorted lib ?t"
      using srt p(2) by (simp add: tm_sorted_def bt_get_insert bt_get_remove)
    moreover have "pending_ok ?t"
      unfolding pending_ok_def
    proof (intro allI impI)
      fix d pc
      assume a: "bt_get (pending_certificates ?t) d = Some pc"
      then obtain pc0 where "bt_get (pending_certificates t) d = Some pc0" "waiting_input_objects pc \<noteq> []"
        "pc = pc0 \<or> pc = release k pc0"
        using pok unfolding get by (auto simp: released_def pending_ok_def split: if_splits option.splits)
      with pok show "cert_digest (certificate pc) = d \<and> waiting_input_objects pc \<noteq> [] \<and>
          inj_on key_id (set (waiting_input_objects pc)) \<and> d \<notin> set (executing_certificates ?t)"
        unfolding pending_ok_def release_def by (auto simp: inj_on_def)
    qed
    ultimately have ok': "tm_ok lib ?t" unfolding tm_ok_def by blast
    have cd: "cert_digest (certificate (release k (the (bt_get (pending_certificates t) d)))) = d" if "d \<in> set ds" for d
      using pend that pok by (force simp: pending_ok_def release_def)
    have "map (cert_digest \<circ> certificate) ?ready =
        filter (\<lambda>d. waiting_input_objects (release k (the (bt_get (pending_certificates t) d))) = []) ds"
      unfolding map_map by (rule map_idI) (use cd in auto)
    then have dist: "distinct (map (cert_digest \<circ> certificate) ?ready)" using dd(1) by simp
    have ready: "set ?ready = {release k pc | pc d. bt_get (pending_certificates t) d = Some pc \<and> set (waiting_input_objects pc) = {k}}"
    proof (intro set_eqI iffI)
      fix x assume "x \<in> set ?ready"
      then obtain d where d: "d \<in> set ds" "x = release k (the (bt_get (pending_certificates t) d))"
        "waiting_input_objects (release k (the (bt_get (pending_certificates t) d))) = []" by auto
      obtain pc where pc: "bt_get (pending_certificates t) d = Some pc" "k \<in> set (waiting_input_objects pc)"
        using pend d(1) by blast
      have "set (waiting_input_objects pc) = {k}" using d(3) pc by (auto simp: release_empty)
      with d(2) pc(1) show "x \<in> {release k pc | pc d. bt_get (pending_certificates t) d = Some pc \<and> set (waiting_input_objects pc) = {k}}"
        by auto
    next
      fix x assume "x \<in> {release k pc | pc d. bt_get (pending_certificates t) d = Some pc \<and> set (waiting_input_objects pc) = {k}}"
      then obtain pc d where x: "x = release k pc" "bt_get (pending_certificates t) d = Some pc" "set (waiting_input_objects pc) = {k}"
        by blast
      then have "d \<in> set ds" unfolding ds by (simp add: waiting_on_def)
      then show "x \<in> set ?ready"
        using x unfolding set_map set_filter by (intro image_eqI [of _ _ d]) (simp_all add: release_empty)
    qed
    show ?thesis
      by (rule that [OF run ok' _ _ _ w fun_cong [OF get] dist ready]) simp_all
  qed
qed

text \<open>Sending the certificates that are ready.\<close>

lemma certificates_ready:
  assumes "distinct (map (cert_digest \<circ> certificate) ready)"
    and "\<forall>pc \<in> set ready. waiting_input_objects pc = [] \<and> cert_digest (certificate pc) \<notin> set (executing_certificates (inner t))"
  shows "\<exists>t'. fold_opt (\<lambda>pc. certificate_ready (pc\<lparr>ready_time := Some now\<rparr>)) ready t = Some t' \<and>
    inner t' = (inner t)\<lparr>executing_certificates := executing_certificates (inner t')\<rparr> \<and>
    (sorted_wrt (<) (executing_certificates (inner t)) \<longrightarrow> sorted_wrt (<) (executing_certificates (inner t'))) \<and>
    set (executing_certificates (inner t')) =
      set (executing_certificates (inner t)) \<union> (cert_digest \<circ> certificate) ` set ready \<and>
    tx_ready_certificates t' = tx_ready_certificates t @ map (\<lambda>pc. pc\<lparr>ready_time := Some now\<rparr>) ready \<and>
    removed_pending_executions t' = removed_pending_executions t"
  using assms
proof (induction ready arbitrary: t)
  case (Cons pc ready)
  let ?d = "cert_digest (certificate pc)"
  let ?t = "t\<lparr>inner := (inner t)\<lparr>executing_certificates := bs_insert ?d (executing_certificates (inner t))\<rparr>,
      tx_ready_certificates := tx_ready_certificates t @ [pc\<lparr>ready_time := Some now\<rparr>]\<rparr>"
  have step: "certificate_ready (pc\<lparr>ready_time := Some now\<rparr>) t = Some ?t"
    using Cons.prems(2) by (simp add: certificate_ready_def Let_def)
  have "\<forall>x \<in> set ready. waiting_input_objects x = [] \<and> cert_digest (certificate x) \<notin> set (executing_certificates (inner ?t))"
    using Cons.prems by (auto simp: image_iff)
  from Cons.IH [OF _ this] Cons.prems(1) obtain t' where t': "fold_opt (\<lambda>pc. certificate_ready (pc\<lparr>ready_time := Some now\<rparr>)) ready ?t = Some t'"
    "inner t' = (inner ?t)\<lparr>executing_certificates := executing_certificates (inner t')\<rparr>"
    "sorted_wrt (<) (executing_certificates (inner ?t)) \<longrightarrow> sorted_wrt (<) (executing_certificates (inner t'))"
    "set (executing_certificates (inner t')) = set (executing_certificates (inner ?t)) \<union> (cert_digest \<circ> certificate) ` set ready"
    "tx_ready_certificates t' = tx_ready_certificates ?t @ map (\<lambda>pc. pc\<lparr>ready_time := Some now\<rparr>) ready"
    "removed_pending_executions t' = removed_pending_executions ?t" by auto
  show ?case
    by (rule exI [of _ t']) (use t' step in \<open>auto simp: insert_commute\<close>)
qed (auto intro: exI [of _ t])

text \<open>Executing more transactions, none of which waits, keeps the invariant.\<close>

lemma tm_ok_executing:
  assumes "tm_ok lib t" and "t' = t\<lparr>executing_certificates := e\<rparr>" and "sorted_wrt (<) e"
    and "\<And>d. d \<in> set e \<Longrightarrow> d \<notin> set (executing_certificates t) \<Longrightarrow> bt_get (pending_certificates t) d = None"
  shows "tm_ok lib t'" "waiting_on t' = waiting_on t"
proof -
  have "pending_ok t" "tm_sorted lib t" using assms(1) by (simp_all add: tm_ok_def)
  then have "pending_ok t'" "tm_sorted lib t'"
    using assms(3,4) unfolding assms(2) by (auto simp: pending_ok_def tm_sorted_def) (metis option.distinct(1))
  moreover show w: "waiting_on t' = waiting_on t" by (simp add: assms(2) waiting_on_def fun_eq_iff)
  moreover have "missed_by t' = missed_by t" "queued lib t' = queued lib t"
    by (simp_all add: assms(2) missed_by_def queued_def fun_eq_iff)
  ultimately show "tm_ok lib t'" using assms(1) by (simp add: tm_ok_def)
qed

text \<open>Nothing is lost: what waited for the key alone is sent, and what waited for more still waits.\<close>

definition woken :: "input_key \<Rightarrow> ('v, 'u, 'm) tm \<Rightarrow> ('v, 'u, 'm) tm \<Rightarrow> bool" where
  "woken k t t' \<longleftrightarrow>
     set (tx_ready_certificates t) \<subseteq> set (tx_ready_certificates t') \<and>
     (\<forall>d pc. bt_get (pending_certificates (inner t)) d = Some pc \<longrightarrow>
        (if set (waiting_input_objects pc) = {k} then \<exists>pc' \<in> set (tx_ready_certificates t'). certificate pc' = certificate pc
         else \<exists>pc'. bt_get (pending_certificates (inner t')) d = Some pc' \<and> certificate pc' = certificate pc))"

text \<open>
  One key in full: the certificates that waited for it alone are sent, and are executing; the others wait for one key
  less.
\<close>

lemma object_available_step:
  assumes laws: "tm_laws lib" and ok: "tm_ok lib (inner t)"
  obtains t' b where "object_available lib True now k t = Some t'" "tm_ok lib (inner t')"
    "aoc_insert lib k (available_objects_cache (inner t)) = Some b" "available_objects_cache (inner t') = b"
    "tm_epoch (inner t') = tm_epoch (inner t)" "\<And>d. waiting_on (inner t') d = waiting_on (inner t) d - {k}"
    "set (executing_certificates (inner t')) = set (executing_certificates (inner t)) \<union> {d. waiting_on (inner t) d = {k}}"
    "\<And>pc. pc \<in> set (tx_ready_certificates t') \<Longrightarrow> pc \<in> set (tx_ready_certificates t) \<or>
       (\<exists>pc0. bt_get (pending_certificates (inner t)) (cert_digest (certificate pc)) = Some pc0 \<and>
          certificate pc0 = certificate pc \<and> set (waiting_input_objects pc0) = {k})"
    "\<And>d pc. bt_get (pending_certificates (inner t')) d = Some pc \<Longrightarrow>
       \<exists>pc0. bt_get (pending_certificates (inner t)) d = Some pc0 \<and> certificate pc = certificate pc0 \<and>
         set (waiting_input_objects pc) = set (waiting_input_objects pc0) - {k}"
    "removed_pending_executions t' = removed_pending_executions t"
    "woken k t t'"
proof -
  obtain b where b: "aoc_insert lib k (available_objects_cache (inner t)) = Some b" using aoc_insert [OF laws] by metis
  obtain ready i where f: "find_ready_transactions lib k True (inner t) = Some (ready, i)" "tm_ok lib i"
    "available_objects_cache i = b" "tm_epoch i = tm_epoch (inner t)" "executing_certificates i = executing_certificates (inner t)"
    and w: "\<And>d. waiting_on i d = waiting_on (inner t) d - {k}"
    and get: "\<And>d. bt_get (pending_certificates i) d =
       (if k \<in> waiting_on (inner t) d then released k (bt_get (pending_certificates (inner t))) d else bt_get (pending_certificates (inner t)) d)"
    and dist: "distinct (map (cert_digest \<circ> certificate) ready)"
    and ready: "set ready = {release k pc | pc d. bt_get (pending_certificates (inner t)) d = Some pc \<and> set (waiting_input_objects pc) = {k}}"
    using find_ready_transactions [OF laws ok refl, of True k b] b by (metis (no_types, lifting))
  have pok: "pending_ok (inner t)" "tm_sorted lib (inner t)" using ok by (simp_all add: tm_ok_def)
  have r: "\<exists>d pc0. bt_get (pending_certificates (inner t)) d = Some pc0 \<and> set (waiting_input_objects pc0) = {k} \<and>
      certificate pc = certificate pc0 \<and> cert_digest (certificate pc) = d \<and> waiting_input_objects pc = []" if mem: "pc \<in> set ready" for pc
  proof -
    obtain pc0 d where p: "pc = release k pc0" "bt_get (pending_certificates (inner t)) d = Some pc0" "set (waiting_input_objects pc0) = {k}"
      using mem unfolding ready by blast
    with pok(1) show ?thesis by (auto simp: pending_ok_def release_empty)
  qed
  have "\<forall>pc \<in> set ready. waiting_input_objects pc = [] \<and>
      cert_digest (certificate pc) \<notin> set (executing_certificates (inner (t\<lparr>inner := i\<rparr>)))"
  proof
    fix pc assume "pc \<in> set ready"
    from r [OF this] pok(1) f(5) show "waiting_input_objects pc = [] \<and>
      cert_digest (certificate pc) \<notin> set (executing_certificates (inner (t\<lparr>inner := i\<rparr>)))"
      by (auto simp: pending_ok_def)
  qed
  from certificates_ready [OF dist this, of now] obtain t' where
    t': "fold_opt (\<lambda>pc. certificate_ready (pc\<lparr>ready_time := Some now\<rparr>)) ready (t\<lparr>inner := i\<rparr>) = Some t'"
    "inner t' = i\<lparr>executing_certificates := executing_certificates (inner t')\<rparr>"
    "sorted_wrt (<) (executing_certificates i) \<longrightarrow> sorted_wrt (<) (executing_certificates (inner t'))"
    "set (executing_certificates (inner t')) = set (executing_certificates i) \<union> (cert_digest \<circ> certificate) ` set ready"
    "tx_ready_certificates t' = tx_ready_certificates t @ map (\<lambda>pc. pc\<lparr>ready_time := Some now\<rparr>) ready"
    "removed_pending_executions t' = removed_pending_executions t" by auto
  have digests: "(cert_digest \<circ> certificate) ` set ready = {d. waiting_on (inner t) d = {k}}"
  proof (intro set_eqI iffI)
    fix d assume "d \<in> (cert_digest \<circ> certificate) ` set ready"
    then show "d \<in> {d. waiting_on (inner t) d = {k}}" using r by (fastforce simp: waiting_on_def)
  next
    fix d assume "d \<in> {d. waiting_on (inner t) d = {k}}"
    then obtain pc where pc: "bt_get (pending_certificates (inner t)) d = Some pc" "set (waiting_input_objects pc) = {k}"
      by (auto simp: waiting_on_def split: option.splits)
    then have "release k pc \<in> set ready" unfolding ready by blast
    moreover have "cert_digest (certificate (release k pc)) = d" using pc pok(1) by (simp add: release_def pending_ok_def)
    ultimately show "d \<in> (cert_digest \<circ> certificate) ` set ready" by (metis comp_apply image_eqI)
  qed
  have gone: "bt_get (pending_certificates i) d = None" if "d \<in> set (executing_certificates (inner t'))" "d \<notin> set (executing_certificates i)" for d
  proof -
    have "waiting_on (inner t) d = {k}" using that t'(4) digests by blast
    then have "waiting_on i d = {}" by (simp add: w)
    with f(2) show ?thesis by (auto simp: tm_ok_def pending_ok_def waiting_on_def split: option.splits)
  qed
  have srt: "sorted_wrt (<) (executing_certificates (inner t'))" using t'(3) f(2) by (simp add: tm_ok_def tm_sorted_def)
  note ok' = tm_ok_executing [OF f(2) t'(2) srt gone]
  have pend': "pending_certificates (inner t') = pending_certificates i" by (subst t'(2)) simp
  have run: "object_available lib True now k t = Some t'" using f(1) t'(1) by (simp add: object_available_def)
  show ?thesis
  proof (rule that [OF run ok'(1) b])
    show "available_objects_cache (inner t') = b" "tm_epoch (inner t') = tm_epoch (inner t)"
      by (subst t'(2), simp add: f)+
    show "waiting_on (inner t') d = waiting_on (inner t) d - {k}" for d using ok'(2) w by simp
    show "set (executing_certificates (inner t')) = set (executing_certificates (inner t)) \<union> {d. waiting_on (inner t) d = {k}}"
      using t'(4) digests f(5) by simp
    show "removed_pending_executions t' = removed_pending_executions t" by (rule t'(6))
    have "if set (waiting_input_objects pc) = {k} then \<exists>pc' \<in> set (tx_ready_certificates t'). certificate pc' = certificate pc
       else \<exists>pc'. bt_get (pending_certificates (inner t')) d = Some pc' \<and> certificate pc' = certificate pc"
      if pc: "bt_get (pending_certificates (inner t)) d = Some pc" for d pc
    proof (cases "set (waiting_input_objects pc) = {k}")
      case True
      with pc have "release k pc \<in> set ready" unfolding ready by blast
      then have "(release k pc)\<lparr>ready_time := Some now\<rparr> \<in> set (tx_ready_certificates t')" unfolding t'(5) by auto
      moreover have "certificate ((release k pc)\<lparr>ready_time := Some now\<rparr>) = certificate pc" by simp
      ultimately show ?thesis using True by metis
    next
      case False
      moreover have "waiting_input_objects pc \<noteq> []" using pc pok(1) by (simp add: pending_ok_def)
      ultimately have "k \<in> set (waiting_input_objects pc) \<Longrightarrow> waiting_input_objects (release k pc) \<noteq> []"
        unfolding release_empty by (cases "waiting_input_objects pc") auto
      with pc False show ?thesis unfolding pend' get by (auto simp: released_def waiting_on_def)
    qed
    moreover have "set (tx_ready_certificates t) \<subseteq> set (tx_ready_certificates t')" unfolding t'(5) by simp
    ultimately show "woken k t t'" unfolding woken_def by blast
    show "pc \<in> set (tx_ready_certificates t) \<or> (\<exists>pc0. bt_get (pending_certificates (inner t)) (cert_digest (certificate pc)) = Some pc0 \<and>
          certificate pc0 = certificate pc \<and> set (waiting_input_objects pc0) = {k})"
      if "pc \<in> set (tx_ready_certificates t')" for pc
      using that r unfolding t'(5) by fastforce
    show "\<exists>pc0. bt_get (pending_certificates (inner t)) d = Some pc0 \<and> certificate pc = certificate pc0 \<and>
         set (waiting_input_objects pc) = set (waiting_input_objects pc0) - {k}"
      if "bt_get (pending_certificates (inner t')) d = Some pc" for d pc
    proof (cases "k \<in> waiting_on (inner t) d")
      case True
      then obtain pc0 where pc0: "bt_get (pending_certificates (inner t)) d = Some pc0"
        by (auto simp: waiting_on_def split: option.splits)
      with that True have "pc = release k pc0" unfolding pend' get by (simp add: released_def split: if_splits)
      with pc0 show ?thesis by (auto simp: release_def)
    next
      case False
      with that have "bt_get (pending_certificates (inner t)) d = Some pc" unfolding pend' get by simp
      with False show ?thesis by (auto simp: waiting_on_def)
    qed
  qed
qed

section \<open>Enqueueing\<close>

definition unavailable :: "(input_key, bool option) btree_map \<Rightarrow> input_key list \<Rightarrow> input_key set" where
  "unavailable avail ks = {k \<in> set ks. bt_get avail k = Some (Some False)}"

lemma im_insert_entries:
  assumes "index_laws ops"
  shows "fst ` set (im_entries ops (im_insert ops d now m)) = insert d (fst ` set (im_entries ops m))"
    "im_entries ops (im_insert ops d now m) \<noteq> []"
proof -
  let ?es = "im_entries ops m"
  have keys: "map fst (map (\<lambda>e. if fst e = d then (d, now) else e) ?es) = map fst ?es" by simp
  have "fst ` set (map (\<lambda>e. if fst e = d then (d, now) else e) ?es) = fst ` set ?es"
    by (metis keys set_map)
  then show "fst ` set (im_entries ops (im_insert ops d now m)) = insert d (fst ` set ?es)"
    unfolding index_lawsD(2) [OF assms] by auto
  then show "im_entries ops (im_insert ops d now m) \<noteq> []" by auto
qed

text \<open>
  The missing keys of a certificate are registered: it is filed under each of them, and in the queue of its object.
\<close>

lemma register_missing_Some:
  assumes laws: "tm_laws lib" and "tm_sorted lib t" and "distinct ks" and "\<forall>k \<in> set ks. \<exists>b. bt_get avail k = Some (Some b)"
    and "\<forall>k \<in> set ks. d \<notin> missed_by t k"
  shows "\<exists>waiting t'. register_missing lib avail d now ks t = Some (waiting, t') \<and>
    set waiting = unavailable avail ks \<and> tm_sorted lib t' \<and>
    t' = t\<lparr>missing_inputs := missing_inputs t', tm_input_objects := tm_input_objects t'\<rparr> \<and>
    (\<forall>k. missed_by t' k = (if k \<in> unavailable avail ks then insert d (missed_by t k) else missed_by t k)) \<and>
    (\<forall>i. queued lib t' i = (if i \<in> key_id ` unavailable avail ks then insert d (queued lib t i) else queued lib t i))"
  using assms(2-5)
proof (induction ks arbitrary: t)
  case Nil
  then show ?case by (auto simp: unavailable_def)
next
  case (Cons k ks)
  obtain b where b: "bt_get avail k = Some (Some b)" using Cons.prems(3) by auto
  show ?case
  proof (cases b)
    case True
    have "unavailable avail (k # ks) = unavailable avail ks" using b True by (auto simp: unavailable_def)
    with Cons True b show ?thesis by simp
  next
    case False
    let ?ds = "case bt_get (missing_inputs t) k of Some ds \<Rightarrow> ds | None \<Rightarrow> []"
    let ?txns = "case bt_get (tm_input_objects t) (key_id k) of Some txns \<Rightarrow> txns | None \<Rightarrow> im_default (index_map_ops lib)"
    let ?m = "im_insert (index_map_ops lib) d now ?txns"
    let ?t = "t\<lparr>missing_inputs := bt_insert k (bs_insert d ?ds) (missing_inputs t),
        tm_input_objects := bt_insert (key_id k) ?m (tm_input_objects t)\<rparr>"
    note ix = tm_lawsD(3) [OF laws]
    have ds: "set ?ds = missed_by t k" "sorted_wrt (<) ?ds"
      using Cons.prems(1) by (auto simp: missed_by_def tm_sorted_def split: option.splits)
    have fresh: "d \<notin> set ?ds" using Cons.prems(4) ds by simp
    have bs: "bs_insert d xs \<noteq> []" for xs :: "nat list" by (cases xs) auto
    have srt: "tm_sorted lib ?t"
      using Cons.prems(1) ds(2) bs im_insert_entries(2) [OF ix] by (simp add: tm_sorted_def bt_get_insert)
    have missed: "missed_by ?t x = (if x = k then insert d (missed_by t k) else missed_by t x)" for x
      using ds(1) by (simp add: missed_by_def bt_get_insert)
    have q: "queued lib ?t i = (if i = key_id k then insert d (queued lib t i) else queued lib t i)" for i
      using im_insert_entries(1) [OF ix] index_lawsD(1) [OF ix]
      by (auto simp: queued_def bt_get_insert split: option.splits)
    have "\<forall>x \<in> set ks. d \<notin> missed_by ?t x" using Cons.prems(2,4) by (auto simp: missed)
    from Cons.IH [OF srt _ _ this] Cons.prems(2,3) obtain waiting t' where r: "register_missing lib avail d now ks ?t = Some (waiting, t')"
      "set waiting = unavailable avail ks" "tm_sorted lib t'"
      "t' = ?t\<lparr>missing_inputs := missing_inputs t', tm_input_objects := tm_input_objects t'\<rparr>"
      "\<forall>x. missed_by t' x = (if x \<in> unavailable avail ks then insert d (missed_by ?t x) else missed_by ?t x)"
      "\<forall>i. queued lib t' i = (if i \<in> key_id ` unavailable avail ks then insert d (queued lib ?t i) else queued lib ?t i)"
      by auto
    have run: "register_missing lib avail d now (k # ks) t = Some (bs_insert k waiting, t')"
      using b False fresh r(1) by (simp add: Let_def)
    have un: "unavailable avail (k # ks) = insert k (unavailable avail ks)" using b False by (auto simp: unavailable_def)
    have t': "t' = t\<lparr>missing_inputs := missing_inputs t', tm_input_objects := tm_input_objects t'\<rparr>" by (subst r(4)) simp
    show ?thesis
      by (rule exI [of _ "bs_insert k waiting"], rule exI [of _ t'], intro conjI)
        (use run r(2,3,5,6) t' in \<open>auto simp: un missed q\<close>)
  qed
qed

text \<open>Whatever an enqueue does with one certificate, in one of five ways.\<close>

definition cert_ok :: "executable_transaction \<times> nat option \<times> input_key list \<Rightarrow> bool" where
  "cert_ok c \<longleftrightarrow> (case c of (cert, fx, ks) \<Rightarrow> distinct ks \<and> inj_on key_id (set ks))"

definition known_all :: "(input_key, bool option) btree_map \<Rightarrow> input_key list \<Rightarrow> bool" where
  "known_all avail ks \<longleftrightarrow> (\<forall>k \<in> set ks. \<exists>b. bt_get avail k = Some (Some b))"

text \<open>A certificate that is taken on, and what is left as it was.\<close>

definition taken :: "('v, 'u, 'm) tm \<Rightarrow> executable_transaction \<Rightarrow> input_key set \<Rightarrow> ('v, 'u, 'm) tm \<Rightarrow> bool" where
  "taken t cert missing t' \<longleftrightarrow>
     waiting_on (inner t') = (waiting_on (inner t))(cert_digest cert := missing) \<and>
     (\<forall>d. d \<noteq> cert_digest cert \<longrightarrow> bt_get (pending_certificates (inner t')) d = bt_get (pending_certificates (inner t)) d) \<and>
     (if missing = {}
      then set (executing_certificates (inner t')) = insert (cert_digest cert) (set (executing_certificates (inner t))) \<and>
        (\<exists>pc. certificate pc = cert \<and> tx_ready_certificates t' = tx_ready_certificates t @ [pc])
      else set (executing_certificates (inner t')) = set (executing_certificates (inner t)) \<and>
        tx_ready_certificates t' = tx_ready_certificates t \<and>
        (\<exists>pc. certificate pc = cert \<and> bt_get (pending_certificates (inner t')) (cert_digest cert) = Some pc))"

lemma enqueue_one_Some:
  assumes laws: "tm_laws lib" and ok: "tm_ok lib (inner t)" and c: "cert_ok (cert, fx, ks)" "known_all avail ks"
  obtains r where "enqueue_one lib executed avail now (cert, fx, ks) t = Some r" "tm_ok lib (inner (case_sum id id r))"
    "available_objects_cache (inner (case_sum id id r)) = available_objects_cache (inner t)"
    "tm_epoch (inner (case_sum id id r)) = tm_epoch (inner t)"
    "inner (case_sum id id r) = inner t \<and> tx_ready_certificates (case_sum id id r) = tx_ready_certificates t \<or>
       r = Inr (case_sum id id r) \<and> cert_epoch cert = tm_epoch (inner t) \<and>
       bt_get (pending_certificates (inner t)) (cert_digest cert) = None \<and>
       cert_digest cert \<notin> set (executing_certificates (inner t)) \<and> taken t cert (unavailable avail ks) (case_sum id id r)"
proof -
  let ?d = "cert_digest cert"
  let ?fresh = "tm_epoch (inner t) = cert_epoch cert \<and> bt_get (pending_certificates (inner t)) ?d = None \<and>
      ?d \<notin> set (executing_certificates (inner t)) \<and> executed ?d = Some False"
  show ?thesis
  proof (cases ?fresh)
    case False
    then have "enqueue_one lib executed avail now (cert, fx, ks) t \<in>
        {Some (Inr (remove_pending_execution ?d t)), Some (Inr t), Some (Inl t)}"
      by (cases "executed ?d"; cases "the (executed ?d)") (auto simp: enqueue_one_def Let_def)
    then consider "enqueue_one lib executed avail now (cert, fx, ks) t = Some (Inr (remove_pending_execution ?d t))"
      | "enqueue_one lib executed avail now (cert, fx, ks) t = Some (Inr t)"
      | "enqueue_one lib executed avail now (cert, fx, ks) t = Some (Inl t)"
      by blast
    then show ?thesis
      by cases (rule that, assumption, use ok in \<open>simp_all add: remove_pending_execution_def\<close>)+
  next
    case True
    have srt: "tm_sorted lib (inner t)" and pok: "pending_ok (inner t)"
      and mb: "\<And>k. missed_by (inner t) k = {d. k \<in> waiting_on (inner t) d}"
      and qd: "\<And>i. queued lib (inner t) i = {d. i \<in> key_id ` waiting_on (inner t) d}"
      using ok unfolding tm_ok_def by blast+
    have idle: "waiting_on (inner t) ?d = {}" using True by (simp add: waiting_on_def)
    obtain waiting i where r: "register_missing lib avail ?d now ks (inner t) = Some (waiting, i)"
      "set waiting = unavailable avail ks" "tm_sorted lib i"
      and i: "i = (inner t)\<lparr>missing_inputs := missing_inputs i, tm_input_objects := tm_input_objects i\<rparr>"
      and m: "\<And>k. missed_by i k = (if k \<in> unavailable avail ks then insert ?d (missed_by (inner t) k) else missed_by (inner t) k)"
      and q: "\<And>x. queued lib i x = (if x \<in> key_id ` unavailable avail ks then insert ?d (queued lib (inner t) x) else queued lib (inner t) x)"
      using register_missing_Some [OF laws srt, of ks avail ?d now] c idle by (auto simp: cert_ok_def known_all_def mb)
    let ?pc = "\<lparr>certificate = cert, expected_effects_digest = fx, waiting_input_objects = waiting, enqueue_time = now, ready_time = None\<rparr>"
    have same: "pending_certificates i = pending_certificates (inner t)" "executing_certificates i = executing_certificates (inner t)"
      "available_objects_cache i = available_objects_cache (inner t)" "tm_epoch i = tm_epoch (inner t)" by (subst i, simp)+
    have inj: "inj_on key_id (unavailable avail ks)"
      using c(1) by (auto simp: cert_ok_def unavailable_def intro: inj_on_subset)
    show ?thesis
    proof (cases "waiting = []")
      case empty: True
      then have un: "unavailable avail ks = {}" using r(2) by simp
      let ?t = "t\<lparr>inner := i\<lparr>executing_certificates := bs_insert ?d (executing_certificates i)\<rparr>,
          tx_ready_certificates := tx_ready_certificates t @ [?pc\<lparr>ready_time := Some now\<rparr>]\<rparr>"
      have run: "enqueue_one lib executed avail now (cert, fx, ks) t = Some (Inr ?t)"
        using True empty r(1) same(2) by (simp add: enqueue_one_def certificate_ready_def Let_def)
      have "waiting_on i = waiting_on (inner t)" by (simp add: waiting_on_def same fun_eq_iff)
      then have "tm_ok lib i" unfolding tm_ok_def
        using r(3) pok m q un by (simp add: mb qd pending_ok_def same)
      then have ok': "tm_ok lib (i\<lparr>executing_certificates := bs_insert ?d (executing_certificates i)\<rparr>)"
        "waiting_on (i\<lparr>executing_certificates := bs_insert ?d (executing_certificates i)\<rparr>) = waiting_on i"
        using tm_ok_executing [OF _ refl, of lib i "bs_insert ?d (executing_certificates i)"] True same r(3)
        by (auto simp: tm_sorted_def)
      have "(waiting_on (inner t))(?d := {}) = waiting_on (inner t)" using idle by (simp add: fun_upd_idem)
      then have "taken t cert {} ?t"
        using ok'(2) \<open>waiting_on i = waiting_on (inner t)\<close> same by (auto simp: taken_def)
      with True un ok'(1) [unfolded same(2)] show ?thesis
        by (intro that [OF run]) (simp_all add: same)
    next
      case False
      let ?i = "i\<lparr>pending_certificates := bt_insert ?d ?pc (pending_certificates i)\<rparr>"
      let ?t = "t\<lparr>inner := ?i\<rparr>"
      have run: "enqueue_one lib executed avail now (cert, fx, ks) t = Some (Inr ?t)"
        using True False r(1) same by (simp add: enqueue_one_def Let_def)
      have w: "waiting_on ?i = (waiting_on (inner t))(?d := unavailable avail ks)"
        by (auto simp: waiting_on_def bt_get_insert same r(2) fun_eq_iff)
      have "missed_by ?i = missed_by i" "queued lib ?i = queued lib i" by (simp_all add: missed_by_def queued_def fun_eq_iff)
      then have "\<forall>k. missed_by ?i k = {d. k \<in> waiting_on ?i d}" "\<forall>x. queued lib ?i x = {d. x \<in> key_id ` waiting_on ?i d}"
        using idle by (auto simp: w m q mb qd)
      moreover have "tm_sorted lib ?i" using r(3) by (simp add: tm_sorted_def)
      moreover have "pending_ok ?i"
        using pok True False inj r(2) by (auto simp: pending_ok_def bt_get_insert same)
      ultimately have ok': "tm_ok lib ?i" unfolding tm_ok_def by blast
      have "unavailable avail ks \<noteq> {}" using False r(2) by auto
      then have "taken t cert (unavailable avail ks) ?t"
        using w same by (auto simp: taken_def bt_get_insert)
      with True ok' [unfolded same(1)] show ?thesis
        by (intro that [OF run]) (simp_all add: same)
    qed
  qed
qed

end
