(* ===== verification/TmSystem.thy ===== *)
theory TmSystem
  imports TmInvariant
begin

text \<open>
  The transaction manager among its callers. Commits write objects and then notify the manager; any number of threads
  enqueue certificates, each with its two locks and its read of the database in between. The steps interleave as they
  like. In every reachable state no certificate waits for an object that the manager was notified of, and every
  certificate it has sent has all its inputs.
\<close>

section \<open>The read of the database\<close>

definition key_available :: "object_reads \<Rightarrow> input_key list \<Rightarrow> input_key \<Rightarrow> bool" where
  "key_available db receiving k =
     (case key_version k of
        Some v \<Rightarrow> versioned_available db receiving k v
      | None \<Rightarrow> (case latest_alive db (key_id k) of None \<Rightarrow> False | Some alive \<Rightarrow> alive))"

text \<open>The answers come back in the order of the keys.\<close>

lemma multi_input_objects_available_map:
  "multi_input_objects_available db keys receiving = map (key_available db receiving) keys"
proof -
  let ?ix = "zip [0..<length keys] keys"
  let ?f = "\<lambda>(i, k). (i, key_available db receiving k)"
  let ?v = "List.map_filter (\<lambda>(i, k). map_option (\<lambda>v. (i, versioned_available db receiving k v)) (key_version k)) ?ix"
  let ?u = "map (\<lambda>(i, k). (i, case latest_alive db (key_id k) of None \<Rightarrow> False | Some alive \<Rightarrow> alive))
      (filter (\<lambda>(_, k). key_version k = None) ?ix)"
  have v: "?v = map ?f (filter (\<lambda>(_, k). key_version k \<noteq> None) ?ix)"
    unfolding List.map_filter_def
    by (auto simp: key_available_def case_prod_beta' comp_def intro!: map_cong filter_cong)
  have u: "?u = map ?f (filter (\<lambda>(_, k). key_version k = None) ?ix)"
    by (auto simp: key_available_def)
  have fst_f: "map fst (map ?f xs) = map fst xs" for xs :: "(nat \<times> input_key) list" by auto
  have ix: "map fst ?ix = [0..<length keys]" by simp
  have srt: "sorted (map fst (map ?f ?ix))" "distinct (map fst (map ?f ?ix))"
    unfolding fst_f ix by simp_all
  have same: "set (sort_key fst (?v @ ?u)) = set (map ?f ?ix)"
  proof -
    have "set (filter (\<lambda>(_, k). key_version k \<noteq> None) ?ix) \<union> set (filter (\<lambda>(_, k). key_version k = None) ?ix) = set ?ix" by auto
    then show ?thesis unfolding v u set_sort set_append set_map by (metis image_Un)
  qed
  have "distinct (map fst (filter P ?ix))" for P by (rule distinct_map_filter) (simp add: ix)
  moreover have "fst ` set (filter (\<lambda>(_, k). key_version k \<noteq> None) ?ix) \<inter> fst ` set (filter (\<lambda>(_, k). key_version k = None) ?ix) = {}"
    by (auto simp: set_zip)
  ultimately have d: "distinct (map fst (?v @ ?u))"
    unfolding v u map_append fst_f distinct_append by (simp only: set_map)
  have "inj_on fst (set (sort_key fst (?v @ ?u)) \<union> set (map ?f ?ix))"
    unfolding same by (auto simp: inj_on_def set_zip)
  moreover have "distinct (map fst (sort_key fst (?v @ ?u)))" using d by (simp only: distinct_map distinct_sort set_sort)
  ultimately have "sort_key fst (?v @ ?u) = map ?f ?ix"
    using map_sorted_distinct_set_unique [OF _ sorted_sort_key _ srt same] by blast
  then have "multi_input_objects_available db keys receiving = map snd (map ?f ?ix)"
    unfolding multi_input_objects_available_def Let_def by (simp only:)
  also have "\<dots> = map (key_available db receiving) (map snd ?ix)" unfolding map_map by (intro map_cong) auto
  also have "map snd ?ix = keys" by simp
  finally show ?thesis .
qed

section \<open>Steps\<close>

text \<open>
  A node: the manager, the threads between their locks with the keys that had been notified when they took the first,
  the keys that have been notified, and those whose objects have been written or deleted.
\<close>

record ('v, 'u, 'm) node =
  node_tm :: "('v, 'u, 'm) tm"
  node_tasks :: "(enqueue_task \<times> input_key set) list"
  notified :: "input_key set"
  committed :: "input_key set"

text \<open>A key is satisfied by itself, and a version also by a later one.\<close>

definition satisfied :: "input_key set \<Rightarrow> input_key \<Rightarrow> bool" where
  "satisfied C k \<longleftrightarrow> k \<in> C \<or> (\<exists>i v w. k = VersionedObject i v \<and> v \<le> w \<and> VersionedObject i w \<in> C)"

text \<open>The versions of an object are notified in order.\<close>

fun in_order :: "input_key set \<Rightarrow> input_key list \<Rightarrow> bool" where
  "in_order N [] \<longleftrightarrow> True"
| "in_order N (k # ks) \<longleftrightarrow>
     (\<forall>i v w. k = VersionedObject i v \<longrightarrow> VersionedObject i w \<in> N \<longrightarrow> w \<le> v) \<and> in_order (insert k N) ks"

text \<open>
  The steps. A thread that begins has certificates with at most one key of each object, as the checks of transactions
  ensure. The read of a thread that finishes may have taken place at any moment since it began: it finds every key
  that had been notified by then, and finds nothing that is not satisfied.
\<close>

inductive tm_step ::
  "('v, 'u, 'm) tm_lib \<Rightarrow> (tx_digest \<Rightarrow> (object_id \<rightharpoonup> nat)) \<Rightarrow> ('v, 'u, 'm) node \<Rightarrow> ('v, 'u, 'm) node \<Rightarrow> bool"
  for lib locks where
  Commit: "tm_step lib locks n (n\<lparr>committed := committed n \<union> K\<rparr>)"
| Notify: "set ks \<subseteq> committed n \<Longrightarrow> in_order (notified n) ks \<Longrightarrow>
     notify_commit lib (tm_epoch (inner (node_tm n))) d ks now (node_tm n) = Some t \<Longrightarrow>
     tm_step lib locks n (n\<lparr>node_tm := t, notified := notified n \<union> set ks\<rparr>)"
| Begin: "enqueue_prepare executed locks certs (node_tm n) = Some (task, t) \<Longrightarrow> \<forall>c \<in> set (task_certs task). cert_ok c \<Longrightarrow>
     length (node_tasks n) + 1 < 2 ^ 64 \<Longrightarrow> enqueue_check lib task t = (task', t') \<Longrightarrow>
     tm_step lib locks n (n\<lparr>node_tm := t', node_tasks := (task', notified n) # node_tasks n\<rparr>)"
| Finish: "node_tasks n = before @ (task, N) # after \<Longrightarrow>
     \<forall>k \<in> N. key_available db (task_receiving task) k \<Longrightarrow>
     \<forall>k. key_available db (task_receiving task) k \<longrightarrow> satisfied (committed n) k \<Longrightarrow>
     enqueue_finish lib executed (multi_input_objects_available db (cache_misses task) (task_receiving task)) now task (node_tm n) =
       Some r \<Longrightarrow>
     tm_step lib locks n (n\<lparr>node_tm := case_sum id id r, node_tasks := before @ after\<rparr>)"
| Reconfigure: "node_tasks n = [] \<Longrightarrow>
     tm_step lib locks n (n\<lparr>node_tm := tm_reconfigure lib epoch (node_tm n), notified := {}\<rparr>)"

section \<open>The invariant\<close>

text \<open>What the cache knows is true, and it knows the latest version that was notified, if any.\<close>

definition cache_ok :: "('v, 'u, 'm) tm_lib \<Rightarrow> ('v, 'u) available_objects \<Rightarrow> input_key set \<Rightarrow> input_key set \<Rightarrow> bool" where
  "cache_ok lib a N C \<longleftrightarrow>
     (\<forall>i c. versions lib a i = Some c \<longrightarrow> VersionedObject i c \<in> C \<and> (\<forall>w. VersionedObject i w \<in> N \<longrightarrow> w \<le> c)) \<and>
     (\<forall>i. packages lib a i \<noteq> None \<longrightarrow> PackageKey i \<in> C)"

text \<open>A thread between its locks, which began when the keys \<open>N0\<close> had been notified.\<close>

definition task_ok ::
  "('v, 'u, 'm) tm_lib \<Rightarrow> (tx_digest \<Rightarrow> (object_id \<rightharpoonup> nat)) \<Rightarrow> ('v, 'u) available_objects \<Rightarrow> input_key set \<Rightarrow> input_key set \<Rightarrow>
     enqueue_task \<Rightarrow> input_key set \<Rightarrow> bool" where
  "task_ok lib locks a N C task N0 \<longleftrightarrow>
     (\<forall>k \<in> N - N0. known lib a k = Some True) \<and> keys_sorted (object_availability task) \<and>
     (\<forall>k. bt_get (object_availability task) k = Some (Some False) \<longrightarrow> k \<notin> N0) \<and>
     (\<forall>k. bt_get (object_availability task) k = Some (Some True) \<longrightarrow> satisfied C k) \<and>
     (\<forall>(cert, fx, ks) \<in> set (task_certs task). cert_ok (cert, fx, ks) \<and> certificate_keys locks cert = Some ks \<and>
        (\<forall>k \<in> set ks. bt_get (object_availability task) k \<noteq> None))"

text \<open>The certificates: what they do not wait for is satisfied, and what they wait for was not notified.\<close>

definition certs_ok ::
  "(tx_digest \<Rightarrow> (object_id \<rightharpoonup> nat)) \<Rightarrow> ('v, 'u, 'm) tm \<Rightarrow> input_key set \<Rightarrow> input_key set \<Rightarrow> bool" where
  "certs_ok locks t N C \<longleftrightarrow>
     (\<forall>d k. k \<in> waiting_on (inner t) d \<longrightarrow> k \<notin> N) \<and>
     (\<forall>d pc ks. bt_get (pending_certificates (inner t)) d = Some pc \<longrightarrow> certificate_keys locks (certificate pc) = Some ks \<longrightarrow>
        (\<forall>k \<in> set ks. k \<in> waiting_on (inner t) d \<or> satisfied C k)) \<and>
     (\<forall>pc \<in> set (tx_ready_certificates t). \<forall>ks. certificate_keys locks (certificate pc) = Some ks \<longrightarrow> (\<forall>k \<in> set ks. satisfied C k))"

definition node_inv :: "('v, 'u, 'm) tm_lib \<Rightarrow> (tx_digest \<Rightarrow> (object_id \<rightharpoonup> nat)) \<Rightarrow> ('v, 'u, 'm) node \<Rightarrow> bool" where
  "node_inv lib locks n \<longleftrightarrow>
     (let t = node_tm n; a = available_objects_cache (inner t); N = notified n; C = committed n in
      tm_ok lib (inner t) \<and> certs_ok locks t N C \<and> cache_ok lib a N C \<and> N \<subseteq> C \<and>
      unbounded_cache_enabled a = length (node_tasks n) \<and> length (node_tasks n) < 2 ^ 64 \<and>
      (\<forall>(task, N0) \<in> set (node_tasks n). task_ok lib locks a N C task N0))"

definition node_start :: "('v, 'u, 'm) tm_lib \<Rightarrow> nat \<Rightarrow> ('v, 'u, 'm) node" where
  "node_start lib epoch =
     \<lparr>node_tm = \<lparr>inner = tm_inner_new lib epoch, tx_ready_certificates = [], removed_pending_executions = []\<rparr>,
      node_tasks = [], notified = {}, committed = {}\<rparr>"

lemma satisfied_mono: "satisfied C k \<Longrightarrow> C \<subseteq> D \<Longrightarrow> satisfied D k"
  unfolding satisfied_def by blast

lemma cache_new:
  assumes "tm_laws lib"
  shows "cache_ok lib (available_objects_new lib) N C"
  using lru_lawsD(1) [OF tm_lawsD(1) [OF assms]] lru_lawsD(1) [OF tm_lawsD(2) [OF assms]]
  by (simp add: cache_ok_def available_objects_new_def available_objects_new_with_size_def cache_inner_new_def)

lemma cache_ok_same: "same_known lib a b \<Longrightarrow> cache_ok lib b N C = cache_ok lib a N C"
  by (simp add: cache_ok_def same_known_def)

lemma task_ok_same: "same_known lib a b \<Longrightarrow> task_ok lib locks b N C task N0 = task_ok lib locks a N C task N0"
  using same_known_known [of lib a b] by (simp add: task_ok_def)

lemma node_inv_start: "tm_laws lib \<Longrightarrow> node_inv lib locks (node_start lib epoch)"
proof -
  assume laws: "tm_laws lib"
  have "waiting_on (tm_inner_new lib epoch) d = {}" for d by (simp add: waiting_on_def tm_inner_new_def bt_get_def)
  then show ?thesis
    using cache_new [OF laws] tm_inner_new_ok [of lib epoch]
    by (simp add: node_inv_def node_start_def certs_ok_def tm_inner_new_def available_objects_new_def
        available_objects_new_with_size_def bt_get_def Let_def)
qed

subsection \<open>Known keys\<close>

lemma known_True:
  assumes "cache_ok lib a N C" and "known lib a k = Some True"
  shows "satisfied C k"
  using assms by (cases k) (auto simp: known_def cache_ok_def satisfied_def)

lemma known_False:
  assumes "cache_ok lib a N C" and "known lib a k = Some False"
  shows "k \<notin> N"
  using assms by (cases k) (fastforce simp: known_def cache_ok_def)+

text \<open>An insertion keeps the cache right, and with threads between their locks forgets nothing.\<close>

lemma cache_ok_insert:
  assumes ok: "cache_ok lib a N C" and k: "k \<in> C" and order: "\<forall>i v w. k = VersionedObject i v \<longrightarrow> VersionedObject i w \<in> N \<longrightarrow> w \<le> v"
    and v: "versions lib b \<subseteq>\<^sub>m insert_versions k (versions lib a)" and u: "packages lib b \<subseteq>\<^sub>m insert_packages k (packages lib a)"
  shows "cache_ok lib b (insert k N) C"
proof -
  have vs: "VersionedObject i c \<in> C \<and> (\<forall>w. VersionedObject i w \<in> insert k N \<longrightarrow> w \<le> c)" if "versions lib b i = Some c" for i c
  proof -
    have c: "insert_versions k (versions lib a) i = Some c" using v that by (auto simp: map_le_def dom_def)
    show ?thesis
    proof (cases "\<exists>x. k = VersionedObject i x")
      case True
      then obtain x where x: "k = VersionedObject i x" by blast
      show ?thesis
      proof (cases "versions lib a i")
        case None
        with c x have "c = x" by (simp add: insert_versions_def)
        with x k order show ?thesis by auto
      next
        case (Some c0)
        with c x have "c = max c0 x" by (simp add: insert_versions_def)
        moreover have "VersionedObject i c0 \<in> C" "\<forall>w. VersionedObject i w \<in> N \<longrightarrow> w \<le> c0" using ok Some by (auto simp: cache_ok_def)
        ultimately show ?thesis using x k by (auto simp: max_def)
      qed
    next
      case False
      with c have "versions lib a i = Some c" by (cases k) (auto simp: insert_versions_def split: if_splits)
      with ok False show ?thesis by (auto simp: cache_ok_def)
    qed
  qed
  have "PackageKey i \<in> C" if some: "packages lib b i \<noteq> None" for i
  proof -
    have "insert_packages k (packages lib a) i \<noteq> None" using u some by (fastforce simp: map_le_def dom_def)
    then show ?thesis using ok k by (cases k) (auto simp: insert_packages_def cache_ok_def split: if_splits)
  qed
  with vs show ?thesis by (simp add: cache_ok_def)
qed

lemma known_insert_mono:
  assumes "versions lib b = insert_versions k (versions lib a)" and "packages lib b = insert_packages k (packages lib a)"
  shows "known lib a x = Some True \<Longrightarrow> known lib b x = Some True" "known lib b k = Some True"
proof -
  show "known lib b x = Some True" if "known lib a x = Some True"
    using that by (cases x; cases k) (auto simp: known_def assms insert_versions_def insert_packages_def max_def)
  show "known lib b k = Some True"
    by (cases k) (auto simp: known_def assms insert_versions_def insert_packages_def split: option.splits)
qed

subsection \<open>Notifications\<close>

lemma certs_ok_notify:
  assumes ok: "certs_ok locks t N C" and k: "k \<in> C"
    and w: "\<And>d. waiting_on (inner t') d = waiting_on (inner t) d - {k}"
    and sent: "\<And>pc. pc \<in> set (tx_ready_certificates t') \<Longrightarrow> pc \<in> set (tx_ready_certificates t) \<or>
       (\<exists>pc0. bt_get (pending_certificates (inner t)) (cert_digest (certificate pc)) = Some pc0 \<and>
          certificate pc0 = certificate pc \<and> set (waiting_input_objects pc0) = {k})"
    and pend: "\<And>d pc. bt_get (pending_certificates (inner t')) d = Some pc \<Longrightarrow>
       \<exists>pc0. bt_get (pending_certificates (inner t)) d = Some pc0 \<and> certificate pc = certificate pc0"
  shows "certs_ok locks t' (insert k N) C"
proof -
  have sat: "satisfied C k" using k by (simp add: satisfied_def)
  have wait: "\<forall>d x. x \<in> waiting_on (inner t') d \<longrightarrow> x \<notin> insert k N"
    using ok w by (auto simp: certs_ok_def)
  have p: "\<And>d pc ks x. bt_get (pending_certificates (inner t)) d = Some pc \<Longrightarrow> certificate_keys locks (certificate pc) = Some ks \<Longrightarrow>
      x \<in> set ks \<Longrightarrow> x \<in> waiting_on (inner t) d \<or> satisfied C x"
    using ok unfolding certs_ok_def by blast
  have "x \<in> waiting_on (inner t') d \<or> satisfied C x"
    if a: "bt_get (pending_certificates (inner t')) d = Some pc" "certificate_keys locks (certificate pc) = Some ks" "x \<in> set ks" for d pc ks x
    using pend [OF a(1)] p a(2,3) sat w by fastforce
  moreover have "satisfied C x" if a: "pc \<in> set (tx_ready_certificates t')" "certificate_keys locks (certificate pc) = Some ks" "x \<in> set ks" for pc ks x
    using sent [OF a(1)]
  proof
    assume "pc \<in> set (tx_ready_certificates t)"
    with ok a show ?thesis unfolding certs_ok_def by blast
  next
    assume "\<exists>pc0. bt_get (pending_certificates (inner t)) (cert_digest (certificate pc)) = Some pc0 \<and>
          certificate pc0 = certificate pc \<and> set (waiting_input_objects pc0) = {k}"
    then obtain pc0 where pc0: "bt_get (pending_certificates (inner t)) (cert_digest (certificate pc)) = Some pc0"
      "certificate pc0 = certificate pc" "set (waiting_input_objects pc0) = {k}" by blast
    from p [OF pc0(1)] pc0 a(2,3) sat show ?thesis by (auto simp: waiting_on_def)
  qed
  ultimately show ?thesis using wait unfolding certs_ok_def by blast
qed

text \<open>One key, with the threads between their locks.\<close>

definition sys_inv where
  "sys_inv lib locks t tasks N C \<longleftrightarrow>
     tm_ok lib (inner t) \<and> certs_ok locks t N C \<and> cache_ok lib (available_objects_cache (inner t)) N C \<and> N \<subseteq> C \<and>
     unbounded_cache_enabled (available_objects_cache (inner t)) = length tasks \<and> length tasks < 2 ^ 64 \<and>
     (\<forall>(task, N0) \<in> set tasks. task_ok lib locks (available_objects_cache (inner t)) N C task N0)"

lemma node_inv_sys: "node_inv lib locks n \<longleftrightarrow> sys_inv lib locks (node_tm n) (node_tasks n) (notified n) (committed n)"
  by (simp add: node_inv_def sys_inv_def Let_def)

lemma sys_invD:
  assumes "sys_inv lib locks t tasks N C"
  shows "tm_ok lib (inner t)" "certs_ok locks t N C" "cache_ok lib (available_objects_cache (inner t)) N C" "N \<subseteq> C"
    "unbounded_cache_enabled (available_objects_cache (inner t)) = length tasks" "length tasks < 2 ^ 64"
    "\<And>task N0. (task, N0) \<in> set tasks \<Longrightarrow> task_ok lib locks (available_objects_cache (inner t)) N C task N0"
  using assms unfolding sys_inv_def by blast+

lemma object_available_inv:
  assumes laws: "tm_laws lib" and inv: "sys_inv lib locks t tasks N C" and k: "k \<in> C"
    and order: "\<forall>i v w. k = VersionedObject i v \<longrightarrow> VersionedObject i w \<in> N \<longrightarrow> w \<le> v"
  obtains t' where "object_available lib True now k t = Some t'" "sys_inv lib locks t' tasks (insert k N) C"
    "tm_epoch (inner t') = tm_epoch (inner t)"
proof -
  note i = sys_invD [OF inv]
  let ?a = "available_objects_cache (inner t)"
  obtain t' b where run: "object_available lib True now k t = Some t'" and ok: "tm_ok lib (inner t')"
    and ins: "aoc_insert lib k ?a = Some b" "available_objects_cache (inner t') = b" and ep: "tm_epoch (inner t') = tm_epoch (inner t)"
    and w: "\<And>d. waiting_on (inner t') d = waiting_on (inner t) d - {k}"
    and sent: "\<And>pc. pc \<in> set (tx_ready_certificates t') \<Longrightarrow> pc \<in> set (tx_ready_certificates t) \<or>
       (\<exists>pc0. bt_get (pending_certificates (inner t)) (cert_digest (certificate pc)) = Some pc0 \<and>
          certificate pc0 = certificate pc \<and> set (waiting_input_objects pc0) = {k})"
    and pend: "\<And>d pc. bt_get (pending_certificates (inner t')) d = Some pc \<Longrightarrow>
       \<exists>pc0. bt_get (pending_certificates (inner t)) d = Some pc0 \<and> certificate pc = certificate pc0"
    by (rule object_available_step [OF laws i(1), of now k]) metis
  obtain b' where b': "aoc_insert lib k ?a = Some b'" "unbounded_cache_enabled b' = unbounded_cache_enabled ?a"
    "versions lib b' \<subseteq>\<^sub>m insert_versions k (versions lib ?a)" "packages lib b' \<subseteq>\<^sub>m insert_packages k (packages lib ?a)"
    "0 < unbounded_cache_enabled ?a \<Longrightarrow>
       versions lib b' = insert_versions k (versions lib ?a) \<and> packages lib b' = insert_packages k (packages lib ?a)"
    using aoc_insert [OF laws, of k ?a] by blast
  have b: "b' = b" using b'(1) ins(1) by simp
  have "task_ok lib locks b (insert k N) C task N0" if mem: "(task, N0) \<in> set tasks" for task N0
  proof -
    have "0 < unbounded_cache_enabled ?a" using i(5) mem by (cases tasks) auto
    with b'(5) b have "versions lib b = insert_versions k (versions lib ?a)" "packages lib b = insert_packages k (packages lib ?a)"
      by blast+
    note m = known_insert_mono [OF this]
    from i(7) [OF mem] show ?thesis unfolding task_ok_def using m by blast
  qed
  moreover have "cache_ok lib b (insert k N) C" using cache_ok_insert [OF i(3) k order] b'(3,4) b by blast
  moreover have "insert k N \<subseteq> C" using i(4) k by blast
  moreover have "unbounded_cache_enabled b = length tasks" using i(5) b'(2) b by simp
  ultimately have "sys_inv lib locks t' tasks (insert k N) C"
    unfolding sys_inv_def ins(2) using ok certs_ok_notify [OF i(2) k w sent pend] i(6) by blast
  from that [OF run this ep] show ?thesis .
qed

lemma objects_available_inv:
  assumes laws: "tm_laws lib" and "sys_inv lib locks t tasks N C" and "set ks \<subseteq> C" and "in_order N ks"
  shows "\<exists>t'. fold_opt (object_available lib True now) ks t = Some t' \<and> sys_inv lib locks t' tasks (N \<union> set ks) C \<and>
    tm_epoch (inner t') = tm_epoch (inner t)"
  using assms(2-4)
proof (induction ks arbitrary: t N)
  case (Cons k ks)
  from Cons.prems(2,3) have k: "k \<in> C" "\<forall>i v w. k = VersionedObject i v \<longrightarrow> VersionedObject i w \<in> N \<longrightarrow> w \<le> v" by auto
  obtain t1 where t1: "object_available lib True now k t = Some t1" "sys_inv lib locks t1 tasks (insert k N) C"
    "tm_epoch (inner t1) = tm_epoch (inner t)"
    using object_available_inv [OF laws Cons.prems(1) k] by metis
  from Cons.IH [OF t1(2)] Cons.prems(2,3) obtain t' where "fold_opt (object_available lib True now) ks t1 = Some t'"
    "sys_inv lib locks t' tasks (insert k N \<union> set ks) C" "tm_epoch (inner t') = tm_epoch (inner t1)" by auto
  with t1 show ?case by auto
qed simp

lemma notify_commit_inv:
  assumes laws: "tm_laws lib" and inv: "sys_inv lib locks t tasks N C" and ks: "set ks \<subseteq> C" "in_order N ks"
  shows "\<exists>t'. notify_commit lib (tm_epoch (inner t)) d ks now t = Some t' \<and> sys_inv lib locks t' tasks (N \<union> set ks) C"
proof -
  obtain t1 where t1: "fold_opt (object_available lib True now) ks t = Some t1" "sys_inv lib locks t1 tasks (N \<union> set ks) C"
    using objects_available_inv [OF laws inv ks] by metis
  let ?e = "filter (\<lambda>x. x \<noteq> d) (executing_certificates (inner t1))"
  let ?i = "(inner t1)\<lparr>executing_certificates := ?e\<rparr>"
  have ok: "tm_ok lib (inner t1)" by (rule sys_invD(1) [OF t1(2)])
  have e: "tm_ok lib ?i" "waiting_on ?i = waiting_on (inner t1)"
    by (rule tm_ok_executing [OF ok refl]; use ok in \<open>auto simp: tm_ok_def tm_sorted_def sorted_wrt_filter\<close>)+
  have "sys_inv lib locks (remove_pending_execution d (t1\<lparr>inner := ?i\<rparr>)) tasks (N \<union> set ks) C"
    using t1(2) e by (simp add: sys_inv_def certs_ok_def remove_pending_execution_def)
  with t1 show ?thesis by (simp add: notify_commit_def objects_available_locked_def)
qed

text \<open>A certificate that does not wait is not filed again, and what was sent stays sent.\<close>

lemma objects_available_keeps:
  assumes laws: "tm_laws lib" and "tm_ok lib (inner t)" and "fold_opt (object_available lib True now) ks t = Some t'"
    and "bt_get (pending_certificates (inner t)) d = None"
  shows "bt_get (pending_certificates (inner t')) d = None \<and> set (tx_ready_certificates t) \<subseteq> set (tx_ready_certificates t')"
  using assms(2-4)
proof (induction ks arbitrary: t)
  case (Cons k ks)
  obtain t1 where t1: "object_available lib True now k t = Some t1" "tm_ok lib (inner t1)"
    "\<And>d. waiting_on (inner t1) d = waiting_on (inner t) d - {k}" "woken k t t1"
    by (rule object_available_step [OF laws Cons.prems(1), of now k]) metis
  have "bt_get (pending_certificates (inner t1)) d = None"
    using t1(2) t1(3) [of d] Cons.prems(3) by (auto simp: waiting_on_def tm_ok_def pending_ok_def split: option.splits)
  with Cons.IH [OF t1(2)] Cons.prems(2) t1(1) have "bt_get (pending_certificates (inner t')) d = None"
    "set (tx_ready_certificates t1) \<subseteq> set (tx_ready_certificates t')" by auto
  with t1(4) show ?case unfolding woken_def by blast
qed simp

text \<open>A certificate whose keys are all notified is sent; otherwise it waits for what is left.\<close>

lemma objects_available_wakes:
  assumes laws: "tm_laws lib" and "tm_ok lib (inner t)" and "fold_opt (object_available lib True now) ks t = Some t'"
    and "bt_get (pending_certificates (inner t)) d = Some pc"
  shows "if set (waiting_input_objects pc) \<subseteq> set ks
      then bt_get (pending_certificates (inner t')) d = None \<and> (\<exists>pc' \<in> set (tx_ready_certificates t'). certificate pc' = certificate pc)
      else \<exists>pc'. bt_get (pending_certificates (inner t')) d = Some pc' \<and> certificate pc' = certificate pc \<and>
        set (waiting_input_objects pc') = set (waiting_input_objects pc) - set ks"
  using assms(2-4)
proof (induction ks arbitrary: t pc)
  case Nil
  then have "waiting_input_objects pc \<noteq> []" by (auto simp: tm_ok_def pending_ok_def)
  with Nil show ?case by simp
next
  case (Cons k ks)
  obtain t1 where t1: "object_available lib True now k t = Some t1" "tm_ok lib (inner t1)"
    "\<And>d. waiting_on (inner t1) d = waiting_on (inner t) d - {k}" "woken k t t1"
    by (rule object_available_step [OF laws Cons.prems(1), of now k]) metis
  have rest: "fold_opt (object_available lib True now) ks t1 = Some t'" using Cons.prems(2) t1(1) by simp
  have w: "waiting_on (inner t1) d = set (waiting_input_objects pc) - {k}" unfolding t1(3) using Cons.prems(3) by (simp add: waiting_on_def)
  show ?case
  proof (cases "set (waiting_input_objects pc) = {k}")
    case True
    with t1(4) Cons.prems(3) have sent: "\<exists>pc' \<in> set (tx_ready_certificates t1). certificate pc' = certificate pc"
      unfolding woken_def by (auto split: if_splits)
    have gone: "bt_get (pending_certificates (inner t1)) d = None"
      using w True t1(2) by (auto simp: waiting_on_def tm_ok_def pending_ok_def split: option.splits)
    have "bt_get (pending_certificates (inner t')) d = None \<and> set (tx_ready_certificates t1) \<subseteq> set (tx_ready_certificates t')"
      by (rule objects_available_keeps [OF laws t1(2) rest gone])
    with sent True show ?thesis by auto
  next
    case False
    with t1(4) Cons.prems(3) obtain pc1 where pc1: "bt_get (pending_certificates (inner t1)) d = Some pc1" "certificate pc1 = certificate pc"
      unfolding woken_def by metis
    with w have "set (waiting_input_objects pc1) = set (waiting_input_objects pc) - {k}" by (simp add: waiting_on_def)
    with Cons.IH [OF t1(2) rest pc1(1)] pc1(2) show ?thesis by (auto split: if_splits)
  qed
qed

subsection \<open>The first lock\<close>

lemma check_cache_map:
  assumes laws: "tm_laws lib" and "check_cache lib avail a = (avail', b)"
  shows "same_known lib a b \<and> avail' = map (\<lambda>(k, val). (k, case known lib a k of Some x \<Rightarrow> Some x | None \<Rightarrow> val)) avail"
  using assms(2)
proof (induction avail arbitrary: a avail' b)
  case (Cons e avail)
  obtain k val where e: "e = (k, val)" by (cases e)
  obtain r a1 where r: "aoc_available lib k a = (r, a1)" by fastforce
  obtain others b1 where o: "check_cache lib avail a1 = (others, b1)" by fastforce
  note q = aoc_available [OF laws r]
  note ih = Cons.IH [OF o]
  from Cons.prems have res: "avail' = (k, case r of Some x \<Rightarrow> Some x | None \<Rightarrow> val) # others" "b = b1"
    by (auto simp: e r o)
  show ?case using ih q res same_known_trans same_known_known [OF q(2)] by (auto simp: e)
qed simp

lemma bt_get_map: "bt_get (map (\<lambda>(k, x). (k, f k x)) m) k = map_option (f k) (bt_get m k)"
  by (induction m) (auto simp: bt_get_def)

lemma fold_insert_None:
  "bt_get (fold (\<lambda>k. bt_insert k None) ks m) k = (if k \<in> set ks then Some None else bt_get m k)"
  by (induction ks arbitrary: m) (auto simp: bt_get_insert)

lemma fold_insert_sorted: "keys_sorted m \<Longrightarrow> keys_sorted (fold (\<lambda>k. bt_insert k None) ks m)"
  by (induction ks arbitrary: m) auto

lemma prepared_availability:
  fixes certs :: "(executable_transaction \<times> nat option \<times> input_key list) list"
  shows "keys_sorted m \<Longrightarrow> keys_sorted (fold (\<lambda>(_, _, ks). fold (\<lambda>k. bt_insert k None) ks) certs m)"
    "bt_get (fold (\<lambda>(_, _, ks). fold (\<lambda>k. bt_insert k None) ks) certs m) k =
      (if \<exists>(cert, fx, ks) \<in> set certs. k \<in> set ks then Some None else bt_get m k)"
  by (induction certs arbitrary: m) (auto simp: fold_insert_None fold_insert_sorted split: prod.splits)

lemma fold_removed:
  "inner (fold (\<lambda>((cert, _), e) t. if e then remove_pending_execution (cert_digest cert) t else t) xs t) = inner t \<and>
    tx_ready_certificates (fold (\<lambda>((cert, _), e) t. if e then remove_pending_execution (cert_digest cert) t else t) xs t) =
      tx_ready_certificates t"
  by (induction xs arbitrary: t) (auto simp: remove_pending_execution_def split: prod.splits)

lemma map_opt_mem: "map_opt f xs = Some ys \<Longrightarrow> y \<in> set ys \<Longrightarrow> \<exists>x \<in> set xs. f x = Some y"
  unfolding map_opt_Some_iff by auto

lemma enqueue_prepare_Some:
  assumes "enqueue_prepare executed locks certs t = Some (task, t')"
  shows "inner t' = inner t" "tx_ready_certificates t' = tx_ready_certificates t" "keys_sorted (object_availability task)"
    "\<And>k x. bt_get (object_availability task) k = Some x \<Longrightarrow> x = None"
    "\<And>cert fx ks. (cert, fx, ks) \<in> set (task_certs task) \<Longrightarrow> certificate_keys locks cert = Some ks \<and>
       (\<forall>k \<in> set ks. bt_get (object_availability task) k \<noteq> None)"
proof -
  obtain dn cs where c: "map_opt (\<lambda>(cert, fx). do { ks \<leftarrow> certificate_keys locks cert; Some (cert, fx, ks) })
      (map fst (filter (\<lambda>(_, e). \<not> e) (zip certs dn))) = Some cs"
    and t': "t' = fold (\<lambda>((cert, _), e) t. if e then remove_pending_execution (cert_digest cert) t else t) (zip certs dn) t"
    and task: "task = \<lparr>task_certs = cs, task_receiving = bs_extend [] (concat (map (\<lambda>(cert, _, _). receiving_keys cert) cs)),
            object_availability = fold (\<lambda>(_, _, ks). fold (\<lambda>k. bt_insert k None) ks) cs []\<rparr>"
    using assms unfolding enqueue_prepare_def Let_def by (elim bind_SomeE) simp
  show "inner t' = inner t" "tx_ready_certificates t' = tx_ready_certificates t" unfolding t' using fold_removed by blast+
  show "keys_sorted (object_availability task)" by (simp add: task prepared_availability(1))
  show "x = None" if "bt_get (object_availability task) k = Some x" for k x
  proof -
    have "bt_get ([] :: (input_key, bool option) btree_map) k = None" by (simp add: bt_get_def)
    with that prepared_availability(2) [of cs "[]" k] show ?thesis
      unfolding task enqueue_task.select_convs by (metis option.distinct(1) option.inject)
  qed
  show "certificate_keys locks cert = Some ks \<and> (\<forall>k \<in> set ks. bt_get (object_availability task) k \<noteq> None)"
    if mem: "(cert, fx, ks) \<in> set (task_certs task)" for cert fx ks
  proof
    have "(cert, fx, ks) \<in> set cs" using mem by (simp add: task)
    from map_opt_mem [OF c this] show "certificate_keys locks cert = Some ks" by (auto simp: option_simps)
    show "\<forall>k \<in> set ks. bt_get (object_availability task) k \<noteq> None"
      using mem by (auto simp: task prepared_availability(2))
  qed
qed

lemma enqueue_check_inv:
  assumes laws: "tm_laws lib" and inv: "sys_inv lib locks t tasks N C" and small: "length tasks + 1 < 2 ^ 64"
    and prep: "enqueue_prepare executed locks certs t = Some (task, t1)" and certs: "\<forall>c \<in> set (task_certs task). cert_ok c"
    and chk: "enqueue_check lib task t1 = (task', t')"
  shows "sys_inv lib locks t' ((task', N) # tasks) N C"
proof -
  note i = sys_invD [OF inv]
  note p = enqueue_prepare_Some [OF prep]
  let ?a = "available_objects_cache (inner t)"
  obtain avail b where cc: "check_cache lib (object_availability task) ?a = (avail, b)" by fastforce
  from check_cache_map [OF laws cc] have sk: "same_known lib ?a b"
    and av: "avail = map (\<lambda>(k, val). (k, case known lib ?a k of Some x \<Rightarrow> Some x | None \<Rightarrow> val)) (object_availability task)" by blast+
  have res: "task' = task\<lparr>object_availability := avail\<rparr>"
    "t' = t1\<lparr>inner := (inner t)\<lparr>available_objects_cache := enable_unbounded_cache b\<rparr>\<rparr>"
    using chk cc p(1) by (auto simp: enqueue_check_def)
  let ?b = "enable_unbounded_cache b"
  have get: "bt_get avail k = map_option (\<lambda>_. known lib ?a k) (bt_get (object_availability task) k)" for k
    using p(4) [of k] unfolding av bt_get_map by (cases "bt_get (object_availability task) k") (auto split: option.splits)
  have vs: "versions lib ?b = versions lib ?a" "packages lib ?b = packages lib ?a"
    using sk unfolding enable_unbounded_cache_def same_known_def by simp_all
  then have kn: "known lib ?b = known lib ?a" "versions lib ?b = versions lib ?a" "packages lib ?b = packages lib ?a"
    unfolding known_def by simp_all
  have cache: "cache_ok lib ?b N C" using i(3) by (simp add: cache_ok_def kn)
  have tok: "task_ok lib locks ?b N C x N0" if "(x, N0) \<in> set tasks" for x N0
    using i(7) [OF that] by (simp add: task_ok_def kn)
  have "map fst avail = map fst (object_availability task)" by (auto simp: av)
  then have "keys_sorted avail" using p(3) by simp
  moreover have "k \<notin> N" if "bt_get avail k = Some (Some False)" for k
    using that known_False [OF i(3)] by (auto simp: get)
  moreover have "satisfied C k" if "bt_get avail k = Some (Some True)" for k
    using that known_True [OF i(3)] by (auto simp: get)
  ultimately have "task_ok lib locks ?b N C task' N"
    using p(5) certs by (auto simp: task_ok_def res get)
  moreover have "unbounded_cache_enabled ?b = length tasks + 1"
    using i(5) small sk by (simp add: enable_unbounded_cache_def same_known_def add64_def)
  ultimately show ?thesis
    unfolding sys_inv_def using i(1,2,4) cache tok small p(2) by (auto simp: res certs_ok_def)
qed

subsection \<open>The second lock\<close>

text \<open>The reads are recorded; only packages enter the cache, and it forgets nothing.\<close>

definition grown :: "('v, 'u, 'm) tm_lib \<Rightarrow> ('v, 'u) available_objects \<Rightarrow> ('v, 'u) available_objects \<Rightarrow> input_key set \<Rightarrow> bool" where
  "grown lib a b S \<longleftrightarrow>
     versions lib b = versions lib a \<and> unbounded_cache_enabled b = unbounded_cache_enabled a \<and>
     (\<forall>i. packages lib a i \<noteq> None \<longrightarrow> packages lib b i \<noteq> None) \<and>
     (\<forall>i. packages lib b i \<noteq> None \<longrightarrow> packages lib a i \<noteq> None \<or> PackageKey i \<in> S)"

lemma record_reads_Some:
  assumes laws: "tm_laws lib" and "0 < unbounded_cache_enabled a" and "keys_sorted avail" and "\<forall>k \<in> set ms. bt_get avail k \<noteq> None"
  shows "\<exists>avail' b. record_reads lib (zip (map f ms) ms) avail a = Some (avail', b) \<and> keys_sorted avail' \<and>
    bt_get avail' = (\<lambda>k. if k \<in> set ms then Some (Some (f k)) else bt_get avail k) \<and>
    grown lib a b {k \<in> set ms. f k}"
  using assms(2-4)
proof (induction ms arbitrary: avail a)
  case Nil
  then show ?case by (simp add: grown_def)
next
  case (Cons k ms)
  let ?ins = "f k \<and> key_version k = None"
  obtain a1 where a1: "(if ?ins then aoc_insert lib k a else Some a) = Some a1" "grown lib a a1 {x. x = k \<and> f k}"
  proof (cases ?ins)
    case True
    then obtain i where i: "k = PackageKey i" by (cases k) auto
    obtain b where b: "aoc_insert lib k a = Some b" "unbounded_cache_enabled b = unbounded_cache_enabled a"
      "versions lib b = insert_versions k (versions lib a)" "packages lib b = insert_packages k (packages lib a)"
      using aoc_insert [OF laws, of k a] Cons.prems(1) by blast
    with True i show ?thesis
      by (intro that [of b]) (auto simp: grown_def insert_versions_def insert_packages_def split: if_splits)
  next
    case False
    then show ?thesis by (intro that [of a]) (auto simp: grown_def)
  qed
  let ?avail = "bt_insert k (Some (f k)) avail"
  have "0 < unbounded_cache_enabled a1" using a1(2) Cons.prems(1) by (simp add: grown_def)
  moreover have "keys_sorted ?avail" using Cons.prems(2) by simp
  moreover have "\<forall>x \<in> set ms. bt_get ?avail x \<noteq> None" using Cons.prems(3) by (simp add: bt_get_insert)
  ultimately obtain avail' b where r: "record_reads lib (zip (map f ms) ms) ?avail a1 = Some (avail', b)" "keys_sorted avail'"
    "bt_get avail' = (\<lambda>x. if x \<in> set ms then Some (Some (f x)) else bt_get ?avail x)" "grown lib a1 b {x \<in> set ms. f x}"
    using Cons.IH [of a1 ?avail] by blast
  have ex: "\<exists>y. bt_get avail k = Some y" using Cons.prems(3) by auto
  have run: "record_reads lib (zip (map f (k # ms)) (k # ms)) avail a = Some (avail', b)"
    using a1(1) r(1) ex by (auto simp: option_simps)
  have "bt_get avail' = (\<lambda>x. if x \<in> set (k # ms) then Some (Some (f x)) else bt_get avail x)"
    unfolding r(3) by (auto simp: bt_get_insert)
  moreover have "grown lib a b {x \<in> set (k # ms). f x}"
    using a1(2) r(4) unfolding grown_def by auto
  ultimately show ?case using run r(2) by blast
qed

lemma recheck_cache_Some:
  assumes laws: "tm_laws lib" and "\<forall>(k, val) \<in> set avail. val \<noteq> None"
  shows "\<exists>avail' b. recheck_cache lib avail a = Some (avail', b) \<and> same_known lib a b \<and>
    avail' = map (\<lambda>(k, val). (k, if val = Some False \<and> known lib a k = Some True then Some True else val)) avail"
  using assms(2)
proof (induction avail arbitrary: a)
  case (Cons e avail)
  obtain k x where e: "e = (k, Some x)" using Cons.prems by (cases e) auto
  obtain r a1 where r: "aoc_available lib k a = (r, a1)" by fastforce
  note q = aoc_available [OF laws r]
  let ?a = "if x then a else a1"
  have same: "same_known lib a ?a" using q(2) by simp
  obtain avail' b where ih: "recheck_cache lib avail ?a = Some (avail', b)" "same_known lib ?a b"
    "avail' = map (\<lambda>(k, val). (k, if val = Some False \<and> known lib ?a k = Some True then Some True else val)) avail"
    using Cons.IH [of ?a] Cons.prems by auto
  have run: "recheck_cache lib (e # avail) a = Some ((k, if x then Some True else if r = Some True then Some True else Some False) # avail', b)"
    using ih(1) by (cases x) (auto simp: e r)
  show ?case
    using run same_known_trans [OF same ih(2)] ih(3) q(1) same_known_known [OF same] by (cases x) (auto simp: e)
qed simp

lemma enqueue_loop_inv:
  assumes laws: "tm_laws lib" and "tm_ok lib (inner t)" and "certs_ok locks t N C"
    and "\<forall>(cert, fx, ks) \<in> set certs. cert_ok (cert, fx, ks) \<and> certificate_keys locks cert = Some ks \<and> known_all avail ks"
    and miss: "\<And>k. bt_get avail k = Some (Some False) \<Longrightarrow> k \<notin> N" and avl: "\<And>k. bt_get avail k = Some (Some True) \<Longrightarrow> satisfied C k"
  shows "\<exists>r. enqueue_loop lib executed avail now certs t = Some r \<and> tm_ok lib (inner (case_sum id id r)) \<and>
    certs_ok locks (case_sum id id r) N C \<and>
    available_objects_cache (inner (case_sum id id r)) = available_objects_cache (inner t)"
  using assms(2-4)
proof (induction certs arbitrary: t)
  case (Cons c certs)
  obtain cert fx ks where c: "c = (cert, fx, ks)" by (cases c)
  then have ck: "cert_ok (cert, fx, ks)" "certificate_keys locks cert = Some ks" "known_all avail ks" using Cons.prems(3) by auto
  obtain r where r: "enqueue_one lib executed avail now (cert, fx, ks) t = Some r" "tm_ok lib (inner (case_sum id id r))"
    "available_objects_cache (inner (case_sum id id r)) = available_objects_cache (inner t)"
    "inner (case_sum id id r) = inner t \<and> tx_ready_certificates (case_sum id id r) = tx_ready_certificates t \<or>
       r = Inr (case_sum id id r) \<and> taken t cert (unavailable avail ks) (case_sum id id r)"
    using enqueue_one_Some [OF laws Cons.prems(1) ck(1,3), of executed now] by metis
  let ?t = "case_sum id id r"
  have sat: "k \<in> unavailable avail ks \<or> satisfied C k" if "k \<in> set ks" for k
  proof -
    obtain b where "bt_get avail k = Some (Some b)" using ck(3) \<open>k \<in> set ks\<close> by (auto simp: known_all_def)
    then show ?thesis using avl that by (cases b) (auto simp: unavailable_def)
  qed
  have cok: "certs_ok locks ?t N C"
    using r(4)
  proof
    assume "inner ?t = inner t \<and> tx_ready_certificates ?t = tx_ready_certificates t"
    with Cons.prems(2) show ?thesis by (simp add: certs_ok_def)
  next
    assume "r = Inr ?t \<and> taken t cert (unavailable avail ks) ?t"
    then have tk: "taken t cert (unavailable avail ks) ?t" by blast
    then have w: "waiting_on (inner ?t) = (waiting_on (inner t))(cert_digest cert := unavailable avail ks)"
      and p: "\<And>d. d \<noteq> cert_digest cert \<Longrightarrow> bt_get (pending_certificates (inner ?t)) d = bt_get (pending_certificates (inner t)) d"
      unfolding taken_def by blast+
    have new: "certificate pc = cert" if "bt_get (pending_certificates (inner ?t)) (cert_digest cert) = Some pc" for pc
    proof (cases "unavailable avail ks = {}")
      case True
      with w have "waiting_on (inner ?t) (cert_digest cert) = {}" by simp
      with that r(2) show ?thesis by (auto simp: tm_ok_def pending_ok_def waiting_on_def)
    next
      case False
      with tk that show ?thesis unfolding taken_def by auto
    qed
    have sent: "pc \<in> set (tx_ready_certificates t) \<or> certificate pc = cert \<and> unavailable avail ks = {}"
      if "pc \<in> set (tx_ready_certificates ?t)" for pc
      using that tk unfolding taken_def by (auto split: if_splits)
    have "\<forall>d k. k \<in> waiting_on (inner ?t) d \<longrightarrow> k \<notin> N"
      using Cons.prems(2) miss unfolding w by (auto simp: certs_ok_def unavailable_def)
    moreover have "k \<in> waiting_on (inner ?t) d \<or> satisfied C k"
      if "bt_get (pending_certificates (inner ?t)) d = Some pc" "certificate_keys locks (certificate pc) = Some ks'" "k \<in> set ks'" for d pc ks' k
    proof (cases "d = cert_digest cert")
      case True
      with that new ck(2) sat w show ?thesis by auto
    next
      case False
      with that p Cons.prems(2) w show ?thesis unfolding certs_ok_def by (metis fun_upd_other)
    qed
    moreover have "satisfied C k"
      if "pc \<in> set (tx_ready_certificates ?t)" "certificate_keys locks (certificate pc) = Some ks'" "k \<in> set ks'" for pc ks' k
      using sent [OF that(1)] that(2,3) ck(2) sat Cons.prems(2) unfolding certs_ok_def by auto
    ultimately show ?thesis unfolding certs_ok_def by blast
  qed
  show ?case
  proof (cases r)
    case (Inl t1)
    with r c cok show ?thesis by auto
  next
    case (Inr t1)
    with r(2) cok have "tm_ok lib (inner t1)" "certs_ok locks t1 N C" by simp_all
    from Cons.IH [OF this] Cons.prems(3) obtain r' where "enqueue_loop lib executed avail now certs t1 = Some r'"
      "tm_ok lib (inner (case_sum id id r'))" "certs_ok locks (case_sum id id r') N C"
      "available_objects_cache (inner (case_sum id id r')) = available_objects_cache (inner t1)" by auto
    with Inr r(1,3) c show ?thesis by auto
  qed
qed simp

lemma grown_known:
  assumes "grown lib a b S"
  shows "known lib a k = Some True \<Longrightarrow> known lib b k = Some True"
  using assms by (cases k) (auto simp: known_def grown_def)

lemma enqueue_finish_inv:
  assumes laws: "tm_laws lib" and inv: "sys_inv lib locks t (before @ (task, N0) # after) N C"
    and found: "\<forall>k \<in> N0. key_available db (task_receiving task) k"
    and sound: "\<forall>k. key_available db (task_receiving task) k \<longrightarrow> satisfied C k"
  shows "\<exists>r. enqueue_finish lib executed (multi_input_objects_available db (cache_misses task) (task_receiving task)) now task t = Some r \<and>
    sys_inv lib locks (case_sum id id r) (before @ after) N C"
proof -
  note i = sys_invD [OF inv]
  let ?a = "available_objects_cache (inner t)" and ?f = "key_available db (task_receiving task)"
  let ?ms = "cache_misses task" and ?av = "object_availability task"
  have tok: "task_ok lib locks ?a N C task N0" by (rule i(7)) simp
  have srt: "keys_sorted ?av" using tok by (simp add: task_ok_def)
  have ms: "k \<in> set ?ms \<longleftrightarrow> bt_get ?av k = Some None" for k
    unfolding cache_misses_def bt_get_in_set [OF srt] by (auto simp: image_iff)
  have pos: "0 < unbounded_cache_enabled ?a" using i(5) by simp
  obtain av1 b where r1: "record_reads lib (zip (map ?f ?ms) ?ms) ?av ?a = Some (av1, b)" "keys_sorted av1"
    "bt_get av1 = (\<lambda>k. if k \<in> set ?ms then Some (Some (?f k)) else bt_get ?av k)" "grown lib ?a b {k \<in> set ?ms. ?f k}"
    using record_reads_Some [OF laws pos srt, of ?ms ?f] ms by auto
  have some: "\<forall>(k, val) \<in> set av1. val \<noteq> None"
  proof -
    have "val \<noteq> None" if "(k, val) \<in> set av1" for k val
    proof -
      have "bt_get av1 k = Some val" using that bt_get_in_set [OF r1(2)] by simp
      then show ?thesis using ms [of k] unfolding r1(3) by (auto split: if_splits)
    qed
    then show ?thesis by blast
  qed
  obtain av2 c where r2: "recheck_cache lib av1 b = Some (av2, c)" "same_known lib b c"
    "av2 = map (\<lambda>(k, val). (k, if val = Some False \<and> known lib b k = Some True then Some True else val)) av1"
    using recheck_cache_Some [OF laws some] by blast
  have en: "unbounded_cache_enabled c = length (before @ (task, N0) # after)"
    using r2(2) r1(4) i(5) by (simp add: same_known_def grown_def)
  let ?c = "c\<lparr>unbounded_cache_enabled := unbounded_cache_enabled c - 1\<rparr>"
  have dis: "disable_unbounded_cache c = Some ?c" using en by (simp add: disable_unbounded_cache_def)
  have get: "bt_get av2 k = map_option (\<lambda>val. if val = Some False \<and> known lib b k = Some True then Some True else val) (bt_get av1 k)" for k
    unfolding r2(3) by (rule bt_get_map)
  have cache_b: "cache_ok lib b N C"
    using i(3) r1(4) sound unfolding cache_ok_def grown_def by (fastforce simp: satisfied_def)
  have known_c: "known lib ?c = known lib b" "versions lib ?c = versions lib b" "packages lib ?c = packages lib b"
    using same_known_known [OF r2(2)] r2(2) unfolding known_def same_known_def by simp_all
  have cache: "cache_ok lib ?c N C" using cache_b unfolding cache_ok_def known_c .
  have miss: "k \<notin> N" if "bt_get av2 k = Some (Some False)" for k
  proof
    assume "k \<in> N"
    from that have f: "bt_get av1 k = Some (Some False)" "known lib b k \<noteq> Some True" by (auto simp: get split: if_splits)
    show False
    proof (cases "k \<in> N0")
      case True
      with f(1) found tok show False unfolding r1(3) by (auto simp: task_ok_def split: if_splits)
    next
      case False
      with \<open>k \<in> N\<close> tok have "known lib ?a k = Some True" by (auto simp: task_ok_def)
      with grown_known [OF r1(4)] f(2) show False by blast
    qed
  qed
  have sat: "satisfied C k" if "bt_get av2 k = Some (Some True)" for k
  proof (cases "known lib b k = Some True")
    case True
    then show ?thesis by (rule known_True [OF cache_b])
  next
    case False
    with that have "bt_get av1 k = Some (Some True)" by (auto simp: get split: if_splits)
    with sound tok show ?thesis unfolding r1(3) by (auto simp: task_ok_def split: if_splits)
  qed
  have all: "known_all av2 ks" if "\<forall>k \<in> set ks. bt_get ?av k \<noteq> None" for ks
    unfolding known_all_def
  proof
    fix k assume "k \<in> set ks"
    with that obtain x where "bt_get ?av k = Some x" by blast
    then show "\<exists>b. bt_get av2 k = Some (Some b)" using ms [of k] by (cases x) (auto simp: get r1(3))
  qed
  let ?t = "t\<lparr>inner := (inner t)\<lparr>available_objects_cache := ?c\<rparr>\<rparr>"
  have ok1: "tm_ok lib (inner ?t)" using i(1) by simp
  have ok2: "certs_ok locks ?t N C" using i(2) by (simp add: certs_ok_def)
  have ok3: "\<forall>(cert, fx, ks) \<in> set (task_certs task). cert_ok (cert, fx, ks) \<and> certificate_keys locks cert = Some ks \<and> known_all av2 ks"
    using tok all unfolding task_ok_def by blast
  have now_c: "available_objects_cache (inner ?t) = ?c" by simp
  have "\<exists>r. enqueue_loop lib executed av2 now (task_certs task) ?t = Some r \<and> tm_ok lib (inner (case_sum id id r)) \<and>
    certs_ok locks (case_sum id id r) N C \<and> available_objects_cache (inner (case_sum id id r)) = available_objects_cache (inner ?t)"
    by (rule enqueue_loop_inv [OF laws ok1 ok2 ok3]) (fact miss, fact sat)
  then obtain r where r: "enqueue_loop lib executed av2 now (task_certs task) ?t = Some r"
    "tm_ok lib (inner (case_sum id id r))" "certs_ok locks (case_sum id id r) N C"
    "available_objects_cache (inner (case_sum id id r)) = ?c"
    unfolding now_c by (elim exE conjE)
  have run: "enqueue_finish lib executed (multi_input_objects_available db ?ms (task_receiving task)) now task t = Some r"
    using r1(1) r2(1) dis r(1) by (simp add: enqueue_finish_def multi_input_objects_available_map)
  have tasks: "task_ok lib locks ?c N C x M" if "(x, M) \<in> set (before @ after)" for x M
  proof -
    have "task_ok lib locks ?a N C x M" by (rule i(7)) (use that in auto)
    then show ?thesis using grown_known [OF r1(4)] unfolding task_ok_def known_c by blast
  qed
  have "sys_inv lib locks (case_sum id id r) (before @ after) N C"
    unfolding sys_inv_def r(4) using r(2,3) cache i(4,6) en tasks by auto
  with run show ?thesis by blast
qed

section \<open>Every reachable state\<close>

text \<open>No step is stuck: a notification and the end of an open thread always return.\<close>

lemma node_inv_notify:
  assumes "tm_laws lib" and "node_inv lib locks n" and "set ks \<subseteq> committed n" and "in_order (notified n) ks"
  shows "\<exists>t. notify_commit lib (tm_epoch (inner (node_tm n))) d ks now (node_tm n) = Some t"
  using notify_commit_inv [OF assms(1) assms(2) [unfolded node_inv_sys] assms(3,4)] by blast

lemma node_inv_finish:
  assumes "tm_laws lib" and "node_inv lib locks n" and "(task, N) \<in> set (node_tasks n)"
    and "\<forall>k \<in> N. key_available db (task_receiving task) k"
    and "\<forall>k. key_available db (task_receiving task) k \<longrightarrow> satisfied (committed n) k"
  shows "\<exists>r. enqueue_finish lib executed (multi_input_objects_available db (cache_misses task) (task_receiving task)) now task (node_tm n) = Some r"
proof -
  obtain before after where "node_tasks n = before @ (task, N) # after" using assms(3) by (meson split_list)
  with assms(2) have "sys_inv lib locks (node_tm n) (before @ (task, N) # after) (notified n) (committed n)" by (simp add: node_inv_sys)
  from enqueue_finish_inv [OF assms(1) this assms(4,5)] show ?thesis by blast
qed

lemma certs_ok_mono: "certs_ok locks t N C \<Longrightarrow> C \<subseteq> D \<Longrightarrow> certs_ok locks t N D"
  unfolding certs_ok_def using satisfied_mono by blast

lemma node_inv_step:
  assumes laws: "tm_laws lib" and "tm_step lib locks n n'" and inv: "node_inv lib locks n"
  shows "node_inv lib locks n'"
  using assms(2)
proof cases
  case (Commit K)
  note i = sys_invD [OF inv [unfolded node_inv_sys]]
  have "cache_ok lib (available_objects_cache (inner (node_tm n))) (notified n) (committed n \<union> K)"
    using i(3) by (auto simp: cache_ok_def)
  moreover have "task_ok lib locks (available_objects_cache (inner (node_tm n))) (notified n) (committed n \<union> K) task N0"
    if "(task, N0) \<in> set (node_tasks n)" for task N0
    using i(7) [OF that] satisfied_mono [of "committed n" _ "committed n \<union> K"] unfolding task_ok_def by blast
  moreover have "notified n \<subseteq> committed n \<union> K" using i(4) by blast
  ultimately show ?thesis
    unfolding Commit node_inv_sys sys_inv_def using i(1,5,6) certs_ok_mono [OF i(2), of "committed n \<union> K"] by auto
next
  case (Notify ks d now t)
  with notify_commit_inv [OF laws inv [unfolded node_inv_sys] Notify(2,3), of d now] show ?thesis by (auto simp: node_inv_sys)
next
  case (Begin executed certs task t task' t')
  from enqueue_check_inv [OF laws inv [unfolded node_inv_sys] Begin(4,2,3,5)] show ?thesis by (simp add: Begin(1) node_inv_sys)
next
  case (Finish before task N after db executed now r)
  have "sys_inv lib locks (node_tm n) (before @ (task, N) # after) (notified n) (committed n)"
    using inv Finish(2) by (simp add: node_inv_sys)
  from enqueue_finish_inv [OF laws this Finish(3,4), of executed now] Finish show ?thesis by (auto simp: node_inv_sys)
next
  case (Reconfigure epoch)
  note i = sys_invD [OF inv [unfolded node_inv_sys]]
  let ?i = "tm_inner_new lib epoch"
  have "waiting_on ?i d = {}" "bt_get (pending_certificates ?i) d = None" for d
    by (simp_all add: waiting_on_def tm_inner_new_def bt_get_def)
  then have "certs_ok locks (tm_reconfigure lib epoch (node_tm n)) {} (committed n)"
    using i(2) by (simp add: certs_ok_def tm_reconfigure_def)
  then show ?thesis
    using Reconfigure tm_inner_new_ok [of lib epoch] cache_new [OF laws]
    by (simp add: node_inv_sys sys_inv_def tm_reconfigure_def tm_inner_new_def available_objects_new_def available_objects_new_with_size_def)
qed

lemma node_inv_reachable:
  assumes "tm_laws lib" and "(tm_step lib locks)\<^sup>*\<^sup>* (node_start lib epoch) n"
  shows "node_inv lib locks n"
  using assms(2) by induction (use assms(1) node_inv_start node_inv_step in blast)+

end
