(* ===== verification/TmProperties.thy ===== *)
theory TmProperties
  imports TmSystem "HOL-Library.Code_Target_Numeral"
begin

text \<open>
  The properties of the transaction manager, and a run of it on which they apply: lists stand for the library's LRU
  cache and insertion-ordered map.
\<close>

section \<open>Lists as the libraries\<close>

definition list_lru :: "((object_id \<times> 'a) list, 'a) lru_ops" where
  "list_lru =
     \<lparr>lru_unbounded = [],
      lru_get = (\<lambda>k c. case map_of c k of None \<Rightarrow> (None, c) | Some x \<Rightarrow> (Some x, (k, x) # filter (\<lambda>e. fst e \<noteq> k) c)),
      lru_push = (\<lambda>k x c. (map_option (\<lambda>y. (k, y)) (map_of c k), (k, x) # filter (\<lambda>e. fst e \<noteq> k) c)),
      lru_put = (\<lambda>k x c. (k, x) # filter (\<lambda>e. fst e \<noteq> k) c),
      lru_pop_lru = (\<lambda>c. filter (\<lambda>e. fst e \<noteq> fst (last c)) c),
      lru_len = length,
      lru_peek = map_of\<rparr>"

definition list_index :: "(tx_digest \<times> nat) list index_ops" where
  "list_index =
     \<lparr>im_default = [],
      im_insert = (\<lambda>d time m. if d \<in> fst ` set m then map (\<lambda>e. if fst e = d then (d, time) else e) m else m @ [(d, time)]),
      im_shift_remove = (\<lambda>d m. (map_of m d, filter (\<lambda>e. fst e \<noteq> d) m)),
      im_entries = (\<lambda>m. m)\<rparr>"

definition list_lib :: "((object_id \<times> nat) list, (object_id \<times> unit) list, (tx_digest \<times> nat) list) tm_lib" where
  "list_lib = \<lparr>versioned_ops = list_lru, unversioned_ops = list_lru, index_map_ops = list_index\<rparr>"

lemma map_of_filter_key: "map_of (filter (\<lambda>e. fst e \<noteq> k) c) = (map_of c)(k := None)"
  by (induction c) (auto simp: fun_eq_iff)

lemma list_lru_laws: "lru_laws (list_lru :: ((object_id \<times> 'a) list, 'a) lru_ops)"
proof -
  have "length (filter (\<lambda>e. fst e \<noteq> fst (last c)) c) < length c" if "c \<noteq> []" for c :: "(object_id \<times> 'a) list"
    by (rule length_filter_less [of "last c"]) (use that in auto)
  then show ?thesis
    unfolding lru_laws_def
    by (auto simp: list_lru_def map_of_filter_key fun_eq_iff split: option.splits)
qed

lemma list_lib_laws: "tm_laws list_lib"
  by (simp add: tm_laws_def list_lib_def index_laws_def list_index_def list_lru_laws)

section \<open>A run\<close>

text \<open>
  Two certificates: one takes version 3 of object 1 and the package 2, the other version 2 of object 1. They are enqueued
  when only the package exists; the commit of version 2 comes between the two locks, and is in no read of the database;
  the commit of version 3 comes after.
\<close>

definition run_certs :: "(executable_transaction \<times> nat option) list" where
  "run_certs =
     [(\<lparr>cert_digest = 7, cert_epoch = 0, cert_input_objects = [ImmOrOwnedMoveObject (1, 3, 0), MovePackageInput 2],
        cert_receiving_objects = []\<rparr>, None),
      (\<lparr>cert_digest = 8, cert_epoch = 0, cert_input_objects = [ImmOrOwnedMoveObject (1, 2, 0)], cert_receiving_objects = []\<rparr>, None)]"

definition run_db :: object_reads where
  "run_db = \<lparr>exists_by_key = (\<lambda>_ _. False), latest_version = (\<lambda>_. None), have_deleted_owned = (\<lambda>_ _. False),
     deleted_shared = (\<lambda>_ _. False), latest_alive = (\<lambda>i. if i = 2 then Some True else None)\<rparr>"

definition run_locks :: "tx_digest \<Rightarrow> (object_id \<rightharpoonup> nat)" where
  "run_locks = (\<lambda>_ _. None)"

definition run_prepared where
  "run_prepared = the (enqueue_prepare (\<lambda>_. Some False) run_locks run_certs (node_tm (node_start list_lib 0)))"

definition run_begun where "run_begun = enqueue_check list_lib (fst run_prepared) (snd run_prepared)"

definition run_notified where
  "run_notified = the (notify_commit list_lib 0 5 [VersionedObject 1 2] 10 (snd run_begun))"

definition run_enqueued where
  "run_enqueued = the (enqueue_finish list_lib (\<lambda>_. Some False)
     (multi_input_objects_available run_db (cache_misses (fst run_begun)) (task_receiving (fst run_begun))) 20 (fst run_begun) run_notified)"

definition run_woken where
  "run_woken = the (notify_commit list_lib 0 8 [VersionedObject 1 3] 30 (case_sum id id run_enqueued))"

lemma run_prepared: "enqueue_prepare (\<lambda>_. Some False) run_locks run_certs (node_tm (node_start list_lib 0)) = Some run_prepared"
proof -
  have "\<not> Option.is_none (enqueue_prepare (\<lambda>_. Some False) run_locks run_certs (node_tm (node_start list_lib 0)))" by code_simp
  then show ?thesis by (simp add: Option.is_none_def run_prepared_def)
qed

lemma run_prepared_certs: "list_all (\<lambda>(_, _, ks). distinct ks \<and> distinct (map key_id ks)) (task_certs (fst run_prepared))"
  by code_simp

lemma run_notified: "notify_commit list_lib 0 5 [VersionedObject 1 2] 10 (snd run_begun) = Some run_notified"
proof -
  have "\<not> Option.is_none (notify_commit list_lib 0 5 [VersionedObject 1 2] 10 (snd run_begun))" by code_simp
  then show ?thesis by (simp add: Option.is_none_def run_notified_def)
qed

lemma run_enqueued: "enqueue_finish list_lib (\<lambda>_. Some False)
     (multi_input_objects_available run_db (cache_misses (fst run_begun)) (task_receiving (fst run_begun))) 20 (fst run_begun) run_notified =
   Some run_enqueued"
proof -
  have "\<not> Option.is_none (enqueue_finish list_lib (\<lambda>_. Some False)
     (multi_input_objects_available run_db (cache_misses (fst run_begun)) (task_receiving (fst run_begun))) 20 (fst run_begun) run_notified)"
    by code_simp
  then show ?thesis by (simp add: Option.is_none_def run_enqueued_def)
qed

lemma run_woken: "notify_commit list_lib 0 8 [VersionedObject 1 3] 30 (case_sum id id run_enqueued) = Some run_woken"
proof -
  have "\<not> Option.is_none (notify_commit list_lib 0 8 [VersionedObject 1 3] 30 (case_sum id id run_enqueued))" by code_simp
  then show ?thesis by (simp add: Option.is_none_def run_woken_def)
qed

lemma run_results:
  "get_missing_input 7 (case_sum id id run_enqueued) = Some [VersionedObject 1 3]"
  "map (cert_digest \<circ> certificate) (tx_ready_certificates (case_sum id id run_enqueued)) = [8]"
  "map (cert_digest \<circ> certificate) (tx_ready_certificates run_woken) = [8, 7]"
  by code_simp+

lemma run_sent: "list_ex (\<lambda>pc. certificate pc = fst (hd run_certs)) (tx_ready_certificates run_woken)"
  by code_simp

text \<open>The nodes of the run.\<close>

definition run_node :: "_ \<Rightarrow> _ \<Rightarrow> input_key set \<Rightarrow> input_key set \<Rightarrow> (_, _, _) node" where
  "run_node t tasks N C = \<lparr>node_tm = t, node_tasks = tasks, notified = N, committed = C\<rparr>"

abbreviation run_between where
  "run_between \<equiv> run_node run_notified [(fst run_begun, {})] {VersionedObject 1 2} {PackageKey 2, VersionedObject 1 2}"

abbreviation run_waiting where
  "run_waiting \<equiv> run_node (case_sum id id run_enqueued) [] {VersionedObject 1 2} {PackageKey 2, VersionedObject 1 2, VersionedObject 1 3}"

abbreviation run_last where
  "run_last \<equiv> run_node run_woken [] {VersionedObject 1 2, VersionedObject 1 3} {PackageKey 2, VersionedObject 1 2, VersionedObject 1 3}"

lemma run_reaches_between: "(tm_step list_lib run_locks)\<^sup>*\<^sup>* (node_start list_lib 0) run_between"
proof -
  let ?s = "node_start list_lib 0" and ?R = "tm_step list_lib run_locks"
  have s: "?s = run_node (node_tm ?s) [] {} {}" by (simp add: node_start_def run_node_def)
  have 1: "?R (run_node (node_tm ?s) [] {} {}) (run_node (node_tm ?s) [] {} {PackageKey 2})"
    using tm_step.Commit [of list_lib run_locks "run_node (node_tm ?s) [] {} {}" "{PackageKey 2}"] by (simp add: run_node_def)
  have ok: "\<forall>c \<in> set (task_certs (fst run_prepared)). cert_ok c"
    using run_prepared_certs by (auto simp: list_all_iff cert_ok_def distinct_map)
  have 2: "?R (run_node (node_tm ?s) [] {} {PackageKey 2}) (run_node (snd run_begun) [(fst run_begun, {})] {} {PackageKey 2})"
    using tm_step.Begin [of "\<lambda>_. Some False" run_locks run_certs "run_node (node_tm ?s) [] {} {PackageKey 2}"
        "fst run_prepared" "snd run_prepared" list_lib "fst run_begun" "snd run_begun"] run_prepared ok
    by (simp add: run_node_def run_begun_def)
  have 3: "?R (run_node (snd run_begun) [(fst run_begun, {})] {} {PackageKey 2})
      (run_node (snd run_begun) [(fst run_begun, {})] {} {PackageKey 2, VersionedObject 1 2})"
    using tm_step.Commit [of list_lib run_locks "run_node (snd run_begun) [(fst run_begun, {})] {} {PackageKey 2}" "{VersionedObject 1 2}"]
    by (simp add: run_node_def insert_commute)
  have e: "tm_epoch (inner (snd run_begun)) = 0" by code_simp
  have 4: "?R (run_node (snd run_begun) [(fst run_begun, {})] {} {PackageKey 2, VersionedObject 1 2}) run_between"
    using tm_step.Notify [of "[VersionedObject 1 2]" "run_node (snd run_begun) [(fst run_begun, {})] {} {PackageKey 2, VersionedObject 1 2}"
        list_lib 5 10 run_notified run_locks] run_notified e
    by (simp add: run_node_def)
  from 1 2 3 4 have "?R\<^sup>*\<^sup>* (run_node (node_tm ?s) [] {} {}) run_between" by (meson converse_rtranclp_into_rtranclp r_into_rtranclp)
  with s show ?thesis by argo
qed

lemma run_db_available: "key_available run_db [] k \<longleftrightarrow> k = PackageKey 2"
  by (cases k) (simp_all add: key_available_def versioned_available_def run_db_def)

lemma run_reaches_waiting: "(tm_step list_lib run_locks)\<^sup>*\<^sup>* (node_start list_lib 0) run_waiting"
proof -
  let ?R = "tm_step list_lib run_locks" and ?t = "case_sum id id run_enqueued"
  have recv: "task_receiving (fst run_begun) = []" by code_simp
  have 1: "?R run_between (run_node ?t [] {VersionedObject 1 2} {PackageKey 2, VersionedObject 1 2})"
    using tm_step.Finish [of run_between "[]" "fst run_begun" "{}" "[]" run_db list_lib "\<lambda>_. Some False" 20 run_enqueued run_locks]
      run_enqueued run_db_available
    by (simp add: run_node_def recv satisfied_def)
  have 2: "?R (run_node ?t [] {VersionedObject 1 2} {PackageKey 2, VersionedObject 1 2}) run_waiting"
    using tm_step.Commit [of list_lib run_locks "run_node ?t [] {VersionedObject 1 2} {PackageKey 2, VersionedObject 1 2}" "{VersionedObject 1 3}"]
    by (simp add: run_node_def insert_commute)
  from run_reaches_between 1 2 show ?thesis by (meson rtranclp.rtrancl_into_rtrancl)
qed

lemma run_reaches_last: "(tm_step list_lib run_locks)\<^sup>*\<^sup>* (node_start list_lib 0) run_last"
proof -
  have e: "tm_epoch (inner (case_sum id id run_enqueued)) = 0" by code_simp
  have "tm_step list_lib run_locks run_waiting run_last"
    using tm_step.Notify [of "[VersionedObject 1 3]" run_waiting list_lib 8 30 run_woken run_locks] run_woken e
    by (simp add: run_node_def insert_commute)
  with run_reaches_waiting show ?thesis by (rule rtranclp.rtrancl_into_rtrancl)
qed

section \<open>Properties\<close>

text \<open>
  C3: No wake-up is lost. Whatever order commits, notifications, the two locks of enqueueing threads, their reads of
  the database and reconfigurations come in: a certificate that waits has a key that it waits for, the manager was
  notified of none of those, and all its other inputs are there.
\<close>

theorem tm_no_lost_wakeup:
  assumes "tm_laws lib" and "(tm_step lib locks)\<^sup>*\<^sup>* (node_start lib epoch) n"
    and "get_missing_input d (node_tm n) = Some ks"
  shows "ks \<noteq> [] \<and> set ks \<inter> notified n = {} \<and>
    (\<exists>pc. bt_get (pending_certificates (inner (node_tm n))) d = Some pc \<and> cert_digest (certificate pc) = d \<and>
       (\<forall>inputs. certificate_keys locks (certificate pc) = Some inputs \<longrightarrow>
          (\<forall>k \<in> set inputs - set ks. satisfied (committed n) k)))"
proof -
  note inv = node_inv_reachable [OF assms(1,2)]
  obtain pc where pc: "bt_get (pending_certificates (inner (node_tm n))) d = Some pc" "ks = waiting_input_objects pc"
    using assms(3) by (auto simp: get_missing_input_def)
  have w: "waiting_on (inner (node_tm n)) d = set ks" using pc by (simp add: waiting_on_def)
  have "pending_ok (inner (node_tm n))" and c: "certs_ok locks (node_tm n) (notified n) (committed n)"
    using inv by (simp_all add: node_inv_def Let_def tm_ok_def)
  then have "ks \<noteq> []" "cert_digest (certificate pc) = d" using pc by (auto simp: pending_ok_def)
  moreover have "set ks \<inter> notified n = {}" using c w by (auto simp: certs_ok_def)
  moreover have "satisfied (committed n) k"
    if "certificate_keys locks (certificate pc) = Some inputs" "k \<in> set inputs - set ks" for inputs k
    using c that pc(1) w unfolding certs_ok_def by blast
  ultimately show ?thesis using pc(1) by blast
qed

theorem tm_no_lost_wakeup_witness:
  "get_missing_input 7 (node_tm run_waiting) = Some [VersionedObject 1 3] \<and> set [VersionedObject 1 3] \<inter> notified run_waiting = {}"
proof -
  have "get_missing_input 7 (node_tm run_waiting) = Some [VersionedObject 1 3]" using run_results(1) by (simp add: run_node_def)
  with tm_no_lost_wakeup [OF list_lib_laws run_reaches_waiting this] show ?thesis by blast
qed

text \<open>
  C19: Only certificates with all their inputs go to the execution driver: each input has been written or deleted, in the version
  that is needed or a later one.
\<close>

theorem tm_ready_inputs_written:
  assumes "tm_laws lib" and "(tm_step lib locks)\<^sup>*\<^sup>* (node_start lib epoch) n"
    and "pc \<in> set (tx_ready_certificates (node_tm n))" and "certificate_keys locks (certificate pc) = Some inputs"
  shows "list_all (satisfied (committed n)) inputs"
  using node_inv_reachable [OF assms(1,2)] assms(3,4) by (auto simp: node_inv_def Let_def certs_ok_def list_all_iff)

theorem tm_ready_inputs_written_witness:
  "list_all (satisfied (committed run_last)) [VersionedObject 1 3, PackageKey 2]"
proof -
  obtain pc where "pc \<in> set (tx_ready_certificates run_woken)" "certificate pc = fst (hd run_certs)"
    using run_sent by (cases "tx_ready_certificates run_woken") (auto simp: list_ex_iff)
  moreover have "certificate_keys run_locks (fst (hd run_certs)) = Some [VersionedObject 1 3, PackageKey 2]" by code_simp
  ultimately show ?thesis
    using tm_ready_inputs_written [OF list_lib_laws run_reaches_last, of pc] by (simp add: run_node_def)
qed

text \<open>
  C20: A certificate that waits is sent. The commit that notifies the keys it waits for returns without failing an
  assertion, takes the certificate from the queue and sends it to the execution driver; one that notifies only some of
  them leaves it waiting for exactly the others.
\<close>

theorem tm_notify_wakes:
  assumes "tm_laws lib" and "(tm_step lib locks)\<^sup>*\<^sup>* (node_start lib epoch) n"
    and "bt_get (pending_certificates (inner (node_tm n))) d = Some pc"
    and "set ks \<subseteq> committed n" and "in_order (notified n) ks"
  shows "\<exists>t. notify_commit lib (tm_epoch (inner (node_tm n))) d' ks now (node_tm n) = Some t \<and>
    (if set (waiting_input_objects pc) \<subseteq> set ks
     then get_missing_input d t = None \<and> (\<exists>pc' \<in> set (tx_ready_certificates t). certificate pc' = certificate pc)
     else \<exists>ks'. get_missing_input d t = Some ks' \<and> set ks' = set (waiting_input_objects pc) - set ks)"
proof -
  have inv: "sys_inv lib locks (node_tm n) (node_tasks n) (notified n) (committed n)"
    using node_inv_reachable [OF assms(1,2)] by (simp add: node_inv_sys)
  obtain t1 where t1: "fold_opt (object_available lib True now) ks (node_tm n) = Some t1"
    using objects_available_inv [OF assms(1) inv assms(4,5)] by metis
  obtain t where t: "notify_commit lib (tm_epoch (inner (node_tm n))) d' ks now (node_tm n) = Some t"
    "pending_certificates (inner t) = pending_certificates (inner t1)" "tx_ready_certificates t = tx_ready_certificates t1"
    using t1 by (cases "d' \<in> set (executing_certificates (inner t1))")
      (auto simp: notify_commit_def objects_available_locked_def remove_pending_execution_def)
  note w = objects_available_wakes [OF assms(1) sys_invD(1) [OF inv] t1 assms(3)]
  show ?thesis
  proof (intro exI conjI, rule t(1))
    show "if set (waiting_input_objects pc) \<subseteq> set ks
     then get_missing_input d t = None \<and> (\<exists>pc' \<in> set (tx_ready_certificates t). certificate pc' = certificate pc)
     else \<exists>ks'. get_missing_input d t = Some ks' \<and> set ks' = set (waiting_input_objects pc) - set ks"
      using w unfolding get_missing_input_def t(2,3) by (auto split: if_splits)
  qed
qed

theorem tm_notify_wakes_witness:
  "\<exists>t. notify_commit list_lib 0 8 [VersionedObject 1 3] 30 (node_tm run_waiting) = Some t \<and> get_missing_input 7 t = None"
proof -
  obtain pc where pc: "bt_get (pending_certificates (inner (node_tm run_waiting))) 7 = Some pc" "waiting_input_objects pc = [VersionedObject 1 3]"
    using run_results(1) by (auto simp: get_missing_input_def run_node_def)
  have e: "tm_epoch (inner (node_tm run_waiting)) = 0" unfolding run_node_def by code_simp
  have "set [VersionedObject 1 3] \<subseteq> committed run_waiting" "in_order (notified run_waiting) [VersionedObject 1 3]"
    by (simp_all add: run_node_def)
  from tm_notify_wakes [OF list_lib_laws run_reaches_waiting pc(1) this, of 8 30] show ?thesis unfolding e pc(2) by auto
qed



section \<open>Reconfiguration between the locks\<close>

lemma aoc_insert_enabled: "aoc_insert lib k a = Some b \<Longrightarrow> unbounded_cache_enabled b = unbounded_cache_enabled a"
  by (auto simp: aoc_insert_def Let_def split: if_splits bind_splits)

lemma record_reads_enabled:
  "record_reads lib rs avail a = Some (avail', b) \<Longrightarrow> unbounded_cache_enabled b = unbounded_cache_enabled a"
  by (induction lib rs avail a rule: record_reads.induct)
    (auto split: if_splits bind_splits dest: aoc_insert_enabled)

lemma aoc_available_enabled: "aoc_available lib k a = (r, b) \<Longrightarrow> unbounded_cache_enabled b = unbounded_cache_enabled a"
  by (auto simp: aoc_available_def split: prod.splits)

lemma recheck_cache_enabled:
  "recheck_cache lib avail a = Some (avail', b) \<Longrightarrow> unbounded_cache_enabled b = unbounded_cache_enabled a"
proof (induction lib avail a arbitrary: avail' rule: recheck_cache.induct)
  case (2 lib k val rest a)
  then show ?case
    by (auto split: if_splits bind_splits prod.splits dest: aoc_available_enabled)
qed simp

text \<open>The number of open enqueues that the cache counts, and how each operation changes it.\<close>

abbreviation open_count :: "('v, 'u, 'm) tm \<Rightarrow> nat" where
  "open_count t \<equiv> unbounded_cache_enabled (available_objects_cache (inner t))"

lemma register_missing_cache:
  "register_missing lib avail d now ks i = Some (w, i') \<Longrightarrow> available_objects_cache i' = available_objects_cache i"
proof (induction lib avail d now ks i arbitrary: w rule: register_missing.induct)
  case (2 lib avail d now k ks t)
  obtain b where b: "bt_get avail k = Some (Some b)" using "2.prems" by (auto elim!: bind_SomeE)
  show ?case
  proof (cases b)
    case True
    with b "2.prems" "2.IH"(1) [OF b refl True] show ?thesis by simp
  next
    case False
    let ?ds = "case bt_get (missing_inputs t) k of Some ds \<Rightarrow> ds | None \<Rightarrow> []"
    let ?txns = "case bt_get (tm_input_objects t) (key_id k) of Some txns \<Rightarrow> txns | None \<Rightarrow> im_default (index_map_ops lib)"
    let ?t = "t\<lparr>missing_inputs := bt_insert k (bs_insert d ?ds) (missing_inputs t),
        tm_input_objects := bt_insert (key_id k) (im_insert (index_map_ops lib) d now ?txns) (tm_input_objects t)\<rparr>"
    obtain w1 where "register_missing lib avail d now ks ?t = Some (w1, i')"
      using "2.prems" b False by (auto simp: Let_def elim!: bind_SomeE)
    with "2.IH"(2) [OF b refl _ refl _ refl, of "()" w1] False "2.prems" b show ?thesis
      by (auto simp: Let_def elim!: bind_SomeE)
  qed
qed simp

lemma certificate_ready_cache:
  "certificate_ready pc t = Some t' \<Longrightarrow> available_objects_cache (inner t') = available_objects_cache (inner t)"
  by (auto simp: certificate_ready_def Let_def option_simps)

lemma enqueue_one_cache:
  "enqueue_one lib executed avail now c t = Some r \<Longrightarrow>
    available_objects_cache (inner (case_sum id id r)) = available_objects_cache (inner t)"
  by (auto simp: enqueue_one_def Let_def remove_pending_execution_def option_simps split: prod.splits if_splits option.splits bool.splits
      dest!: certificate_ready_cache register_missing_cache)

lemma enqueue_loop_cache:
  "enqueue_loop lib executed avail now cs t = Some r \<Longrightarrow>
    available_objects_cache (inner (case_sum id id r)) = available_objects_cache (inner t)"
proof (induction cs arbitrary: t)
  case (Cons c cs)
  obtain r1 where r1: "enqueue_one lib executed avail now c t = Some r1"
    and rest: "(case r1 of Inl t \<Rightarrow> Some (Inl t) | Inr t \<Rightarrow> enqueue_loop lib executed avail now cs t) = Some r"
    using Cons.prems by (auto elim!: bind_SomeE)
  from rest enqueue_one_cache [OF r1] Cons.IH show ?case by (cases r1) auto
qed auto

lemma enqueue_finish_open:
  "enqueue_finish lib executed reads now task t = Some r \<Longrightarrow> 0 < open_count t \<and> open_count (case_sum id id r) = open_count t - 1"
  by (auto simp: enqueue_finish_def disable_unbounded_cache_def option_simps
      dest!: record_reads_enabled recheck_cache_enabled enqueue_loop_cache)

lemma check_cache_enabled: "check_cache lib ks a = (r, b) \<Longrightarrow> unbounded_cache_enabled b = unbounded_cache_enabled a"
proof (induction lib ks a arbitrary: r rule: check_cache.induct)
  case (2 lib k val rest a)
  obtain found a1 where f: "aoc_available lib k a = (found, a1)" by fastforce
  obtain others where "check_cache lib rest a1 = (others, b)" using "2.prems" f by (auto split: prod.splits)
  with "2.IH" [OF f [symmetric]] aoc_available_enabled [OF f] show ?case by simp
qed simp

lemma enqueue_begin_open:
  assumes "enqueue_prepare executed locks certs t = Some (task, t1)" and "enqueue_check lib task t1 = (task', t2)"
  shows "open_count t2 = add64 (open_count t) 1"
proof -
  have "inner (fold (\<lambda>((cert, _), e) t. if e then remove_pending_execution (cert_digest cert) t else t) xs t) = inner t" for xs
    by (induction xs arbitrary: t) (auto simp: remove_pending_execution_def split: prod.splits)
  then have "inner t1 = inner t" using assms(1) unfolding enqueue_prepare_def by (auto simp: Let_def elim!: bind_SomeE)
  with assms(2) show ?thesis
    by (auto simp: enqueue_check_def enable_unbounded_cache_def split: prod.splits dest!: check_cache_enabled)
qed

lemma object_available_open:
  assumes "object_available lib u now k t = Some t'"
  shows "open_count t' = open_count t"
proof -
  obtain ready i where f: "find_ready_transactions lib k u (inner t) = Some (ready, i)"
    and r: "fold_opt (\<lambda>pc. certificate_ready (pc\<lparr>ready_time := Some now\<rparr>)) ready (t\<lparr>inner := i\<rparr>) = Some t'"
    using assms by (auto simp: object_available_def elim!: bind_SomeE)
  have "unbounded_cache_enabled (available_objects_cache i) = open_count t"
    using f by (auto simp: find_ready_transactions_def Let_def option_simps split: if_splits option.splits dest!: aoc_insert_enabled)
  moreover have "available_objects_cache (inner t') = available_objects_cache i"
    by (rule fold_opt_invariant [OF r, where I = "\<lambda>x. available_objects_cache (inner x) = available_objects_cache i"])
      (auto dest: certificate_ready_cache)
  ultimately show ?thesis by simp
qed

lemma notify_commit_open:
  assumes "notify_commit lib ep d ks now t = Some t'"
  shows "open_count t' = open_count t"
proof (cases "tm_epoch (inner t) = ep")
  case True
  then obtain t1 where o: "fold_opt (object_available lib True now) ks t = Some t1" "available_objects_cache (inner t') = available_objects_cache (inner t1)"
    using assms by (auto simp: notify_commit_def objects_available_locked_def remove_pending_execution_def elim!: bind_SomeE split: if_splits)
  have "open_count t1 = open_count t"
    by (rule fold_opt_invariant [OF o(1), where I = "\<lambda>x. open_count x = open_count t"]) (auto dest: object_available_open)
  with o(2) show ?thesis by simp
qed (use assms in \<open>simp add: notify_commit_def\<close>)

text \<open>After a reconfiguration the cache no longer counts the enqueues that were open.\<close>

lemma uncounted_step:
  assumes "tm_step lib locks m m'" and "length (node_tasks m) = open_count (node_tm m) + k" and "0 < k"
  shows "length (node_tasks m') = open_count (node_tm m') + k"
  using assms(1)
proof cases
  case (Begin executed certs task t task' t')
  have "open_count (node_tm m) + 1 < 2 ^ 64" using Begin(4) assms(2) by simp
  with enqueue_begin_open [OF Begin(2,5)] assms(2) show ?thesis by (simp add: Begin(1) add64_def)
next
  case (Finish before task N after db executed now r)
  from enqueue_finish_open [OF Finish(5)] assms(2) Finish(2) show ?thesis by (simp add: Finish(1))
next
  case (Notify ks d now t)
  from notify_commit_open [OF Notify(4)] assms(2) show ?thesis by (simp add: Notify(1))
next
  case (Reconfigure epoch)
  with assms(2,3) show ?thesis by simp
qed (use assms(2) in simp)

text \<open>
  C22: A reconfiguration while enqueues are between their locks makes as many enqueues panic. The new cache does not count the ones
  that were open; in every state of every run that continues from there, at least as many enqueues are open as
  were at the reconfiguration, so that they are never all done; and when only as many are left, which may be others that
  began later, none of them can take its second lock: whatever it holds and has read, the assertion of
  \<^verbatim>\<open>disable_unbounded_cache\<close> fails.
\<close>

theorem tm_reconfigure_between_locks_panics:
  assumes "node_tasks n \<noteq> []"
    and "(tm_step lib locks)\<^sup>*\<^sup>* (n\<lparr>node_tm := tm_reconfigure lib new_epoch (node_tm n), notified := {}\<rparr>) m"
  shows "length (node_tasks n) \<le> length (node_tasks m) \<and>
    (length (node_tasks m) = length (node_tasks n) \<longrightarrow> enqueue_finish lib executed reads now task (node_tm m) = None)"
proof -
  have "length (node_tasks m) = open_count (node_tm m) + length (node_tasks n)"
    using assms(2)
  proof (induction rule: rtranclp_induct)
    case base
    show ?case by (simp add: tm_reconfigure_def tm_inner_new_def available_objects_new_def available_objects_new_with_size_def)
  next
    case (step y z)
    from uncounted_step [OF step.hyps(2) step.IH] assms(1) show ?case by simp
  qed
  then show ?thesis using enqueue_finish_open [of lib executed reads now task "node_tm m"] by fastforce
qed

text \<open>The sample enqueue is between its locks in a reachable state; then the epoch changes and a package is committed.\<close>

theorem tm_reconfigure_between_locks_panics_witness:
  "enqueue_finish list_lib (\<lambda>_. Some False) [] 20 (fst run_begun) (tm_reconfigure list_lib 1 run_notified) = None"
proof -
  let ?n = "run_between\<lparr>node_tm := tm_reconfigure list_lib 1 (node_tm run_between), notified := {}\<rparr>"
  have "(tm_step list_lib run_locks)\<^sup>*\<^sup>* ?n (?n\<lparr>committed := committed ?n \<union> {PackageKey 3}\<rparr>)"
    using tm_step.Commit [of list_lib run_locks ?n "{PackageKey 3}"] by blast
  from tm_reconfigure_between_locks_panics [OF _ this, of "\<lambda>_. Some False" "[]" 20 "fst run_begun"] show ?thesis
    by (simp add: run_node_def)
qed

end
