(* ===== verification/CausalOrder.thy ===== *)
theory CausalOrder
  imports Effects "HOL-Library.Product_Lexorder"
begin

text \<open>
  The causal order of the transactions of a checkpoint, \<^verbatim>\<open>crates/sui-core/src/checkpoints/causal_order.rs\<close>: a
  depth-first search over the dependencies of the effects, with its own stack. It always returns, it is a
  permutation of its input that does not depend on the order of the input, and when the dependencies have no cycle each
  transaction comes after the ones it depends on.
\<close>

section \<open>Effects\<close>

fun effects_transaction_digest :: "transaction_effects \<Rightarrow> tx_digest" where
  "effects_transaction_digest (V1 e) = e1_transaction_digest e"
| "effects_transaction_digest (V2 e) = e2_transaction_digest e"

fun effects_dependencies :: "transaction_effects \<Rightarrow> tx_digest list" where
  "effects_dependencies (V1 e) = e1_dependencies e"
| "effects_dependencies (V2 e) = e2_dependencies e"

section \<open>Readers of overwritten versions\<close>

type_synonym object_key = "object_id \<times> nat"

record rwlock_builder =
  read_version :: "(object_key, tx_digest list) btree_map"
  overwrite_versions :: "(tx_digest, object_key list) btree_map"

text \<open>\<^verbatim>\<open>entry(k).or_default().push(x)\<close>\<close>

definition bt_push :: "'k::linorder \<Rightarrow> 'v \<Rightarrow> ('k, 'v list) btree_map \<Rightarrow> ('k, 'v list) btree_map" where
  "bt_push k x m = bt_insert k ((case bt_get m k of Some xs \<Rightarrow> xs | None \<Rightarrow> []) @ [x]) m"

fun rwlock_add :: "tx_digest \<Rightarrow> input_shared_object \<Rightarrow> rwlock_builder \<Rightarrow> rwlock_builder" where
  "rwlock_add d (SharedReadOnly (i, v, _)) b = b\<lparr>read_version := bt_push (i, v) d (read_version b)\<rparr>"
| "rwlock_add d (SharedMutate (i, v, _)) b = b\<lparr>overwrite_versions := bt_push d (i, v) (overwrite_versions b)\<rparr>"
| "rwlock_add d (SharedReadDeleted i v) b = b\<lparr>read_version := bt_push (i, v) d (read_version b)\<rparr>"
| "rwlock_add d (SharedMutateDeleted i v) b = b\<lparr>overwrite_versions := bt_push d (i, v) (overwrite_versions b)\<rparr>"

definition rwlock_from_effects :: "transaction_effects list \<Rightarrow> rwlock_builder" where
  "rwlock_from_effects effects =
     fold (\<lambda>e. fold (rwlock_add (effects_transaction_digest e)) (effects_input_shared_objects e)) effects
       \<lparr>read_version = [], overwrite_versions = []\<rparr>"

definition add_dependencies_for :: "rwlock_builder \<Rightarrow> tx_digest \<Rightarrow> tx_digest list \<Rightarrow> tx_digest list" where
  "add_dependencies_for b d deps =
     (case bt_get (overwrite_versions b) d of
        None \<Rightarrow> deps
      | Some overwrites \<Rightarrow>
          fold (\<lambda>k deps. case bt_get (read_version b) k of None \<Rightarrow> deps | Some reads \<Rightarrow> bs_extend deps reads) overwrites deps)"

section \<open>The search\<close>

record transaction_dependencies =
  td_digest :: tx_digest
  td_dependencies :: "tx_digest list"
  td_effects :: transaction_effects

definition td_from_effects :: "rwlock_builder \<Rightarrow> transaction_effects \<Rightarrow> transaction_dependencies" where
  "td_from_effects b e =
     (let d = effects_transaction_digest e in
      \<lparr>td_digest = d, td_dependencies = add_dependencies_for b d (bs_extend [] (effects_dependencies e)), td_effects = e\<rparr>)"

record causal_order =
  not_seen :: "(tx_digest, transaction_dependencies) btree_map"
  co_output :: "transaction_effects list"

definition co_from_vec :: "transaction_effects list \<Rightarrow> causal_order" where
  "co_from_vec effects =
     (let b = rwlock_from_effects effects in
      \<lparr>not_seen = fold (\<lambda>t. bt_insert (td_digest t) t) (map (td_from_effects b) effects) [], co_output = []\<rparr>)"

fun co_pop_first :: "causal_order \<Rightarrow> (transaction_dependencies \<times> causal_order) option" where
  "co_pop_first co =
     (case not_seen co of
        [] \<Rightarrow> None
      | (k, t) # _ \<Rightarrow> Some (t, co\<lparr>not_seen := bt_remove k (not_seen co)\<rparr>))"

record insert_state =
  is_dependencies :: "tx_digest list"
  is_transaction :: "transaction_dependencies option"

definition insert_state_new :: "transaction_dependencies \<Rightarrow> insert_state" where
  "insert_state_new t = \<lparr>is_dependencies = td_dependencies t, is_transaction = Some t\<rparr>"

text \<open>The loop of \<^verbatim>\<open>process\<close>: dependencies are taken from the end until one is not seen.\<close>

function process_loop :: "tx_digest list \<Rightarrow> causal_order \<Rightarrow> (transaction_dependencies option \<times> tx_digest list \<times> causal_order)" where
  "process_loop deps co =
     (if deps = [] then (None, [], co)
      else case bt_get (not_seen co) (last deps) of
          Some t \<Rightarrow> (Some t, butlast deps, co\<lparr>not_seen := bt_remove (last deps) (not_seen co)\<rparr>)
        | None \<Rightarrow> process_loop (butlast deps) co)"
  by auto
termination by (relation "measure (\<lambda>(deps, _). length deps)") auto

declare process_loop.simps [simp del]

text \<open>One call on the state on top: a new state to push, or none when the transaction went to the output.\<close>

definition process :: "insert_state \<Rightarrow> causal_order \<Rightarrow> (insert_state option \<times> insert_state \<times> causal_order) option" where
  "process st co =
     (case process_loop (is_dependencies st) co of
        (Some t, deps, co) \<Rightarrow> Some (Some (insert_state_new t), st\<lparr>is_dependencies := deps\<rparr>, co)
      | (None, deps, co) \<Rightarrow> do {
          t \<leftarrow> is_transaction st;
          Some (None, st\<lparr>is_dependencies := deps, is_transaction := None\<rparr>, co\<lparr>co_output := co_output co @ [td_effects t]\<rparr>)
        })"

text \<open>The stack, its top first.\<close>

partial_function (option) insert_loop :: "insert_state list \<Rightarrow> causal_order \<Rightarrow> causal_order option" where
  [code]: "insert_loop states co =
     (case states of
        [] \<Rightarrow> Some co
      | st # rest \<Rightarrow> do {
          (new_state, st, co) \<leftarrow> process st co;
          case new_state of
            Some new \<Rightarrow> insert_loop (new # st # rest) co
          | None \<Rightarrow> insert_loop rest co
        })"

definition co_insert :: "transaction_dependencies \<Rightarrow> causal_order \<Rightarrow> causal_order option" where
  "co_insert t co = insert_loop [insert_state_new t] co"

partial_function (option) causal_loop :: "causal_order \<Rightarrow> causal_order option" where
  [code]: "causal_loop co =
     (case co_pop_first co of
        None \<Rightarrow> Some co
      | Some (t, co) \<Rightarrow> do { co \<leftarrow> co_insert t co; causal_loop co })"

definition causal_sort :: "transaction_effects list \<Rightarrow> transaction_effects list option" where
  "causal_sort effects = do { co \<leftarrow> causal_loop (co_from_vec effects); Some (co_output co) }"

section \<open>The state of the search\<close>

text \<open>
  \<open>G\<close> is what the search started with. What is not seen is a part of it, what went out was in it, and nothing is in both
  or twice in the output.
\<close>

abbreviation outs :: "causal_order \<Rightarrow> tx_digest set" where
  "outs co \<equiv> effects_transaction_digest ` set (co_output co)"

definition pool :: "causal_order \<Rightarrow> tx_digest set" where
  "pool co = dom (bt_get (not_seen co)) \<union> outs co"

definition graph_ok :: "(tx_digest \<Rightarrow> transaction_dependencies option) \<Rightarrow> bool" where
  "graph_ok G \<longleftrightarrow> (\<forall>d t. G d = Some t \<longrightarrow> td_digest t = d \<and> effects_transaction_digest (td_effects t) = d)"

definition co_ok :: "(tx_digest \<Rightarrow> transaction_dependencies option) \<Rightarrow> causal_order \<Rightarrow> bool" where
  "co_ok G co \<longleftrightarrow>
     keys_sorted (not_seen co) \<and> bt_get (not_seen co) \<subseteq>\<^sub>m G \<and>
     distinct (map effects_transaction_digest (co_output co)) \<and> outs co \<inter> dom (bt_get (not_seen co)) = {} \<and>
     (\<forall>e \<in> set (co_output co). \<exists>t. G (effects_transaction_digest e) = Some t \<and> td_effects t = e)"

text \<open>The dependencies within the graph, and an output in which they come first.\<close>

definition deps_rel :: "(tx_digest \<Rightarrow> transaction_dependencies option) \<Rightarrow> (tx_digest \<times> tx_digest) set" where
  "deps_rel G = {(d, d'). \<exists>t. G d = Some t \<and> d' \<in> set (td_dependencies t) \<and> d' \<in> dom G}"

definition ordered_out :: "(tx_digest \<Rightarrow> transaction_dependencies option) \<Rightarrow> transaction_effects list \<Rightarrow> bool" where
  "ordered_out G out \<longleftrightarrow>
     (\<forall>i < length out. \<forall>d. (effects_transaction_digest (out ! i), d) \<in> deps_rel G \<longrightarrow>
        d \<in> effects_transaction_digest ` set (take i out))"

lemma ordered_out_Nil [simp]: "ordered_out G []"
  by (simp add: ordered_out_def)

lemma ordered_out_snoc:
  "ordered_out G (out @ [e]) \<longleftrightarrow> ordered_out G out \<and>
     (\<forall>d. (effects_transaction_digest e, d) \<in> deps_rel G \<longrightarrow> d \<in> effects_transaction_digest ` set out)"
  unfolding ordered_out_def by (auto simp: nth_append less_Suc_eq)

lemma bt_get_Nil [simp]: "bt_get [] = Map.empty"
  by (simp add: bt_get_def fun_eq_iff)

lemma length_bt_remove:
  assumes "keys_sorted m" and "bt_get m k \<noteq> None"
  shows "length (bt_remove k m) < length m"
proof -
  obtain v where "(k, v) \<in> set m" using assms by (auto simp: bt_get_in_set)
  then show ?thesis unfolding bt_remove_def by (intro length_filter_less [of "(k, v)"]) auto
qed

text \<open>A transaction leaves the unseen ones, and comes back as output.\<close>

definition co_take :: "tx_digest \<Rightarrow> causal_order \<Rightarrow> causal_order" where
  "co_take d co = co\<lparr>not_seen := bt_remove d (not_seen co)\<rparr>"

definition co_put :: "transaction_dependencies \<Rightarrow> causal_order \<Rightarrow> causal_order" where
  "co_put t co = co\<lparr>co_output := co_output co @ [td_effects t]\<rparr>"

lemma co_take_ok:
  assumes "co_ok G co"
  shows "co_ok G (co_take d co)" "pool (co_take d co) = pool co - ({d} \<inter> dom (bt_get (not_seen co)))"
proof -
  show "co_ok G (co_take d co)"
    using assms by (auto simp: co_ok_def co_take_def bt_get_remove map_le_def)
  show "pool (co_take d co) = pool co - ({d} \<inter> dom (bt_get (not_seen co)))"
    using assms by (auto simp: co_ok_def pool_def co_take_def bt_get_remove)
qed

lemma co_put_ok:
  assumes "graph_ok G" and "co_ok G co" and "G d = Some t" and "d \<notin> pool co"
  shows "co_ok G (co_put t co)" "pool (co_put t co) = insert d (pool co)"
  using assms by (auto simp: graph_ok_def co_ok_def pool_def co_put_def)

lemma process_loop_snoc:
  "process_loop [] co = (None, [], co)"
  "process_loop (ds @ [d]) co =
     (case bt_get (not_seen co) d of Some t \<Rightarrow> (Some t, ds, co_take d co) | None \<Rightarrow> process_loop ds co)"
  by (subst process_loop.simps; simp add: co_take_def split: option.splits)+

abbreviation frame :: "tx_digest list \<Rightarrow> transaction_dependencies \<Rightarrow> insert_state" where
  "frame ds t \<equiv> \<lparr>is_dependencies = ds, is_transaction = Some t\<rparr>"

lemma insert_loop_steps:
  "insert_loop [] co = Some co"
  "insert_loop (frame [] t # rest) co = insert_loop rest (co_put t co)"
  "bt_get (not_seen co) d = None \<Longrightarrow> insert_loop (frame (ds @ [d]) t # rest) co = insert_loop (frame ds t # rest) co"
  "bt_get (not_seen co) d = Some t' \<Longrightarrow>
     insert_loop (frame (ds @ [d]) t # rest) co = insert_loop (frame (td_dependencies t') t' # frame ds t # rest) (co_take d co)"
proof -
  show "insert_loop [] co = Some co" by (simp add: insert_loop.simps)
  show "insert_loop (frame [] t # rest) co = insert_loop rest (co_put t co)"
    by (simp add: insert_loop.simps [of "frame [] t # rest"] process_def process_loop_snoc co_put_def)
  show "insert_loop (frame (ds @ [d]) t # rest) co = insert_loop (frame ds t # rest) co" if "bt_get (not_seen co) d = None"
  proof -
    have "process (frame (ds @ [d]) t) co = process (frame ds t) co"
      using that by (simp add: process_def process_loop_snoc(2) split: prod.splits option.splits)
    then show ?thesis by (simp add: insert_loop.simps [of "frame (ds @ [d]) t # rest"] insert_loop.simps [of "frame ds t # rest"])
  qed
  show "insert_loop (frame (ds @ [d]) t # rest) co = insert_loop (frame (td_dependencies t') t' # frame ds t # rest) (co_take d co)"
    if "bt_get (not_seen co) d = Some t'"
    using that by (simp add: insert_loop.simps [of "frame (ds @ [d]) t # rest"] process_def process_loop_snoc(2) insert_state_new_def)
qed

section \<open>The search is right\<close>

text \<open>
  What the order of the output needs of dependencies that are still to visit: whatever they reach is unseen or out, so
  nothing of it is on the stack.
\<close>

definition clear :: "(tx_digest \<Rightarrow> transaction_dependencies option) \<Rightarrow> tx_digest list \<Rightarrow> causal_order \<Rightarrow> bool" where
  "clear G ds co \<longleftrightarrow>
     acyclic (deps_rel G) \<and> ordered_out G (co_output co) \<and>
     (\<forall>d \<in> set ds. \<forall>e. (d, e) \<in> (deps_rel G)\<^sup>* \<longrightarrow> e \<in> dom G \<longrightarrow> e \<in> pool co)"

definition visited ::
  "(tx_digest \<Rightarrow> transaction_dependencies option) \<Rightarrow> tx_digest list \<Rightarrow> causal_order \<Rightarrow> causal_order \<Rightarrow> bool" where
  "visited G ds co co' \<longleftrightarrow>
     co_ok G co' \<and> pool co' = pool co \<and> dom (bt_get (not_seen co')) \<subseteq> dom (bt_get (not_seen co)) \<and>
     length (not_seen co') \<le> length (not_seen co) \<and> (\<forall>d \<in> set ds. bt_get (not_seen co') d = None) \<and>
     (clear G ds co \<longrightarrow> ordered_out G (co_output co'))"

lemma clear_child:
  assumes "clear G (ds @ [d]) co" and "co_ok G co" and "G d = Some t" and "bt_get (not_seen co) d = Some t"
  shows "clear G (td_dependencies t) (co_take d co)"
proof -
  have acy: "acyclic (deps_rel G)" and ord: "ordered_out G (co_output co)"
    and reach: "\<And>e. (d, e) \<in> (deps_rel G)\<^sup>* \<Longrightarrow> e \<in> dom G \<Longrightarrow> e \<in> pool co"
    using assms(1) by (auto simp: clear_def)
  have "e \<in> pool (co_take d co)" if d': "d' \<in> set (td_dependencies t)" and e: "(d', e) \<in> (deps_rel G)\<^sup>*" "e \<in> dom G" for d' e
  proof -
    have "d' \<in> dom G" using e by (cases rule: converse_rtranclE) (auto simp: deps_rel_def)
    with d' assms(3) have "(d, d') \<in> deps_rel G" by (auto simp: deps_rel_def)
    with e(1) have plus: "(d, e) \<in> (deps_rel G)\<^sup>+" by simp
    with acy have "e \<noteq> d" by (auto simp: acyclic_def)
    with reach [OF trancl_into_rtrancl [OF plus] e(2)] show ?thesis by (simp add: co_take_ok(2) [OF assms(2)])
  qed
  with acy ord show ?thesis by (simp add: clear_def co_take_def)
qed

lemma clear_put:
  assumes "graph_ok G" and "clear G (td_dependencies t) co" and v: "visited G (td_dependencies t) co co'" and t: "G d = Some t"
  shows "ordered_out G (co_output (co_put t co'))"
proof -
  have ord: "ordered_out G (co_output co')" using assms(2) v by (simp add: visited_def)
  have "d' \<in> outs co'" if "(d, d') \<in> deps_rel G" for d'
  proof -
    have "d' \<in> set (td_dependencies t)" "d' \<in> dom G" using that t by (auto simp: deps_rel_def)
    then have "d' \<in> pool co" "bt_get (not_seen co') d' = None"
      using assms(2) v unfolding clear_def visited_def by blast+
    with v show ?thesis unfolding visited_def pool_def by blast
  qed
  moreover have "effects_transaction_digest (td_effects t) = d" using assms(1) t by (simp add: graph_ok_def)
  ultimately show ?thesis using ord by (auto simp: co_put_def ordered_out_snoc)
qed

lemma insert_loop_visits:
  assumes G: "graph_ok G" and "co_ok G co"
  shows "\<exists>co'. (\<forall>t rest. insert_loop (frame ds t # rest) co = insert_loop rest (co_put t co')) \<and> visited G ds co co'"
  using assms(2)
proof (induction "length (not_seen co)" arbitrary: co ds rule: less_induct)
  case less
  show ?case
    using less.prems
  proof (induction ds rule: rev_induct)
    case Nil
    have "visited G [] co co" using less.prems by (simp add: visited_def clear_def)
    then show ?case using insert_loop_steps(2) by blast
  next
    case (snoc d ds)
    show ?case
    proof (cases "bt_get (not_seen co) d")
      case None
      obtain co' where "\<forall>t rest. insert_loop (frame ds t # rest) co = insert_loop rest (co_put t co')" "visited G ds co co'"
        using snoc by blast
      moreover from this None have "visited G (ds @ [d]) co co'" by (auto simp: visited_def clear_def)
      ultimately show ?thesis using insert_loop_steps(3) [OF None] by auto
    next
      case (Some t')
      note ok = snoc.prems
      have gd: "G d = Some t'" using ok Some by (auto simp: co_ok_def map_le_def dom_def)
      let ?c1 = "co_take d co"
      note c1 = co_take_ok [OF ok, of d]
      have pool1: "pool ?c1 = pool co - {d}" using c1(2) Some by auto
      have "d \<in> pool co" using Some by (auto simp: pool_def)
      have less1: "length (not_seen ?c1) < length (not_seen co)"
        using ok Some by (simp add: co_take_def co_ok_def length_bt_remove)
      obtain c2 where c2: "\<forall>t rest. insert_loop (frame (td_dependencies t') t # rest) ?c1 = insert_loop rest (co_put t c2)"
        "visited G (td_dependencies t') ?c1 c2" using less.hyps [OF less1 c1(1)] by blast
      let ?c3 = "co_put t' c2"
      have ok2: "co_ok G c2" "d \<notin> pool c2" using c2(2) pool1 by (auto simp: visited_def)
      note c3 = co_put_ok [OF G ok2(1) gd ok2(2)]
      have less3: "length (not_seen ?c3) < length (not_seen co)" using c2(2) less1 by (simp add: co_put_def visited_def)
      obtain c4 where c4: "\<forall>t rest. insert_loop (frame ds t # rest) ?c3 = insert_loop rest (co_put t c4)" "visited G ds ?c3 c4"
        using less.hyps [OF less3 c3(1)] by blast
      have pool3: "pool ?c3 = pool co" using c3(2) c2(2) pool1 \<open>d \<in> pool co\<close> by (auto simp: visited_def)
      have sub: "dom (bt_get (not_seen ?c3)) \<subseteq> dom (bt_get (not_seen co)) - {d}"
        using c2(2) by (auto simp: visited_def co_put_def co_take_def bt_get_remove)
      have "clear G ds ?c3" if cl: "clear G (ds @ [d]) co"
        using clear_put [OF G clear_child [OF cl ok gd Some] c2(2) gd] cl unfolding clear_def pool3 by auto
      then have "visited G (ds @ [d]) co c4"
        using c4(2) sub pool3 less3 unfolding visited_def by (auto; blast)
      moreover have "insert_loop (frame (ds @ [d]) t # rest) co = insert_loop rest (co_put t c4)" for t rest
        using insert_loop_steps(4) [OF Some] c2(1) c4(1) by simp
      ultimately show ?thesis by blast
    qed
  qed
qed

text \<open>The outer loop empties what is not seen.\<close>

lemma causal_loop_visits:
  assumes G: "graph_ok G" and "co_ok G co" and "pool co = dom G" and "acyclic (deps_rel G) \<longrightarrow> ordered_out G (co_output co)"
  shows "\<exists>co'. causal_loop co = Some co' \<and> not_seen co' = [] \<and> co_ok G co' \<and> pool co' = dom G \<and>
    (acyclic (deps_rel G) \<longrightarrow> ordered_out G (co_output co'))"
  using assms(2-)
proof (induction "length (not_seen co)" arbitrary: co rule: less_induct)
  case less
  show ?case
  proof (cases "not_seen co")
    case Nil
    with less.prems show ?thesis by (subst causal_loop.simps) simp
  next
    case (Cons e m)
    obtain d t where e: "e = (d, t)" by (cases e)
    have get: "bt_get (not_seen co) d = Some t" using Cons e by (simp add: bt_get_def)
    have gd: "G d = Some t" using less.prems(1) get by (auto simp: co_ok_def map_le_def dom_def)
    note c1 = co_take_ok [OF less.prems(1), of d]
    have pool1: "pool (co_take d co) = dom G - {d}" using c1(2) get less.prems(2) by auto
    obtain c2 where c2: "\<forall>t' rest. insert_loop (frame (td_dependencies t) t' # rest) (co_take d co) = insert_loop rest (co_put t' c2)"
      "visited G (td_dependencies t) (co_take d co) c2" using insert_loop_visits [OF G c1(1)] by blast
    have ins: "co_insert t (co_take d co) = Some (co_put t c2)"
      using c2(1) by (simp add: co_insert_def insert_state_new_def insert_loop_steps(1))
    have run: "causal_loop co = causal_loop (co_put t c2)"
      using ins Cons e by (subst causal_loop.simps) (simp add: co_take_def)
    have ok2: "co_ok G c2" "d \<notin> pool c2" using c2(2) pool1 by (auto simp: visited_def)
    note c3 = co_put_ok [OF G ok2(1) gd ok2(2)]
    have pool3: "pool (co_put t c2) = dom G" using c3(2) c2(2) pool1 gd by (auto simp: visited_def)
    have "clear G [d] co" if "acyclic (deps_rel G)" using that less.prems by (simp add: clear_def)
    then have "acyclic (deps_rel G) \<longrightarrow> ordered_out G (co_output (co_put t c2))"
      using clear_put [OF G clear_child [where ds = "[]", simplified, OF _ less.prems(1) gd get] c2(2) gd] by blast
    moreover have "length (not_seen (co_put t c2)) < length (not_seen co)"
      using c2(2) length_bt_remove [of "not_seen co" d] get less.prems(1) by (simp add: visited_def co_put_def co_take_def co_ok_def)
    ultimately show ?thesis using less.hyps [OF _ c3(1) pool3] run by simp
  qed
qed

section \<open>The graph of the effects\<close>

fun kind_reads :: "input_shared_object \<Rightarrow> object_key \<Rightarrow> bool" where
  "kind_reads (SharedReadOnly (i, v, _)) k \<longleftrightarrow> k = (i, v)"
| "kind_reads (SharedReadDeleted i v) k \<longleftrightarrow> k = (i, v)"
| "kind_reads _ k \<longleftrightarrow> False"

fun kind_overwrites :: "input_shared_object \<Rightarrow> object_key \<Rightarrow> bool" where
  "kind_overwrites (SharedMutate (i, v, _)) k \<longleftrightarrow> k = (i, v)"
| "kind_overwrites (SharedMutateDeleted i v) k \<longleftrightarrow> k = (i, v)"
| "kind_overwrites _ k \<longleftrightarrow> False"

definition reads_version :: "transaction_effects \<Rightarrow> object_key \<Rightarrow> bool" where
  "reads_version e k \<longleftrightarrow> (\<exists>kind \<in> set (effects_input_shared_objects e). kind_reads kind k)"

definition overwrites_version :: "transaction_effects \<Rightarrow> object_key \<Rightarrow> bool" where
  "overwrites_version e k \<longleftrightarrow> (\<exists>kind \<in> set (effects_input_shared_objects e). kind_overwrites kind k)"

text \<open>
  A transaction depends on the ones its effects name, and on those that read a version of a shared object that it
  overwrites.
\<close>

definition depends_on :: "transaction_effects list \<Rightarrow> transaction_effects \<Rightarrow> tx_digest \<Rightarrow> bool" where
  "depends_on effects e d \<longleftrightarrow>
     d \<in> set (effects_dependencies e) \<or>
     (\<exists>e1 \<in> set effects. \<exists>e2 \<in> set effects. \<exists>k. effects_transaction_digest e1 = effects_transaction_digest e \<and>
        effects_transaction_digest e2 = d \<and> overwrites_version e1 k \<and> reads_version e2 k)"

definition entries :: "('k, 'v list) btree_map \<Rightarrow> 'k \<Rightarrow> 'v set" where
  "entries m k = (case bt_get m k of None \<Rightarrow> {} | Some xs \<Rightarrow> set xs)"

lemma entries_push [simp]: "entries (bt_push k x m) = (entries m)(k := insert x (entries m k))"
  by (auto simp: entries_def bt_push_def bt_get_insert fun_eq_iff split: option.splits)

lemma entries_Nil [simp]: "entries [] = (\<lambda>_. {})"
  by (simp add: entries_def bt_get_def fun_eq_iff)

lemma rwlock_add_entries:
  "x \<in> entries (read_version (rwlock_add d kind b)) k \<longleftrightarrow> x \<in> entries (read_version b) k \<or> x = d \<and> kind_reads kind k"
  "k \<in> entries (overwrite_versions (rwlock_add d kind b)) d' \<longleftrightarrow>
     k \<in> entries (overwrite_versions b) d' \<or> d' = d \<and> kind_overwrites kind k"
proof -
  show "x \<in> entries (read_version (rwlock_add d kind b)) k \<longleftrightarrow> x \<in> entries (read_version b) k \<or> x = d \<and> kind_reads kind k"
  proof (cases kind)
    case (SharedMutate r)
    then show ?thesis by (cases r) (simp add: disj_commute)
  next
    case (SharedReadOnly r)
    then show ?thesis by (cases r) (simp add: disj_commute)
  next
    case (SharedReadDeleted i v)
    then show ?thesis by (simp add: disj_commute)
  next
    case (SharedMutateDeleted i v)
    then show ?thesis by (simp add: disj_commute)
  qed
  show "k \<in> entries (overwrite_versions (rwlock_add d kind b)) d' \<longleftrightarrow>
     k \<in> entries (overwrite_versions b) d' \<or> d' = d \<and> kind_overwrites kind k"
  proof (cases kind)
    case (SharedMutate r)
    then show ?thesis by (cases r) (simp add: disj_commute)
  next
    case (SharedReadOnly r)
    then show ?thesis by (cases r) (simp add: disj_commute)
  next
    case (SharedReadDeleted i v)
    then show ?thesis by (simp add: disj_commute)
  next
    case (SharedMutateDeleted i v)
    then show ?thesis by (simp add: disj_commute)
  qed
qed

lemma rwlock_add_all:
  "x \<in> entries (read_version (fold (rwlock_add d) kinds b)) k \<longleftrightarrow>
     x \<in> entries (read_version b) k \<or> x = d \<and> (\<exists>kind \<in> set kinds. kind_reads kind k)"
  "k \<in> entries (overwrite_versions (fold (rwlock_add d) kinds b)) d' \<longleftrightarrow>
     k \<in> entries (overwrite_versions b) d' \<or> d' = d \<and> (\<exists>kind \<in> set kinds. kind_overwrites kind k)"
  by (induction kinds arbitrary: b) (auto simp: rwlock_add_entries)

lemma rwlock_from_effects:
  "x \<in> entries (read_version (rwlock_from_effects effects)) k \<longleftrightarrow>
     (\<exists>e \<in> set effects. effects_transaction_digest e = x \<and> reads_version e k)"
  "k \<in> entries (overwrite_versions (rwlock_from_effects effects)) d \<longleftrightarrow>
     (\<exists>e \<in> set effects. effects_transaction_digest e = d \<and> overwrites_version e k)"
proof -
  let ?f = "\<lambda>e. fold (rwlock_add (effects_transaction_digest e)) (effects_input_shared_objects e)"
  have "x \<in> entries (read_version (fold ?f es b)) k \<longleftrightarrow>
      x \<in> entries (read_version b) k \<or> (\<exists>e \<in> set es. effects_transaction_digest e = x \<and> reads_version e k)" for es b
    by (induction es arbitrary: b) (auto simp: rwlock_add_all(1) reads_version_def)
  then show "x \<in> entries (read_version (rwlock_from_effects effects)) k \<longleftrightarrow>
     (\<exists>e \<in> set effects. effects_transaction_digest e = x \<and> reads_version e k)"
    by (simp add: rwlock_from_effects_def)
  have "k \<in> entries (overwrite_versions (fold ?f es b)) d \<longleftrightarrow>
      k \<in> entries (overwrite_versions b) d \<or> (\<exists>e \<in> set es. effects_transaction_digest e = d \<and> overwrites_version e k)" for es b
    by (induction es arbitrary: b) (auto simp: rwlock_add_all(2) overwrites_version_def)
  then show "k \<in> entries (overwrite_versions (rwlock_from_effects effects)) d \<longleftrightarrow>
     (\<exists>e \<in> set effects. effects_transaction_digest e = d \<and> overwrites_version e k)"
    by (simp add: rwlock_from_effects_def)
qed

lemma add_dependencies_for:
  "set (add_dependencies_for b d deps) = set deps \<union> (\<Union>k \<in> entries (overwrite_versions b) d. entries (read_version b) k)"
  "sorted_wrt (<) deps \<Longrightarrow> sorted_wrt (<) (add_dependencies_for b d deps)"
proof -
  let ?f = "\<lambda>k deps. case bt_get (read_version b) k of None \<Rightarrow> deps | Some reads \<Rightarrow> bs_extend deps reads"
  have "set (fold ?f ks deps) = set deps \<union> (\<Union>k \<in> set ks. entries (read_version b) k)" for ks
    by (induction ks arbitrary: deps) (auto simp: entries_def split: option.splits)
  then show "set (add_dependencies_for b d deps) = set deps \<union> (\<Union>k \<in> entries (overwrite_versions b) d. entries (read_version b) k)"
    by (simp add: add_dependencies_for_def entries_def split: option.splits)
  have "sorted_wrt (<) deps \<Longrightarrow> sorted_wrt (<) (fold ?f ks deps)" for ks
    by (induction ks arbitrary: deps) (auto split: option.splits)
  then show "sorted_wrt (<) deps \<Longrightarrow> sorted_wrt (<) (add_dependencies_for b d deps)"
    by (simp add: add_dependencies_for_def split: option.splits)
qed

lemma td_from_effects:
  "td_digest (td_from_effects b e) = effects_transaction_digest e" "td_effects (td_from_effects b e) = e"
  "sorted_wrt (<) (td_dependencies (td_from_effects b e))"
  "set (td_dependencies (td_from_effects (rwlock_from_effects effects) e)) = {d. depends_on effects e d}"
proof -
  show "td_digest (td_from_effects b e) = effects_transaction_digest e" "td_effects (td_from_effects b e) = e"
    by (simp_all add: td_from_effects_def Let_def)
  show "sorted_wrt (<) (td_dependencies (td_from_effects b e))"
    by (simp add: td_from_effects_def Let_def add_dependencies_for(2))
  show "set (td_dependencies (td_from_effects (rwlock_from_effects effects) e)) = {d. depends_on effects e d}"
  proof -
    let ?b = "rwlock_from_effects effects" and ?d = "effects_transaction_digest e"
    have "(\<Union>k \<in> entries (overwrite_versions ?b) ?d. entries (read_version ?b) k) =
        {d. \<exists>e1 \<in> set effects. \<exists>e2 \<in> set effects. \<exists>k. effects_transaction_digest e1 = ?d \<and>
          effects_transaction_digest e2 = d \<and> overwrites_version e1 k \<and> reads_version e2 k}"
      by (rule set_eqI) (simp only: UN_iff mem_Collect_eq rwlock_from_effects Bex_def, blast)
    then show ?thesis
      by (simp add: td_from_effects_def Let_def add_dependencies_for(1) depends_on_def Collect_disj_eq)
  qed
qed

lemma depends_on_set: "set effects = set effects' \<Longrightarrow> depends_on effects = depends_on effects'"
  by (simp add: depends_on_def fun_eq_iff)

lemma td_from_effects_set:
  assumes "set effects = set effects'"
  shows "td_from_effects (rwlock_from_effects effects) e = td_from_effects (rwlock_from_effects effects') e"
proof (rule transaction_dependencies.equality)
  show "td_dependencies (td_from_effects (rwlock_from_effects effects) e) = td_dependencies (td_from_effects (rwlock_from_effects effects') e)"
    by (rule strict_sorted_equal) (simp_all add: td_from_effects depends_on_set [OF assms])
qed (simp_all add: td_from_effects)

lemma keys_sorted_ext:
  assumes "keys_sorted m" and "keys_sorted m'" and "bt_get m = bt_get m'"
  shows "m = m'"
proof -
  have "set m = set m'" using assms by (auto simp flip: bt_get_in_set)
  moreover have "inj_on fst (set m \<union> set m')" using calculation keys_sorted_distinct [OF assms(1)] by (simp add: distinct_map)
  ultimately show ?thesis
    using map_sorted_distinct_set_unique [of fst m m'] assms(1,2) by (simp add: strict_sorted_iff)
qed

lemma co_from_vec:
  fixes effects :: "transaction_effects list"
  defines "m \<equiv> not_seen (co_from_vec effects)"
  shows "keys_sorted m" "co_output (co_from_vec effects) = []"
    "dom (bt_get m) = effects_transaction_digest ` set effects"
    "\<And>d t. bt_get m d = Some t \<Longrightarrow> \<exists>e \<in> set effects. effects_transaction_digest e = d \<and> t = td_from_effects (rwlock_from_effects effects) e"
proof -
  let ?b = "rwlock_from_effects effects"
  let ?f = "\<lambda>es. fold (\<lambda>t. bt_insert (td_digest t) t) (map (td_from_effects ?b) es)"
  have m: "m = ?f effects []" by (simp add: m_def co_from_vec_def Let_def)
  have "keys_sorted m0 \<Longrightarrow> keys_sorted (?f es m0)" for es m0 by (induction es arbitrary: m0) auto
  then show "keys_sorted m" unfolding m by simp
  show "co_output (co_from_vec effects) = []" by (simp add: co_from_vec_def Let_def)
  have "dom (bt_get (?f es m0)) = dom (bt_get m0) \<union> effects_transaction_digest ` set es" for es m0
    by (induction es arbitrary: m0) (auto simp: bt_get_insert td_from_effects)
  then show "dom (bt_get m) = effects_transaction_digest ` set effects" unfolding m by simp
  have "bt_get (?f es m0) d = Some t \<Longrightarrow>
      bt_get m0 d = Some t \<or> (\<exists>e \<in> set es. effects_transaction_digest e = d \<and> t = td_from_effects ?b e)" for es m0 d t
    by (induction es arbitrary: m0) (fastforce simp: bt_get_insert td_from_effects split: if_splits)+
  from this [of effects "[]"] show "\<And>d t. bt_get m d = Some t \<Longrightarrow>
      \<exists>e \<in> set effects. effects_transaction_digest e = d \<and> t = td_from_effects ?b e" unfolding m by (simp add: bt_get_def)
qed

lemma co_from_vec_start:
  fixes effects :: "transaction_effects list"
  defines "G \<equiv> bt_get (not_seen (co_from_vec effects))"
  shows "graph_ok G" "co_ok G (co_from_vec effects)" "pool (co_from_vec effects) = dom G"
proof -
  show "graph_ok G" unfolding graph_ok_def G_def using co_from_vec(4) [of effects] td_from_effects(1,2) by metis
  show "co_ok G (co_from_vec effects)" using co_from_vec(1,2) [of effects] by (simp add: co_ok_def G_def)
  show "pool (co_from_vec effects) = dom G" using co_from_vec(2) [of effects] by (simp add: pool_def G_def)
qed

text \<open>When a transaction has one effects value the graph is the effects themselves, however often they are listed.\<close>

lemma co_from_vec_get:
  assumes "inj_on effects_transaction_digest (set effects)"
  shows "bt_get (not_seen (co_from_vec effects)) d = Some t \<longleftrightarrow>
    (\<exists>e \<in> set effects. effects_transaction_digest e = d \<and> t = td_from_effects (rwlock_from_effects effects) e)"
proof
  assume "\<exists>e \<in> set effects. effects_transaction_digest e = d \<and> t = td_from_effects (rwlock_from_effects effects) e"
  then obtain e where e: "e \<in> set effects" "effects_transaction_digest e = d" "t = td_from_effects (rwlock_from_effects effects) e" by blast
  then obtain t' where t': "bt_get (not_seen (co_from_vec effects)) d = Some t'" using co_from_vec(3) [of effects] by blast
  obtain e' where "e' \<in> set effects" "effects_transaction_digest e' = d" "t' = td_from_effects (rwlock_from_effects effects) e'"
    using co_from_vec(4) [OF t'] by blast
  moreover from this e assms have "e' = e" by (auto simp: inj_on_def)
  ultimately show "bt_get (not_seen (co_from_vec effects)) d = Some t" using t' e by simp
qed (rule co_from_vec(4))

lemma co_from_vec_set:
  assumes "inj_on effects_transaction_digest (set effects)" and same: "set effects' = set effects"
  shows "co_from_vec effects' = co_from_vec effects"
proof -
  have "bt_get (not_seen (co_from_vec effects')) d = Some t \<longleftrightarrow> bt_get (not_seen (co_from_vec effects)) d = Some t" for d t
    unfolding co_from_vec_get [OF assms(1) [folded same]] co_from_vec_get [OF assms(1)] same td_from_effects_set [OF same] ..
  then have "bt_get (not_seen (co_from_vec effects')) = bt_get (not_seen (co_from_vec effects))"
    by (intro ext) (metis not_Some_eq)
  then show ?thesis
    using keys_sorted_ext [OF co_from_vec(1) co_from_vec(1)] co_from_vec(2) by (intro causal_order.equality) simp_all
qed

section \<open>The sorted transactions\<close>

text \<open>The sort returns on every input, and gives each transaction once.\<close>

lemma causal_sort_returns:
  "\<exists>out. causal_sort effects = Some out \<and> set out \<subseteq> set effects \<and>
     effects_transaction_digest ` set out = effects_transaction_digest ` set effects \<and> distinct (map effects_transaction_digest out) \<and>
     (acyclic (deps_rel (bt_get (not_seen (co_from_vec effects)))) \<longrightarrow> ordered_out (bt_get (not_seen (co_from_vec effects))) out)"
proof -
  let ?G = "bt_get (not_seen (co_from_vec effects))"
  note st = co_from_vec_start [of effects]
  have "acyclic (deps_rel ?G) \<longrightarrow> ordered_out ?G (co_output (co_from_vec effects))" by (simp add: co_from_vec(2))
  from causal_loop_visits [OF st this] obtain co where co: "causal_loop (co_from_vec effects) = Some co" "not_seen co = []" "co_ok ?G co"
    "pool co = dom ?G" "acyclic (deps_rel ?G) \<longrightarrow> ordered_out ?G (co_output co)" by blast
  have "outs co = dom ?G" using co(2,4) by (simp add: pool_def)
  then have "outs co = effects_transaction_digest ` set effects" by (simp only: co_from_vec(3))
  moreover have from_G: "\<forall>e \<in> set (co_output co). \<exists>t. ?G (effects_transaction_digest e) = Some t \<and> td_effects t = e"
    using co(3) by (simp add: co_ok_def)
  have "e \<in> set effects" if "e \<in> set (co_output co)" for e
  proof -
    from bspec [OF from_G that] obtain t where t: "?G (effects_transaction_digest e) = Some t" "td_effects t = e" by (elim exE conjE)
    from co_from_vec(4) [OF t(1)] obtain e' where "e' \<in> set effects" "t = td_from_effects (rwlock_from_effects effects) e'"
      by (elim bexE conjE)
    with t(2) td_from_effects(2) show ?thesis by metis
  qed
  ultimately show ?thesis using co by (auto simp: causal_sort_def co_ok_def)
qed

text \<open>The dependencies between the transactions of a list.\<close>

definition causal_rel :: "transaction_effects list \<Rightarrow> (tx_digest \<times> tx_digest) set" where
  "causal_rel effects =
     {(effects_transaction_digest e, d) | e d. e \<in> set effects \<and> depends_on effects e d \<and> d \<in> effects_transaction_digest ` set effects}"

lemma deps_rel_from_vec:
  assumes "inj_on effects_transaction_digest (set effects)"
  shows "deps_rel (bt_get (not_seen (co_from_vec effects))) = causal_rel effects"
  unfolding deps_rel_def causal_rel_def co_from_vec(3) co_from_vec_get [OF assms]
  by (auto simp: td_from_effects(4))

text \<open>Each transaction comes after the ones it depends on.\<close>

definition causally_sorted :: "transaction_effects list \<Rightarrow> bool" where
  "causally_sorted out \<longleftrightarrow>
     (\<forall>i < length out. \<forall>j < length out. depends_on out (out ! i) (effects_transaction_digest (out ! j)) \<longrightarrow> j < i)"

lemma causal_sort_correct:
  assumes dist: "inj_on effects_transaction_digest (set effects)"
  shows "\<exists>out. causal_sort effects = Some out \<and> set out = set effects \<and> distinct (map effects_transaction_digest out) \<and>
    (acyclic (causal_rel effects) \<longrightarrow> causally_sorted out) \<and>
    (\<forall>effects'. set effects' = set effects \<longrightarrow> causal_sort effects' = Some out)"
proof -
  obtain out where out: "causal_sort effects = Some out" "set out \<subseteq> set effects"
    "effects_transaction_digest ` set out = effects_transaction_digest ` set effects" "distinct (map effects_transaction_digest out)"
    "acyclic (causal_rel effects) \<longrightarrow> ordered_out (bt_get (not_seen (co_from_vec effects))) out"
    using causal_sort_returns [of effects] unfolding deps_rel_from_vec [OF dist] by blast
  have same: "set out = set effects"
  proof (intro equalityI subsetI)
    fix e assume e: "e \<in> set effects"
    then obtain e' where "e' \<in> set out" "effects_transaction_digest e' = effects_transaction_digest e" using out(3) by (metis imageE imageI)
    with e out(2) dist show "e \<in> set out" by (auto simp: inj_on_def)
  qed (use out(2) in blast)
  have "causally_sorted out" if "acyclic (causal_rel effects)"
    unfolding causally_sorted_def
  proof (intro allI impI)
    fix i j assume ij: "i < length out" "j < length out" "depends_on out (out ! i) (effects_transaction_digest (out ! j))"
    have "out ! i \<in> set effects" "effects_transaction_digest (out ! j) \<in> effects_transaction_digest ` set effects"
      using ij(1,2) by (simp_all flip: same)
    moreover have "depends_on effects (out ! i) (effects_transaction_digest (out ! j))" using ij(3) depends_on_set [OF same] by simp
    ultimately have "(effects_transaction_digest (out ! i), effects_transaction_digest (out ! j)) \<in> causal_rel effects"
      unfolding causal_rel_def by blast
    with out(5) that ij(1) have "effects_transaction_digest (out ! j) \<in> effects_transaction_digest ` set (take i out)"
      unfolding ordered_out_def deps_rel_from_vec [OF dist] by blast
    then obtain k where "k < i" "effects_transaction_digest (out ! k) = effects_transaction_digest (out ! j)"
      using ij(1) by (auto simp: in_set_conv_nth)
    moreover have "k = j" if "k < length out" using calculation(2) that ij(2) out(4)
      by (metis (no_types, lifting) distinct_conv_nth length_map nth_map)
    ultimately show "j < i" using ij(1) by auto
  qed
  moreover have "causal_sort effects' = Some out" if "set effects' = set effects" for effects'
    using out(1) co_from_vec_set [OF dist that] by (simp add: causal_sort_def)
  ultimately show ?thesis using out(1,4) same by blast
qed

end
