(* ===== verification/CheckpointBuilder.thy ===== *)
theory CheckpointBuilder
  imports CausalOrder
begin

text \<open>
  The checkpoint builder of \<^verbatim>\<open>crates/sui-core/src/checkpoints/mod.rs\<close>, with the tables of the epoch store it reads and
  writes (\<^verbatim>\<open>authority_per_epoch_store.rs\<close>) and the summaries and contents it makes (\<^verbatim>\<open>messages_checkpoint.rs\<close>).

  Hashes and serialized sizes are arguments (\<open>checkpoint_lib\<close>), as are the tables that execution fills and the
  transaction that ends an epoch (\<open>checkpoint_reads\<close>). Reads and writes of tables succeed. Waiting for a transaction
  to be executed or sequenced is not modelled, nor is sending the signature of a checkpoint to consensus.
\<close>

section \<open>Summaries and contents\<close>

type_synonym signature = nat

record execution_digests =
  ed_transaction :: tx_digest
  ed_effects :: nat

record checkpoint_contents =
  cc_transactions :: "execution_digests list"
  cc_user_signatures :: "signature list list"

record end_of_epoch_data =
  next_epoch_committee :: "(nat \<times> nat) list"
  next_epoch_protocol_version :: nat
  epoch_commitments :: "nat list"

record checkpoint_summary =
  cs_epoch :: nat
  cs_sequence_number :: nat
  cs_network_total_transactions :: nat
  cs_content_digest :: nat
  cs_previous_digest :: "nat option"
  cs_epoch_rolling_gas_cost_summary :: gas_cost_summary
  cs_timestamp_ms :: nat
  cs_checkpoint_commitments :: "nat list"
  cs_end_of_epoch_data :: "end_of_epoch_data option"
  cs_version_specific_data :: bytes

record checkpoint_lib =
  effects_hash :: "transaction_effects \<Rightarrow> nat"
  contents_hash :: "checkpoint_contents \<Rightarrow> nat"
  summary_hash :: "checkpoint_summary \<Rightarrow> nat"
  effects_serialized_size :: "transaction_effects \<Rightarrow> nat"
  signatures_serialized_size :: "signature list \<Rightarrow> nat"

definition new_with_digests_and_signatures ::
  "execution_digests list \<Rightarrow> signature list list \<Rightarrow> checkpoint_contents option" where
  "new_with_digests_and_signatures transactions sigs = do {
     rust_assert (length transactions = length sigs);
     Some \<lparr>cc_transactions = transactions, cc_user_signatures = sigs\<rparr>
   }"

definition checkpoint_summary_new ::
  "checkpoint_lib \<Rightarrow> nat \<Rightarrow> nat \<Rightarrow> nat \<Rightarrow> checkpoint_contents \<Rightarrow> nat option \<Rightarrow> gas_cost_summary \<Rightarrow> end_of_epoch_data option \<Rightarrow>
     nat \<Rightarrow> checkpoint_summary" where
  "checkpoint_summary_new lib epoch seq total_txns content prev gas end_of_epoch timestamp =
     \<lparr>cs_epoch = epoch, cs_sequence_number = seq, cs_network_total_transactions = total_txns,
      cs_content_digest = contents_hash lib content, cs_previous_digest = prev,
      cs_epoch_rolling_gas_cost_summary = gas, cs_timestamp_ms = timestamp, cs_checkpoint_commitments = [],
      cs_end_of_epoch_data = end_of_epoch, cs_version_specific_data = []\<rparr>"

fun effects_gas_cost_summary :: "transaction_effects \<Rightarrow> gas_cost_summary" where
  "effects_gas_cost_summary (V1 e) = e1_gas_used e"
| "effects_gas_cost_summary (V2 e) = e2_gas_used e"

fun effects_executed_epoch :: "transaction_effects \<Rightarrow> nat" where
  "effects_executed_epoch (V1 e) = e1_executed_epoch e"
| "effects_executed_epoch (V2 e) = e2_executed_epoch e"

definition execution_digests_of :: "checkpoint_lib \<Rightarrow> transaction_effects \<Rightarrow> execution_digests" where
  "execution_digests_of lib e = \<lparr>ed_transaction = effects_transaction_digest e, ed_effects = effects_hash lib e\<rparr>"

section \<open>State\<close>

record pending_checkpoint =
  pc_roots :: "tx_digest list"
  pc_timestamp_ms :: nat
  pc_last_of_epoch :: bool
  pc_commit_height :: nat

record builder_checkpoint_summary =
  bcs_summary :: checkpoint_summary
  bcs_commit_height :: "nat option"
  bcs_position_in_commit :: nat

text \<open>The tables of the epoch store and of the checkpoint store that the builder uses.\<close>

record builder_state =
  builder_epoch :: nat
  pending_checkpoints :: "(nat, pending_checkpoint) btree_map"
  builder_summaries :: "(nat, builder_checkpoint_summary) btree_map"
  builder_digest_to_checkpoint :: "(tx_digest, nat) btree_map"
  checkpoint_content :: "(nat, checkpoint_contents) btree_map"
  locally_computed_checkpoints :: "(nat, checkpoint_summary) btree_map"
  certified_checkpoints :: "(nat, checkpoint_summary) btree_map"
  checkpoint_by_digest :: "(nat, checkpoint_summary) btree_map"
  epoch_last_checkpoint_map :: "(nat, nat) btree_map"

record checkpoint_config =
  max_transactions_per_checkpoint :: nat
  max_checkpoint_size_bytes :: nat
  check_commit_root_state_digest :: bool

text \<open>
  What execution has left: effects, the transactions whose effects were signed in this epoch, sizes and
  signatures of transactions, the transaction that ends the epoch with the committee and the protocol version of the
  next one, and the hash of the live objects.
\<close>

record checkpoint_reads =
  executed_effects :: "tx_digest \<Rightarrow> transaction_effects option"
  effects_signatures :: "tx_digest list"
  transaction_size :: "tx_digest \<Rightarrow> nat option"
  user_signatures :: "tx_digest \<Rightarrow> signature list option"
  advance_epoch :: "gas_cost_summary \<Rightarrow> nat \<Rightarrow> nat \<Rightarrow> (((nat \<times> nat) list \<times> nat) \<times> transaction_effects) option"
  root_state_digest :: "transaction_effects list \<Rightarrow> nat \<Rightarrow> nat"

datatype builder_error = NoUserSignature tx_digest | AdvanceEpochFailed

section \<open>Tables\<close>

definition bt_last :: "('k, 'v) btree_map \<Rightarrow> ('k \<times> 'v) option" where
  "bt_last m = (if m = [] then None else Some (last m))"

definition write_pending_checkpoint :: "pending_checkpoint \<Rightarrow> builder_state \<Rightarrow> builder_state option" where
  "write_pending_checkpoint p st =
     (case bt_get (pending_checkpoints st) (pc_commit_height p) of
        Some stored \<Rightarrow> do { rust_assert (pc_roots stored = pc_roots p); Some st }
      | None \<Rightarrow> Some (st\<lparr>pending_checkpoints := bt_insert (pc_commit_height p) p (pending_checkpoints st)\<rparr>))"

definition get_pending_checkpoints :: "nat option \<Rightarrow> builder_state \<Rightarrow> (nat \<times> pending_checkpoint) list" where
  "get_pending_checkpoints processed st =
     (case processed of
        None \<Rightarrow> pending_checkpoints st
      | Some h \<Rightarrow> filter (\<lambda>(k, _). add64 h 1 \<le> k) (pending_checkpoints st))"

definition last_built_checkpoint_commit_height :: "builder_state \<Rightarrow> nat option" where
  "last_built_checkpoint_commit_height st = do { (_, b) \<leftarrow> bt_last (builder_summaries st); bcs_commit_height b }"

definition last_built_checkpoint_summary :: "builder_state \<Rightarrow> checkpoint_summary option" where
  "last_built_checkpoint_summary st = map_option (\<lambda>(_, b). bcs_summary b) (bt_last (builder_summaries st))"

definition get_epoch_last_checkpoint :: "nat \<Rightarrow> builder_state \<Rightarrow> checkpoint_summary option" where
  "get_epoch_last_checkpoint epoch st = do {
     seq \<leftarrow> bt_get (epoch_last_checkpoint_map st) epoch;
     bt_get (certified_checkpoints st) seq
   }"

definition builder_included :: "builder_state \<Rightarrow> tx_digest \<Rightarrow> bool" where
  "builder_included st d \<longleftrightarrow> bt_get (builder_digest_to_checkpoint st) d \<noteq> None"

text \<open>A checkpoint that differs from the certified one with its number stops the node.\<close>

definition check_for_checkpoint_fork :: "checkpoint_summary \<Rightarrow> checkpoint_summary \<Rightarrow> unit option" where
  "check_for_checkpoint_fork mine verified = rust_assert (mine = verified)"

definition insert_certified_checkpoint :: "checkpoint_lib \<Rightarrow> checkpoint_summary \<Rightarrow> builder_state \<Rightarrow> builder_state option" where
  "insert_certified_checkpoint lib c st = do {
     let st = st\<lparr>certified_checkpoints := bt_insert (cs_sequence_number c) c (certified_checkpoints st),
                 checkpoint_by_digest := bt_insert (summary_hash lib c) c (checkpoint_by_digest st)\<rparr>;
     let st = (if cs_end_of_epoch_data c = None then st
       else st\<lparr>epoch_last_checkpoint_map := bt_insert (cs_epoch c) (cs_sequence_number c) (epoch_last_checkpoint_map st)\<rparr>);
     case bt_get (locally_computed_checkpoints st) (cs_sequence_number c) of
       Some mine \<Rightarrow> do { check_for_checkpoint_fork mine c; Some st }
     | None \<Rightarrow> Some st
   }"

definition record_built :: "nat \<Rightarrow> nat \<times> checkpoint_summary \<times> checkpoint_contents \<Rightarrow> builder_state \<Rightarrow> builder_state" where
  "record_built height x st =
     (case x of (i, s, c) \<Rightarrow>
        st\<lparr>builder_summaries := bt_insert (cs_sequence_number s)
             \<lparr>bcs_summary = s, bcs_commit_height = Some height, bcs_position_in_commit = i\<rparr> (builder_summaries st),
           builder_digest_to_checkpoint := fold (\<lambda>t. bt_insert (ed_transaction t) (cs_sequence_number s)) (cc_transactions c)
             (builder_digest_to_checkpoint st)\<rparr>)"

definition process_pending_checkpoint ::
  "nat \<Rightarrow> (checkpoint_summary \<times> checkpoint_contents) list \<Rightarrow> builder_state \<Rightarrow> builder_state" where
  "process_pending_checkpoint height content_info st =
     fold (record_built height) (zip [0..<length content_info] content_info) st"

text \<open>In epoch 0 the genesis checkpoint is filed without a commit height.\<close>

definition put_genesis_checkpoint_in_builder :: "checkpoint_summary \<Rightarrow> checkpoint_contents \<Rightarrow> builder_state \<Rightarrow> builder_state" where
  "put_genesis_checkpoint_in_builder s c st =
     st\<lparr>builder_digest_to_checkpoint := fold (\<lambda>t. bt_insert (ed_transaction t) (cs_sequence_number s)) (cc_transactions c)
          (builder_digest_to_checkpoint st),
        builder_summaries := bt_insert (cs_sequence_number s)
          \<lparr>bcs_summary = s, bcs_commit_height = None, bcs_position_in_commit = 0\<rparr> (builder_summaries st)\<rparr>"

section \<open>The transactions of a checkpoint\<close>

text \<open>One dependency: it is read in the next round when it was signed in this epoch and not seen.\<close>

definition visit_dependency :: "checkpoint_reads \<Rightarrow> tx_digest \<Rightarrow> tx_digest list \<times> tx_digest list \<Rightarrow> tx_digest list \<times> tx_digest list" where
  "visit_dependency reads d s =
     (case s of (seen, pending) \<Rightarrow>
        if d \<notin> set (effects_signatures reads) then (seen, pending)
        else if d \<in> set seen then (seen, pending)
        else (bs_insert d seen, bs_insert d pending))"

text \<open>One round over the roots: what was seen, what is read next, and the results.\<close>

fun complete_round ::
  "checkpoint_reads \<Rightarrow> builder_state \<Rightarrow> transaction_effects list \<Rightarrow> tx_digest list \<Rightarrow> tx_digest list \<Rightarrow> transaction_effects list \<Rightarrow>
     tx_digest list \<times> tx_digest list \<times> transaction_effects list" where
  "complete_round reads st [] seen pending results = (seen, pending, results)"
| "complete_round reads st (e # es) seen pending results =
     (let seen = bs_insert (effects_transaction_digest e) seen in
      if builder_included st (effects_transaction_digest e) \<or> effects_executed_epoch e < builder_epoch st
      then complete_round reads st es seen pending results
      else case fold (visit_dependency reads) (effects_dependencies e) (seen, pending) of
          (seen, pending) \<Rightarrow> complete_round reads st es seen pending (results @ [e]))"

partial_function (option) complete_loop ::
  "checkpoint_reads \<Rightarrow> builder_state \<Rightarrow> transaction_effects list \<Rightarrow> tx_digest list \<Rightarrow> transaction_effects list \<Rightarrow>
     transaction_effects list option" where
  [code]: "complete_loop reads st roots seen results =
     (case complete_round reads st roots seen [] results of
        (seen, pending, results) \<Rightarrow>
          if pending = [] then Some results
          else do {
            effects \<leftarrow> map_opt (executed_effects reads) pending;
            complete_loop reads st effects seen results
          })"

definition complete_checkpoint_effects ::
  "checkpoint_reads \<Rightarrow> builder_state \<Rightarrow> transaction_effects list \<Rightarrow> transaction_effects list option" where
  "complete_checkpoint_effects reads st roots = complete_loop reads st roots [] []"

section \<open>Chunks\<close>

type_synonym chunk = "(transaction_effects \<times> signature list) list"

fun split_loop ::
  "checkpoint_lib \<Rightarrow> checkpoint_config \<Rightarrow> ((transaction_effects \<times> nat) \<times> signature list) list \<Rightarrow> chunk list \<Rightarrow> chunk \<Rightarrow> nat \<Rightarrow>
     chunk list \<times> chunk" where
  "split_loop lib cfg [] chunks chunk chunk_size = (chunks, chunk)"
| "split_loop lib cfg (((e, tx_size), sigs) # rest) chunks chunk chunk_size =
     (let size = add64 (add64 tx_size (effects_serialized_size lib e)) (signatures_serialized_size lib sigs);
          full = (length chunk = max_transactions_per_checkpoint cfg \<or> max_checkpoint_size_bytes cfg < add64 chunk_size size)
      in if full \<and> chunk \<noteq> []
         then split_loop lib cfg rest (chunks @ [chunk]) [(e, sigs)] (add64 0 size)
         else split_loop lib cfg rest chunks (chunk @ [(e, sigs)]) (add64 chunk_size size))"

definition split_checkpoint_chunks ::
  "checkpoint_lib \<Rightarrow> checkpoint_config \<Rightarrow> (transaction_effects \<times> nat) list \<Rightarrow> signature list list \<Rightarrow> chunk list" where
  "split_checkpoint_chunks lib cfg effects_and_sizes sigs =
     (case split_loop lib cfg (zip effects_and_sizes sigs) [] [] 0 of
        (chunks, chunk) \<Rightarrow> if chunk \<noteq> [] \<or> chunks = [] then chunks @ [chunk] else chunks)"

section \<open>Creating checkpoints\<close>

definition get_epoch_total_gas_cost :: "nat \<Rightarrow> checkpoint_summary option \<Rightarrow> transaction_effects list \<Rightarrow> gas_cost_summary" where
  "get_epoch_total_gas_cost epoch last_checkpoint effects =
     (let (previous_epoch, previous) =
            (case last_checkpoint of
               Some c \<Rightarrow> (cs_epoch c, cs_epoch_rolling_gas_cost_summary c)
             | None \<Rightarrow> (0, gas_cost_summary_new 0 0 0 0));
          current = new_from_txn_effects (map effects_gas_cost_summary effects)
      in if previous_epoch = epoch
         then gas_cost_summary_new
                (add64 (gcs_computation_cost previous) (gcs_computation_cost current))
                (add64 (gcs_storage_cost previous) (gcs_storage_cost current))
                (add64 (gcs_storage_rebate previous) (gcs_storage_rebate current))
                (add64 (gcs_non_refundable_storage_fee previous) (gcs_non_refundable_storage_fee current))
         else current)"

text \<open>The last chunk of an epoch gets the transaction that ends it.\<close>

definition augment_epoch_last_checkpoint ::
  "checkpoint_config \<Rightarrow> checkpoint_reads \<Rightarrow> gas_cost_summary \<Rightarrow> nat \<Rightarrow> nat \<Rightarrow> chunk \<Rightarrow> (chunk \<times> end_of_epoch_data) option" where
  "augment_epoch_last_checkpoint cfg reads gas timestamp seq chunk = do {
     ((next_committee, version), e) \<leftarrow> advance_epoch reads gas seq timestamp;
     let chunk = chunk @ [(e, [])];
     let digest = root_state_digest reads (map fst chunk) seq;
     Some (chunk, \<lparr>next_epoch_committee = next_committee, next_epoch_protocol_version = version,
                   epoch_commitments = (if check_commit_root_state_digest cfg then [digest] else [])\<rparr>)
   }"

fun create_loop ::
  "checkpoint_lib \<Rightarrow> checkpoint_config \<Rightarrow> checkpoint_reads \<Rightarrow> nat \<Rightarrow> pending_checkpoint \<Rightarrow> chunk list \<Rightarrow> checkpoint_summary option \<Rightarrow>
     (builder_error + (checkpoint_summary \<times> checkpoint_contents) list) option" where
  "create_loop lib cfg reads epoch details [] last_checkpoint = Some (Inr [])"
| "create_loop lib cfg reads epoch details (chunk # rest) last_checkpoint =
     (let seq = (case last_checkpoint of Some c \<Rightarrow> add64 (cs_sequence_number c) 1 | None \<Rightarrow> 0);
          timestamp = pc_timestamp_ms details;
          gas = get_epoch_total_gas_cost epoch last_checkpoint (map fst chunk);
          finished = (if pc_last_of_epoch details \<and> rest = []
            then map_option (\<lambda>(chunk, d). (chunk, Some d)) (augment_epoch_last_checkpoint cfg reads gas timestamp seq chunk)
            else Some (chunk, None))
      in case finished of
           None \<Rightarrow> Some (Inl AdvanceEpochFailed)
         | Some (chunk, end_of_epoch) \<Rightarrow> do {
             content \<leftarrow> new_with_digests_and_signatures (map (execution_digests_of lib \<circ> fst) chunk) (map snd chunk);
             let num = length (cc_transactions content);
             let total_txns = (case last_checkpoint of Some c \<Rightarrow> add64 (cs_network_total_transactions c) num | None \<Rightarrow> num);
             let s = checkpoint_summary_new lib epoch seq total_txns content (map_option (summary_hash lib) last_checkpoint) gas
               end_of_epoch timestamp;
             r \<leftarrow> create_loop lib cfg reads epoch details rest (Some s);
             Some (case r of Inl err \<Rightarrow> Inl err | Inr others \<Rightarrow> Inr ((s, content) # others))
           })"

text \<open>The signatures of the transactions, or the first one without.\<close>

fun user_signatures_for_checkpoint :: "checkpoint_reads \<Rightarrow> tx_digest list \<Rightarrow> builder_error + signature list list" where
  "user_signatures_for_checkpoint reads [] = Inr []"
| "user_signatures_for_checkpoint reads (d # ds) =
     (case user_signatures reads d of
        None \<Rightarrow> Inl (NoUserSignature d)
      | Some sigs \<Rightarrow>
          (case user_signatures_for_checkpoint reads ds of Inl err \<Rightarrow> Inl err | Inr others \<Rightarrow> Inr (sigs # others)))"

definition create_checkpoints ::
  "checkpoint_lib \<Rightarrow> checkpoint_config \<Rightarrow> checkpoint_reads \<Rightarrow> transaction_effects list \<Rightarrow> pending_checkpoint \<Rightarrow> builder_state \<Rightarrow>
     (builder_error + (checkpoint_summary \<times> checkpoint_contents) list) option" where
  "create_checkpoints lib cfg reads all_effects details st = do {
     last_checkpoint \<leftarrow>
       (case last_built_checkpoint_summary st of
          Some c \<Rightarrow> Some (Some c)
        | None \<Rightarrow>
            if 0 < builder_epoch st
            then map_option Some (get_epoch_last_checkpoint (builder_epoch st - 1) st)
            else Some None);
     sizes \<leftarrow> map_opt (\<lambda>e. transaction_size reads (effects_transaction_digest e)) all_effects;
     case user_signatures_for_checkpoint reads (map effects_transaction_digest all_effects) of
       Inl err \<Rightarrow> Some (Inl err)
     | Inr sigs \<Rightarrow>
         create_loop lib cfg reads (builder_epoch st) details
           (split_checkpoint_chunks lib cfg (zip all_effects sizes) sigs) last_checkpoint
   }"

section \<open>The builder\<close>

definition store_checkpoint :: "checkpoint_lib \<Rightarrow> checkpoint_summary \<times> checkpoint_contents \<Rightarrow> builder_state \<Rightarrow> builder_state" where
  "store_checkpoint lib x st =
     (case x of (s, c) \<Rightarrow>
        st\<lparr>checkpoint_content := bt_insert (contents_hash lib c) c (checkpoint_content st),
           locally_computed_checkpoints := bt_insert (cs_sequence_number s) s (locally_computed_checkpoints st)\<rparr>)"

definition write_checkpoints ::
  "nat \<Rightarrow> (checkpoint_summary \<times> checkpoint_contents) list \<Rightarrow> checkpoint_lib \<Rightarrow> builder_state \<Rightarrow> builder_state option" where
  "write_checkpoints height new_checkpoint lib st = do {
     let st = fold (store_checkpoint lib) new_checkpoint st;
     _ \<leftarrow> map_opt (\<lambda>(s, _). case bt_get (certified_checkpoints st) (cs_sequence_number s) of
         Some certified \<Rightarrow> check_for_checkpoint_fork s certified
       | None \<Rightarrow> Some ()) new_checkpoint;
     Some (process_pending_checkpoint height new_checkpoint st)
   }"

definition make_checkpoint ::
  "checkpoint_lib \<Rightarrow> checkpoint_config \<Rightarrow> checkpoint_reads \<Rightarrow> nat \<Rightarrow> pending_checkpoint \<Rightarrow> builder_state \<Rightarrow>
     (builder_error + (checkpoint_summary \<times> checkpoint_contents) list \<times> builder_state) option" where
  "make_checkpoint lib cfg reads height pending st = do {
     roots \<leftarrow> map_opt (executed_effects reads) (pc_roots pending);
     unsorted \<leftarrow> complete_checkpoint_effects reads st roots;
     ordered \<leftarrow> causal_sort unsorted;
     r \<leftarrow> create_checkpoints lib cfg reads ordered pending st;
     case r of
       Inl err \<Rightarrow> Some (Inl err)
     | Inr new_checkpoint \<Rightarrow> do {
         st \<leftarrow> write_checkpoints height new_checkpoint lib st;
         Some (Inr (new_checkpoint, st))
       }
   }"

text \<open>One turn of the loop: the pending checkpoints in order, until one fails and is tried again later.\<close>

fun build_pending ::
  "checkpoint_lib \<Rightarrow> checkpoint_config \<Rightarrow> checkpoint_reads \<Rightarrow> (nat \<times> pending_checkpoint) list \<Rightarrow> builder_state \<Rightarrow> builder_state option" where
  "build_pending lib cfg reads [] st = Some st"
| "build_pending lib cfg reads ((height, pending) # rest) st = do {
     r \<leftarrow> make_checkpoint lib cfg reads height pending st;
     case r of Inl _ \<Rightarrow> Some st | Inr (_, st) \<Rightarrow> build_pending lib cfg reads rest st
   }"

definition builder_run :: "checkpoint_lib \<Rightarrow> checkpoint_config \<Rightarrow> checkpoint_reads \<Rightarrow> builder_state \<Rightarrow> builder_state option" where
  "builder_run lib cfg reads st =
     build_pending lib cfg reads (get_pending_checkpoints (last_built_checkpoint_commit_height st) st) st"

end
