(* ===== verification/CheckpointCorrect.thy ===== *)
theory CheckpointCorrect
  imports CheckpointBuilder
begin

text \<open>
  What the parts of the checkpoint builder do: the rounds collect the closure of the roots, the chunks keep every
  transaction within the limits, and the checkpoints form a chain.
\<close>

section \<open>Closure\<close>

definition wanted :: "builder_state \<Rightarrow> transaction_effects \<Rightarrow> bool" where
  "wanted st e \<longleftrightarrow> \<not> builder_included st (effects_transaction_digest e) \<and> builder_epoch st \<le> effects_executed_epoch e"

text \<open>The specification: wanted roots, and wanted dependencies of what is needed that were signed in this epoch.\<close>

inductive needed :: "checkpoint_reads \<Rightarrow> builder_state \<Rightarrow> transaction_effects set \<Rightarrow> transaction_effects \<Rightarrow> bool"
  for reads st roots where
  Root: "e \<in> roots \<Longrightarrow> wanted st e \<Longrightarrow> needed reads st roots e"
| Dep: "needed reads st roots e \<Longrightarrow> d \<in> set (effects_dependencies e) \<Longrightarrow> d \<in> set (effects_signatures reads) \<Longrightarrow>
     executed_effects reads d = Some e' \<Longrightarrow> wanted st e' \<Longrightarrow> needed reads st roots e'"

text \<open>Effects are filed under their transaction, and those that were signed exist.\<close>

definition reads_ok :: "checkpoint_reads \<Rightarrow> bool" where
  "reads_ok reads \<longleftrightarrow>
     (\<forall>d e. executed_effects reads d = Some e \<longrightarrow> effects_transaction_digest e = d) \<and>
     (\<forall>d \<in> set (effects_signatures reads). executed_effects reads d \<noteq> None)"

definition signed_deps :: "checkpoint_reads \<Rightarrow> transaction_effects \<Rightarrow> tx_digest set" where
  "signed_deps reads e = set (effects_dependencies e) \<inter> set (effects_signatures reads)"

lemma visit_dependencies:
  assumes "fold (visit_dependency reads) ds (seen, pending) = (seen', pending')"
  shows "set seen' = set seen \<union> (set ds \<inter> set (effects_signatures reads))"
    "set pending' = set pending \<union> (set ds \<inter> set (effects_signatures reads) - set seen)"
proof -
  have "set (fst (fold (visit_dependency reads) ds (seen, pending))) = set seen \<union> (set ds \<inter> set (effects_signatures reads)) \<and>
      set (snd (fold (visit_dependency reads) ds (seen, pending))) =
        set pending \<union> (set ds \<inter> set (effects_signatures reads) - set seen)" for seen pending
    by (induction ds arbitrary: seen pending) (auto simp: visit_dependency_def)
  then show "set seen' = set seen \<union> (set ds \<inter> set (effects_signatures reads))"
    "set pending' = set pending \<union> (set ds \<inter> set (effects_signatures reads) - set seen)"
    unfolding atomize_conj using assms by (metis fst_conv snd_conv)
qed

text \<open>A round, in terms of sets.\<close>

lemma complete_round:
  assumes "complete_round reads st roots seen pending results = (seen', pending', results')"
  shows "set results' = set results \<union> {e \<in> set roots. wanted st e}"
    "set seen' = set seen \<union> effects_transaction_digest ` set roots \<union> (\<Union>e \<in> {e \<in> set roots. wanted st e}. signed_deps reads e)"
    "set pending \<subseteq> set pending'" "set pending' \<subseteq> set pending \<union> ((\<Union>e \<in> {e \<in> set roots. wanted st e}. signed_deps reads e) - set seen)"
    "(\<Union>e \<in> {e \<in> set roots. wanted st e}. signed_deps reads e) \<subseteq> set seen \<union> effects_transaction_digest ` set roots \<union> set pending'"
proof -
  let ?D = "\<lambda>es. \<Union>e \<in> {e \<in> set es. wanted st e}. signed_deps reads e"
  have all: "set results' = set results \<union> {e \<in> set roots. wanted st e} \<and>
      set seen' = set seen \<union> effects_transaction_digest ` set roots \<union> ?D roots \<and> set pending \<subseteq> set pending' \<and>
      set pending' \<subseteq> set pending \<union> (?D roots - set seen) \<and> ?D roots \<subseteq> set seen \<union> effects_transaction_digest ` set roots \<union> set pending'"
    using assms
  proof (induction roots arbitrary: seen pending results)
    case (Cons e es)
    let ?seen = "bs_insert (effects_transaction_digest e) seen"
    show ?case
    proof (cases "wanted st e")
      case True
      obtain seen1 pending1 where v: "fold (visit_dependency reads) (effects_dependencies e) (?seen, pending) = (seen1, pending1)"
        by fastforce
      with True Cons.prems have "complete_round reads st es seen1 pending1 (results @ [e]) = (seen', pending', results')"
        by (auto simp: wanted_def Let_def)
      note ih = Cons.IH [OF this]
      have D: "?D (e # es) = signed_deps reads e \<union> ?D es" using True by auto
      note s = visit_dependencies [OF v, folded signed_deps_def]
      show ?thesis unfolding D using ih True unfolding s by auto
    next
      case False
      with Cons.prems have "complete_round reads st es ?seen pending results = (seen', pending', results')"
        by (auto simp: wanted_def Let_def)
      note ih = Cons.IH [OF this]
      have D: "?D (e # es) = ?D es" using False by auto
      show ?thesis unfolding D using ih False by auto
    qed
  qed auto
  show "set results' = set results \<union> {e \<in> set roots. wanted st e}"
    "set seen' = set seen \<union> effects_transaction_digest ` set roots \<union> ?D roots"
    "set pending \<subseteq> set pending'" "set pending' \<subseteq> set pending \<union> (?D roots - set seen)"
    "?D roots \<subseteq> set seen \<union> effects_transaction_digest ` set roots \<union> set pending'"
    by (insert all, elim conjE, assumption)+
qed

text \<open>
  Between the rounds: the results are needed, what they depend on was seen, and what was seen is unwanted, a result or
  among the next roots.
\<close>

definition complete_inv ::
  "checkpoint_reads \<Rightarrow> builder_state \<Rightarrow> transaction_effects set \<Rightarrow> transaction_effects list \<Rightarrow> tx_digest list \<Rightarrow> transaction_effects list \<Rightarrow> bool" where
  "complete_inv reads st R roots seen results \<longleftrightarrow>
     (\<forall>e \<in> set results. needed reads st R e) \<and> (\<forall>e \<in> set roots. wanted st e \<longrightarrow> needed reads st R e) \<and>
     (\<forall>e \<in> set roots. executed_effects reads (effects_transaction_digest e) = Some e) \<and>
     (\<forall>e \<in> set results. signed_deps reads e \<subseteq> set seen) \<and>
     (\<forall>d \<in> set seen. \<forall>e. executed_effects reads d = Some e \<longrightarrow> wanted st e \<longrightarrow> e \<in> set results \<union> set roots) \<and>
     (\<forall>e \<in> R. wanted st e \<longrightarrow> e \<in> set results \<union> set roots)"

lemma complete_inv_round:
  assumes ok: "reads_ok reads" and inv: "complete_inv reads st R roots seen results"
    and round: "complete_round reads st roots seen [] results = (seen', pending', results')"
    and effects: "map_opt (executed_effects reads) pending' = Some roots'"
  shows "complete_inv reads st R roots' seen' results'"
proof -
  note r = complete_round [OF round]
  let ?W = "{e \<in> set roots. wanted st e}" and ?D = "\<Union>e \<in> {e \<in> set roots. wanted st e}. signed_deps reads e"
  have i: "\<forall>e \<in> set results. needed reads st R e" "\<forall>e \<in> set roots. wanted st e \<longrightarrow> needed reads st R e"
    "\<forall>e \<in> set roots. executed_effects reads (effects_transaction_digest e) = Some e"
    "\<forall>e \<in> set results. signed_deps reads e \<subseteq> set seen"
    "\<forall>d \<in> set seen. \<forall>e. executed_effects reads d = Some e \<longrightarrow> wanted st e \<longrightarrow> e \<in> set results \<union> set roots"
    "\<forall>e \<in> R. wanted st e \<longrightarrow> e \<in> set results \<union> set roots"
    by (insert inv [unfolded complete_inv_def], elim conjE, assumption)+
  have some: "\<forall>d \<in> set pending'. executed_effects reads d \<noteq> None" and map: "roots' = map (the \<circ> executed_effects reads) pending'"
    using effects unfolding map_opt_Some_iff by simp_all
  have roots': "set roots' = {e. \<exists>d \<in> set pending'. executed_effects reads d = Some e}"
    unfolding map set_map using some by force
  have n1: "\<forall>e \<in> set results'. needed reads st R e" using i(1,2) r(1) by auto
  have pend: "\<exists>e \<in> ?W. d \<in> signed_deps reads e" if "d \<in> set pending'" for d using that r(4) by auto
  have n2: "needed reads st R e" if "e \<in> set roots'" "wanted st e" for e
  proof -
    from that(1) obtain d where d: "d \<in> set pending'" "executed_effects reads d = Some e"
      unfolding roots' by (elim CollectE bexE)
    obtain e0 where "e0 \<in> set roots" "wanted st e0" "d \<in> signed_deps reads e0" using pend [OF d(1)] by blast
    then show ?thesis using needed.Dep [OF _ _ _ d(2) that(2)] i(2) by (auto simp: signed_deps_def)
  qed
  have n3: "\<forall>e \<in> set roots'. executed_effects reads (effects_transaction_digest e) = Some e"
    using ok roots' by (auto simp: reads_ok_def)
  have n4: "\<forall>e \<in> set results'. signed_deps reads e \<subseteq> set seen'" using i(4) r(1,2) by auto
  have n5: "e \<in> set results' \<union> set roots'" if "d \<in> set seen'" "executed_effects reads d = Some e" "wanted st e" for d e
  proof -
    have "d \<in> set seen \<or> d \<in> effects_transaction_digest ` set roots \<or> d \<in> set pending'" using that(1) r(2,5) by blast
    then show ?thesis
    proof (elim disjE)
      assume "d \<in> set seen"
      with i(5) that(2,3) r(1) show ?thesis by blast
    next
      assume "d \<in> effects_transaction_digest ` set roots"
      then obtain e0 where "e0 \<in> set roots" "effects_transaction_digest e0 = d" by blast
      with i(3) that(2,3) r(1) show ?thesis by auto
    next
      assume "d \<in> set pending'"
      with roots' that(2) show ?thesis by blast
    qed
  qed
  have n6: "\<forall>e \<in> R. wanted st e \<longrightarrow> e \<in> set results' \<union> set roots'" using i(6) r(1) by blast
  show ?thesis unfolding complete_inv_def using n1 n2 n3 n4 n5 n6 by blast
qed

text \<open>The last round leaves exactly the closure.\<close>

lemma complete_inv_last:
  assumes inv: "complete_inv reads st R roots seen results"
    and round: "complete_round reads st roots seen [] results = (seen', [], results')"
    and R: "\<forall>e \<in> R. executed_effects reads (effects_transaction_digest e) = Some e" and ok: "reads_ok reads"
  shows "set results' = {e. needed reads st R e}"
proof -
  have "complete_inv reads st R [] seen' results'" using complete_inv_round [OF ok inv round] by simp
  then have c: "\<forall>e \<in> set results'. needed reads st R e" "\<forall>e \<in> set results'. signed_deps reads e \<subseteq> set seen'"
    "\<forall>d \<in> set seen'. \<forall>e. executed_effects reads d = Some e \<longrightarrow> wanted st e \<longrightarrow> e \<in> set results'"
    "\<forall>e \<in> R. wanted st e \<longrightarrow> e \<in> set results'"
    by (simp_all add: complete_inv_def)
  have "e \<in> set results'" if "needed reads st R e" for e
    using that
  proof induction
    case (Root e)
    then show ?case using c(4) by blast
  next
    case (Dep e d e')
    then have "d \<in> set seen'" using c(2) by (auto simp: signed_deps_def)
    with Dep c(3) show ?case by blast
  qed
  with c(1) show ?thesis by blast
qed

lemma complete_loop_exact:
  assumes ok: "reads_ok reads" and R: "\<forall>e \<in> R. executed_effects reads (effects_transaction_digest e) = Some e"
    and "complete_inv reads st R roots seen results"
  shows "\<exists>out. complete_loop reads st roots seen results = Some out \<and> set out = {e. needed reads st R e}"
  using assms(3)
proof (induction "card (set (effects_signatures reads) - set seen)" arbitrary: roots seen results rule: less_induct)
  case less
  obtain seen' pending' results' where round: "complete_round reads st roots seen [] results = (seen', pending', results')"
    by (metis prod_cases3)
  note r = complete_round [OF round]
  show ?case
  proof (cases "pending' = []")
    case True
    with complete_inv_last [OF less.prems round [unfolded True] R ok] show ?thesis
      by (subst complete_loop.simps) (simp add: round)
  next
    case False
    have sub: "set pending' \<subseteq> set (effects_signatures reads) - set seen" "set pending' \<subseteq> set seen'"
      using r(2,4) by (auto simp: signed_deps_def)
    then have "\<forall>d \<in> set pending'. executed_effects reads d \<noteq> None" using ok by (auto simp: reads_ok_def)
    then obtain roots' where effects: "map_opt (executed_effects reads) pending' = Some roots'" by (metis map_opt_Some_iff)
    obtain d where d: "d \<in> set pending'" using False by (cases pending') auto
    have "set (effects_signatures reads) - set seen' \<subset> set (effects_signatures reads) - set seen"
      using d sub r(2) by blast
    then have "card (set (effects_signatures reads) - set seen') < card (set (effects_signatures reads) - set seen)"
      by (simp add: psubset_card_mono)
    from less.hyps [OF this complete_inv_round [OF ok less.prems round effects]] False effects round show ?thesis
      by (subst complete_loop.simps) simp
  qed
qed

lemma complete_checkpoint_effects_exact:
  assumes "reads_ok reads" and "\<forall>e \<in> set roots. executed_effects reads (effects_transaction_digest e) = Some e"
  shows "\<exists>out. complete_checkpoint_effects reads st roots = Some out \<and> set out = {e. needed reads st (set roots) e}"
proof -
  have "complete_inv reads st (set roots) roots [] []" using assms(2) by (auto simp: complete_inv_def intro: needed.Root)
  from complete_loop_exact [OF assms this] show ?thesis by (simp add: complete_checkpoint_effects_def)
qed

section \<open>Chunks\<close>

definition item_size :: "checkpoint_lib \<Rightarrow> (transaction_effects \<Rightarrow> nat) \<Rightarrow> transaction_effects \<times> signature list \<Rightarrow> nat" where
  "item_size lib sz = (\<lambda>(e, sigs). sz e + effects_serialized_size lib e + signatures_serialized_size lib sigs)"

text \<open>Within the limits; a single transaction may exceed the size.\<close>

definition chunk_fits :: "checkpoint_lib \<Rightarrow> checkpoint_config \<Rightarrow> (transaction_effects \<Rightarrow> nat) \<Rightarrow> chunk \<Rightarrow> bool" where
  "chunk_fits lib cfg sz chunk \<longleftrightarrow>
     length chunk \<le> max_transactions_per_checkpoint cfg \<and>
     (length chunk = 1 \<or> sum_list (map (item_size lib sz) chunk) \<le> max_checkpoint_size_bytes cfg)"

lemma split_loop_concat:
  "split_loop lib cfg items chunks chunk n = (chunks', chunk') \<Longrightarrow>
     concat chunks' @ chunk' = concat chunks @ chunk @ map (\<lambda>((e, _), sigs). (e, sigs)) items"
  by (induction lib cfg items chunks chunk n rule: split_loop.induct) (auto simp: Let_def split: if_splits)

lemma split_loop_nonempty:
  assumes "split_loop lib cfg items chunks chunk n = (chunks', chunk')" and "[] \<notin> set chunks"
  shows "[] \<notin> set chunks'" "items \<noteq> [] \<or> chunk \<noteq> [] \<Longrightarrow> chunk' \<noteq> []"
proof -
  have "[] \<notin> set chunks' \<and> (items \<noteq> [] \<or> chunk \<noteq> [] \<longrightarrow> chunk' \<noteq> [])"
    using assms by (induction lib cfg items chunks chunk n rule: split_loop.induct) (auto simp: Let_def split: if_splits)
  then show "[] \<notin> set chunks'" "items \<noteq> [] \<or> chunk \<noteq> [] \<Longrightarrow> chunk' \<noteq> []" by blast+
qed

lemma split_loop_fits:
  assumes "split_loop lib cfg items chunks chunk n = (chunks', chunk')" and "0 < max_transactions_per_checkpoint cfg"
    and "\<forall>((e, m), _) \<in> set items. m = sz e" and "n = sum_list (map (item_size lib sz) chunk)"
    and "n + sum_list (map (item_size lib sz) (map (\<lambda>((e, _), sigs). (e, sigs)) items)) < 2 ^ 64"
    and "list_all (chunk_fits lib cfg sz) chunks" and "chunk_fits lib cfg sz chunk"
  shows "list_all (chunk_fits lib cfg sz) chunks' \<and> chunk_fits lib cfg sz chunk'"
  using assms
proof (induction lib cfg items chunks chunk n rule: split_loop.induct)
  case (2 lib cfg e m sigs rest chunks chunk n)
  let ?size = "add64 (add64 m (effects_serialized_size lib e)) (signatures_serialized_size lib sigs)"
  have m: "m = sz e" using "2.prems"(3) by auto
  have fits: "n + item_size lib sz (e, sigs) + sum_list (map (item_size lib sz) (map (\<lambda>((e, _), sigs). (e, sigs)) rest)) < 2 ^ 64"
    using "2.prems"(5) by simp
  then have size: "?size = item_size lib sz (e, sigs)" "add64 0 ?size = item_size lib sz (e, sigs)"
    "add64 n ?size = n + item_size lib sz (e, sigs)"
    by (simp_all add: item_size_def m add64_def)
  let ?full = "length chunk = max_transactions_per_checkpoint cfg \<or> max_checkpoint_size_bytes cfg < add64 n ?size"
  have rest: "\<forall>((e, m), _) \<in> set rest. m = sz e" using "2.prems"(3) by auto
  have one: "chunk_fits lib cfg sz [(e, sigs)]" using "2.prems"(2) by (simp add: chunk_fits_def)
  show ?case
  proof (cases "?full \<and> chunk \<noteq> []")
    case True
    with "2.prems"(1) have run: "split_loop lib cfg rest (chunks @ [chunk]) [(e, sigs)] (add64 0 ?size) = (chunks', chunk')"
      by (simp add: Let_def)
    show ?thesis
      by (rule "2.IH"(1) [OF refl refl True run "2.prems"(2) rest]) (use fits size one "2.prems"(6,7) in simp_all)
  next
    case False
    with "2.prems"(1) have run: "split_loop lib cfg rest chunks (chunk @ [(e, sigs)]) (add64 n ?size) = (chunks', chunk')"
      by (simp add: Let_def)
    have "chunk_fits lib cfg sz (chunk @ [(e, sigs)])"
    proof (cases "chunk = []")
      case True
      with one show ?thesis by simp
    next
      case nonempty: False
      with False "2.prems"(4,7) size(3) show ?thesis by (auto simp: chunk_fits_def)
    qed
    then show ?thesis
      by (intro "2.IH"(2) [OF refl refl False run "2.prems"(2) rest]) (use fits size "2.prems"(4,6) in simp_all)
  qed
qed simp

lemma split_checkpoint_chunks:
  assumes "length sigs = length items"
  shows "concat (split_checkpoint_chunks lib cfg items sigs) = zip (map fst items) sigs"
    "split_checkpoint_chunks lib cfg items sigs \<noteq> []"
    "items \<noteq> [] \<Longrightarrow> [] \<notin> set (split_checkpoint_chunks lib cfg items sigs)"
proof -
  obtain chunks chunk where run: "split_loop lib cfg (zip items sigs) [] [] 0 = (chunks, chunk)" by fastforce
  have z: "map (\<lambda>((e, _), sigs). (e, sigs)) (zip items sigs) = zip (map fst items) sigs"
    unfolding zip_map1 by (intro map_cong) auto
  have c: "concat chunks @ chunk = zip (map fst items) sigs" using split_loop_concat [OF run] z by simp
  show "concat (split_checkpoint_chunks lib cfg items sigs) = zip (map fst items) sigs"
    unfolding split_checkpoint_chunks_def run using c by auto
  show "split_checkpoint_chunks lib cfg items sigs \<noteq> []" by (simp add: split_checkpoint_chunks_def run)
  show "[] \<notin> set (split_checkpoint_chunks lib cfg items sigs)" if "items \<noteq> []"
  proof -
    have "zip items sigs \<noteq> []" using that assms by (cases items; cases sigs) auto
    with split_loop_nonempty [OF run] show ?thesis by (auto simp: split_checkpoint_chunks_def run)
  qed
qed

lemma split_checkpoint_chunks_fits:
  assumes "0 < max_transactions_per_checkpoint cfg" and "\<forall>(e, m) \<in> set items. m = sz e"
    and "sum_list (map (item_size lib sz) (zip (map fst items) sigs)) < 2 ^ 64"
  shows "list_all (chunk_fits lib cfg sz) (split_checkpoint_chunks lib cfg items sigs)"
proof -
  obtain chunks chunk where run: "split_loop lib cfg (zip items sigs) [] [] 0 = (chunks, chunk)" by fastforce
  have z: "map (\<lambda>((e, _), sigs). (e, sigs)) (zip items sigs) = zip (map fst items) sigs"
    unfolding zip_map1 by (intro map_cong) auto
  have "list_all (chunk_fits lib cfg sz) chunks \<and> chunk_fits lib cfg sz chunk"
    by (rule split_loop_fits [OF run assms(1)])
      (use assms(2,3) in \<open>auto simp: chunk_fits_def z simp del: map_map dest!: set_zip_leftD\<close>)
  then show ?thesis by (simp add: split_checkpoint_chunks_def run)
qed

end
