(* ===== verification/CheckpointChain.thy ===== *)
theory CheckpointChain
  imports CheckpointCorrect
begin

text \<open>
  The stream of checkpoints of an epoch. Every step of the builder extends a chain, in which each transaction is
  once, after everything of this epoch that it depends on.
\<close>

section \<open>Chains\<close>

text \<open>The summaries of a list of checkpoints that follow \<open>prev\<close>: their numbers, links, totals and contents.\<close>

fun chained :: "checkpoint_lib \<Rightarrow> checkpoint_summary option \<Rightarrow> (checkpoint_summary \<times> checkpoint_contents) list \<Rightarrow> bool" where
  "chained lib prev [] \<longleftrightarrow> True"
| "chained lib prev ((s, c) # rest) \<longleftrightarrow>
     cs_sequence_number s = (case prev of None \<Rightarrow> 0 | Some l \<Rightarrow> add64 (cs_sequence_number l) 1) \<and>
     cs_previous_digest s = map_option (summary_hash lib) prev \<and>
     cs_network_total_transactions s =
       (case prev of None \<Rightarrow> length (cc_transactions c) | Some l \<Rightarrow> add64 (cs_network_total_transactions l) (length (cc_transactions c))) \<and>
     cs_content_digest s = contents_hash lib c \<and> length (cc_user_signatures c) = length (cc_transactions c) \<and>
     chained lib (Some s) rest"

definition last_summary ::
  "checkpoint_summary option \<Rightarrow> (checkpoint_summary \<times> checkpoint_contents) list \<Rightarrow> checkpoint_summary option" where
  "last_summary prev cs = (if cs = [] then prev else Some (fst (last cs)))"

lemma chained_append: "chained lib prev (xs @ ys) \<longleftrightarrow> chained lib prev xs \<and> chained lib (last_summary prev xs) ys"
  by (induction xs arbitrary: prev) (auto simp: last_summary_def)

definition checkpoint_txns :: "(checkpoint_summary \<times> checkpoint_contents) list \<Rightarrow> tx_digest list" where
  "checkpoint_txns cs = concat (map (map ed_transaction \<circ> cc_transactions \<circ> snd) cs)"

lemma checkpoint_txns_simps [simp]:
  "checkpoint_txns [] = []"
  "checkpoint_txns ((s, c) # cs) = map ed_transaction (cc_transactions c) @ checkpoint_txns cs"
  "checkpoint_txns (cs @ ds) = checkpoint_txns cs @ checkpoint_txns ds"
  by (simp_all add: checkpoint_txns_def)

lemma ed_transaction_of [simp]: "ed_transaction (execution_digests_of lib e) = effects_transaction_digest e"
  by (simp add: execution_digests_of_def)

text \<open>The checkpoint of a chunk that does not end the epoch.\<close>

definition next_checkpoint ::
  "checkpoint_lib \<Rightarrow> nat \<Rightarrow> pending_checkpoint \<Rightarrow> checkpoint_summary option \<Rightarrow> chunk \<Rightarrow> checkpoint_summary \<times> checkpoint_contents" where
  "next_checkpoint lib epoch details prev chunk =
     (let c = \<lparr>cc_transactions = map (execution_digests_of lib \<circ> fst) chunk, cc_user_signatures = map snd chunk\<rparr> in
      (checkpoint_summary_new lib epoch (case prev of Some c \<Rightarrow> add64 (cs_sequence_number c) 1 | None \<Rightarrow> 0)
         (case prev of Some c \<Rightarrow> add64 (cs_network_total_transactions c) (length chunk) | None \<Rightarrow> length chunk) c
         (map_option (summary_hash lib) prev) (get_epoch_total_gas_cost epoch prev (map fst chunk)) None (pc_timestamp_ms details), c))"

lemma create_loop_step:
  assumes "\<not> (pc_last_of_epoch details \<and> rest = [])"
  shows "create_loop lib cfg reads epoch details (chunk # rest) prev =
    do { r \<leftarrow> create_loop lib cfg reads epoch details rest (Some (fst (next_checkpoint lib epoch details prev chunk)));
         Some (case r of Inl err \<Rightarrow> Inl err | Inr others \<Rightarrow> Inr (next_checkpoint lib epoch details prev chunk # others)) }"
  using assms by (cases prev) (auto simp: Let_def new_with_digests_and_signatures_def next_checkpoint_def cong: sum.case_cong)

lemma chained_next:
  "chained lib prev (next_checkpoint lib epoch details prev chunk # rest) \<longleftrightarrow>
     chained lib (Some (fst (next_checkpoint lib epoch details prev chunk))) rest"
  by (simp add: next_checkpoint_def checkpoint_summary_new_def Let_def split: option.splits)

lemma next_checkpoint_fields [simp]:
  "cc_transactions (snd (next_checkpoint lib epoch details prev chunk)) = map (execution_digests_of lib \<circ> fst) chunk"
  "cs_epoch (fst (next_checkpoint lib epoch details prev chunk)) = epoch"
  "cs_timestamp_ms (fst (next_checkpoint lib epoch details prev chunk)) = pc_timestamp_ms details"
  "cs_end_of_epoch_data (fst (next_checkpoint lib epoch details prev chunk)) = None"
  by (simp_all add: next_checkpoint_def checkpoint_summary_new_def Let_def)

text \<open>Within an epoch creating checkpoints cannot fail, and gives one checkpoint for each chunk.\<close>

lemma create_loop_chain:
  assumes "\<not> pc_last_of_epoch details"
  shows "\<exists>new. create_loop lib cfg reads epoch details chunks prev = Some (Inr new) \<and> chained lib prev new \<and>
    map (cc_transactions \<circ> snd) new = map (map (execution_digests_of lib \<circ> fst)) chunks \<and>
    list_all (\<lambda>c. cs_epoch (fst c) = epoch \<and> cs_timestamp_ms (fst c) = pc_timestamp_ms details \<and> cs_end_of_epoch_data (fst c) = None) new"
proof (induction chunks arbitrary: prev)
  case (Cons chunk rest)
  obtain new where new: "create_loop lib cfg reads epoch details rest (Some (fst (next_checkpoint lib epoch details prev chunk))) = Some (Inr new)"
    "chained lib (Some (fst (next_checkpoint lib epoch details prev chunk))) new"
    "map (cc_transactions \<circ> snd) new = map (map (execution_digests_of lib \<circ> fst)) rest"
    "list_all (\<lambda>c. cs_epoch (fst c) = epoch \<and> cs_timestamp_ms (fst c) = pc_timestamp_ms details \<and> cs_end_of_epoch_data (fst c) = None) new"
    using Cons.IH [of "Some (fst (next_checkpoint lib epoch details prev chunk))"] by blast
  have "create_loop lib cfg reads epoch details (chunk # rest) prev = Some (Inr (next_checkpoint lib epoch details prev chunk # new))"
    using assms new(1) by (simp add: create_loop_step del: create_loop.simps)
  moreover have "map (cc_transactions \<circ> snd) (next_checkpoint lib epoch details prev chunk # new) =
      map (map (execution_digests_of lib \<circ> fst)) (chunk # rest)" using new(3) by simp
  moreover have "chained lib prev (next_checkpoint lib epoch details prev chunk # new)" using new(2) by (simp only: chained_next)
  moreover have "list_all (\<lambda>c. cs_epoch (fst c) = epoch \<and> cs_timestamp_ms (fst c) = pc_timestamp_ms details \<and>
      cs_end_of_epoch_data (fst c) = None) (next_checkpoint lib epoch details prev chunk # new)" using new(4) by simp
  ultimately show ?case by blast
qed simp

lemma create_loop_txns:
  assumes "map (cc_transactions \<circ> snd) new = map (map (execution_digests_of lib \<circ> fst)) chunks"
  shows "checkpoint_txns new = map (effects_transaction_digest \<circ> fst) (concat chunks)"
proof -
  have "checkpoint_txns new = concat (map (map ed_transaction) (map (cc_transactions \<circ> snd) new))"
    by (simp add: checkpoint_txns_def comp_def)
  also have "\<dots> = map (effects_transaction_digest \<circ> fst) (concat chunks)"
    unfolding assms by (simp add: map_concat comp_def)
  finally show ?thesis .
qed

text \<open>The last checkpoint of an epoch has one transaction more, and only it says that the epoch ends.\<close>

lemma create_loop_last:
  assumes "pc_last_of_epoch details" and "chunks \<noteq> []"
    and "create_loop lib cfg reads epoch details chunks prev = Some (Inr new)"
  shows "\<exists>e. chained lib prev new \<and> checkpoint_txns new = map (effects_transaction_digest \<circ> fst) (concat chunks) @ [effects_transaction_digest e] \<and>
    new \<noteq> [] \<and> cs_end_of_epoch_data (fst (last new)) \<noteq> None \<and> list_all (\<lambda>c. cs_end_of_epoch_data (fst c) = None) (butlast new)"
  using assms(2,3)
proof (induction chunks arbitrary: prev new)
  case (Cons chunk rest)
  let ?seq = "case prev of Some c \<Rightarrow> add64 (cs_sequence_number c) 1 | None \<Rightarrow> 0"
  let ?gas = "get_epoch_total_gas_cost epoch prev (map fst chunk)"
  show ?case
  proof (cases "rest = []")
    case True
    obtain chunk' d where a: "augment_epoch_last_checkpoint cfg reads ?gas (pc_timestamp_ms details) ?seq chunk = Some (chunk', d)"
      using Cons.prems(2) True assms(1) by (auto simp: Let_def split: option.splits)
    then obtain e where e: "chunk' = chunk @ [(e, [])]" by (auto simp: augment_epoch_last_checkpoint_def Let_def option_simps)
    from Cons.prems(2) show ?thesis
      using True assms(1) a e
      by (auto simp: Let_def new_with_digests_and_signatures_def checkpoint_summary_new_def option_simps split: option.splits
          intro!: exI [of _ e])
  next
    case False
    let ?n = "next_checkpoint lib epoch details prev chunk"
    obtain r where r: "create_loop lib cfg reads epoch details rest (Some (fst ?n)) = Some r"
      "(case r of Inl err \<Rightarrow> Inl err | Inr others \<Rightarrow> Inr (?n # others)) = Inr new"
      using Cons.prems(2) False by (auto simp: create_loop_step option_simps simp del: create_loop.simps)
    then obtain new' where new': "r = Inr new'" "new = ?n # new'" by (auto split: sum.splits)
    obtain e where e: "chained lib (Some (fst ?n)) new'"
      "checkpoint_txns new' = map (effects_transaction_digest \<circ> fst) (concat rest) @ [effects_transaction_digest e]" "new' \<noteq> []"
      "cs_end_of_epoch_data (fst (last new')) \<noteq> None" "list_all (\<lambda>c. cs_end_of_epoch_data (fst c) = None) (butlast new')"
      using Cons.IH [OF False r(1) [unfolded new'(1)]] by blast
    have "checkpoint_txns (?n # new') = map ed_transaction (cc_transactions (snd ?n)) @ checkpoint_txns new'"
      by (simp add: checkpoint_txns_def)
    then have "checkpoint_txns new = map (effects_transaction_digest \<circ> fst) (concat (chunk # rest)) @ [effects_transaction_digest e]"
      by (simp add: new'(2) e(2))
    with e show ?thesis unfolding new'(2) chained_next by (intro exI [of _ e]) simp
  qed
qed simp

section \<open>The tables after a checkpoint\<close>

lemma bt_get_fold_insert:
  "dom (bt_get (fold (\<lambda>x. bt_insert (f x) v) xs m)) = dom (bt_get m) \<union> f ` set xs"
  by (induction xs arbitrary: m) (auto simp: bt_get_insert)

text \<open>What the summaries say of the built checkpoints.\<close>

definition summaries_of :: "builder_state \<Rightarrow> (nat \<times> checkpoint_summary) list" where
  "summaries_of st = map (\<lambda>(k, b). (k, bcs_summary b)) (builder_summaries st)"

abbreviation numbered :: "(checkpoint_summary \<times> checkpoint_contents) list \<Rightarrow> (nat \<times> checkpoint_summary) list" where
  "numbered cs \<equiv> map (\<lambda>(s, c). (cs_sequence_number s, s)) cs"

lemma process_pending_checkpoint_tables:
  assumes "sorted_wrt (<) (map fst (summaries_of st @ numbered new))"
  shows "summaries_of (process_pending_checkpoint h new st) = summaries_of st @ numbered new"
    "dom (bt_get (builder_digest_to_checkpoint (process_pending_checkpoint h new st))) =
      dom (bt_get (builder_digest_to_checkpoint st)) \<union> set (checkpoint_txns new)"
proof -
  have "sorted_wrt (<) (map fst (summaries_of st @ numbered (map snd xs))) \<Longrightarrow>
      summaries_of (fold (record_built h) xs st) = summaries_of st @ numbered (map snd xs) \<and>
      dom (bt_get (builder_digest_to_checkpoint (fold (record_built h) xs st))) =
        dom (bt_get (builder_digest_to_checkpoint st)) \<union> set (checkpoint_txns (map snd xs))" for xs st
  proof (induction xs arbitrary: st)
    case (Cons x xs)
    obtain i s c where x: "x = (i, s, c)" by (cases x)
    have "\<forall>k \<in> fst ` set (builder_summaries st). k < cs_sequence_number s"
      using Cons.prems unfolding summaries_of_def x by (force simp: sorted_wrt_append)
    then have ins: "summaries_of (record_built h x st) = summaries_of st @ [(cs_sequence_number s, s)]"
      by (simp add: x record_built_def summaries_of_def bt_insert_above)
    with Cons.prems have "sorted_wrt (<) (map fst (summaries_of (record_built h x st) @ numbered (map snd xs)))" by (simp add: x)
    note ih = Cons.IH [OF this]
    have "dom (bt_get (builder_digest_to_checkpoint (record_built h x st))) =
        dom (bt_get (builder_digest_to_checkpoint st)) \<union> ed_transaction ` set (cc_transactions c)"
      by (simp add: x record_built_def bt_get_fold_insert)
    with ih show ?case unfolding fold_simps comp_apply ins by (auto simp: x)
  qed simp
  from this [of st "zip [0..<length new] new"] assms
  show "summaries_of (process_pending_checkpoint h new st) = summaries_of st @ numbered new"
    "dom (bt_get (builder_digest_to_checkpoint (process_pending_checkpoint h new st))) =
      dom (bt_get (builder_digest_to_checkpoint st)) \<union> set (checkpoint_txns new)"
    by (simp_all add: process_pending_checkpoint_def)
qed

lemma process_pending_checkpoint_rest [simp]:
  "builder_epoch (process_pending_checkpoint h new st) = builder_epoch st"
  "pending_checkpoints (process_pending_checkpoint h new st) = pending_checkpoints st"
  "certified_checkpoints (process_pending_checkpoint h new st) = certified_checkpoints st"
  "locally_computed_checkpoints (process_pending_checkpoint h new st) = locally_computed_checkpoints st"
proof -
  have "builder_epoch (fold (record_built h) xs st) = builder_epoch st" "pending_checkpoints (fold (record_built h) xs st) = pending_checkpoints st"
    "certified_checkpoints (fold (record_built h) xs st) = certified_checkpoints st"
    "locally_computed_checkpoints (fold (record_built h) xs st) = locally_computed_checkpoints st" for xs
    by (induction xs arbitrary: st) (auto simp: record_built_def)
  then show "builder_epoch (process_pending_checkpoint h new st) = builder_epoch st"
    "pending_checkpoints (process_pending_checkpoint h new st) = pending_checkpoints st"
    "certified_checkpoints (process_pending_checkpoint h new st) = certified_checkpoints st"
    "locally_computed_checkpoints (process_pending_checkpoint h new st) = locally_computed_checkpoints st"
    by (simp_all add: process_pending_checkpoint_def)
qed

text \<open>Writing the checkpoints: the tables above, and no checkpoint that contradicts a certified one.\<close>

definition no_fork :: "builder_state \<Rightarrow> bool" where
  "no_fork st \<longleftrightarrow> (\<forall>q s c. bt_get (locally_computed_checkpoints st) q = Some s \<longrightarrow> bt_get (certified_checkpoints st) q = Some c \<longrightarrow> s = c)"

lemma write_checkpoints_tables:
  assumes "write_checkpoints h new lib st = Some st'" and "sorted_wrt (<) (map fst (summaries_of st @ numbered new))"
  shows "summaries_of st' = summaries_of st @ numbered new"
    "dom (bt_get (builder_digest_to_checkpoint st')) = dom (bt_get (builder_digest_to_checkpoint st)) \<union> set (checkpoint_txns new)"
    "builder_epoch st' = builder_epoch st" "pending_checkpoints st' = pending_checkpoints st" "no_fork st \<Longrightarrow> no_fork st'"
proof -
  let ?st = "fold (store_checkpoint lib) new st"
  have g: "builder_epoch (fold (store_checkpoint lib) xs st) = builder_epoch st"
    "pending_checkpoints (fold (store_checkpoint lib) xs st) = pending_checkpoints st"
    "certified_checkpoints (fold (store_checkpoint lib) xs st) = certified_checkpoints st"
    "builder_summaries (fold (store_checkpoint lib) xs st) = builder_summaries st"
    "builder_digest_to_checkpoint (fold (store_checkpoint lib) xs st) = builder_digest_to_checkpoint st" for xs st
    by (induction xs arbitrary: st) (auto simp: store_checkpoint_def)
  have local: "bt_get (locally_computed_checkpoints (fold (store_checkpoint lib) xs st)) q = Some s \<Longrightarrow>
      bt_get (locally_computed_checkpoints st) q = Some s \<or> (\<exists>c. (s, c) \<in> set xs \<and> cs_sequence_number s = q)" for xs st q s
    by (induction xs arbitrary: st) (fastforce simp: store_checkpoint_def bt_get_insert split: if_splits)+
  have eq: "st' = process_pending_checkpoint h new ?st"
    and asserted: "\<forall>(s, c) \<in> set new. bt_get (certified_checkpoints st) (cs_sequence_number s) \<in> {None, Some s}"
    using assms(1)
    by (auto simp: write_checkpoints_def Let_def option_simps map_opt_Some_iff check_for_checkpoint_fork_def g rust_assert_def
        split: option.splits if_splits)
  have sum: "summaries_of ?st = summaries_of st" by (simp add: summaries_of_def g)
  note p = process_pending_checkpoint_tables [of ?st new h, unfolded sum, OF assms(2)]
  show "summaries_of st' = summaries_of st @ numbered new" "builder_epoch st' = builder_epoch st" "pending_checkpoints st' = pending_checkpoints st"
    "dom (bt_get (builder_digest_to_checkpoint st')) = dom (bt_get (builder_digest_to_checkpoint st)) \<union> set (checkpoint_txns new)"
    using p by (simp_all add: eq g)
  show "no_fork st'" if "no_fork st"
    unfolding no_fork_def eq process_pending_checkpoint_rest g
  proof (intro allI impI)
    fix q s c assume l: "bt_get (locally_computed_checkpoints ?st) q = Some s" and c: "bt_get (certified_checkpoints st) q = Some c"
    from local [OF l] show "s = c"
    proof
      assume "bt_get (locally_computed_checkpoints st) q = Some s"
      with that c show ?thesis by (simp add: no_fork_def)
    next
      assume "\<exists>c. (s, c) \<in> set new \<and> cs_sequence_number s = q"
      with asserted c show ?thesis by fastforce
    qed
  qed
qed

section \<open>Numbers\<close>

text \<open>The counter of checkpoints has not reached its end.\<close>

definition numbers_left :: "(checkpoint_summary \<times> checkpoint_contents) list \<Rightarrow> bool" where
  "numbers_left cs \<longleftrightarrow> list_all (\<lambda>c. cs_sequence_number (fst c) < 2 ^ 64 - 1) cs"

lemma chained_numbers:
  assumes "chained lib (Some l) cs" and "cs_sequence_number l < 2 ^ 64 - 1" and "numbers_left cs"
  shows "map (cs_sequence_number \<circ> fst) cs = map (\<lambda>i. cs_sequence_number l + Suc i) [0..<length cs]"
  using assms
proof (induction cs arbitrary: l)
  case (Cons x cs)
  obtain s c where x: "x = (s, c)" by (cases x)
  have s: "cs_sequence_number s = Suc (cs_sequence_number l)" using Cons.prems(1,2) by (simp add: x add64_def)
  have "chained lib (Some s) cs" "cs_sequence_number s < 2 ^ 64 - 1" "numbers_left cs"
    using Cons.prems by (auto simp: x numbers_left_def)
  from Cons.IH [OF this] s show ?case by (simp add: x upt_conv_Cons map_Suc_upt [symmetric] del: upt_Suc)
qed simp

lemma chained_numbers_from:
  assumes "chained lib prev cs" and "numbers_left cs" and "i < length cs"
  shows "cs_sequence_number (fst (cs ! i)) = cs_sequence_number (fst (hd cs)) + i"
proof (cases cs)
  case (Cons x rest)
  obtain s c where x: "x = (s, c)" by (cases x)
  have "map (cs_sequence_number \<circ> fst) rest = map (\<lambda>i. cs_sequence_number s + Suc i) [0..<length rest]"
    by (rule chained_numbers) (use assms(1,2) in \<open>auto simp: Cons x numbers_left_def\<close>)
  then have "(cs_sequence_number \<circ> fst) (rest ! j) = cs_sequence_number s + Suc j" if "j < length rest" for j
    using that by (metis (no_types, lifting) add.left_neutral diff_zero length_upt nth_map nth_upt)
  with assms(3) show ?thesis by (cases i) (auto simp: Cons x)
qed (use assms(3) in simp)

lemma chained_sorted:
  assumes "chained lib prev cs" and "numbers_left cs"
  shows "sorted_wrt (<) (map fst (numbered cs))"
proof -
  have "map fst (numbered cs) ! i < map fst (numbered cs) ! j" if "i < j" "j < length cs" for i j
    using chained_numbers_from [OF assms, of i] chained_numbers_from [OF assms, of j] that
    by (simp add: case_prod_beta')
  then show ?thesis by (simp add: sorted_wrt_iff_nth_less)
qed

section \<open>The order of the transactions\<close>

text \<open>Dependencies among the executed transactions, with the readers of overwritten versions.\<close>

definition executed_rel :: "checkpoint_reads \<Rightarrow> (tx_digest \<times> tx_digest) set" where
  "executed_rel reads =
     {(d, d'). \<exists>e e'. executed_effects reads d = Some e \<and> executed_effects reads d' = Some e' \<and>
        (d' \<in> set (effects_dependencies e) \<or> (\<exists>k. overwrites_version e k \<and> reads_version e' k))}"

lemma needed_executed:
  assumes "reads_ok reads" and "\<forall>e \<in> R. executed_effects reads (effects_transaction_digest e) = Some e" and "needed reads st R e"
  shows "executed_effects reads (effects_transaction_digest e) = Some e" "wanted st e"
  using assms(3) by induction (use assms(1,2) in \<open>auto simp: reads_ok_def\<close>)

lemma causal_rel_executed:
  assumes "\<forall>e \<in> set es. executed_effects reads (effects_transaction_digest e) = Some e"
  shows "causal_rel es \<subseteq> executed_rel reads"
proof
  fix p assume "p \<in> causal_rel es"
  then obtain e d where e: "p = (effects_transaction_digest e, d)" "e \<in> set es" "depends_on es e d" "d \<in> effects_transaction_digest ` set es"
    by (auto simp: causal_rel_def)
  then obtain e' where e': "e' \<in> set es" "effects_transaction_digest e' = d" by blast
  have "d \<in> set (effects_dependencies e) \<or> (\<exists>k. overwrites_version e k \<and> reads_version e' k)"
  proof (cases "d \<in> set (effects_dependencies e)")
    case False
    with e(3) obtain e1 e2 k where k: "e1 \<in> set es" "e2 \<in> set es" "effects_transaction_digest e1 = effects_transaction_digest e"
      "effects_transaction_digest e2 = d" "overwrites_version e1 k" "reads_version e2 k" by (auto simp: depends_on_def)
    have "e1 = e" "e2 = e'" using k(1-4) e(2) e' assms by (metis option.inject)+
    with k show ?thesis by blast
  qed simp
  moreover have "executed_effects reads (effects_transaction_digest e) = Some e" "executed_effects reads d = Some e'"
    using assms e(2) e' by auto
  ultimately show "p \<in> executed_rel reads" unfolding executed_rel_def e(1) by blast
qed

text \<open>Every transaction of an epoch comes after what it depends on of this epoch.\<close>

definition ordered_txns :: "checkpoint_reads \<Rightarrow> nat \<Rightarrow> tx_digest list \<Rightarrow> bool" where
  "ordered_txns reads epoch txns \<longleftrightarrow>
     (\<forall>i < length txns. \<exists>e. executed_effects reads (txns ! i) = Some e \<and> epoch \<le> effects_executed_epoch e \<and>
        (\<forall>d \<in> signed_deps reads e. \<forall>e'. executed_effects reads d = Some e' \<longrightarrow> epoch \<le> effects_executed_epoch e' \<longrightarrow>
           d \<in> set (take i txns)))"

lemma ordered_txns_append:
  assumes "ordered_txns reads epoch xs"
    and "\<And>j. j < length ys \<Longrightarrow> \<exists>e. executed_effects reads (ys ! j) = Some e \<and> epoch \<le> effects_executed_epoch e \<and>
        (\<forall>d \<in> signed_deps reads e. \<forall>e'. executed_effects reads d = Some e' \<longrightarrow> epoch \<le> effects_executed_epoch e' \<longrightarrow>
           d \<in> set xs \<union> set (take j ys))"
  shows "ordered_txns reads epoch (xs @ ys)"
  unfolding ordered_txns_def
proof (intro allI impI)
  fix i assume i: "i < length (xs @ ys)"
  show "\<exists>e. executed_effects reads ((xs @ ys) ! i) = Some e \<and> epoch \<le> effects_executed_epoch e \<and>
      (\<forall>d \<in> signed_deps reads e. \<forall>e'. executed_effects reads d = Some e' \<longrightarrow> epoch \<le> effects_executed_epoch e' \<longrightarrow>
         d \<in> set (take i (xs @ ys)))"
  proof (cases "i < length xs")
    case True
    with assms(1) show ?thesis by (simp add: ordered_txns_def nth_append)
  next
    case False
    with i assms(2) [of "i - length xs"] show ?thesis by (simp add: nth_append)
  qed
qed

lemma ordered_txns_new:
  assumes ok: "reads_ok reads" and acy: "acyclic (executed_rel reads)"
    and R: "\<forall>e \<in> R. executed_effects reads (effects_transaction_digest e) = Some e"
    and st: "dom (bt_get (builder_digest_to_checkpoint st)) = set txns" "ordered_txns reads (builder_epoch st) txns"
    and out: "set out = {e. needed reads st R e}" "causally_sorted out"
  shows "ordered_txns reads (builder_epoch st) (txns @ map effects_transaction_digest out)"
proof (rule ordered_txns_append [OF st(2)])
  fix j assume "j < length (map effects_transaction_digest out)"
  then have j: "j < length out" by simp
  let ?e = "out ! j"
  have "?e \<in> set out" using j by simp
  then have need: "needed reads st R ?e" using out(1) by blast
  note e = needed_executed [OF ok R need]
  have "d \<in> set txns \<union> set (take j (map effects_transaction_digest out))"
    if d: "d \<in> signed_deps reads ?e" "executed_effects reads d = Some e'" "builder_epoch st \<le> effects_executed_epoch e'" for d e'
  proof (cases "d \<in> set txns")
    case False
    have dig: "effects_transaction_digest e' = d" using ok d(2) by (simp add: reads_ok_def)
    have "wanted st e'" using False st(1) d(3) dig by (auto simp: wanted_def builder_included_def)
    then have "needed reads st R e'" using needed.Dep [OF need _ _ d(2)] d(1) by (auto simp: signed_deps_def)
    then obtain k where k: "k < length out" "out ! k = e'" using out(1) by (metis in_set_conv_nth mem_Collect_eq)
    have "depends_on out ?e (effects_transaction_digest (out ! k))" using d(1) dig k(2) by (simp add: depends_on_def signed_deps_def)
    with out(2) j k(1) have "k < j" by (auto simp: causally_sorted_def)
    then have "d \<in> set (take j (map effects_transaction_digest out))"
      using k dig j by (auto simp: in_set_conv_nth intro!: exI [of _ k])
    then show ?thesis by blast
  qed simp
  with e j show "\<exists>e. executed_effects reads (map effects_transaction_digest out ! j) = Some e \<and> builder_epoch st \<le> effects_executed_epoch e \<and>
      (\<forall>d \<in> signed_deps reads e. \<forall>e'. executed_effects reads d = Some e' \<longrightarrow> builder_epoch st \<le> effects_executed_epoch e' \<longrightarrow>
         d \<in> set txns \<union> set (take j (map effects_transaction_digest out)))"
    by (intro exI [of _ ?e]) (simp add: wanted_def)
qed

section \<open>One pending checkpoint\<close>

definition previous_checkpoint :: "builder_state \<Rightarrow> checkpoint_summary option option" where
  "previous_checkpoint st =
     (case last_built_checkpoint_summary st of
        Some c \<Rightarrow> Some (Some c)
      | None \<Rightarrow>
          if 0 < builder_epoch st then map_option Some (get_epoch_last_checkpoint (builder_epoch st - 1) st) else Some None)"

lemma user_signatures_length:
  "user_signatures_for_checkpoint reads ds = Inr sigs \<Longrightarrow> length sigs = length ds"
  by (induction ds arbitrary: sigs) (auto split: option.splits sum.splits)

text \<open>Creating checkpoints: what came before, and chunks with all transactions in order.\<close>

lemma create_checkpoints_parts:
  assumes "create_checkpoints lib cfg reads es details st = Some (Inr new)"
  obtains prev chunks where "previous_checkpoint st = Some prev" "chunks \<noteq> []"
    "map (effects_transaction_digest \<circ> fst) (concat chunks) = map effects_transaction_digest es"
    "create_loop lib cfg reads (builder_epoch st) details chunks prev = Some (Inr new)"
proof -
  obtain prev sizes where prev: "previous_checkpoint st = Some prev"
    and sizes: "map_opt (\<lambda>e. transaction_size reads (effects_transaction_digest e)) es = Some sizes"
    and rest: "(case user_signatures_for_checkpoint reads (map effects_transaction_digest es) of
       Inl err \<Rightarrow> Some (Inl err)
     | Inr sigs \<Rightarrow> create_loop lib cfg reads (builder_epoch st) details (split_checkpoint_chunks lib cfg (zip es sizes) sigs) prev) = Some (Inr new)"
    using assms(1) unfolding create_checkpoints_def previous_checkpoint_def [symmetric] by (auto simp: option_simps)
  obtain sigs where sigs: "user_signatures_for_checkpoint reads (map effects_transaction_digest es) = Inr sigs"
    using rest by (auto split: sum.splits)
  let ?chunks = "split_checkpoint_chunks lib cfg (zip es sizes) sigs"
  have len: "length sizes = length es" "length sigs = length es"
    using sizes user_signatures_length [OF sigs] by (auto simp: map_opt_Some_iff)
  note c = split_checkpoint_chunks [of sigs "zip es sizes" lib cfg]
  have "create_loop lib cfg reads (builder_epoch st) details ?chunks prev = Some (Inr new)" using rest by (simp add: sigs)
  moreover have "map (effects_transaction_digest \<circ> fst) (concat ?chunks) = map effects_transaction_digest es"
    unfolding map_map [symmetric] using c(1) len by simp
  ultimately show ?thesis using that prev c(2) len by simp
qed

text \<open>What an iteration makes within an epoch: the sorted closure of the roots, cut into checkpoints that follow the previous one.\<close>

lemma create_checkpoints_chain:
  assumes "create_checkpoints lib cfg reads es details st = Some (Inr new)" and "\<not> pc_last_of_epoch details"
  obtains prev where "previous_checkpoint st = Some prev" "chained lib prev new" "new \<noteq> []"
    "checkpoint_txns new = map effects_transaction_digest es"
    "list_all (\<lambda>c. cs_epoch (fst c) = builder_epoch st \<and> cs_end_of_epoch_data (fst c) = None) new"
proof -
  from create_checkpoints_parts [OF assms(1)] obtain prev chunks where prev: "previous_checkpoint st = Some prev" and ne: "chunks \<noteq> []"
    and txns: "map (effects_transaction_digest \<circ> fst) (concat chunks) = map effects_transaction_digest es"
    and run: "create_loop lib cfg reads (builder_epoch st) details chunks prev = Some (Inr new)" by metis
  have n: "chained lib prev new" "map (cc_transactions \<circ> snd) new = map (map (execution_digests_of lib \<circ> fst)) chunks"
    "list_all (\<lambda>c. cs_epoch (fst c) = builder_epoch st \<and> cs_timestamp_ms (fst c) = pc_timestamp_ms details \<and> cs_end_of_epoch_data (fst c) = None) new"
    using create_loop_chain [OF assms(2), of lib cfg reads "builder_epoch st" chunks prev] run by auto
  have "length new = length chunks" using arg_cong [OF n(2), of length] by simp
  with ne have nonempty: "new \<noteq> []" by auto
  have "checkpoint_txns new = map effects_transaction_digest es" using create_loop_txns [OF n(2)] txns by simp
  moreover have "list_all (\<lambda>c. cs_epoch (fst c) = builder_epoch st \<and> cs_end_of_epoch_data (fst c) = None) new"
    using n(3) by (rule list.pred_mono_strong) simp
  ultimately show ?thesis using that prev n(1) nonempty by blast
qed

lemma make_checkpoint_result:
  assumes ok: "reads_ok reads" and acy: "acyclic (executed_rel reads)"
    and run: "make_checkpoint lib cfg reads h p st = Some (Inr (new, st'))" and no_last: "\<not> pc_last_of_epoch p"
  obtains out prev where "set out = {e. needed reads st {e. \<exists>d \<in> set (pc_roots p). executed_effects reads d = Some e} e}"
    "distinct (map effects_transaction_digest out)" "causally_sorted out" "previous_checkpoint st = Some prev" "chained lib prev new"
    "new \<noteq> []" "checkpoint_txns new = map effects_transaction_digest out" "write_checkpoints h new lib st = Some st'"
proof -
  obtain roots unsorted out r where roots: "map_opt (executed_effects reads) (pc_roots p) = Some roots"
    and u: "complete_checkpoint_effects reads st roots = Some unsorted" and o: "causal_sort unsorted = Some out"
    and r: "create_checkpoints lib cfg reads out p st = Some r"
    and w: "(case r of Inl err \<Rightarrow> Some (Inl err)
      | Inr new \<Rightarrow> do { st \<leftarrow> write_checkpoints h new lib st; Some (Inr (new, st)) }) = Some (Inr (new, st'))"
    using run unfolding make_checkpoint_def by (auto elim!: bind_SomeE)
  let ?R = "{e. \<exists>d \<in> set (pc_roots p). executed_effects reads d = Some e}"
  have some: "\<forall>d \<in> set (pc_roots p). executed_effects reads d \<noteq> None" and m: "roots = map (the \<circ> executed_effects reads) (pc_roots p)"
    using roots unfolding map_opt_Some_iff by simp_all
  have R: "set roots = ?R" unfolding m set_map using some by force
  have ex: "\<forall>e \<in> ?R. executed_effects reads (effects_transaction_digest e) = Some e" using ok by (auto simp: reads_ok_def)
  from complete_checkpoint_effects_exact [OF ok ex [folded R], of st] u have un: "set unsorted = {e. needed reads st ?R e}" by (simp add: R)
  have exe: "\<forall>e \<in> set unsorted. executed_effects reads (effects_transaction_digest e) = Some e"
    using needed_executed(1) [OF ok ex] un by simp
  then have inj: "inj_on effects_transaction_digest (set unsorted)" by (metis inj_onI option.inject)
  from causal_sort_correct [OF inj] o acyclic_subset [OF acy causal_rel_executed [OF exe]]
  have out: "set out = set unsorted" "distinct (map effects_transaction_digest out)" "causally_sorted out" by auto
  obtain new' where new': "r = Inr new'" using w by (cases r) auto
  with w have eq: "new' = new" "write_checkpoints h new lib st = Some st'" by (auto elim!: bind_SomeE)
  obtain prev where "previous_checkpoint st = Some prev" "chained lib prev new" "new \<noteq> []" "checkpoint_txns new = map effects_transaction_digest out"
    using create_checkpoints_chain [OF r [unfolded new' eq(1)] no_last] by metis
  with that out un eq(2) show ?thesis by simp
qed

section \<open>The builder through an epoch\<close>

text \<open>
  The steps within an epoch, with the checkpoints built so far: consensus adds a pending checkpoint, a certified
  checkpoint arrives, or the builder makes the checkpoints of a pending one.
\<close>

inductive builder_step ::
  "checkpoint_lib \<Rightarrow> checkpoint_config \<Rightarrow> checkpoint_reads \<Rightarrow> builder_state \<times> (checkpoint_summary \<times> checkpoint_contents) list \<Rightarrow>
     builder_state \<times> (checkpoint_summary \<times> checkpoint_contents) list \<Rightarrow> bool"
  for lib cfg reads where
  Pending: "write_pending_checkpoint p st = Some st' \<Longrightarrow> \<not> pc_last_of_epoch p \<Longrightarrow> builder_step lib cfg reads (st, H) (st', H)"
| Certified: "insert_certified_checkpoint lib c st = Some st' \<Longrightarrow> builder_step lib cfg reads (st, H) (st', H)"
| Build: "(h, p) \<in> set (pending_checkpoints st) \<Longrightarrow> make_checkpoint lib cfg reads h p st = Some (Inr (new, st')) \<Longrightarrow>
     builder_step lib cfg reads (st, H) (st', H @ new)"

definition builder_inv ::
  "checkpoint_lib \<Rightarrow> checkpoint_reads \<Rightarrow> builder_state \<Rightarrow> (checkpoint_summary \<times> checkpoint_contents) list \<Rightarrow> bool" where
  "builder_inv lib reads st H \<longleftrightarrow>
     (\<forall>p \<in> snd ` set (pending_checkpoints st). \<not> pc_last_of_epoch p) \<and> (\<exists>prev. chained lib prev H) \<and>
     summaries_of st = numbered H \<and> dom (bt_get (builder_digest_to_checkpoint st)) = set (checkpoint_txns H) \<and>
     distinct (checkpoint_txns H) \<and> ordered_txns reads (builder_epoch st) (checkpoint_txns H) \<and> no_fork st"

text \<open>An epoch store as it is created.\<close>

definition builder_start :: "builder_state \<Rightarrow> bool" where
  "builder_start st \<longleftrightarrow> pending_checkpoints st = [] \<and> builder_summaries st = [] \<and> builder_digest_to_checkpoint st = [] \<and> no_fork st"

lemma builder_inv_start: "builder_start st \<Longrightarrow> builder_inv lib reads st []"
  by (simp add: builder_start_def builder_inv_def summaries_of_def ordered_txns_def)

lemma last_built_of_summaries:
  assumes "summaries_of st = numbered H"
  shows "last_built_checkpoint_summary st = (if H = [] then None else Some (fst (last H)))"
proof (cases "builder_summaries st = []")
  case True
  with assms show ?thesis by (simp add: last_built_checkpoint_summary_def bt_last_def summaries_of_def)
next
  case False
  then have "(\<lambda>(k, b). (k, bcs_summary b)) (last (builder_summaries st)) = last (summaries_of st)"
    by (simp add: summaries_of_def last_map)
  moreover have "H \<noteq> []" using assms False by (auto simp: summaries_of_def)
  ultimately show ?thesis
    using False assms by (auto simp: last_built_checkpoint_summary_def bt_last_def last_map case_prod_beta')
qed

lemma write_pending_inv:
  assumes "builder_inv lib reads st H" and "write_pending_checkpoint p st = Some st'" and "\<not> pc_last_of_epoch p"
  shows "builder_inv lib reads st' H"
proof -
  have "set (bt_insert k p m) \<subseteq> insert (k, p) (set m)" for k m by (induction m) auto
  with assms show ?thesis
    by (fastforce simp: write_pending_checkpoint_def builder_inv_def summaries_of_def no_fork_def option_simps split: option.splits)
qed

lemma insert_certified_inv:
  assumes "builder_inv lib reads st H" and "insert_certified_checkpoint lib c st = Some st'"
  shows "builder_inv lib reads st' H"
proof -
  have same: "pending_checkpoints st' = pending_checkpoints st" "builder_summaries st' = builder_summaries st" "builder_epoch st' = builder_epoch st"
    "builder_digest_to_checkpoint st' = builder_digest_to_checkpoint st" "locally_computed_checkpoints st' = locally_computed_checkpoints st"
    and cert: "certified_checkpoints st' = bt_insert (cs_sequence_number c) c (certified_checkpoints st)"
    and fork: "bt_get (locally_computed_checkpoints st) (cs_sequence_number c) \<in> {None, Some c}"
    using assms(2) by (auto simp: insert_certified_checkpoint_def Let_def check_for_checkpoint_fork_def option_simps split: option.splits if_splits)
  have "no_fork st'" using assms(1) fork unfolding no_fork_def same cert builder_inv_def by (auto simp: bt_get_insert)
  with assms(1) show ?thesis unfolding builder_inv_def summaries_of_def same by blast
qed

lemma build_inv:
  assumes ok: "reads_ok reads" and acy: "acyclic (executed_rel reads)" and inv: "builder_inv lib reads st H"
    and p: "(h, p) \<in> set (pending_checkpoints st)" and run: "make_checkpoint lib cfg reads h p st = Some (Inr (new, st'))"
    and left: "numbers_left (H @ new)"
  shows "builder_inv lib reads st' (H @ new)"
proof -
  have i: "\<forall>p \<in> snd ` set (pending_checkpoints st). \<not> pc_last_of_epoch p" "\<exists>prev. chained lib prev H" "summaries_of st = numbered H"
    "dom (bt_get (builder_digest_to_checkpoint st)) = set (checkpoint_txns H)" "distinct (checkpoint_txns H)"
    "ordered_txns reads (builder_epoch st) (checkpoint_txns H)" "no_fork st"
    by (insert inv [unfolded builder_inv_def], elim conjE, assumption)+
  let ?R = "{e. \<exists>d \<in> set (pc_roots p). executed_effects reads d = Some e}"
  have no_last: "\<not> pc_last_of_epoch p" using i(1) p by force
  obtain out prev where out: "set out = {e. needed reads st ?R e}" "distinct (map effects_transaction_digest out)" "causally_sorted out"
    and new: "previous_checkpoint st = Some prev" "chained lib prev new" "checkpoint_txns new = map effects_transaction_digest out"
    and w: "write_checkpoints h new lib st = Some st'"
    by (rule make_checkpoint_result [OF ok acy run no_last]) metis
  have chain: "\<exists>prev. chained lib prev (H @ new)"
  proof (cases "H = []")
    case True
    with new(2) show ?thesis by auto
  next
    case False
    then have "prev = Some (fst (last H))"
      using new(1) last_built_of_summaries [OF i(3)] by (simp add: previous_checkpoint_def)
    with False new(2) i(2) show ?thesis by (auto simp: chained_append last_summary_def)
  qed
  have srt: "sorted_wrt (<) (map fst (summaries_of st @ numbered new))"
    using chain chained_sorted [OF _ left] unfolding i(3) by auto
  note t = write_checkpoints_tables [OF w srt]
  have ex: "\<forall>e \<in> ?R. executed_effects reads (effects_transaction_digest e) = Some e" using ok by (auto simp: reads_ok_def)
  have fresh: "effects_transaction_digest e \<notin> set (checkpoint_txns H)" if "e \<in> set out" for e
    using needed_executed(2) [OF ok ex] out(1) that i(4) by (auto simp: wanted_def builder_included_def)
  have "distinct (checkpoint_txns (H @ new))" using i(5) out(2) fresh by (auto simp: new(3))
  moreover have "ordered_txns reads (builder_epoch st) (checkpoint_txns (H @ new))"
    using ordered_txns_new [OF ok acy ex i(4,6) out(1,3)] by (simp add: new(3))
  ultimately show ?thesis
    unfolding builder_inv_def t(1-4) using i(1,3,4,7) t(5) chain by auto
qed

lemma builder_inv_reachable:
  assumes ok: "reads_ok reads" and acy: "acyclic (executed_rel reads)" and start: "builder_start st0"
    and run: "(builder_step lib cfg reads)\<^sup>*\<^sup>* (st0, []) (st, H)" and left: "numbers_left H"
  shows "builder_inv lib reads st H"
proof -
  have "numbers_left (snd x) \<longrightarrow> builder_inv lib reads (fst x) (snd x)" if "(builder_step lib cfg reads)\<^sup>*\<^sup>* (st0, []) x" for x
    using that
  proof induction
    case base
    show ?case using builder_inv_start [OF start] by simp
  next
    case (step y z)
    from step.hyps(2) show ?case
    proof cases
      case (Pending p st st' H)
      with step.IH write_pending_inv show ?thesis by auto
    next
      case (Certified c st st' H)
      with step.IH insert_certified_inv show ?thesis by auto
    next
      case (Build h p st new st' H)
      show ?thesis
      proof
        assume l: "numbers_left (snd z)"
        then have "builder_inv lib reads st H" using step.IH Build by (simp add: numbers_left_def)
        from build_inv [OF ok acy this Build(3,4)] l Build(2) show "builder_inv lib reads (fst z) (snd z)" by simp
      qed
    qed
  qed
  from this [OF run] left show ?thesis by simp
qed

section \<open>A turn of the builder\<close>

text \<open>The builder's own turn is made of steps, whatever it started from.\<close>

lemma write_checkpoints_pending:
  assumes "write_checkpoints h new lib st = Some st'"
  shows "pending_checkpoints st' = pending_checkpoints st"
proof -
  have "pending_checkpoints (fold (store_checkpoint lib) xs st) = pending_checkpoints st" for xs st
    by (induction xs arbitrary: st) (auto simp: store_checkpoint_def)
  moreover have "pending_checkpoints (fold (record_built h) xs st) = pending_checkpoints st" for xs st
    by (induction xs arbitrary: st) (auto simp: record_built_def)
  ultimately show ?thesis
    using assms by (auto simp: write_checkpoints_def Let_def process_pending_checkpoint_def option_simps)
qed

lemma make_checkpoint_pending:
  assumes "make_checkpoint lib cfg reads h p st = Some (Inr (new, st'))"
  shows "pending_checkpoints st' = pending_checkpoints st"
  using assms unfolding make_checkpoint_def
  by (auto elim!: bind_SomeE split: sum.splits dest: write_checkpoints_pending)

lemma build_pending_steps:
  assumes "build_pending lib cfg reads ps st = Some st'" and "set ps \<subseteq> set (pending_checkpoints st)"
  shows "\<exists>new. (builder_step lib cfg reads)\<^sup>*\<^sup>* (st, H) (st', H @ new)"
  using assms
proof (induction ps arbitrary: st H)
  case Nil
  then show ?case by (auto intro!: exI [of _ "[]"])
next
  case (Cons x ps)
  obtain h p where x: "x = (h, p)" by (cases x)
  obtain r where r: "make_checkpoint lib cfg reads h p st = Some r"
    and rest: "(case r of Inl _ \<Rightarrow> Some st | Inr (_, st) \<Rightarrow> build_pending lib cfg reads ps st) = Some st'"
    using Cons.prems(1) by (auto simp: x elim!: bind_SomeE)
  show ?case
  proof (cases r)
    case (Inl err)
    with rest show ?thesis by (auto intro!: exI [of _ "[]"])
  next
    case (Inr y)
    obtain new st1 where y: "y = (new, st1)" by (cases y)
    have step: "builder_step lib cfg reads (st, H) (st1, H @ new)"
      by (rule builder_step.Build) (use r Cons.prems(2) in \<open>simp_all add: Inr y x\<close>)
    have "set ps \<subseteq> set (pending_checkpoints st1)"
      using Cons.prems(2) make_checkpoint_pending [OF r [unfolded Inr y]] by simp
    with Cons.IH [of st1 "H @ new"] rest obtain new' where "(builder_step lib cfg reads)\<^sup>*\<^sup>* (st1, H @ new) (st', (H @ new) @ new')"
      by (auto simp: Inr y)
    with step show ?thesis by (intro exI [of _ "new @ new'"]) (simp add: converse_rtranclp_into_rtranclp)
  qed
qed

lemma builder_run_steps:
  assumes "builder_run lib cfg reads st = Some st'"
  shows "\<exists>new. (builder_step lib cfg reads)\<^sup>*\<^sup>* (st, H) (st', H @ new)"
  using assms unfolding builder_run_def
  by (rule build_pending_steps) (auto simp: get_pending_checkpoints_def split: option.splits)

section \<open>Progress\<close>

text \<open>The tables hold what the builder reads of every executed transaction.\<close>

definition reads_complete :: "checkpoint_reads \<Rightarrow> bool" where
  "reads_complete reads \<longleftrightarrow>
     reads_ok reads \<and>
     (\<forall>d. executed_effects reads d \<noteq> None \<longrightarrow> transaction_size reads d \<noteq> None \<and> user_signatures reads d \<noteq> None)"

definition agrees_with_certified :: "builder_state \<Rightarrow> (checkpoint_summary \<times> checkpoint_contents) list \<Rightarrow> bool" where
  "agrees_with_certified st new \<longleftrightarrow>
     list_all (\<lambda>(s, c). bt_get (certified_checkpoints st) (cs_sequence_number s) \<in> {None, Some s}) new"

lemma user_signatures_total:
  "\<forall>d \<in> set ds. user_signatures reads d \<noteq> None \<Longrightarrow> \<exists>sigs. user_signatures_for_checkpoint reads ds = Inr sigs"
  by (induction ds) auto

lemma write_checkpoints_total:
  "write_checkpoints h new lib st =
     (if agrees_with_certified st new then Some (process_pending_checkpoint h new (fold (store_checkpoint lib) new st)) else None)"
proof -
  have g: "certified_checkpoints (fold (store_checkpoint lib) xs st) = certified_checkpoints st" for xs st
    by (induction xs arbitrary: st) (auto simp: store_checkpoint_def)
  have "map_opt (\<lambda>(s, _). case bt_get m (cs_sequence_number s) of
      Some certified \<Rightarrow> check_for_checkpoint_fork s certified | None \<Rightarrow> Some ()) (xs :: (checkpoint_summary \<times> checkpoint_contents) list) =
    (if list_all (\<lambda>(s, c). bt_get m (cs_sequence_number s) \<in> {None, Some s}) xs then Some (map (\<lambda>_. ()) xs) else None)" for m xs
    by (induction xs) (auto simp: check_for_checkpoint_fork_def rust_assert_def split: option.splits)
  then show ?thesis by (simp add: write_checkpoints_def Let_def g agrees_with_certified_def)
qed

text \<open>Creating checkpoints fails only in the transaction that ends the epoch.\<close>

lemma create_loop_total:
  "\<exists>r. create_loop lib cfg reads epoch details chunks prev = Some r \<and>
     (case r of Inl err \<Rightarrow> pc_last_of_epoch details \<and> err = AdvanceEpochFailed | Inr _ \<Rightarrow> True)"
proof (induction chunks arbitrary: prev)
  case (Cons chunk rest)
  show ?case
  proof (cases "pc_last_of_epoch details \<and> rest = []")
    case True
    let ?seq = "case prev of Some c \<Rightarrow> add64 (cs_sequence_number c) 1 | None \<Rightarrow> 0"
    let ?gas = "get_epoch_total_gas_cost epoch prev (map fst chunk)"
    show ?thesis
      using True by (cases "augment_epoch_last_checkpoint cfg reads ?gas (pc_timestamp_ms details) ?seq chunk")
        (auto simp: Let_def new_with_digests_and_signatures_def rust_assert_def)
  next
    case False
    let ?n = "next_checkpoint lib epoch details prev chunk"
    obtain r where r: "create_loop lib cfg reads epoch details rest (Some (fst ?n)) = Some r"
      "case r of Inl err \<Rightarrow> pc_last_of_epoch details \<and> err = AdvanceEpochFailed | Inr _ \<Rightarrow> True"
      using Cons.IH by blast
    show ?thesis unfolding create_loop_step [OF False] using r by (cases r) auto
  qed
qed simp

lemma create_checkpoints_total:
  assumes "reads_complete reads" and "\<forall>e \<in> set es. executed_effects reads (effects_transaction_digest e) = Some e"
    and "previous_checkpoint st \<noteq> None"
  shows "\<exists>r. create_checkpoints lib cfg reads es p st = Some r \<and>
    (case r of Inl err \<Rightarrow> pc_last_of_epoch p \<and> err = AdvanceEpochFailed | Inr _ \<Rightarrow> True)"
proof -
  have some: "\<forall>e \<in> set es. transaction_size reads (effects_transaction_digest e) \<noteq> None \<and> user_signatures reads (effects_transaction_digest e) \<noteq> None"
    using assms(1,2) by (simp add: reads_complete_def)
  then obtain sizes where sizes: "map_opt (\<lambda>e. transaction_size reads (effects_transaction_digest e)) es = Some sizes"
    by (auto simp: map_opt_Some_iff)
  obtain sigs where sigs: "user_signatures_for_checkpoint reads (map effects_transaction_digest es) = Inr sigs"
    using user_signatures_total [of "map effects_transaction_digest es" reads] some by auto
  obtain prev where prev: "previous_checkpoint st = Some prev" using assms(3) by blast
  show ?thesis
    using create_loop_total [of lib cfg reads "builder_epoch st" p "split_checkpoint_chunks lib cfg (zip es sizes) sigs" prev]
    unfolding create_checkpoints_def previous_checkpoint_def [symmetric] by (simp add: prev sizes sigs)
qed

text \<open>The checkpoints made at the end of an epoch have one transaction more, and the last of them ends the epoch.\<close>

lemma create_checkpoints_last:
  assumes "create_checkpoints lib cfg reads es details st = Some (Inr new)" and "pc_last_of_epoch details"
  shows "\<exists>prev e. previous_checkpoint st = Some prev \<and> chained lib prev new \<and>
    checkpoint_txns new = map effects_transaction_digest es @ [effects_transaction_digest e] \<and> new \<noteq> [] \<and>
    cs_end_of_epoch_data (fst (last new)) \<noteq> None \<and> list_all (\<lambda>c. cs_end_of_epoch_data (fst c) = None) (butlast new)"
proof -
  from create_checkpoints_parts [OF assms(1)] obtain prev chunks where "previous_checkpoint st = Some prev" "chunks \<noteq> []"
    "map (effects_transaction_digest \<circ> fst) (concat chunks) = map effects_transaction_digest es"
    "create_loop lib cfg reads (builder_epoch st) details chunks prev = Some (Inr new)" by metis
  with create_loop_last [OF assms(2)] show ?thesis by metis
qed

text \<open>Checkpoints that hold the transactions in this order, and the one that ends the epoch after the last pending checkpoint.\<close>

definition built_from :: "pending_checkpoint \<Rightarrow> tx_digest list \<Rightarrow> (checkpoint_summary \<times> checkpoint_contents) list \<Rightarrow> bool" where
  "built_from p txns new \<longleftrightarrow>
     new \<noteq> [] \<and>
     (if pc_last_of_epoch p
      then (\<exists>e. checkpoint_txns new = txns @ [effects_transaction_digest e]) \<and> cs_end_of_epoch_data (fst (last new)) \<noteq> None
      else checkpoint_txns new = txns)"

lemma create_checkpoints_built:
  assumes "create_checkpoints lib cfg reads es p st = Some (Inr new)"
  shows "built_from p (map effects_transaction_digest es) new"
proof (cases "pc_last_of_epoch p")
  case True
  with create_checkpoints_last [OF assms True] show ?thesis by (auto simp: built_from_def)
next
  case False
  from create_checkpoints_chain [OF assms False] False show ?thesis unfolding built_from_def by metis
qed

text \<open>
  A pending checkpoint with executed roots is built, or contradicts a certified one and stops the node; only the last of
  the epoch may fail and be tried again.
\<close>

lemma make_checkpoint_total:
  assumes ok: "reads_complete reads" and roots: "\<forall>d \<in> set (pc_roots p). executed_effects reads d \<noteq> None"
    and prev: "previous_checkpoint st \<noteq> None"
  shows "\<exists>txns r. distinct txns \<and>
    set txns = effects_transaction_digest ` {e. needed reads st {e. \<exists>d \<in> set (pc_roots p). executed_effects reads d = Some e} e} \<and>
    (case r of Inl err \<Rightarrow> pc_last_of_epoch p \<and> err = AdvanceEpochFailed | Inr new \<Rightarrow> built_from p txns new) \<and>
    make_checkpoint lib cfg reads h p st =
      (case r of Inl err \<Rightarrow> Some (Inl err)
       | Inr new \<Rightarrow> if agrees_with_certified st new
           then Some (Inr (new, process_pending_checkpoint h new (fold (store_checkpoint lib) new st))) else None)"
proof -
  let ?R = "{e. \<exists>d \<in> set (pc_roots p). executed_effects reads d = Some e}"
  have rok: "reads_ok reads" using ok by (simp add: reads_complete_def)
  obtain es where es: "map_opt (executed_effects reads) (pc_roots p) = Some es" "es = map (the \<circ> executed_effects reads) (pc_roots p)"
    using roots by (simp add: map_opt_Some_iff)
  have R: "set es = ?R" unfolding es(2) set_map using roots by force
  have ex: "\<forall>e \<in> ?R. executed_effects reads (effects_transaction_digest e) = Some e" using rok by (auto simp: reads_ok_def)
  obtain unsorted where u: "complete_checkpoint_effects reads st es = Some unsorted" "set unsorted = {e. needed reads st ?R e}"
    using complete_checkpoint_effects_exact [OF rok ex [folded R], of st] unfolding R by blast
  have exe: "\<forall>e \<in> set unsorted. executed_effects reads (effects_transaction_digest e) = Some e"
    using needed_executed(1) [OF rok ex] u(2) by simp
  then have "inj_on effects_transaction_digest (set unsorted)" by (metis inj_onI option.inject)
  from causal_sort_correct [OF this] obtain out where out: "causal_sort unsorted = Some out" "set out = set unsorted"
    "distinct (map effects_transaction_digest out)" by blast
  obtain r where r: "create_checkpoints lib cfg reads out p st = Some r"
    "case r of Inl err \<Rightarrow> pc_last_of_epoch p \<and> err = AdvanceEpochFailed | Inr _ \<Rightarrow> True"
    using create_checkpoints_total [OF ok exe [folded out(2)] prev] by blast
  have made: "case r of Inl err \<Rightarrow> pc_last_of_epoch p \<and> err = AdvanceEpochFailed
      | Inr new \<Rightarrow> built_from p (map effects_transaction_digest out) new"
    using r create_checkpoints_built [of lib cfg reads out p st] by (cases r) simp_all
  have run: "make_checkpoint lib cfg reads h p st =
      (case r of Inl err \<Rightarrow> Some (Inl err)
       | Inr new \<Rightarrow> if agrees_with_certified st new
           then Some (Inr (new, process_pending_checkpoint h new (fold (store_checkpoint lib) new st))) else None)"
    unfolding make_checkpoint_def by (cases r) (simp_all add: es(1) u(1) out(1) r(1) write_checkpoints_total)
  show ?thesis by (intro exI [of _ "map effects_transaction_digest out"] exI [of _ r] conjI made run) (simp_all add: out(2,3) u(2))
qed

end
