(* ===== verification/BuilderLoop.thy ===== *)
theory BuilderLoop
  imports CheckpointChain
begin

text \<open>
  The loop of the checkpoint builder over an epoch, the last pending checkpoint and the genesis checkpoint included: it builds
  the pending checkpoints in the order of their heights, each once, and stops a turn only at one that fails.
\<close>

section \<open>The tables of summaries\<close>

abbreviation summary_numbers :: "builder_state \<Rightarrow> nat set" where
  "summary_numbers st \<equiv> fst ` set (builder_summaries st)"

text \<open>The heights of the pending checkpoints that built checkpoints come from, in the order of their numbers.\<close>

definition built_heights :: "builder_state \<Rightarrow> nat list" where
  "built_heights st = List.map_filter (bcs_commit_height \<circ> snd) (builder_summaries st)"

lemma record_built_numbers:
  "summary_numbers (fold (record_built h) xs st) = summary_numbers st \<union> (cs_sequence_number \<circ> fst \<circ> snd) ` set xs"
proof (induction xs arbitrary: st)
  case (Cons x xs)
  have "fst ` set (bt_insert k v m) = insert k (fst ` set m)" for k :: nat and v :: builder_checkpoint_summary and m
    by (induction m) auto
  then have "summary_numbers (record_built h x st) = insert (cs_sequence_number (fst (snd x))) (summary_numbers st)"
    by (cases x) (simp add: record_built_def)
  with Cons.IH [of "record_built h x st"] show ?case by simp
qed simp

lemma store_checkpoint_summaries: "builder_summaries (fold (store_checkpoint lib) xs st) = builder_summaries st"
  by (induction xs arbitrary: st) (auto simp: store_checkpoint_def)

lemma make_checkpoint_parts:
  assumes "make_checkpoint lib cfg reads h p st = Some (Inr (new, st'))"
  obtains es where "create_checkpoints lib cfg reads es p st = Some (Inr new)"
    "st' = process_pending_checkpoint h new (fold (store_checkpoint lib) new st)"
  using assms unfolding make_checkpoint_def
  by (auto elim!: bind_SomeE simp: write_checkpoints_total split: sum.splits if_splits)

lemma make_checkpoint_numbers:
  assumes "make_checkpoint lib cfg reads h p st = Some (Inr (new, st'))"
  shows "summary_numbers st' = summary_numbers st \<union> (cs_sequence_number \<circ> fst) ` set new"
proof -
  obtain es where st': "st' = process_pending_checkpoint h new (fold (store_checkpoint lib) new st)"
    by (rule make_checkpoint_parts [OF assms])
  have "snd ` set (zip [0..<length new] new) = set new"
    using set_map [of snd "zip [0..<length new] new"] by simp
  then have "(cs_sequence_number \<circ> fst \<circ> snd) ` set (zip [0..<length new] new) = (cs_sequence_number \<circ> fst) ` set new"
    by (simp only: image_comp [symmetric])
  then show ?thesis
    by (simp only: st' process_pending_checkpoint_def record_built_numbers store_checkpoint_summaries)
qed

text \<open>The entries that a pending checkpoint adds.\<close>

definition entries_of :: "nat \<Rightarrow> (nat \<times> builder_checkpoint_summary) list \<Rightarrow> bool" where
  "entries_of h es \<longleftrightarrow> es \<noteq> [] \<and> list_all (\<lambda>(k, b). bcs_commit_height b = Some h \<and> cs_sequence_number (bcs_summary b) = k) es"

lemma record_built_summaries:
  assumes "sorted_wrt (<) (map fst (builder_summaries st) @ map (cs_sequence_number \<circ> fst \<circ> snd) xs)"
  shows "builder_summaries (fold (record_built h) xs st) = builder_summaries st @
    map (\<lambda>(i, s, c). (cs_sequence_number s, \<lparr>bcs_summary = s, bcs_commit_height = Some h, bcs_position_in_commit = i\<rparr>)) xs"
  using assms
proof (induction xs arbitrary: st)
  case (Cons x xs)
  obtain i s c where x: "x = (i, s, c)" by (cases x)
  let ?e = "(cs_sequence_number s, \<lparr>bcs_summary = s, bcs_commit_height = Some h, bcs_position_in_commit = i\<rparr>)"
  have "\<forall>k \<in> summary_numbers st. k < cs_sequence_number s" using Cons.prems by (simp add: x sorted_wrt_append)
  then have ins: "builder_summaries (record_built h x st) = builder_summaries st @ [?e]"
    by (simp add: x record_built_def bt_insert_above)
  have "sorted_wrt (<) (map fst (builder_summaries (record_built h x st)) @ map (cs_sequence_number \<circ> fst \<circ> snd) xs)"
    unfolding ins using Cons.prems by (simp add: x comp_def)
  from Cons.IH [OF this] show ?case by (simp add: ins [unfolded x] x)
qed simp

definition numbers_ok :: "builder_state \<Rightarrow> bool" where
  "numbers_ok st \<longleftrightarrow> (\<forall>k \<in> summary_numbers st. k < 2 ^ 64 - 1)"

lemma numbers_ok_mono: "numbers_ok st' \<Longrightarrow> summary_numbers st \<subseteq> summary_numbers st' \<Longrightarrow> numbers_ok st"
  unfolding numbers_ok_def by blast

definition summaries_ok :: "builder_state \<Rightarrow> bool" where
  "summaries_ok st \<longleftrightarrow>
     keys_sorted (builder_summaries st) \<and> list_all (\<lambda>(k, b). cs_sequence_number (bcs_summary b) = k) (builder_summaries st)"

lemma create_checkpoints_follow:
  assumes "create_checkpoints lib cfg reads es p st = Some (Inr new)"
  obtains prev where "previous_checkpoint st = Some prev" "chained lib prev new" "new \<noteq> []"
proof (cases "pc_last_of_epoch p")
  case True
  with create_checkpoints_last [OF assms] that show ?thesis by blast
next
  case False
  from create_checkpoints_chain [OF assms False] that show ?thesis by metis
qed

text \<open>The new numbers are above all recorded ones.\<close>

lemma follow_sorted:
  assumes ok: "summaries_ok st" and left: "numbers_ok st" "numbers_left new"
    and prev: "previous_checkpoint st = Some prev" "chained lib prev new"
  shows "sorted_wrt (<) (map fst (builder_summaries st) @ map (cs_sequence_number \<circ> fst) new)"
proof -
  have new: "sorted_wrt (<) (map (cs_sequence_number \<circ> fst) new)"
    using chained_sorted [OF prev(2) left(2)] by (simp add: comp_def case_prod_beta')
  show ?thesis
  proof (cases "builder_summaries st = []")
    case True
    with new show ?thesis by simp
  next
    case False
    obtain k b where l: "last (builder_summaries st) = (k, b)" by (cases "last (builder_summaries st)")
    with False have mem: "(k, b) \<in> set (builder_summaries st)" by (metis last_in_set)
    have prev': "prev = Some (bcs_summary b)"
      using prev(1) False l by (simp add: previous_checkpoint_def last_built_checkpoint_summary_def bt_last_def)
    have kb: "cs_sequence_number (bcs_summary b) = k" using ok mem by (auto simp: summaries_ok_def list_all_iff)
    have "k < 2 ^ 64 - 1" using left(1) mem by (force simp: numbers_ok_def)
    then have "map (cs_sequence_number \<circ> fst) new = map (\<lambda>i. k + Suc i) [0..<length new]"
      using chained_numbers [OF prev(2) [unfolded prev'] _ left(2)] kb by simp
    then have above: "\<forall>q \<in> set (map (cs_sequence_number \<circ> fst) new). k < q" by simp
    have srt: "sorted_wrt (<) (map fst (builder_summaries st))" using ok by (simp add: summaries_ok_def)
    have "q \<le> k" if "q \<in> set (map fst (builder_summaries st))" for q
    proof -
      have "x \<le> last xs" if "sorted xs" "x \<in> set xs" for xs and x :: nat using that by (induction xs) auto
      from this [OF _ that] srt show ?thesis using False l by (simp add: last_map strict_sorted_iff)
    qed
    with above have "\<forall>q \<in> set (map fst (builder_summaries st)). \<forall>r \<in> set (map (cs_sequence_number \<circ> fst) new). q < r"
      by (metis le_less_trans)
    with srt new show ?thesis unfolding sorted_wrt_append by blast
  qed
qed

lemma make_checkpoint_extends:
  assumes run: "make_checkpoint lib cfg reads h p st = Some (Inr (new, st'))"
    and ok: "summaries_ok st" and left: "numbers_ok st'"
  obtains es where "builder_summaries st' = builder_summaries st @ es" "entries_of h es" "summaries_ok st'"
proof -
  obtain effects where new: "create_checkpoints lib cfg reads effects p st = Some (Inr new)"
    and st': "st' = process_pending_checkpoint h new (fold (store_checkpoint lib) new st)"
    by (rule make_checkpoint_parts [OF run])
  obtain prev where prev: "previous_checkpoint st = Some prev" "chained lib prev new" "new \<noteq> []"
    by (rule create_checkpoints_follow [OF new])
  have "numbers_ok st" "numbers_left new"
    using left unfolding numbers_ok_def make_checkpoint_numbers [OF run] by (auto simp: numbers_left_def list_all_iff)
  note srt = follow_sorted [OF ok this prev(1,2)]
  let ?xs = "zip [0..<length new] new"
  let ?es = "map (\<lambda>(i, s, c). (cs_sequence_number s, \<lparr>bcs_summary = s, bcs_commit_height = Some h, bcs_position_in_commit = i\<rparr>)) ?xs"
  have num: "map (cs_sequence_number \<circ> fst \<circ> snd) ?xs = map (cs_sequence_number \<circ> fst) new"
    unfolding map_map [symmetric] by simp
  have sum: "builder_summaries st' = builder_summaries st @ ?es"
    unfolding st' process_pending_checkpoint_def
    by (subst record_built_summaries) (simp_all only: num srt store_checkpoint_summaries)
  moreover have e: "entries_of h ?es" using prev(3) by (auto simp: entries_of_def list_all_iff)
  moreover have "map fst ?es = map (cs_sequence_number \<circ> fst) new" unfolding num [symmetric] by (auto simp: case_prod_beta')
  then have "summaries_ok st'" using ok srt e unfolding summaries_ok_def entries_of_def sum by (auto simp: list_all_iff)
  ultimately show ?thesis by (rule that)
qed

section \<open>The order of the loop\<close>

text \<open>
  The first \<open>n\<close> pending checkpoints are built: after the entries without a height, the genesis checkpoint if there is one, the recorded
  heights are theirs, in order, each for a block of consecutive checkpoints.
\<close>

definition built_up_to :: "nat \<Rightarrow> builder_state \<Rightarrow> bool" where
  "built_up_to n st \<longleftrightarrow>
     n \<le> length (pending_checkpoints st) \<and>
     (\<exists>a B. map (bcs_commit_height \<circ> snd) (builder_summaries st) = replicate a None @ map Some B \<and>
        remdups_adj B = map fst (take n (pending_checkpoints st)))"

definition loop_inv :: "nat \<Rightarrow> builder_state \<Rightarrow> bool" where
  "loop_inv n st \<longleftrightarrow>
     keys_sorted (pending_checkpoints st) \<and> (\<forall>h \<in> fst ` set (pending_checkpoints st). h < 2 ^ 64 - 1) \<and>
     summaries_ok st \<and> built_up_to n st"

lemma built_up_to_heights:
  assumes "built_up_to n st"
  shows "remdups_adj (built_heights st) = map fst (take n (pending_checkpoints st))"
proof -
  obtain a B where ab: "map (bcs_commit_height \<circ> snd) (builder_summaries st) = replicate a None @ map Some B"
    "remdups_adj B = map fst (take n (pending_checkpoints st))" using assms unfolding built_up_to_def by blast
  have "built_heights st = List.map_filter (\<lambda>x. x) (map (bcs_commit_height \<circ> snd) (builder_summaries st))"
    by (simp add: built_heights_def List.map_filter_def comp_def filter_map)
  also have "\<dots> = B" unfolding ab(1) by (simp add: List.map_filter_def comp_def filter_map)
  finally show ?thesis using ab(2) by simp
qed

lemma remdups_adj_block:
  assumes "0 < m" and "B = [] \<or> last B \<noteq> h"
  shows "remdups_adj (B @ replicate m h) = remdups_adj B @ [h]"
proof -
  have block: "remdups_adj (replicate m h) = [h]" using assms(1) by (simp add: remdups_adj_replicate)
  show ?thesis
  proof (cases "B = []")
    case False
    with assms show ?thesis using block by (subst remdups_adj_append'') (auto simp: remdups_adj_append'')
  qed (use block in simp)
qed

lemma last_height:
  assumes "built_up_to n st"
  shows "last_built_checkpoint_commit_height st =
    (if n = 0 then None else Some (fst (pending_checkpoints st ! (n - 1))))"
proof -
  obtain a B where ab: "map (bcs_commit_height \<circ> snd) (builder_summaries st) = replicate a None @ map Some B"
    "remdups_adj B = map fst (take n (pending_checkpoints st))" and n: "n \<le> length (pending_checkpoints st)"
    using assms unfolding built_up_to_def by blast
  have last: "last_built_checkpoint_commit_height st =
      (if builder_summaries st = [] then None else last (map (bcs_commit_height \<circ> snd) (builder_summaries st)))"
    by (simp add: last_built_checkpoint_commit_height_def bt_last_def last_map case_prod_beta')
  show ?thesis
  proof (cases "B = []")
    case True
    with ab(2) n have "n = 0" by auto
    moreover have "\<forall>x \<in> set (map (bcs_commit_height \<circ> snd) (builder_summaries st)). x = None" unfolding ab(1) using True by simp
    then have "last_built_checkpoint_commit_height st = None"
      using last_in_set [of "map (bcs_commit_height \<circ> snd) (builder_summaries st)"] by (auto simp: last)
    ultimately show ?thesis by simp
  next
    case False
    then have ne: "builder_summaries st \<noteq> []" using ab(1) by auto
    have pos: "n \<noteq> 0" using ab(2) False by (metis list.simps(8) remdups_adj_Nil_iff take_0)
    have "last B = last (map fst (take n (pending_checkpoints st)))" unfolding ab(2) [symmetric] by simp
    also have "\<dots> = fst (pending_checkpoints st ! (n - 1))"
    proof -
      have ne: "take n (pending_checkpoints st) \<noteq> []" using pos n by auto
      show ?thesis using pos n by (simp add: last_map [OF ne] last_conv_nth [OF ne] min_absorb2)
    qed
    finally show ?thesis using False ne pos by (simp add: last ab(1) last_map)
  qed
qed

lemma pending_left:
  assumes inv: "loop_inv n st"
  shows "get_pending_checkpoints (last_built_checkpoint_commit_height st) st = drop n (pending_checkpoints st)"
proof -
  let ?ps = "pending_checkpoints st"
  have up: "built_up_to n st" and srt: "keys_sorted ?ps" and fit: "\<forall>h \<in> fst ` set ?ps. h < 2 ^ 64 - 1"
    using inv by (simp_all add: loop_inv_def)
  show ?thesis
  proof (cases n)
    case 0
    then show ?thesis by (simp add: last_height [OF up] get_pending_checkpoints_def)
  next
    case (Suc k)
    have k: "k < length ?ps" using up Suc by (simp add: built_up_to_def)
    have less: "fst (?ps ! i) < fst (?ps ! j)" if "i < j" "j < length ?ps" for i j
      using srt that by (simp add: sorted_wrt_iff_nth_less)
    have "fst (?ps ! k) < 2 ^ 64 - 1" using fit k by simp
    then have succ: "add64 (fst (?ps ! k)) 1 = Suc (fst (?ps ! k))" by (simp add: add64_def)
    let ?P = "\<lambda>x. Suc (fst (?ps ! k)) \<le> fst x"
    have "\<not> ?P x" if x: "x \<in> set (take n ?ps)" for x
    proof -
      from x obtain i where i: "i < n" "x = ?ps ! i" by (auto simp: in_set_conv_nth)
      show ?thesis
      proof (cases "i = k")
        case False
        with i(1) Suc have "i < k" by simp
        from less [OF this k] i(2) show ?thesis by simp
      qed (use i(2) in simp)
    qed
    then have "filter ?P (take n ?ps) = []" by (simp add: filter_empty_conv)
    moreover have "?P x" if x: "x \<in> set (drop n ?ps)" for x
    proof -
      from x obtain j where "j < length (drop n ?ps)" "x = drop n ?ps ! j" unfolding in_set_conv_nth by metis
      then have "n + j < length ?ps" "x = ?ps ! (n + j)" by simp_all
      then obtain i where i: "n + i < length ?ps" "x = ?ps ! (n + i)" by blast
      have "k < n + i" using Suc by simp
      from less [OF this i(1)] i(2) show ?thesis by simp
    qed
    then have "filter ?P (drop n ?ps) = drop n ?ps" by (simp add: filter_id_conv)
    ultimately have "filter ?P ?ps = drop n ?ps" by (metis append_Nil append_take_drop_id filter_append)
    then show ?thesis using Suc by (simp add: last_height [OF up] get_pending_checkpoints_def succ [unfolded One_nat_def] case_prod_beta')
  qed
qed

section \<open>A turn of the loop\<close>

lemma make_checkpoint_next:
  assumes run: "make_checkpoint lib cfg reads (fst (pending_checkpoints st ! n)) p st = Some (Inr (new, st'))"
    and inv: "loop_inv n st" and n: "n < length (pending_checkpoints st)" and left: "numbers_ok st'"
  shows "loop_inv (Suc n) st'"
proof -
  let ?ps = "pending_checkpoints st" and ?h = "fst (pending_checkpoints st ! n)"
  have up: "built_up_to n st" and srt: "keys_sorted ?ps" and ok: "summaries_ok st" using inv by (simp_all add: loop_inv_def)
  have same: "pending_checkpoints st' = ?ps" by (rule make_checkpoint_pending [OF run])
  obtain es where es: "builder_summaries st' = builder_summaries st @ es" "entries_of ?h es" "summaries_ok st'"
    by (rule make_checkpoint_extends [OF run ok left])
  obtain a B where ab: "map (bcs_commit_height \<circ> snd) (builder_summaries st) = replicate a None @ map Some B"
    "remdups_adj B = map fst (take n ?ps)" using up unfolding built_up_to_def by blast
  have "map (bcs_commit_height \<circ> snd) es = replicate (length es) (Some ?h)"
    using es(2) by (intro nth_equalityI) (auto simp: entries_of_def list_all_length case_prod_beta)
  then have all: "map (bcs_commit_height \<circ> snd) (builder_summaries st') = replicate a None @ map Some (B @ replicate (length es) ?h)"
    by (simp add: es(1) ab(1))
  have "B = [] \<or> last B \<noteq> ?h"
  proof (cases "B = []")
    case False
    then have "last B \<in> set (map fst (take n ?ps))" unfolding ab(2) [symmetric] by simp
    then obtain i where "i < n" "last B = fst (?ps ! i)" by (auto simp: in_set_conv_nth)
    moreover have "fst (?ps ! i) < ?h" if "i < n" for i using srt n that by (simp add: sorted_wrt_iff_nth_less)
    ultimately show ?thesis by fastforce
  qed simp
  then have "remdups_adj (B @ replicate (length es) ?h) = map fst (take (Suc n) ?ps)"
    using remdups_adj_block [of "length es" B ?h] es(2) n by (simp add: ab(2) entries_of_def take_Suc_conv_app_nth)
  then have "built_up_to (Suc n) st'" unfolding built_up_to_def same using all n by (intro conjI exI) simp_all
  with inv es(3) show ?thesis by (simp add: loop_inv_def same)
qed

text \<open>
  A turn builds on from the first pending checkpoint that is not built, and ends with all of them built or before one
  that fails.
\<close>

definition turn_done :: "checkpoint_lib \<Rightarrow> checkpoint_config \<Rightarrow> checkpoint_reads \<Rightarrow> nat \<Rightarrow> builder_state \<Rightarrow> bool" where
  "turn_done lib cfg reads n st \<longleftrightarrow>
     n < length (pending_checkpoints st) \<longrightarrow>
     (\<exists>err. make_checkpoint lib cfg reads (fst (pending_checkpoints st ! n)) (snd (pending_checkpoints st ! n)) st = Some (Inl err))"

lemma build_pending_numbers:
  "build_pending lib cfg reads ps st = Some st' \<Longrightarrow> summary_numbers st \<subseteq> summary_numbers st'"
proof (induction ps arbitrary: st)
  case (Cons x ps)
  obtain h p where x: "x = (h, p)" by (cases x)
  obtain r where r: "make_checkpoint lib cfg reads h p st = Some r"
    "(case r of Inl _ \<Rightarrow> Some st | Inr (_, st) \<Rightarrow> build_pending lib cfg reads ps st) = Some st'"
    using Cons.prems by (auto simp: x elim!: bind_SomeE)
  show ?case
  proof (cases r)
    case (Inr y)
    obtain new st1 where y: "y = (new, st1)" by (cases y)
    have "summary_numbers st \<subseteq> summary_numbers st1" using make_checkpoint_numbers [OF r(1) [unfolded Inr y]] by blast
    moreover have "summary_numbers st1 \<subseteq> summary_numbers st'" using Cons.IH r(2) by (simp add: Inr y)
    ultimately show ?thesis by blast
  qed (use r(2) in simp)
qed simp

lemma build_pending_turn:
  assumes "build_pending lib cfg reads (drop n (pending_checkpoints st)) st = Some st'" and "loop_inv n st" and left: "numbers_ok st'"
  shows "pending_checkpoints st' = pending_checkpoints st \<and> (\<exists>m \<ge> n. loop_inv m st' \<and> turn_done lib cfg reads m st')"
  using assms(1,2)
proof (induction "length (pending_checkpoints st) - n" arbitrary: n st)
  case 0
  then have "st' = st" "length (pending_checkpoints st) \<le> n" by simp_all
  with "0.prems"(2) show ?case by (auto simp: turn_done_def)
next
  case (Suc k)
  let ?ps = "pending_checkpoints st"
  have n: "n < length ?ps" using Suc.hyps(2) by simp
  obtain h p where hp: "?ps ! n = (h, p)" by (cases "?ps ! n")
  have drop: "drop n ?ps = (h, p) # drop (Suc n) ?ps" using n hp by (metis Cons_nth_drop_Suc)
  obtain r where r: "make_checkpoint lib cfg reads h p st = Some r"
    and rest: "(case r of Inl _ \<Rightarrow> Some st | Inr (_, st) \<Rightarrow> build_pending lib cfg reads (drop (Suc n) ?ps) st) = Some st'"
    using Suc.prems(1) by (auto simp: drop elim!: bind_SomeE)
  show ?case
  proof (cases r)
    case (Inl err)
    with rest r hp Suc.prems(2) show ?thesis by (auto simp: turn_done_def intro!: exI [of _ n])
  next
    case (Inr y)
    obtain new st1 where y: "y = (new, st1)" by (cases y)
    note run = r [unfolded Inr y]
    have same: "pending_checkpoints st1 = ?ps" by (rule make_checkpoint_pending [OF run])
    have rest1: "build_pending lib cfg reads (drop (Suc n) (pending_checkpoints st1)) st1 = Some st'" using rest by (simp add: Inr y same)
    have "numbers_ok st1" by (rule numbers_ok_mono [OF left build_pending_numbers [OF rest1]])
    then have "loop_inv (Suc n) st1" using make_checkpoint_next [of lib cfg reads st n p new st1] run hp Suc.prems(2) n by simp
    from Suc.hyps(1) [OF _ rest1 this] Suc.hyps(2) same show ?thesis by (metis Suc_leD diff_Suc_1 diff_Suc_eq_diff_pred diff_commute)
  qed
qed

lemma builder_run_turn:
  assumes run: "builder_run lib cfg reads st = Some st'" and inv: "loop_inv n st" and left: "numbers_ok st'"
  shows "pending_checkpoints st' = pending_checkpoints st \<and> (\<exists>m \<ge> n. loop_inv m st' \<and> turn_done lib cfg reads m st')"
  by (rule build_pending_turn [OF _ inv left]) (use run in \<open>simp add: builder_run_def pending_left [OF inv]\<close>)

section \<open>The loop through an epoch\<close>

text \<open>
  Consensus adds pending checkpoints with growing heights, or the one of a height again; certified checkpoints arrive; and the builder takes
  its turns, each with what has been executed by then.
\<close>

inductive loop_step :: "checkpoint_lib \<Rightarrow> builder_state \<Rightarrow> builder_state \<Rightarrow> bool" for lib where
  Pending: "write_pending_checkpoint p st = Some st' \<Longrightarrow> pc_commit_height p < 2 ^ 64 - 1 \<Longrightarrow>
    pc_commit_height p \<in> fst ` set (pending_checkpoints st) \<or> (\<forall>h \<in> fst ` set (pending_checkpoints st). h < pc_commit_height p) \<Longrightarrow>
    loop_step lib st st'"
| Certified: "insert_certified_checkpoint lib c st = Some st' \<Longrightarrow> loop_step lib st st'"
| Turn: "builder_run lib cfg reads st = Some st' \<Longrightarrow> loop_step lib st st'"

text \<open>The store of an epoch as it is created; in epoch 0 the genesis checkpoint is filed in it.\<close>

definition loop_start :: "builder_state \<Rightarrow> bool" where
  "loop_start st \<longleftrightarrow>
     (\<exists>st0. pending_checkpoints st0 = [] \<and> builder_summaries st0 = [] \<and>
        (st = st0 \<or> (\<exists>s c. st = put_genesis_checkpoint_in_builder s c st0)))"

lemma loop_inv_start: "loop_start st \<Longrightarrow> loop_inv 0 st"
proof -
  assume "loop_start st"
  then obtain st0 where st0: "pending_checkpoints st0 = []" "builder_summaries st0 = []"
    "st = st0 \<or> (\<exists>s c. st = put_genesis_checkpoint_in_builder s c st0)" unfolding loop_start_def by blast
  then have "pending_checkpoints st = []" "summaries_ok st"
    by (auto simp: put_genesis_checkpoint_in_builder_def summaries_ok_def)
  moreover have "\<exists>a. map (bcs_commit_height \<circ> snd) (builder_summaries st) = replicate a None"
    using st0 by (auto simp: put_genesis_checkpoint_in_builder_def intro: exI [of _ 0] exI [of _ 1])
  ultimately show "loop_inv 0 st" by (auto simp: loop_inv_def built_up_to_def intro!: exI [of _ "[]"])
qed

lemma loop_step_numbers:
  assumes "loop_step lib st st'"
  shows "summary_numbers st \<subseteq> summary_numbers st'"
  using assms
proof cases
  case (Pending p)
  then show ?thesis by (auto simp: write_pending_checkpoint_def option_simps split: option.splits)
next
  case (Certified c)
  then show ?thesis
    by (auto simp: insert_certified_checkpoint_def Let_def option_simps split: option.splits if_splits)
next
  case (Turn cfg reads)
  from build_pending_numbers [OF this [unfolded builder_run_def]] show ?thesis .
qed

lemma loop_inv_step:
  assumes step: "loop_step lib st st'" and inv: "loop_inv n st" and left: "numbers_ok st'"
  obtains m where "loop_inv m st'"
  using step
proof cases
  case (Pending p)
  show ?thesis
  proof (cases "bt_get (pending_checkpoints st) (pc_commit_height p)")
    case None
    then have new: "pc_commit_height p \<notin> fst ` set (pending_checkpoints st)" by (simp add: bt_get_def map_of_eq_None_iff)
    with Pending(3) have above: "\<forall>h \<in> fst ` set (pending_checkpoints st). h < pc_commit_height p" by blast
    have eq: "st' = st\<lparr>pending_checkpoints := pending_checkpoints st @ [(pc_commit_height p, p)]\<rparr>"
      using Pending(1) None by (simp add: write_pending_checkpoint_def bt_insert_above [OF above])
    have "loop_inv n st'"
      using inv above Pending(2) unfolding eq loop_inv_def built_up_to_def summaries_ok_def by (simp add: sorted_wrt_append)
    then show ?thesis by (rule that)
  next
    case (Some q)
    with Pending(1) have "st' = st" by (auto simp: write_pending_checkpoint_def option_simps)
    with inv that show ?thesis by blast
  qed
next
  case (Certified c)
  then have "pending_checkpoints st' = pending_checkpoints st" "builder_summaries st' = builder_summaries st"
    by (auto simp: insert_certified_checkpoint_def Let_def option_simps split: option.splits if_splits)
  with inv have "loop_inv n st'" by (simp add: loop_inv_def built_up_to_def summaries_ok_def)
  then show ?thesis by (rule that)
next
  case (Turn cfg reads)
  from builder_run_turn [OF this inv left] that show ?thesis by blast
qed

lemma loop_inv_reachable:
  assumes start: "loop_start st0" and run: "(loop_step lib)\<^sup>*\<^sup>* st0 st" and left: "numbers_ok st"
  shows "\<exists>n. loop_inv n st"
  using run left
proof induction
  case base
  from loop_inv_start [OF start] show ?case by blast
next
  case (step y z)
  have "numbers_ok y" by (rule numbers_ok_mono [OF step.prems loop_step_numbers [OF step.hyps(2)]])
  with step.IH obtain n where "loop_inv n y" by blast
  from loop_inv_step [OF step.hyps(2) this step.prems] show ?case by blast
qed

end
