(* ===== verification/CheckpointProperties.thy ===== *)
theory CheckpointProperties
  imports BuilderLoop "HOL-Library.Code_Target_Numeral"
begin

text \<open>
  The properties of checkpoints, with a sample run: three transactions of an epoch, built into four checkpoints from
  two pending ones.
\<close>

section \<open>A sample\<close>

definition sample_v2 ::
  "tx_digest \<Rightarrow> tx_digest list \<Rightarrow> (object_id \<times> effects_object_change) list \<Rightarrow> (object_id \<times> unchanged_shared_kind) list \<Rightarrow> transaction_effects" where
  "sample_v2 d deps changed unchanged =
     V2 \<lparr>e2_status = StatusSuccess, e2_executed_epoch = 0, e2_gas_used = gas_cost_summary_new 5 3 2 1, e2_transaction_digest = d,
         e2_gas_object_index = None, e2_events_digest = None, e2_dependencies = deps, e2_lamport_version = 8,
         changed_objects = changed, unchanged_shared_objects = unchanged, aux_data_digest = None\<rparr>"

text \<open>The first reads version 4 of a shared object, the second overwrites it, the third depends on the second.\<close>

definition reader_effects where "reader_effects = sample_v2 1 [] [] [(100, ReadOnlyRoot 4 0)]"

definition writer_effects where
  "writer_effects = sample_v2 2 []
     [(100, \<lparr>input_state = InExist (4, 0) (Shared 1), output_state = ObjectWrite 0 (Shared 1), change_id_operation = IDNone\<rparr>)] []"

definition next_effects where "next_effects = sample_v2 3 [2] [] []"

definition sample_lib :: checkpoint_lib where
  "sample_lib = \<lparr>effects_hash = effects_transaction_digest, contents_hash = (\<lambda>c. length (cc_transactions c)),
     summary_hash = cs_sequence_number, effects_serialized_size = (\<lambda>_. 10), signatures_serialized_size = (\<lambda>_. 1)\<rparr>"

definition sample_cfg :: checkpoint_config where
  "sample_cfg = \<lparr>max_transactions_per_checkpoint = 1, max_checkpoint_size_bytes = 100, check_commit_root_state_digest = True\<rparr>"

definition sample_executed :: "tx_digest \<Rightarrow> transaction_effects option" where
  "sample_executed d =
     (if d = 1 then Some reader_effects else if d = 2 then Some writer_effects else if d = 3 then Some next_effects else None)"

definition sample_reads :: checkpoint_reads where
  "sample_reads = \<lparr>executed_effects = sample_executed, effects_signatures = [1, 2, 3], transaction_size = (\<lambda>_. Some 20),
     user_signatures = (\<lambda>_. Some [0]), advance_epoch = (\<lambda>_ _ _. Some (([(1, 1)], 40), sample_v2 9 [] [] [])),
     root_state_digest = (\<lambda>_ _. 77)\<rparr>"

definition sample_start :: builder_state where
  "sample_start = \<lparr>builder_epoch = 0, pending_checkpoints = [], builder_summaries = [], builder_digest_to_checkpoint = [],
     checkpoint_content = [], locally_computed_checkpoints = [], certified_checkpoints = [], checkpoint_by_digest = [],
     epoch_last_checkpoint_map = []\<rparr>"

definition sample_pending :: "nat \<Rightarrow> tx_digest list \<Rightarrow> pending_checkpoint" where
  "sample_pending h roots = \<lparr>pc_roots = roots, pc_timestamp_ms = 50, pc_last_of_epoch = False, pc_commit_height = h\<rparr>"

definition sample_written where "sample_written = the (write_pending_checkpoint (sample_pending 1 [3, 1]) sample_start)"

definition sample_built where
  "sample_built = projr (the (make_checkpoint sample_lib sample_cfg sample_reads 1 (sample_pending 1 [3, 1]) sample_written))"

text \<open>The value of the first build, so that what follows is evaluated from it.\<close>

definition made_summary :: "nat \<Rightarrow> checkpoint_summary" where
  "made_summary n = \<lparr>cs_epoch = 0, cs_sequence_number = n, cs_network_total_transactions = n + 1, cs_content_digest = 1,
     cs_previous_digest = (if n = 0 then None else Some (n - 1)),
     cs_epoch_rolling_gas_cost_summary = gas_cost_summary_new (5 * (n + 1)) (3 * (n + 1)) (2 * (n + 1)) (n + 1),
     cs_timestamp_ms = 50, cs_checkpoint_commitments = [], cs_end_of_epoch_data = None, cs_version_specific_data = []\<rparr>"

definition made_contents :: "tx_digest \<Rightarrow> checkpoint_contents" where
  "made_contents d = \<lparr>cc_transactions = [\<lparr>ed_transaction = d, ed_effects = d\<rparr>], cc_user_signatures = [[0]]\<rparr>"

definition made_state :: builder_state where
  "made_state = sample_written\<lparr>
     builder_summaries := map (\<lambda>n. (n, \<lparr>bcs_summary = made_summary n, bcs_commit_height = Some 1, bcs_position_in_commit = n\<rparr>)) [0, 1, 2],
     builder_digest_to_checkpoint := [(1, 0), (2, 1), (3, 2)], checkpoint_content := [(1, made_contents 3)],
     locally_computed_checkpoints := map (\<lambda>n. (n, made_summary n)) [0, 1, 2]\<rparr>"

lemma sample_built_value [code]: "sample_built = (map (\<lambda>n. (made_summary n, made_contents (n + 1))) [0, 1, 2], made_state)"
  by code_simp

definition sample_written2 where "sample_written2 = the (write_pending_checkpoint (sample_pending 2 [2]) (snd sample_built))"

definition sample_built2 where
  "sample_built2 = projr (the (make_checkpoint sample_lib sample_cfg sample_reads 2 (sample_pending 2 [2]) sample_written2))"

lemma sample_sorted: "causal_sort [next_effects, writer_effects, reader_effects] = Some [reader_effects, writer_effects, next_effects]"
  by code_simp

lemma sample_executed_iff:
  "sample_executed d = Some e \<longleftrightarrow> (d, e) \<in> {(1, reader_effects), (2, writer_effects), (3, next_effects)}"
  by (auto simp: sample_executed_def)

lemmas sample_effects_defs = reader_effects_def writer_effects_def next_effects_def sample_v2_def

lemma sample_digests [simp]:
  "effects_transaction_digest reader_effects = 1" "effects_transaction_digest writer_effects = 2" "effects_transaction_digest next_effects = 3"
  "effects_dependencies reader_effects = []" "effects_dependencies writer_effects = []" "effects_dependencies next_effects = [2]"
  by (simp_all add: sample_effects_defs)

lemma sample_shared [simp]:
  "effects_input_shared_objects reader_effects = [SharedReadOnly (100, 4, 0)]" "effects_input_shared_objects writer_effects = [SharedMutate (100, 4, 0)]"
  "effects_input_shared_objects next_effects = []"
  by code_simp+

lemma sample_reads_complete: "reads_complete sample_reads"
  by (auto simp: reads_complete_def reads_ok_def sample_reads_def sample_executed_def split: if_splits)

lemma sample_reads_ok: "reads_ok sample_reads"
  using sample_reads_complete by (simp add: reads_complete_def)

lemma sample_acyclic: "acyclic (executed_rel sample_reads)"
proof (rule acyclic_subset)
  have "{(a, b). b < (a :: nat)} = {(a, b). a < b}\<inverse>" by auto
  then show "acyclic {(a, b). b < (a :: nat)}" using wf_acyclic [OF wf_less] by (simp only: acyclic_converse)
  show "executed_rel sample_reads \<subseteq> {(a, b). b < (a :: nat)}"
  proof (rule subsetI, clarify)
    fix d d' assume "(d, d') \<in> executed_rel sample_reads"
    then obtain e e' where "(d, e) \<in> {(1, reader_effects), (2, writer_effects), (3, next_effects)}"
      "(d', e') \<in> {(1, reader_effects), (2, writer_effects), (3, next_effects)}"
      "d' \<in> set (effects_dependencies e) \<or> (\<exists>k. overwrites_version e k \<and> reads_version e' k)"
      by (auto simp only: executed_rel_def sample_reads_def sample_executed_iff checkpoint_reads.simps mem_Collect_eq case_prod_conv)
    then show "d' < d" by (elim insertE emptyE Pair_inject) (simp_all add: overwrites_version_def reads_version_def)
  qed
qed

lemma sample_writes:
  "write_pending_checkpoint (sample_pending 1 [3, 1]) sample_start = Some sample_written"
  "write_pending_checkpoint (sample_pending 2 [2]) (snd sample_built) = Some sample_written2"
proof -
  have "\<not> Option.is_none (write_pending_checkpoint (sample_pending 1 [3, 1]) sample_start)" by code_simp
  then show "write_pending_checkpoint (sample_pending 1 [3, 1]) sample_start = Some sample_written"
    by (simp add: Option.is_none_def sample_written_def)
  have "\<not> Option.is_none (write_pending_checkpoint (sample_pending 2 [2]) (snd sample_built))" by code_simp
  then show "write_pending_checkpoint (sample_pending 2 [2]) (snd sample_built) = Some sample_written2"
    by (simp add: Option.is_none_def sample_written2_def)
qed

definition was_built :: "(builder_error + 'a) option \<Rightarrow> bool" where
  "was_built r \<longleftrightarrow> (case r of Some (Inr _) \<Rightarrow> True | _ \<Rightarrow> False)"

lemma was_built: "was_built r \<Longrightarrow> r = Some (Inr (projr (the r)))"
  by (auto simp: was_built_def split: option.splits sum.splits)

lemma sample_builds:
  "make_checkpoint sample_lib sample_cfg sample_reads 1 (sample_pending 1 [3, 1]) sample_written = Some (Inr (fst sample_built, snd sample_built))"
  "make_checkpoint sample_lib sample_cfg sample_reads 2 (sample_pending 2 [2]) sample_written2 = Some (Inr (fst sample_built2, snd sample_built2))"
proof -
  have "was_built (make_checkpoint sample_lib sample_cfg sample_reads 1 (sample_pending 1 [3, 1]) sample_written)" by code_simp
  from was_built [OF this] show "make_checkpoint sample_lib sample_cfg sample_reads 1 (sample_pending 1 [3, 1]) sample_written =
      Some (Inr (fst sample_built, snd sample_built))" by (simp add: sample_built_def)
  have "was_built (make_checkpoint sample_lib sample_cfg sample_reads 2 (sample_pending 2 [2]) sample_written2)" by code_simp
  from was_built [OF this] show "make_checkpoint sample_lib sample_cfg sample_reads 2 (sample_pending 2 [2]) sample_written2 =
      Some (Inr (fst sample_built2, snd sample_built2))" by (simp add: sample_built2_def)
qed

lemma sample_values:
  "pending_checkpoints sample_written = [(1, sample_pending 1 [3, 1])]"
  "list_ex (\<lambda>x. x = (2, sample_pending 2 [2])) (pending_checkpoints sample_written2)"
  "map (cs_sequence_number \<circ> fst) (fst sample_built @ fst sample_built2) = [0, 1, 2, 3]"
  "checkpoint_txns (fst sample_built @ fst sample_built2) = [1, 2, 3]"
  subgoal by code_simp
  subgoal by code_simp
  subgoal by code_simp
  subgoal by code_simp
  done


lemma sample_reaches:
  "(builder_step sample_lib sample_cfg sample_reads)\<^sup>*\<^sup>* (sample_start, []) (snd sample_built2, fst sample_built @ fst sample_built2)"
proof -
  note steps = builder_step.intros [where lib = sample_lib and cfg = sample_cfg and reads = sample_reads]
  have p: "\<not> pc_last_of_epoch (sample_pending h r)" for h r by (simp add: sample_pending_def)
  have "builder_step sample_lib sample_cfg sample_reads (sample_start, []) (sample_written, [])" by (rule steps(1) [OF sample_writes(1) p])
  moreover have "builder_step sample_lib sample_cfg sample_reads (sample_written, []) (snd sample_built, [] @ fst sample_built)"
    by (rule steps(3) [OF _ sample_builds(1)]) (simp add: sample_values(1))
  moreover have "builder_step sample_lib sample_cfg sample_reads (snd sample_built, fst sample_built) (sample_written2, fst sample_built)"
    by (rule steps(1) [OF sample_writes(2) p])
  moreover have "builder_step sample_lib sample_cfg sample_reads (sample_written2, fst sample_built) (snd sample_built2, fst sample_built @ fst sample_built2)"
    by (rule steps(3) [OF _ sample_builds(2)]) (use sample_values(2) in \<open>simp add: list_ex_iff\<close>)
  ultimately show ?thesis by (simp add: converse_rtranclp_into_rtranclp)
qed

section \<open>Properties\<close>

text \<open>
  C24: \<^verbatim>\<open>CausalOrder::causal_sort\<close> returns for effects of different transactions: it gives exactly the transactions it was
  given, each once; when dependencies have no cycle every transaction comes after those it depends on, where a
  transaction that overwrites a version of a shared object also depends on its readers; and the result depends only on
  the set of transactions, so all validators get the same order.
\<close>

theorem causal_sort_sorted:
  assumes "inj_on effects_transaction_digest (set effects)"
  shows "\<exists>out. causal_sort effects = Some out \<and> set out = set effects \<and> distinct (map effects_transaction_digest out) \<and>
    (acyclic (causal_rel effects) \<longrightarrow> causally_sorted out) \<and>
    (\<forall>effects'. set effects' = set effects \<longrightarrow> causal_sort effects' = Some out)"
  by (rule causal_sort_correct [OF assms])

theorem causal_sort_sorted_witness:
  "causal_sort [reader_effects, next_effects, writer_effects] = Some [reader_effects, writer_effects, next_effects] \<and>
   causally_sorted [reader_effects, writer_effects, next_effects]"
proof -
  let ?es = "[next_effects, writer_effects, reader_effects]"
  have inj: "inj_on effects_transaction_digest (set ?es)" by (simp add: inj_on_def)
  have "\<forall>e \<in> set ?es. executed_effects sample_reads (effects_transaction_digest e) = Some e"
    by (simp add: sample_reads_def sample_executed_def)
  then have acy: "acyclic (causal_rel ?es)" using acyclic_subset [OF sample_acyclic causal_rel_executed] by blast
  have "set [reader_effects, next_effects, writer_effects] = set ?es" by auto
  with causal_sort_sorted [OF inj] acy sample_sorted show ?thesis by (metis option.inject)
qed

text \<open>
  C25: \<^verbatim>\<open>complete_checkpoint_effects\<close> returns, also on cyclic dependencies, and its result is exactly the closure: the roots
  and, transitively, the dependencies signed in this epoch, less what earlier checkpoints hold and what earlier epochs
  executed.
\<close>

theorem checkpoint_closure_exact:
  assumes "reads_ok reads" and "\<forall>e \<in> set roots. executed_effects reads (effects_transaction_digest e) = Some e"
  shows "\<exists>out. complete_checkpoint_effects reads st roots = Some out \<and> set out = {e. needed reads st (set roots) e}"
  by (rule complete_checkpoint_effects_exact [OF assms])

theorem checkpoint_closure_exact_witness:
  "complete_checkpoint_effects sample_reads sample_start [next_effects] = Some [next_effects, writer_effects] \<and>
   {e. needed sample_reads sample_start {next_effects} e} = {next_effects, writer_effects}"
proof -
  have run: "complete_checkpoint_effects sample_reads sample_start [next_effects] = Some [next_effects, writer_effects]" by code_simp
  have "\<forall>e \<in> set [next_effects]. executed_effects sample_reads (effects_transaction_digest e) = Some e"
    by (simp add: sample_reads_def sample_executed_def)
  from checkpoint_closure_exact [OF sample_reads_ok this, of sample_start] run show ?thesis by auto
qed

text \<open>
  C26: \<^verbatim>\<open>split_checkpoint_chunks\<close> cuts the transactions into consecutive chunks, none lost, none empty unless there is
  nothing to cut, each within the limits on transactions and on bytes; only a chunk of a single transaction may be
  larger. The sizes must sum to less than the range of a machine word.
\<close>

theorem chunks_within_limits:
  assumes "length sigs = length items" and "0 < max_transactions_per_checkpoint cfg" and "\<forall>(e, m) \<in> set items. m = sz e"
    and "sum_list (map (item_size lib sz) (zip (map fst items) sigs)) < 2 ^ 64"
  shows "concat (split_checkpoint_chunks lib cfg items sigs) = zip (map fst items) sigs \<and>
    split_checkpoint_chunks lib cfg items sigs \<noteq> [] \<and>
    (items \<noteq> [] \<longrightarrow> [] \<notin> set (split_checkpoint_chunks lib cfg items sigs)) \<and>
    list_all (chunk_fits lib cfg sz) (split_checkpoint_chunks lib cfg items sigs)"
  using split_checkpoint_chunks [OF assms(1)] split_checkpoint_chunks_fits [OF assms(2-4)] by simp

theorem chunks_within_limits_witness:
  "split_checkpoint_chunks sample_lib sample_cfg [(reader_effects, 20), (writer_effects, 20)] [[0], [0]] =
     [[(reader_effects, [0])], [(writer_effects, [0])]] \<and>
   list_all (chunk_fits sample_lib sample_cfg (\<lambda>_. 20)) [[(reader_effects, [0])], [(writer_effects, [0])]]"
proof -
  let ?items = "[(reader_effects, 20), (writer_effects, 20)]"
  have run: "split_checkpoint_chunks sample_lib sample_cfg ?items [[0], [0]] = [[(reader_effects, [0])], [(writer_effects, [0])]]"
    by code_simp
  have "list_all (chunk_fits sample_lib sample_cfg (\<lambda>_. 20)) (split_checkpoint_chunks sample_lib sample_cfg ?items [[0], [0]])"
    by (rule conjunct2 [OF conjunct2 [OF conjunct2 [OF chunks_within_limits]]])
      (simp_all add: sample_cfg_def sample_lib_def item_size_def)
  then show ?thesis by (simp only: run)
qed

text \<open>
  C5: In every reachable state of an epoch, through pending checkpoints from consensus, certified checkpoints from the
  network and turns of the builder: no transaction is in two checkpoints; every transaction comes after those of this
  epoch it depends on, across checkpoints; the numbers are consecutive; each summary names the hash of the one before (the first
  that of some previous checkpoint, or none); and no checkpoint differs from a certified one with its number. The steps are those
  before the last pending checkpoint of the epoch, which they do not take; the tables of executed transactions stay as they are;
  and the builder's tables are empty at the start, as in every epoch but 0, where the genesis checkpoint is filed in them first.
\<close>

theorem checkpoint_stream_ordered:
  assumes "reads_ok reads" and "acyclic (executed_rel reads)" and "builder_start st0"
    and "(builder_step lib cfg reads)\<^sup>*\<^sup>* (st0, []) (st, H)" and "numbers_left H"
  shows "distinct (checkpoint_txns H) \<and> ordered_txns reads (builder_epoch st) (checkpoint_txns H) \<and>
    (\<forall>i < length H. cs_sequence_number (fst (H ! i)) = cs_sequence_number (fst (hd H)) + i) \<and>
    (\<exists>prev. chained lib prev H) \<and> no_fork st"
  using builder_inv_reachable [OF assms] chained_numbers_from [OF _ assms(5)] unfolding builder_inv_def by blast

theorem checkpoint_stream_ordered_witness:
  "checkpoint_txns (fst sample_built @ fst sample_built2) = [1, 2, 3] \<and>
   ordered_txns sample_reads (builder_epoch (snd sample_built2)) [1, 2, 3] \<and> no_fork (snd sample_built2)"
proof -
  have start: "builder_start sample_start" by (simp add: builder_start_def sample_start_def no_fork_def)
  have "list_all (\<lambda>n. n < 2 ^ 64 - 1) (map (cs_sequence_number \<circ> fst) (fst sample_built @ fst sample_built2))"
    unfolding sample_values(3) by simp
  then have "numbers_left (fst sample_built @ fst sample_built2)" by (simp add: numbers_left_def list.pred_map comp_def)
  from checkpoint_stream_ordered [OF sample_reads_ok sample_acyclic start sample_reaches this] show ?thesis
    unfolding sample_values(4) by blast
qed



text \<open>
  C23: a pending checkpoint is built, or the node stops. The roots were executed, the tables hold the effects of every signed
  transaction and the size and signatures of every executed one, and what comes before is known: a built checkpoint, the
  last of the epoch before, or nothing in epoch 0. Then \<^verbatim>\<open>make_checkpoint\<close> makes at least one checkpoint, and
  together they hold exactly the transactions still needed, each once; the checkpoints of the last pending checkpoint of an epoch hold one more
  transaction, at the end, and say that the epoch ends. Only for that one it may fail, when the transaction cannot be executed, and
  is tried again. It stops the node exactly when a checkpoint differs from a certified one with its number.
\<close>

theorem pending_checkpoint_built:
  assumes "reads_complete reads" and "\<forall>d \<in> set (pc_roots p). executed_effects reads d \<noteq> None" and "previous_checkpoint st \<noteq> None"
  shows "\<exists>txns r. distinct txns \<and>
    set txns = effects_transaction_digest ` {e. needed reads st {e. \<exists>d \<in> set (pc_roots p). executed_effects reads d = Some e} e} \<and>
    (case r of Inl err \<Rightarrow> pc_last_of_epoch p \<and> err = AdvanceEpochFailed | Inr new \<Rightarrow> built_from p txns new) \<and>
    make_checkpoint lib cfg reads h p st =
      (case r of Inl err \<Rightarrow> Some (Inl err)
       | Inr new \<Rightarrow> if agrees_with_certified st new
           then Some (Inr (new, process_pending_checkpoint h new (fold (store_checkpoint lib) new st))) else None)"
  by (rule make_checkpoint_total [OF assms])

theorem pending_checkpoint_built_witness:
  "\<exists>txns new. built_from (sample_pending 1 [3, 1]) txns new \<and>
     make_checkpoint sample_lib sample_cfg sample_reads 1 (sample_pending 1 [3, 1]) sample_start =
     (if agrees_with_certified sample_start new
      then Some (Inr (new, process_pending_checkpoint 1 new (fold (store_checkpoint sample_lib) new sample_start))) else None)"
proof -
  have h: "\<forall>d \<in> set (pc_roots (sample_pending 1 [3, 1])). executed_effects sample_reads d \<noteq> None"
    by (simp add: sample_pending_def sample_reads_def sample_executed_def)
  have prev: "previous_checkpoint sample_start \<noteq> None"
    by (simp add: previous_checkpoint_def last_built_checkpoint_summary_def bt_last_def sample_start_def)
  have last: "\<not> pc_last_of_epoch (sample_pending 1 [3, 1])" by (simp add: sample_pending_def)
  obtain txns r where "case r of Inl err \<Rightarrow> pc_last_of_epoch (sample_pending 1 [3, 1]) \<and> err = AdvanceEpochFailed
      | Inr new \<Rightarrow> built_from (sample_pending 1 [3, 1]) txns new"
    "make_checkpoint sample_lib sample_cfg sample_reads 1 (sample_pending 1 [3, 1]) sample_start =
      (case r of Inl err \<Rightarrow> Some (Inl err)
       | Inr new \<Rightarrow> if agrees_with_certified sample_start new
           then Some (Inr (new, process_pending_checkpoint 1 new (fold (store_checkpoint sample_lib) new sample_start))) else None)"
    using pending_checkpoint_built [OF sample_reads_complete h prev, of sample_lib sample_cfg 1] by (elim exE conjE)
  with last show ?thesis by (cases r) auto
qed

text \<open>
  The checkpoints made at the end of an epoch follow the previous ones and hold the transactions in order with one
  more at the very end, the one that ends the epoch; exactly the last of them carries the end-of-epoch data.
\<close>

theorem epoch_ends_once:
  assumes "create_checkpoints lib cfg reads es details st = Some (Inr new)" and "pc_last_of_epoch details"
  shows "\<exists>prev e. previous_checkpoint st = Some prev \<and> chained lib prev new \<and>
    checkpoint_txns new = map effects_transaction_digest es @ [effects_transaction_digest e] \<and> new \<noteq> [] \<and>
    cs_end_of_epoch_data (fst (last new)) \<noteq> None \<and> list_all (\<lambda>c. cs_end_of_epoch_data (fst c) = None) (butlast new)"
  by (rule create_checkpoints_last [OF assms])

definition sample_last :: pending_checkpoint where "sample_last = sample_pending 1 []\<lparr>pc_last_of_epoch := True\<rparr>"

definition sample_epoch_end where
  "sample_epoch_end = projr (the (create_checkpoints sample_lib sample_cfg sample_reads [reader_effects, writer_effects] sample_last sample_start))"

theorem epoch_ends_once_witness:
  "checkpoint_txns sample_epoch_end = [1, 2, 9] \<and> length sample_epoch_end = 2 \<and>
   cs_end_of_epoch_data (fst (last sample_epoch_end)) \<noteq> None"
proof -
  have "was_built (create_checkpoints sample_lib sample_cfg sample_reads [reader_effects, writer_effects] sample_last sample_start)" by code_simp
  from was_built [OF this] have run: "create_checkpoints sample_lib sample_cfg sample_reads [reader_effects, writer_effects] sample_last sample_start =
      Some (Inr sample_epoch_end)" by (simp add: sample_epoch_end_def)
  have "pc_last_of_epoch sample_last" by (simp add: sample_last_def)
  with epoch_ends_once [OF run] have "cs_end_of_epoch_data (fst (last sample_epoch_end)) \<noteq> None" by blast
  moreover have "checkpoint_txns sample_epoch_end = [1, 2, 9]" "length sample_epoch_end = 2" by code_simp+
  ultimately show ?thesis by simp
qed

end
