(* ===== verification/SuiCommittee.thy ===== *)
theory SuiCommittee
  imports Committee
begin

text \<open>
  The committee of an epoch (\<^verbatim>\<open>crates/sui-types/src/committee.rs\<close>): validators by name with voting rights that sum to
  \<open>TOTAL_VOTING_POWER\<close>. The expansion of a name to a public key is an argument (\<open>expand\<close>). Random choice of validators
  and the constructors for tests are left out. The quorum contract of consensus is interpreted on this committee too.
\<close>

type_synonym authority_name = nat

definition TOTAL_VOTING_POWER :: nat where "TOTAL_VOTING_POWER = 10000"

definition QUORUM_THRESHOLD :: nat where "QUORUM_THRESHOLD = 6667"

definition VALIDITY_THRESHOLD :: nat where "VALIDITY_THRESHOLD = 3334"

record sui_committee =
  sc_epoch :: nat
  voting_rights :: "(authority_name \<times> nat) list"
  expanded_keys :: "(authority_name, nat) btree_map"
  index_map :: "(authority_name, nat) btree_map"

section \<open>Operations\<close>

definition load_inner ::
  "(authority_name \<Rightarrow> nat option) \<Rightarrow> (authority_name \<times> nat) list \<Rightarrow>
     ((authority_name, nat) btree_map \<times> (authority_name, nat) btree_map) option" where
  "load_inner expand rights = do {
     keys \<leftarrow> map_opt (\<lambda>(a, _). expand a) rights;
     Some (fold (\<lambda>(a, k). bt_insert a k) (zip (map fst rights) keys) [],
           fold (\<lambda>(i, a). bt_insert a i) (zip [0..<length rights] (map fst rights)) [])
   }"

definition sui_committee_new ::
  "(authority_name \<Rightarrow> nat option) \<Rightarrow> nat \<Rightarrow> (authority_name, nat) btree_map \<Rightarrow> sui_committee option" where
  "sui_committee_new expand ep rights = do {
     rust_assert (rights \<noteq> []);
     rust_assert (list_ex (\<lambda>(_, s). s \<noteq> 0) rights);
     let rights = sort_key fst rights;
     rust_assert (sum64 (map snd rights) = TOTAL_VOTING_POWER);
     (keys, indices) \<leftarrow> load_inner expand rights;
     Some \<lparr>sc_epoch = ep, voting_rights = rights, expanded_keys = keys, index_map = indices\<rparr>
   }"

definition authority_index :: "sui_committee \<Rightarrow> authority_name \<Rightarrow> nat option" where
  "authority_index c a = map_option (\<lambda>i. i mod 2 ^ 32) (bt_get (index_map c) a)"

definition authority_by_index :: "sui_committee \<Rightarrow> nat \<Rightarrow> authority_name option" where
  "authority_by_index c i = (if i < length (voting_rights c) then Some (fst (voting_rights c ! i)) else None)"

definition sui_public_key :: "sui_committee \<Rightarrow> authority_name \<Rightarrow> nat option" where
  "sui_public_key c a = bt_get (expanded_keys c) a"

text \<open>The binary search of the standard library: the index of a match, or where to insert.\<close>

function binary_search_loop :: "(authority_name \<times> nat) list \<Rightarrow> authority_name \<Rightarrow> nat \<Rightarrow> nat \<Rightarrow> nat + nat" where
  "binary_search_loop xs a left right =
     (if left < right
      then let mid = left + (right - left) div 2; k = fst (xs ! mid) in
           if k = a then Inr mid
           else if k < a then binary_search_loop xs a (mid + 1) right
           else binary_search_loop xs a left mid
      else Inl left)"
  by auto
termination by (relation "measure (\<lambda>(_, _, left, right). right - left)") (auto simp: less_diff_conv)

declare binary_search_loop.simps [simp del]

definition binary_search_by_name :: "(authority_name \<times> nat) list \<Rightarrow> authority_name \<Rightarrow> nat + nat" where
  "binary_search_by_name xs a = binary_search_loop xs a 0 (length xs)"

definition sui_weight :: "sui_committee \<Rightarrow> authority_name \<Rightarrow> nat" where
  "sui_weight c a = (case binary_search_by_name (voting_rights c) a of Inl _ \<Rightarrow> 0 | Inr i \<Rightarrow> snd (voting_rights c ! i))"

definition authority_exists :: "sui_committee \<Rightarrow> authority_name \<Rightarrow> bool" where
  "authority_exists c a = (case binary_search_by_name (voting_rights c) a of Inl _ \<Rightarrow> False | Inr _ \<Rightarrow> True)"

definition sui_threshold :: "bool \<Rightarrow> nat" where
  "sui_threshold strength = (if strength then QUORUM_THRESHOLD else VALIDITY_THRESHOLD)"

section \<open>The binary search\<close>

lemma binary_search_loop_correct:
  assumes "keys_sorted xs" and "right \<le> length xs"
    and "\<forall>i < left. i < length xs \<longrightarrow> fst (xs ! i) < a" and "\<forall>i. right \<le> i \<longrightarrow> i < length xs \<longrightarrow> a < fst (xs ! i)"
  shows "case binary_search_loop xs a left right of
      Inr i \<Rightarrow> i < length xs \<and> fst (xs ! i) = a
    | Inl _ \<Rightarrow> a \<notin> fst ` set xs"
  using assms
proof (induction xs a left right rule: binary_search_loop.induct)
  case (1 xs a left right)
  let ?mid = "left + (right - left) div 2"
  have mono: "fst (xs ! i) < fst (xs ! j)" if "i < j" "j < length xs" for i j
    using "1.prems"(1) that by (auto simp: sorted_wrt_iff_nth_less)
  show ?case
  proof (cases "left < right")
    case False
    have "a \<noteq> fst (xs ! i)" if "i < length xs" for i
    proof (cases "i < left")
      case True
      with "1.prems"(3) that show ?thesis by (metis less_irrefl)
    next
      case right: False
      with False have "right \<le> i" by simp
      with "1.prems"(4) that show ?thesis by (metis less_irrefl)
    qed
    then have "a \<notin> fst ` set xs" by (metis imageE in_set_conv_nth)
    with False show ?thesis by (subst binary_search_loop.simps) simp
  next
    case True
    then have mid: "?mid < length xs" using "1.prems"(2) by auto
    consider "fst (xs ! ?mid) = a" | "fst (xs ! ?mid) < a" | "a < fst (xs ! ?mid)" by fastforce
    then show ?thesis
    proof cases
      case 1
      with True mid show ?thesis by (subst binary_search_loop.simps) simp
    next
      case 2
      then have "\<forall>i < ?mid + 1. i < length xs \<longrightarrow> fst (xs ! i) < a"
        using mono mid by (metis add.commute less_trans linorder_neqE_nat not_less_eq plus_1_eq_Suc)
      with 2 True mid "1.prems" "1.IH"(1) [OF True refl refl] show ?thesis
        by (subst binary_search_loop.simps) (simp add: Let_def)
    next
      case 3
      then have "\<forall>i. ?mid \<le> i \<longrightarrow> i < length xs \<longrightarrow> a < fst (xs ! i)"
        using mono by (metis le_neq_implies_less less_trans)
      moreover have ne: "fst (xs ! ?mid) \<noteq> a" "\<not> fst (xs ! ?mid) < a" using 3 by simp_all
      ultimately have "case binary_search_loop xs a left ?mid of Inr i \<Rightarrow> i < length xs \<and> fst (xs ! i) = a | Inl _ \<Rightarrow> a \<notin> fst ` set xs"
        using "1.IH"(2) [OF True refl refl] "1.prems" mid by simp
      with ne True show ?thesis by (subst binary_search_loop.simps) (simp add: Let_def)
    qed
  qed
qed

lemma binary_search_by_name:
  assumes "keys_sorted xs"
  shows "case binary_search_by_name xs a of
      Inr i \<Rightarrow> i < length xs \<and> fst (xs ! i) = a
    | Inl _ \<Rightarrow> a \<notin> fst ` set xs"
  unfolding binary_search_by_name_def by (rule binary_search_loop_correct) (use assms in auto)

section \<open>Committees\<close>

text \<open>What a committee is: names in order, rights that sum to the total, and maps that agree with them.\<close>

definition sui_committee_wf :: "sui_committee \<Rightarrow> bool" where
  "sui_committee_wf c \<longleftrightarrow>
     keys_sorted (voting_rights c) \<and> sum_list (map snd (voting_rights c)) = TOTAL_VOTING_POWER \<and>
     length (voting_rights c) < 2 ^ 32 \<and>
     bt_get (index_map c) = (\<lambda>a. case binary_search_by_name (voting_rights c) a of Inr i \<Rightarrow> Some i | Inl _ \<Rightarrow> None) \<and>
     dom (bt_get (expanded_keys c)) = fst ` set (voting_rights c)"

definition sui_members :: "sui_committee \<Rightarrow> authority_name set" where
  "sui_members c = fst ` set (voting_rights c)"

lemma sui_weight_get:
  assumes "keys_sorted (voting_rights c)"
  shows "sui_weight c a = (case bt_get (voting_rights c) a of Some w \<Rightarrow> w | None \<Rightarrow> 0)"
proof (cases "binary_search_by_name (voting_rights c) a")
  case (Inl i)
  with binary_search_by_name [OF assms, of a] show ?thesis
    by (auto simp: sui_weight_def bt_get_def split: option.splits dest!: map_of_SomeD intro: rev_image_eqI)
next
  case (Inr i)
  with binary_search_by_name [OF assms, of a] have i: "i < length (voting_rights c)" "fst (voting_rights c ! i) = a" by simp_all
  then have "(a, snd (voting_rights c ! i)) \<in> set (voting_rights c)" by (metis nth_mem prod.collapse)
  then have "bt_get (voting_rights c) a = Some (snd (voting_rights c ! i))" by (simp add: bt_get_in_set [OF assms])
  with Inr show ?thesis by (simp add: sui_weight_def)
qed

lemma sui_weight_total:
  assumes "sui_committee_wf c"
  shows "sum (sui_weight c) (sui_members c) = TOTAL_VOTING_POWER"
proof -
  have s: "keys_sorted (voting_rights c)" using assms by (simp add: sui_committee_wf_def)
  then have d: "distinct (map fst (voting_rights c))" by (rule keys_sorted_distinct)
  have w: "sui_weight c (fst x) = snd x" if "x \<in> set (voting_rights c)" for x
  proof -
    have "bt_get (voting_rights c) (fst x) = Some (snd x)" using that by (simp add: bt_get_in_set [OF s])
    then show ?thesis by (simp add: sui_weight_get [OF s])
  qed
  have "sum (sui_weight c) (sui_members c) = sum_list (map (sui_weight c) (map fst (voting_rights c)))"
    using sum.distinct_set_conv_list [OF d, of "sui_weight c"] by (simp add: sui_members_def)
  also have "map (sui_weight c) (map fst (voting_rights c)) = map snd (voting_rights c)" by (simp add: w)
  finally show ?thesis using assms by (simp add: sui_committee_wf_def)
qed

interpretation sui: quorum_system sui_committee_wf sui_members sui_weight "\<lambda>_. QUORUM_THRESHOLD" "\<lambda>_. VALIDITY_THRESHOLD"
  by unfold_locales
    (simp_all add: sui_members_def sui_weight_total [unfolded sui_members_def] TOTAL_VOTING_POWER_def QUORUM_THRESHOLD_def
      VALIDITY_THRESHOLD_def)

lemma sui_weight_outside: "sui_committee_wf c \<Longrightarrow> a \<notin> sui_members c \<Longrightarrow> sui_weight c a = 0"
  using binary_search_by_name [of "voting_rights c" a]
  by (auto simp: sui_committee_wf_def sui_weight_def sui_members_def split: sum.splits)

lemma sui_weight_sum_le:
  assumes "sui_committee_wf c" and "finite A"
  shows "sum (sui_weight c) A \<le> TOTAL_VOTING_POWER"
proof -
  have "sum (sui_weight c) A = sum (sui_weight c) (A \<inter> sui_members c)"
    by (rule sum.mono_neutral_right) (use assms sui_weight_outside in auto)
  also have "\<dots> \<le> sum (sui_weight c) (sui_members c)" by (rule sum_mono2) (auto simp: sui_members_def)
  finally show ?thesis by (simp only: sui_weight_total [OF assms(1)])
qed

text \<open>The constructor makes such committees.\<close>

lemma index_fold:
  assumes "distinct names"
  shows "bt_get (fold (\<lambda>(i, a). bt_insert a i) (zip [n..<n + length names] names) m) a =
    (case List.find (\<lambda>i. names ! i = a) [0..<length names] of Some i \<Rightarrow> Some (n + i) | None \<Rightarrow> bt_get m a)"
  using assms
proof (induction names arbitrary: n m)
  case (Cons x names)
  have up: "[n..<n + length (x # names)] = n # [Suc n..<Suc n + length names]" by (simp add: upt_conv_Cons del: upt_Suc)
  have shift: "List.find (\<lambda>i. (x # names) ! i = a) [0..<length (x # names)] =
      (if x = a then Some 0 else map_option Suc (List.find (\<lambda>i. names ! i = a) [0..<length names]))"
  proof -
    have "[0..<length (x # names)] = 0 # map Suc [0..<length names]" by (simp add: upt_conv_Cons map_Suc_upt del: upt_Suc)
    moreover have "List.find (\<lambda>i. (x # names) ! i = a) (map Suc js) = map_option Suc (List.find (\<lambda>i. names ! i = a) js)" for js
      by (induction js) auto
    ultimately show ?thesis by simp
  qed
  have none: "List.find (\<lambda>i. names ! i = a) [0..<length names] = None" if "x = a"
    using Cons.prems that by (auto simp: find_None_iff in_set_conv_nth)
  show ?case
    unfolding up shift using Cons.prems none Cons.IH [of "Suc n" "bt_insert x n m"]
    by (auto simp: bt_get_insert split: option.splits)
qed simp

lemma find_binary_search:
  assumes "keys_sorted xs"
  shows "List.find (\<lambda>i. map fst xs ! i = a) [0..<length xs] = (case binary_search_by_name xs a of Inr i \<Rightarrow> Some i | Inl _ \<Rightarrow> None)"
proof (cases "binary_search_by_name xs a")
  case (Inl k)
  with binary_search_by_name [OF assms, of a] show ?thesis by (auto simp: find_None_iff)
next
  case (Inr k)
  with binary_search_by_name [OF assms, of a] have k: "k < length xs" "map fst xs ! k = a" by simp_all
  have "List.find (\<lambda>i. map fst xs ! i = a) [0..<length xs] \<noteq> None" using k by (auto simp: find_None_iff)
  then obtain i where i: "List.find (\<lambda>i. map fst xs ! i = a) [0..<length xs] = Some i" by blast
  then have "i < length xs" "map fst xs ! i = a" by (auto simp: find_Some_iff)
  with k keys_sorted_distinct [OF assms] have "i = k" by (metis distinct_conv_nth length_map)
  with i Inr show ?thesis by simp
qed

lemma keys_fold_insert: "fst ` set (fold (\<lambda>(a, k). bt_insert a k) kvs m) = fst ` set kvs \<union> fst ` set m"
  by (induction kvs arbitrary: m) (auto simp: case_prod_beta')

lemma sui_committee_new_wf:
  assumes new: "sui_committee_new expand ep rights = Some c" and sorted: "keys_sorted rights"
    and small: "length rights < 2 ^ 32" "sum_list (map snd rights) < 2 ^ 64"
  shows "sui_committee_wf c" "voting_rights c = rights" "sc_epoch c = ep"
proof -
  have "sorted (map fst rights)" using sorted by (simp add: strict_sorted_iff)
  then have same: "sort_key fst rights = rights" by (rule sort_key_id_if_sorted)
  obtain keys where c: "map_opt (\<lambda>(a, _). expand a) rights = Some keys" "sum64 (map snd rights) = TOTAL_VOTING_POWER"
    "c = \<lparr>sc_epoch = ep, voting_rights = rights, expanded_keys = fold (\<lambda>(a, k). bt_insert a k) (zip (map fst rights) keys) [],
       index_map = fold (\<lambda>(i, a). bt_insert a i) (zip [0..<length rights] (map fst rights)) []\<rparr>"
    using new unfolding sui_committee_new_def load_inner_def same by (auto simp: option_simps Let_def)
  have len: "length keys = length rights" using c(1) by (auto simp: map_opt_Some_iff)
  show "voting_rights c = rights" "sc_epoch c = ep" by (simp_all add: c(3))
  have ix: "bt_get (index_map c) = (\<lambda>a. case binary_search_by_name rights a of Inr i \<Rightarrow> Some i | Inl _ \<Rightarrow> None)"
  proof
    fix a
    show "bt_get (index_map c) a = (case binary_search_by_name rights a of Inr i \<Rightarrow> Some i | Inl _ \<Rightarrow> None)"
      using index_fold [OF keys_sorted_distinct [OF sorted], of 0 "[]" a] find_binary_search [OF sorted, of a]
      by (simp add: c(3) bt_get_def split: option.splits sum.splits)
  qed
  have "dom (bt_get (expanded_keys c)) = fst ` set (expanded_keys c)" unfolding bt_get_def by (rule dom_map_of_conv_image_fst)
  also have "\<dots> = fst ` set (zip (map fst rights) keys)" by (simp add: c(3) keys_fold_insert)
  also have "\<dots> = set (map fst (zip (map fst rights) keys))" by (rule set_map [symmetric])
  also have "map fst (zip (map fst rights) keys) = map fst rights" using len by (intro map_fst_zip) simp
  finally have "dom (bt_get (expanded_keys c)) = fst ` set rights" by simp
  then show "sui_committee_wf c"
    using sorted small c(2) ix by (simp add: sui_committee_wf_def c(3) sum64_def)
qed

text \<open>The index of a member, and back.\<close>

lemma authority_index_iff:
  assumes "sui_committee_wf c"
  shows "authority_index c a = Some i \<longleftrightarrow> i < length (voting_rights c) \<and> fst (voting_rights c ! i) = a"
proof -
  have s: "keys_sorted (voting_rights c)" and len: "length (voting_rights c) < 2 ^ 32"
    and ix: "bt_get (index_map c) = (\<lambda>a. case binary_search_by_name (voting_rights c) a of Inr i \<Rightarrow> Some i | Inl _ \<Rightarrow> None)"
    using assms by (simp_all add: sui_committee_wf_def)
  have inj: "i = j" if "i < length (voting_rights c)" "j < length (voting_rights c)" "fst (voting_rights c ! i) = fst (voting_rights c ! j)" for i j
    using keys_sorted_distinct [OF s] that by (metis (no_types, lifting) distinct_conv_nth length_map nth_map)
  show ?thesis
  proof (cases "binary_search_by_name (voting_rights c) a")
    case (Inl k)
    with binary_search_by_name [OF s, of a] show ?thesis
      by (auto simp: authority_index_def ix)
  next
    case (Inr k)
    with binary_search_by_name [OF s, of a] have "k < length (voting_rights c)" "fst (voting_rights c ! k) = a" by simp_all
    with inj len Inr show ?thesis by (auto simp: authority_index_def ix)
  qed
qed

lemma authority_index_None: "sui_committee_wf c \<Longrightarrow> authority_index c a = None \<longleftrightarrow> a \<notin> sui_members c"
proof -
  assume wf: "sui_committee_wf c"
  have "a \<in> sui_members c \<longleftrightarrow> (\<exists>i < length (voting_rights c). fst (voting_rights c ! i) = a)"
    unfolding sui_members_def by (metis (no_types, lifting) imageE imageI in_set_conv_nth)
  also have "\<dots> \<longleftrightarrow> (\<exists>i. authority_index c a = Some i)" by (simp only: authority_index_iff [OF wf])
  finally show ?thesis by (metis not_None_eq)
qed

lemma authority_by_index_index: "sui_committee_wf c \<Longrightarrow> authority_index c a = Some i \<Longrightarrow> authority_by_index c i = Some a"
  by (simp add: authority_index_iff authority_by_index_def)

lemma authority_index_mono:
  assumes "sui_committee_wf c" and "authority_index c a = Some i" and "authority_index c b = Some j" and "a < b"
  shows "i < j"
proof (rule ccontr)
  assume "\<not> i < j"
  moreover have "i \<noteq> j" using assms by (auto simp: authority_index_iff)
  ultimately have "j < i" by simp
  moreover have "keys_sorted (voting_rights c)" using assms(1) by (simp add: sui_committee_wf_def)
  ultimately have "b < a" using assms(2,3) by (auto simp: authority_index_iff [OF assms(1)] sorted_wrt_iff_nth_less)
  with assms(4) show False by simp
qed

lemma authority_index_by_index: "sui_committee_wf c \<Longrightarrow> authority_index c a = Some i \<longleftrightarrow> authority_by_index c i = Some a"
  by (auto simp: authority_index_iff authority_by_index_def)

lemma authority_exists_key:
  assumes "sui_committee_wf c"
  shows "authority_exists c a \<longleftrightarrow> sui_public_key c a \<noteq> None"
proof -
  have wf: "keys_sorted (voting_rights c)" "dom (bt_get (expanded_keys c)) = fst ` set (voting_rights c)"
    using assms by (simp_all add: sui_committee_wf_def)
  have "authority_exists c a \<longleftrightarrow> a \<in> fst ` set (voting_rights c)"
    using binary_search_by_name [OF wf(1), of a] by (auto simp: authority_exists_def split: sum.splits)
  also have "\<dots> \<longleftrightarrow> sui_public_key c a \<noteq> None" unfolding wf(2) [symmetric] by (simp add: dom_def sui_public_key_def)
  finally show ?thesis .
qed

end
