(* ===== verification/QuorumSignatures.thy ===== *)
theory QuorumSignatures
  imports SuiCommittee
begin

text \<open>
  Signatures of authorities, quorum certificates and their verification (\<^verbatim>\<open>crates/sui-types/src/crypto.rs\<close>), and the
  aggregators that collect signatures until a quorum is reached (\<^verbatim>\<open>crates/sui-core/src/stake_aggregator.rs\<close>).

  The signature scheme is an argument (\<open>sig_lib\<close>): the bytes that are signed for a message with its intent and epoch, and
  the aggregation and batch verification of the scheme. A \<^verbatim>\<open>HashMap\<close> is ordered by key. Texts of errors are left out.
\<close>

section \<open>Results\<close>

datatype sui_error =
    StakeAggregatorRepeatedSigner authority_name bool
  | InvalidAuthenticator
  | SuiWrongEpoch nat nat
  | InvalidSignature
  | UnknownSigner "authority_name option" "nat option"
  | CertificateRequiresQuorum
  | InvalidCommittee authority_name
  | InvalidAddress

definition try_then :: "'e + 'a \<Rightarrow> ('a \<Rightarrow> 'e + 'b) \<Rightarrow> 'e + 'b" where
  "try_then r f = (case r of Inl e \<Rightarrow> Inl e | Inr x \<Rightarrow> f x)"

definition ensure :: "bool \<Rightarrow> 'e \<Rightarrow> 'e + unit" where
  "ensure b e = (if b then Inr () else Inl e)"

definition ok_or :: "'a option \<Rightarrow> 'e \<Rightarrow> 'e + 'a" where
  "ok_or x e = (case x of Some y \<Rightarrow> Inr y | None \<Rightarrow> Inl e)"

lemma try_then_Inr [simp]: "try_then r f = Inr y \<longleftrightarrow> (\<exists>x. r = Inr x \<and> f x = Inr y)"
  by (auto simp: try_then_def split: sum.splits)

lemma try_then_simps [simp]: "try_then (Inr x) f = f x" "try_then (Inl e) f = Inl e"
  by (simp_all add: try_then_def)

lemma ensure_Inr [simp]: "ensure b e = Inr u \<longleftrightarrow> b" "ensure True e = Inr ()" "ensure False e = Inl e"
  by (auto simp: ensure_def)

lemma ok_or_Inr [simp]: "ok_or x e = Inr y \<longleftrightarrow> x = Some y" "ok_or (Some z) e = Inr z" "ok_or None e = Inl e"
  by (auto simp: ok_or_def split: option.splits)

section \<open>Signatures and certificates\<close>

record 's sign_info =
  si_epoch :: nat
  si_authority :: authority_name
  si_signature :: 's

record 'a quorum_sign_info =
  qs_epoch :: nat
  qs_signature :: 'a
  signers_map :: "nat list"

record ('m, 's, 'a) sig_lib =
  message_bytes :: "'m \<Rightarrow> nat \<Rightarrow> bytes"
  aggregate_default :: 'a
  aggregate_sigs :: "'s list \<Rightarrow> 'a option"
  aggregate_add :: "'a \<Rightarrow> 's \<Rightarrow> 'a option"
  aggregate_merge :: "'a \<Rightarrow> 'a \<Rightarrow> 'a option"
  batch_verify :: "'a list \<Rightarrow> nat list list \<Rightarrow> bytes list \<Rightarrow> bool"

record 'a obligation =
  ob_messages :: "bytes list"
  ob_signatures :: "'a list"
  ob_public_keys :: "nat list list"

definition obligation_empty :: "'a obligation" where
  "obligation_empty = \<lparr>ob_messages = [], ob_signatures = [], ob_public_keys = []\<rparr>"

definition add_message :: "('m, 's, 'a) sig_lib \<Rightarrow> 'm \<Rightarrow> nat \<Rightarrow> 'a obligation \<Rightarrow> nat \<times> 'a obligation" where
  "add_message lib msg ep ob =
     (let ob = ob\<lparr>ob_signatures := ob_signatures ob @ [aggregate_default lib],
                  ob_public_keys := ob_public_keys ob @ [[]],
                  ob_messages := ob_messages ob @ [message_bytes lib msg ep]\<rparr>
      in (length (ob_messages ob) - 1, ob))"

definition verify_all :: "('m, 's, 'a) sig_lib \<Rightarrow> 'a obligation \<Rightarrow> sui_error + unit" where
  "verify_all lib ob = ensure (batch_verify lib (ob_signatures ob) (ob_public_keys ob) (ob_messages ob)) InvalidSignature"

text \<open>The signature of one authority.\<close>

definition add_sign_info_to_obligation ::
  "('m, 's, 'a) sig_lib \<Rightarrow> 's sign_info \<Rightarrow> sui_committee \<Rightarrow> 'a obligation \<Rightarrow> nat \<Rightarrow> sui_error + 'a obligation" where
  "add_sign_info_to_obligation lib si c ob idx =
     try_then (ensure (si_epoch si = sc_epoch c) (SuiWrongEpoch (sc_epoch c) (si_epoch si))) (\<lambda>_.
     try_then (ensure (0 < sui_weight c (si_authority si)) (UnknownSigner (Some (si_authority si)) None)) (\<lambda>_.
     try_then (ok_or (index (ob_public_keys ob) idx) InvalidAddress) (\<lambda>pks.
     try_then (ok_or (sui_public_key c (si_authority si)) (InvalidCommittee (si_authority si))) (\<lambda>pk.
     try_then (ok_or (index (ob_signatures ob) idx) InvalidAddress) (\<lambda>agg.
     try_then (ok_or (aggregate_add lib agg (si_signature si)) InvalidSignature) (\<lambda>agg.
       Inr (ob\<lparr>ob_public_keys := (ob_public_keys ob)[idx := pks @ [pk]], ob_signatures := (ob_signatures ob)[idx := agg]\<rparr>)))))))"

definition sign_info_verify_secure ::
  "('m, 's, 'a) sig_lib \<Rightarrow> 's sign_info \<Rightarrow> 'm \<Rightarrow> sui_committee \<Rightarrow> sui_error + unit" where
  "sign_info_verify_secure lib si msg c =
     (case add_message lib msg (si_epoch si) obligation_empty of
        (idx, ob) \<Rightarrow> try_then (add_sign_info_to_obligation lib si c ob idx) (verify_all lib))"

text \<open>The certificate: the keys of its signers and their weight.\<close>

fun signers_loop :: "sui_committee \<Rightarrow> nat list \<Rightarrow> nat \<Rightarrow> nat list \<Rightarrow> sui_error + (nat \<times> nat list)" where
  "signers_loop c [] w pks = Inr (w, pks)"
| "signers_loop c (i # is) w pks =
     try_then (ok_or (authority_by_index c i) (UnknownSigner None (Some i))) (\<lambda>a.
     try_then (ensure (0 < sui_weight c a) (UnknownSigner (Some a) (Some i))) (\<lambda>_.
     try_then (ok_or (sui_public_key c a) (InvalidCommittee a)) (\<lambda>pk.
       signers_loop c is (add64 w (sui_weight c a)) (pks @ [pk]))))"

definition add_quorum_to_obligation ::
  "('m, 's, 'a) sig_lib \<Rightarrow> bool \<Rightarrow> 'a quorum_sign_info \<Rightarrow> sui_committee \<Rightarrow> 'a obligation \<Rightarrow> nat \<Rightarrow> sui_error + 'a obligation" where
  "add_quorum_to_obligation lib strong q c ob idx =
     try_then (ensure (qs_epoch q = sc_epoch c) (SuiWrongEpoch (sc_epoch c) (qs_epoch q))) (\<lambda>_.
     try_then (ok_or (index (ob_signatures ob) idx) InvalidAuthenticator) (\<lambda>agg.
     try_then (ok_or (aggregate_merge lib agg (qs_signature q)) InvalidSignature) (\<lambda>agg.
     try_then (ok_or (index (ob_public_keys ob) idx) InvalidAuthenticator) (\<lambda>pks.
     try_then (signers_loop c (signers_map q) 0 pks) (\<lambda>(w, pks).
     try_then (ensure (sui_threshold strong \<le> w) CertificateRequiresQuorum) (\<lambda>_.
       Inr (ob\<lparr>ob_public_keys := (ob_public_keys ob)[idx := pks], ob_signatures := (ob_signatures ob)[idx := agg]\<rparr>)))))))"

definition quorum_verify_secure ::
  "('m, 's, 'a) sig_lib \<Rightarrow> bool \<Rightarrow> 'a quorum_sign_info \<Rightarrow> 'm \<Rightarrow> sui_committee \<Rightarrow> sui_error + unit" where
  "quorum_verify_secure lib strong q msg c =
     (case add_message lib msg (qs_epoch q) obligation_empty of
        (idx, ob) \<Rightarrow> try_then (add_quorum_to_obligation lib strong q c ob idx) (verify_all lib))"

fun signers_of :: "sui_committee \<Rightarrow> authority_name list \<Rightarrow> nat list \<Rightarrow> sui_error + nat list" where
  "signers_of c [] m = Inr m"
| "signers_of c (a # as) m =
     try_then (ok_or (authority_index c a) (UnknownSigner (Some a) None)) (\<lambda>i. signers_of c as (bs_insert i m))"

definition new_from_auth_sign_infos ::
  "('m, 's, 'a) sig_lib \<Rightarrow> bool \<Rightarrow> 's sign_info list \<Rightarrow> sui_committee \<Rightarrow> sui_error + 'a quorum_sign_info" where
  "new_from_auth_sign_infos lib strong infos c =
     try_then (ensure (list_all (\<lambda>a. si_epoch a = sc_epoch c) infos) InvalidSignature) (\<lambda>_.
     try_then (ensure (sui_threshold strong \<le> sum64 (map (\<lambda>a. sui_weight c (si_authority a)) infos)) InvalidSignature) (\<lambda>_.
     let signatures = fold (\<lambda>a. bt_insert (si_authority a) (si_signature a)) infos [] in
     try_then (signers_of c (map fst signatures) []) (\<lambda>m.
     try_then (ok_or (aggregate_sigs lib (map snd signatures)) InvalidSignature) (\<lambda>agg.
       Inr \<lparr>qs_epoch = sc_epoch c, qs_signature = agg, signers_map = m\<rparr>))))"

section \<open>Aggregators\<close>

record 's sui_stake_aggregator =
  sa_data :: "(authority_name, 's) btree_map"
  sa_total_votes :: nat
  sa_committee :: sui_committee

datatype 'c insert_result = QuorumReached 'c | InsertFailed sui_error | NotEnoughVotes nat "authority_name list"

definition sa_new :: "sui_committee \<Rightarrow> 's sui_stake_aggregator" where
  "sa_new c = \<lparr>sa_data = [], sa_total_votes = 0, sa_committee = c\<rparr>"

definition insert_generic ::
  "authority_name \<Rightarrow> 's \<Rightarrow> bool \<Rightarrow> 's sui_stake_aggregator \<Rightarrow> (authority_name, 's) btree_map insert_result \<times> 's sui_stake_aggregator" where
  "insert_generic a s strong agg =
     (case bt_get (sa_data agg) a of
        Some old \<Rightarrow> (InsertFailed (StakeAggregatorRepeatedSigner a (old \<noteq> s)), agg)
      | None \<Rightarrow>
          let agg = agg\<lparr>sa_data := bt_insert a s (sa_data agg)\<rparr>;
              votes = sui_weight (sa_committee agg) a
          in if 0 < votes
             then let agg = agg\<lparr>sa_total_votes := add64 (sa_total_votes agg) votes\<rparr>
                  in if sui_threshold strong \<le> sa_total_votes agg then (QuorumReached (sa_data agg), agg) else (NotEnoughVotes 0 [], agg)
             else (InsertFailed InvalidAuthenticator, agg))"

definition sa_from_iter :: "bool \<Rightarrow> sui_committee \<Rightarrow> (authority_name \<times> 's) list \<Rightarrow> 's sui_stake_aggregator" where
  "sa_from_iter strong c xs = fold (\<lambda>(a, s) agg. snd (insert_generic a s strong agg)) xs (sa_new c)"

definition sa_contains_key :: "'s sui_stake_aggregator \<Rightarrow> authority_name \<Rightarrow> bool" where
  "sa_contains_key agg a \<longleftrightarrow> bt_get (sa_data agg) a \<noteq> None"

definition sa_has_quorum :: "bool \<Rightarrow> 's sui_stake_aggregator \<Rightarrow> bool" where
  "sa_has_quorum strong agg \<longleftrightarrow> sui_threshold strong \<le> sa_total_votes agg"

text \<open>The entries whose signature fails are removed, with their votes.\<close>

fun drop_bad ::
  "('m, 's, 'a) sig_lib \<Rightarrow> 'm \<Rightarrow> (authority_name \<times> 's sign_info) list \<Rightarrow> 's sign_info sui_stake_aggregator \<Rightarrow> nat \<Rightarrow> authority_name list \<Rightarrow>
     's sign_info sui_stake_aggregator \<times> nat \<times> authority_name list" where
  "drop_bad lib msg [] agg bad_votes bad = (agg, bad_votes, bad)"
| "drop_bad lib msg ((a, si) # rest) agg bad_votes bad =
     (case sign_info_verify_secure lib si msg (sa_committee agg) of
        Inr _ \<Rightarrow> drop_bad lib msg rest agg bad_votes bad
      | Inl _ \<Rightarrow>
          let votes = sui_weight (sa_committee agg) a in
          drop_bad lib msg rest
            (agg\<lparr>sa_data := bt_remove a (sa_data agg), sa_total_votes := sub64 (sa_total_votes agg) votes\<rparr>)
            (add64 bad_votes votes) (bad @ [a]))"

definition sa_insert ::
  "('m, 's, 'a) sig_lib \<Rightarrow> bool \<Rightarrow> 'm \<Rightarrow> 's sign_info \<Rightarrow> 's sign_info sui_stake_aggregator \<Rightarrow>
     'a quorum_sign_info insert_result \<times> 's sign_info sui_stake_aggregator" where
  "sa_insert lib strong msg si agg =
     (if sc_epoch (sa_committee agg) \<noteq> si_epoch si
      then (InsertFailed (SuiWrongEpoch (sc_epoch (sa_committee agg)) (si_epoch si)), agg)
      else case insert_generic (si_authority si) si strong agg of
          (QuorumReached _, agg) \<Rightarrow>
            (case new_from_auth_sign_infos lib strong (map snd (sa_data agg)) (sa_committee agg) of
               Inl e \<Rightarrow> (InsertFailed e, agg)
             | Inr q \<Rightarrow>
                 (case quorum_verify_secure lib strong q msg (sa_committee agg) of
                    Inr _ \<Rightarrow> (QuorumReached q, agg)
                  | Inl _ \<Rightarrow>
                      (case drop_bad lib msg (sa_data agg) agg 0 [] of
                         (agg, bad_votes, bad) \<Rightarrow> (NotEnoughVotes bad_votes bad, agg))))
        | (InsertFailed e, agg) \<Rightarrow> (InsertFailed e, agg)
        | (NotEnoughVotes bad_votes bad, agg) \<Rightarrow> (NotEnoughVotes bad_votes bad, agg))"

text \<open>An aggregator for each value.\<close>

record ('k, 'm, 's) multi_stake_aggregator =
  ms_committee :: sui_committee
  ms_stake_maps :: "('k, 'm \<times> 's sign_info sui_stake_aggregator) btree_map"

definition ms_new :: "sui_committee \<Rightarrow> ('k, 'm, 's) multi_stake_aggregator" where
  "ms_new c = \<lparr>ms_committee = c, ms_stake_maps = []\<rparr>"

definition ms_insert ::
  "('m, 's, 'a) sig_lib \<Rightarrow> bool \<Rightarrow> 'k::linorder \<Rightarrow> 'm \<Rightarrow> 's sign_info \<Rightarrow> ('k, 'm, 's) multi_stake_aggregator \<Rightarrow>
     'a quorum_sign_info insert_result \<times> ('k, 'm, 's) multi_stake_aggregator" where
  "ms_insert lib strong k msg si ms =
     (case bt_get (ms_stake_maps ms) k of
        Some (v, agg) \<Rightarrow>
          (case sa_insert lib strong msg si agg of
             (r, agg) \<Rightarrow> (r, ms\<lparr>ms_stake_maps := bt_insert k (v, agg) (ms_stake_maps ms)\<rparr>))
      | None \<Rightarrow>
          (case sa_insert lib strong msg si (sa_new (ms_committee ms)) of
             (InsertFailed e, _) \<Rightarrow> (InsertFailed e, ms)
           | (r, agg) \<Rightarrow> (r, ms\<lparr>ms_stake_maps := bt_insert k (msg, agg) (ms_stake_maps ms)\<rparr>)))"

definition ms_total_votes :: "('k, 'm, 's) multi_stake_aggregator \<Rightarrow> nat" where
  "ms_total_votes ms = sum64 (map (\<lambda>(_, _, agg). sa_total_votes agg) (ms_stake_maps ms))"

definition ms_unique_key_count :: "('k, 'm, 's) multi_stake_aggregator \<Rightarrow> nat" where
  "ms_unique_key_count ms = length (ms_stake_maps ms)"

definition get_all_unique_values :: "('k, 'm, 's) multi_stake_aggregator \<Rightarrow> ('k, authority_name list \<times> nat) btree_map" where
  "get_all_unique_values ms = map (\<lambda>(k, _, agg). (k, map fst (sa_data agg), sa_total_votes agg)) (ms_stake_maps ms)"

definition uncommitted_stake :: "('k, 'm, 's) multi_stake_aggregator \<Rightarrow> nat" where
  "uncommitted_stake ms = sub64 TOTAL_VOTING_POWER (ms_total_votes ms)"

definition plurality_stake :: "('k, 'm, 's) multi_stake_aggregator \<Rightarrow> nat" where
  "plurality_stake ms = fold max (map (\<lambda>(_, _, agg). sa_total_votes agg) (ms_stake_maps ms)) 0"

definition quorum_unreachable :: "bool \<Rightarrow> ('k, 'm, 's) multi_stake_aggregator \<Rightarrow> bool" where
  "quorum_unreachable strong ms \<longleftrightarrow> add64 (uncommitted_stake ms) (plurality_stake ms) < sui_threshold strong"

text \<open>Votes without signatures, where an authority may vote for several values.\<close>

record 'k generic_multi_stake_aggregator =
  gm_committee :: sui_committee
  gm_stake_maps :: "('k, unit sui_stake_aggregator) btree_map"
  votes_per_authority :: "(authority_name, nat) btree_map"

definition gm_new :: "sui_committee \<Rightarrow> 'k generic_multi_stake_aggregator" where
  "gm_new c = \<lparr>gm_committee = c, gm_stake_maps = [], votes_per_authority = []\<rparr>"

definition gm_insert ::
  "bool \<Rightarrow> authority_name \<Rightarrow> 'k::linorder \<Rightarrow> 'k generic_multi_stake_aggregator \<Rightarrow>
     (authority_name, unit) btree_map insert_result \<times> 'k generic_multi_stake_aggregator" where
  "gm_insert strong a k gm =
     (let agg = (case bt_get (gm_stake_maps gm) k of Some agg \<Rightarrow> agg | None \<Rightarrow> sa_new (gm_committee gm));
          gm = (if sa_contains_key agg a then gm
                else gm\<lparr>votes_per_authority := bt_insert a
                  (add64 (case bt_get (votes_per_authority gm) a of Some n \<Rightarrow> n | None \<Rightarrow> 0) 1) (votes_per_authority gm)\<rparr>)
      in case insert_generic a () strong agg of
           (r, agg) \<Rightarrow> (r, gm\<lparr>gm_stake_maps := bt_insert k agg (gm_stake_maps gm)\<rparr>))"

definition has_quorum_for_key :: "bool \<Rightarrow> 'k generic_multi_stake_aggregator \<Rightarrow> 'k \<Rightarrow> bool" where
  "has_quorum_for_key strong gm k = (case bt_get (gm_stake_maps gm) k of Some agg \<Rightarrow> sa_has_quorum strong agg | None \<Rightarrow> False)"

definition votes_for_authority :: "'k generic_multi_stake_aggregator \<Rightarrow> authority_name \<Rightarrow> nat" where
  "votes_for_authority gm a = (case bt_get (votes_per_authority gm) a of Some n \<Rightarrow> n | None \<Rightarrow> 0)"

end
