(* ===== verification/QuorumCorrect.thy ===== *)
theory QuorumCorrect
  imports QuorumSignatures
begin

text \<open>
  What the aggregators keep and what a certificate means: the votes are the stake of the kept signers, a certificate is
  signed by members that hold a quorum, two certificates share an honest signer, and valid signatures of a quorum give a
  certificate.
\<close>

section \<open>Votes\<close>

definition votes_ok :: "'s sui_stake_aggregator \<Rightarrow> bool" where
  "votes_ok agg \<longleftrightarrow>
     sui_committee_wf (sa_committee agg) \<and> keys_sorted (sa_data agg) \<and>
     sa_total_votes agg = sum (sui_weight (sa_committee agg)) (fst ` set (sa_data agg))"

definition infos_ok :: "'s sign_info sui_stake_aggregator \<Rightarrow> bool" where
  "infos_ok agg \<longleftrightarrow> (\<forall>(a, si) \<in> set (sa_data agg). si_authority si = a \<and> si_epoch si = sc_epoch (sa_committee agg))"

lemma votes_ok_new: "sui_committee_wf c \<Longrightarrow> votes_ok (sa_new c)"
  by (simp add: votes_ok_def sa_new_def)

lemma infos_ok_new: "infos_ok (sa_new c)"
  by (simp add: infos_ok_def sa_new_def)

lemma votes_small: "votes_ok agg \<Longrightarrow> sa_total_votes agg \<le> 10000"
  using sui_weight_sum_le [of "sa_committee agg" "fst ` set (sa_data agg)"] by (simp add: votes_ok_def TOTAL_VOTING_POWER_def)

lemma sum_weight_insert:
  assumes "sui_committee_wf c" and "finite A" and "a \<notin> A"
  shows "add64 (sum (sui_weight c) A) (sui_weight c a) = sum (sui_weight c) (insert a A)"
proof -
  have "sum (sui_weight c) (insert a A) \<le> 10000" using sui_weight_sum_le [OF assms(1), of "insert a A"] assms(2) by (simp add: TOTAL_VOTING_POWER_def)
  with assms(2,3) show ?thesis by (simp add: add64_def)
qed

lemma insert_generic_kept:
  assumes "insert_generic a s strong agg = (r, agg')"
  shows "sa_committee agg' = sa_committee agg"
    "sa_data agg' = (if bt_get (sa_data agg) a = None then bt_insert a s (sa_data agg) else sa_data agg)"
  using assms by (auto simp: insert_generic_def Let_def split: option.splits if_splits)

lemma insert_generic_votes:
  assumes "votes_ok agg" and "insert_generic a s strong agg = (r, agg')"
  shows "votes_ok agg'"
proof (cases "bt_get (sa_data agg) a")
  case None
  let ?c = "sa_committee agg"
  have ok: "sui_committee_wf ?c" "keys_sorted (sa_data agg)" "sa_total_votes agg = sum (sui_weight ?c) (fst ` set (sa_data agg))"
    using assms(1) by (simp_all add: votes_ok_def)
  have fresh: "a \<notin> fst ` set (sa_data agg)" using None by (simp add: bt_get_def map_of_eq_None_iff)
  then have sum: "add64 (sa_total_votes agg) (sui_weight ?c a) = sum (sui_weight ?c) (insert a (fst ` set (sa_data agg)))"
    unfolding ok(3) by (intro sum_weight_insert [OF ok(1)]) auto
  then show ?thesis
    using assms(2) None ok fresh
    by (auto simp: insert_generic_def Let_def votes_ok_def split: if_splits)
qed (use assms in \<open>auto simp: insert_generic_def\<close>)

lemma insert_generic_infos:
  assumes "infos_ok agg" and "insert_generic (si_authority si) si strong agg = (r, agg')" and "si_epoch si = sc_epoch (sa_committee agg)"
  shows "infos_ok agg'"
proof -
  have "set (bt_insert k v m) \<subseteq> insert (k, v) (set m)" for k v and m :: "(authority_name \<times> 's sign_info) list"
    by (induction m) auto
  with assms(1,3) insert_generic_kept [OF assms(2)] show ?thesis by (fastforce simp: infos_ok_def split: if_splits)
qed

text \<open>Dropping bad signatures keeps exactly the entries that verify.\<close>

lemma drop_bad_votes:
  assumes "drop_bad lib msg xs agg n bad = (agg', n', bad')" and "votes_ok agg" and "infos_ok agg"
    and "set xs \<subseteq> set (sa_data agg)" and "distinct (map fst xs)"
  shows "votes_ok agg' \<and> infos_ok agg' \<and> sa_committee agg' = sa_committee agg \<and>
    sa_data agg' = filter (\<lambda>e. e \<in> set xs \<longrightarrow> isl (sign_info_verify_secure lib (snd e) msg (sa_committee agg)) = False) (sa_data agg)"
  using assms
proof (induction lib msg xs agg n bad rule: drop_bad.induct)
  case (2 lib msg a si rest agg n bad)
  let ?c = "sa_committee agg" let ?v = "\<lambda>e. isl (sign_info_verify_secure lib (snd e) msg ?c)"
  have ok: "sui_committee_wf ?c" "keys_sorted (sa_data agg)" "sa_total_votes agg = sum (sui_weight ?c) (fst ` set (sa_data agg))"
    using "2.prems"(2) by (simp_all add: votes_ok_def)
  have "a \<notin> fst ` set rest" "distinct (map fst rest)" using "2.prems"(5) by simp_all
  show ?case
  proof (cases "sign_info_verify_secure lib si msg ?c")
    case (Inr u)
    with "2.prems" have "votes_ok agg' \<and> infos_ok agg' \<and> sa_committee agg' = ?c \<and> sa_data agg' = filter (\<lambda>e. e \<in> set rest \<longrightarrow> ?v e = False) (sa_data agg)"
      by (intro "2.IH"(2) [OF Inr]) auto
    moreover have "filter (\<lambda>e. e \<in> set rest \<longrightarrow> ?v e = False) (sa_data agg) = filter (\<lambda>e. e \<in> set ((a, si) # rest) \<longrightarrow> ?v e = False) (sa_data agg)"
      by (intro filter_cong) (auto simp: Inr)
    ultimately show ?thesis by simp
  next
    case (Inl e)
    let ?agg = "agg\<lparr>sa_data := bt_remove a (sa_data agg), sa_total_votes := sub64 (sa_total_votes agg) (sui_weight ?c a)\<rparr>"
    have keys: "fst ` set (bt_remove a (sa_data agg)) = fst ` set (sa_data agg) - {a}" by (auto simp: bt_remove_def)
    have "a \<in> fst ` set (sa_data agg)" using "2.prems"(4) by force
    then have split: "sa_total_votes agg = sui_weight ?c a + sum (sui_weight ?c) (fst ` set (sa_data agg) - {a})"
      unfolding ok(3) by (intro sum.remove) auto
    have "sub64 (sa_total_votes agg) (sui_weight ?c a) = sum (sui_weight ?c) (fst ` set (sa_data agg) - {a})"
      using votes_small [OF "2.prems"(2)] split by (simp add: sub64_fits)
    then have v: "votes_ok ?agg" using ok keys by (simp add: votes_ok_def)
    have i: "infos_ok ?agg" using "2.prems"(3) by (auto simp: infos_ok_def bt_remove_def)
    have sub: "set rest \<subseteq> set (sa_data ?agg)" using "2.prems"(4,5) by (force simp: bt_remove_def)
    have run: "drop_bad lib msg rest ?agg (add64 n (sui_weight ?c a)) (bad @ [a]) = (agg', n', bad')"
      using "2.prems"(1) by (simp add: Inl Let_def)
    have "votes_ok agg' \<and> infos_ok agg' \<and> sa_committee agg' = ?c \<and> sa_data agg' = filter (\<lambda>e. e \<in> set rest \<longrightarrow> ?v e = False) (bt_remove a (sa_data agg))"
      using "2.IH"(1) [OF Inl refl run v i sub \<open>distinct (map fst rest)\<close>] by simp
    moreover have "filter (\<lambda>e. e \<in> set rest \<longrightarrow> ?v e = False) (bt_remove a (sa_data agg)) =
        filter (\<lambda>e. e \<in> set ((a, si) # rest) \<longrightarrow> ?v e = False) (sa_data agg)"
    proof -
      have only: "e = (a, si)" if "e \<in> set (sa_data agg)" "fst e = a" for e
        using that "2.prems"(4) keys_sorted_distinct [OF ok(2)] by (metis eq_key_imp_eq_value list.set_intros(1) prod.collapse subsetD)
      have "(fst e \<noteq> a \<and> (e \<in> set rest \<longrightarrow> ?v e = False)) = (e \<in> set ((a, si) # rest) \<longrightarrow> ?v e = False)" if e: "e \<in> set (sa_data agg)" for e
      proof (cases "fst e = a")
        case True
        with only [OF e] have "e = (a, si)" by blast
        then show ?thesis by (simp add: Inl)
      qed auto
      then show ?thesis unfolding bt_remove_def filter_filter by (intro filter_cong refl)
    qed
    ultimately show ?thesis by simp
  qed
qed simp

lemma sa_insert_ok:
  assumes "votes_ok agg" and "infos_ok agg" and "sa_insert lib strong msg si agg = (r, agg')"
  shows "votes_ok agg'" "infos_ok agg'" "sa_committee agg' = sa_committee agg"
proof -
  have "votes_ok agg' \<and> infos_ok agg' \<and> sa_committee agg' = sa_committee agg"
  proof (cases "sc_epoch (sa_committee agg) = si_epoch si")
    case True
    obtain r1 agg1 where g: "insert_generic (si_authority si) si strong agg = (r1, agg1)" by fastforce
    note k = insert_generic_votes [OF assms(1) g] insert_generic_infos [OF assms(2) g True [symmetric]] insert_generic_kept(1) [OF g]
    obtain agg2 n bad where d: "drop_bad lib msg (sa_data agg1) agg1 0 [] = (agg2, n, bad)" by (cases "drop_bad lib msg (sa_data agg1) agg1 0 []")
    have "distinct (map fst (sa_data agg1))" using k(1) by (simp add: votes_ok_def keys_sorted_distinct)
    from drop_bad_votes [OF d k(1,2) subset_refl this] k assms(3) g d True show ?thesis
      by (auto simp: sa_insert_def split: insert_result.splits sum.splits)
  qed (use assms in \<open>auto simp: sa_insert_def\<close>)
  then show "votes_ok agg'" "infos_ok agg'" "sa_committee agg' = sa_committee agg" by blast+
qed

section \<open>Certificates\<close>

definition signer_names :: "sui_committee \<Rightarrow> 'a quorum_sign_info \<Rightarrow> authority_name list" where
  "signer_names c q = map (the \<circ> authority_by_index c) (signers_map q)"

abbreviation name_at :: "sui_committee \<Rightarrow> nat \<Rightarrow> authority_name" where
  "name_at c i \<equiv> fst (voting_rights c ! i)"

lemma name_at_inj:
  assumes "sui_committee_wf c"
  shows "inj_on (name_at c) {..<length (voting_rights c)}"
  by (rule inj_onI) (use assms authority_index_iff in \<open>metis lessThan_iff option.inject\<close>)

lemma signers_loop_parts:
  assumes "signers_loop c is w pks = Inr (w', pks')"
  shows "\<forall>i \<in> set is. i < length (voting_rights c) \<and> 0 < sui_weight c (name_at c i) \<and> sui_public_key c (name_at c i) \<noteq> None"
    "pks' = pks @ map (the \<circ> sui_public_key c \<circ> name_at c) is"
    "w + sum_list (map (sui_weight c \<circ> name_at c) is) < 2 ^ 64 \<Longrightarrow> w' = w + sum_list (map (sui_weight c \<circ> name_at c) is)"
proof -
  have "(\<forall>i \<in> set is. i < length (voting_rights c) \<and> 0 < sui_weight c (name_at c i) \<and> sui_public_key c (name_at c i) \<noteq> None) \<and>
    pks' = pks @ map (the \<circ> sui_public_key c \<circ> name_at c) is \<and>
    (w + sum_list (map (sui_weight c \<circ> name_at c) is) < 2 ^ 64 \<longrightarrow> w' = w + sum_list (map (sui_weight c \<circ> name_at c) is))"
    using assms
  proof (induction c "is" w pks rule: signers_loop.induct)
    case (2 c i "is" w pks)
    have i: "i < length (voting_rights c)" "0 < sui_weight c (name_at c i)" "sui_public_key c (name_at c i) \<noteq> None"
      and run: "signers_loop c is (add64 w (sui_weight c (name_at c i))) (pks @ [the (sui_public_key c (name_at c i))]) = Inr (w', pks')"
      using "2.prems" by (auto simp: authority_by_index_def split: if_splits)
    from "2.IH" [OF run] i show ?case by (auto simp: add64_def comp_def)
  qed simp
  then show "\<forall>i \<in> set is. i < length (voting_rights c) \<and> 0 < sui_weight c (name_at c i) \<and> sui_public_key c (name_at c i) \<noteq> None"
    "pks' = pks @ map (the \<circ> sui_public_key c \<circ> name_at c) is"
    "w + sum_list (map (sui_weight c \<circ> name_at c) is) < 2 ^ 64 \<Longrightarrow> w' = w + sum_list (map (sui_weight c \<circ> name_at c) is)"
    by blast+
qed

text \<open>A batch that verifies was signed by the owner of every key in it.\<close>

definition unforgeable :: "('m, 's, 'a) sig_lib \<Rightarrow> (nat \<Rightarrow> bytes \<Rightarrow> bool) \<Rightarrow> bool" where
  "unforgeable lib has_signed \<longleftrightarrow> (\<forall>agg pks msg. batch_verify lib [agg] [pks] [msg] \<longrightarrow> (\<forall>pk \<in> set pks. has_signed pk msg))"

text \<open>The members in \<open>S\<close> hold the stake and signed the bytes.\<close>

definition signed_by_quorum :: "sui_committee \<Rightarrow> (nat \<Rightarrow> bytes \<Rightarrow> bool) \<Rightarrow> bool \<Rightarrow> bytes \<Rightarrow> authority_name set \<Rightarrow> bool" where
  "signed_by_quorum c has_signed strong msg S \<longleftrightarrow>
     S \<subseteq> sui_members c \<and> sui_threshold strong \<le> sum (sui_weight c) S \<and>
     (\<forall>a \<in> S. \<exists>pk. sui_public_key c a = Some pk \<and> has_signed pk msg)"

lemma quorum_verify_sound:
  assumes wf: "sui_committee_wf c" and dist: "distinct (signers_map q)" and unf: "unforgeable lib has_signed"
    and ver: "quorum_verify_secure lib strong q msg c = Inr ()"
  shows "signed_by_quorum c has_signed strong (message_bytes lib msg (sc_epoch c)) (set (signer_names c q))"
proof -
  obtain agg w pks where q: "qs_epoch q = sc_epoch c" "signers_loop c (signers_map q) 0 [] = Inr (w, pks)" "sui_threshold strong \<le> w"
    "batch_verify lib [agg] [pks] [message_bytes lib msg (sc_epoch c)]"
    using ver by (auto simp: quorum_verify_secure_def add_message_def add_quorum_to_obligation_def verify_all_def obligation_empty_def option_simps)
  note p = signers_loop_parts [OF q(2)]
  let ?names = "map (name_at c) (signers_map q)"
  have names: "signer_names c q = ?names" using p(1) by (simp add: signer_names_def authority_by_index_def)
  have "inj_on (name_at c) (set (signers_map q))" using name_at_inj [OF wf] p(1) by (auto intro: inj_on_subset)
  with dist have "distinct ?names" by (simp add: distinct_map)
  then have sum: "sum_list (map (sui_weight c) ?names) = sum (sui_weight c) (set ?names)" by (simp only: sum.distinct_set_conv_list)
  then have w: "w = sum (sui_weight c) (set ?names)"
    using p(3) sui_weight_sum_le [OF wf, of "set ?names"] by (simp add: TOTAL_VOTING_POWER_def)
  have "set ?names \<subseteq> sui_members c" using p(1) by (auto simp: sui_members_def)
  moreover have "\<exists>pk. sui_public_key c a = Some pk \<and> has_signed pk (message_bytes lib msg (sc_epoch c))" if a: "a \<in> set ?names" for a
  proof -
    obtain pk where pk: "sui_public_key c a = Some pk" using p(1) a by auto
    then have "pk \<in> set pks" using a p(2) by force
    with unf q(4) pk show ?thesis by (auto simp: unforgeable_def)
  qed
  ultimately show ?thesis using q(3) w unfolding signed_by_quorum_def names by blast
qed

lemma signers_of_parts:
  assumes "signers_of c as m = Inr m'" and "sorted_wrt (<) m"
  shows "sorted_wrt (<) m'" "\<forall>a \<in> set as. authority_index c a \<noteq> None" "set m' = set m \<union> (the \<circ> authority_index c) ` set as"
proof -
  have "sorted_wrt (<) m' \<and> (\<forall>a \<in> set as. authority_index c a \<noteq> None) \<and> set m' = set m \<union> (the \<circ> authority_index c) ` set as"
    using assms
  proof (induction c as m rule: signers_of.induct)
    case (2 c a as m)
    obtain i where i: "authority_index c a = Some i" using "2.prems"(1) by auto
    with "2.IH" [of i] "2.prems" show ?case by simp
  qed simp
  then show "sorted_wrt (<) m'" "\<forall>a \<in> set as. authority_index c a \<noteq> None" "set m' = set m \<union> (the \<circ> authority_index c) ` set as" by blast+
qed

lemma new_from_infos_distinct:
  assumes "new_from_auth_sign_infos lib strong infos c = Inr q"
  shows "distinct (signers_map q)"
  using assms signers_of_parts(1) [of c _ "[]"] by (auto simp: new_from_auth_sign_infos_def Let_def strict_sorted_iff)

text \<open>What an aggregator returns as a certificate was signed by a quorum.\<close>

lemma sa_insert_quorum:
  assumes "votes_ok agg" and "infos_ok agg" and "sa_insert lib strong msg si agg = (QuorumReached q, agg')"
    and "unforgeable lib has_signed"
  shows "signed_by_quorum (sa_committee agg) has_signed strong (message_bytes lib msg (sc_epoch (sa_committee agg)))
    (set (signer_names (sa_committee agg) q))"
proof -
  obtain d agg1 where g: "insert_generic (si_authority si) si strong agg = (QuorumReached d, agg1)"
    and n: "new_from_auth_sign_infos lib strong (map snd (sa_data agg1)) (sa_committee agg1) = Inr q"
    and v: "quorum_verify_secure lib strong q msg (sa_committee agg1) = Inr ()"
    using assms(3) by (auto simp: sa_insert_def split: if_splits prod.splits insert_result.splits sum.splits)
  have c: "sa_committee agg1 = sa_committee agg" by (rule insert_generic_kept(1) [OF g])
  have "sui_committee_wf (sa_committee agg)" using assms(1) by (simp add: votes_ok_def)
  from quorum_verify_sound [OF this new_from_infos_distinct [OF n] assms(4) v [unfolded c]] show ?thesis .
qed

text \<open>Two certificates have a common signer outside any set below the validity threshold.\<close>

definition sui_faulty :: "sui_committee \<Rightarrow> authority_name set \<Rightarrow> bool" where
  "sui_faulty c F \<longleftrightarrow> sum (sui_weight c) (F \<inter> sui_members c) < VALIDITY_THRESHOLD"

lemma certificates_share_signer:
  assumes "sui_committee_wf c" and "signed_by_quorum c has_signed True b1 S1" and "signed_by_quorum c has_signed True b2 S2" and "sui_faulty c F"
  obtains a pk where "a \<in> sui_members c" "a \<notin> F" "sui_public_key c a = Some pk" "has_signed pk b1" "has_signed pk b2"
proof -
  have "\<exists>a. a \<in> S1 \<and> a \<in> S2 \<and> a \<notin> F"
    by (rule sui.quorums_share_honest [OF assms(1)])
      (use assms(2-4) in \<open>simp_all add: signed_by_quorum_def sui_threshold_def sui_faulty_def\<close>)
  then obtain a where "a \<in> S1" "a \<in> S2" "a \<notin> F" by blast
  with assms(2,3) that show ?thesis unfolding signed_by_quorum_def by (metis option.inject subsetD)
qed

section \<open>Signers outside the committee\<close>

text \<open>A signer without votes is kept, and no later insertion can give a certificate.\<close>

lemma infos_keys:
  "fst ` set (fold (\<lambda>a. bt_insert (si_authority a) (si_signature a)) xs m) = si_authority ` set xs \<union> fst ` set m"
  by (induction xs arbitrary: m) auto

lemma new_from_infos_members:
  assumes "new_from_auth_sign_infos lib strong infos c = Inr q" and "si \<in> set infos"
  shows "authority_index c (si_authority si) \<noteq> None"
proof -
  obtain m where "signers_of c (map fst (fold (\<lambda>a. bt_insert (si_authority a) (si_signature a)) infos [])) [] = Inr m"
    using assms(1) by (auto simp: new_from_auth_sign_infos_def Let_def)
  from signers_of_parts(2) [OF this] assms(2) infos_keys [of infos "[]"] show ?thesis by auto
qed

lemma new_from_infos_signers:
  assumes "new_from_auth_sign_infos lib strong infos c = Inr q" and "sui_committee_wf c"
  shows "set (signer_names c q) = si_authority ` set infos"
proof -
  let ?m = "fold (\<lambda>a. bt_insert (si_authority a) (si_signature a)) infos []"
  have "signers_of c (map fst ?m) [] = Inr (signers_map q)"
    using assms(1) by (auto simp: new_from_auth_sign_infos_def Let_def)
  note p = signers_of_parts(2,3) [OF this]
  have names: "fst ` set ?m = si_authority ` set infos" using infos_keys [of infos "[]"] by simp
  have "the (authority_by_index c (the (authority_index c a))) = a" if "a \<in> si_authority ` set infos" for a
    using p(1) that names authority_by_index_index [OF assms(2), of a] by fastforce
  moreover have "set (signers_map q) = (the \<circ> authority_index c) ` si_authority ` set infos" using p(2) names by simp
  ultimately show ?thesis unfolding signer_names_def by (force simp: image_iff)
qed

fun sa_inserts ::
  "('m, 's, 'a) sig_lib \<Rightarrow> bool \<Rightarrow> ('m \<times> 's sign_info) list \<Rightarrow> 's sign_info sui_stake_aggregator \<Rightarrow> 'a quorum_sign_info insert_result list" where
  "sa_inserts lib strong [] agg = []"
| "sa_inserts lib strong ((msg, si) # xs) agg =
     (case sa_insert lib strong msg si agg of (r, agg) \<Rightarrow> r # sa_inserts lib strong xs agg)"

lemma sa_insert_poisoned:
  assumes "votes_ok agg" and "infos_ok agg" and "a \<in> fst ` set (sa_data agg)" and "a \<notin> sui_members (sa_committee agg)"
    and "sa_insert lib strong msg si agg = (r, agg')"
  shows "a \<in> fst ` set (sa_data agg') \<and> (\<forall>q. r \<noteq> QuorumReached q)"
proof (cases "sc_epoch (sa_committee agg) = si_epoch si")
  case True
  obtain r1 agg1 where g: "insert_generic (si_authority si) si strong agg = (r1, agg1)" by fastforce
  have c: "sa_committee agg1 = sa_committee agg" by (rule insert_generic_kept(1) [OF g])
  have a: "a \<in> fst ` set (sa_data agg1)" using insert_generic_kept(2) [OF g] assms(3) by auto
  have "isl (new_from_auth_sign_infos lib strong (map snd (sa_data agg1)) (sa_committee agg1))"
  proof (rule ccontr)
    assume "\<not> isl (new_from_auth_sign_infos lib strong (map snd (sa_data agg1)) (sa_committee agg1))"
    then obtain q where q: "new_from_auth_sign_infos lib strong (map snd (sa_data agg1)) (sa_committee agg1) = Inr q"
      by (cases "new_from_auth_sign_infos lib strong (map snd (sa_data agg1)) (sa_committee agg1)") auto
    obtain si' where si': "(a, si') \<in> set (sa_data agg1)" using a by force
    with insert_generic_infos [OF assms(2) g True [symmetric]] have "si_authority si' = a" by (auto simp: infos_ok_def)
    with new_from_infos_members [OF q, of si'] si' have "authority_index (sa_committee agg) a \<noteq> None" unfolding c by force
    with assms(1,4) show False by (simp add: votes_ok_def authority_index_None)
  qed
  then obtain e where "new_from_auth_sign_infos lib strong (map snd (sa_data agg1)) (sa_committee agg1) = Inl e" by (auto simp: isl_def)
  with assms(5) g a True show ?thesis by (auto simp: sa_insert_def split: insert_result.splits)
qed (use assms in \<open>auto simp: sa_insert_def\<close>)

lemma sa_inserts_poisoned:
  assumes "votes_ok agg" and "infos_ok agg" and "a \<in> fst ` set (sa_data agg)" and "a \<notin> sui_members (sa_committee agg)"
  shows "\<forall>q. QuorumReached q \<notin> set (sa_inserts lib strong xs agg)"
  using assms
proof (induction lib strong xs agg rule: sa_inserts.induct)
  case (2 lib strong msg si xs agg)
  obtain r agg' where i: "sa_insert lib strong msg si agg = (r, agg')" by fastforce
  note ok = sa_insert_ok [OF "2.prems"(1,2) i] and p = sa_insert_poisoned [OF "2.prems" i]
  from "2.IH" [OF i [symmetric]] ok p "2.prems"(4) i show ?case by auto
qed simp

section \<open>Valid signatures of a quorum\<close>

text \<open>Valid signatures aggregate, and the aggregate verifies for their keys.\<close>

definition sig_complete :: "('m, 's, 'a) sig_lib \<Rightarrow> (nat \<Rightarrow> bytes \<Rightarrow> 's \<Rightarrow> bool) \<Rightarrow> bool" where
  "sig_complete lib valid \<longleftrightarrow>
     (\<forall>pks sigs msg. sigs \<noteq> [] \<longrightarrow> list_all2 (\<lambda>pk. valid pk msg) pks sigs \<longrightarrow>
        (\<exists>g g'. aggregate_sigs lib sigs = Some g \<and> aggregate_merge lib (aggregate_default lib) g = Some g' \<and> batch_verify lib [g'] [pks] [msg]))"

definition valid_entry ::
  "(nat \<Rightarrow> bytes \<Rightarrow> 's \<Rightarrow> bool) \<Rightarrow> sui_committee \<Rightarrow> bytes \<Rightarrow> authority_name \<times> 's sign_info \<Rightarrow> bool" where
  "valid_entry valid c msg e \<longleftrightarrow>
     0 < sui_weight c (fst e) \<and> (\<exists>pk. sui_public_key c (fst e) = Some pk \<and> valid pk msg (si_signature (snd e)))"

lemma signers_of_sorted:
  assumes "sui_committee_wf c" and "\<forall>a \<in> set as. authority_index c a \<noteq> None" and "sorted_wrt (<) (m @ map (the \<circ> authority_index c) as)"
  shows "signers_of c as m = Inr (m @ map (the \<circ> authority_index c) as)"
  using assms(2,3)
proof (induction as arbitrary: m)
  case (Cons a as)
  obtain i where i: "authority_index c a = Some i" using Cons.prems(1) by auto
  have "bs_insert i m = m @ [i]" using Cons.prems(2) by (intro bs_insert_above) (simp add: sorted_wrt_append i)
  moreover have "signers_of c as (m @ [i]) = Inr ((m @ [i]) @ map (the \<circ> authority_index c) as)"
    by (rule Cons.IH) (use Cons.prems in \<open>simp_all add: i\<close>)
  ultimately show ?case by (simp add: i)
qed simp

lemma signers_loop_total:
  assumes "\<forall>i \<in> set is. i < length (voting_rights c) \<and> 0 < sui_weight c (name_at c i) \<and> sui_public_key c (name_at c i) \<noteq> None"
    and "w + sum_list (map (sui_weight c \<circ> name_at c) is) < 2 ^ 64"
  shows "signers_loop c is w pks = Inr (w + sum_list (map (sui_weight c \<circ> name_at c) is), pks @ map (the \<circ> sui_public_key c \<circ> name_at c) is)"
  using assms
proof (induction "is" arbitrary: w pks)
  case (Cons i "is")
  obtain pk where "sui_public_key c (name_at c i) = Some pk" using Cons.prems(1) by auto
  moreover have "add64 w (sui_weight c (name_at c i)) = w + sui_weight c (name_at c i)" using Cons.prems(2) by (simp add: add64_def)
  ultimately show ?case using Cons.prems Cons.IH [of "w + sui_weight c (name_at c i)" "pks @ [pk]"]
    by (simp add: authority_by_index_def add.assoc)
qed simp

lemma quorum_certificate_exists:
  assumes v: "votes_ok agg" and i: "infos_ok agg" and comp: "sig_complete lib valid"
    and all: "\<forall>e \<in> set (sa_data agg). valid_entry valid (sa_committee agg) (message_bytes lib msg (sc_epoch (sa_committee agg))) e"
    and quorum: "sa_has_quorum strong agg"
  shows "\<exists>q. new_from_auth_sign_infos lib strong (map snd (sa_data agg)) (sa_committee agg) = Inr q \<and>
    quorum_verify_secure lib strong q msg (sa_committee agg) = Inr ()"
proof -
  let ?c = "sa_committee agg" let ?names = "map fst (sa_data agg)" let ?ix = "map (the \<circ> authority_index ?c) ?names"
  have wf: "sui_committee_wf ?c" and srt: "keys_sorted (sa_data agg)" and total: "sa_total_votes agg = sum (sui_weight ?c) (set ?names)"
    using v by (simp_all add: votes_ok_def)
  have sum: "sum_list (map (sui_weight ?c) ?names) = sa_total_votes agg"
    unfolding total by (rule sum.distinct_set_conv_list [symmetric]) (rule keys_sorted_distinct [OF srt])
  have auth: "map si_authority (map snd (sa_data agg)) = ?names" using i by (auto simp: infos_ok_def)
  have ep: "list_all (\<lambda>a. si_epoch a = sc_epoch ?c) (map snd (sa_data agg))" using i by (auto simp: infos_ok_def list_all_iff)
  have weights: "sui_threshold strong \<le> sum64 (map (\<lambda>a. sui_weight ?c (si_authority a)) (map snd (sa_data agg)))"
  proof -
    have eq: "map (\<lambda>a. sui_weight ?c (si_authority a)) (map snd (sa_data agg)) = map (sui_weight ?c) ?names"
      unfolding auth [symmetric] by simp
    show ?thesis unfolding eq sum64_def sum using quorum votes_small [OF v] by (simp add: sa_has_quorum_def)
  qed
  have ne: "sa_data agg \<noteq> []" using quorum total by (auto simp: sa_has_quorum_def sui_threshold_def QUORUM_THRESHOLD_def VALIDITY_THRESHOLD_def split: if_splits)
  have sigs: "fold (\<lambda>a. bt_insert (si_authority a) (si_signature a)) (map snd (sa_data agg)) [] = map (\<lambda>(a, si). (a, si_signature si)) (sa_data agg)"
  proof -
    have "fold (\<lambda>a. bt_insert (si_authority a) (si_signature a)) (map snd (sa_data agg)) [] =
        fold (\<lambda>(k, v). bt_insert k v) (map (\<lambda>(a, si). (a, si_signature si)) (sa_data agg)) []"
      unfolding fold_map by (rule fold_cong) (use i in \<open>auto simp: infos_ok_def\<close>)
    also have "\<dots> = [] @ map (\<lambda>(a, si). (a, si_signature si)) (sa_data agg)"
      by (rule fold_bt_insert_sorted) (use srt in \<open>simp add: comp_def case_prod_beta'\<close>)
    finally show ?thesis by simp
  qed
  have members: "\<forall>a \<in> set ?names. authority_index ?c a \<noteq> None"
    using all sui_weight_outside [OF wf] by (force simp: authority_index_None [OF wf] valid_entry_def)
  have ix: "authority_index ?c a = Some (the (authority_index ?c a))" if "a \<in> set ?names" for a using members that by auto
  have sorted_ix: "sorted_wrt (<) ?ix"
    unfolding sorted_wrt_map
    by (rule sorted_wrt_mono_rel [OF _ srt [unfolded sorted_wrt_map]]) (use authority_index_mono [OF wf ix ix] in auto)
  have so: "signers_of ?c ?names [] = Inr ?ix" using signers_of_sorted [OF wf members, of "[]"] sorted_ix by simp
  have at: "name_at ?c (the (authority_index ?c a)) = a \<and> the (authority_index ?c a) < length (voting_rights ?c)" if "a \<in> set ?names" for a
    using ix [OF that] authority_index_iff [OF wf] by blast
  have names_at: "map (name_at ?c) ?ix = ?names" using at by (simp add: map_idI)
  have weight_at: "map (sui_weight ?c \<circ> name_at ?c) ?ix = map (sui_weight ?c) ?names"
    using arg_cong [OF names_at, of "map (sui_weight ?c)"] by (simp add: comp_def)
  have key_at: "map (the \<circ> sui_public_key ?c \<circ> name_at ?c) ?ix = map (the \<circ> sui_public_key ?c) ?names"
    using arg_cong [OF names_at, of "map (the \<circ> sui_public_key ?c)"] by (simp add: comp_def)
  have "signers_loop ?c ?ix 0 [] = Inr (0 + sum_list (map (sui_weight ?c \<circ> name_at ?c) ?ix), [] @ map (the \<circ> sui_public_key ?c \<circ> name_at ?c) ?ix)"
  proof (rule signers_loop_total)
    show "\<forall>i \<in> set ?ix. i < length (voting_rights ?c) \<and> 0 < sui_weight ?c (name_at ?c i) \<and> sui_public_key ?c (name_at ?c i) \<noteq> None"
      using at all by (fastforce simp: valid_entry_def)
    show "0 + sum_list (map (sui_weight ?c \<circ> name_at ?c) ?ix) < 2 ^ 64" unfolding weight_at sum using votes_small [OF v] by simp
  qed
  then have loop: "signers_loop ?c ?ix 0 [] = Inr (sa_total_votes agg, map (the \<circ> sui_public_key ?c) ?names)"
    unfolding weight_at key_at sum by simp
  have l2: "list_all2 (\<lambda>pk. valid pk (message_bytes lib msg (sc_epoch ?c))) (map (the \<circ> sui_public_key ?c) ?names) (map (si_signature \<circ> snd) (sa_data agg))"
  proof -
    have "list_all2 (\<lambda>x y. valid (the (sui_public_key ?c (fst x))) (message_bytes lib msg (sc_epoch ?c)) (si_signature (snd y))) xs xs"
      if "\<forall>e \<in> set xs. valid_entry valid ?c (message_bytes lib msg (sc_epoch ?c)) e" for xs
      using that by (induction xs) (auto simp: valid_entry_def)
    from this [OF all] show ?thesis by (simp add: list_all2_map1 list_all2_map2)
  qed
  have "map (si_signature \<circ> snd) (sa_data agg) \<noteq> []" using ne by simp
  from comp [unfolded sig_complete_def, rule_format, OF this l2] obtain g g' where g: "aggregate_sigs lib (map (si_signature \<circ> snd) (sa_data agg)) = Some g"
    "aggregate_merge lib (aggregate_default lib) g = Some g'"
    "batch_verify lib [g'] [map (the \<circ> sui_public_key ?c) ?names] [message_bytes lib msg (sc_epoch ?c)]"
    by (elim exE conjE)
  let ?q = "\<lparr>qs_epoch = sc_epoch ?c, qs_signature = g, signers_map = ?ix\<rparr>"
  have "new_from_auth_sign_infos lib strong (map snd (sa_data agg)) ?c = Inr ?q"
    unfolding new_from_auth_sign_infos_def using ep weights so g(1) by (simp add: sigs Let_def comp_def case_prod_beta')
  moreover have "quorum_verify_secure lib strong ?q msg ?c = Inr ()"
    using loop g(2,3) quorum
    by (simp add: quorum_verify_secure_def add_message_def add_quorum_to_obligation_def verify_all_def obligation_empty_def index_def
        sa_has_quorum_def ensure_def)
  ultimately show ?thesis by blast
qed

text \<open>The signature that completes a quorum of valid signatures gives the certificate.\<close>

lemma sa_insert_completes:
  assumes v: "votes_ok agg" and i: "infos_ok agg" and comp: "sig_complete lib valid"
    and all: "\<forall>e \<in> insert (si_authority si, si) (set (sa_data agg)).
      valid_entry valid (sa_committee agg) (message_bytes lib msg (sc_epoch (sa_committee agg))) e"
    and fresh: "si_authority si \<notin> fst ` set (sa_data agg)" and ep: "si_epoch si = sc_epoch (sa_committee agg)"
    and enough: "sui_threshold strong \<le> sa_total_votes agg + sui_weight (sa_committee agg) (si_authority si)"
  shows "\<exists>q agg'. sa_insert lib strong msg si agg = (QuorumReached q, agg')"
proof -
  obtain r agg1 where g: "insert_generic (si_authority si) si strong agg = (r, agg1)" by fastforce
  have none: "bt_get (sa_data agg) (si_authority si) = None" using fresh by (simp add: bt_get_def map_of_eq_None_iff)
  note k = insert_generic_votes [OF v g] insert_generic_infos [OF i g ep] insert_generic_kept [OF g]
  have w: "0 < sui_weight (sa_committee agg) (si_authority si)" using all by (simp add: valid_entry_def)
  have wf: "sui_committee_wf (sa_committee agg)" and srt: "keys_sorted (sa_data agg)"
    and total: "sa_total_votes agg = sum (sui_weight (sa_committee agg)) (fst ` set (sa_data agg))"
    using v by (simp_all add: votes_ok_def)
  have "sa_total_votes agg1 = sa_total_votes agg + sui_weight (sa_committee agg) (si_authority si)"
    using k(1,3,4) none fresh total by (simp add: votes_ok_def)
  then have quorum: "sa_has_quorum strong agg1" using enough by (simp add: sa_has_quorum_def)
  then have r: "r = QuorumReached (sa_data agg1)"
    using g none w by (auto simp: insert_generic_def Let_def sa_has_quorum_def split: if_splits)
  have "\<forall>e \<in> set (sa_data agg1). valid_entry valid (sa_committee agg1) (message_bytes lib msg (sc_epoch (sa_committee agg1))) e"
    using all k(3,4) none by (auto simp: set_bt_insert [OF srt])
  from quorum_certificate_exists [OF k(1,2) comp this quorum] ep g r k(3) show ?thesis by (auto simp: sa_insert_def)
qed

section \<open>Signatures that fail\<close>

text \<open>
  A signature that fails in the batch makes the insertion report too few votes, whatever is left.
\<close>

lemma sa_insert_drops:
  assumes v: "votes_ok agg" and i: "infos_ok agg" and ep: "si_epoch si = sc_epoch (sa_committee agg)"
    and g: "insert_generic (si_authority si) si strong agg = (QuorumReached d, agg1)"
    and n: "new_from_auth_sign_infos lib strong (map snd (sa_data agg1)) (sa_committee agg) = Inr q"
    and e: "quorum_verify_secure lib strong q msg (sa_committee agg) = Inl err"
  shows "\<exists>m bad agg'. sa_insert lib strong msg si agg = (NotEnoughVotes m bad, agg') \<and>
    sa_data agg' = filter (\<lambda>x. \<not> isl (sign_info_verify_secure lib (snd x) msg (sa_committee agg))) (sa_data agg1) \<and>
    sa_total_votes agg' = sum (sui_weight (sa_committee agg)) (fst ` set (sa_data agg'))"
proof -
  note k = insert_generic_votes [OF v g] insert_generic_infos [OF i g ep] insert_generic_kept(1) [OF g]
  obtain agg' m bad where d: "drop_bad lib msg (sa_data agg1) agg1 0 [] = (agg', m, bad)" by (cases "drop_bad lib msg (sa_data agg1) agg1 0 []")
  have "distinct (map fst (sa_data agg1))" using k(1) by (simp add: votes_ok_def keys_sorted_distinct)
  note db = drop_bad_votes [OF d k(1,2) subset_refl this]
  have "sa_insert lib strong msg si agg = (NotEnoughVotes m bad, agg')"
    using ep g n e d by (simp add: sa_insert_def k(3))
  moreover have "sa_data agg' = filter (\<lambda>x. \<not> isl (sign_info_verify_secure lib (snd x) msg (sa_committee agg))) (sa_data agg1)"
    using db by (auto simp: k(3) intro!: filter_cong)
  moreover have "sa_total_votes agg' = sum (sui_weight (sa_committee agg)) (fst ` set (sa_data agg'))"
    using db by (simp add: votes_ok_def k(3))
  ultimately show ?thesis by blast
qed

lemma sign_info_verify_signed:
  assumes "sign_info_verify_secure lib si msg c = Inr ()" and "unforgeable lib has_signed"
  shows "\<exists>pk. sui_public_key c (si_authority si) = Some pk \<and> has_signed pk (message_bytes lib msg (sc_epoch c))"
proof -
  obtain pk agg where "si_epoch si = sc_epoch c" "sui_public_key c (si_authority si) = Some pk"
    "batch_verify lib [agg] [[pk]] [message_bytes lib msg (sc_epoch c)]"
    using assms(1)
    by (auto simp: sign_info_verify_secure_def add_message_def add_sign_info_to_obligation_def verify_all_def obligation_empty_def option_simps)
  with assms(2) show ?thesis unfolding unforgeable_def by (metis list.set_intros(1))
qed

text \<open>Votes of authorities that signed something else never make a certificate; at the threshold they are all dropped.\<close>

lemma foreign_votes_dropped:
  assumes v: "votes_ok agg" and i: "infos_ok agg" and unf: "unforgeable lib has_signed" and ep: "si_epoch si = sc_epoch (sa_committee agg)"
    and foreign: "\<forall>a \<in> insert (si_authority si) (fst ` set (sa_data agg)). \<forall>pk. sui_public_key (sa_committee agg) a = Some pk \<longrightarrow>
      \<not> has_signed pk (message_bytes lib msg (sc_epoch (sa_committee agg)))"
    and g: "insert_generic (si_authority si) si strong agg = (QuorumReached d, agg1)"
    and n: "new_from_auth_sign_infos lib strong (map snd (sa_data agg1)) (sa_committee agg) = Inr q"
  shows "\<exists>m bad agg'. sa_insert lib strong msg si agg = (NotEnoughVotes m bad, agg') \<and> sa_data agg' = [] \<and> sa_total_votes agg' = 0"
proof -
  let ?c = "sa_committee agg"
  have wf: "sui_committee_wf ?c" using v by (simp add: votes_ok_def)
  note k = insert_generic_infos [OF i g ep] insert_generic_kept [OF g]
  have keys: "fst ` set (sa_data agg1) \<subseteq> insert (si_authority si) (fst ` set (sa_data agg))" using k(3) by (auto split: if_splits)
  have bad: "isl (sign_info_verify_secure lib (snd x) msg ?c)" if x: "x \<in> set (sa_data agg1)" for x
  proof (rule ccontr)
    assume "\<not> isl (sign_info_verify_secure lib (snd x) msg ?c)"
    then have "sign_info_verify_secure lib (snd x) msg ?c = Inr ()" by (cases "sign_info_verify_secure lib (snd x) msg ?c") auto
    from sign_info_verify_signed [OF this unf] obtain pk where pk: "sui_public_key ?c (si_authority (snd x)) = Some pk"
      "has_signed pk (message_bytes lib msg (sc_epoch ?c))" by blast
    have "si_authority (snd x) = fst x" using k(1) x by (auto simp: infos_ok_def)
    moreover have "fst x \<in> insert (si_authority si) (fst ` set (sa_data agg))" using keys x by blast
    ultimately show False using foreign pk by metis
  qed
  have "isl (quorum_verify_secure lib strong q msg ?c)"
  proof (rule ccontr)
    assume "\<not> isl (quorum_verify_secure lib strong q msg ?c)"
    then have ver: "quorum_verify_secure lib strong q msg ?c = Inr ()" by (cases "quorum_verify_secure lib strong q msg ?c") auto
    note s = quorum_verify_sound [OF wf new_from_infos_distinct [OF n] unf ver]
    have "0 < sui_threshold strong" by (simp add: sui_threshold_def QUORUM_THRESHOLD_def VALIDITY_THRESHOLD_def)
    also have "sui_threshold strong \<le> sum (sui_weight ?c) (set (signer_names ?c q))" using s by (simp only: signed_by_quorum_def)
    finally have "sum (sui_weight ?c) (set (signer_names ?c q)) \<noteq> 0" by (rule less_imp_neq [symmetric])
    then obtain a where a: "a \<in> set (signer_names ?c q)" by (metis ex_in_conv sum.empty)
    have "set (signer_names ?c q) \<subseteq> insert (si_authority si) (fst ` set (sa_data agg))"
    proof
      fix b assume "b \<in> set (signer_names ?c q)"
      then obtain x where x: "x \<in> set (sa_data agg1)" "b = si_authority (snd x)" unfolding new_from_infos_signers [OF n wf] by auto
      then have "b = fst x" using k(1) by (auto simp: infos_ok_def)
      with keys x(1) show "b \<in> insert (si_authority si) (fst ` set (sa_data agg))" by blast
    qed
    with a have own: "a \<in> insert (si_authority si) (fst ` set (sa_data agg))" by blast
    from s a obtain pk where "sui_public_key ?c a = Some pk" "has_signed pk (message_bytes lib msg (sc_epoch ?c))"
      unfolding signed_by_quorum_def by blast
    with bspec [OF foreign own] show False by blast
  qed
  then obtain err where e: "quorum_verify_secure lib strong q msg ?c = Inl err" by (auto simp: isl_def)
  from sa_insert_drops [OF v i ep g n e] bad show ?thesis by (auto simp: filter_empty_conv)
qed

end
