(* ===== verification/CheckpointAggregator.thy ===== *)
theory CheckpointAggregator
  imports CheckpointChain QuorumCorrect
begin

text \<open>
  The checkpoint aggregator and the service that files signatures for it (\<^verbatim>\<open>crates/sui-core/src/checkpoints/mod.rs\<close>, with
  the table of pending signatures of \<^verbatim>\<open>authority_per_epoch_store.rs\<close>). A turn of the aggregator is a partial function;
  that it returns is proved below. Certified checkpoints are handed to state sync by their caller; metrics and the
  diagnosis of a split brain, which only reports, are left out.
\<close>

section \<open>State\<close>

record 's signature_message =
  sm_summary :: checkpoint_summary
  sm_sign_info :: "'s sign_info"

record 's signature_aggregator =
  csa_next_index :: nat
  csa_summary :: checkpoint_summary
  csa_digest :: nat
  signatures_by_digest :: "(nat, checkpoint_summary, 's) multi_stake_aggregator"

record 's aggregator_state =
  ag_tables :: builder_state
  ag_committee :: sui_committee
  pending_checkpoint_signatures :: "(nat \<times> nat, 's signature_message) btree_map"
  last_signature_index :: nat
  ag_current :: "'s signature_aggregator option"

section \<open>The table of signatures\<close>

definition get_pending_checkpoint_signatures_iter ::
  "nat \<Rightarrow> nat \<Rightarrow> 's aggregator_state \<Rightarrow> ((nat \<times> nat) \<times> 's signature_message) list" where
  "get_pending_checkpoint_signatures_iter seq start st = filter (\<lambda>(k, _). (seq, start) \<le> k) (pending_checkpoint_signatures st)"

definition get_last_checkpoint_signature_index :: "'s aggregator_state \<Rightarrow> nat" where
  "get_last_checkpoint_signature_index st =
     (case bt_last (pending_checkpoint_signatures st) of Some ((_, i), _) \<Rightarrow> i | None \<Rightarrow> 0)"

definition insert_checkpoint_signature :: "nat \<Rightarrow> nat \<Rightarrow> 's signature_message \<Rightarrow> 's aggregator_state \<Rightarrow> 's aggregator_state" where
  "insert_checkpoint_signature seq i info st =
     st\<lparr>pending_checkpoint_signatures := bt_insert (seq, i) info (pending_checkpoint_signatures st)\<rparr>"

definition notify_checkpoint_signature :: "'s signature_message \<Rightarrow> 's aggregator_state \<Rightarrow> 's aggregator_state" where
  "notify_checkpoint_signature info st =
     (let seq = cs_sequence_number (sm_summary info);
          certified = (case bt_last (certified_checkpoints (ag_tables st)) of Some (last_certified, _) \<Rightarrow> seq \<le> last_certified | None \<Rightarrow> False)
      in if certified then st
         else let i = add64 (last_signature_index st) 1
              in insert_checkpoint_signature seq i info (st\<lparr>last_signature_index := i\<rparr>))"

text \<open>Starting the service on the tables of a running epoch.\<close>

definition service_spawn :: "builder_state \<Rightarrow> sui_committee \<Rightarrow> (nat \<times> nat, 's signature_message) btree_map \<Rightarrow> 's aggregator_state" where
  "service_spawn tables c sigs =
     (let st = \<lparr>ag_tables = tables, ag_committee = c, pending_checkpoint_signatures = sigs, last_signature_index = 0, ag_current = None\<rparr>
      in st\<lparr>last_signature_index := get_last_checkpoint_signature_index st\<rparr>)"

section \<open>The aggregator\<close>

definition get_built_checkpoint_summary :: "nat \<Rightarrow> builder_state \<Rightarrow> checkpoint_summary option" where
  "get_built_checkpoint_summary seq st = map_option bcs_summary (bt_get (builder_summaries st) seq)"

definition next_checkpoint_to_certify :: "builder_state \<Rightarrow> nat" where
  "next_checkpoint_to_certify st = (case bt_last (certified_checkpoints st) of Some (seq, _) \<Rightarrow> add64 seq 1 | None \<Rightarrow> 0)"

definition try_aggregate ::
  "checkpoint_lib \<Rightarrow> (checkpoint_summary, 's, 'a) sig_lib \<Rightarrow> 's signature_message \<Rightarrow> 's signature_aggregator \<Rightarrow>
     'a quorum_sign_info option \<times> 's signature_aggregator" where
  "try_aggregate lib slib info cur =
     (let their_digest = summary_hash lib (sm_summary info) in
      case ms_insert slib True their_digest (csa_summary cur) (sm_sign_info info) (signatures_by_digest cur) of
        (r, ms) \<Rightarrow>
          (case r of
             QuorumReached q \<Rightarrow> if their_digest \<noteq> csa_digest cur then None else Some q
           | InsertFailed _ \<Rightarrow> None
           | NotEnoughVotes _ _ \<Rightarrow> None,
           cur\<lparr>signatures_by_digest := ms\<rparr>))"

fun scan_signatures ::
  "checkpoint_lib \<Rightarrow> (checkpoint_summary, 's, 'a) sig_lib \<Rightarrow> ((nat \<times> nat) \<times> 's signature_message) list \<Rightarrow> 's signature_aggregator \<Rightarrow>
     'a quorum_sign_info option \<times> 's signature_aggregator" where
  "scan_signatures lib slib [] cur = (None, cur)"
| "scan_signatures lib slib (((seq, i), info) # rest) cur =
     (if seq \<noteq> cs_sequence_number (csa_summary cur) then (None, cur)
      else case try_aggregate lib slib info cur of
          (Some q, cur) \<Rightarrow> (Some q, cur)
        | (None, cur) \<Rightarrow> scan_signatures lib slib rest (cur\<lparr>csa_next_index := add64 i 1\<rparr>))"

type_synonym 'a certified = "checkpoint_summary \<times> 'a quorum_sign_info"

text \<open>The rest of an iteration, with the aggregator of one checkpoint: go on, and the certificates so far.\<close>

definition aggregate_current ::
  "checkpoint_lib \<Rightarrow> (checkpoint_summary, 's, 'a) sig_lib \<Rightarrow> 's aggregator_state \<Rightarrow> 'a certified list \<Rightarrow> 's signature_aggregator \<Rightarrow>
     (bool \<times> 'a certified list \<times> 's aggregator_state) option" where
  "aggregate_current lib slib st result cur =
     (case scan_signatures lib slib (get_pending_checkpoint_signatures_iter (cs_sequence_number (csa_summary cur)) (csa_next_index cur) st) cur of
        (Some q, cur) \<Rightarrow> do {
          tables \<leftarrow> insert_certified_checkpoint lib (csa_summary cur) (ag_tables st);
          Some (True, result @ [(csa_summary cur, q)], st\<lparr>ag_tables := tables, ag_current := None\<rparr>)
        }
      | (None, cur) \<Rightarrow> Some (False, result, st\<lparr>ag_current := Some cur\<rparr>))"

definition aggregator_round ::
  "checkpoint_lib \<Rightarrow> (checkpoint_summary, 's, 'a) sig_lib \<Rightarrow> 's aggregator_state \<Rightarrow> 'a certified list \<Rightarrow>
     (bool \<times> 'a certified list \<times> 's aggregator_state) option" where
  "aggregator_round lib slib st result =
     (let next_to_certify = next_checkpoint_to_certify (ag_tables st) in
      case ag_current st of
        Some cur \<Rightarrow>
          if cs_sequence_number (csa_summary cur) < next_to_certify then Some (True, result, st\<lparr>ag_current := None\<rparr>)
          else aggregate_current lib slib st result cur
      | None \<Rightarrow>
          (case get_built_checkpoint_summary next_to_certify (ag_tables st) of
             None \<Rightarrow> Some (False, result, st)
           | Some s \<Rightarrow>
               aggregate_current lib slib st result
                 \<lparr>csa_next_index = 0, csa_summary = s, csa_digest = summary_hash lib s, signatures_by_digest = ms_new (ag_committee st)\<rparr>))"

partial_function (option) aggregator_loop ::
  "checkpoint_lib \<Rightarrow> (checkpoint_summary, 's, 'a) sig_lib \<Rightarrow> 's aggregator_state \<Rightarrow> 'a certified list \<Rightarrow>
     ('a certified list \<times> 's aggregator_state) option" where
  [code]: "aggregator_loop lib slib st result = do {
     (go_on, result, st) \<leftarrow> aggregator_round lib slib st result;
     if go_on then aggregator_loop lib slib st result else Some (result, st)
   }"

definition run_inner ::
  "checkpoint_lib \<Rightarrow> (checkpoint_summary, 's, 'a) sig_lib \<Rightarrow> 's aggregator_state \<Rightarrow> ('a certified list \<times> 's aggregator_state) option" where
  "run_inner lib slib st = aggregator_loop lib slib st []"

section \<open>Aggregating one checkpoint\<close>

definition ms_ok :: "sui_committee \<Rightarrow> ('k, 'm, 's) multi_stake_aggregator \<Rightarrow> bool" where
  "ms_ok c ms \<longleftrightarrow> ms_committee ms = c \<and>
     (\<forall>(k, v, agg) \<in> set (ms_stake_maps ms). votes_ok agg \<and> infos_ok agg \<and> sa_committee agg = c)"

lemma ms_ok_new: "ms_ok c (ms_new c)"
  by (simp add: ms_ok_def ms_new_def)

lemma ms_insert_ok:
  assumes "ms_ok c ms" and "sui_committee_wf c" and "ms_insert lib strong k msg si ms = (r, ms')"
  shows "ms_ok c ms'"
proof -
  have add: "ms_ok c (ms\<lparr>ms_stake_maps := bt_insert k (v, agg) (ms_stake_maps ms)\<rparr>)"
    if "votes_ok agg" "infos_ok agg" "sa_committee agg = c" for v agg
  proof -
    have "set (bt_insert k (v, agg) m) \<subseteq> insert (k, v, agg) (set m)" for m by (induction m) auto
    with that assms(1) show ?thesis unfolding ms_ok_def by fastforce
  qed
  show ?thesis
  proof (cases "bt_get (ms_stake_maps ms) k")
    case None
    obtain r1 agg1 where i: "sa_insert lib strong msg si (sa_new c) = (r1, agg1)" by fastforce
    note new = sa_insert_ok [OF votes_ok_new [OF assms(2)] infos_ok_new i]
    have "ms_committee ms = c" using assms(1) by (simp add: ms_ok_def)
    then have "ms' \<in> {ms, ms\<lparr>ms_stake_maps := bt_insert k (msg, agg1) (ms_stake_maps ms)\<rparr>}"
      using assms(3) None i by (auto simp: ms_insert_def split: insert_result.splits)
    moreover have "sa_committee agg1 = c" using new(3) by (simp add: sa_new_def)
    ultimately show ?thesis using add [OF new(1,2)] assms(1) by blast
  next
    case (Some va)
    obtain v agg where va: "va = (v, agg)" by (cases va)
    have "(k, v, agg) \<in> set (ms_stake_maps ms)" using Some by (auto simp: va bt_get_def dest: map_of_SomeD)
    with assms(1) have ok: "votes_ok agg" "infos_ok agg" "sa_committee agg = c" by (auto simp: ms_ok_def)
    obtain r1 agg1 where i: "sa_insert lib strong msg si agg = (r1, agg1)" by fastforce
    with sa_insert_ok [OF ok(1,2) i] ok(3) assms(3) Some va add show ?thesis by (auto simp: ms_insert_def)
  qed
qed

lemma ms_insert_quorum:
  assumes "ms_ok c ms" and "sui_committee_wf c" and "ms_insert lib strong k msg si ms = (QuorumReached q, ms')" and "unforgeable lib has_signed"
  shows "signed_by_quorum c has_signed strong (message_bytes lib msg (sc_epoch c)) (set (signer_names c q))"
proof (cases "bt_get (ms_stake_maps ms) k")
  case None
  obtain r1 agg1 where i: "sa_insert lib strong msg si (sa_new (ms_committee ms)) = (r1, agg1)" by fastforce
  then have "r1 = QuorumReached q" using assms(3) None by (auto simp: ms_insert_def split: insert_result.splits)
  with i sa_insert_quorum [OF votes_ok_new [OF assms(2)] infos_ok_new _ assms(4)] assms(1) show ?thesis
    by (simp add: ms_ok_def sa_new_def)
next
  case (Some va)
  obtain v agg where va: "va = (v, agg)" by (cases va)
  have "(k, v, agg) \<in> set (ms_stake_maps ms)" using Some by (auto simp: va bt_get_def dest: map_of_SomeD)
  with assms(1) have ok: "votes_ok agg" "infos_ok agg" "sa_committee agg = c" by (auto simp: ms_ok_def)
  obtain agg1 where "sa_insert lib strong msg si agg = (QuorumReached q, agg1)"
    using assms(3) Some va by (auto simp: ms_insert_def split: prod.splits)
  from sa_insert_quorum [OF ok(1,2) this assms(4)] ok(3) show ?thesis by simp
qed

text \<open>What a scan of the signatures keeps, and what the certificate it finds means.\<close>

lemma scan_signatures_ok:
  assumes "scan_signatures lib slib xs cur = (r, cur')" and "ms_ok c (signatures_by_digest cur)" and "sui_committee_wf c"
    and "unforgeable slib has_signed"
  shows "ms_ok c (signatures_by_digest cur')" "csa_summary cur' = csa_summary cur" "csa_digest cur' = csa_digest cur"
    "r = Some q \<Longrightarrow> signed_by_quorum c has_signed True (message_bytes slib (csa_summary cur) (sc_epoch c)) (set (signer_names c q))"
proof -
  have "ms_ok c (signatures_by_digest cur') \<and> csa_summary cur' = csa_summary cur \<and> csa_digest cur' = csa_digest cur \<and>
    (\<forall>q. r = Some q \<longrightarrow> signed_by_quorum c has_signed True (message_bytes slib (csa_summary cur) (sc_epoch c)) (set (signer_names c q)))"
    using assms(1,2,4)
  proof (induction lib slib xs cur rule: scan_signatures.induct)
    case (2 lib slib seq i info rest cur)
    show ?case
    proof (cases "seq = cs_sequence_number (csa_summary cur)")
      case True
      obtain r1 ms where ins: "ms_insert slib True (summary_hash lib (sm_summary info)) (csa_summary cur) (sm_sign_info info) (signatures_by_digest cur) = (r1, ms)"
        by fastforce
      note ok = ms_insert_ok [OF "2.prems"(2) assms(3) ins]
      obtain r2 where t: "try_aggregate lib slib info cur = (r2, cur\<lparr>signatures_by_digest := ms\<rparr>)"
        by (simp add: try_aggregate_def ins)
      show ?thesis
      proof (cases r2)
        case None
        with "2.prems" True t ok show ?thesis using "2.IH" [of None "cur\<lparr>signatures_by_digest := ms\<rparr>"] by simp
      next
        case (Some q)
        then have "r1 = QuorumReached q" using t by (auto simp: try_aggregate_def ins split: insert_result.splits if_splits)
        from ms_insert_quorum [OF "2.prems"(2) assms(3) ins [unfolded this] "2.prems"(3)] "2.prems" True t ok Some show ?thesis by auto
      qed
    qed (use "2.prems" in simp)
  qed simp
  then show "ms_ok c (signatures_by_digest cur')" "csa_summary cur' = csa_summary cur" "csa_digest cur' = csa_digest cur"
    "r = Some q \<Longrightarrow> signed_by_quorum c has_signed True (message_bytes slib (csa_summary cur) (sc_epoch c)) (set (signer_names c q))"
    by blast+
qed

end
