(* ===== verification/CheckpointSystem.thy ===== *)
theory CheckpointSystem
  imports CheckpointAggregator
begin

text \<open>
  A validator that builds, signs and certifies checkpoints: the steps of the builder, arriving signatures, turns of the
  aggregator and restarts of the service, with the checkpoints built and the certificates made. Its invariant, that a turn
  of the aggregator returns, and the agreement of two validators on what they certify.
\<close>

section \<open>Built checkpoints\<close>

text \<open>What the builder records is among the built checkpoints and is the local checkpoint of its number.\<close>

definition built_ok :: "builder_state \<Rightarrow> (checkpoint_summary \<times> checkpoint_contents) list \<Rightarrow> bool" where
  "built_ok st H \<longleftrightarrow>
     (\<forall>k s. get_built_checkpoint_summary k st = Some s \<longrightarrow> s \<in> fst ` set H \<and> bt_get (locally_computed_checkpoints st) k = Some s)"

definition summary_updates ::
  "(checkpoint_summary \<times> checkpoint_contents) list \<Rightarrow> (nat \<rightharpoonup> checkpoint_summary) \<Rightarrow> (nat \<rightharpoonup> checkpoint_summary)" where
  "summary_updates = fold (\<lambda>(s, c) m. m(cs_sequence_number s \<mapsto> s))"

lemma store_checkpoint_updates:
  "bt_get (locally_computed_checkpoints (fold (store_checkpoint lib) new st)) = summary_updates new (bt_get (locally_computed_checkpoints st))"
  by (induction new arbitrary: st) (auto simp: summary_updates_def store_checkpoint_def bt_get_insert)

lemma store_checkpoint_built [simp]:
  "builder_summaries (fold (store_checkpoint lib) new st) = builder_summaries st"
  "certified_checkpoints (fold (store_checkpoint lib) new st) = certified_checkpoints st"
  by (induction new arbitrary: st) (auto simp: store_checkpoint_def)

lemma record_built_updates:
  "(\<lambda>k. get_built_checkpoint_summary k (fold (record_built h) xs st)) = summary_updates (map snd xs) (\<lambda>k. get_built_checkpoint_summary k st)"
proof (induction xs arbitrary: st)
  case (Cons x xs)
  obtain i s c where x: "x = (i, s, c)" by (cases x)
  have "(\<lambda>k. get_built_checkpoint_summary k (record_built h x st)) = (\<lambda>k. get_built_checkpoint_summary k st)(cs_sequence_number s \<mapsto> s)"
    by (auto simp: x get_built_checkpoint_summary_def record_built_def bt_get_insert)
  with Cons.IH [of "record_built h x st"] show ?case by (simp add: summary_updates_def x)
qed (simp add: summary_updates_def)

lemma summary_updates_agree:
  assumes "\<forall>k s. B k = Some s \<longrightarrow> s \<in> S \<and> L k = Some s" and "summary_updates new B k = Some s"
  shows "s \<in> S \<union> fst ` set new \<and> summary_updates new L k = Some s"
  using assms
proof (induction new arbitrary: B L S)
  case (Cons x new)
  obtain s' c where x: "x = (s', c)" by (cases x)
  let ?f = "\<lambda>m. m(cs_sequence_number s' \<mapsto> s')"
  have step: "summary_updates (x # new) m = summary_updates new (?f m)" for m by (simp add: summary_updates_def x)
  have "\<forall>k s. ?f B k = Some s \<longrightarrow> s \<in> insert s' S \<and> ?f L k = Some s" using Cons.prems(1) by simp
  note ih = Cons.IH [OF this Cons.prems(2) [unfolded step]]
  show ?case unfolding step using conjunct1 [OF ih] by (intro conjI conjunct2 [OF ih]) (auto simp: x)
qed (auto simp: summary_updates_def)

lemma write_checkpoints_built:
  assumes "built_ok st H" and "write_checkpoints h new lib st = Some st'"
  shows "built_ok st' (H @ new)"
proof -
  let ?st = "fold (store_checkpoint lib) new st"
  have eq: "st' = process_pending_checkpoint h new ?st" using assms(2) by (simp add: write_checkpoints_total split: if_splits)
  have "(\<lambda>k. get_built_checkpoint_summary k st') = summary_updates new (\<lambda>k. get_built_checkpoint_summary k st)"
    unfolding eq process_pending_checkpoint_def record_built_updates by (simp add: get_built_checkpoint_summary_def)
  moreover have "bt_get (locally_computed_checkpoints st') = summary_updates new (bt_get (locally_computed_checkpoints st))"
    by (simp add: eq store_checkpoint_updates)
  ultimately show ?thesis
    using summary_updates_agree [of "\<lambda>k. get_built_checkpoint_summary k st" "fst ` set H" "bt_get (locally_computed_checkpoints st)" new] assms(1)
    unfolding built_ok_def by (metis image_Un set_append)
qed

lemma make_checkpoint_writes:
  assumes "make_checkpoint lib cfg reads h p st = Some (Inr (new, st'))"
  shows "write_checkpoints h new lib st = Some st'"
  using assms unfolding make_checkpoint_def by (auto elim!: bind_SomeE split: sum.splits)

lemma insert_certified_tables:
  assumes "insert_certified_checkpoint lib c st = Some st'"
  shows "builder_summaries st' = builder_summaries st" "locally_computed_checkpoints st' = locally_computed_checkpoints st"
    "certified_checkpoints st' = bt_insert (cs_sequence_number c) c (certified_checkpoints st)"
  using assms by (auto simp: insert_certified_checkpoint_def Let_def option_simps split: option.splits if_splits)

definition tables_ok :: "builder_state \<Rightarrow> (checkpoint_summary \<times> checkpoint_contents) list \<Rightarrow> bool" where
  "tables_ok st H \<longleftrightarrow> built_ok st H \<and> keys_sorted (certified_checkpoints st)"

lemma tables_ok_certified: "tables_ok st H \<Longrightarrow> insert_certified_checkpoint lib c st = Some st' \<Longrightarrow> tables_ok st' H"
  by (simp add: tables_ok_def built_ok_def get_built_checkpoint_summary_def insert_certified_tables)

lemma tables_ok_step:
  assumes "builder_step lib cfg reads (st, H) (st', H')" and "tables_ok st H"
  shows "tables_ok st' H'" "set H \<subseteq> set H'"
proof -
  from assms(1) have "tables_ok st' H' \<and> set H \<subseteq> set H'"
  proof cases
    case (Pending p)
    then have "builder_summaries st' = builder_summaries st" "locally_computed_checkpoints st' = locally_computed_checkpoints st"
      "certified_checkpoints st' = certified_checkpoints st"
      by (auto simp: write_pending_checkpoint_def option_simps split: option.splits)
    with assms(2) Pending show ?thesis by (simp add: tables_ok_def built_ok_def get_built_checkpoint_summary_def)
  next
    case (Certified c)
    with assms(2) tables_ok_certified show ?thesis by auto
  next
    case (Build h p new)
    note w = make_checkpoint_writes [OF Build(3)]
    then have "certified_checkpoints st' = certified_checkpoints st" by (auto simp: write_checkpoints_total split: if_splits)
    with write_checkpoints_built [OF _ w, of H] assms(2) Build show ?thesis by (auto simp: tables_ok_def)
  qed
  then show "tables_ok st' H'" "set H \<subseteq> set H'" by blast+
qed

section \<open>The validator\<close>

type_synonym ('s, 'a) node = "'s aggregator_state \<times> (checkpoint_summary \<times> checkpoint_contents) list \<times> 'a certified list"

inductive checkpoint_step ::
  "checkpoint_lib \<Rightarrow> (checkpoint_summary, 's, 'a) sig_lib \<Rightarrow> checkpoint_config \<Rightarrow> checkpoint_reads \<Rightarrow> ('s, 'a) node \<Rightarrow> ('s, 'a) node \<Rightarrow> bool"
  for lib slib cfg reads where
  Builder: "builder_step lib cfg reads (ag_tables st, H) (tables, H') \<Longrightarrow>
    checkpoint_step lib slib cfg reads (st, H, C) (st\<lparr>ag_tables := tables\<rparr>, H', C)"
| Signature: "checkpoint_step lib slib cfg reads (st, H, C) (notify_checkpoint_signature info st, H, C)"
| Aggregate: "run_inner lib slib st = Some (certs, st') \<Longrightarrow> checkpoint_step lib slib cfg reads (st, H, C) (st', H, C @ certs)"
| Restart: "checkpoint_step lib slib cfg reads (st, H, C)
    (service_spawn (ag_tables st) (ag_committee st) (pending_checkpoint_signatures st), H, C)"

definition checkpoint_start :: "sui_committee \<Rightarrow> 's aggregator_state \<Rightarrow> bool" where
  "checkpoint_start c st \<longleftrightarrow> (\<exists>tables. st = service_spawn tables c [] \<and> builder_start tables \<and> keys_sorted (certified_checkpoints tables))"

definition current_ok ::
  "checkpoint_lib \<Rightarrow> sui_committee \<Rightarrow> (checkpoint_summary \<times> checkpoint_contents) list \<Rightarrow> 's signature_aggregator \<Rightarrow> bool" where
  "current_ok lib c H cur \<longleftrightarrow>
     ms_ok c (signatures_by_digest cur) \<and> csa_digest cur = summary_hash lib (csa_summary cur) \<and> csa_summary cur \<in> fst ` set H"

definition node_ok :: "checkpoint_lib \<Rightarrow> sui_committee \<Rightarrow> 's aggregator_state \<Rightarrow> (checkpoint_summary \<times> checkpoint_contents) list \<Rightarrow> bool" where
  "node_ok lib c st H \<longleftrightarrow>
     ag_committee st = c \<and> tables_ok (ag_tables st) H \<and> (\<forall>cur. ag_current st = Some cur \<longrightarrow> current_ok lib c H cur)"

text \<open>A certificate for a checkpoint of the list, signed by a quorum.\<close>

definition certified_ok ::
  "(checkpoint_summary, 's, 'a) sig_lib \<Rightarrow> sui_committee \<Rightarrow> (nat \<Rightarrow> bytes \<Rightarrow> bool) \<Rightarrow> (checkpoint_summary \<times> checkpoint_contents) list \<Rightarrow>
     'a certified \<Rightarrow> bool" where
  "certified_ok slib c has_signed H x \<longleftrightarrow>
     fst x \<in> fst ` set H \<and>
     signed_by_quorum c has_signed True (message_bytes slib (fst x) (sc_epoch c)) (set (signer_names c (snd x)))"

text \<open>One iteration of the aggregator.\<close>

definition round_ok ::
  "checkpoint_lib \<Rightarrow> (checkpoint_summary, 's, 'a) sig_lib \<Rightarrow> checkpoint_config \<Rightarrow> checkpoint_reads \<Rightarrow> sui_committee \<Rightarrow> (nat \<Rightarrow> bytes \<Rightarrow> bool) \<Rightarrow>
     (checkpoint_summary \<times> checkpoint_contents) list \<Rightarrow> 's aggregator_state \<Rightarrow> 'a certified list \<Rightarrow> 's aggregator_state \<Rightarrow> bool" where
  "round_ok lib slib cfg reads c has_signed H st certs st' \<longleftrightarrow>
     node_ok lib c st' H \<and> list_all (certified_ok slib c has_signed H) certs \<and>
     (builder_step lib cfg reads)\<^sup>*\<^sup>* (ag_tables st, H) (ag_tables st', H)"

lemma aggregate_current_ok:
  assumes run: "aggregate_current lib slib st result cur = Some (go_on, result', st')" and node: "node_ok lib c st H"
    and cur: "current_ok lib c H cur" and wf: "sui_committee_wf c" and unf: "unforgeable slib has_signed"
  obtains certs where "result' = result @ certs" "round_ok lib slib cfg reads c has_signed H st certs st'"
proof -
  let ?xs = "get_pending_checkpoint_signatures_iter (cs_sequence_number (csa_summary cur)) (csa_next_index cur) st"
  obtain r cur' where scan: "scan_signatures lib slib ?xs cur = (r, cur')" by fastforce
  have "ms_ok c (signatures_by_digest cur)" using cur by (simp add: current_ok_def)
  note s = scan_signatures_ok [OF scan this wf unf]
  have cur': "current_ok lib c H cur'" using cur s(1-3) by (simp add: current_ok_def)
  show ?thesis
  proof (cases r)
    case None
    with run scan have "result' = result" "st' = st\<lparr>ag_current := Some cur'\<rparr>" by (simp_all add: aggregate_current_def)
    with node cur' that [of "[]"] show ?thesis by (simp add: round_ok_def node_ok_def)
  next
    case (Some q)
    obtain tables where ins: "insert_certified_checkpoint lib (csa_summary cur') (ag_tables st) = Some tables"
      "result' = result @ [(csa_summary cur', q)]" "st' = st\<lparr>ag_tables := tables, ag_current := None\<rparr>"
      using run scan Some by (auto simp: aggregate_current_def option_simps)
    have "builder_step lib cfg reads (ag_tables st, H) (tables, H)" by (rule builder_step.Certified [OF ins(1)])
    moreover have "tables_ok tables H" using tables_ok_certified [OF _ ins(1)] node by (simp add: node_ok_def)
    moreover have "certified_ok slib c has_signed H (csa_summary cur', q)"
      using s(2) s(4) [OF Some] cur by (simp add: certified_ok_def current_ok_def)
    ultimately have "round_ok lib slib cfg reads c has_signed H st [(csa_summary cur', q)] st'"
      using node by (simp add: round_ok_def ins(3) node_ok_def)
    with that ins(2) show ?thesis by blast
  qed
qed

lemma current_ok_new:
  assumes "node_ok lib c st H" and "get_built_checkpoint_summary k (ag_tables st) = Some s"
  shows "current_ok lib c H \<lparr>csa_next_index = 0, csa_summary = s, csa_digest = summary_hash lib s, signatures_by_digest = ms_new (ag_committee st)\<rparr>"
  using assms ms_ok_new by (auto simp: current_ok_def node_ok_def tables_ok_def built_ok_def)

lemma aggregator_round_ok:
  assumes run: "aggregator_round lib slib st result = Some (go_on, result', st')" and node: "node_ok lib c st H"
    and wf: "sui_committee_wf c" and unf: "unforgeable slib has_signed"
  obtains certs where "result' = result @ certs" "round_ok lib slib cfg reads c has_signed H st certs st'"
proof (cases "ag_current st")
  case None
  show ?thesis
  proof (cases "get_built_checkpoint_summary (next_checkpoint_to_certify (ag_tables st)) (ag_tables st)")
    case none: None
    with run None that [of "[]"] node show ?thesis by (simp add: aggregator_round_def round_ok_def)
  next
    case (Some s)
    with run None have "aggregate_current lib slib st result
        \<lparr>csa_next_index = 0, csa_summary = s, csa_digest = summary_hash lib s, signatures_by_digest = ms_new (ag_committee st)\<rparr> =
        Some (go_on, result', st')" by (simp add: aggregator_round_def)
    from aggregate_current_ok [OF this node current_ok_new [OF node Some] wf unf] that show ?thesis by metis
  qed
next
  case (Some cur)
  have cur: "current_ok lib c H cur" using node Some by (simp add: node_ok_def)
  show ?thesis
  proof (cases "cs_sequence_number (csa_summary cur) < next_checkpoint_to_certify (ag_tables st)")
    case True
    with run Some node that [of "[]"] show ?thesis by (auto simp: aggregator_round_def round_ok_def node_ok_def)
  next
    case False
    with run Some have "aggregate_current lib slib st result cur = Some (go_on, result', st')" by (simp add: aggregator_round_def)
    from aggregate_current_ok [OF this node cur wf unf] that show ?thesis by metis
  qed
qed

lemma round_ok_trans:
  assumes "round_ok lib slib cfg reads c has_signed H st certs st'" and "round_ok lib slib cfg reads c has_signed H st' certs' st''"
  shows "round_ok lib slib cfg reads c has_signed H st (certs @ certs') st''"
  using assms by (auto simp: round_ok_def)

lemma aggregator_loop_ok:
  assumes run: "aggregator_loop lib slib st result = Some r" and node: "node_ok lib c st H"
    and wf: "sui_committee_wf c" and unf: "unforgeable slib has_signed"
  shows "\<exists>certs. fst r = result @ certs \<and> round_ok lib slib cfg reads c has_signed H st certs (snd r)"
proof -
  let ?P = "\<lambda>lib slib st result r. node_ok lib c st H \<longrightarrow> unforgeable slib has_signed \<longrightarrow>
    (\<exists>certs. fst r = result @ certs \<and> round_ok lib slib cfg reads c has_signed H st certs (snd r))"
  have "?P lib slib st result r"
  proof (rule aggregator_loop.raw_induct [where P = ?P, OF _ run], intro impI)
    fix loop lib slib st result r
    assume ih: "\<And>lib slib st result r. loop lib slib st result = Some r \<Longrightarrow> ?P lib slib st result r"
      and step: "do { (go_on, result, st) \<leftarrow> aggregator_round lib slib st result; if go_on then loop lib slib st result else Some (result, st) } = Some r"
      and node: "node_ok lib c st H" and unf: "unforgeable slib has_signed"
    obtain go_on result1 st1 where round: "aggregator_round lib slib st result = Some (go_on, result1, st1)"
      and rest: "(if go_on then loop lib slib st1 result1 else Some (result1, st1)) = Some r" using step by (auto elim!: bind_SomeE)
    obtain certs where certs: "result1 = result @ certs" "round_ok lib slib cfg reads c has_signed H st certs st1"
      by (rule aggregator_round_ok [OF round node wf unf])
    show "\<exists>certs. fst r = result @ certs \<and> round_ok lib slib cfg reads c has_signed H st certs (snd r)"
    proof (cases go_on)
      case True
      with rest ih [of lib slib st1 result1 r] certs(2) unf obtain certs' where
        "fst r = result1 @ certs'" "round_ok lib slib cfg reads c has_signed H st1 certs' (snd r)" by (auto simp: round_ok_def)
      with certs round_ok_trans show ?thesis by (metis append.assoc)
    qed (use rest certs in auto)
  qed
  with node unf show ?thesis by blast
qed

lemma run_inner_ok:
  assumes "run_inner lib slib st = Some (certs, st')" and "node_ok lib c st H" and "sui_committee_wf c" and "unforgeable slib has_signed"
  shows "round_ok lib slib cfg reads c has_signed H st certs st'"
  using aggregator_loop_ok [OF assms(1) [unfolded run_inner_def] assms(2-4)] by auto

section \<open>Reachable states\<close>

lemma node_ok_start: "checkpoint_start c st \<Longrightarrow> node_ok lib c st []"
  by (auto simp: checkpoint_start_def node_ok_def tables_ok_def built_ok_def service_spawn_def Let_def builder_start_def
      get_built_checkpoint_summary_def bt_get_def)

lemma certified_ok_mono: "certified_ok slib c has_signed H x \<Longrightarrow> set H \<subseteq> set H' \<Longrightarrow> certified_ok slib c has_signed H' x"
  by (auto simp: certified_ok_def)

lemma notify_signature_rest [simp]:
  "ag_tables (notify_checkpoint_signature info st) = ag_tables st" "ag_committee (notify_checkpoint_signature info st) = ag_committee st"
  "ag_current (notify_checkpoint_signature info st) = ag_current st"
  by (simp_all add: notify_checkpoint_signature_def insert_checkpoint_signature_def Let_def)

text \<open>What holds of a validator in every reachable state, and its builder by itself.\<close>

definition node_inv ::
  "checkpoint_lib \<Rightarrow> (checkpoint_summary, 's, 'a) sig_lib \<Rightarrow> checkpoint_config \<Rightarrow> checkpoint_reads \<Rightarrow> sui_committee \<Rightarrow> (nat \<Rightarrow> bytes \<Rightarrow> bool) \<Rightarrow>
     builder_state \<Rightarrow> ('s, 'a) node \<Rightarrow> bool" where
  "node_inv lib slib cfg reads c has_signed tables0 n \<longleftrightarrow>
     (case n of (st, H, C) \<Rightarrow>
        node_ok lib c st H \<and> list_all (certified_ok slib c has_signed H) C \<and> (builder_step lib cfg reads)\<^sup>*\<^sup>* (tables0, []) (ag_tables st, H))"

lemma checkpoint_inv_step:
  assumes step: "checkpoint_step lib slib cfg reads n n'" and inv: "node_inv lib slib cfg reads c has_signed tables0 n"
    and wf: "sui_committee_wf c" and unf: "unforgeable slib has_signed"
  shows "node_inv lib slib cfg reads c has_signed tables0 n'"
  using step
proof cases
  case (Builder st H tables H' C)
  have ok: "node_ok lib c st H" "list_all (certified_ok slib c has_signed H) C" "(builder_step lib cfg reads)\<^sup>*\<^sup>* (tables0, []) (ag_tables st, H)"
    using inv by (simp_all add: node_inv_def Builder)
  have "tables_ok (ag_tables st) H" using ok(1) by (simp add: node_ok_def)
  note t = tables_ok_step [OF Builder(3) this]
  have "node_ok lib c (st\<lparr>ag_tables := tables\<rparr>) H'" using ok(1) t by (fastforce simp: node_ok_def current_ok_def)
  moreover have "list_all (certified_ok slib c has_signed H') C"
    using ok(2) by (rule list.pred_mono_strong) (rule certified_ok_mono [OF _ t(2)])
  moreover have "(builder_step lib cfg reads)\<^sup>*\<^sup>* (tables0, []) (tables, H')" using ok(3) Builder(3) by simp
  ultimately show ?thesis by (simp add: node_inv_def Builder)
next
  case (Signature st H C info)
  with inv show ?thesis by (simp add: node_inv_def node_ok_def)
next
  case (Aggregate st certs st' H C)
  have "node_ok lib c st H" using inv by (simp add: node_inv_def Aggregate)
  from run_inner_ok [OF Aggregate(3) this wf unf, of cfg reads] inv show ?thesis
    by (auto simp: node_inv_def Aggregate round_ok_def)
next
  case (Restart st H C)
  with inv show ?thesis by (simp add: node_inv_def node_ok_def service_spawn_def Let_def)
qed

lemma checkpoint_inv_reachable:
  assumes start: "checkpoint_start c st0" and run: "(checkpoint_step lib slib cfg reads)\<^sup>*\<^sup>* (st0, [], []) n"
    and wf: "sui_committee_wf c" and unf: "unforgeable slib has_signed"
  shows "node_inv lib slib cfg reads c has_signed (ag_tables st0) n"
  using run
proof induction
  case base
  then show ?case using node_ok_start [OF start] by (simp add: node_inv_def)
next
  case (step y z)
  from checkpoint_inv_step [OF step.hyps(2) step.IH wf unf] show ?case .
qed

section \<open>A turn of the aggregator returns\<close>

definition certified_numbers_left :: "builder_state \<Rightarrow> bool" where
  "certified_numbers_left st \<longleftrightarrow> (\<forall>k \<in> fst ` set (certified_checkpoints st). k < 2 ^ 64 - 1)"

definition left_to_certify :: "builder_state \<Rightarrow> nat set" where
  "left_to_certify st = {k. get_built_checkpoint_summary k st \<noteq> None \<and> next_checkpoint_to_certify st \<le> k}"

lemma finite_left: "finite (left_to_certify st)"
proof (rule finite_subset)
  show "left_to_certify st \<subseteq> dom (bt_get (builder_summaries st))" by (auto simp: left_to_certify_def get_built_checkpoint_summary_def)
  have "bt_get (builder_summaries st) = map_of (builder_summaries st)" by (rule ext) (simp add: bt_get_def)
  then show "finite (dom (bt_get (builder_summaries st)))" by (simp only: finite_dom_map_of)
qed

text \<open>The next number is above everything certified.\<close>

lemma next_to_certify_above:
  assumes "keys_sorted (certified_checkpoints st)" and "certified_numbers_left st" and "k \<in> fst ` set (certified_checkpoints st)"
  shows "k < next_checkpoint_to_certify st"
proof -
  let ?m = "certified_checkpoints st"
  have ne: "?m \<noteq> []" using assms(3) by auto
  then obtain j v where l: "last ?m = (j, v)" "(j, v) \<in> set ?m" by (metis last_in_set prod.collapse)
  have "sorted (map fst ?m)" using assms(1) by (simp add: strict_sorted_iff)
  moreover have "last (map fst ?m) = j" using ne l(1) by (simp add: last_map)
  moreover have "x \<le> last xs" if "sorted xs" "x \<in> set xs" for xs and x :: nat using that by (induction xs) auto
  ultimately have "k \<le> j" using assms(3) by (metis image_set)
  moreover have "j < 2 ^ 64 - 1" using assms(2) l(2) by (force simp: certified_numbers_left_def)
  ultimately show ?thesis using ne l(1) by (simp add: next_checkpoint_to_certify_def bt_last_def add64_def)
qed

lemma built_of_inv:
  assumes "builder_inv lib reads st H" and "numbers_left H" and "s \<in> fst ` set H"
  shows "get_built_checkpoint_summary (cs_sequence_number s) st = Some s" "cs_sequence_number s < 2 ^ 64 - 1"
proof -
  have sum: "summaries_of st = numbered H" and "\<exists>prev. chained lib prev H" using assms(1) by (simp_all add: builder_inv_def)
  then obtain prev where "chained lib prev H" by blast
  from chained_sorted [OF this assms(2)] have srt: "sorted_wrt (<) (map fst (numbered H))" .
  have "map fst (summaries_of st) = map fst (builder_summaries st)" by (simp add: summaries_of_def case_prod_beta')
  with srt sum have ks: "keys_sorted (builder_summaries st)" by metis
  have "(cs_sequence_number s, s) \<in> set (summaries_of st)" unfolding sum using assms(3) by force
  then obtain b where "(cs_sequence_number s, b) \<in> set (builder_summaries st)" "bcs_summary b = s" by (auto simp: summaries_of_def)
  then show "get_built_checkpoint_summary (cs_sequence_number s) st = Some s"
    by (simp add: get_built_checkpoint_summary_def bt_get_in_set [OF ks, THEN iffD2])
  show "cs_sequence_number s < 2 ^ 64 - 1" using assms(2,3) by (force simp: numbers_left_def list_all_iff)
qed

definition turn_measure :: "'s aggregator_state \<Rightarrow> nat" where
  "turn_measure st = 2 * card (left_to_certify (ag_tables st)) + (if ag_current st = None then 0 else 1)"

definition turn_ok :: "checkpoint_lib \<Rightarrow> checkpoint_reads \<Rightarrow> sui_committee \<Rightarrow> (checkpoint_summary \<times> checkpoint_contents) list \<Rightarrow> 's aggregator_state \<Rightarrow> bool" where
  "turn_ok lib reads c H st \<longleftrightarrow>
     node_ok lib c st H \<and> builder_inv lib reads (ag_tables st) H \<and> numbers_left H \<and> certified_numbers_left (ag_tables st)"

lemma aggregate_current_returns:
  assumes t: "turn_ok lib reads c H st" and cur: "current_ok lib c H cur" and wf: "sui_committee_wf c" and unf: "unforgeable slib has_signed"
    and above: "next_checkpoint_to_certify (ag_tables st) \<le> cs_sequence_number (csa_summary cur)"
  obtains go_on result' st' where "aggregate_current lib slib st result cur = Some (go_on, result', st')"
    "go_on \<Longrightarrow> turn_ok lib reads c H st' \<and> turn_measure st' < turn_measure st"
proof -
  let ?xs = "get_pending_checkpoint_signatures_iter (cs_sequence_number (csa_summary cur)) (csa_next_index cur) st"
  obtain r cur' where scan: "scan_signatures lib slib ?xs cur = (r, cur')" by fastforce
  have "ms_ok c (signatures_by_digest cur)" using cur by (simp add: current_ok_def)
  note s = scan_signatures_ok [OF scan this wf unf]
  show ?thesis
  proof (cases r)
    case None
    have "aggregate_current lib slib st result cur = Some (False, result, st\<lparr>ag_current := Some cur'\<rparr>)"
      using scan None by (simp add: aggregate_current_def)
    then show ?thesis by (rule that) simp
  next
    case (Some q)
    let ?s = "csa_summary cur" and ?t = "ag_tables st"
    have node: "node_ok lib c st H" "builder_inv lib reads ?t H" "numbers_left H" "certified_numbers_left ?t" using t by (simp_all add: turn_ok_def)
    have "?s \<in> fst ` set H" using cur by (simp add: current_ok_def)
    note b = built_of_inv [OF node(2,3) this]
    have local: "bt_get (locally_computed_checkpoints ?t) (cs_sequence_number ?s) = Some ?s"
      using node(1) b(1) by (simp add: node_ok_def tables_ok_def built_ok_def)
    then obtain tables where ins: "insert_certified_checkpoint lib ?s ?t = Some tables"
      by (cases "cs_end_of_epoch_data ?s") (auto simp: insert_certified_checkpoint_def Let_def check_for_checkpoint_fork_def)
    let ?st = "st\<lparr>ag_tables := tables, ag_current := None\<rparr>"
    have tab: "tables_ok tables H" using tables_ok_certified [OF _ ins] node(1) by (simp add: node_ok_def)
    have left: "certified_numbers_left tables"
      using node(4) b(2) by (simp add: certified_numbers_left_def insert_certified_tables(3) [OF ins])
    have "turn_ok lib reads c H ?st"
      using node tab left insert_certified_inv [OF node(2) ins] by (simp add: turn_ok_def node_ok_def)
    moreover have "turn_measure ?st < turn_measure st"
    proof -
      have "keys_sorted (certified_checkpoints tables)" using tab by (simp add: tables_ok_def)
      from next_to_certify_above [OF this left, of "cs_sequence_number ?s"] have above_next: "cs_sequence_number ?s < next_checkpoint_to_certify tables"
        by (simp add: insert_certified_tables(3) [OF ins])
      have same: "get_built_checkpoint_summary k tables = get_built_checkpoint_summary k ?t" for k
        by (simp add: get_built_checkpoint_summary_def insert_certified_tables(1) [OF ins])
      have "left_to_certify tables \<subset> left_to_certify ?t"
      proof
        show "left_to_certify tables \<subseteq> left_to_certify ?t"
          using above_next above by (auto simp: left_to_certify_def same)
        have "cs_sequence_number ?s \<in> left_to_certify ?t" "cs_sequence_number ?s \<notin> left_to_certify tables"
          using above b(1) above_next by (simp_all add: left_to_certify_def)
        then show "left_to_certify tables \<noteq> left_to_certify ?t" by blast
      qed
      then have "card (left_to_certify tables) < card (left_to_certify ?t)" by (rule psubset_card_mono [OF finite_left])
      then show ?thesis by (simp add: turn_measure_def)
    qed
    moreover have "aggregate_current lib slib st result cur = Some (True, result @ [(csa_summary cur', q)], ?st)"
      using scan Some ins s(2) by (simp add: aggregate_current_def)
    ultimately show ?thesis using that by blast
  qed
qed

lemma built_number:
  assumes "builder_inv lib reads st H" and "get_built_checkpoint_summary k st = Some s"
  shows "cs_sequence_number s = k"
proof -
  have "(k, s) \<in> set (summaries_of st)"
    using assms(2) by (force simp: get_built_checkpoint_summary_def summaries_of_def bt_get_def dest: map_of_SomeD)
  with assms(1) show ?thesis by (auto simp: builder_inv_def)
qed

lemma aggregator_round_returns:
  assumes t: "turn_ok lib reads c H st" and wf: "sui_committee_wf c" and unf: "unforgeable slib has_signed"
  obtains go_on result' st' where "aggregator_round lib slib st result = Some (go_on, result', st')"
    "go_on \<Longrightarrow> turn_ok lib reads c H st' \<and> turn_measure st' < turn_measure st"
proof (cases "ag_current st")
  case None
  show ?thesis
  proof (cases "get_built_checkpoint_summary (next_checkpoint_to_certify (ag_tables st)) (ag_tables st)")
    case (Some s)
    let ?cur = "\<lparr>csa_next_index = 0, csa_summary = s, csa_digest = summary_hash lib s, signatures_by_digest = ms_new (ag_committee st)\<rparr>"
    have "node_ok lib c st H" "builder_inv lib reads (ag_tables st) H" using t by (simp_all add: turn_ok_def)
    then have "current_ok lib c H ?cur" "cs_sequence_number s = next_checkpoint_to_certify (ag_tables st)"
      using current_ok_new [OF _ Some] built_number [OF _ Some] by blast+
    with aggregate_current_returns [OF t _ wf unf, of ?cur result] None Some that show ?thesis by (auto simp: aggregator_round_def)
  qed (use None that in \<open>auto simp: aggregator_round_def\<close>)
next
  case (Some cur)
  have cur: "current_ok lib c H cur" using t Some by (simp add: turn_ok_def node_ok_def)
  show ?thesis
  proof (cases "cs_sequence_number (csa_summary cur) < next_checkpoint_to_certify (ag_tables st)")
    case True
    with Some t that show ?thesis by (auto simp: aggregator_round_def turn_ok_def node_ok_def turn_measure_def)
  next
    case False
    with aggregate_current_returns [OF t cur wf unf, of result] Some that show ?thesis by (auto simp: aggregator_round_def)
  qed
qed

lemma aggregator_loop_returns:
  assumes "turn_ok lib reads c H st" and wf: "sui_committee_wf c" and unf: "unforgeable slib has_signed"
  shows "\<exists>r. aggregator_loop lib slib st result = Some r"
  using assms(1)
proof (induction "turn_measure st" arbitrary: st result rule: less_induct)
  case less
  obtain go_on result' st' where round: "aggregator_round lib slib st result = Some (go_on, result', st')"
    "go_on \<Longrightarrow> turn_ok lib reads c H st' \<and> turn_measure st' < turn_measure st"
    using aggregator_round_returns [OF less.prems wf unf, of result] by metis
  show ?case
    by (subst aggregator_loop.simps) (use round less.hyps in auto)
qed

section \<open>Agreement\<close>

text \<open>An authority outside the faulty set: it signs only the checkpoints its builder made.\<close>

definition honest_signer ::
  "checkpoint_lib \<Rightarrow> (checkpoint_summary, 's, 'a) sig_lib \<Rightarrow> sui_committee \<Rightarrow> (nat \<Rightarrow> bytes \<Rightarrow> bool) \<Rightarrow> authority_name \<Rightarrow> bool" where
  "honest_signer lib slib c has_signed a \<longleftrightarrow>
     (\<exists>cfg reads st0 st H. reads_ok reads \<and> acyclic (executed_rel reads) \<and> builder_start st0 \<and>
        (builder_step lib cfg reads)\<^sup>*\<^sup>* (st0, []) (st, H) \<and> numbers_left H \<and>
        (\<forall>pk msg. sui_public_key c a = Some pk \<longrightarrow> has_signed pk msg \<longrightarrow> (\<exists>s \<in> fst ` set H. msg = message_bytes slib s (sc_epoch c))))"

lemma honest_signs_once:
  assumes honest: "honest_signer lib slib c has_signed a" and inj: "inj (\<lambda>s. message_bytes slib s (sc_epoch c))"
    and pk: "sui_public_key c a = Some pk" and signed: "has_signed pk (message_bytes slib s (sc_epoch c))" "has_signed pk (message_bytes slib s' (sc_epoch c))"
    and same: "cs_sequence_number s = cs_sequence_number s'"
  shows "s = s'"
proof -
  obtain cfg reads st0 st H where n: "reads_ok reads" "acyclic (executed_rel reads)" "builder_start st0"
    "(builder_step lib cfg reads)\<^sup>*\<^sup>* (st0, []) (st, H)" "numbers_left H"
    "\<And>msg. has_signed pk msg \<Longrightarrow> \<exists>s \<in> fst ` set H. msg = message_bytes slib s (sc_epoch c)"
    using honest pk unfolding honest_signer_def by blast
  have built: "s \<in> fst ` set H" if "has_signed pk (message_bytes slib s (sc_epoch c))" for s
  proof -
    from n(6) [OF that] obtain s' where s': "s' \<in> fst ` set H" "message_bytes slib s (sc_epoch c) = message_bytes slib s' (sc_epoch c)" ..
    from injD [OF inj s'(2)] s'(1) show ?thesis by simp
  qed
  note inv = builder_inv_reachable [OF n(1-5)]
  have "get_built_checkpoint_summary (cs_sequence_number s) st = Some s" "get_built_checkpoint_summary (cs_sequence_number s') st = Some s'"
    by (rule built_of_inv(1) [OF inv n(5) built]; rule signed)+
  with same show ?thesis by (metis option.inject)
qed

lemma certified_summaries_agree:
  assumes "sui_committee_wf c" and "sui_faulty c F" and "\<forall>a \<in> sui_members c - F. honest_signer lib slib c has_signed a"
    and "inj (\<lambda>s. message_bytes slib s (sc_epoch c))" and "certified_ok slib c has_signed H1 x1" and "certified_ok slib c has_signed H2 x2"
    and "cs_sequence_number (fst x1) = cs_sequence_number (fst x2)"
  shows "fst x1 = fst x2"
proof -
  from assms(5,6) obtain a pk where "a \<in> sui_members c" "a \<notin> F" "sui_public_key c a = Some pk"
    "has_signed pk (message_bytes slib (fst x1) (sc_epoch c))" "has_signed pk (message_bytes slib (fst x2) (sc_epoch c))"
    unfolding certified_ok_def by (metis certificates_share_signer [OF assms(1) _ _ assms(2)])
  with assms(3) honest_signs_once [OF _ assms(4) _ _ _ assms(7)] show ?thesis by blast
qed

section \<open>Reachable validators\<close>

lemma turn_ok_reachable:
  assumes wf: "sui_committee_wf c" and unf: "unforgeable slib has_signed" and start: "checkpoint_start c st0"
    and run: "(checkpoint_step lib slib cfg reads)\<^sup>*\<^sup>* (st0, [], []) (st, H, C)"
    and reads: "reads_ok reads" "acyclic (executed_rel reads)" and left: "numbers_left H" "certified_numbers_left (ag_tables st)"
  shows "turn_ok lib reads c H st"
proof -
  have inv: "node_ok lib c st H" "(builder_step lib cfg reads)\<^sup>*\<^sup>* (ag_tables st0, []) (ag_tables st, H)"
    using checkpoint_inv_reachable [OF start run wf unf] by (simp_all add: node_inv_def)
  have "builder_start (ag_tables st0)" using start by (auto simp: checkpoint_start_def service_spawn_def Let_def)
  from builder_inv_reachable [OF reads this inv(2) left(1)] inv(1) left show ?thesis by (simp add: turn_ok_def)
qed

lemma certified_reachable:
  assumes "sui_committee_wf c" and "unforgeable slib has_signed" and "checkpoint_start c st0"
    and "(checkpoint_step lib slib cfg reads)\<^sup>*\<^sup>* (st0, [], []) (st, H, C)" and "x \<in> set C"
  shows "certified_ok slib c has_signed H x"
  using checkpoint_inv_reachable [OF assms(3,4,1,2)] assms(5) by (simp add: node_inv_def list_all_iff)

section \<open>Signatures that are lost\<close>

text \<open>
  After a restart the counter of signatures starts at the index of the greatest key, which need not be the greatest index;
  the next signature may then replace a pending one.
\<close>

lemma spawn_notify_replaces:
  assumes last: "bt_last sigs = Some ((seq, i), other)" and old: "bt_get sigs (cs_sequence_number (sm_summary info), add64 i 1) = Some old"
    and open_seq: "\<forall>k v. bt_last (certified_checkpoints tables) = Some (k, v) \<longrightarrow> k < cs_sequence_number (sm_summary info)"
  shows "pending_checkpoint_signatures (notify_checkpoint_signature info (service_spawn tables c sigs)) =
    bt_insert (cs_sequence_number (sm_summary info), add64 i 1) info sigs \<and>
    dom (bt_get (pending_checkpoint_signatures (notify_checkpoint_signature info (service_spawn tables c sigs)))) = dom (bt_get sigs)"
proof -
  have "\<not> (case bt_last (certified_checkpoints tables) of Some (last_certified, _) \<Rightarrow> cs_sequence_number (sm_summary info) \<le> last_certified | None \<Rightarrow> False)"
    using open_seq by (auto split: option.splits)
  then have "pending_checkpoint_signatures (notify_checkpoint_signature info (service_spawn tables c sigs)) =
      bt_insert (cs_sequence_number (sm_summary info), add64 i 1) info sigs"
    by (simp add: notify_checkpoint_signature_def service_spawn_def insert_checkpoint_signature_def get_last_checkpoint_signature_index_def
        last Let_def)
  with old show ?thesis by (auto simp: bt_get_insert)
qed

text \<open>Without a restart, all indices are at most the counter and every signature gets a new key.\<close>

definition indices_below :: "'s aggregator_state \<Rightarrow> bool" where
  "indices_below st \<longleftrightarrow> (\<forall>(q, i) \<in> dom (bt_get (pending_checkpoint_signatures st)). i \<le> last_signature_index st)"

lemma notify_files_new:
  assumes "indices_below st" and "last_signature_index st < 2 ^ 64 - 1"
  shows "indices_below (notify_checkpoint_signature info st) \<and>
    (bt_get (pending_checkpoint_signatures st)) \<subseteq>\<^sub>m (bt_get (pending_checkpoint_signatures (notify_checkpoint_signature info st)))"
proof -
  have i: "add64 (last_signature_index st) 1 = last_signature_index st + 1" using assms(2) by (simp add: add64_def)
  have below: "j \<le> last_signature_index st" if "bt_get (pending_checkpoint_signatures st) (q, j) = Some x" for q j x
    using assms(1) that unfolding indices_below_def by blast
  have fresh: "bt_get (pending_checkpoint_signatures st) (q, last_signature_index st + 1) = None" for q
  proof (rule ccontr)
    assume "bt_get (pending_checkpoint_signatures st) (q, last_signature_index st + 1) \<noteq> None"
    with below show False by fastforce
  qed
  have "notify_checkpoint_signature info st = st \<or>
      pending_checkpoint_signatures (notify_checkpoint_signature info st) =
        bt_insert (cs_sequence_number (sm_summary info), last_signature_index st + 1) info (pending_checkpoint_signatures st) \<and>
      last_signature_index (notify_checkpoint_signature info st) = last_signature_index st + 1"
    unfolding notify_checkpoint_signature_def insert_checkpoint_signature_def i by (simp add: Let_def)
  then show ?thesis
  proof (elim disjE conjE)
    assume n: "pending_checkpoint_signatures (notify_checkpoint_signature info st) =
        bt_insert (cs_sequence_number (sm_summary info), last_signature_index st + 1) info (pending_checkpoint_signatures st)"
      "last_signature_index (notify_checkpoint_signature info st) = last_signature_index st + 1"
    have "indices_below (notify_checkpoint_signature info st)"
      unfolding indices_below_def n using below by (auto simp: bt_get_insert intro: le_SucI)
    moreover have "bt_get (pending_checkpoint_signatures st) \<subseteq>\<^sub>m bt_get (pending_checkpoint_signatures (notify_checkpoint_signature info st))"
      unfolding n map_le_def using fresh by (auto simp: bt_get_insert)
    ultimately show ?thesis by blast
  qed (simp add: assms(1))
qed

end
