(* ===== verification/CertificateProperties.thy ===== *)
theory CertificateProperties
  imports CheckpointProperties CheckpointSystem
begin

text \<open>
  The properties of certificates, with four validators of equal stake that certify the first checkpoint of the sample run.
\<close>

section \<open>A sample\<close>

text \<open>An injective encoding of summaries: every number in unary, lists with their length.\<close>

definition enc_list :: "nat list \<Rightarrow> nat list" where "enc_list xs = length xs # xs"

definition enc_option :: "('a \<Rightarrow> nat list) \<Rightarrow> 'a option \<Rightarrow> nat list" where
  "enc_option f x = (case x of None \<Rightarrow> [0] | Some y \<Rightarrow> 1 # f y)"

definition enc_gas :: "gas_cost_summary \<Rightarrow> nat list" where
  "enc_gas g = [gcs_computation_cost g, gcs_storage_cost g, gcs_storage_rebate g, gcs_non_refundable_storage_fee g]"

definition enc_epoch_end :: "end_of_epoch_data \<Rightarrow> nat list" where
  "enc_epoch_end d = next_epoch_protocol_version d # enc_list (map fst (next_epoch_committee d)) @ enc_list (map snd (next_epoch_committee d)) @
     enc_list (epoch_commitments d)"

definition enc_summary :: "checkpoint_summary \<Rightarrow> nat list" where
  "enc_summary s = [cs_epoch s, cs_sequence_number s, cs_network_total_transactions s, cs_content_digest s, cs_timestamp_ms s] @
     enc_gas (cs_epoch_rolling_gas_cost_summary s) @ enc_list (cs_checkpoint_commitments s) @ enc_list (map unat (cs_version_specific_data s)) @
     enc_option (\<lambda>d. [d]) (cs_previous_digest s) @ enc_option enc_epoch_end (cs_end_of_epoch_data s)"

definition unary :: "nat list \<Rightarrow> bytes" where
  "unary xs = concat (map (\<lambda>n. replicate n 1 @ [0]) xs)"

lemma unary_step: "replicate n (1 :: 8 word) @ 0 # xs = replicate m 1 @ 0 # ys \<Longrightarrow> n = m \<and> xs = ys"
proof (induction n arbitrary: m)
  case 0
  then show ?case by (cases m) auto
next
  case (Suc n)
  then show ?case by (cases m) auto
qed

lemma unary_inj: "unary xs = unary ys \<Longrightarrow> xs = ys"
proof (induction xs arbitrary: ys)
  case Nil
  then show ?case by (cases ys) (auto simp: unary_def)
next
  case (Cons x xs)
  from Cons.prems obtain y zs where ys: "ys = y # zs" by (cases ys) (auto simp: unary_def)
  have "replicate x (1 :: 8 word) @ 0 # unary xs = replicate y 1 @ 0 # unary zs" using Cons.prems by (simp add: unary_def ys)
  from unary_step [OF this] Cons.IH show ?case by (auto simp: ys)
qed

lemma enc_list_append: "enc_list xs @ r = enc_list ys @ r' \<longleftrightarrow> xs = ys \<and> r = r'"
  by (auto simp: enc_list_def)

lemma enc_list_inj: "enc_list xs = enc_list ys \<longleftrightarrow> xs = ys"
  by (auto simp: enc_list_def)

lemma enc_epoch_end_inj: "enc_epoch_end d = enc_epoch_end d' \<Longrightarrow> d = d'"
proof -
  assume "enc_epoch_end d = enc_epoch_end d'"
  then have eq: "next_epoch_protocol_version d = next_epoch_protocol_version d'" "map fst (next_epoch_committee d) = map fst (next_epoch_committee d')"
    "map snd (next_epoch_committee d) = map snd (next_epoch_committee d')" "epoch_commitments d = epoch_commitments d'"
    unfolding enc_epoch_end_def by (simp_all add: enc_list_append enc_list_inj)
  then have "next_epoch_committee d = next_epoch_committee d'" by (metis zip_map_fst_snd)
  with eq show "d = d'" by (intro end_of_epoch_data.equality) simp_all
qed

lemma enc_summary_inj: "enc_summary s = enc_summary s' \<Longrightarrow> s = s'"
proof -
  assume "enc_summary s = enc_summary s'"
  then have eq: "cs_epoch s = cs_epoch s'" "cs_sequence_number s = cs_sequence_number s'" "cs_network_total_transactions s = cs_network_total_transactions s'"
    "cs_content_digest s = cs_content_digest s'" "cs_timestamp_ms s = cs_timestamp_ms s'"
    "enc_gas (cs_epoch_rolling_gas_cost_summary s) = enc_gas (cs_epoch_rolling_gas_cost_summary s')"
    "cs_checkpoint_commitments s = cs_checkpoint_commitments s'" "map unat (cs_version_specific_data s) = map unat (cs_version_specific_data s')"
    "enc_option (\<lambda>d. [d]) (cs_previous_digest s) @ enc_option enc_epoch_end (cs_end_of_epoch_data s) =
      enc_option (\<lambda>d. [d]) (cs_previous_digest s') @ enc_option enc_epoch_end (cs_end_of_epoch_data s')"
    unfolding enc_summary_def by (simp_all add: enc_list_append enc_gas_def)
  have "cs_epoch_rolling_gas_cost_summary s = cs_epoch_rolling_gas_cost_summary s'"
    using eq(6) by (intro gas_cost_summary.equality) (simp_all add: enc_gas_def)
  moreover have "cs_version_specific_data s = cs_version_specific_data s'"
    using eq(8) by (rule map_injective) (rule injI, simp add: word_unat_eq_iff)
  moreover have "cs_previous_digest s = cs_previous_digest s' \<and> cs_end_of_epoch_data s = cs_end_of_epoch_data s'"
    using eq(9) enc_epoch_end_inj by (auto simp: enc_option_def split: option.splits)
  ultimately show "s = s'" using eq by (intro checkpoint_summary.equality) simp_all
qed

definition sample_bytes :: "checkpoint_summary \<Rightarrow> nat \<Rightarrow> bytes" where
  "sample_bytes s ep = unary (ep # enc_summary s)"

lemma sample_bytes_inj: "inj (\<lambda>s. sample_bytes s ep)"
proof (rule injI)
  fix s s' assume "sample_bytes s ep = sample_bytes s' ep"
  then have "ep # enc_summary s = ep # enc_summary s'" unfolding sample_bytes_def by (rule unary_inj)
  then show "s = s'" using enc_summary_inj by simp
qed

text \<open>Four validators; all sign the first checkpoint.\<close>

definition sample_committee :: sui_committee where
  "sample_committee = the (sui_committee_new Some 0 [(1, 2500), (2, 2500), (3, 2500), (4, 2500)])"

definition sample_summary :: checkpoint_summary where "sample_summary = fst (hd (fst sample_built))"

lemma sample_summary_value [code]: "sample_summary = made_summary 0"
  by code_simp

definition sample_signed :: "nat \<Rightarrow> bytes \<Rightarrow> bool" where
  "sample_signed pk msg \<longleftrightarrow> pk \<in> {1, 2, 3, 4} \<and> msg = sample_bytes sample_summary 0"

type_synonym ideal_sig = "nat \<times> bytes"

definition ideal_verify :: "ideal_sig list \<times> nat list \<times> bytes \<Rightarrow> bool" where
  "ideal_verify = (\<lambda>(agg, pks, msg). agg = map (\<lambda>pk. (pk, msg)) pks \<and> list_all (\<lambda>pk. sample_signed pk msg) pks)"

definition sample_slib :: "(checkpoint_summary, ideal_sig, ideal_sig list) sig_lib" where
  "sample_slib = \<lparr>message_bytes = sample_bytes, aggregate_default = [], aggregate_sigs = Some, aggregate_add = (\<lambda>agg s. Some (agg @ [s])),
     aggregate_merge = (\<lambda>a b. Some (a @ b)),
     batch_verify = (\<lambda>aggs pks msgs. length aggs = length pks \<and> length pks = length msgs \<and> list_all ideal_verify (zip aggs (zip pks msgs)))\<rparr>"

definition sample_sign :: "nat \<Rightarrow> ideal_sig sign_info" where
  "sample_sign a = \<lparr>si_epoch = 0, si_authority = a, si_signature = (a, sample_bytes sample_summary 0)\<rparr>"

definition sample_info :: "nat \<Rightarrow> ideal_sig signature_message" where
  "sample_info a = \<lparr>sm_summary = sample_summary, sm_sign_info = sample_sign a\<rparr>"

lemma sample_committee_new: "sui_committee_new Some 0 [(1, 2500), (2, 2500), (3, 2500), (4, 2500)] = Some sample_committee"
proof -
  have "\<not> Option.is_none (sui_committee_new Some 0 [(1, 2500), (2, 2500), (3, 2500), (4, 2500)])" by code_simp
  then show ?thesis by (simp add: Option.is_none_def sample_committee_def)
qed

lemma sample_committee_wf: "sui_committee_wf sample_committee" and sample_committee_epoch [simp]: "sc_epoch sample_committee = 0"
  using sui_committee_new_wf [OF sample_committee_new] by simp_all

lemma sample_unforgeable: "unforgeable sample_slib sample_signed"
  by (auto simp: unforgeable_def sample_slib_def ideal_verify_def list_all_iff)

definition sample_valid :: "nat \<Rightarrow> bytes \<Rightarrow> ideal_sig \<Rightarrow> bool" where
  "sample_valid pk msg s \<longleftrightarrow> s = (pk, msg) \<and> sample_signed pk msg"

lemma sample_complete: "sig_complete sample_slib sample_valid"
proof -
  have "sigs = map (\<lambda>pk. (pk, msg)) pks \<and> list_all (\<lambda>pk. sample_signed pk msg) pks"
    if "list_all2 (\<lambda>pk. sample_valid pk msg) pks sigs" for pks sigs msg
    using that by induction (auto simp: sample_valid_def)
  then show ?thesis by (simp add: sig_complete_def sample_slib_def ideal_verify_def)
qed

text \<open>The validator files three signatures and certifies.\<close>

definition sample_node :: "ideal_sig aggregator_state" where
  "sample_node = fold notify_checkpoint_signature [sample_info 1, sample_info 2, sample_info 3]
     ((service_spawn sample_start sample_committee [])\<lparr>ag_tables := snd sample_built\<rparr>)"

definition sample_certs where "sample_certs = the (run_inner sample_lib sample_slib sample_node)"

definition sample_node2 :: "ideal_sig aggregator_state" where
  "sample_node2 = fold notify_checkpoint_signature [sample_info 4, sample_info 2, sample_info 3]
     ((service_spawn sample_start sample_committee [])\<lparr>ag_tables := snd sample_built\<rparr>)"

definition sample_certs2 where "sample_certs2 = the (run_inner sample_lib sample_slib sample_node2)"

lemma sample_cert_values:
  "map (cs_sequence_number \<circ> fst) (fst sample_certs) = [0]" "map (cs_sequence_number \<circ> fst) (fst sample_certs2) = [0]"
  "map (signers_map \<circ> snd) (fst sample_certs) = [[0, 1, 2]]" "map (signers_map \<circ> snd) (fst sample_certs2) = [[1, 2, 3]]"
  by code_simp+

lemma sample_run:
  "run_inner sample_lib sample_slib sample_node = Some (fst sample_certs, snd sample_certs)"
  "run_inner sample_lib sample_slib sample_node2 = Some (fst sample_certs2, snd sample_certs2)"
proof -
  have "\<not> Option.is_none (run_inner sample_lib sample_slib sample_node)" by code_simp
  then show "run_inner sample_lib sample_slib sample_node = Some (fst sample_certs, snd sample_certs)"
    by (simp add: Option.is_none_def sample_certs_def)
  have "\<not> Option.is_none (run_inner sample_lib sample_slib sample_node2)" by code_simp
  then show "run_inner sample_lib sample_slib sample_node2 = Some (fst sample_certs2, snd sample_certs2)"
    by (simp add: Option.is_none_def sample_certs2_def)
qed

abbreviation sample_spawned :: "ideal_sig aggregator_state" where
  "sample_spawned \<equiv> service_spawn sample_start sample_committee []"

abbreviation sample_steps where "sample_steps \<equiv> checkpoint_step sample_lib sample_slib sample_cfg sample_reads"

lemma sample_builder_steps:
  "builder_step sample_lib sample_cfg sample_reads (sample_start, []) (sample_written, [])"
  "builder_step sample_lib sample_cfg sample_reads (sample_written, []) (snd sample_built, fst sample_built)"
proof -
  note steps = builder_step.intros [where lib = sample_lib and cfg = sample_cfg and reads = sample_reads]
  show "builder_step sample_lib sample_cfg sample_reads (sample_start, []) (sample_written, [])"
    by (rule steps(1) [OF sample_writes(1)]) (simp add: sample_pending_def)
  show "builder_step sample_lib sample_cfg sample_reads (sample_written, []) (snd sample_built, fst sample_built)"
    using steps(3) [OF _ sample_builds(1), of "[]"] by (simp add: sample_values(1))
qed

lemma sample_signature_steps: "sample_steps\<^sup>*\<^sup>* (st, H, C) (fold notify_checkpoint_signature infos st, H, C)"
proof (induction infos arbitrary: st)
  case (Cons info infos)
  have "sample_steps (st, H, C) (notify_checkpoint_signature info st, H, C)" by (rule checkpoint_step.Signature)
  with Cons.IH show ?case by (simp add: converse_rtranclp_into_rtranclp)
qed simp

lemma sample_node_reached:
  "sample_steps\<^sup>*\<^sup>* (sample_spawned, [], []) (fold notify_checkpoint_signature infos (sample_spawned\<lparr>ag_tables := snd sample_built\<rparr>), fst sample_built, [])"
proof -
  have t: "ag_tables sample_spawned = sample_start" by (simp add: service_spawn_def Let_def)
  note builder = checkpoint_step.Builder [where lib = sample_lib and cfg = sample_cfg and reads = sample_reads and slib = sample_slib]
  have "sample_steps (sample_spawned, [], []) (sample_spawned\<lparr>ag_tables := sample_written\<rparr>, [], [])"
    by (rule builder) (simp add: t sample_builder_steps(1))
  moreover have "sample_steps (sample_spawned\<lparr>ag_tables := sample_written\<rparr>, [], [])
      (sample_spawned\<lparr>ag_tables := sample_written\<rparr>\<lparr>ag_tables := snd sample_built\<rparr>, fst sample_built, [])"
    by (rule builder) (simp add: sample_builder_steps(2))
  ultimately have "sample_steps\<^sup>*\<^sup>* (sample_spawned, [], []) (sample_spawned\<lparr>ag_tables := snd sample_built\<rparr>, fst sample_built, [])"
    by (simp add: converse_rtranclp_into_rtranclp)
  from rtranclp_trans [OF this sample_signature_steps] show ?thesis .
qed

lemma sample_aggregated:
  assumes "run_inner sample_lib sample_slib (fold notify_checkpoint_signature infos (sample_spawned\<lparr>ag_tables := snd sample_built\<rparr>)) = Some (certs, st)"
  shows "sample_steps\<^sup>*\<^sup>* (sample_spawned, [], []) (st, fst sample_built, certs)"
proof -
  have "sample_steps (fold notify_checkpoint_signature infos (sample_spawned\<lparr>ag_tables := snd sample_built\<rparr>), fst sample_built, [])
      (st, fst sample_built, [] @ certs)" by (rule checkpoint_step.Aggregate [OF assms])
  with sample_node_reached [of infos] show ?thesis by simp
qed

lemmas sample_certified = sample_aggregated [OF sample_run(1) [unfolded sample_node_def]] sample_aggregated [OF sample_run(2) [unfolded sample_node2_def]]

lemma sample_checkpoint_start: "checkpoint_start sample_committee sample_spawned"
  by (auto simp: checkpoint_start_def builder_start_def sample_start_def no_fork_def)

lemma sample_built_first: "sample_summary \<in> fst ` set (fst sample_built)"
proof -
  have "length (fst sample_built) = 3" by code_simp
  then have "fst sample_built \<noteq> []" by auto
  then show ?thesis by (simp add: sample_summary_def)
qed

lemma sample_numbers_left: "numbers_left (fst sample_built)"
proof -
  have "map (cs_sequence_number \<circ> fst) (fst sample_built) = [0, 1, 2]" by code_simp
  then have "list_all (\<lambda>n. n < 2 ^ 64 - 1) (map (cs_sequence_number \<circ> fst) (fst sample_built))" by simp
  then show ?thesis by (simp add: numbers_left_def list.pred_map comp_def)
qed

lemma sample_honest: "honest_signer sample_lib sample_slib sample_committee sample_signed a"
proof -
  have "builder_start sample_start" by (simp add: builder_start_def sample_start_def no_fork_def)
  moreover have "(builder_step sample_lib sample_cfg sample_reads)\<^sup>*\<^sup>* (sample_start, []) (snd sample_built, fst sample_built)"
    using sample_builder_steps by (simp add: converse_rtranclp_into_rtranclp)
  moreover have "\<exists>s \<in> fst ` set (fst sample_built). msg = message_bytes sample_slib s (sc_epoch sample_committee)" if "sample_signed pk msg" for pk msg
    by (rule bexI [OF _ sample_built_first]) (use that in \<open>simp add: sample_signed_def sample_slib_def\<close>)
  ultimately show ?thesis
    unfolding honest_signer_def using sample_reads_ok sample_acyclic sample_numbers_left by blast
qed

section \<open>Properties\<close>

text \<open>
  C2: Two validators never certify different checkpoints with the same number. Whatever each built, received and however
  often it restarted, the checkpoints their aggregators certify under one number are equal, when the faulty members
  hold less than the validity threshold, the others sign only what their builder made, and the signature scheme cannot be
  forged. The builders' steps are those before the last pending checkpoint of the epoch, which they do not take, with fixed tables of
  executed transactions, and from empty tables of their own, as in every epoch but 0.
\<close>

theorem certified_checkpoints_agree:
  assumes "sui_committee_wf c" and "unforgeable slib has_signed" and "inj (\<lambda>s. message_bytes slib s (sc_epoch c))"
    and "sui_faulty c F" and "\<forall>a \<in> sui_members c - F. honest_signer lib slib c has_signed a"
    and "checkpoint_start c st1" and "(checkpoint_step lib slib cfg1 reads1)\<^sup>*\<^sup>* (st1, [], []) (st1', H1, C1)" and "x1 \<in> set C1"
    and "checkpoint_start c st2" and "(checkpoint_step lib slib cfg2 reads2)\<^sup>*\<^sup>* (st2, [], []) (st2', H2, C2)" and "x2 \<in> set C2"
    and "cs_sequence_number (fst x1) = cs_sequence_number (fst x2)"
  shows "fst x1 = fst x2"
  by (rule certified_summaries_agree [OF assms(1,4,5,3) certified_reachable [OF assms(1,2,6-8)] certified_reachable [OF assms(1,2,9-11)] assms(12)])

theorem certified_checkpoints_agree_witness:
  "fst (hd (fst sample_certs)) = fst (hd (fst sample_certs2)) \<and>
   map (signers_map \<circ> snd) (fst sample_certs) = [[0, 1, 2]] \<and> map (signers_map \<circ> snd) (fst sample_certs2) = [[1, 2, 3]]"
proof -
  have inj: "inj (\<lambda>s. message_bytes sample_slib s (sc_epoch sample_committee))" using sample_bytes_inj by (simp add: sample_slib_def)
  have faulty: "sui_faulty sample_committee {}" by (simp add: sui_faulty_def VALIDITY_THRESHOLD_def)
  have ne: "fst sample_certs \<noteq> []" "fst sample_certs2 \<noteq> []" using sample_cert_values(1,2) by auto
  have same: "cs_sequence_number (fst (hd (fst sample_certs))) = cs_sequence_number (fst (hd (fst sample_certs2)))"
    using sample_cert_values(1,2) ne by (metis comp_apply hd_map)
  have "fst (hd (fst sample_certs)) = fst (hd (fst sample_certs2))"
    by (rule certified_checkpoints_agree [OF sample_committee_wf sample_unforgeable inj faulty _ sample_checkpoint_start sample_certified(1) _
          sample_checkpoint_start sample_certified(2) _ same])
      (use sample_honest ne in simp_all)
  with sample_cert_values(3,4) show ?thesis by blast
qed

text \<open>
  C10: A turn of the checkpoint aggregator always returns: in every reachable state its loop ends, and the check of a new
  certificate against the local checkpoint of its number cannot fail. Reachable is meant as for the agreement on certified
  checkpoints: before the last pending checkpoint of the epoch, with fixed tables of executed transactions, from
  empty tables of the builder.
\<close>

theorem aggregator_turn_returns:
  assumes "sui_committee_wf c" and "unforgeable slib has_signed" and "checkpoint_start c st0"
    and "(checkpoint_step lib slib cfg reads)\<^sup>*\<^sup>* (st0, [], []) (st, H, C)" and "reads_ok reads" and "acyclic (executed_rel reads)"
    and "numbers_left H" and "certified_numbers_left (ag_tables st)"
  shows "\<exists>certs st'. run_inner lib slib st = Some (certs, st')"
  using aggregator_loop_returns [OF turn_ok_reachable [OF assms] assms(1,2), of "[]"] by (auto simp: run_inner_def)

theorem aggregator_turn_returns_witness: "\<exists>certs st'. run_inner sample_lib sample_slib sample_node = Some (certs, st')"
proof -
  have "ag_tables sample_node = snd sample_built" by (simp add: sample_node_def)
  moreover have "list_all (\<lambda>k. k < 2 ^ 64 - 1) (map fst (certified_checkpoints (snd sample_built)))"
  proof -
    have "map fst (certified_checkpoints (snd sample_built)) = []" by code_simp
    then show ?thesis by simp
  qed
  ultimately have "certified_numbers_left (ag_tables sample_node)" by (auto simp: certified_numbers_left_def list_all_iff)
  from aggregator_turn_returns [OF sample_committee_wf sample_unforgeable sample_checkpoint_start
      sample_node_reached [of "[sample_info 1, sample_info 2, sample_info 3]", folded sample_node_def]
      sample_reads_ok sample_acyclic sample_numbers_left this] show ?thesis .
qed

text \<open>
  C9: \<^verbatim>\<open>StakeAggregator::insert\<close> gives the certificate as soon as the votes suffice: when all kept signatures and the new
  one are valid signatures of members and reach the threshold together, the insertion returns a certificate.
\<close>

theorem valid_quorum_certifies:
  assumes "votes_ok agg" and "infos_ok agg" and "sig_complete lib valid"
    and "\<forall>e \<in> insert (si_authority si, si) (set (sa_data agg)).
      valid_entry valid (sa_committee agg) (message_bytes lib msg (sc_epoch (sa_committee agg))) e"
    and "si_authority si \<notin> fst ` set (sa_data agg)" and "si_epoch si = sc_epoch (sa_committee agg)"
    and "sui_threshold strong \<le> sa_total_votes agg + sui_weight (sa_committee agg) (si_authority si)"
  shows "\<exists>q agg'. sa_insert lib strong msg si agg = (QuorumReached q, agg')"
  by (rule sa_insert_completes [OF assms])

definition sample_votes :: "ideal_sig sign_info list \<Rightarrow> ideal_sig sign_info sui_stake_aggregator" where
  "sample_votes sis = fold (\<lambda>si agg. snd (sa_insert sample_slib True sample_summary si agg)) sis (sa_new sample_committee)"

lemma fold_votes_ok:
  assumes "votes_ok agg" and "infos_ok agg"
  shows "votes_ok (fold (\<lambda>si agg. snd (sa_insert lib strong msg si agg)) sis agg) \<and>
    infos_ok (fold (\<lambda>si agg. snd (sa_insert lib strong msg si agg)) sis agg) \<and>
    sa_committee (fold (\<lambda>si agg. snd (sa_insert lib strong msg si agg)) sis agg) = sa_committee agg"
  using assms
proof (induction sis arbitrary: agg)
  case (Cons si sis)
  obtain r agg' where i: "sa_insert lib strong msg si agg = (r, agg')" by fastforce
  from sa_insert_ok [OF Cons.prems i] Cons.IH [of agg'] show ?case by (simp add: i)
qed simp

lemma sample_votes_ok: "votes_ok (sample_votes sis)" "infos_ok (sample_votes sis)" "sa_committee (sample_votes sis) = sample_committee"
  using fold_votes_ok [OF votes_ok_new [OF sample_committee_wf] infos_ok_new, of sample_slib True sample_summary sis]
  by (simp_all add: sample_votes_def sa_new_def)

theorem valid_quorum_certifies_witness:
  "\<exists>q agg'. sa_insert sample_slib True sample_summary (sample_sign 3) (sample_votes [sample_sign 1, sample_sign 2]) = (QuorumReached q, agg')"
proof (rule valid_quorum_certifies [OF sample_votes_ok(1,2) sample_complete, unfolded sample_votes_ok(3)])
  have votes: "sa_data (sample_votes [sample_sign 1, sample_sign 2]) = [(1, sample_sign 1), (2, sample_sign 2)]"
    "sa_total_votes (sample_votes [sample_sign 1, sample_sign 2]) = 5000" by code_simp+
  have c: "map (sui_weight sample_committee) [1, 2, 3] = [2500, 2500, 2500]" "map (sui_public_key sample_committee) [1, 2, 3] = [Some 1, Some 2, Some 3]"
    by code_simp+
  have v: "sample_valid a (message_bytes sample_slib sample_summary (sc_epoch sample_committee)) (si_signature (sample_sign a))" if "a \<in> {1, 2, 3, 4}" for a
    using that by (simp add: sample_valid_def sample_signed_def sample_sign_def sample_slib_def)
  show "\<forall>e \<in> insert (si_authority (sample_sign 3), sample_sign 3) (set (sa_data (sample_votes [sample_sign 1, sample_sign 2]))).
      valid_entry sample_valid sample_committee (message_bytes sample_slib sample_summary (sc_epoch sample_committee)) e"
    unfolding votes using c v [of 1] v [of 2] v [of 3] by (simp add: valid_entry_def sample_sign_def)
  show "si_authority (sample_sign 3) \<notin> fst ` set (sa_data (sample_votes [sample_sign 1, sample_sign 2]))"
    unfolding votes by (simp add: sample_sign_def)
  show "si_epoch (sample_sign 3) = sc_epoch sample_committee" by (simp add: sample_sign_def)
  show "sui_threshold True \<le> sa_total_votes (sample_votes [sample_sign 1, sample_sign 2]) + sui_weight sample_committee (si_authority (sample_sign 3))"
    unfolding votes using c by (simp add: sample_sign_def sui_threshold_def QUORUM_THRESHOLD_def)
qed

text \<open>
  C28: A signer outside the committee disables an aggregator. Its insertion is refused, but its entry stays, and after it no
  sequence of insertions ever gives a certificate, however many members sign.
\<close>

theorem outsider_blocks_certificates:
  assumes "votes_ok agg" and "infos_ok agg" and "si_authority si \<notin> sui_members (sa_committee agg)"
    and "si_authority si \<notin> fst ` set (sa_data agg)" and "si_epoch si = sc_epoch (sa_committee agg)"
  shows "fst (sa_insert lib strong msg si agg) = InsertFailed InvalidAuthenticator \<and>
    (\<forall>xs q. QuorumReached q \<notin> set (sa_inserts lib strong xs (snd (sa_insert lib strong msg si agg))))"
proof -
  let ?agg = "agg\<lparr>sa_data := bt_insert (si_authority si) si (sa_data agg)\<rparr>"
  have "sui_weight (sa_committee agg) (si_authority si) = 0" using assms(1,3) by (simp add: votes_ok_def sui_weight_outside)
  moreover have "bt_get (sa_data agg) (si_authority si) = None" using assms(4) by (simp add: bt_get_def map_of_eq_None_iff)
  ultimately have ins: "sa_insert lib strong msg si agg = (InsertFailed InvalidAuthenticator, ?agg)"
    using assms(5) by (simp add: sa_insert_def insert_generic_def Let_def)
  from sa_insert_ok [OF assms(1,2) ins] have ok: "votes_ok ?agg" "infos_ok ?agg" by simp_all
  have "\<forall>q. QuorumReached q \<notin> set (sa_inserts lib strong xs ?agg)" for xs
    by (rule sa_inserts_poisoned [OF ok, of "si_authority si"]) (use assms(3) in simp_all)
  with ins show ?thesis by simp
qed

theorem outsider_blocks_certificates_witness:
  "fst (sa_insert sample_slib True sample_summary (sample_sign 9) (sa_new sample_committee)) = InsertFailed InvalidAuthenticator \<and>
   \<not> list_ex (\<lambda>r. case r of QuorumReached _ \<Rightarrow> True | _ \<Rightarrow> False)
     (sa_inserts sample_slib True (map (\<lambda>a. (sample_summary, sample_sign a)) [1, 2, 3, 4])
       (snd (sa_insert sample_slib True sample_summary (sample_sign 9) (sa_new sample_committee))))"
proof -
  have "map fst (voting_rights sample_committee) = [1, 2, 3, 4]" by code_simp
  then have m: "sui_members sample_committee = {1, 2, 3, 4}" unfolding sui_members_def by (metis (no_types) list.set(1,2) set_map)
  let ?new = "sa_new sample_committee :: ideal_sig sign_info sui_stake_aggregator"
  let ?out = "sa_insert sample_slib True sample_summary (sample_sign 9) ?new"
  have outside: "si_authority (sample_sign 9) \<notin> sui_members (sa_committee ?new)" "si_authority (sample_sign 9) \<notin> fst ` set (sa_data ?new)"
    "si_epoch (sample_sign 9) = sc_epoch (sa_committee ?new)" by (simp_all add: sample_sign_def sa_new_def m)
  have blocked: "fst ?out = InsertFailed InvalidAuthenticator \<and> (\<forall>xs q. QuorumReached q \<notin> set (sa_inserts sample_slib True xs (snd ?out)))"
    by (rule outsider_blocks_certificates [OF votes_ok_new [OF sample_committee_wf] infos_ok_new outside])
  have none: "\<not> list_ex (\<lambda>r. case r of QuorumReached _ \<Rightarrow> True | _ \<Rightarrow> False) rs" if "\<forall>q. QuorumReached q \<notin> set rs"
    for rs :: "ideal_sig list quorum_sign_info insert_result list"
    using that by (induction rs) (auto split: insert_result.splits)
  show ?thesis by (rule conjI [OF conjunct1 [OF blocked] none]) (use blocked in blast)
qed

text \<open>
  C29: One bad signature can hide a quorum. When the batch fails, the aggregator drops the signatures that fail on
  their own and answers that there are not enough votes, also when the valid signatures it keeps still reach the threshold;
  without a further vote no certificate is made.
\<close>

theorem bad_signature_hides_quorum:
  assumes "votes_ok agg" and "infos_ok agg" and "si_epoch si = sc_epoch (sa_committee agg)"
    and "insert_generic (si_authority si) si strong agg = (QuorumReached d, agg1)"
    and "new_from_auth_sign_infos lib strong (map snd (sa_data agg1)) (sa_committee agg) = Inr q"
    and "quorum_verify_secure lib strong q msg (sa_committee agg) = Inl err"
    and "sui_threshold strong \<le> sum (sui_weight (sa_committee agg))
      (fst ` set (filter (\<lambda>x. \<not> isl (sign_info_verify_secure lib (snd x) msg (sa_committee agg))) (sa_data agg1)))"
  shows "\<exists>m bad agg'. sa_insert lib strong msg si agg = (NotEnoughVotes m bad, agg') \<and> sa_has_quorum strong agg' \<and>
    (\<forall>x \<in> set (sa_data agg'). \<not> isl (sign_info_verify_secure lib (snd x) msg (sa_committee agg)))"
proof -
  obtain m bad agg' where i: "sa_insert lib strong msg si agg = (NotEnoughVotes m bad, agg')"
    and d: "sa_data agg' = filter (\<lambda>x. \<not> isl (sign_info_verify_secure lib (snd x) msg (sa_committee agg))) (sa_data agg1)"
    and t: "sa_total_votes agg' = sum (sui_weight (sa_committee agg)) (fst ` set (sa_data agg'))"
    using sa_insert_drops [OF assms(1-6)] by blast
  have "sa_has_quorum strong agg'" using assms(7) unfolding sa_has_quorum_def t d .
  with i d show ?thesis by auto
qed

text \<open>Five validators: the signature of the first is bad, the second and the third reach the quorum by themselves.\<close>

definition uneven_committee :: sui_committee where
  "uneven_committee = the (sui_committee_new Some 0 [(1, 500), (2, 5000), (3, 2500), (4, 1000), (5, 1000)])"

definition bad_sign :: "ideal_sig sign_info" where
  "bad_sign = (sample_sign 1)\<lparr>si_signature := (1, [])\<rparr>"

definition uneven_votes :: "ideal_sig sign_info sui_stake_aggregator" where
  "uneven_votes = fold (\<lambda>si agg. snd (sa_insert sample_slib True sample_summary si agg)) [bad_sign, sample_sign 2] (sa_new uneven_committee)"

definition uneven_full :: "ideal_sig sign_info sui_stake_aggregator" where
  "uneven_full = snd (insert_generic 3 (sample_sign 3) True uneven_votes)"

definition uneven_cert where
  "uneven_cert = projr (new_from_auth_sign_infos sample_slib True (map snd (sa_data uneven_full)) uneven_committee)"

lemma uneven_committee_wf: "sui_committee_wf uneven_committee"
proof -
  have "\<not> Option.is_none (sui_committee_new Some 0 [(1, 500), (2, 5000), (3, 2500), (4, 1000), (5, 1000)])" by code_simp
  then have "sui_committee_new Some 0 [(1, 500), (2, 5000), (3, 2500), (4, 1000), (5, 1000)] = Some uneven_committee"
    by (simp add: Option.is_none_def uneven_committee_def)
  from sui_committee_new_wf(1) [OF this] show ?thesis by simp
qed

lemma uneven_votes_ok: "votes_ok uneven_votes" "infos_ok uneven_votes" "sa_committee uneven_votes = uneven_committee"
  using fold_votes_ok [OF votes_ok_new [OF uneven_committee_wf] infos_ok_new, of sample_slib True sample_summary "[bad_sign, sample_sign 2]"]
  by (simp_all add: uneven_votes_def sa_new_def)

theorem bad_signature_hides_quorum_witness:
  "\<exists>m bad agg'. sa_insert sample_slib True sample_summary (sample_sign 3) uneven_votes = (NotEnoughVotes m bad, agg') \<and> sa_has_quorum True agg'"
proof -
  have gen: "insert_generic (si_authority (sample_sign 3)) (sample_sign 3) True uneven_votes = (QuorumReached (sa_data uneven_full), uneven_full)"
  proof -
    have "fst (insert_generic 3 (sample_sign 3) True uneven_votes) = QuorumReached (sa_data uneven_full)" by code_simp
    then show ?thesis by (simp add: uneven_full_def sample_sign_def prod_eq_iff)
  qed
  have ep: "si_epoch (sample_sign 3) = sc_epoch (sa_committee uneven_votes)" by code_simp
  have "\<not> isl (new_from_auth_sign_infos sample_slib True (map snd (sa_data uneven_full)) uneven_committee)" by code_simp
  then have n: "new_from_auth_sign_infos sample_slib True (map snd (sa_data uneven_full)) (sa_committee uneven_votes) = Inr uneven_cert"
    by (simp add: uneven_cert_def uneven_votes_ok(3))
  have "isl (quorum_verify_secure sample_slib True uneven_cert sample_summary uneven_committee)" by code_simp
  then have e: "quorum_verify_secure sample_slib True uneven_cert sample_summary (sa_committee uneven_votes) =
      Inl (projl (quorum_verify_secure sample_slib True uneven_cert sample_summary uneven_committee))" by (simp add: uneven_votes_ok(3))
  have "map fst (filter (\<lambda>x. \<not> isl (sign_info_verify_secure sample_slib (snd x) sample_summary uneven_committee)) (sa_data uneven_full)) = [2, 3]"
    "map (sui_weight uneven_committee) [2, 3] = [5000, 2500]" by code_simp+
  then have "sui_threshold True \<le> sum (sui_weight (sa_committee uneven_votes))
      (fst ` set (filter (\<lambda>x. \<not> isl (sign_info_verify_secure sample_slib (snd x) sample_summary (sa_committee uneven_votes))) (sa_data uneven_full)))"
    unfolding uneven_votes_ok(3) set_map [symmetric] by (simp add: sui_threshold_def QUORUM_THRESHOLD_def)
  from bad_signature_hides_quorum [OF uneven_votes_ok(1,2) ep gen n e this] show ?thesis by blast
qed

text \<open>
  C30: Votes for another summary are forgotten. The aggregator checks every signature against its own summary, whatever
  digest the signer voted for; when signers of another checkpoint reach the threshold, all of them are dropped and the
  answer is that there are not enough votes, so that a quorum for another digest is never reported.
\<close>

theorem foreign_quorum_forgotten:
  assumes "votes_ok agg" and "infos_ok agg" and "unforgeable lib has_signed" and "si_epoch si = sc_epoch (sa_committee agg)"
    and "\<forall>a \<in> insert (si_authority si) (fst ` set (sa_data agg)). \<forall>pk. sui_public_key (sa_committee agg) a = Some pk \<longrightarrow>
      \<not> has_signed pk (message_bytes lib msg (sc_epoch (sa_committee agg)))"
    and "insert_generic (si_authority si) si strong agg = (QuorumReached d, agg1)"
    and "new_from_auth_sign_infos lib strong (map snd (sa_data agg1)) (sa_committee agg) = Inr q"
  shows "\<exists>m bad agg'. sa_insert lib strong msg si agg = (NotEnoughVotes m bad, agg') \<and> sa_data agg' = [] \<and> sa_total_votes agg' = 0"
  by (rule foreign_votes_dropped [OF assms])

text \<open>A validator with another timestamp in its summary receives the votes for the sample checkpoint.\<close>

definition other_summary :: checkpoint_summary where
  "other_summary = sample_summary\<lparr>cs_timestamp_ms := Suc (cs_timestamp_ms sample_summary)\<rparr>"

definition other_full :: "ideal_sig sign_info sui_stake_aggregator" where
  "other_full = snd (insert_generic 3 (sample_sign 3) True (sample_votes [sample_sign 1, sample_sign 2]))"

theorem foreign_quorum_forgotten_witness:
  "\<exists>m bad agg'. sa_insert sample_slib True other_summary (sample_sign 3) (sample_votes [sample_sign 1, sample_sign 2]) =
     (NotEnoughVotes m bad, agg') \<and> sa_data agg' = [] \<and> sa_total_votes agg' = 0"
proof -
  let ?agg = "sample_votes [sample_sign 1, sample_sign 2]"
  have "other_summary \<noteq> sample_summary"
  proof
    assume "other_summary = sample_summary"
    then have "cs_timestamp_ms other_summary = cs_timestamp_ms sample_summary" by simp
    then show False by (simp add: other_summary_def)
  qed
  then have "sample_bytes other_summary 0 \<noteq> sample_bytes sample_summary 0" using injD [OF sample_bytes_inj] by blast
  then have foreign: "\<not> sample_signed pk (message_bytes sample_slib other_summary (sc_epoch (sa_committee ?agg)))" for pk
    by (simp add: sample_signed_def sample_slib_def sample_votes_ok(3))
  have gen: "insert_generic (si_authority (sample_sign 3)) (sample_sign 3) True ?agg = (QuorumReached (sa_data other_full), other_full)"
  proof -
    have "fst (insert_generic 3 (sample_sign 3) True ?agg) = QuorumReached (sa_data other_full)" by code_simp
    then show ?thesis by (simp add: other_full_def sample_sign_def prod_eq_iff)
  qed
  have ep: "si_epoch (sample_sign 3) = sc_epoch (sa_committee ?agg)" by (simp add: sample_sign_def sample_votes_ok(3))
  let ?new = "new_from_auth_sign_infos sample_slib True (map snd (sa_data other_full)) sample_committee"
  have "\<not> isl ?new" by code_simp
  then have "new_from_auth_sign_infos sample_slib True (map snd (sa_data other_full)) (sa_committee ?agg) = Inr (projr ?new)"
    unfolding sample_votes_ok(3) by simp
  from foreign_quorum_forgotten [OF sample_votes_ok(1,2) sample_unforgeable ep _ gen this] foreign show ?thesis by blast
qed

text \<open>
  C31: A restart can lose a pending signature. The counter of signatures restarts at the index of the entry with the greatest
  key, which is not the greatest index; when a pending entry has the next index and the number of the next arriving signature,
  that signature replaces it.
\<close>

theorem restart_overwrites_signature:
  assumes "bt_last sigs = Some ((seq, i), other)" and "bt_get sigs (cs_sequence_number (sm_summary info), add64 i 1) = Some old"
    and "\<forall>k v. bt_last (certified_checkpoints tables) = Some (k, v) \<longrightarrow> k < cs_sequence_number (sm_summary info)"
  shows "pending_checkpoint_signatures (notify_checkpoint_signature info (service_spawn tables c sigs)) =
    bt_insert (cs_sequence_number (sm_summary info), add64 i 1) info sigs \<and>
    dom (bt_get (pending_checkpoint_signatures (notify_checkpoint_signature info (service_spawn tables c sigs)))) = dom (bt_get sigs)"
  by (rule spawn_notify_replaces [OF assms])

text \<open>A signature for checkpoint 5 arrives, then one for checkpoint 4; after a restart the next one for checkpoint 4 replaces it.\<close>

definition numbered_info :: "nat \<Rightarrow> nat \<Rightarrow> ideal_sig signature_message" where
  "numbered_info n a = \<lparr>sm_summary = sample_summary\<lparr>cs_sequence_number := n\<rparr>, sm_sign_info = sample_sign a\<rparr>"

definition numbered_sigs :: "(nat \<times> nat, ideal_sig signature_message) btree_map" where
  "numbered_sigs = pending_checkpoint_signatures (fold notify_checkpoint_signature [numbered_info 5 1, numbered_info 4 2] sample_spawned)"

lemma numbered_sigs_value: "numbered_sigs = [((4, 2), numbered_info 4 2), ((5, 1), numbered_info 5 1)]"
  by (simp add: numbered_sigs_def numbered_info_def notify_checkpoint_signature_def service_spawn_def insert_checkpoint_signature_def
      get_last_checkpoint_signature_index_def sample_start_def add64_def bt_last_def Let_def)

theorem restart_overwrites_signature_witness:
  "pending_checkpoint_signatures (notify_checkpoint_signature (numbered_info 4 3) (service_spawn sample_start sample_committee numbered_sigs)) =
     [((4, 2), numbered_info 4 3), ((5, 1), numbered_info 5 1)]"
proof -
  have info: "cs_sequence_number (sm_summary (numbered_info n a)) = n" for n a by (simp add: numbered_info_def)
  have last: "bt_last numbered_sigs = Some ((5, 1), numbered_info 5 1)" by (simp add: numbered_sigs_value bt_last_def)
  have old: "bt_get numbered_sigs (cs_sequence_number (sm_summary (numbered_info 4 3)), add64 1 1) = Some (numbered_info 4 2)"
    by (simp add: numbered_sigs_value info add64_def bt_get_def)
  have "bt_last (certified_checkpoints sample_start) = None" by (simp add: sample_start_def bt_last_def)
  with restart_overwrites_signature [OF last old, of sample_start sample_committee] show ?thesis
    by (simp add: info add64_def numbered_sigs_value)
qed

text \<open>
  C32: What \<^verbatim>\<open>Committee::new\<close> returns is a committee: the indices and the names of its members are inverse to each
  other, the binary search finds the voting rights it was given, they sum to the total, and members and only members have
  a key.
\<close>

theorem committee_new_well_formed:
  assumes new: "sui_committee_new expand ep rights = Some c" and "keys_sorted rights" and "length rights < 2 ^ 32"
    and "sum_list (map snd rights) < 2 ^ 64"
  shows "sui_committee_wf c \<and> sum (sui_weight c) (sui_members c) = TOTAL_VOTING_POWER \<and>
    (\<forall>a. sui_weight c a = (case bt_get rights a of Some w \<Rightarrow> w | None \<Rightarrow> 0)) \<and>
    (\<forall>a i. authority_index c a = Some i \<longleftrightarrow> authority_by_index c i = Some a) \<and>
    (\<forall>a. authority_exists c a \<longleftrightarrow> sui_public_key c a \<noteq> None)"
proof -
  note wf = sui_committee_new_wf [OF assms]
  have "authority_exists c a \<longleftrightarrow> sui_public_key c a \<noteq> None" for a
    by (rule authority_exists_key [OF wf(1)])
  with wf(2) sui_weight_total [OF wf(1)] authority_index_by_index [OF wf(1)] sui_weight_get [of c] assms(2) wf(1) show ?thesis by simp
qed

theorem committee_new_well_formed_witness:
  "sum (sui_weight sample_committee) (sui_members sample_committee) = TOTAL_VOTING_POWER \<and> sui_weight sample_committee 3 = 2500 \<and>
   (\<forall>a i. authority_index sample_committee a = Some i \<longleftrightarrow> authority_by_index sample_committee i = Some a)"
proof -
  let ?rights = "[(1, 2500), (2, 2500), (3, 2500), (4, 2500)] :: (authority_name \<times> nat) list"
  have "keys_sorted ?rights" "length ?rights < 2 ^ 32" "sum_list (map snd ?rights) < 2 ^ 64" by simp_all
  note ok = committee_new_well_formed [OF sample_committee_new this]
  note total = ok [THEN conjunct2, THEN conjunct1] and indices = ok [THEN conjunct2, THEN conjunct2, THEN conjunct2, THEN conjunct1]
  have "sui_weight sample_committee 3 = (case bt_get ?rights 3 of Some w \<Rightarrow> w | None \<Rightarrow> 0)"
    by (rule ok [THEN conjunct2, THEN conjunct2, THEN conjunct1, THEN spec])
  also have "\<dots> = 2500" by (simp add: bt_get_def)
  finally show ?thesis by (intro conjI total indices)
qed

end
