(* ===== verification/Spec2Isabelle.thy ===== *)
theory Spec2Isabelle
  imports ConsensusProperties CoreProperties ExecutionProperties TmProperties CertificateProperties
begin

text \<open>
  A verification of the core of the Sui node that this repository vendors under \<^verbatim>\<open>src/booknft/sui\<close>: how
  validators agree on an order (the consensus core), when an ordered transaction may execute (the transaction manager),
  and what it is charged and leaves behind (gas, store, effects and the execution engine), and how executed transactions
  become the chain of checkpoints that validators certify (the checkpoint builder and the checkpoint aggregator).

  \<^bold>\<open>Conventions.\<close> A panic of the code is \<open>None\<close>, an error value is \<open>Inl\<close>. Arithmetic wraps
  as in a release build (\<open>add64\<close>, \<open>sum64\<close>), and panics on overflow in the modules compiled with checked arithmetic
  (\<open>checked_add64\<close> and the like). A \<^verbatim>\<open>BTreeMap\<close> is an ordered association list, a \<^verbatim>\<open>BTreeSet\<close> an
  ordered list, machine integers are naturals with their bounds written out, bytes are \<open>8 word\<close>.

  \<^bold>\<open>Consensus\<close> (\<^verbatim>\<open>consensus/core/src\<close>, \<^verbatim>\<open>consensus/config/src\<close>).
  \<^item> \<open>Prelude\<close>: options, ordered maps, wrapping sums; the locale of ordered maps.
  \<^item> \<open>Committee\<close>, \<open>Block\<close>: stakes and quorums, blocks, slots, signatures (the scheme is an argument), commits.
  \<^item> \<open>StakeAggregator\<close>, \<open>ThresholdClock\<close>: votes up to a threshold; the clock refines "the highest round
    seen, plus one after a quorum", unless one authority is a quorum alone.
  \<^item> \<open>MemStore\<close>, \<open>DagState\<close>, \<open>Recovery\<close>: the store, the DAG with its invariant, its traversals, and its rebuilding from
    the store.
  \<^item> \<open>LeaderSchedule\<close>, \<open>BaseCommitter\<close>, \<open>UniversalCommitter\<close>: election, votes, certificates, the direct and the indirect
    rule and the sequence of decisions. The recursive search of \<^verbatim>\<open>find_supported_block\<close> is a partial function; that it
    returns on closed DAGs is proved.
  \<^item> \<open>CommitRule\<close>, \<open>CommitSafety\<close>, \<open>Scenario\<close>: the commit rule on abstract votes, agreement of two views by quorum
    intersection, a concrete DAG.
  \<^item> \<open>TransactionsClient\<close>, \<open>Core\<close>, \<open>LeaderTimeout\<close>: submission, proposals, and the timeout task as state machines.
  \<^item> \<open>ConsensusProperties\<close>, \<open>CoreProperties\<close>: the properties of consensus.

  \<^bold>\<open>Execution\<close> (\<^verbatim>\<open>crates/sui-types/src\<close>, \<^verbatim>\<open>sui-execution/latest/sui-adapter/src\<close>).
  \<^item> \<open>GasTables\<close>: cost tables and the meter the Move VM calls (\<^verbatim>\<open>gas_model/tables.rs\<close>, \<^verbatim>\<open>units_types.rs\<close>).
  \<^item> \<open>Objects\<close>: objects, owners and coin balances in bytes (\<^verbatim>\<open>object.rs\<close>).
  \<^item> \<open>SuiGas\<close>: the gas status of a transaction (\<^verbatim>\<open>gas_v2.rs\<close>, \<^verbatim>\<open>gas.rs\<close>).
  \<^item> \<open>TemporaryStore\<close>, \<open>StoreAccounting\<close>: the writes of a transaction and the accounts of their storage rebates.
  \<^item> \<open>GasCharger\<close>, \<open>GasConservation\<close>: smashing, charging, resetting, and that every path conserves SUI.
  \<^item> \<open>Effects\<close>, \<open>EffectsAgree\<close>: both versions of the effects, and that they say the same.
  \<^item> \<open>Ownership\<close>: the ownership check; its loop is a partial function, proved to return because identifiers are bounded. What it
    accepts is owned, or its chain of owners runs into a cycle.
  \<^item> \<open>ExecutionEngine\<close>, \<open>EngineSafety\<close>: the engine from inputs to effects, and that the guarantees of gas
    hold of it for every run of the Move VM that keeps \<open>run_ok\<close>. That a failed transaction only pays is shown with the expensive
    conservation checks off; the rebates of a system transaction need the system state object written, or the step panics.
  \<^item> \<open>GasProperties\<close>, \<open>ExecutionProperties\<close>: the properties of execution, with a sample transaction.

  \<^bold>\<open>Scheduling\<close> (\<^verbatim>\<open>crates/sui-core/src/transaction_manager.rs\<close> and what it calls).
  \<^item> \<open>TransactionManager\<close>: the cache of available objects, the queues, and every operation of the manager; enqueueing is
    three operations, since it releases its lock in between.
  \<^item> \<open>TmInvariant\<close>: the queues, the missed keys and the waiting certificates agree; every operation keeps that.
  \<^item> \<open>TmSystem\<close>: the manager among commits and enqueueing threads, as a step relation over all interleavings. A
    notification is assumed to come after the write of its objects, and the versions of an object to be notified in order. A
    reconfiguration is a step only when no enqueue is between its locks.
  \<^item> \<open>TmProperties\<close>: no wake-up is lost, only complete certificates are sent, no assertion fails; and what follows on a
    reconfiguration between the locks: as many enqueues as were open cannot end.

  \<^bold>\<open>Checkpoints\<close> (\<^verbatim>\<open>crates/sui-core/src/checkpoints\<close>, tables of \<^verbatim>\<open>authority_per_epoch_store.rs\<close>).
  \<^item> \<open>CausalOrder\<close>: the sort of effects. Its two loops are partial functions; that they return on every input, cycles
    included, is proved.
  \<^item> \<open>CheckpointBuilder\<close>: the tables and the builder, from a pending checkpoint through the closure of its roots, the sort
    and the cut into chunks to summaries and contents; certified checkpoints and the fork check.
  \<^item> \<open>CheckpointCorrect\<close>: the closure is exactly the inductive one and its loop returns; chunks keep the limits.
  \<^item> \<open>CheckpointChain\<close>: numbers, links and totals, the machine of pending checkpoints, certified checkpoints and turns of the
    builder with its invariant, progress, and the end of an epoch.
  \<^item> \<open>BuilderLoop\<close>: the loop of the builder, which builds the pending checkpoints in order and each once.
  \<^item> \<open>CheckpointProperties\<close>: the properties of checkpoints, on a sample run.
  The pending dependencies of a round are a hash set in the code and sorted here; the sort afterwards gives the same list
  for every order. The invariant assumes that executed effects exist for what was signed and that dependencies have no cycle.
  The machine of \<open>CheckpointChain\<close>, which the certificates below are about too, is that of an epoch before its last pending
  checkpoint, which it does not take; the tables of executed transactions (\<open>checkpoint_reads\<close>) are fixed through a run, and the
  builder's tables are empty at the start (\<open>builder_start\<close>), as in every epoch but 0, where \<^verbatim>\<open>put_genesis_checkpoint_in_builder\<close> has
  filed the genesis checkpoint. The loop of \<open>BuilderLoop\<close> has none of these limits, and what is said of one pending
  checkpoint holds of the last one too.

  \<^bold>\<open>Certificates\<close> (\<^verbatim>\<open>crates/sui-types/src/committee.rs\<close>, \<^verbatim>\<open>crypto.rs\<close>, \<^verbatim>\<open>crates/sui-core/src/stake_aggregator.rs\<close>, the
  aggregator in \<^verbatim>\<open>checkpoints/mod.rs\<close>).
  \<^item> \<open>SuiCommittee\<close>: the committee of an epoch, its binary search and its indices; the quorum contract of consensus holds
    of it too.
  \<^item> \<open>QuorumSignatures\<close>: signatures, certificates and their verification, and the three kinds of stake aggregators.
  \<^item> \<open>QuorumCorrect\<close>: votes are the stake of the kept signers; a certificate was signed by a quorum; two certificates
    share an honest signer; valid signatures of a quorum give a certificate.
  \<^item> \<open>CheckpointAggregator\<close>: the table of pending signatures, the service that fills it, and a turn of the aggregator, whose
    loop is a partial function.
  \<^item> \<open>CheckpointSystem\<close>: builder, arriving signatures, aggregator and restarts as one step relation with its invariant;
    turns of the aggregator return; two validators agree on what they certify.
  \<^item> \<open>CertificateProperties\<close>: the properties of certificates, with an ideal signature scheme on the sample run.
  Agreement assumes that nobody can forge a signature (\<open>unforgeable\<close>), that different summaries have different signed bytes,
  and that honest validators, which hold more than two thirds of the stake, sign only what they built. That valid
  signatures aggregate and verify (\<open>sig_complete\<close>) is assumed where certificates must appear.

  \<^bold>\<open>Parameters.\<close> The hash of blocks and the signature scheme; the generator behind leader election; the sizes and hashes of
  serialized objects (\<open>object_lib\<close>); the backing store (\<open>backing_store\<close>); the SUI embedded in an object
  (\<open>embedded\<close>); the hash of events; the translation of an error to a status; the run of a transaction's kind on the Move
  VM (\<open>run_kind\<close>); the LRU cache and the insertion-ordered map of the manager (\<open>tm_lib\<close>, with \<open>tm_laws\<close>) and the tables it
  reads (\<open>object_reads\<close>); hashes and sizes of checkpoints (\<open>checkpoint_lib\<close>) and what execution left for them
  (\<open>checkpoint_reads\<close>); the signature scheme behind certificates (\<open>sig_lib\<close>) and the expansion of names to keys
  (\<open>expand\<close>).

  \<^bold>\<open>Not modelled.\<close> Storage on disk and networking; the Move language, its VM and verifier; the rest of the authority of \<^verbatim>\<open>sui-core\<close> and the
  older Narwhal consensus; RPC, indexers, SDK and tools, which read what the core produces; logging and metrics.
\<close>

end
